(* ===== verification/Prelude.thy ===== *)
theory Prelude
  imports Main "HOL-Library.Word" "HOL-Library.Monad_Syntax" "HOL-Library.Multiset"
begin

text \<open>
  The vocabulary the component theories share: machine types, the checked
  arithmetic of integer.h, allocation, C strings, the byte classes of
  util.h, and generic lemmas on lists and options.

  Conventions of the whole development (an LP64 target with signed \<open>char\<close>):
  \<^item> a byte is an \<open>8 word\<close>; where the C code compares plain \<open>char\<close> values the
    model compares \<open>schar\<close>, the two's complement reading;
  \<^item> a \<open>size_t\<close> is a \<open>nat\<close> below \<open>2 ^ 64\<close>; every addition or product that the code
    guards goes through \<open>add_sizet\<close> and \<open>mul_sizet\<close>, and one that may wrap is written with \<open>mod\<close>;
  \<^item> a C function that returns an error code and updates a structure has
    the result type \<open>(int \<times> 's) option\<close>; \<open>None\<close> means that the execution left the defined
    behaviour of C (an access outside an object, a failed \<open>assert\<close>, or a loop that does not end).
\<close>

unbundle bit_operations_syntax

named_theorems cint "unfolding rules of the C-level combinators"
named_theorems bytes_simps "rules about byte strings and character classes"

section \<open>Machine integers\<close>

type_synonym byte = "8 word"
type_synonym u32 = "32 word"
type_synonym u64 = "64 word"

abbreviation B :: "char \<Rightarrow> byte" where
  "B c \<equiv> of_char c"

definition bytes_of :: "string \<Rightarrow> byte list" where
  "bytes_of s = map of_char s"

definition schar :: "byte \<Rightarrow> int" where
  "schar c = sint c"

definition SIZE_MAX :: nat where
  "SIZE_MAX = 2 ^ 64 - 1"

definition add_sizet :: "nat \<Rightarrow> nat \<Rightarrow> nat option" where
  "add_sizet one two = (if SIZE_MAX - one < two then None else Some (one + two))"

definition mul_sizet :: "nat \<Rightarrow> nat \<Rightarrow> nat option" where
  "mul_sizet one two =
     (if one \<noteq> 0 \<and> SIZE_MAX div one < two then None else Some (one * two))"

lemma add_sizet_Some_iff:
  "add_sizet a b = Some c \<longleftrightarrow> \<not> SIZE_MAX - a < b \<and> c = a + b"
  by (auto simp: add_sizet_def)

lemma add_sizet_fits [simp]:
  "a + b < 2 ^ 64 \<Longrightarrow> add_sizet a b = Some (a + b)"
  by (simp add: add_sizet_def SIZE_MAX_def)

lemma add_sizet_None:
  "a < 2 ^ 64 \<Longrightarrow> add_sizet a b = None \<longleftrightarrow> 2 ^ 64 \<le> a + b"
  by (auto simp: add_sizet_def SIZE_MAX_def)

lemma mul_sizet_fits [simp]:
  assumes "a * b < 2 ^ 64"
  shows "mul_sizet a b = Some (a * b)"
proof (cases "a = 0")
  case False
  have "a * b \<le> SIZE_MAX"
    using assms by (simp add: SIZE_MAX_def)
  then have "b \<le> SIZE_MAX div a"
    using False by (simp add: less_eq_div_iff_mult_less_eq mult.commute)
  then show ?thesis by (simp add: mul_sizet_def)
qed (simp add: mul_sizet_def)

lemma mul_sizet_Some:
  assumes "mul_sizet a b = Some c" and "a < 2 ^ 64"
  shows "c = a * b" and "c < 2 ^ 64"
proof -
  show c: "c = a * b"
    using assms by (auto simp: mul_sizet_def split: if_splits)
  show "c < 2 ^ 64"
  proof (cases "a = 0")
    case False
    then have "b \<le> SIZE_MAX div a"
      using assms by (auto simp: mul_sizet_def split: if_splits)
    then have "a * b \<le> SIZE_MAX"
      using False by (simp add: less_eq_div_iff_mult_less_eq mult.commute)
    then show ?thesis using c by (simp add: SIZE_MAX_def)
  qed (simp add: c)
qed

section \<open>Return codes\<close>

abbreviation GIT_ENOTFOUND :: int where "GIT_ENOTFOUND \<equiv> -3"
abbreviation GIT_EEXISTS :: int where "GIT_EEXISTS \<equiv> -4"
abbreviation GIT_EAMBIGUOUS :: int where "GIT_EAMBIGUOUS \<equiv> -5"
abbreviation GIT_EBUFS :: int where "GIT_EBUFS \<equiv> -6"
abbreviation GIT_EINVALIDSPEC :: int where "GIT_EINVALIDSPEC \<equiv> -12"
abbreviation GIT_EINVALID :: int where "GIT_EINVALID \<equiv> -21"

text \<open>
  \<open>or_fail\<close> is \<open>if (f(...) < 0) return -1;\<close>, \<open>alloc_add\<close> and \<open>alloc_mul\<close> are
  the macros \<open>GITERR_CHECK_ALLOC_ADD\<close> and \<open>GITERR_CHECK_ALLOC_MULTIPLY\<close>
  of common.h: on overflow the function returns -1 with the state it has.
\<close>

definition or_fail :: "(int \<times> 's) option \<Rightarrow> ('s \<Rightarrow> (int \<times> 's) option) \<Rightarrow> (int \<times> 's) option" where
  "or_fail m k =
     (case m of
        None \<Rightarrow> None
      | Some (r, s) \<Rightarrow> if r < 0 then Some (-1, s) else k s)"

definition alloc_add :: "'s \<Rightarrow> nat \<Rightarrow> nat \<Rightarrow> (nat \<Rightarrow> (int \<times> 's) option) \<Rightarrow> (int \<times> 's) option" where
  "alloc_add s one two k =
     (case add_sizet one two of None \<Rightarrow> Some (-1, s) | Some n \<Rightarrow> k n)"

definition alloc_mul :: "'s \<Rightarrow> nat \<Rightarrow> nat \<Rightarrow> (nat \<Rightarrow> (int \<times> 's) option) \<Rightarrow> (int \<times> 's) option" where
  "alloc_mul s one two k =
     (case mul_sizet one two of None \<Rightarrow> Some (-1, s) | Some n \<Rightarrow> k n)"

lemma or_fail_simps [simp, cint]:
  "or_fail None k = None"
  "or_fail (Some (r, s)) k = (if r < 0 then Some (-1, s) else k s)"
  by (simp_all add: or_fail_def)

lemma alloc_add_fits [simp, cint]:
  "a + b < 2 ^ 64 \<Longrightarrow> alloc_add s a b k = k (a + b)"
  by (simp add: alloc_add_def)

lemma alloc_mul_fits [simp, cint]:
  "a * b < 2 ^ 64 \<Longrightarrow> alloc_mul s a b k = k (a * b)"
  by (simp add: alloc_mul_def)

section \<open>Allocation\<close>

text \<open>
  The C allocator is a parameter: a request for \<open>n\<close> cells either fails
  (\<open>None\<close>) or yields \<open>n\<close> cells of unspecified contents. \<open>good_alloc\<close> is what malloc
  and realloc document, \<open>total_alloc\<close> says that no request is refused.
  A failed request leaves the old block as it was.
\<close>

type_synonym 'a allocator = "nat \<Rightarrow> 'a list option"

definition good_alloc :: "'a allocator \<Rightarrow> bool" where
  "good_alloc al \<longleftrightarrow> (\<forall>n m. al n = Some m \<longrightarrow> length m = n)"

definition total_alloc :: "'a allocator \<Rightarrow> bool" where
  "total_alloc al \<longleftrightarrow> (\<forall>n. al n \<noteq> None)"

definition realloc_cells :: "'a allocator \<Rightarrow> 'a list \<Rightarrow> nat \<Rightarrow> 'a list option" where
  "realloc_cells al old n =
     (case al n of
        None \<Rightarrow> None
      | Some fresh \<Rightarrow> Some (take n old @ drop (length old) fresh))"

text \<open>\<open>git__reallocarray\<close> on elements of pointer size: the byte count is checked for overflow first.\<close>

definition git__reallocarray :: "'a allocator \<Rightarrow> 'a list \<Rightarrow> nat \<Rightarrow> 'a list option" where
  "git__reallocarray al old nelem =
     (case mul_sizet nelem 8 of None \<Rightarrow> None | Some newsize \<Rightarrow> realloc_cells al old nelem)"

definition fill_alloc :: "'a \<Rightarrow> 'a allocator" where
  "fill_alloc x n = Some (replicate n x)"

definition limit_alloc :: "nat \<Rightarrow> 'a \<Rightarrow> 'a allocator" where
  "limit_alloc lim x n = (if n \<le> lim then Some (replicate n x) else None)"

lemma good_fill_alloc [simp]: "good_alloc (fill_alloc x)"
  by (simp add: good_alloc_def fill_alloc_def)

lemma total_fill_alloc [simp]: "total_alloc (fill_alloc x)"
  by (simp add: total_alloc_def fill_alloc_def)

lemma good_limit_alloc [simp]: "good_alloc (limit_alloc lim x)"
  by (auto simp: good_alloc_def limit_alloc_def)

lemma realloc_cells_length:
  "good_alloc al \<Longrightarrow> realloc_cells al old n = Some m \<Longrightarrow> length m = n"
  by (auto simp: realloc_cells_def good_alloc_def split: option.splits)

lemma realloc_cells_take:
  assumes "good_alloc al" and "realloc_cells al old n = Some m" and "k \<le> length old" and "k \<le> n"
  shows "take k m = take k old"
  using assms by (auto simp: realloc_cells_def min_def split: option.splits)

lemma realloc_cells_total:
  "total_alloc al \<Longrightarrow> realloc_cells al old n \<noteq> None"
  by (auto simp: realloc_cells_def total_alloc_def split: option.splits)

lemma git__reallocarray_cases:
  assumes "good_alloc al" and "git__reallocarray al old n = Some m"
  shows "length m = n" and "k \<le> length old \<Longrightarrow> k \<le> n \<Longrightarrow> take k m = take k old"
  using assms by (auto simp: git__reallocarray_def realloc_cells_length realloc_cells_take split: option.splits)

lemma git__reallocarray_total:
  "total_alloc al \<Longrightarrow> n < 2 ^ 61 \<Longrightarrow> git__reallocarray al old n \<noteq> None"
  using realloc_cells_total [of al old n] by (simp add: git__reallocarray_def)

section \<open>C strings\<close>

text \<open>
  A C string argument is given by the bytes of its object; \<open>cstr\<close> is the part
  before the first NUL (the object's end counts as one), \<open>cstrlen\<close> is \<open>strlen\<close>,
  and \<open>peek\<close> reads \<open>*p\<close> for a pointer represented by the bytes left of the string.
\<close>

definition cstr :: "byte list \<Rightarrow> byte list" where
  "cstr s = takeWhile (\<lambda>c. c \<noteq> 0) s"

definition cstrlen :: "byte list \<Rightarrow> nat" where
  "cstrlen s = length (cstr s)"

definition peek :: "byte list \<Rightarrow> byte" where
  "peek s = (case s of [] \<Rightarrow> 0 | c # _ \<Rightarrow> c)"

lemma peek_simps [simp]: "peek [] = 0" "peek (c # s) = c"
  by (simp_all add: peek_def)

lemma cstr_no_nul [simp]: "0 \<notin> set (cstr s)"
  by (auto simp: cstr_def dest: set_takeWhileD)

lemma cstr_id: "0 \<notin> set s \<Longrightarrow> cstr s = s"
  by (auto simp: cstr_def takeWhile_eq_all_conv)

lemma cstr_Nil [simp]: "cstr [] = []"
  by (simp add: cstr_def)

lemma cstr_append_nul: "0 \<notin> set s \<Longrightarrow> cstr (s @ 0 # t) = s"
  by (simp add: cstr_def takeWhile_append2 takeWhile_tail) (metis takeWhile_eq_all_conv)

lemma cstr_idem [simp]: "cstr (cstr s) = cstr s"
  by (simp add: cstr_id)

section \<open>Byte classes (util.h)\<close>

definition git_isupper :: "byte \<Rightarrow> bool" where
  "git_isupper c \<longleftrightarrow> schar c \<ge> 65 \<and> schar c \<le> 90"

definition git_isalpha :: "byte \<Rightarrow> bool" where
  "git_isalpha c \<longleftrightarrow> (schar c \<ge> 65 \<and> schar c \<le> 90) \<or> (schar c \<ge> 97 \<and> schar c \<le> 122)"

definition git_isdigit :: "byte \<Rightarrow> bool" where
  "git_isdigit c \<longleftrightarrow> schar c \<ge> 48 \<and> schar c \<le> 57"

definition git_isspace :: "byte \<Rightarrow> bool" where
  "git_isspace c \<longleftrightarrow> c = 32 \<or> c = 9 \<or> c = 10 \<or> c = 12 \<or> c = 13 \<or> c = 11"

definition git_isspace_nonlf :: "byte \<Rightarrow> bool" where
  "git_isspace_nonlf c \<longleftrightarrow> c = 32 \<or> c = 9 \<or> c = 12 \<or> c = 13 \<or> c = 11"

definition git_iswildcard :: "byte \<Rightarrow> bool" where
  "git_iswildcard c \<longleftrightarrow> c = B (CHR ''*'') \<or> c = B (CHR ''?'') \<or> c = B (CHR ''['')"

definition git_isxdigit :: "byte \<Rightarrow> bool" where
  "git_isxdigit c \<longleftrightarrow> (schar c \<ge> 48 \<and> schar c \<le> 57) \<or> (schar c \<ge> 97 \<and> schar c \<le> 102) \<or>
     (schar c \<ge> 65 \<and> schar c \<le> 70)"

definition git_tolower :: "byte \<Rightarrow> byte" where
  "git_tolower c = (if c \<ge> 65 \<and> c \<le> 90 then c + 32 else c)"

text \<open>A property of all bytes is checked by running through the 256 values.\<close>

lemma all_bytes_below:
  fixes P :: "byte \<Rightarrow> bool"
  assumes "list_all P (map of_nat [0..<n])" and "unat c < n"
  shows "P c"
proof -
  have "c = of_nat (unat c)" by simp
  then have "c \<in> set (map (of_nat :: nat \<Rightarrow> byte) [0..<n])"
    using assms(2) by (metis (no_types) atLeastLessThan_iff bot_nat_0.extremum image_eqI list.set_map set_upt)
  then show ?thesis
    using assms(1) by (simp only: list_all_iff)
qed

lemma all_bytes:
  fixes P :: "byte \<Rightarrow> bool"
  assumes "list_all P (map of_nat [0..<256])"
  shows "P c"
  using all_bytes_below [OF assms] unsigned_less [of c] by simp

text \<open>Equality of bytes bit by bit.\<close>

lemma byte_eq_bits:
  "(x :: byte) = y \<longleftrightarrow> (\<forall>n\<in>{0,1,2,3,4,5,6,7}. bit x n = bit y n)"
proof
  assume eq: "\<forall>n\<in>{0,1,2,3,4,5,6,7}. bit x n = bit y n"
  show "x = y"
  proof (rule bit_word_eqI)
    fix n assume "n < LENGTH(8)"
    then have "n \<in> {0,1,2,3,4,5,6,7}" by auto
    with eq show "bit x n = bit y n" by blast
  qed
qed simp

lemma bit_byte_high: "8 \<le> n \<Longrightarrow> \<not> bit (x :: byte) n"
  using bit_imp_le_length [of x n] by auto

lemmas byte_bits = byte_eq_bits bit_simps bit_byte_high numeral_2_eq_2 [symmetric] numeral_3_eq_3 [symmetric]

lemma byte_less_64_bits: "(x :: byte) < 64 \<longleftrightarrow> \<not> bit x 6 \<and> \<not> bit x 7"
  by (rule all_bytes [of "\<lambda>x. x < 64 \<longleftrightarrow> \<not> bit x 6 \<and> \<not> bit x 7"]) code_simp

section \<open>Lists\<close>

lemma take_append_take_drop:
  "a \<le> b \<Longrightarrow> take a xs @ take (b - a) (drop a xs) = take b xs"
  by (metis le_add_diff_inverse take_add)

lemma nth_eq_drop_hd: "i < length xs \<Longrightarrow> xs ! i = hd (drop i xs)"
  by (simp add: hd_drop_conv_nth)

lemma drop_nth_Cons: "i < length xs \<Longrightarrow> drop i xs = xs ! i # drop (Suc i) xs"
  by (simp add: Cons_nth_drop_Suc)

lemma take_Suc_nth: "i < length xs \<Longrightarrow> take (Suc i) xs = take i xs @ [xs ! i]"
  by (simp add: take_Suc_conv_app_nth)

end
