(* ===== verification/Buffer.thy ===== *)
theory Buffer
  imports Prelude
begin

text \<open>
  The growable byte buffer \<open>git_buf\<close> of buffer.c and buffer.h: its memory
  states, the growth policy, and the editing operations, with their
  contracts in terms of the buffer's contents.
\<close>

section \<open>The structure and its memory\<close>

text \<open>
  \<open>ptr\<close> is one of the two shared one-byte sentinels, NULL, or a block of
  cells: the allocation of \<open>asize\<close> cells when \<open>asize > 0\<close>, memory the buffer does
  not own when \<open>asize = 0\<close>.
\<close>

datatype buf_mem = InitBuf | OomBuf | NullPtr | Block "byte list"

record git_buf =
  buf_ptr :: buf_mem
  buf_asize :: nat
  buf_size :: nat

definition GIT_BUF_INIT :: git_buf where
  "GIT_BUF_INIT = \<lparr>buf_ptr = InitBuf, buf_asize = 0, buf_size = 0\<rparr>"

definition git_buf_oom :: "git_buf \<Rightarrow> bool" where
  "git_buf_oom buf \<longleftrightarrow> buf_ptr buf = OomBuf"

definition git_buf_is_allocated :: "git_buf \<Rightarrow> bool" where
  "git_buf_is_allocated buf \<longleftrightarrow> buf_ptr buf \<noteq> NullPtr \<and> buf_asize buf > 0"

fun mem_cells :: "buf_mem \<Rightarrow> byte list" where
  "mem_cells InitBuf = [0]"
| "mem_cells OomBuf = [0]"
| "mem_cells NullPtr = []"
| "mem_cells (Block m) = m"

text \<open>
  Bulk stores and loads (\<open>memmove\<close>, \<open>memcpy\<close>, \<open>memset\<close>, single assignments). A store that does
  not lie inside the object is \<open>None\<close>; a sentinel accepts only the NUL it already holds.
\<close>

definition mem_write :: "buf_mem \<Rightarrow> nat \<Rightarrow> byte list \<Rightarrow> buf_mem option" where
  "mem_write p off data =
     (if data = [] then Some p
      else case p of
        Block m \<Rightarrow>
          if off + length data \<le> length m
          then Some (Block (take off m @ data @ drop (off + length data) m))
          else None
      | NullPtr \<Rightarrow> None
      | _ \<Rightarrow> if off = 0 \<and> data = [0] then Some p else None)"

definition mem_read :: "buf_mem \<Rightarrow> nat \<Rightarrow> nat \<Rightarrow> byte list option" where
  "mem_read p off n =
     (if n = 0 then Some []
      else if off + n \<le> length (mem_cells p) then Some (take n (drop off (mem_cells p)))
      else None)"

definition buf_store :: "git_buf \<Rightarrow> nat \<Rightarrow> byte list \<Rightarrow> git_buf option" where
  "buf_store buf off data = map_option (\<lambda>p. buf\<lparr>buf_ptr := p\<rparr>) (mem_write (buf_ptr buf) off data)"

definition buf_load :: "git_buf \<Rightarrow> nat \<Rightarrow> nat \<Rightarrow> byte list option" where
  "buf_load buf off n = mem_read (buf_ptr buf) off n"

definition buf_terminate :: "git_buf \<Rightarrow> git_buf option" where
  "buf_terminate buf = buf_store buf (buf_size buf) [0]"

section \<open>Growth\<close>

text \<open>
  The loop that multiplies the size by 1.5 until the target fits; the
  arithmetic is that of \<open>size_t\<close>, so for targets near \<open>2 ^ 64\<close> it can wrap and need not end.
\<close>

partial_function (option) buf_grow_size :: "nat \<Rightarrow> nat \<Rightarrow> nat option" where
  "buf_grow_size new_size target =
     (if new_size < target
      then buf_grow_size (((new_size * 2) mod 2 ^ 64 + (2 ^ 64 - new_size div 2)) mod 2 ^ 64) target
      else Some new_size)"

text \<open>\<open>(new_size + 7) & ~7\<close> on a \<open>size_t\<close>.\<close>

definition buf_round8 :: "nat \<Rightarrow> nat" where
  "buf_round8 n = (n + 7) mod 2 ^ 64 div 8 * 8"

definition buf_mark_oom :: "bool \<Rightarrow> git_buf \<Rightarrow> git_buf" where
  "buf_mark_oom mark_oom buf = (if mark_oom then buf\<lparr>buf_ptr := OomBuf\<rparr> else buf)"

definition git_buf_try_grow :: "byte allocator \<Rightarrow> git_buf \<Rightarrow> nat \<Rightarrow> bool \<Rightarrow> (int \<times> git_buf) option" where
  "git_buf_try_grow al buf target mark_oom =
     (if buf_ptr buf = OomBuf then Some (-1, buf)
      else if buf_asize buf = 0 \<and> buf_size buf \<noteq> 0 then Some (GIT_EINVALID, buf)
      else
        let target_size = (if target = 0 then buf_size buf else target) in
        if target_size \<le> buf_asize buf then Some (0, buf)
        else
          let new_size = (if buf_asize buf = 0 then target_size else buf_asize buf);
              old = (if buf_asize buf = 0 then [] else mem_cells (buf_ptr buf))
          in do {
            grown \<leftarrow> buf_grow_size new_size target_size;
            let rounded = buf_round8 grown;
            if rounded < buf_size buf then Some (-1, buf_mark_oom mark_oom buf)
            else
              case realloc_cells al old rounded of
                None \<Rightarrow> Some (-1, buf_mark_oom mark_oom buf)
              | Some m \<Rightarrow>
                  let b1 = buf\<lparr>buf_ptr := Block m, buf_asize := rounded\<rparr>;
                      b2 = (if buf_size b1 \<ge> buf_asize b1
                            then b1\<lparr>buf_size := (buf_asize b1 + SIZE_MAX) mod 2 ^ 64\<rparr> else b1)
                  in do { b3 \<leftarrow> buf_terminate b2; Some (0, b3) }
          })"

definition git_buf_grow :: "byte allocator \<Rightarrow> git_buf \<Rightarrow> nat \<Rightarrow> (int \<times> git_buf) option" where
  "git_buf_grow al buf target = git_buf_try_grow al buf target True"

definition git_buf_grow_by :: "byte allocator \<Rightarrow> git_buf \<Rightarrow> nat \<Rightarrow> (int \<times> git_buf) option" where
  "git_buf_grow_by al buf additional =
     (case add_sizet (buf_size buf) additional of
        None \<Rightarrow> Some (-1, buf\<lparr>buf_ptr := OomBuf\<rparr>)
      | Some newsize \<Rightarrow> git_buf_try_grow al buf newsize True)"

definition ENSURE_SIZE :: "byte allocator \<Rightarrow> git_buf \<Rightarrow> nat \<Rightarrow> (git_buf \<Rightarrow> (int \<times> git_buf) option) \<Rightarrow> (int \<times> git_buf) option" where
  "ENSURE_SIZE al buf d k =
     (if d > buf_asize buf then or_fail (git_buf_grow al buf d) k else k buf)"

definition git_buf_init :: "byte allocator \<Rightarrow> nat \<Rightarrow> git_buf option" where
  "git_buf_init al initial_size =
     (if initial_size \<noteq> 0 then map_option snd (git_buf_grow al GIT_BUF_INIT initial_size)
      else Some GIT_BUF_INIT)"

definition git_buf_free :: "git_buf \<Rightarrow> git_buf" where
  "git_buf_free buf = GIT_BUF_INIT"

definition git_buf_sanitize :: "git_buf \<Rightarrow> git_buf option" where
  "git_buf_sanitize buf =
     (if buf_ptr buf = NullPtr
      then if buf_size buf = 0 \<and> buf_asize buf = 0 then Some (buf\<lparr>buf_ptr := InitBuf\<rparr>) else None
      else if buf_asize buf > buf_size buf then buf_terminate buf else Some buf)"

section \<open>Editing\<close>

definition git_buf_clear :: "git_buf \<Rightarrow> git_buf option" where
  "git_buf_clear buf =
     (let b1 = buf\<lparr>buf_size := 0\<rparr>;
          b2 = (if buf_ptr b1 = NullPtr then b1\<lparr>buf_ptr := InitBuf, buf_asize := 0\<rparr> else b1)
      in if buf_asize b2 > 0 then buf_store b2 0 [0] else Some b2)"

text \<open>The source of \<open>git_buf_set\<close>: NULL, the buffer's own pointer, or other memory.\<close>

datatype buf_src = NullSrc | OwnPtr | Ext "byte list"

definition git_buf_set :: "byte allocator \<Rightarrow> git_buf \<Rightarrow> buf_src \<Rightarrow> nat \<Rightarrow> (int \<times> git_buf) option" where
  "git_buf_set al buf data len =
     (if len = 0 \<or> data = NullSrc then do { b \<leftarrow> git_buf_clear buf; Some (0, b) }
      else
        let finish = (\<lambda>b. do {
              let b' = b\<lparr>buf_size := len\<rparr>;
              b'' \<leftarrow> (if buf_asize b' > buf_size b' then buf_terminate b' else Some b');
              Some (0, b'') })
        in case data of
             Ext bs \<Rightarrow>
               if length bs < len then None
               else alloc_add buf len 1 (\<lambda>alloclen. ENSURE_SIZE al buf alloclen (\<lambda>b. do {
                      b' \<leftarrow> buf_store b 0 (take len bs);
                      finish b' }))
           | _ \<Rightarrow> finish buf)"

definition git_buf_sets :: "byte allocator \<Rightarrow> git_buf \<Rightarrow> byte list option \<Rightarrow> (int \<times> git_buf) option" where
  "git_buf_sets al buf s =
     (case s of None \<Rightarrow> git_buf_set al buf NullSrc 0 | Some t \<Rightarrow> git_buf_set al buf (Ext t) (cstrlen t))"

text \<open>Store \<open>data\<close> at the end of the contents, advance the size and write the NUL.\<close>

definition buf_append :: "git_buf \<Rightarrow> byte list \<Rightarrow> git_buf option" where
  "buf_append buf data = do {
     b1 \<leftarrow> buf_store buf (buf_size buf) data;
     let b2 = b1\<lparr>buf_size := buf_size b1 + length data\<rparr>;
     buf_terminate b2 }"

definition git_buf_putc :: "byte allocator \<Rightarrow> git_buf \<Rightarrow> byte \<Rightarrow> (int \<times> git_buf) option" where
  "git_buf_putc al buf c =
     alloc_add buf (buf_size buf) 2 (\<lambda>new_size. ENSURE_SIZE al buf new_size (\<lambda>b.
       map_option (Pair 0) (buf_append b [c])))"

definition git_buf_putcn :: "byte allocator \<Rightarrow> git_buf \<Rightarrow> byte \<Rightarrow> nat \<Rightarrow> (int \<times> git_buf) option" where
  "git_buf_putcn al buf c len =
     alloc_add buf (buf_size buf) len (\<lambda>n. alloc_add buf n 1 (\<lambda>new_size. ENSURE_SIZE al buf new_size (\<lambda>b.
       map_option (Pair 0) (buf_append b (replicate len c)))))"

definition git_buf_put :: "byte allocator \<Rightarrow> git_buf \<Rightarrow> byte list \<Rightarrow> (int \<times> git_buf) option" where
  "git_buf_put al buf data =
     (if data \<noteq> [] then
        alloc_add buf (buf_size buf) (length data) (\<lambda>n. alloc_add buf n 1 (\<lambda>new_size.
          ENSURE_SIZE al buf new_size (\<lambda>b. map_option (Pair 0) (buf_append b data))))
      else Some (0, buf))"

definition git_buf_puts :: "byte allocator \<Rightarrow> git_buf \<Rightarrow> byte list \<Rightarrow> (int \<times> git_buf) option" where
  "git_buf_puts al buf s = git_buf_put al buf (cstr s)"


section \<open>Well-formed buffers and their contents\<close>

text \<open>
  A buffer that libgit2 owns is either the empty initial one or an
  allocation of \<open>asize\<close> cells holding \<open>size\<close> bytes and a NUL after them. The bound on \<open>asize\<close>
  is that of any object in an LP64 address space.
\<close>

definition buf_wf :: "git_buf \<Rightarrow> bool" where
  "buf_wf b \<longleftrightarrow>
     b = GIT_BUF_INIT \<or>
     (\<exists>m. buf_ptr b = Block m \<and> length m = buf_asize b \<and> buf_size b < buf_asize b \<and>
          m ! buf_size b = 0 \<and> buf_asize b < 2 ^ 63)"

definition content :: "git_buf \<Rightarrow> byte list" where
  "content b = take (buf_size b) (mem_cells (buf_ptr b))"

definition BUF_LIMIT :: nat where
  "BUF_LIMIT = 2 ^ 62"

text \<open>
  The outcome every editing operation promises on a well-formed buffer: it
  stays inside defined behaviour, and either succeeds with the stated
  contents or, only when the allocator refused a request, fails with -1 and marks the buffer.
\<close>

definition buf_outcome :: "byte allocator \<Rightarrow> git_buf \<Rightarrow> byte list \<Rightarrow> (int \<times> git_buf) option \<Rightarrow> bool" where
  "buf_outcome al b new res \<longleftrightarrow>
     (\<exists>r b'. res = Some (r, b') \<and>
        (r = 0 \<and> buf_wf b' \<and> content b' = new \<or>
         r = -1 \<and> \<not> total_alloc al \<and> git_buf_oom b' \<and> buf_size b' = buf_size b))"

lemma buf_wf_INIT [simp]: "buf_wf GIT_BUF_INIT"
  by (simp add: buf_wf_def)

lemma content_INIT [simp]: "content GIT_BUF_INIT = []"
  by (simp add: content_def GIT_BUF_INIT_def)

lemma buf_wf_cases:
  assumes "buf_wf b"
  obtains (init) "b = GIT_BUF_INIT"
  | (block) m where "buf_ptr b = Block m" "length m = buf_asize b" "buf_size b < buf_asize b"
      "m ! buf_size b = 0" "buf_asize b < 2 ^ 63"
  using assms by (auto simp: buf_wf_def)

lemma buf_wf_asize_0: "buf_wf b \<Longrightarrow> buf_asize b = 0 \<Longrightarrow> b = GIT_BUF_INIT"
  by (auto simp: buf_wf_def)

lemma buf_wf_bounds:
  assumes "buf_wf b"
  shows "buf_asize b < 2 ^ 63" and "buf_size b < 2 ^ 63" and "buf_size b \<le> buf_asize b"
  using assms by (auto simp: buf_wf_def GIT_BUF_INIT_def)

lemma buf_wf_not_oom: "buf_wf b \<Longrightarrow> buf_ptr b \<noteq> OomBuf \<and> buf_ptr b \<noteq> NullPtr"
  by (auto simp: buf_wf_def GIT_BUF_INIT_def)

lemma length_content [simp]: "buf_wf b \<Longrightarrow> length (content b) = buf_size b"
  by (auto simp: content_def GIT_BUF_INIT_def elim!: buf_wf_cases)

section \<open>Growth terminates and is large enough\<close>

lemma buf_grow_size_step:
  fixes n :: nat
  assumes "n < 2 ^ 62"
  shows "((n * 2) mod 2 ^ 64 + (2 ^ 64 - n div 2)) mod 2 ^ 64 = n + (n + 1) div 2"
proof -
  have "(n * 2) mod 2 ^ 64 = n * 2"
    using assms by simp
  moreover have "n * 2 + (2 ^ 64 - n div 2) = 2 ^ 64 + (n + (n + 1) div 2)"
    using assms by simp
  ultimately show ?thesis
    using assms by (simp add: mod_add_self1)
qed

lemma buf_grow_size_total:
  assumes "0 < n" and "target \<le> BUF_LIMIT"
  shows "\<exists>r. buf_grow_size n target = Some r \<and> target \<le> r \<and> n \<le> r \<and> (r = n \<or> 2 * r \<le> 3 * target + 1)"
  using assms(1)
proof (induction "target - n" arbitrary: n rule: less_induct)
  case less
  show ?case
  proof (cases "n < target")
    case True
    let ?n' = "n + (n + 1) div 2"
    have n: "n < 2 ^ 62"
      using True assms(2) by (simp add: BUF_LIMIT_def)
    have step: "buf_grow_size n target = buf_grow_size ?n' target"
      using True by (simp only: buf_grow_size.simps [of n] buf_grow_size_step [OF n] if_True)
    have "target - ?n' < target - n"
      using True less.prems by auto
    then obtain r where r: "buf_grow_size ?n' target = Some r" "target \<le> r" "?n' \<le> r"
        "r = ?n' \<or> 2 * r \<le> 3 * target + 1"
      using less.hyps [of ?n'] less.prems by auto
    have "2 * ?n' \<le> 3 * target + 1"
      using True by auto
    then show ?thesis
      using step r by auto
  next
    case False
    then show ?thesis
      by (subst buf_grow_size.simps) auto
  qed
qed

lemma buf_terminate_block:
  assumes "buf_ptr b = Block m" and "buf_size b < length m"
  shows "buf_terminate b = Some (b\<lparr>buf_ptr := Block (m[buf_size b := 0])\<rparr>)"
  using assms
  by (simp add: buf_terminate_def buf_store_def mem_write_def upd_conv_take_nth_drop)

text \<open>
  \<open>git_buf_try_grow\<close>, when it has to grow, restores the final NUL: it needs only a
  buffer whose size lies inside its allocation.
\<close>

definition buf_weak :: "git_buf \<Rightarrow> bool" where
  "buf_weak b \<longleftrightarrow>
     b = GIT_BUF_INIT \<or>
     (\<exists>m. buf_ptr b = Block m \<and> length m = buf_asize b \<and> buf_size b < buf_asize b \<and> buf_asize b < 2 ^ 63)"

lemma buf_wf_weak: "buf_wf b \<Longrightarrow> buf_weak b"
  by (auto simp: buf_wf_def buf_weak_def)

lemma git_buf_try_grow_weak:
  assumes al: "good_alloc al" and wf: "buf_weak b" and more: "buf_asize b < target" and lim: "target \<le> BUF_LIMIT"
  shows "\<exists>r b'. git_buf_try_grow al b target mark = Some (r, b') \<and>
    (r = 0 \<and> buf_wf b' \<and> content b' = content b \<and> buf_size b' = buf_size b \<and> target \<le> buf_asize b' \<or>
     r = -1 \<and> \<not> total_alloc al \<and> b' = buf_mark_oom mark b)"
proof -
  have tgt: "(if target = 0 then buf_size b else target) = target" "target \<noteq> 0" "buf_asize b < target"
    "\<not> target \<le> buf_asize b"
    using more by auto
  have ptr: "buf_ptr b \<noteq> OomBuf"
    using wf by (auto simp: buf_weak_def GIT_BUF_INIT_def)
  have size_le: "buf_size b \<le> buf_asize b"
    using wf by (auto simp: buf_weak_def GIT_BUF_INIT_def)
  define n where "n = (if buf_asize b = 0 then target else buf_asize b)"
  define old where "old = (if buf_asize b = 0 then [] else mem_cells (buf_ptr b))"
  have "0 < n" using tgt by (simp add: n_def)
  then obtain g where g: "buf_grow_size n target = Some g" "target \<le> g" "n \<le> g" "g = n \<or> 2 * g \<le> 3 * target + 1"
    using buf_grow_size_total [OF _ lim] by blast
  define rounded where "rounded = buf_round8 g"
  have g_lim: "g \<le> 2 ^ 62 + 2 ^ 61 + 1"
    using g(4) lim tgt by (auto simp: n_def BUF_LIMIT_def split: if_splits)
  have rounded_eq: "rounded = (g + 7) div 8 * 8"
    using g_lim by (simp add: rounded_def buf_round8_def)
  have rounded: "g \<le> rounded" "rounded < 2 ^ 63" "0 < rounded"
    using g_lim g(2) tgt(2) by (auto simp: rounded_eq)
  have size_lt: "buf_size b < rounded"
    using rounded(1) g(2) tgt size_le by linarith
  have asz: "buf_asize b \<noteq> 0 \<or> buf_size b = 0"
    using wf by (auto simp: buf_weak_def GIT_BUF_INIT_def)
  have asz': "\<not> (buf_asize b = 0 \<and> buf_size b \<noteq> 0)"
    using asz by simp
  have small: "\<not> rounded < buf_size b" "\<not> rounded \<le> buf_size b"
    using size_lt by auto
  have unfold: "git_buf_try_grow al b target mark =
      (case realloc_cells al old rounded of
         None \<Rightarrow> Some (-1, buf_mark_oom mark b)
       | Some m \<Rightarrow> Option.bind (buf_terminate (b\<lparr>buf_ptr := Block m, buf_asize := rounded\<rparr>)) (\<lambda>b3. Some (0, b3)))"
    using ptr asz' tgt small g(1)
    by (auto simp add: git_buf_try_grow_def n_def [symmetric] old_def [symmetric] rounded_def Let_def
        simp del: not_less not_le cong: option.case_cong)
  show ?thesis
  proof (cases "realloc_cells al old rounded")
    case None
    then have "\<not> total_alloc al"
      using realloc_cells_total by blast
    with None show ?thesis
      by (simp add: unfold)
  next
    case (Some m)
    have len: "length m = rounded"
      using realloc_cells_length [OF al Some] .
    have "buf_size b \<le> length old"
      using wf asz by (auto simp: old_def buf_weak_def GIT_BUF_INIT_def)
    then have keep: "take (buf_size b) m = take (buf_size b) old"
      using realloc_cells_take [OF al Some] size_lt by simp
    have old_content: "take (buf_size b) old = content b"
      using wf by (auto simp: old_def content_def buf_weak_def GIT_BUF_INIT_def)
    let ?b' = "b\<lparr>buf_ptr := Block (m[buf_size b := 0]), buf_asize := rounded\<rparr>"
    have "git_buf_try_grow al b target mark = Some (0, ?b')"
      using Some len size_lt by (simp add: unfold buf_terminate_block)
    moreover have "buf_wf ?b'"
      using len size_lt rounded by (auto simp: buf_wf_def)
    moreover have "content ?b' = content b"
      using keep old_content by (simp add: content_def)
    ultimately show ?thesis
      using rounded(1) g(2) by auto
  qed
qed

text \<open>\<open>git_buf_try_grow\<close> on a well-formed buffer: never undefined, and on success the target fits.\<close>

lemma git_buf_try_grow_wf:
  assumes al: "good_alloc al" and wf: "buf_wf b" and lim: "target \<le> BUF_LIMIT"
  shows "\<exists>r b'. git_buf_try_grow al b target mark = Some (r, b') \<and>
    (r = 0 \<and> buf_wf b' \<and> content b' = content b \<and> buf_size b' = buf_size b \<and> target \<le> buf_asize b' \<or>
     r = -1 \<and> \<not> total_alloc al \<and> b' = buf_mark_oom mark b)"
proof (cases "buf_asize b < target")
  case True
  then show ?thesis
    by (rule git_buf_try_grow_weak [OF al buf_wf_weak [OF wf] _ lim])
next
  case False
  have "buf_asize b \<noteq> 0 \<or> buf_size b = 0"
    using wf by (auto simp: GIT_BUF_INIT_def elim!: buf_wf_cases)
  moreover have "(if target = 0 then buf_size b else target) \<le> buf_asize b"
    using False buf_wf_bounds(3) [OF wf] by auto
  ultimately show ?thesis
    using False wf buf_wf_not_oom [OF wf] by (auto simp: git_buf_try_grow_def)
qed

lemma ENSURE_SIZE_wf:
  assumes al: "good_alloc al" and wf: "buf_wf b" and lim: "d \<le> BUF_LIMIT"
    and ok: "\<And>b'. buf_wf b' \<Longrightarrow> content b' = content b \<Longrightarrow> buf_size b' = buf_size b \<Longrightarrow> d \<le> buf_asize b' \<Longrightarrow>
      buf_outcome al b new (k b')"
  shows "buf_outcome al b new (ENSURE_SIZE al b d k)"
proof (cases "d > buf_asize b")
  case True
  from git_buf_try_grow_wf [OF al wf lim, of True] obtain r b'
    where g: "git_buf_try_grow al b d True = Some (r, b')" and
      c: "r = 0 \<and> buf_wf b' \<and> content b' = content b \<and> buf_size b' = buf_size b \<and> d \<le> buf_asize b' \<or>
        r = -1 \<and> \<not> total_alloc al \<and> b' = buf_mark_oom True b" by auto
  show ?thesis
    using True g c ok [of b']
    by (auto simp: ENSURE_SIZE_def git_buf_grow_def buf_outcome_def buf_mark_oom_def git_buf_oom_def)
next
  case False
  then show ?thesis
    using ok [of b] wf by (simp add: ENSURE_SIZE_def)
qed

lemma buf_append_wf:
  assumes wf: "buf_wf b" and fits: "buf_size b + length data < buf_asize b"
  shows "\<exists>b'. buf_append b data = Some b' \<and> buf_wf b' \<and> content b' = content b @ data \<and>
    buf_asize b' = buf_asize b \<and> buf_size b' = buf_size b + length data"
  using wf
proof (cases rule: buf_wf_cases)
  case init
  then show ?thesis using fits by (simp add: GIT_BUF_INIT_def)
next
  case (block m)
  let ?m = "take (buf_size b) m @ data @ drop (buf_size b + length data) m"
  let ?n = "buf_size b + length data"
  have "buf_append b data = Some (b\<lparr>buf_ptr := Block (?m[?n := 0]), buf_size := ?n\<rparr>)"
    using block fits
    by (auto simp: buf_append_def buf_store_def mem_write_def buf_terminate_block)
  moreover have "take ?n (?m[?n := 0]) = take (buf_size b) m @ data"
    using block fits by simp
  ultimately show ?thesis
    using block fits by (auto simp: buf_wf_def content_def)
qed

section \<open>Contracts of the append operations\<close>

lemma buf_outcome_append:
  assumes "buf_wf b'" and "content b' = content b" and "buf_size b' + length data < buf_asize b'"
  shows "buf_outcome al b (content b @ data) (map_option (Pair 0) (buf_append b' data))"
  using buf_append_wf [OF assms(1,3)] assms(2) by (auto simp: buf_outcome_def)

lemma git_buf_put_outcome:
  assumes "good_alloc al" and "buf_wf b" and "buf_size b + length data < BUF_LIMIT"
  shows "buf_outcome al b (content b @ data) (git_buf_put al b data)"
proof (cases "data = []")
  case True
  then show ?thesis
    using assms(2) by (simp add: git_buf_put_def buf_outcome_def)
next
  case False
  have lim: "buf_size b + length data + 1 \<le> BUF_LIMIT" "buf_size b + length data + 1 < 2 ^ 64"
    using assms(3) by (auto simp: BUF_LIMIT_def)
  then show ?thesis
    using False ENSURE_SIZE_wf [OF assms(1,2) lim(1), of "content b @ data"]
    by (simp add: git_buf_put_def buf_outcome_append)
qed

lemma git_buf_putc_outcome:
  assumes "good_alloc al" and "buf_wf b" and "buf_size b + 1 < BUF_LIMIT"
  shows "buf_outcome al b (content b @ [c]) (git_buf_putc al b c)"
proof -
  have lim: "buf_size b + 2 \<le> BUF_LIMIT" "buf_size b + 2 < 2 ^ 64"
    using assms(3) by (auto simp: BUF_LIMIT_def)
  then show ?thesis
    using ENSURE_SIZE_wf [OF assms(1,2) lim(1), of "content b @ [c]"]
    by (simp add: git_buf_putc_def buf_outcome_append)
qed

lemma git_buf_putcn_outcome:
  assumes "good_alloc al" and "buf_wf b" and "buf_size b + len < BUF_LIMIT"
  shows "buf_outcome al b (content b @ replicate len c) (git_buf_putcn al b c len)"
proof -
  have lim: "buf_size b + len + 1 \<le> BUF_LIMIT" "buf_size b + len + 1 < 2 ^ 64"
    using assms(3) by (auto simp: BUF_LIMIT_def)
  then show ?thesis
    using ENSURE_SIZE_wf [OF assms(1,2) lim(1), of "content b @ replicate len c"]
    by (simp add: git_buf_putcn_def buf_outcome_append)
qed

lemma git_buf_puts_outcome:
  assumes "good_alloc al" and "buf_wf b" and "buf_size b + cstrlen s < BUF_LIMIT"
  shows "buf_outcome al b (content b @ cstr s) (git_buf_puts al b s)"
  using git_buf_put_outcome [of al b "cstr s"] assms
  by (simp add: git_buf_puts_def cstrlen_def)

text \<open>Shrinking a well-formed buffer to a prefix of its contents.\<close>

lemma buf_shrink_wf:
  assumes "buf_wf b" and "buf_asize b > 0" and "n \<le> buf_size b"
  shows "\<exists>b'. buf_terminate (b\<lparr>buf_size := n\<rparr>) = Some b' \<and> buf_wf b' \<and> content b' = take n (content b) \<and>
    buf_size b' = n \<and> buf_asize b' = buf_asize b"
  using assms(1)
proof (cases rule: buf_wf_cases)
  case init
  then show ?thesis using assms by (simp add: GIT_BUF_INIT_def)
next
  case (block m)
  then show ?thesis
    using assms
    by (auto simp: buf_terminate_block buf_wf_def content_def min_def)
qed

lemma git_buf_clear_wf:
  assumes "buf_wf b"
  shows "\<exists>b'. git_buf_clear b = Some b' \<and> buf_wf b' \<and> content b' = [] \<and> buf_size b' = 0 \<and>
    buf_asize b' = buf_asize b"
proof (cases "buf_asize b > 0")
  case True
  then show ?thesis
    using buf_shrink_wf [OF assms, of 0] buf_wf_not_oom [OF assms]
    by (auto simp: git_buf_clear_def Let_def buf_terminate_def)
next
  case False
  then show ?thesis
    using buf_wf_asize_0 [OF assms] by (simp add: git_buf_clear_def GIT_BUF_INIT_def buf_wf_def content_def)
qed

lemma git_buf_set_outcome:
  assumes al: "good_alloc al" and wf: "buf_wf b" and len: "len \<le> length bs" "len < BUF_LIMIT"
  shows "buf_outcome al b (take len bs) (git_buf_set al b (Ext bs) len)"
proof (cases "len = 0")
  case True
  then show ?thesis
    using git_buf_clear_wf [OF wf] by (auto simp: git_buf_set_def buf_outcome_def)
next
  case False
  have lim: "len + 1 \<le> BUF_LIMIT" "len + 1 < 2 ^ 64"
    using len by (auto simp: BUF_LIMIT_def)
  have step: "\<exists>b3. Option.bind (buf_store b' 0 (take len bs))
      (\<lambda>b1. Option.bind (buf_terminate (b1\<lparr>buf_size := len\<rparr>)) (\<lambda>b2. Some (0::int, b2))) = Some (0, b3) \<and>
      buf_wf b3 \<and> content b3 = take len bs \<and> buf_asize b' = buf_asize b3"
    if wf': "buf_wf b'" and room: "len + 1 \<le> buf_asize b'" for b'
    using wf'
  proof (cases rule: buf_wf_cases)
    case init
    then show ?thesis using room by (simp add: GIT_BUF_INIT_def)
  next
    case (block m)
    then show ?thesis
      using room len False
      by (auto simp: buf_store_def mem_write_def buf_terminate_block min_def buf_wf_def content_def)
  qed
  have keep: "buf_asize b1 = buf_asize b'" if "buf_store b' 0 (take len bs) = Some b1" for b' b1
    using that by (auto simp: buf_store_def)
  show ?thesis
    using False lim(2) len(1)
    unfolding git_buf_set_def
    apply (simp add: Let_def)
    apply (rule ENSURE_SIZE_wf [OF al wf lim(1), simplified])
    subgoal for b'
      using step [of b'] by (cases "buf_store b' 0 (take len bs)") (auto simp: buf_outcome_def keep)
    done
qed

section \<open>The append interface\<close>

text \<open>
  What the clients of a buffer rely on: a well-formedness predicate kept by
  every successful append, the contents as a byte string, and an append that
  cannot fail as long as the total stays below a limit. Formatters are proved once against this interface.
\<close>

locale byte_sink =
  fixes env :: "'e \<Rightarrow> bool"
    and ok :: "'b \<Rightarrow> bool"
    and view :: "'b \<Rightarrow> byte list"
    and put :: "'e \<Rightarrow> 'b \<Rightarrow> byte list \<Rightarrow> (int \<times> 'b) option"
    and limit :: nat
  assumes put_ok: "env e \<Longrightarrow> ok b \<Longrightarrow> length (view b) + length data < limit \<Longrightarrow>
    \<exists>b'. put e b data = Some (0, b') \<and> ok b' \<and> view b' = view b @ data"
begin

text \<open>Two appends in a row append the concatenation.\<close>

lemma put_put:
  assumes "env e" and "ok b" and "length (view b) + length d1 + length d2 < limit"
  shows "\<exists>b1 b2. put e b d1 = Some (0, b1) \<and> put e b1 d2 = Some (0, b2) \<and> ok b2 \<and>
    view b2 = view b @ d1 @ d2"
proof -
  obtain b1 where "put e b d1 = Some (0, b1)" "ok b1" "view b1 = view b @ d1"
    using put_ok [of e b d1] assms by auto
  then show ?thesis
    using put_ok [of e b1 d2] assms by auto
qed

text \<open>A loop that appends what it emits for each element appends the concatenation.\<close>

lemma put_loop_ok:
  assumes step: "\<And>b x. x \<in> set xs \<Longrightarrow> ok b \<Longrightarrow> length (view b) + length (emit x) < L \<Longrightarrow>
      \<exists>b'. f x b = Some b' \<and> ok b' \<and> view b' = view b @ emit x"
    and "ok b" and "length (view b) + length (concat (map emit xs)) < L"
  shows "\<exists>b'. foldl (\<lambda>s x. Option.bind s (f x)) (Some b) xs = Some b' \<and> ok b' \<and>
    view b' = view b @ concat (map emit xs)"
  using assms
proof (induction xs arbitrary: b)
  case (Cons x xs)
  obtain b1 where b1: "f x b = Some b1" "ok b1" "view b1 = view b @ emit x"
    using Cons.prems(1) [of x b] Cons.prems(2,3) by auto
  then show ?case
    using Cons.IH [of b1] Cons.prems by auto
qed simp

end

definition alloc_env :: "byte allocator \<Rightarrow> bool" where
  "alloc_env al \<longleftrightarrow> good_alloc al \<and> total_alloc al"

lemma alloc_env_fill [simp]: "alloc_env (fill_alloc x)"
  by (simp add: alloc_env_def)

lemma buf_outcome_total:
  "buf_outcome al b new res \<Longrightarrow> alloc_env al \<Longrightarrow> \<exists>b'. res = Some (0, b') \<and> buf_wf b' \<and> content b' = new"
  by (auto simp: buf_outcome_def alloc_env_def)

interpretation gb: byte_sink alloc_env buf_wf content git_buf_put BUF_LIMIT
proof unfold_locales
  fix al :: "byte allocator" and b :: git_buf and data :: "byte list"
  assume "alloc_env al" "buf_wf b" "length (content b) + length data < BUF_LIMIT"
  then show "\<exists>b'. git_buf_put al b data = Some (0, b') \<and> buf_wf b' \<and> content b' = content b @ data"
    using buf_outcome_total [OF git_buf_put_outcome] by (simp add: alloc_env_def)
qed

lemma git_buf_putc_total:
  assumes "alloc_env al" and "buf_wf b" and "length (content b) + 1 < BUF_LIMIT"
  shows "\<exists>b'. git_buf_putc al b c = Some (0, b') \<and> buf_wf b' \<and> content b' = content b @ [c]"
  using buf_outcome_total [OF git_buf_putc_outcome] assms by (simp add: alloc_env_def)

lemma ENSURE_SIZE_total:
  assumes env: "alloc_env al" and wf: "buf_wf b" and lim: "d \<le> BUF_LIMIT"
  shows "\<exists>b'. ENSURE_SIZE al b d k = k b' \<and> buf_wf b' \<and> content b' = content b \<and> buf_size b' = buf_size b \<and>
    d \<le> buf_asize b'"
proof (cases "d > buf_asize b")
  case True
  then show ?thesis
    using git_buf_try_grow_wf [OF _ wf lim, of al True] env
    by (auto simp: ENSURE_SIZE_def git_buf_grow_def alloc_env_def)
next
  case False
  then show ?thesis using wf by (auto simp: ENSURE_SIZE_def)
qed

end
