(* ===== verification/BufferEdit.thy ===== *)
theory BufferEdit
  imports Buffer
begin

text \<open>
  The rest of the editing operations of buffer.c: formatted output,
  truncation and trimming, search, ownership transfer, comparison, splicing and
  the three joins, with what each does to the contents.
\<close>

section \<open>Formatted output\<close>

text \<open>
  \<open>out\<close> is what \<open>vsnprintf\<close> formats (\<open>None\<close>: it reports an error). It stores at most
  \<open>room - 1\<close> bytes and a NUL, and reports the full length. With a \<open>size\<close> beyond \<open>asize\<close> the room wraps.
\<close>

definition vsnprintf_store :: "git_buf \<Rightarrow> byte list \<Rightarrow> git_buf option" where
  "vsnprintf_store buf out =
     (if buf_asize buf < buf_size buf then None
      else let room = buf_asize buf - buf_size buf in
        if room = 0 then Some buf
        else buf_store buf (buf_size buf) (take (room - 1) out @ [0]))"

partial_function (option) vprintf_loop :: "byte allocator \<Rightarrow> byte list option \<Rightarrow> git_buf \<Rightarrow> (int \<times> git_buf) option" where
  "vprintf_loop al out buf =
     (case out of
        None \<Rightarrow> Some (-1, buf\<lparr>buf_ptr := OomBuf\<rparr>)
      | Some bs \<Rightarrow> do {
          b1 \<leftarrow> vsnprintf_store buf bs;
          if length bs + 1 \<le> buf_asize b1 - buf_size b1
          then Some (0, b1\<lparr>buf_size := buf_size b1 + length bs\<rparr>)
          else
            case add_sizet (buf_size b1) (length bs) of
              None \<Rightarrow> Some (-1, b1)
            | Some n \<Rightarrow>
                (case add_sizet n 1 of
                   None \<Rightarrow> Some (-1, b1)
                 | Some new_size \<Rightarrow>
                     if new_size > buf_asize b1 then do {
                       rb \<leftarrow> git_buf_grow al b1 new_size;
                       if fst rb < 0 then Some (-1, snd rb) else vprintf_loop al out (snd rb) }
                     else vprintf_loop al out b1) })"

definition git_buf_vprintf :: "byte allocator \<Rightarrow> git_buf \<Rightarrow> byte list \<Rightarrow> byte list option \<Rightarrow> (int \<times> git_buf) option" where
  "git_buf_vprintf al buf format out =
     alloc_mul buf (cstrlen format) 2 (\<lambda>e. alloc_add buf e (buf_size buf) (\<lambda>expected_size.
       ENSURE_SIZE al buf expected_size (vprintf_loop al out)))"

section \<open>Truncation, search and trimming\<close>

definition git_buf_copy_cstr :: "byte list \<Rightarrow> git_buf \<Rightarrow> byte list option" where
  "git_buf_copy_cstr data buf =
     (if data = [] then None
      else
        let datasize = length data; d0 = data[0 := 0] in
        if buf_size buf = 0 \<or> buf_asize buf = 0 then Some d0
        else
          let copylen = (if buf_size buf > datasize - 1 then datasize - 1 else buf_size buf) in do {
            bs \<leftarrow> buf_load buf 0 copylen;
            Some ((bs @ drop copylen d0)[copylen := 0]) })"

definition git_buf_consume :: "git_buf \<Rightarrow> nat \<Rightarrow> git_buf option" where
  "git_buf_consume buf consumed =
     (if consumed > 0 \<and> consumed \<le> buf_size buf then do {
        rest \<leftarrow> buf_load buf consumed (buf_size buf - consumed);
        b1 \<leftarrow> buf_store buf 0 rest;
        let b2 = b1\<lparr>buf_size := buf_size b1 - consumed\<rparr>;
        buf_terminate b2 }
      else Some buf)"

definition git_buf_truncate :: "git_buf \<Rightarrow> nat \<Rightarrow> git_buf option" where
  "git_buf_truncate buf len =
     (if len \<ge> buf_size buf then Some buf
      else let b1 = buf\<lparr>buf_size := len\<rparr> in
        if buf_size b1 < buf_asize b1 then buf_terminate b1 else Some b1)"

definition git_buf_shorten :: "git_buf \<Rightarrow> nat \<Rightarrow> git_buf option" where
  "git_buf_shorten buf amount =
     (if buf_size buf > amount then git_buf_truncate buf (buf_size buf - amount)
      else git_buf_clear buf)"

text \<open>The backward scans; \<open>k\<close> is the index plus one, so 0 stands for the index -1.\<close>

fun rskip_eq :: "byte list \<Rightarrow> byte \<Rightarrow> nat \<Rightarrow> nat" where
  "rskip_eq m ch 0 = 0"
| "rskip_eq m ch (Suc i) = (if m ! i = ch then rskip_eq m ch i else Suc i)"

fun rskip_neq :: "byte list \<Rightarrow> byte \<Rightarrow> nat \<Rightarrow> nat" where
  "rskip_neq m ch 0 = 0"
| "rskip_neq m ch (Suc i) = (if m ! i \<noteq> ch then rskip_neq m ch i else Suc i)"

definition git_buf_rfind_next :: "git_buf \<Rightarrow> byte \<Rightarrow> int" where
  "git_buf_rfind_next buf ch =
     (let m = mem_cells (buf_ptr buf) in
      int (rskip_neq m ch (rskip_eq m ch (buf_size buf))) - 1)"

definition git_buf_rfind :: "git_buf \<Rightarrow> byte \<Rightarrow> int" where
  "git_buf_rfind buf ch = int (rskip_neq (mem_cells (buf_ptr buf)) ch (buf_size buf)) - 1"

definition git_buf_find :: "git_buf \<Rightarrow> byte \<Rightarrow> int" where
  "git_buf_find buf ch =
     (let k = length (takeWhile (\<lambda>c. c \<noteq> ch) (content buf)) in
      if k < length (content buf) then int k else -1)"

definition git_buf_rtruncate_at_char :: "git_buf \<Rightarrow> byte \<Rightarrow> git_buf option" where
  "git_buf_rtruncate_at_char buf separator =
     (let idx = git_buf_rfind_next buf separator in
      git_buf_truncate buf (if idx < 0 then 0 else nat idx))"

fun rtrim_size :: "byte list \<Rightarrow> nat \<Rightarrow> nat" where
  "rtrim_size m 0 = 0"
| "rtrim_size m (Suc n) = (if \<not> git_isspace (m ! n) then Suc n else rtrim_size m n)"

definition git_buf_rtrim :: "git_buf \<Rightarrow> git_buf option" where
  "git_buf_rtrim buf =
     (let b1 = buf\<lparr>buf_size := rtrim_size (mem_cells (buf_ptr buf)) (buf_size buf)\<rparr> in
      if buf_asize b1 > buf_size b1 then buf_terminate b1 else Some b1)"

text \<open>The sign of \<open>memcmp\<close> on two blocks of equal length.\<close>

fun memcmp :: "byte list \<Rightarrow> byte list \<Rightarrow> int" where
  "memcmp (x # xs) (y # ys) = (if x = y then memcmp xs ys else if x < y then -1 else 1)"
| "memcmp _ _ = 0"

definition git_buf_cmp :: "git_buf \<Rightarrow> git_buf \<Rightarrow> int" where
  "git_buf_cmp a b =
     (let n = min (buf_size a) (buf_size b);
          result = memcmp (take n (mem_cells (buf_ptr a))) (take n (mem_cells (buf_ptr b)))
      in if result \<noteq> 0 then result
         else if buf_size a < buf_size b then -1 else if buf_size a > buf_size b then 1 else 0)"

section \<open>Ownership\<close>

definition git_buf_swap :: "git_buf \<times> git_buf \<Rightarrow> git_buf \<times> git_buf" where
  "git_buf_swap p = (snd p, fst p)"

definition git_buf_detach :: "git_buf \<Rightarrow> buf_mem \<times> git_buf" where
  "git_buf_detach buf =
     (if buf_asize buf = 0 \<or> buf_ptr buf = OomBuf then (NullPtr, buf)
      else (buf_ptr buf, GIT_BUF_INIT))"

definition git_buf_attach :: "byte allocator \<Rightarrow> git_buf \<Rightarrow> byte list option \<Rightarrow> nat \<Rightarrow> git_buf option" where
  "git_buf_attach al buf ptr asize =
     (let b0 = git_buf_free buf in
      case ptr of
        Some m \<Rightarrow>
          if 0 \<notin> set m then None
          else
            let n = cstrlen m in
            Some (b0\<lparr>buf_ptr := Block m, buf_size := n,
                     buf_asize := (if asize \<noteq> 0 then if asize < n then n + 1 else asize
                                   else n + 1)\<rparr>)
      | None \<Rightarrow> map_option snd (git_buf_grow al b0 asize))"

definition git_buf_attach_notowned :: "git_buf \<Rightarrow> byte list \<Rightarrow> nat \<Rightarrow> git_buf" where
  "git_buf_attach_notowned buf ptr n =
     (let b0 = (if git_buf_is_allocated buf then git_buf_free buf else buf) in
      if n = 0 then GIT_BUF_INIT
      else b0\<lparr>buf_ptr := Block ptr, buf_asize := 0, buf_size := n\<rparr>)"

section \<open>Splice\<close>

text \<open>
  \<open>splice_loc\<close> is taken before \<open>ENSURE_SIZE\<close>: when that reallocates, the two moves go
  through a pointer into the old block, which is no longer valid.
\<close>

definition git_buf_splice :: "byte allocator \<Rightarrow> git_buf \<Rightarrow> nat \<Rightarrow> nat \<Rightarrow> byte list \<Rightarrow> (int \<times> git_buf) option" where
  "git_buf_splice al buf pos nb_to_remove data =
     (if \<not> (pos \<le> buf_size buf \<and> nb_to_remove \<le> buf_size buf - pos) then None
      else alloc_add buf (buf_size buf - nb_to_remove) (length data) (\<lambda>new_size.
        alloc_add buf new_size 1 (\<lambda>alloc_size. ENSURE_SIZE al buf alloc_size (\<lambda>b.
          if alloc_size > buf_asize buf then None
          else do {
            tail \<leftarrow> buf_load b (pos + nb_to_remove) (buf_size b - pos - nb_to_remove);
            b1 \<leftarrow> buf_store b (pos + length data) tail;
            b2 \<leftarrow> buf_store b1 pos data;
            let b3 = b2\<lparr>buf_size := new_size\<rparr>;
            b4 \<leftarrow> buf_terminate b3;
            Some (0, b4) }))))"

section \<open>Joins\<close>

text \<open>
  A string argument that may be NULL, may point into the buffer itself (at an
  offset), or is a string elsewhere. A pointer into the buffer beyond its contents is
  not adjusted after a reallocation, and reading through it is then undefined.
\<close>

datatype join_src = JNull | JOwn nat | JExt "byte list"

fun is_own :: "join_src \<Rightarrow> bool" where
  "is_own (JOwn off) = True"
| "is_own _ = False"

definition own_cstr :: "git_buf \<Rightarrow> nat \<Rightarrow> byte list option" where
  "own_cstr buf off =
     (let s = drop off (mem_cells (buf_ptr buf)) in if 0 \<in> set s then Some (cstr s) else None)"

definition join_src_str :: "git_buf \<Rightarrow> join_src \<Rightarrow> byte list option" where
  "join_src_str buf a =
     (case a of JNull \<Rightarrow> Some [] | JOwn off \<Rightarrow> own_cstr buf off | JExt s \<Rightarrow> Some (cstr s))"

definition git_buf_join :: "byte allocator \<Rightarrow> git_buf \<Rightarrow> byte \<Rightarrow> join_src \<Rightarrow> byte list \<Rightarrow> (int \<times> git_buf) option" where
  "git_buf_join al buf separator str_a str_b = do {
     sa \<leftarrow> join_src_str buf str_a;
     let sb = (if separator \<noteq> 0 \<and> sa \<noteq> [] then dropWhile (\<lambda>c. c = separator) (cstr str_b) else cstr str_b);
     let need_sep = (if separator \<noteq> 0 \<and> sa \<noteq> [] \<and> last sa \<noteq> separator then 1 else 0 :: nat);
     let offset_a = (case str_a of JOwn off \<Rightarrow> if off < buf_size buf then Some off else None | _ \<Rightarrow> None);
     alloc_add buf (length sa) (length sb) (\<lambda>n1. alloc_add buf n1 need_sep (\<lambda>n2. alloc_add buf n2 1 (\<lambda>alloc_len.
       or_fail (git_buf_grow al buf alloc_len) (\<lambda>b1. do {
         b2 \<leftarrow> (if offset_a = Some 0 \<or> str_a = JNull then Some b1
               else do {
                 s \<leftarrow> (case offset_a of
                        Some off \<Rightarrow> buf_load b1 off (length sa)
                      | None \<Rightarrow> if is_own str_a \<and> sa \<noteq> [] \<and> buf_asize b1 \<noteq> buf_asize buf then None else Some sa);
                 buf_store b1 0 s });
         b3 \<leftarrow> (if need_sep = 1 then buf_store b2 (length sa) [separator] else Some b2);
         b4 \<leftarrow> buf_store b3 (length sa + need_sep) sb;
         let b5 = b4\<lparr>buf_size := length sa + length sb + need_sep\<rparr>;
         b6 \<leftarrow> buf_terminate b5;
         Some (0, b6) })))) }"

definition git_buf_joinpath :: "byte allocator \<Rightarrow> git_buf \<Rightarrow> join_src \<Rightarrow> byte list \<Rightarrow> (int \<times> git_buf) option" where
  "git_buf_joinpath al buf a b = git_buf_join al buf (B (CHR ''/'')) a b"

definition git_buf_join3 :: "byte allocator \<Rightarrow> git_buf \<Rightarrow> byte \<Rightarrow> byte list \<Rightarrow> byte list \<Rightarrow> byte list \<Rightarrow> (int \<times> git_buf) option" where
  "git_buf_join3 al buf separator str_a str_b str_c =
     (let sa = cstr str_a; sb0 = cstr str_b; sc0 = cstr str_c;
          sb = (if separator \<noteq> 0 \<and> sa \<noteq> [] then dropWhile (\<lambda>c. c = separator) sb0 else sb0);
          sep_a = (if separator \<noteq> 0 \<and> sa \<noteq> [] \<and> last sa \<noteq> separator then 1 else 0 :: nat);
          sc = (if separator \<noteq> 0 \<and> (sa \<noteq> [] \<or> sb \<noteq> []) then dropWhile (\<lambda>c. c = separator) sc0 else sc0);
          sep_b = (if separator \<noteq> 0 \<and> sb \<noteq> [] \<and> last sb \<noteq> separator then 1 else 0 :: nat)
      in alloc_add buf (length sa) sep_a (\<lambda>n1. alloc_add buf n1 (length sb) (\<lambda>n2.
         alloc_add buf n2 sep_b (\<lambda>n3. alloc_add buf n3 (length sc) (\<lambda>n4. alloc_add buf n4 1 (\<lambda>len_total.
           or_fail (git_buf_grow al buf len_total) (\<lambda>b1. do {
             b2 \<leftarrow> buf_store b1 0 sa;
             b3 \<leftarrow> (if sep_a = 1 then buf_store b2 (length sa) [separator] else Some b2);
             b4 \<leftarrow> buf_store b3 (length sa + sep_a) sb;
             b5 \<leftarrow> (if sep_b = 1 then buf_store b4 (length sa + sep_a + length sb) [separator] else Some b4);
             b6 \<leftarrow> buf_store b5 (length sa + sep_a + length sb + sep_b) sc;
             let b7 = b6\<lparr>buf_size := length sa + sep_a + length sb + sep_b + length sc\<rparr>;
             b8 \<leftarrow> buf_terminate b7;
             Some (0, b8) })))))))"

text \<open>
  The variadic join: a first pass adds up the room, a second one copies.
  A segment inside the buffer runs to the end of the original contents in the second pass.
\<close>

fun join_n_size :: "git_buf \<Rightarrow> byte \<Rightarrow> join_src list \<Rightarrow> nat \<Rightarrow> nat option option" where
  "join_n_size buf sep [] tot = Some (Some tot)"
| "join_n_size buf sep (s # ss) tot =
     (if s = JNull then join_n_size buf sep ss tot
      else case join_src_str buf s of
        None \<Rightarrow> None
      | Some seg \<Rightarrow>
          (case add_sizet tot (length seg) of
             None \<Rightarrow> Some None
           | Some t1 \<Rightarrow>
               if seg = [] \<or> last seg \<noteq> sep
               then case add_sizet t1 1 of
                      None \<Rightarrow> Some None
                    | Some t2 \<Rightarrow> join_n_size buf sep ss t2
               else join_n_size buf sep ss t1))"

definition join_prev_is :: "git_buf \<Rightarrow> nat \<Rightarrow> byte \<Rightarrow> bool" where
  "join_prev_is b out sep \<longleftrightarrow> out > 0 \<and> mem_cells (buf_ptr b) ! (out - 1) = sep"

definition join_n_seg :: "git_buf \<Rightarrow> git_buf \<Rightarrow> join_src \<Rightarrow> byte list option" where
  "join_n_seg original b s =
     (case s of
        JNull \<Rightarrow> Some []
      | JExt t \<Rightarrow> Some (cstr t)
      | JOwn off \<Rightarrow>
          if off < buf_size original then buf_load b off (buf_size original - off)
          else if buf_ptr original = InitBuf then own_cstr original off
          else if buf_asize b = buf_asize original then own_cstr b off else None)"

fun join_n_copy :: "git_buf \<Rightarrow> byte \<Rightarrow> join_src list \<Rightarrow> git_buf \<Rightarrow> nat \<Rightarrow> (git_buf \<times> nat) option" where
  "join_n_copy original sep [] b out = Some (b, out)"
| "join_n_copy original sep (s # ss) b out =
     (if s = JNull then join_n_copy original sep ss b out
      else do {
        seg0 \<leftarrow> join_n_seg original b s;
        let seg = (if join_prev_is b out sep then dropWhile (\<lambda>c. c = sep) seg0 else seg0);
        b1 \<leftarrow> buf_store b out seg;
        let out1 = out + length seg;
        if ss \<noteq> [] \<and> out1 > 0 \<and> \<not> join_prev_is b1 out1 sep
        then do { b2 \<leftarrow> buf_store b1 out1 [sep]; join_n_copy original sep ss b2 (out1 + 1) }
        else join_n_copy original sep ss b1 out1 })"

definition git_buf_join_n :: "byte allocator \<Rightarrow> git_buf \<Rightarrow> byte \<Rightarrow> join_src list \<Rightarrow> (int \<times> git_buf) option" where
  "git_buf_join_n al buf separator segs =
     (let initial = (if buf_size buf > 0 \<and> \<not> join_prev_is buf (buf_size buf) separator then 1 else 0) in
      case join_n_size buf separator segs initial of
        None \<Rightarrow> None
      | Some None \<Rightarrow> Some (-1, buf)
      | Some (Some tot) \<Rightarrow>
          if tot = 0 then Some (0, buf)
          else alloc_add buf tot 1 (\<lambda>total_size. or_fail (git_buf_grow_by al buf total_size) (\<lambda>b1. do {
            bo \<leftarrow> (if buf_size b1 > 0 \<and> \<not> join_prev_is b1 (buf_size b1) separator
                  then do { b2 \<leftarrow> buf_store b1 (buf_size b1) [separator]; Some (b2, buf_size b1 + 1) }
                  else Some (b1, buf_size b1));
            (b3, out) \<leftarrow> join_n_copy buf separator segs (fst bo) (snd bo);
            let b4 = b3\<lparr>buf_size := out\<rparr>;
            b5 \<leftarrow> buf_terminate b4;
            Some (0, b5) })))"

section \<open>Stores into a block\<close>

lemma buf_store_fields:
  "buf_store b off d = Some b' \<Longrightarrow> buf_size b' = buf_size b \<and> buf_asize b' = buf_asize b"
  by (auto simp: buf_store_def)

lemma buf_store_Nil [simp]: "buf_store b off [] = Some b"
  by (simp add: buf_store_def mem_write_def)

text \<open>Adjacent stores are one store.\<close>

lemma buf_store_store:
  assumes "buf_ptr b = Block m"
  shows "Option.bind (buf_store b off d1) (\<lambda>b1. buf_store b1 (off + length d1) d2) = buf_store b off (d1 @ d2)"
proof (cases "d1 = [] \<or> d2 = []")
  case True
  then show ?thesis by auto
next
  case False
  then have pos: "0 < length d1" "0 < length d2" by auto
  show ?thesis
  proof (cases "off + length d1 \<le> length m")
    case True
    then show ?thesis
      using assms False pos
      by (auto simp: buf_store_def mem_write_def ac_simps)
  next
    case 2: False
    then show ?thesis
      using assms False by (auto simp: buf_store_def mem_write_def)
  qed
qed

lemma buf_store_bind:
  assumes "\<exists>m. buf_ptr b = Block m"
  shows "Option.bind (buf_store b off d1) (\<lambda>b1. Option.bind (buf_store b1 (off + length d1) d2) f) =
    Option.bind (buf_store b off (d1 @ d2)) f"
  using assms buf_store_store [of b _ off d1 d2] by (auto simp del: Option.bind_assoc simp: Option.bind_assoc [symmetric])

lemma buf_store_block:
  assumes "buf_ptr b = Block m" and "off + length d \<le> length m"
  shows "buf_store b off d = Some (b\<lparr>buf_ptr := Block (take off m @ d @ drop (off + length d) m)\<rparr>)"
  using assms by (cases "d = []") (auto simp: buf_store_def mem_write_def)

lemma buf_store_ptr_block:
  assumes "buf_ptr b = Block m" and "buf_store b off d = Some b1"
  shows "\<exists>m1. buf_ptr b1 = Block m1 \<and> length m1 = length m"
  using assms by (auto simp: buf_store_def mem_write_def split: if_splits)

text \<open>Overwriting everything from \<open>off\<close> on and terminating there.\<close>

lemma buf_overwrite_wf:
  assumes wf: "buf_wf b" and off: "off \<le> buf_size b" and fits: "off + length d < buf_asize b"
  shows "\<exists>b2. Option.bind (buf_store b off d) (\<lambda>b1. buf_terminate (b1\<lparr>buf_size := off + length d\<rparr>)) = Some b2 \<and>
    buf_wf b2 \<and> content b2 = take off (content b) @ d \<and> buf_asize b2 = buf_asize b"
  using wf
proof (cases rule: buf_wf_cases)
  case init
  then show ?thesis using fits by (simp add: GIT_BUF_INIT_def)
next
  case (block m)
  let ?m = "take off m @ d @ drop (off + length d) m"
  have "Option.bind (buf_store b off d) (\<lambda>b1. buf_terminate (b1\<lparr>buf_size := off + length d\<rparr>)) =
      Some (b\<lparr>buf_ptr := Block (?m[off + length d := 0]), buf_size := off + length d\<rparr>)"
    using block fits by (simp add: buf_store_block buf_terminate_block)
  then show ?thesis
    using block fits off by (auto simp: buf_wf_def content_def min_def)
qed

lemma buf_load_content:
  assumes "buf_wf b" and "off + n \<le> buf_size b"
  shows "buf_load b off n = Some (take n (drop off (content b)))"
  using assms(1)
proof (cases rule: buf_wf_cases)
  case init
  then show ?thesis using assms by (simp add: buf_load_def mem_read_def GIT_BUF_INIT_def)
next
  case (block m)
  then show ?thesis
    using assms by (auto simp: buf_load_def mem_read_def content_def drop_take min_def)
qed

section \<open>Truncation, trimming and search\<close>

lemma git_buf_truncate_wf:
  assumes "buf_wf b"
  shows "\<exists>b'. git_buf_truncate b n = Some b' \<and> buf_wf b' \<and> content b' = take n (content b)"
proof (cases "n \<ge> buf_size b")
  case True
  then show ?thesis using assms by (simp add: git_buf_truncate_def)
next
  case False
  then have "buf_asize b > 0" "n \<le> buf_size b" "n < buf_asize b"
    using buf_wf_bounds [OF assms] by auto
  then show ?thesis
    using False buf_shrink_wf [OF assms, of n] by (auto simp: git_buf_truncate_def)
qed

lemma git_buf_shorten_wf:
  assumes "buf_wf b"
  shows "\<exists>b'. git_buf_shorten b n = Some b' \<and> buf_wf b' \<and> content b' = take (buf_size b - n) (content b)"
  using git_buf_truncate_wf [OF assms, of "buf_size b - n"] git_buf_clear_wf [OF assms]
  by (auto simp: git_buf_shorten_def)

lemma git_buf_consume_wf:
  assumes "buf_wf b" and "n \<le> buf_size b"
  shows "\<exists>b'. git_buf_consume b n = Some b' \<and> buf_wf b' \<and> content b' = drop n (content b)"
proof (cases "n = 0")
  case True
  then show ?thesis using assms by (simp add: git_buf_consume_def)
next
  case False
  have sz: "0 < buf_size b" "buf_size b < buf_asize b"
    using assms False by (auto simp: GIT_BUF_INIT_def elim!: buf_wf_cases)
  have ld: "buf_load b n (buf_size b - n) = Some (drop n (content b))"
    using assms by (simp add: buf_load_content)
  have "0 + length (drop n (content b)) < buf_asize b"
    using assms sz by simp
  from buf_overwrite_wf [OF assms(1) _ this] obtain b2 where
    b2: "Option.bind (buf_store b 0 (drop n (content b)))
        (\<lambda>b1. buf_terminate (b1\<lparr>buf_size := buf_size b - n\<rparr>)) = Some b2"
      "buf_wf b2" "content b2 = drop n (content b)"
    using assms by auto
  have "git_buf_consume b n = Option.bind (buf_store b 0 (drop n (content b)))
      (\<lambda>b1. buf_terminate (b1\<lparr>buf_size := buf_size b - n\<rparr>))"
    using False assms ld
    by (cases "buf_store b 0 (drop n (content b))") (auto simp: git_buf_consume_def dest!: buf_store_fields)
  then show ?thesis using b2 by auto
qed

lemma rtrim_size_take:
  assumes "n \<le> length m"
  shows "rtrim_size m n \<le> n \<and>
    take (rtrim_size m n) m = rev (dropWhile git_isspace (rev (take n m)))"
  using assms
proof (induction n)
  case (Suc n)
  then show ?case by (auto simp: take_Suc_nth)
qed simp

lemma git_buf_rtrim_wf:
  assumes "buf_wf b"
  shows "\<exists>b'. git_buf_rtrim b = Some b' \<and> buf_wf b' \<and>
    content b' = rev (dropWhile git_isspace (rev (content b)))"
  using assms
proof (cases rule: buf_wf_cases)
  case init
  then show ?thesis by (simp add: git_buf_rtrim_def GIT_BUF_INIT_def buf_wf_def content_def)
next
  case (block m)
  let ?n = "rtrim_size m (buf_size b)"
  have n: "?n \<le> buf_size b" "take ?n m = rev (dropWhile git_isspace (rev (take (buf_size b) m)))"
    using rtrim_size_take [of "buf_size b" m] block by auto
  have "content b = take (buf_size b) m" using block by (simp add: content_def)
  then show ?thesis
    using buf_shrink_wf [OF assms, of ?n] n block
    by (auto simp: git_buf_rtrim_def Let_def min_def)
qed

lemma memcmp_eq_0_iff: "length xs = length ys \<Longrightarrow> memcmp xs ys = 0 \<longleftrightarrow> xs = ys"
  by (induction xs ys rule: memcmp.induct) auto

lemma memcmp_antisym: "memcmp xs ys = - memcmp ys xs"
  by (induction xs ys rule: memcmp.induct) auto

lemma memcmp_range: "memcmp xs ys \<in> {-1, 0, 1}"
  by (induction xs ys rule: memcmp.induct) auto

section \<open>Joins produce the joined string\<close>

definition join_str :: "byte \<Rightarrow> byte list \<Rightarrow> byte list \<Rightarrow> byte list" where
  "join_str sep a b =
     (if sep \<noteq> 0 \<and> a \<noteq> []
      then a @ (if last a \<noteq> sep then [sep] else []) @ dropWhile (\<lambda>c. c = sep) b
      else a @ b)"

definition join_src_is :: "git_buf \<Rightarrow> join_src \<Rightarrow> byte list \<Rightarrow> bool" where
  "join_src_is b a s \<longleftrightarrow>
     (case a of
        JNull \<Rightarrow> s = []
      | JExt t \<Rightarrow> s = cstr t
      | JOwn off \<Rightarrow> off \<le> buf_size b \<and> 0 \<notin> set (content b) \<and> s = drop off (content b))"

lemma or_fail_grow_wf:
  assumes al: "good_alloc al" and wf: "buf_wf b" and lim: "d \<le> BUF_LIMIT"
    and ok: "\<And>b'. buf_wf b' \<Longrightarrow> content b' = content b \<Longrightarrow> buf_size b' = buf_size b \<Longrightarrow> d \<le> buf_asize b' \<Longrightarrow>
      buf_outcome al b new (k b')"
  shows "buf_outcome al b new (or_fail (git_buf_grow al b d) k)"
proof -
  from git_buf_try_grow_wf [OF al wf lim, of True] obtain r b'
    where "git_buf_try_grow al b d True = Some (r, b')" and
      "r = 0 \<and> buf_wf b' \<and> content b' = content b \<and> buf_size b' = buf_size b \<and> d \<le> buf_asize b' \<or>
        r = -1 \<and> \<not> total_alloc al \<and> b' = buf_mark_oom True b" by auto
  then show ?thesis
    using ok [of b'] by (auto simp: git_buf_grow_def buf_outcome_def buf_mark_oom_def git_buf_oom_def)
qed

lemma own_cstr_content:
  assumes "buf_wf b" and "off \<le> buf_size b" and "0 \<notin> set (content b)"
  shows "own_cstr b off = Some (drop off (content b))"
  using assms(1)
proof (cases rule: buf_wf_cases)
  case init
  then show ?thesis
    using assms(2) by (simp add: own_cstr_def GIT_BUF_INIT_def content_def cstr_def)
next
  case (block m)
  have "m = take (buf_size b) m @ 0 # drop (Suc (buf_size b)) m"
    using block id_take_nth_drop [of "buf_size b" m] by simp
  moreover have "content b = take (buf_size b) m"
    using block by (simp add: content_def)
  ultimately obtain r where m: "m = content b @ 0 # r"
    by metis
  have "drop off m = drop off (content b) @ 0 # r"
    using assms(1,2) unfolding m by simp
  moreover have "0 \<notin> set (drop off (content b))"
    using assms(3) by (meson in_set_dropD)
  ultimately show ?thesis
    using block by (simp add: own_cstr_def cstr_append_nul)
qed

lemma join_src_str_is:
  assumes "buf_wf b" and "join_src_is b a s"
  shows "join_src_str b a = Some s"
  using assms by (cases a) (auto simp: join_src_str_def join_src_is_def own_cstr_content)

text \<open>The stores of a join: from \<open>off\<close> on, three pieces laid end to end.\<close>

lemma join_pieces:
  assumes wf: "buf_wf b" and blk: "0 < buf_asize b" and off: "off \<le> buf_size b"
    and fits: "off + length (d1 @ d2 @ d3) < buf_asize b"
  shows "\<exists>b2. Option.bind (buf_store b off d1) (\<lambda>b1. Option.bind (buf_store b1 (off + length d1) d2)
      (\<lambda>b2. Option.bind (buf_store b2 (off + length d1 + length d2) d3)
      (\<lambda>b3. buf_terminate (b3\<lparr>buf_size := off + length (d1 @ d2 @ d3)\<rparr>)))) = Some b2 \<and>
    buf_wf b2 \<and> content b2 = take off (content b) @ d1 @ d2 @ d3"
proof -
  obtain m where m: "buf_ptr b = Block m" "length m = buf_asize b"
    using wf blk by (auto simp: GIT_BUF_INIT_def elim!: buf_wf_cases)
  have "Option.bind (buf_store b off d1) (\<lambda>b1. Option.bind (buf_store b1 (off + length d1) d2)
      (\<lambda>b2. buf_store b2 (off + length d1 + length d2) d3)) = buf_store b off (d1 @ d2 @ d3)"
  proof (cases "buf_store b off d1")
    case None
    then show ?thesis
      using buf_store_store [OF m(1), of off d1 "d2 @ d3"] by simp
  next
    case (Some b1)
    obtain m1 where m1: "buf_ptr b1 = Block m1"
      using buf_store_ptr_block [OF m(1) Some] by auto
    show ?thesis
      using Some buf_store_store [OF m1, of "off + length d1" d2 d3]
        buf_store_store [OF m(1), of off d1 "d2 @ d3"] by simp
  qed
  from this [THEN arg_cong [where f = "\<lambda>x. Option.bind x
      (\<lambda>b3. buf_terminate (b3\<lparr>buf_size := off + length (d1 @ d2 @ d3)\<rparr>))"]]
    buf_overwrite_wf [OF wf off fits]
  show ?thesis
    by (simp only: Option.bind_assoc) blast
qed

lemma git_buf_join_outcome:
  assumes al: "good_alloc al" and wf: "buf_wf b" and src: "join_src_is b a sa"
    and lim: "length sa + length (cstr sb) + 2 \<le> BUF_LIMIT"
  shows "buf_outcome al b (join_str sep sa (cstr sb)) (git_buf_join al b sep a sb)"
proof -
  define d where "d = (if sep \<noteq> 0 \<and> sa \<noteq> [] then dropWhile (\<lambda>c. c = sep) (cstr sb) else cstr sb)"
  define sp where "sp = (if sep \<noteq> 0 \<and> sa \<noteq> [] \<and> last sa \<noteq> sep then [sep] else [])"
  define n where "n = length sa + length d + length sp + 1"
  have d_len: "length d \<le> length (cstr sb)"
    by (simp add: d_def length_dropWhile_le)
  have n_lim: "n \<le> BUF_LIMIT"
    using lim d_len by (simp add: n_def sp_def)
  have join: "join_str sep sa (cstr sb) = sa @ sp @ d"
    by (simp add: join_str_def d_def sp_def)
  have need: "(if sep \<noteq> 0 \<and> sa \<noteq> [] \<and> last sa \<noteq> sep then 1 else 0 :: nat) = length sp"
    by (simp add: sp_def)
  have sep_store: "(if length sp = 1 then buf_store b2 k [sep] else Some b2) = buf_store b2 k sp" for b2 k
    by (simp add: sp_def)
  let ?rest = "\<lambda>b2. Option.bind (buf_store b2 (length sa) sp) (\<lambda>b3.
      Option.bind (buf_store b3 (length sa + length sp) d) (\<lambda>b4.
      buf_terminate (b4\<lparr>buf_size := length sa + length d + length sp\<rparr>)))"
  have main: "buf_outcome al b (sa @ sp @ d)
      (Option.bind (if off = Some 0 \<or> a = JNull then Some b1
         else Option.bind (case off of Some o' \<Rightarrow> buf_load b1 o' (length sa)
             | None \<Rightarrow> if is_own a \<and> sa \<noteq> [] \<and> buf_asize b1 \<noteq> buf_asize b then None else Some sa)
           (\<lambda>s. buf_store b1 0 s))
        (\<lambda>b2. Option.bind (?rest b2) (\<lambda>b6. Some (0, b6))))"
    if b1: "buf_wf b1" "content b1 = content b" "buf_size b1 = buf_size b" "n \<le> buf_asize b1"
      and off: "off = (case a of JOwn o' \<Rightarrow> if o' < buf_size b then Some o' else None | _ \<Rightarrow> None)"
    for b1 off
  proof -
    have blk: "0 < buf_asize b1" using b1(4) by (simp add: n_def)
    show ?thesis
    proof (cases "off = Some 0")
      case True
      then have sa: "sa = content b"
        using off src by (auto simp: join_src_is_def split: join_src.splits if_splits)
      then have "length sa \<le> buf_size b1" using wf b1 by simp
      from join_pieces [OF b1(1) blk this, of "[]" sp d] obtain b2 where
        b2: "?rest b1 = Some b2" "buf_wf b2" "content b2 = take (length sa) (content b1) @ sp @ d"
        using b1(4) by (auto simp: n_def ac_simps)
      have "content b2 = sa @ sp @ d"
        using b2(3) b1(2) sa by simp
      then show ?thesis
        using True b2 unfolding buf_outcome_def
        by (intro exI [of _ 0] exI [of _ b2]) (simp only: Option.bind.simps if_True simp_thms)
    next
      case False
      have load: "(if off = Some 0 \<or> a = JNull then Some b1
         else Option.bind (case off of Some o' \<Rightarrow> buf_load b1 o' (length sa)
             | None \<Rightarrow> if is_own a \<and> sa \<noteq> [] \<and> buf_asize b1 \<noteq> buf_asize b then None else Some sa)
           (\<lambda>s. buf_store b1 0 s)) = buf_store b1 0 sa"
        using False off src b1(2,3) buf_load_content [OF b1(1)] wf
        by (auto simp: join_src_is_def split: join_src.splits if_splits)
      from join_pieces [OF b1(1) blk, of 0 sa sp d] obtain b2 where
        b2: "Option.bind (buf_store b1 0 sa) ?rest = Some b2" "buf_wf b2" "content b2 = sa @ sp @ d"
        using b1(4) by (auto simp: n_def ac_simps)
      have "Option.bind (buf_store b1 0 sa) (\<lambda>b2. Option.bind (?rest b2) (\<lambda>b6. Some (0::int, b6))) = Some (0, b2)"
        using b2(1) by (simp only: Option.bind_assoc [symmetric] Option.bind.simps)
      then show ?thesis
        using b2(2,3) unfolding buf_outcome_def load
        by (intro exI [of _ 0] exI [of _ b2]) (simp only: simp_thms)
    qed
  qed
  have fits: "length sa + length d < 2 ^ 64" "length sa + length d + length sp < 2 ^ 64"
    "length sa + length d + length sp + 1 < 2 ^ 64"
    using n_lim by (auto simp: n_def BUF_LIMIT_def)
  show ?thesis
    unfolding git_buf_join_def join join_src_str_is [OF wf src]
    apply (simp only: Option.bind.simps Let_def d_def [symmetric] need sep_store)
    apply (simp only: alloc_add_fits [OF fits(1)] alloc_add_fits [OF fits(2)] alloc_add_fits [OF fits(3)])
    apply (rule or_fail_grow_wf [OF al wf])
    subgoal using n_lim by (simp add: n_def)
    subgoal for b1
      using main [of b1] by (simp add: n_def Option.bind_assoc)
    done
qed

text \<open>The three-way join is two joins in a row.\<close>

lemma join3_str_eq:
  defines "b' \<equiv> \<lambda>sep a b. if sep \<noteq> 0 \<and> a \<noteq> [] then dropWhile (\<lambda>c. c = sep) b else (b :: byte list)"
    and "sp \<equiv> \<lambda>sep a. if sep \<noteq> 0 \<and> a \<noteq> [] \<and> last a \<noteq> sep then [sep :: byte] else []"
  shows "a @ sp sep a @ b' sep a b @ sp sep (b' sep a b) @ b' sep (a @ b' sep a b) c =
    join_str sep (join_str sep a b) c"
  by (auto simp: join_str_def b'_def sp_def)

lemma git_buf_join3_outcome:
  assumes al: "good_alloc al" and wf: "buf_wf b"
    and lim: "length (cstr s1) + length (cstr s2) + length (cstr s3) + 3 \<le> BUF_LIMIT"
  shows "buf_outcome al b (join_str sep (join_str sep (cstr s1) (cstr s2)) (cstr s3)) (git_buf_join3 al b sep s1 s2 s3)"
proof -
  define d2 where "d2 = (if sep \<noteq> 0 \<and> cstr s1 \<noteq> [] then dropWhile (\<lambda>c. c = sep) (cstr s2) else cstr s2)"
  define p1 where "p1 = (if sep \<noteq> 0 \<and> cstr s1 \<noteq> [] \<and> last (cstr s1) \<noteq> sep then [sep] else [])"
  define d3 where "d3 = (if sep \<noteq> 0 \<and> (cstr s1 \<noteq> [] \<or> d2 \<noteq> []) then dropWhile (\<lambda>c. c = sep) (cstr s3) else cstr s3)"
  define p2 where "p2 = (if sep \<noteq> 0 \<and> d2 \<noteq> [] \<and> last d2 \<noteq> sep then [sep] else [])"
  define new where "new = cstr s1 @ p1 @ d2 @ p2 @ d3"
  have len: "length d2 \<le> length (cstr s2)" "length d3 \<le> length (cstr s3)" "length p1 \<le> 1" "length p2 \<le> 1"
    by (auto simp: d2_def d3_def p1_def p2_def length_dropWhile_le)
  have new_lim: "length new + 1 \<le> BUF_LIMIT"
    using lim len by (simp add: new_def)
  have new_eq: "join_str sep (join_str sep (cstr s1) (cstr s2)) (cstr s3) = new"
    using join3_str_eq [of "cstr s1" sep "cstr s2" "cstr s3"]
    by (simp add: new_def d2_def p1_def d3_def p2_def)
  have needs: "(if sep \<noteq> 0 \<and> cstr s1 \<noteq> [] \<and> last (cstr s1) \<noteq> sep then 1 else 0 :: nat) = length p1"
    "(if sep \<noteq> 0 \<and> d2 \<noteq> [] \<and> last d2 \<noteq> sep then 1 else 0 :: nat) = length p2"
    by (auto simp: p1_def p2_def)
  have stores: "(if length p1 = 1 then buf_store x k [sep] else Some x) = buf_store x k p1"
    "(if length p2 = 1 then buf_store x k [sep] else Some x) = buf_store x k p2" for x k
    by (auto simp: p1_def p2_def)
  have fits: "length (cstr s1) + length p1 < 2 ^ 64" "length (cstr s1) + length p1 + length d2 < 2 ^ 64"
    "length (cstr s1) + length p1 + length d2 + length p2 < 2 ^ 64"
    "length (cstr s1) + length p1 + length d2 + length p2 + length d3 < 2 ^ 64"
    "length (cstr s1) + length p1 + length d2 + length p2 + length d3 + 1 < 2 ^ 64"
    using new_lim by (auto simp: new_def BUF_LIMIT_def)
  show ?thesis
    unfolding git_buf_join3_def new_eq
    apply (simp only: Let_def d2_def [symmetric] d3_def [symmetric] needs stores)
    apply (simp only: alloc_add_fits [OF fits(1)] alloc_add_fits [OF fits(2)] alloc_add_fits [OF fits(3)]
        alloc_add_fits [OF fits(4)] alloc_add_fits [OF fits(5)])
    apply (rule or_fail_grow_wf [OF al wf])
    subgoal using new_lim by (simp add: new_def)
    subgoal premises b1 for b1
    proof -
      obtain m where m: "buf_ptr b1 = Block m" "length m = buf_asize b1"
        using b1 by (auto simp: GIT_BUF_INIT_def elim!: buf_wf_cases)
      have mm: "\<exists>mm. buf_ptr b1 = Block mm" using m by blast
      let ?a = "cstr s1"
      have s1: "Option.bind (buf_store b1 0 ?a) (\<lambda>y. Option.bind (buf_store y (length ?a) p1) f) =
          Option.bind (buf_store b1 0 (?a @ p1)) f" for f :: "git_buf \<Rightarrow> (int \<times> git_buf) option"
        using buf_store_bind [OF mm, of 0 ?a p1] by simp
      have s2: "Option.bind (buf_store b1 0 (?a @ p1)) (\<lambda>y. Option.bind (buf_store y (length ?a + length p1) d2) f) =
          Option.bind (buf_store b1 0 (?a @ p1 @ d2)) f" for f :: "git_buf \<Rightarrow> (int \<times> git_buf) option"
        using buf_store_bind [OF mm, of 0 "?a @ p1" d2] by simp
      have s3: "Option.bind (buf_store b1 0 (?a @ p1 @ d2)) (\<lambda>y. Option.bind (buf_store y (length ?a + length p1 + length d2) p2) f) =
          Option.bind (buf_store b1 0 (?a @ p1 @ d2 @ p2)) f" for f :: "git_buf \<Rightarrow> (int \<times> git_buf) option"
        using buf_store_bind [OF mm, of 0 "?a @ p1 @ d2" p2] by (simp add: add.assoc)
      have s4: "Option.bind (buf_store b1 0 (?a @ p1 @ d2 @ p2)) (\<lambda>y. Option.bind (buf_store y (length ?a + length p1 + length d2 + length p2) d3) f) =
          Option.bind (buf_store b1 0 (?a @ p1 @ d2 @ p2 @ d3)) f" for f :: "git_buf \<Rightarrow> (int \<times> git_buf) option"
        using buf_store_bind [OF mm, of 0 "?a @ p1 @ d2 @ p2" d3] by (simp add: add.assoc)
      have "Option.bind (buf_store b1 0 ?a) (\<lambda>y1. Option.bind (buf_store y1 (length ?a) p1) (\<lambda>y2.
          Option.bind (buf_store y2 (length ?a + length p1) d2) (\<lambda>y3.
          Option.bind (buf_store y3 (length ?a + length p1 + length d2) p2) (\<lambda>y4.
          Option.bind (buf_store y4 (length ?a + length p1 + length d2 + length p2) d3) f)))) =
          Option.bind (buf_store b1 0 new) f" for f :: "git_buf \<Rightarrow> (int \<times> git_buf) option"
        by (simp only: s1 s2 s3 s4 new_def)
      moreover obtain b2 where "Option.bind (buf_store b1 0 new) (\<lambda>y. buf_terminate (y\<lparr>buf_size := length new\<rparr>)) = Some b2"
          "buf_wf b2" "content b2 = new"
        using buf_overwrite_wf [OF b1(1), of 0 new] b1(4) by (auto simp: new_def)
      then have "Option.bind (buf_store b1 0 new) (\<lambda>y. Option.bind (buf_terminate (y\<lparr>buf_size := length new\<rparr>))
          (\<lambda>b8. Some (0::int, b8))) = Some (0, b2)" "buf_wf b2" "content b2 = new"
        by (simp_all only: Option.bind_assoc [symmetric] Option.bind.simps)
      ultimately show ?thesis
        unfolding buf_outcome_def
        by (intro exI [of _ 0] exI [of _ b2]) (simp add: new_def add.assoc)
    qed
    done
qed

section \<open>Formatting and splicing\<close>

lemma vsnprintf_store_wf:
  assumes wf: "buf_wf b" and room: "length bs + 1 \<le> buf_asize b - buf_size b"
  shows "\<exists>b'. vsnprintf_store b bs = Some b' \<and> buf_asize b' = buf_asize b \<and> buf_size b' = buf_size b \<and>
    buf_wf (b'\<lparr>buf_size := buf_size b' + length bs\<rparr>) \<and> content (b'\<lparr>buf_size := buf_size b' + length bs\<rparr>) = content b @ bs"
  using wf
proof (cases rule: buf_wf_cases)
  case init
  then show ?thesis using room by (simp add: GIT_BUF_INIT_def)
next
  case (block m)
  let ?m = "take (buf_size b) m @ (bs @ [0]) @ drop (buf_size b + length (bs @ [0])) m"
  have "vsnprintf_store b bs = Some (b\<lparr>buf_ptr := Block ?m\<rparr>)"
    using block room buf_store_block [OF block(1), of "buf_size b" "bs @ [0]"]
    by (simp add: vsnprintf_store_def Let_def)
  then show ?thesis
    using block room by (auto simp: buf_wf_def content_def nth_append)
qed

lemma vsnprintf_store_short:
  assumes wf: "buf_wf b" and short: "\<not> length bs + 1 \<le> buf_asize b - buf_size b"
  shows "\<exists>b'. vsnprintf_store b bs = Some b' \<and> buf_asize b' = buf_asize b \<and> buf_size b' = buf_size b \<and>
    buf_weak b' \<and> content b' = content b"
  using wf
proof (cases rule: buf_wf_cases)
  case init
  then show ?thesis by (simp add: vsnprintf_store_def GIT_BUF_INIT_def buf_weak_def)
next
  case (block m)
  define k where "k = buf_asize b - buf_size b - 1"
  have k: "k \<le> length bs" "buf_size b + (k + 1) = length m"
    using short block by (auto simp: k_def)
  let ?m = "take (buf_size b) m @ (take k bs @ [0]) @ drop (buf_size b + length (take k bs @ [0])) m"
  have "vsnprintf_store b bs = Some (b\<lparr>buf_ptr := Block ?m\<rparr>)"
    using block short k buf_store_block [OF block(1), of "buf_size b" "take k bs @ [0]"] k_def
    by (simp add: vsnprintf_store_def Let_def)
  then show ?thesis
    using block k by (auto simp: buf_weak_def content_def)
qed

lemma vprintf_loop_room:
  assumes "buf_wf b" and "length bs + 1 \<le> buf_asize b - buf_size b"
  shows "\<exists>b'. vprintf_loop al (Some bs) b = Some (0, b') \<and> buf_wf b' \<and> content b' = content b @ bs"
  using vsnprintf_store_wf [OF assms] assms(2) by (subst vprintf_loop.simps) auto

lemma git_buf_vprintf_outcome:
  assumes al: "good_alloc al" and wf: "buf_wf b"
    and lim: "buf_size b + length bs + 1 \<le> BUF_LIMIT" "buf_size b + 2 * cstrlen fmt \<le> BUF_LIMIT"
  shows "buf_outcome al b (content b @ bs) (git_buf_vprintf al b fmt (Some bs))"
proof -
  have loop: "buf_outcome al b (content b @ bs) (vprintf_loop al (Some bs) b1)"
    if b1: "buf_wf b1" "content b1 = content b" "buf_size b1 = buf_size b" for b1
  proof (cases "length bs + 1 \<le> buf_asize b1 - buf_size b1")
    case True
    then show ?thesis
      using vprintf_loop_room [OF b1(1) True, of al] b1(2) by (auto simp: buf_outcome_def)
  next
    case False
    obtain b2 where b2: "vsnprintf_store b1 bs = Some b2" "buf_asize b2 = buf_asize b1" "buf_size b2 = buf_size b1"
        "buf_weak b2" "content b2 = content b1"
      using vsnprintf_store_short [OF b1(1) False] by auto
    define n where "n = buf_size b2 + length bs + 1"
    have n: "n \<le> BUF_LIMIT" "buf_asize b2 < n" "buf_size b2 + length bs < 2 ^ 64" "buf_size b2 + length bs + 1 < 2 ^ 64"
      using lim False b1(3) b2 by (auto simp: n_def BUF_LIMIT_def)
    have unfold: "vprintf_loop al (Some bs) b1 = Option.bind (git_buf_grow al b2 n)
        (\<lambda>rb. if fst rb < 0 then Some (-1, snd rb) else vprintf_loop al (Some bs) (snd rb))"
      using b2 False n(2-4) by (subst vprintf_loop.simps) (simp add: n_def)
    from git_buf_try_grow_weak [OF al b2(4) n(2,1), of True] obtain r b3
      where "git_buf_try_grow al b2 n True = Some (r, b3)" and
        "r = 0 \<and> buf_wf b3 \<and> content b3 = content b2 \<and> buf_size b3 = buf_size b2 \<and> n \<le> buf_asize b3 \<or>
          r = -1 \<and> \<not> total_alloc al \<and> b3 = buf_mark_oom True b2" by auto
    then show ?thesis
      using vprintf_loop_room [of b3 bs al] b1 b2 unfold
      by (elim disjE conjE, fastforce simp: git_buf_grow_def buf_outcome_def n_def)
        (auto simp: git_buf_grow_def buf_outcome_def buf_mark_oom_def git_buf_oom_def n_def)
  qed
  have fits: "cstrlen fmt * 2 < 2 ^ 64" "cstrlen fmt * 2 + buf_size b < 2 ^ 64"
      "cstrlen fmt * 2 + buf_size b \<le> BUF_LIMIT"
    using lim(2) by (auto simp: BUF_LIMIT_def)
  show ?thesis
    unfolding git_buf_vprintf_def alloc_mul_fits [OF fits(1)] alloc_add_fits [OF fits(2)]
    by (rule ENSURE_SIZE_wf [OF al wf fits(3)]) (rule loop)
qed

text \<open>
  Splicing replaces the addressed bytes, as long as the allocation already has
  room for the result; when it has to grow, the moves use the stale pointer.
\<close>

lemma git_buf_splice_in_place:
  assumes wf: "buf_wf b" and pos: "pos + n \<le> buf_size b"
    and room: "buf_size b - n + length d < buf_asize b"
  shows "\<exists>b'. git_buf_splice al b pos n d = Some (0, b') \<and> buf_wf b' \<and>
    content b' = take pos (content b) @ d @ drop (pos + n) (content b)"
proof -
  let ?t = "drop (pos + n) (content b)"
  have blk: "0 < buf_asize b" using room by linarith
  have len: "length ?t = buf_size b - pos - n"
    using wf pos by simp
  have asz: "buf_asize b < 2 ^ 63"
    using buf_wf_bounds [OF wf] by simp
  then have fits: "buf_size b - n + length d < 2 ^ 64" "buf_size b - n + length d + 1 < 2 ^ 64"
    using room by auto
  have size_eq: "buf_size b - n + length d = pos + length (d @ ?t)"
    using pos len by simp
  obtain m where m: "buf_ptr b = Block m" "length m = buf_asize b"
    using wf blk by (auto simp: GIT_BUF_INIT_def elim!: buf_wf_cases)
  have room': "pos + length d + length ?t \<le> length m"
    using room size_eq m by simp
  let ?m1 = "take (pos + length d) m @ ?t @ drop (pos + length d + length ?t) m"
  have split: "take pos ?m1 = take pos m" "drop (pos + length d) ?m1 = ?t @ drop (pos + length d + length ?t) m"
    using room' by (auto simp: min_def)
  have "buf_store b (pos + length d) ?t = Some (b\<lparr>buf_ptr := Block ?m1\<rparr>)"
    using buf_store_block [OF m(1), of "pos + length d" ?t] room' by simp
  moreover have "buf_store (b\<lparr>buf_ptr := Block ?m1\<rparr>) pos d =
      Some (b\<lparr>buf_ptr := Block (take pos ?m1 @ d @ drop (pos + length d) ?m1)\<rparr>)"
    using buf_store_block [of "b\<lparr>buf_ptr := Block ?m1\<rparr>" ?m1 pos d] room' by simp
  moreover have "buf_store b pos (d @ ?t) = Some (b\<lparr>buf_ptr := Block (take pos m @ (d @ ?t) @ drop (pos + length (d @ ?t)) m)\<rparr>)"
    using buf_store_block [OF m(1), of pos "d @ ?t"] room' by simp
  ultimately have "Option.bind (buf_store b (pos + length d) ?t) (\<lambda>b1. buf_store b1 pos d) = buf_store b pos (d @ ?t)"
    unfolding split by (simp add: add.assoc)
  note one = this [THEN arg_cong [where f = "\<lambda>x. Option.bind x
      (\<lambda>b3. buf_terminate (b3\<lparr>buf_size := pos + length (d @ ?t)\<rparr>))"]]
  have "pos \<le> buf_size b" "pos + length (d @ ?t) < buf_asize b"
    using pos room size_eq by auto
  from buf_overwrite_wf [OF wf this] obtain b2 where
    b2: "Option.bind (buf_store b (pos + length d) ?t) (\<lambda>b1. Option.bind (buf_store b1 pos d)
      (\<lambda>b3. buf_terminate (b3\<lparr>buf_size := pos + length (d @ ?t)\<rparr>))) = Some b2"
      "buf_wf b2" "content b2 = take pos (content b) @ d @ ?t"
    using one by (simp only: Option.bind_assoc) blast
  have load: "buf_load b (pos + n) (buf_size b - pos - n) = Some ?t"
    using buf_load_content [OF wf, of "pos + n" "buf_size b - pos - n"] pos len by simp
  have bind3: "Option.bind X (\<lambda>b1. Option.bind (Y b1) (\<lambda>b2. Option.bind (Z b2) (\<lambda>b4. Some (0, b4)))) = Some (0::int, r)"
    if "Option.bind X (\<lambda>b1. Option.bind (Y b1) Z) = Some r" for X :: "git_buf option" and Y Z and r :: git_buf
    using that by (cases X) (auto simp: Option.bind_eq_Some_conv)
  have "git_buf_splice al b pos n d = Some (0, b2)"
    using pos room load bind3 [OF b2(1)] size_eq
    unfolding git_buf_splice_def alloc_add_fits [OF fits(1)] alloc_add_fits [OF fits(2)] ENSURE_SIZE_def Let_def
    by simp
  then show ?thesis
    using b2(2,3) by simp
qed

lemma git_buf_splice_stale:
  assumes env: "alloc_env al" and wf: "buf_wf b" and pos: "pos + n \<le> buf_size b"
    and grow: "buf_asize b \<le> buf_size b - n + length d"
    and lim: "buf_size b + length d < BUF_LIMIT"
  shows "git_buf_splice al b pos n d = None"
proof -
  have fits: "buf_size b - n + length d < 2 ^ 64" "buf_size b - n + length d + 1 < 2 ^ 64"
      "buf_size b - n + length d + 1 \<le> BUF_LIMIT"
    using lim by (auto simp: BUF_LIMIT_def)
  obtain b1 where "git_buf_try_grow al b (buf_size b - n + length d + 1) True = Some (0, b1)"
    using git_buf_try_grow_wf [OF _ wf fits(3), of al True] env by (auto simp: alloc_env_def)
  then show ?thesis
    using pos grow
    unfolding git_buf_splice_def alloc_add_fits [OF fits(1)] alloc_add_fits [OF fits(2)] ENSURE_SIZE_def
    by (simp add: git_buf_grow_def)
qed

end
