(* ===== verification/BufferCodec.thy ===== *)
theory BufferCodec
  imports BufferEdit
begin

text \<open>
  The encoders of buffer.c: base64 and base85 in both directions, and the
  quoting of path names, with their round trips.
\<close>

section \<open>Base64\<close>

definition base64_encode :: "byte list" where
  "base64_encode = bytes_of
     ''ABCDEFGHIJKLMNOPQRSTUVWXYZabcdefghijklmnopqrstuvwxyz0123456789+/''"

definition base64_decode :: "int list" where
  "base64_decode =
  [-1, -1, -1, -1, -1, -1, -1, -1, -1, -1, -1, -1, -1, -1, -1, -1,
   -1, -1, -1, -1, -1, -1, -1, -1, -1, -1, -1, -1, -1, -1, -1, -1,
   -1, -1, -1, -1, -1, -1, -1, -1, -1, -1, -1, 62, -1, -1, -1, 63,
   52, 53, 54, 55, 56, 57, 58, 59, 60, 61, -1, -1, -1, 0, -1, -1,
   -1, 0, 1, 2, 3, 4, 5, 6, 7, 8, 9, 10, 11, 12, 13, 14,
   15, 16, 17, 18, 19, 20, 21, 22, 23, 24, 25, -1, -1, -1, -1, -1,
   -1, 26, 27, 28, 29, 30, 31, 32, 33, 34, 35, 36, 37, 38, 39, 40,
   41, 42, 43, 44, 45, 46, 47, 48, 49, 50, 51, -1, -1, -1, -1, -1,
   -1, -1, -1, -1, -1, -1, -1, -1, -1, -1, -1, -1, -1, -1, -1, -1,
   -1, -1, -1, -1, -1, -1, -1, -1, -1, -1, -1, -1, -1, -1, -1, -1,
   -1, -1, -1, -1, -1, -1, -1, -1, -1, -1, -1, -1, -1, -1, -1, -1,
   -1, -1, -1, -1, -1, -1, -1, -1, -1, -1, -1, -1, -1, -1, -1, -1,
   -1, -1, -1, -1, -1, -1, -1, -1, -1, -1, -1, -1, -1, -1, -1, -1,
   -1, -1, -1, -1, -1, -1, -1, -1, -1, -1, -1, -1, -1, -1, -1, -1,
   -1, -1, -1, -1, -1, -1, -1, -1, -1, -1, -1, -1, -1, -1, -1, -1,
   -1, -1, -1, -1, -1, -1, -1, -1, -1, -1, -1, -1, -1, -1, -1, -1]"

definition b64 :: "byte \<Rightarrow> byte" where
  "b64 x = base64_encode ! unat x"

fun base64_enc_run :: "byte list \<Rightarrow> byte list" where
  "base64_enc_run (a # b # c # data) =
     [b64 (drop_bit 2 a),
      b64 (push_bit 4 (a AND 0x03) OR drop_bit 4 b),
      b64 (push_bit 2 (b AND 0x0f) OR drop_bit 6 c),
      b64 (c AND 0x3f)] @ base64_enc_run data"
| "base64_enc_run [a, b] =
     [b64 (drop_bit 2 a),
      b64 (push_bit 4 (a AND 0x03) OR drop_bit 4 b),
      b64 (push_bit 2 (b AND 0x0f)), B (CHR ''='')]"
| "base64_enc_run [a] =
     [b64 (drop_bit 2 a),
      b64 (push_bit 4 (a AND 0x03) OR drop_bit 4 0), B (CHR ''=''), B (CHR ''='')]"
| "base64_enc_run [] = []"

definition git_buf_encode_base64 :: "byte allocator \<Rightarrow> git_buf \<Rightarrow> byte list \<Rightarrow> (int \<times> git_buf) option" where
  "git_buf_encode_base64 al buf data =
     (let len = length data; extra = len mod 3;
          blocks0 = len div 3 + (if extra \<noteq> 0 then 1 else 0)
      in alloc_add buf blocks0 1 (\<lambda>blocks. alloc_mul buf blocks 4 (\<lambda>n. alloc_add buf n (buf_size buf) (\<lambda>alloclen.
           ENSURE_SIZE al buf alloclen (\<lambda>b. map_option (Pair 0) (buf_append b (base64_enc_run data)))))))"

text \<open>The decoding loop: whether every group was valid, and the bytes stored until then.\<close>

definition b64_value :: "byte \<Rightarrow> int" where
  "b64_value c = base64_decode ! unat c"

fun base64_dec_run :: "byte list \<Rightarrow> bool \<times> byte list" where
  "base64_dec_run (p # q # r # t # s) =
     (if b64_value p < 0 \<or> b64_value q < 0 \<or> b64_value r < 0 \<or> b64_value t < 0 then (False, [])
      else
        let a = of_int (b64_value p) :: byte; b = of_int (b64_value q) :: byte;
            c = of_int (b64_value r) :: byte; d = of_int (b64_value t) :: byte;
            (ok, out) = base64_dec_run s
        in (ok, (push_bit 2 a OR drop_bit 4 (b AND 0x30)) #
                (push_bit 4 (b AND 0x0f) OR drop_bit 2 (c AND 0x3c)) #
                (push_bit 6 (c AND 0x03) OR (d AND 0x3f)) # out))"
| "base64_dec_run _ = (True, [])"

text \<open>Store decoded bytes after the contents; keep them only when decoding succeeded.\<close>

definition buf_commit :: "git_buf \<Rightarrow> bool \<Rightarrow> byte list \<Rightarrow> (int \<times> git_buf) option" where
  "buf_commit b ok out = do {
     b1 \<leftarrow> buf_store b (buf_size b) out;
     let b2 = (if ok then b1\<lparr>buf_size := buf_size b1 + length out\<rparr> else b1);
     b3 \<leftarrow> buf_terminate b2;
     Some (if ok then 0 else -1, b3) }"

definition git_buf_decode_base64 :: "byte allocator \<Rightarrow> git_buf \<Rightarrow> byte list \<Rightarrow> (int \<times> git_buf) option" where
  "git_buf_decode_base64 al buf base64 =
     (let len = length base64 in
      if len mod 4 \<noteq> 0 then Some (-1, buf)
      else alloc_add buf (len div 4 * 3) (buf_size buf) (\<lambda>n. alloc_add buf n 1 (\<lambda>new_size.
        ENSURE_SIZE al buf new_size (\<lambda>b. case base64_dec_run base64 of (ok, out) \<Rightarrow> buf_commit b ok out))))"

section \<open>Base85\<close>

definition base85_encode :: "byte list" where
  "base85_encode = bytes_of
     ''0123456789ABCDEFGHIJKLMNOPQRSTUVWXYZabcdefghijklmnopqrstuvwxyz!#$%&()*+-;<=>?@^_`{|}~''"

definition base85_decode :: "int list" where
  "base85_decode =
  [-1, -1, -1, -1, -1, -1, -1, -1, -1, -1, -1, -1, -1, -1, -1, -1,
   -1, -1, -1, -1, -1, -1, -1, -1, -1, -1, -1, -1, -1, -1, -1, -1,
   -1, 63, -1, 64, 65, 66, 67, -1, 68, 69, 70, 71, -1, 72, -1, -1,
   1, 2, 3, 4, 5, 6, 7, 8, 9, 10, -1, 73, 74, 75, 76, 77,
   78, 11, 12, 13, 14, 15, 16, 17, 18, 19, 20, 21, 22, 23, 24, 25,
   26, 27, 28, 29, 30, 31, 32, 33, 34, 35, 36, -1, -1, -1, 79, 80,
   81, 37, 38, 39, 40, 41, 42, 43, 44, 45, 46, 47, 48, 49, 50, 51,
   52, 53, 54, 55, 56, 57, 58, 59, 60, 61, 62, 82, 83, 84, 85, -1,
   -1, -1, -1, -1, -1, -1, -1, -1, -1, -1, -1, -1, -1, -1, -1, -1,
   -1, -1, -1, -1, -1, -1, -1, -1, -1, -1, -1, -1, -1, -1, -1, -1,
   -1, -1, -1, -1, -1, -1, -1, -1, -1, -1, -1, -1, -1, -1, -1, -1,
   -1, -1, -1, -1, -1, -1, -1, -1, -1, -1, -1, -1, -1, -1, -1, -1,
   -1, -1, -1, -1, -1, -1, -1, -1, -1, -1, -1, -1, -1, -1, -1, -1,
   -1, -1, -1, -1, -1, -1, -1, -1, -1, -1, -1, -1, -1, -1, -1, -1,
   -1, -1, -1, -1, -1, -1, -1, -1, -1, -1, -1, -1, -1, -1, -1, -1,
   -1, -1, -1, -1, -1, -1, -1, -1, -1, -1, -1, -1, -1, -1, -1, -1]"

text \<open>\<open>acc |= ch << i\<close> for \<open>i = 24, 16, 8, 0\<close>, stopping when the data ends.\<close>

fun base85_acc :: "nat \<Rightarrow> byte list \<Rightarrow> u32" where
  "base85_acc k [] = 0"
| "base85_acc 0 (ch # data) = 0"
| "base85_acc (Suc k) (ch # data) = push_bit (8 * k) (ucast ch) OR base85_acc k data"

text \<open>\<open>val = acc % 85; acc /= 85\<close>, filling the digits from the last one.\<close>

fun base85_digits :: "nat \<Rightarrow> u32 \<Rightarrow> byte list \<Rightarrow> byte list" where
  "base85_digits 0 acc out = out"
| "base85_digits (Suc i) acc out =
     base85_digits i (acc div 85) (base85_encode ! unat (acc mod 85) # out)"

fun base85_enc_run :: "byte list \<Rightarrow> byte list" where
  "base85_enc_run data =
     (if data = [] then []
      else base85_digits 5 (base85_acc 4 (take 4 data)) [] @ base85_enc_run (drop 4 data))"

definition git_buf_encode_base85 :: "byte allocator \<Rightarrow> git_buf \<Rightarrow> byte list \<Rightarrow> (int \<times> git_buf) option" where
  "git_buf_encode_base85 al buf data =
     (let len = length data; blocks = len div 4 + (if len mod 4 \<noteq> 0 then 1 else 0)
      in alloc_mul buf blocks 5 (\<lambda>n. alloc_add buf n (buf_size buf) (\<lambda>n1. alloc_add buf n1 1 (\<lambda>alloclen.
           ENSURE_SIZE al buf alloclen (\<lambda>b. map_option (Pair 0) (buf_append b (base85_enc_run data)))))))"

text \<open>
  Read \<open>cnt\<close> digits into \<open>acc\<close>: \<open>None\<close> when the input is exhausted,
  \<open>Some None\<close> for the jump to \<open>on_error\<close>.
\<close>

fun base85_read :: "nat \<Rightarrow> u32 \<Rightarrow> byte list \<Rightarrow> (u32 \<times> byte list) option option" where
  "base85_read 0 acc s = Some (Some (acc, s))"
| "base85_read (Suc cnt) acc [] = None"
| "base85_read (Suc cnt) acc (ch # s) =
     (let de = base85_decode ! unat ch - 1 in
      if de < 0 then Some None else base85_read cnt (acc * 85 + of_int de) s)"

fun base85_emit :: "nat \<Rightarrow> u32 \<Rightarrow> byte list" where
  "base85_emit 0 acc = []"
| "base85_emit (Suc cnt) acc =
     (let acc' = push_bit 8 acc OR drop_bit 24 acc in ucast acc' # base85_emit cnt acc')"

function base85_dec_run :: "byte list \<Rightarrow> nat \<Rightarrow> (bool \<times> byte list) option" where
  "base85_dec_run s output_len =
     (if output_len = 0 then Some (True, [])
      else case base85_read 4 0 s of
        None \<Rightarrow> None
      | Some None \<Rightarrow> Some (False, [])
      | Some (Some (acc, [])) \<Rightarrow> None
      | Some (Some (acc, ch # s')) \<Rightarrow>
          let de = base85_decode ! unat ch - 1 in
          if de < 0 then Some (False, [])
          else if 0xffffffff div 85 < acc \<or> 0xffffffff - of_int de < acc * 85 then Some (False, [])
          else
            let acc' = acc * 85 + of_int de;
                cnt = (if output_len < 4 then output_len else 4)
            in map_option (\<lambda>(ok, out). (ok, base85_emit cnt acc' @ out)) (base85_dec_run s' (output_len - cnt)))"
  by pat_completeness auto
termination
  by (relation "measure snd") auto

declare base85_dec_run.simps [simp del] base85_enc_run.simps [simp del]

definition git_buf_decode_base85 :: "byte allocator \<Rightarrow> git_buf \<Rightarrow> byte list \<Rightarrow> nat \<Rightarrow> (int \<times> git_buf) option" where
  "git_buf_decode_base85 al buf base85 output_len =
     (let base85_len = length base85 in
      if base85_len mod 5 \<noteq> 0 \<or> output_len > base85_len * 4 mod 2 ^ 64 div 5 then Some (-1, buf)
      else alloc_add buf output_len (buf_size buf) (\<lambda>n. alloc_add buf n 1 (\<lambda>new_size.
        ENSURE_SIZE al buf new_size (\<lambda>b.
          case base85_dec_run base85 output_len of
            None \<Rightarrow> None
          | Some (ok, out) \<Rightarrow> buf_commit b ok out))))"

section \<open>Quoting\<close>

text \<open>The return codes of the appends to the temporary buffer are ignored, as in the code.\<close>

definition ignore :: "(int \<times> git_buf) option \<Rightarrow> git_buf option" where
  "ignore m = map_option snd m"

definition quote_needed :: "byte \<Rightarrow> bool" where
  "quote_needed c \<longleftrightarrow> c = B (CHR 0x22) \<or> c = B (CHR 0x5C) \<or> schar c < 32 \<or> schar c > 126"

definition quote_whitespace :: "byte list" where
  "quote_whitespace = bytes_of ''abtnvfr''"

text \<open>\<open>%03o\<close> of an unsigned char.\<close>

definition octal3 :: "byte \<Rightarrow> byte list" where
  "octal3 c = [48 + drop_bit 6 c, 48 + (drop_bit 3 c AND 7), 48 + (c AND 7)]"

definition quote_byte :: "byte allocator \<Rightarrow> byte \<Rightarrow> git_buf \<Rightarrow> git_buf option" where
  "quote_byte al c quoted =
     (if schar c \<ge> 7 \<and> schar c \<le> 13 then do {
        q \<leftarrow> ignore (git_buf_putc al quoted (B (CHR 0x5C)));
        ignore (git_buf_putc al q (quote_whitespace ! nat (schar c - 7))) }
      else if c = B (CHR 0x22) \<or> c = B (CHR 0x5C) then do {
        q \<leftarrow> ignore (git_buf_putc al quoted (B (CHR 0x5C)));
        ignore (git_buf_putc al q c) }
      else if c \<noteq> 32 \<and> (schar c < 33 \<or> schar c > 126) then
        ignore (git_buf_vprintf al quoted (B (CHR 0x5C) # bytes_of ''%03o'') (Some (B (CHR 0x5C) # octal3 c)))
      else ignore (git_buf_putc al quoted c))"

definition quote_start :: "byte list \<Rightarrow> nat option" where
  "quote_start bs =
     (if bs \<noteq> [] \<and> hd bs = B (CHR ''!'') then Some 0
      else let i = length (takeWhile (\<lambda>c. \<not> quote_needed c) bs) in if i < length bs then Some i else None)"

definition git_buf_quote :: "byte allocator \<Rightarrow> git_buf \<Rightarrow> (int \<times> git_buf) option" where
  "git_buf_quote al buf = do {
     bs \<leftarrow> buf_load buf 0 (buf_size buf);
     case quote_start bs of
       None \<Rightarrow> Some (0, buf)
     | Some i \<Rightarrow> do {
         q0 \<leftarrow> ignore (git_buf_putc al GIT_BUF_INIT (B (CHR 0x22)));
         q1 \<leftarrow> ignore (git_buf_put al q0 (take i bs));
         q2 \<leftarrow> foldl (\<lambda>q c. Option.bind q (quote_byte al c)) (Some q1) (drop i bs);
         q3 \<leftarrow> ignore (git_buf_putc al q2 (B (CHR 0x22)));
         if git_buf_oom q3 then Some (-1, buf) else Some (0, q3) } }"

text \<open>
  The in-place unquoting loop: \<open>m\<close> are the buffer's cells, \<open>j\<close> reads, \<open>i\<close> writes.
  The result says whether the line was valid, and gives the cells and the final \<open>i\<close>.
\<close>

definition unescape_char :: "byte \<Rightarrow> byte option" where
  "unescape_char ch =
     (if ch = B (CHR 0x22) \<or> ch = B (CHR 0x5C) then Some ch
      else if ch = B (CHR ''a'') then Some 7
      else if ch = B (CHR ''b'') then Some 8
      else if ch = B (CHR ''f'') then Some 12
      else if ch = B (CHR ''n'') then Some 10
      else if ch = B (CHR ''r'') then Some 13
      else if ch = B (CHR ''t'') then Some 9
      else if ch = B (CHR ''v'') then Some 11
      else None)"

definition is_octal :: "byte \<Rightarrow> bool" where
  "is_octal c \<longleftrightarrow> \<not> (schar c < 48 \<or> schar c > 55)"

function unquote_loop :: "nat \<Rightarrow> nat \<Rightarrow> nat \<Rightarrow> byte list \<Rightarrow> (bool \<times> byte list \<times> nat) option" where
  "unquote_loop n i j m =
     (if j < n - 1 then
        if m ! j \<noteq> B (CHR 0x5C) then unquote_loop n (i + 1) (j + 1) (m[i := m ! j])
        else if j = n - 2 then Some (False, m, i)
        else
          let j1 = j + 1; ch = m ! j1 in
          case unescape_char ch of
            Some v \<Rightarrow> unquote_loop n (i + 1) (j1 + 1) (m[i := v])
          | None \<Rightarrow>
              if ch = 48 \<or> ch = 49 \<or> ch = 50 \<or> ch = 51 then
                if j1 = n - 3 then Some (False, m, i)
                else if \<not> is_octal (m ! (j1 + 1)) \<or> \<not> is_octal (m ! (j1 + 2)) then Some (False, m, i)
                else unquote_loop n (i + 1) (j1 + 3)
                       (m[i := push_bit 6 (ch - 48) OR push_bit 3 (m ! (j1 + 1) - 48) OR (m ! (j1 + 2) - 48)])
              else Some (False, m, i)
      else Some (True, m, i))"
  by pat_completeness auto
termination
  by (relation "measure (\<lambda>(n, i, j, m). n - j)") auto

declare unquote_loop.simps [simp del]

definition git_buf_unquote :: "git_buf \<Rightarrow> (int \<times> git_buf) option" where
  "git_buf_unquote buf0 = do {
     buf \<leftarrow> git_buf_rtrim buf0;
     let m = mem_cells (buf_ptr buf);
     let n = buf_size buf;
     if n < 2 \<or> m ! 0 \<noteq> B (CHR 0x22) \<or> m ! (n - 1) \<noteq> B (CHR 0x22) then Some (-1, buf)
     else if length m < n then None
     else do {
       (ok, m', i) \<leftarrow> unquote_loop n 0 1 m;
       let b1 = buf\<lparr>buf_ptr := Block m'\<rparr>;
       if ok then do {
         b2 \<leftarrow> buf_terminate (b1\<lparr>buf_size := i\<rparr>);
         Some (0, b2) }
       else Some (-1, b1) } }"

section \<open>Base64 round trip\<close>

lemma base64_tables_inverse:
  assumes "x < 64"
  shows "b64_value (b64 x) = uint x"
proof -
  have "list_all (\<lambda>x. b64_value (b64 x) = uint x) (map of_nat [0..<64])"
    by code_simp
  then show ?thesis
    using all_bytes_below [of "\<lambda>x. b64_value (b64 x) = uint x" 64 x] assms by (simp add: word_less_nat_alt)
qed

lemma base64_pad_value: "b64_value (B (CHR ''='')) = 0"
  by code_simp

lemma base64_parts_bound:
  fixes a b c :: byte
  shows "drop_bit 2 a < 64"
    and "push_bit 4 (a AND 0x03) OR drop_bit 4 b < 64"
    and "push_bit 2 (b AND 0x0f) OR drop_bit 6 c < 64"
    and "push_bit 2 (b AND 0x0f) < 64"
    and "c AND 0x3f < 64"
  by (simp_all add: byte_less_64_bits byte_bits del: byte_eq_bits)

lemma base64_parts_join:
  fixes a b c :: byte
  shows "push_bit 2 (drop_bit 2 a) OR drop_bit 4 ((push_bit 4 (a AND 0x03) OR drop_bit 4 b) AND 0x30) = a"
    and "push_bit 4 ((push_bit 4 (a AND 0x03) OR drop_bit 4 b) AND 0x0f) OR
      drop_bit 2 ((push_bit 2 (b AND 0x0f) OR drop_bit 6 c) AND 0x3c) = b"
    and "push_bit 6 ((push_bit 2 (b AND 0x0f) OR drop_bit 6 c) AND 0x03) OR ((c AND 0x3f) AND 0x3f) = c"
  by (simp_all add: byte_bits)

lemma base64_dec_group:
  assumes "x1 < 64" and "x2 < 64" and "x3 < 64" and "x4 < 64"
  shows "base64_dec_run (b64 x1 # b64 x2 # b64 x3 # b64 x4 # s) =
    (fst (base64_dec_run s),
     (push_bit 2 x1 OR drop_bit 4 (x2 AND 0x30)) # (push_bit 4 (x2 AND 0x0f) OR drop_bit 2 (x3 AND 0x3c)) #
     (push_bit 6 (x3 AND 0x03) OR (x4 AND 0x3f)) # snd (base64_dec_run s))"
  using assms by (simp add: base64_tables_inverse split_beta)

text \<open>The padding character decodes to 0, so a padded block gives back the data and NULs up to a multiple of three.\<close>

lemma base64_dec_enc_run:
  "base64_dec_run (base64_enc_run data) = (True, data @ replicate ((3 - length data mod 3) mod 3) 0)"
proof (induction data rule: base64_enc_run.induct)
  case (1 a b c data)
  have "length (a # b # c # data) mod 3 = length data mod 3"
    by simp
  with 1 show ?case
    by (simp only: base64_enc_run.simps append_Cons append_Nil base64_dec_group [OF base64_parts_bound(1,2,3,5)]
        base64_parts_join fst_conv snd_conv)
next
  case (2 a b)
  have "b64_value (B (CHR ''='')) = b64_value (b64 0)"
    by code_simp
  then have pad: "base64_dec_run [p, q, r, B (CHR ''='')] = base64_dec_run [p, q, r, b64 0]" for p q r
    by simp
  have "push_bit 2 (b AND 0x0f) = push_bit 2 (b AND 0x0f) OR drop_bit 6 (0 :: byte)"
    by simp
  then show ?case
    using base64_dec_group [OF base64_parts_bound(1) [of a] base64_parts_bound(2) [of a b]
        base64_parts_bound(4) [of b], of 0 "[]"]
      base64_parts_join(1) [of a b] base64_parts_join(2) [of a b 0] base64_parts_join(3) [of b 0]
    by (simp only: base64_enc_run.simps pad) simp
next
  case (3 a)
  have "b64_value (B (CHR ''='')) = b64_value (b64 0)"
    by code_simp
  then have pad: "base64_dec_run [p, q, B (CHR ''=''), B (CHR ''='')] = base64_dec_run [p, q, b64 0, b64 0]" for p q
    by simp
  have two: "replicate 2 (0 :: byte) = [0, 0]"
    by (simp add: numeral_2_eq_2)
  show ?case
    using base64_dec_group [OF base64_parts_bound(1) [of a] base64_parts_bound(2) [of a 0], of 0 0 "[]"]
      base64_parts_join(1) [of a 0] base64_parts_join(2) [of a 0 0]
    by (simp only: base64_enc_run.simps pad) (simp add: two)
qed simp

section \<open>Base85 round trip\<close>

lemma base85_tables_inverse:
  assumes "v < 85"
  shows "base85_decode ! unat (base85_encode ! v) - 1 = int v"
proof -
  have "list_all (\<lambda>v. base85_decode ! unat (base85_encode ! v) - 1 = int v) [0..<85]"
    by code_simp
  then show ?thesis using assms by (simp add: list_all_iff)
qed

lemma base85_read_Suc:
  "base85_read (Suc n) z s =
    (case base85_read n z s of Some (Some (a, s')) \<Rightarrow> base85_read 1 a s' | r \<Rightarrow> r)"
proof (induction n arbitrary: z s)
  case (Suc n)
  then show ?case by (cases s) (auto simp: Let_def simp del: One_nat_def)
qed simp

lemma base85_read_digits:
  "base85_read n z (base85_digits n acc out) = Some (Some (of_nat (unat z * 85 ^ n + unat acc mod 85 ^ n), out))"
proof (induction n arbitrary: acc out)
  case (Suc n)
  have "unat (acc mod 85) < 85" "unat acc mod 85 < 85"
    by (simp_all add: unat_mod)
  then have dig: "base85_decode ! unat (base85_encode ! unat (acc mod 85)) - 1 = int (unat acc mod 85)"
    by (simp add: base85_tables_inverse unat_mod)
  have val: "(unat z * 85 ^ n + unat (acc div 85) mod 85 ^ n) * 85 + unat acc mod 85 =
      unat z * 85 ^ Suc n + unat acc mod 85 ^ Suc n"
    by (simp add: unat_div mod_mult2_eq add_mult_distrib)
  have "base85_read (Suc n) z (base85_digits (Suc n) acc out) =
      Some (Some (of_nat (unat z * 85 ^ n + unat (acc div 85) mod 85 ^ n) * 85 + of_nat (unat acc mod 85), out))"
    by (simp only: base85_read_Suc [of n z] base85_digits.simps Suc.IH option.case prod.case One_nat_def
        base85_read.simps Let_def dig) simp
  also have "\<dots> = Some (Some (of_nat (unat z * 85 ^ Suc n + unat acc mod 85 ^ Suc n), out))"
    unfolding val [symmetric] by simp
  finally show ?case .
qed simp

definition rot8 :: "u32 \<Rightarrow> u32" where "rot8 acc = push_bit 8 acc OR drop_bit 24 acc"

lemma rot8_byte: "n < 8 \<Longrightarrow> bit (ucast (rot8 acc) :: byte) n = bit acc (n + 24)"
  by (auto simp: rot8_def bit_simps add.commute)

lemma bit_rot8: "n < 32 \<Longrightarrow> bit (rot8 acc) n = (if n < 8 then bit acc (n + 24) else bit acc (n - 8))"
  using bit_imp_le_length [of acc "24 + n"] by (auto simp: rot8_def bit_simps add.commute [of 24])

lemma emit_Suc: "base85_emit (Suc cnt) acc = ucast (rot8 acc) # base85_emit cnt (rot8 acc)"
  by (simp add: rot8_def Let_def)

lemma rot8_bytes: 
  "ucast (rot8 acc) = (ucast (drop_bit 24 acc) :: byte)"
  "ucast (drop_bit 24 (rot8 acc)) = (ucast (drop_bit 16 acc) :: byte)"
  "ucast (drop_bit 16 (rot8 acc)) = (ucast (drop_bit 8 acc) :: byte)"
  "ucast (drop_bit 8 (rot8 acc)) = (ucast acc :: byte)"
  by (rule bit_word_eqI, simp add: bit_simps bit_rot8 add.commute)+

lemma emit_take: "n \<le> 4 \<Longrightarrow> base85_emit n acc = take n [ucast (drop_bit 24 acc), ucast(drop_bit 16 acc), ucast (drop_bit 8 acc), ucast acc]"
proof -
  assume "n \<le> 4"
  then have "n = 0 \<or> n = Suc 0 \<or> n = Suc (Suc 0) \<or> n = Suc (Suc (Suc 0)) \<or> n = Suc (Suc (Suc (Suc 0)))" by auto
  then show ?thesis by (elim disjE) (simp_all only: emit_Suc base85_emit.simps(1) rot8_bytes take_Suc_Cons take_0)
qed

lemma acc4: "base85_acc 4 [a] = push_bit 24 (ucast a)"
 "base85_acc 4 [a,b] = push_bit 24 (ucast a) OR push_bit 16 (ucast b)"
 "base85_acc 4 [a,b,c] = push_bit 24 (ucast a) OR (push_bit 16 (ucast b) OR push_bit 8 (ucast c))"
 "base85_acc 4 [a,b,c,d] = push_bit 24 (ucast a) OR (push_bit 16 (ucast b) OR (push_bit 8 (ucast c) OR ucast d))"
  by (simp_all add: eval_nat_numeral)

lemma acc_bytes: fixes a b c d :: byte
  shows "ucast (drop_bit 24 (push_bit 24 (ucast a) OR (push_bit 16 (ucast b) OR (push_bit 8 (ucast c) OR ucast d)) :: u32)) = a"
  "ucast (drop_bit 16 (push_bit 24 (ucast a) OR (push_bit 16 (ucast b) OR (push_bit 8 (ucast c) OR ucast d)) :: u32)) = b"
  "ucast (drop_bit 8 (push_bit 24 (ucast a) OR (push_bit 16 (ucast b) OR (push_bit 8 (ucast c) OR ucast d)) :: u32)) = c"
  "ucast ((push_bit 24 (ucast a) OR (push_bit 16 (ucast b) OR (push_bit 8 (ucast c) OR ucast d)) :: u32)) = d"
  by (rule bit_word_eqI, auto simp: bit_simps bit_byte_high)+

lemma base85_emit_acc:
  assumes "length ds \<le> 4"
  shows "base85_emit (length ds) (base85_acc 4 ds) = ds"
proof -
  have "ds = [] \<or> (\<exists>a. ds = [a]) \<or> (\<exists>a b. ds = [a, b]) \<or> (\<exists>a b c. ds = [a, b, c]) \<or> (\<exists>a b c d. ds = [a, b, c, d])"
    using assms by (auto simp: numeral_eq_Suc length_Suc_conv le_Suc_eq)
  then show ?thesis
  proof (elim disjE exE)
    fix a assume "ds = [a]" then show ?thesis using acc_bytes[of a 0 0 0] by (simp add: emit_take acc4 del: base85_acc.simps base85_emit.simps)
  next
    fix a b assume "ds = [a,b]" then show ?thesis using acc_bytes[of a b 0 0] by (simp add: emit_take acc4 del: base85_acc.simps base85_emit.simps)
  next
    fix a b c assume "ds = [a,b,c]" then show ?thesis using acc_bytes[of a b c 0] by (simp add: emit_take acc4 del: base85_acc.simps base85_emit.simps)
  next
    fix a b c d assume "ds = [a,b,c,d]" then show ?thesis using acc_bytes[of a b c d] by (simp add: emit_take acc4 del: base85_acc.simps base85_emit.simps)
  qed simp
qed
lemma base85_digits_append: "base85_digits i acc out @ rest = base85_digits i acc (out @ rest)"
  by (induction i arbitrary: acc out) simp_all

lemma div_le_minus_mod: "(n :: nat) \<le> m \<Longrightarrow> n div d * d \<le> m - n mod d"
  by (metis diff_le_mono minus_mod_eq_div_mult)

text \<open>The fifth digit passes both overflow checks and completes the value.\<close>

lemma base85_last_digit:
  fixes acc :: u32
  shows "\<not> (0xffffffff div 85 < acc div 85)"
    and "\<not> (0xffffffff - of_int (int (unat acc mod 85)) < acc div 85 * 85)"
    and "acc div 85 * 85 + of_int (int (unat acc mod 85)) = acc"
proof -
  have max: "acc \<le> 0xffffffff"
    using unsigned_less [of acc, where 'a = nat] by (simp add: word_le_nat_alt)
  then show "\<not> (0xffffffff div 85 < acc div 85)"
    by (simp add: word_le_nat_alt word_less_nat_alt unat_div)
  have m: "(of_int (int (unat acc mod 85)) :: u32) = acc mod 85"
    by (rule word_unat_eq_iff [THEN iffD2]) (simp add: unat_mod unat_of_nat)
  show eq: "acc div 85 * 85 + of_int (int (unat acc mod 85)) = acc"
    unfolding m by (rule div_mult_mod_eq)
  have "unat (acc div 85 * 85) = unat acc div 85 * 85"
    using unsigned_less [of acc, where 'a = nat] by (simp add: unat_word_ariths unat_div)
  moreover have "unat (0xffffffff - acc mod 85) = 4294967295 - unat acc mod 85"
    by (subst unat_sub) (simp_all add: word_le_nat_alt unat_mod)
  moreover have "unat acc div 85 * 85 \<le> 4294967295 - unat acc mod 85"
    using div_le_minus_mod [of "unat acc" 4294967295 85] unsigned_less [of acc, where 'a = nat] by simp
  ultimately show "\<not> (0xffffffff - of_int (int (unat acc mod 85)) < acc div 85 * 85)"
    unfolding m by (simp only: word_less_nat_alt not_less)
qed

lemma base85_dec_group:
  assumes "0 < n"
  shows "base85_dec_run (base85_digits 5 acc rest) n =
    map_option (\<lambda>(ok, out). (ok, base85_emit (min n 4) acc @ out)) (base85_dec_run rest (n - min n 4))"
proof -
  have small: "unat (acc div 85) < 85 ^ 4"
    using unsigned_less [of acc, where 'a = nat] by (simp add: unat_div)
  have five: "base85_digits 5 acc rest = base85_digits 4 (acc div 85) (base85_encode ! unat (acc mod 85) # rest)"
    by (simp add: eval_nat_numeral)
  have read: "base85_read 4 0 (base85_digits 5 acc rest) = Some (Some (acc div 85, base85_encode ! unat (acc mod 85) # rest))"
    unfolding five base85_read_digits using small by simp
  have "unat (acc mod 85) < 85"
    by (simp add: unat_mod)
  then have dig: "base85_decode ! unat (base85_encode ! unat (acc mod 85)) - 1 = int (unat acc mod 85)"
    by (simp only: base85_tables_inverse unat_mod) simp
  have cnt: "(if n < 4 then n else 4) = min n 4"
    by auto
  have n0: "(n = 0) = False" and neg: "(int (unat acc mod 85) < 0) = False"
    using assms by auto
  show ?thesis
    by (subst base85_dec_run.simps)
      (simp only: read n0 if_False option.case list.case prod.case Let_def dig neg base85_last_digit simp_thms cnt)
qed

lemma base85_dec_enc_run:
  "base85_dec_run (base85_enc_run data) (length data) = Some (True, data)"
proof (induction data rule: base85_enc_run.induct)
  case (1 data)
  note IH = 1 [unfolded length_drop]
  show ?case
  proof (cases "data = []")
    case True
    then show ?thesis by (simp add: base85_dec_run.simps)
  next
    case False
    have enc: "base85_enc_run data = base85_digits 5 (base85_acc 4 (take 4 data)) (base85_enc_run (drop 4 data))"
      using False by (subst base85_enc_run.simps) (simp add: base85_digits_append)
    have rest: "length data - min (length data) 4 = length data - 4"
      by auto
    show ?thesis
      using base85_emit_acc [of "take 4 data"]
      by (simp add: enc base85_dec_group [OF False [folded length_greater_0_conv]] IH [OF False] rest)
  qed
qed

section \<open>The codecs on buffers\<close>

lemma length_base64_enc_run: "length (base64_enc_run data) = 4 * ((length data + 2) div 3)"
proof (induction data rule: base64_enc_run.induct)
  case (1 a b c data)
  have "(length (a # b # c # data) + 2) div 3 = (length data + 2) div 3 + 1"
    by (simp add: div_add_self1 [symmetric])
  with 1 show ?case by simp
qed simp_all

lemma length_base64_dec_run: "length (snd (base64_dec_run s)) \<le> length s div 4 * 3"
proof (induction s rule: base64_dec_run.induct)
  case (1 p q r t s)
  have "length (p # q # r # t # s) div 4 = length s div 4 + 1"
    by (simp add: div_add_self1 [symmetric])
  with 1 show ?case by (auto simp: Let_def split: prod.split)
qed simp_all

lemma length_base85_digits [simp]: "length (base85_digits i acc out) = i + length out"
  by (induction i arbitrary: acc out) simp_all

lemma length_base85_enc_run: "length (base85_enc_run data) = 5 * ((length data + 3) div 4)"
proof (induction data rule: base85_enc_run.induct)
  case (1 data)
  show ?case
  proof (cases "data = []")
    case True
    then show ?thesis by (simp add: base85_enc_run.simps)
  next
    case False
    then have "5 + 5 * ((length data - 4 + 3) div 4) = 5 * ((length data + 3) div 4)"
      by (cases "length data < 4") (auto simp: neq_Nil_conv div_if)
    then show ?thesis
      using 1 [OF False] False by (subst base85_enc_run.simps) simp
  qed
qed

lemma length_base85_emit [simp]: "length (base85_emit n acc) = n"
  by (induction n arbitrary: acc) (simp_all add: Let_def)

lemma base85_dec_run_step:
  assumes "base85_dec_run s n = Some (ok, out)" and "n \<noteq> 0"
  shows "\<not> ok \<and> out = [] \<or>
    (\<exists>acc s' out'. out = base85_emit (min n 4) acc @ out' \<and> base85_dec_run s' (n - min n 4) = Some (ok, out'))"
proof -
  have cnt: "(if n < 4 then n else 4) = min n 4"
    by auto
  show ?thesis
    using assms by (subst (asm) base85_dec_run.simps)
      (auto simp: Let_def cnt split: option.splits prod.splits list.splits if_splits)
qed

lemma length_base85_dec_run:
  "base85_dec_run s n = Some (ok, out) \<Longrightarrow> length out \<le> n \<and> (ok \<longrightarrow> length out = n)"
proof (induction n arbitrary: s ok out rule: less_induct)
  case (less n)
  show ?case
  proof (cases "n = 0")
    case True
    then show ?thesis using less.prems by (simp add: base85_dec_run.simps)
  next
    case False
    with base85_dec_run_step [OF less.prems False] less.IH [of "n - min n 4"] show ?thesis
      by fastforce
  qed
qed

lemma buf_commit_wf:
  assumes wf: "buf_wf b" and fits: "buf_size b + length out < buf_asize b"
  shows "\<exists>b'. buf_commit b ok out = Some (if ok then 0 else -1, b') \<and> buf_wf b' \<and>
    content b' = content b @ (if ok then out else [])"
proof (cases ok)
  case True
  then show ?thesis
    using buf_append_wf [OF wf fits] by (auto simp: buf_commit_def buf_append_def split: bind_splits)
next
  case False
  show ?thesis
    using wf
  proof (cases rule: buf_wf_cases)
    case init
    then show ?thesis using fits by (simp add: GIT_BUF_INIT_def)
  next
    case (block m)
    then show ?thesis
      using fits False
      by (auto simp: buf_commit_def buf_store_def mem_write_def buf_terminate_block buf_wf_def content_def min_def)
  qed
qed

lemma git_buf_encode_base64_outcome:
  assumes "good_alloc al" and "buf_wf b" and "4 * (length data + 3) + buf_size b < BUF_LIMIT"
  shows "buf_outcome al b (content b @ base64_enc_run data) (git_buf_encode_base64 al b data)"
proof -
  define blocks where "blocks = length data div 3 + (if length data mod 3 \<noteq> 0 then 1 else 0)"
  have blocks: "blocks = (length data + 2) div 3"
    by (simp add: blocks_def mod_eq_0_iff_dvd) presburger
  have lim: "(blocks + 1) * 4 + buf_size b \<le> BUF_LIMIT"
    using assms(3) by (simp add: blocks)
  then have fits: "blocks + 1 < 2 ^ 64" "(blocks + 1) * 4 < 2 ^ 64" "(blocks + 1) * 4 + buf_size b < 2 ^ 64"
    by (auto simp: BUF_LIMIT_def)
  have room: "buf_size b + length (base64_enc_run data) < (blocks + 1) * 4 + buf_size b"
    by (simp add: length_base64_enc_run blocks)
  show ?thesis
    unfolding git_buf_encode_base64_def Let_def blocks_def [symmetric]
    using ENSURE_SIZE_wf [OF assms(1,2) lim, of "content b @ base64_enc_run data"] fits room
    by (simp add: buf_outcome_append)
qed

lemma git_buf_encode_base85_outcome:
  assumes "good_alloc al" and "buf_wf b" and "5 * (length data + 3) + buf_size b < BUF_LIMIT"
  shows "buf_outcome al b (content b @ base85_enc_run data) (git_buf_encode_base85 al b data)"
proof -
  define blocks where "blocks = length data div 4 + (if length data mod 4 \<noteq> 0 then 1 else 0)"
  have blocks: "blocks = (length data + 3) div 4"
    by (simp add: blocks_def mod_eq_0_iff_dvd) presburger
  have lim: "blocks * 5 + buf_size b + 1 \<le> BUF_LIMIT"
    using assms(3) by (simp add: blocks)
  then have fits: "blocks * 5 < 2 ^ 64" "blocks * 5 + buf_size b < 2 ^ 64" "blocks * 5 + buf_size b + 1 < 2 ^ 64"
    by (auto simp: BUF_LIMIT_def)
  have room: "buf_size b + length (base85_enc_run data) < blocks * 5 + buf_size b + 1"
    by (simp add: length_base85_enc_run blocks)
  show ?thesis
    unfolding git_buf_encode_base85_def Let_def blocks_def [symmetric]
    using ENSURE_SIZE_wf [OF assms(1,2) lim, of "content b @ base85_enc_run data"] fits room
    by (simp add: buf_outcome_append)
qed

lemma git_buf_decode_base64_total:
  assumes env: "alloc_env al" and wf: "buf_wf b" and lim: "length s + buf_size b + 1 < BUF_LIMIT"
    and "length s mod 4 = 0" and run: "base64_dec_run s = (ok, out)"
  shows "\<exists>b'. git_buf_decode_base64 al b s = Some (if ok then 0 else -1, b') \<and> buf_wf b' \<and>
    content b' = content b @ (if ok then out else [])"
proof -
  have le: "length s div 4 * 3 \<le> length s"
    by simp
  let ?n = "length s div 4 * 3 + buf_size b + 1"
  have n: "?n \<le> BUF_LIMIT"
    using lim le by linarith
  then have fits: "length s div 4 * 3 + buf_size b < 2 ^ 64" "?n < 2 ^ 64"
    by (auto simp: BUF_LIMIT_def)
  obtain b1 where b1: "ENSURE_SIZE al b ?n (\<lambda>b. buf_commit b ok out) = buf_commit b1 ok out" "buf_wf b1"
      "content b1 = content b" "buf_size b1 = buf_size b" "?n \<le> buf_asize b1"
    using ENSURE_SIZE_total [OF env wf n] by blast
  have "length out \<le> length s div 4 * 3"
    using length_base64_dec_run [of s] run by simp
  then have "buf_size b1 + length out < buf_asize b1"
    using b1 by linarith
  from buf_commit_wf [OF b1(2) this, of ok] show ?thesis
    using assms(4) fits b1 run by (simp add: git_buf_decode_base64_def)
qed

lemma git_buf_decode_base85_total:
  assumes env: "alloc_env al" and wf: "buf_wf b" and lim: "n + buf_size b + 1 < BUF_LIMIT"
    and "length s mod 5 = 0" and "n \<le> length s * 4 mod 2 ^ 64 div 5" and run: "base85_dec_run s n = Some (ok, out)"
  shows "\<exists>b'. git_buf_decode_base85 al b s n = Some (if ok then 0 else -1, b') \<and> buf_wf b' \<and>
    content b' = content b @ (if ok then out else [])"
proof -
  let ?n = "n + buf_size b + 1"
  have n: "?n \<le> BUF_LIMIT"
    using lim by linarith
  then have fits: "n + buf_size b < 2 ^ 64" "?n < 2 ^ 64"
    by (auto simp: BUF_LIMIT_def)
  obtain b1 where b1: "ENSURE_SIZE al b ?n (\<lambda>b. buf_commit b ok out) = buf_commit b1 ok out" "buf_wf b1"
      "content b1 = content b" "buf_size b1 = buf_size b" "?n \<le> buf_asize b1"
    using ENSURE_SIZE_total [OF env wf n] by blast
  have "length out \<le> n"
    using length_base85_dec_run [OF run] by simp
  then have "buf_size b1 + length out < buf_asize b1"
    using b1 by linarith
  from buf_commit_wf [OF b1(2) this, of ok] show ?thesis
    using assms(4,5) fits b1 run by (simp add: git_buf_decode_base85_def)
qed

section \<open>Quoting and unquoting\<close>

lemma schar_32: "schar c = 32 \<longleftrightarrow> c = 32"
  by (rule all_bytes [of "\<lambda>c. schar c = 32 \<longleftrightarrow> c = 32"]) code_simp

text \<open>What the quoting loop emits for a byte.\<close>

definition quote_spec :: "byte \<Rightarrow> byte list" where
  "quote_spec c =
     (if schar c \<ge> 7 \<and> schar c \<le> 13 then [B (CHR 0x5C), quote_whitespace ! nat (schar c - 7)]
      else if c = B (CHR 0x22) \<or> c = B (CHR 0x5C) then [B (CHR 0x5C), c]
      else if c \<noteq> 32 \<and> (schar c < 33 \<or> schar c > 126) then B (CHR 0x5C) # octal3 c
      else [c])"

definition unquotes_to :: "byte list \<Rightarrow> byte \<Rightarrow> bool" where
  "unquotes_to q c =
     (case q of
        [x] \<Rightarrow> x = c \<and> c \<noteq> B (CHR 0x5C)
      | [x, e] \<Rightarrow> x = B (CHR 0x5C) \<and> unescape_char e = Some c
      | [x, d, e, f] \<Rightarrow> x = B (CHR 0x5C) \<and> unescape_char d = None \<and> (d = 48 \<or> d = 49 \<or> d = 50 \<or> d = 51) \<and>
          is_octal e \<and> is_octal f \<and> push_bit 6 (d - 48) OR push_bit 3 (e - 48) OR (f - 48) = c
      | _ \<Rightarrow> False)"

lemma quote_whitespace_unescape:
  "schar c \<ge> 7 \<and> schar c \<le> 13 \<Longrightarrow> unescape_char (quote_whitespace ! nat (schar c - 7)) = Some c"
  by (rule all_bytes [of "\<lambda>c. schar c \<ge> 7 \<and> schar c \<le> 13 \<longrightarrow>
      unescape_char (quote_whitespace ! nat (schar c - 7)) = Some c", THEN mp]) code_simp

lemma octal_digit:
  "is_octal (48 + (c AND 7))" "is_octal (48 + (drop_bit 3 c AND 7))"
proof -
  have "is_octal (48 + (c AND 7))" for c
    by (rule all_bytes [of "\<lambda>c. is_octal (48 + (c AND 7))"]) code_simp
  then show "is_octal (48 + (c AND 7))" "is_octal (48 + (drop_bit 3 c AND 7))"
    by blast+
qed

lemma octal_first_digit:
  fixes c :: byte
  shows "drop_bit 6 c = 0 \<or> drop_bit 6 c = 1 \<or> drop_bit 6 c = 2 \<or> drop_bit 6 c = 3"
  by (rule all_bytes [of "\<lambda>c. drop_bit 6 c = 0 \<or> drop_bit 6 c = 1 \<or> drop_bit 6 c = 2 \<or> drop_bit 6 c = 3"]) code_simp

lemma octal_join:
  fixes c :: byte
  shows "push_bit 6 (drop_bit 6 c) OR push_bit 3 (drop_bit 3 c AND 7) OR (c AND 7) = c"
  by (simp add: byte_bits)

lemma octal3_unquotes: "unquotes_to (B (CHR 0x5C) # octal3 c) c"
proof -
  have "unescape_char (48 + drop_bit 6 c) = None"
    using octal_first_digit [of c] by (elim disjE) (simp_all add: unescape_char_def)
  then show ?thesis
    using octal_first_digit [of c] octal_join [of c]
    by (auto simp: unquotes_to_def octal3_def octal_digit)
qed

lemma unquotes_to_short:
  "c \<noteq> B (CHR 0x5C) \<Longrightarrow> unquotes_to [c] c"
  "unescape_char e = Some c \<Longrightarrow> unquotes_to [B (CHR 0x5C), e] c"
  "c = B (CHR 0x22) \<or> c = B (CHR 0x5C) \<Longrightarrow> unquotes_to [B (CHR 0x5C), c] c"
  by (auto simp: unquotes_to_def unescape_char_def)

lemma quote_spec_unquotes: "unquotes_to (quote_spec c) c"
proof (cases "schar c \<ge> 7 \<and> schar c \<le> 13")
  case True
  then show ?thesis
    by (simp only: quote_spec_def if_True simp_thms) (intro unquotes_to_short quote_whitespace_unescape, simp)
next
  case no_ws: False
  show ?thesis
  proof (cases "c = B (CHR 0x22) \<or> c = B (CHR 0x5C)")
    case True
    then show ?thesis
      by (simp only: quote_spec_def no_ws if_False if_True) (rule unquotes_to_short(3))
  next
    case False
    then have ne: "c \<noteq> B (CHR 0x5C)"
      by simp
    show ?thesis
      by (cases "c \<noteq> 32 \<and> (schar c < 33 \<or> schar c > 126)")
        (simp_all only: quote_spec_def no_ws False if_False if_True simp_thms unquotes_to_short(1) [OF ne] octal3_unquotes)
  qed
qed

lemma quote_spec_plain: "\<not> quote_needed c \<Longrightarrow> quote_spec c = [c]"
  using schar_32 [of c] by (auto simp: quote_spec_def quote_needed_def)

lemma quote_spec_length: "0 < length (quote_spec c)" "length (quote_spec c) \<le> 4"
  by (simp_all add: quote_spec_def octal3_def)

lemma cstrlen_octal_format: "cstrlen (B (CHR 0x5C) # bytes_of ''%03o'') = 5"
  by code_simp

lemma quote_byte_ok:
  assumes env: "alloc_env al" and wf: "buf_wf q" and room: "length (content q) + length (quote_spec c) < 2 ^ 61"
  shows "\<exists>q'. quote_byte al c q = Some q' \<and> buf_wf q' \<and> content q' = content q @ quote_spec c"
proof -
  have two: "\<exists>q'. Option.bind (ignore (git_buf_putc al q x)) (\<lambda>q. ignore (git_buf_putc al q y)) = Some q' \<and>
      buf_wf q' \<and> content q' = content q @ [x, y]" for x y
  proof -
    obtain q1 where q1: "git_buf_putc al q x = Some (0, q1)" "buf_wf q1" "content q1 = content q @ [x]"
      using git_buf_putc_total [OF env wf, of x] room quote_spec_length(1) [of c] by (auto simp: BUF_LIMIT_def)
    then obtain q2 where "git_buf_putc al q1 y = Some (0, q2)" "buf_wf q2" "content q2 = content q1 @ [y]"
      using git_buf_putc_total [OF env, of q1 y] room wf by (auto simp: BUF_LIMIT_def)
    then show ?thesis using q1 by (simp add: ignore_def)
  qed
  have one: "\<exists>q'. ignore (git_buf_putc al q x) = Some q' \<and> buf_wf q' \<and> content q' = content q @ [x]" for x
    using git_buf_putc_total [OF env wf, of x] room quote_spec_length(1) [of c] by (auto simp: BUF_LIMIT_def ignore_def)
  have fmt: "\<exists>q'. ignore (git_buf_vprintf al q (B (CHR 0x5C) # bytes_of ''%03o'') (Some (B (CHR 0x5C) # octal3 c))) = Some q' \<and>
      buf_wf q' \<and> content q' = content q @ B (CHR 0x5C) # octal3 c"
  proof -
    have "good_alloc al" "buf_size q + length (B (CHR 0x5C) # octal3 c) + 1 \<le> BUF_LIMIT"
      "buf_size q + 2 * cstrlen (B (CHR 0x5C) # bytes_of ''%03o'') \<le> BUF_LIMIT"
      using env room wf unfolding cstrlen_octal_format by (auto simp: BUF_LIMIT_def alloc_env_def octal3_def)
    from buf_outcome_total [OF git_buf_vprintf_outcome [OF this(1) wf this(2,3)] env] show ?thesis
      by (auto simp: ignore_def)
  qed
  show ?thesis
    using two one fmt unfolding quote_byte_def quote_spec_def by (simp split del: if_split cong: if_cong) auto
qed

lemma unquote_loop_step:
  assumes "unquotes_to q c" and "take (length q) (drop j m) = q" and "j + length q < n" and "n \<le> length m" and "i < j"
  shows "unquote_loop n i j m = unquote_loop n (i + 1) (j + length q) (m[i := c])"
proof -
  have at: "m ! (j + k) = q ! k" if "k < length q" for k
    using arg_cong [OF assms(2), of "\<lambda>xs. xs ! k"] that assms(3,4) by simp
  consider (one) "q = [c]" "c \<noteq> B (CHR 0x5C)"
    | (two) e where "q = [B (CHR 0x5C), e]" "unescape_char e = Some c"
    | (four) d e f where "q = [B (CHR 0x5C), d, e, f]" "unescape_char d = None" "d = 48 \<or> d = 49 \<or> d = 50 \<or> d = 51"
      "is_octal e" "is_octal f" "push_bit 6 (d - 48) OR push_bit 3 (e - 48) OR (f - 48) = c"
    using assms(1) by (auto simp: unquotes_to_def split: list.splits)
  then show ?thesis
  proof cases
    case one
    then show ?thesis using at [of 0] assms(3) by (subst unquote_loop.simps) auto
  next
    case two
    then show ?thesis using at [of 0] at [of 1] assms(3) by (subst unquote_loop.simps) (auto simp: Let_def)
  next
    case four
    then show ?thesis using at [of 0] at [of 1] at [of 2] at [of 3] assms(3)
      by (subst unquote_loop.simps) (auto simp: Let_def numeral_3_eq_3 numeral_2_eq_2)
  qed
qed

lemma unquote_loop_quoted:
  assumes "take (length (concat (map quote_spec bs))) (drop j m) = concat (map quote_spec bs)"
    and "j + length (concat (map quote_spec bs)) + 1 = n" and "n \<le> length m" and "i < j"
  shows "\<exists>m'. unquote_loop n i j m = Some (True, m', i + length bs) \<and> length m' = length m \<and>
    take (i + length bs) m' = take i m @ bs"
  using assms
proof (induction bs arbitrary: i j m)
  case Nil
  then show ?case by (subst unquote_loop.simps) auto
next
  case (Cons c bs)
  let ?q = "quote_spec c" and ?rest = "concat (map quote_spec bs)"
  have q: "take (length ?q) (drop j m) = ?q"
    using arg_cong [OF Cons.prems(1), of "take (length ?q)"] by simp
  have rest: "take (length ?rest) (drop (j + length ?q) m) = ?rest"
    using arg_cong [OF Cons.prems(1), of "drop (length ?q)"] by (simp add: take_drop ac_simps)
  have step: "unquote_loop n i j m = unquote_loop n (i + 1) (j + length ?q) (m[i := c])"
    using unquote_loop_step [OF quote_spec_unquotes q] Cons.prems by simp
  have "take (length ?rest) (drop (j + length ?q) (m[i := c])) = ?rest"
    using rest Cons.prems(4) by (simp add: drop_update_cancel)
  then show ?case
    using Cons.IH [of "j + length ?q" "m[i := c]" "i + 1"] Cons.prems(2,3,4) quote_spec_length(1) [of c]
    by (auto simp: step take_Suc_conv_app_nth)
qed

lemma quote_start_prefix:
  "quote_start bs = Some i \<Longrightarrow> i \<le> length bs \<and> concat (map quote_spec (take i bs)) = take i bs"
proof -
  assume start: "quote_start bs = Some i"
  then have i: "i \<le> length (takeWhile (\<lambda>c. \<not> quote_needed c) bs)"
    by (auto simp: quote_start_def Let_def split: if_splits)
  then have "\<forall>c \<in> set (take i bs). quote_spec c = [c]"
    by (metis nth_mem quote_spec_plain set_takeWhileD set_take_subset_set_take subset_code(1) takeWhile_eq_take)
  then have "map quote_spec (take i bs) = map (\<lambda>c. [c]) (take i bs)"
    by simp
  then have "concat (map quote_spec (take i bs)) = take i bs"
    by (simp only: concat_map_singleton) simp
  then show ?thesis
    using i length_takeWhile_le [of "\<lambda>c. \<not> quote_needed c" bs] by simp
qed

text \<open>The quoted form: the escapes between double quotes.\<close>

definition quoted :: "byte list \<Rightarrow> byte list" where
  "quoted bs = B (CHR 0x22) # concat (map quote_spec bs) @ [B (CHR 0x22)]"

lemma git_buf_quote_total:
  assumes env: "alloc_env al" and wf: "buf_wf b" and lim: "buf_size b < 2 ^ 58"
  shows "\<exists>b'. git_buf_quote al b = Some (0, b') \<and> buf_wf b' \<and>
    content b' = (if quote_start (content b) = None then content b else quoted (content b))"
proof -
  have load: "buf_load b 0 (buf_size b) = Some (content b)"
    using buf_load_content [OF wf, of 0 "buf_size b"] wf by simp
  show ?thesis
  proof (cases "quote_start (content b)")
    case None
    then show ?thesis using wf load by (simp add: git_buf_quote_def)
  next
    case (Some i)
    note pre = quote_start_prefix [OF Some]
    have len: "length (concat (map quote_spec bs)) \<le> 4 * length bs" for bs
      using quote_spec_length(2) by (induction bs) (auto intro: add_mono)
    obtain q0 where q0: "git_buf_putc al GIT_BUF_INIT (B (CHR 0x22)) = Some (0, q0)" "buf_wf q0" "content q0 = [B (CHR 0x22)]"
      using git_buf_putc_total [OF env buf_wf_INIT, of "B (CHR 0x22)"] by (auto simp: BUF_LIMIT_def)
    obtain q1 where q1: "git_buf_put al q0 (take i (content b)) = Some (0, q1)" "buf_wf q1"
        "content q1 = B (CHR 0x22) # take i (content b)"
      using gb.put_ok [OF env q0(2), of "take i (content b)"] q0(3) wf lim pre by (auto simp: BUF_LIMIT_def)
    have "length (content q1) + length (concat (map quote_spec (drop i (content b)))) < 2 ^ 61"
      using len [of "drop i (content b)"] q1(3) wf lim pre by simp linarith
    then obtain q2 where q2: "foldl (\<lambda>q c. Option.bind q (quote_byte al c)) (Some q1) (drop i (content b)) = Some q2"
        "buf_wf q2" "content q2 = content q1 @ concat (map quote_spec (drop i (content b)))"
      using gb.put_loop_ok [of "drop i (content b)" quote_spec "2 ^ 61" "quote_byte al" q1] quote_byte_ok [OF env] q1(2)
      by blast
    have all: "take i (content b) @ concat (map quote_spec (drop i (content b))) = concat (map quote_spec (content b))"
      using pre by (metis append_take_drop_id concat_append map_append)
    have c2: "content q2 = B (CHR 0x22) # concat (map quote_spec (content b))"
      using q2(3) q1(3) all by simp
    have "length (content q2) + 1 < BUF_LIMIT"
      using len [of "content b"] lim wf by (simp add: c2 BUF_LIMIT_def)
    then obtain q3 where q3: "git_buf_putc al q2 (B (CHR 0x22)) = Some (0, q3)" "buf_wf q3"
        "content q3 = quoted (content b)"
      using git_buf_putc_total [OF env q2(2), of "B (CHR 0x22)"] c2 by (auto simp: quoted_def)
    have "\<not> git_buf_oom q3"
      using buf_wf_not_oom [OF q3(2)] by (simp add: git_buf_oom_def)
    then show ?thesis
      using q0 q1 q2 q3 load Some by (simp add: git_buf_quote_def ignore_def)
  qed
qed

lemma git_buf_unquote_quoted:
  assumes wf: "buf_wf b" and q: "content b = quoted bs"
  shows "\<exists>b'. git_buf_unquote b = Some (0, b') \<and> buf_wf b' \<and> content b' = bs"
proof -
  obtain r where r: "git_buf_rtrim b = Some r" "buf_wf r" "content r = content b"
    using git_buf_rtrim_wf [OF wf] by (auto simp: q quoted_def git_isspace_def)
  obtain m where m: "buf_ptr r = Block m" "length m = buf_asize r" "buf_size r < buf_asize r" "buf_asize r < 2 ^ 63"
    using r q by (auto simp: quoted_def elim!: buf_wf_cases)
  let ?n = "buf_size r"
  have c: "take ?n m = quoted bs"
    using r(3) q m(1) by (simp add: content_def)
  have n: "?n = length (concat (map quote_spec bs)) + 2"
    using arg_cong [OF c, of length] m by (simp add: quoted_def)
  have first: "m ! 0 = B (CHR 0x22)" and last: "m ! (?n - 1) = B (CHR 0x22)"
    using arg_cong [OF c, of "\<lambda>xs. xs ! 0"] arg_cong [OF c, of "\<lambda>xs. xs ! (?n - 1)"] n
    by (simp_all add: quoted_def nth_append)
  have "take (length (concat (map quote_spec bs))) (drop 1 m) = concat (map quote_spec bs)"
    using arg_cong [OF c, of "\<lambda>xs. take (?n - 2) (drop 1 xs)"] n by (simp add: quoted_def drop_take)
  then obtain m' where m': "unquote_loop ?n 0 1 m = Some (True, m', length bs)" "length m' = length m" "take (length bs) m' = bs"
    using unquote_loop_quoted [of bs 1 m ?n 0] n m by auto
  have "length bs \<le> length (concat (map quote_spec bs))"
  proof (induction bs)
    case (Cons c bs)
    then show ?case using quote_spec_length(1) [of c] by (simp del: length_greater_0_conv)
  qed simp
  then have "length bs < length m'"
    using n m m' by simp
  then show ?thesis
    using r(1) first last n m m'
    by (auto simp: git_buf_unquote_def Let_def buf_terminate_block buf_wf_def content_def)
qed

end
