(* ===== verification/BufferSpec.thy ===== *)
theory BufferSpec
  imports BufferCodec
begin

text \<open>
  The properties of the byte buffer: what each group of operations promises
  to its callers, the round trips of its codecs, and the two places where the code
  leaves the behaviour its header documents.
\<close>

section \<open>Growing, appending and setting\<close>

text \<open>C1: On a well-formed buffer every append of buffer.c (\<open>put\<close>, \<open>putc\<close>, \<open>putcn\<close>, \<open>puts\<close>, \<open>printf\<close>), whatever
  the allocator does, stays inside its memory and either succeeds, leaving a well-formed buffer whose
  contents are the old ones followed by the data, or fails with -1 after a refused allocation with the
  buffer marked out of memory.\<close>

theorem git_buf_append_contract:
  assumes "good_alloc al" and "buf_wf b"
    and "buf_size b + length data + 1 < BUF_LIMIT" and "buf_size b + n < BUF_LIMIT"
    and "buf_size b + 2 * cstrlen fmt \<le> BUF_LIMIT"
  shows "buf_outcome al b (content b @ data) (git_buf_put al b data) \<and>
    buf_outcome al b (content b @ [c]) (git_buf_putc al b c) \<and>
    buf_outcome al b (content b @ replicate n c) (git_buf_putcn al b c n) \<and>
    buf_outcome al b (content b @ cstr data) (git_buf_puts al b data) \<and>
    buf_outcome al b (content b @ data) (git_buf_vprintf al b fmt (Some data))"
proof -
  have "cstrlen data \<le> length data"
    by (simp add: cstrlen_def cstr_def length_takeWhile_le)
  then have "buf_outcome al b (content b @ cstr data) (git_buf_puts al b data)"
    using assms by (intro git_buf_puts_outcome) auto
  then show ?thesis
    using assms by (auto intro!: git_buf_put_outcome git_buf_putc_outcome git_buf_putcn_outcome git_buf_vprintf_outcome)
qed

theorem git_buf_append_contract_witness:
  "\<exists>b. git_buf_put (fill_alloc 0) GIT_BUF_INIT [1, 2, 3] = Some (0, b) \<and> content b = [1, 2, 3]"
proof -
  have "buf_outcome (fill_alloc 0) GIT_BUF_INIT (content GIT_BUF_INIT @ [1, 2, 3])
      (git_buf_put (fill_alloc 0) GIT_BUF_INIT [1, 2, 3])"
    using git_buf_append_contract [of "fill_alloc 0" GIT_BUF_INIT "[1, 2, 3]" 0 "[]"]
    by (simp add: GIT_BUF_INIT_def [THEN arg_cong, of buf_size] BUF_LIMIT_def cstrlen_def)
  then show ?thesis
    using buf_outcome_total by fastforce
qed

text \<open>C2: \<open>git_buf_try_grow\<close> on a well-formed buffer and a target up to \<open>2 ^ 62\<close>: the loop that multiplies the
  size by one and a half ends without wrapping, the request holds the target, and the contents survive the reallocation;
  when the allocator refuses it, the buffer is unchanged but for the mark the caller asked for.\<close>

theorem git_buf_try_grow_contract:
  assumes "good_alloc al" and "buf_wf b" and "target \<le> BUF_LIMIT"
  shows "\<exists>r b'. git_buf_try_grow al b target mark = Some (r, b') \<and>
    (r = 0 \<and> buf_wf b' \<and> content b' = content b \<and> target \<le> buf_asize b' \<or>
     r = -1 \<and> \<not> total_alloc al \<and> b' = buf_mark_oom mark b)"
  using git_buf_try_grow_wf [OF assms, of mark] by blast

theorem git_buf_try_grow_contract_witness:
  "\<exists>b. git_buf_try_grow (fill_alloc 0) GIT_BUF_INIT 100 True = Some (0, b) \<and> 100 \<le> buf_asize b"
  using git_buf_try_grow_contract [of "fill_alloc 0" GIT_BUF_INIT 100 True] by (auto simp: BUF_LIMIT_def)

text \<open>\<open>git_buf_set\<close> replaces the contents by the first \<open>len\<close> bytes of the source, and \<open>git_buf_sets\<close> by the
  string, emptying the buffer for a NULL or an empty one; nothing of the old contents is left.\<close>

theorem git_buf_set_contract:
  assumes "good_alloc al" and "buf_wf b" and "len \<le> length src" and "length src < BUF_LIMIT"
  shows "buf_outcome al b (take len src) (git_buf_set al b (Ext src) len) \<and>
    buf_outcome al b (cstr src) (git_buf_sets al b (Some src)) \<and>
    buf_outcome al b [] (git_buf_sets al b None)"
proof (intro conjI)
  show "buf_outcome al b (take len src) (git_buf_set al b (Ext src) len)"
    using assms by (intro git_buf_set_outcome) auto
  have "take (cstrlen src) src = cstr src"
    by (simp add: cstrlen_def cstr_def takeWhile_eq_take [symmetric])
  moreover have "cstrlen src \<le> length src"
    by (simp add: cstrlen_def cstr_def length_takeWhile_le)
  ultimately show "buf_outcome al b (cstr src) (git_buf_sets al b (Some src))"
    using assms git_buf_set_outcome [of al b "cstrlen src" src] by (simp add: git_buf_sets_def)
  show "buf_outcome al b [] (git_buf_sets al b None)"
    using git_buf_clear_wf [OF assms(2)] by (auto simp: git_buf_sets_def git_buf_set_def buf_outcome_def)
qed

theorem git_buf_set_contract_witness:
  "\<exists>b. git_buf_sets (fill_alloc 0) GIT_BUF_INIT (Some [5, 6, 0, 7]) = Some (0, b) \<and> content b = [5, 6]"
proof -
  have "buf_outcome (fill_alloc 0) GIT_BUF_INIT (cstr [5, 6, 0, 7]) (git_buf_sets (fill_alloc 0) GIT_BUF_INIT (Some [5, 6, 0, 7]))"
    using git_buf_set_contract [of "fill_alloc 0" GIT_BUF_INIT 4 "[5, 6, 0, 7]"] by (simp add: BUF_LIMIT_def)
  then show ?thesis
    using buf_outcome_total by (fastforce simp: cstr_def)
qed

section \<open>Shortening\<close>

text \<open>Truncating, shortening, trimming, consuming and clearing a well-formed buffer never leave its memory, keep it
  well formed and null-terminated, and leave exactly the stated part of the contents.\<close>

theorem git_buf_shrink_contract:
  assumes "buf_wf b" and "n \<le> buf_size b"
  shows "(\<exists>b'. git_buf_truncate b k = Some b' \<and> buf_wf b' \<and> content b' = take k (content b)) \<and>
    (\<exists>b'. git_buf_shorten b k = Some b' \<and> buf_wf b' \<and> content b' = take (buf_size b - k) (content b)) \<and>
    (\<exists>b'. git_buf_rtrim b = Some b' \<and> buf_wf b' \<and> content b' = rev (dropWhile git_isspace (rev (content b)))) \<and>
    (\<exists>b'. git_buf_consume b n = Some b' \<and> buf_wf b' \<and> content b' = drop n (content b)) \<and>
    (\<exists>b'. git_buf_clear b = Some b' \<and> buf_wf b' \<and> content b' = [])"
  using git_buf_truncate_wf [OF assms(1), of k] git_buf_shorten_wf [OF assms(1), of k] git_buf_rtrim_wf [OF assms(1)]
    git_buf_consume_wf [OF assms] git_buf_clear_wf [OF assms(1)] by blast

theorem git_buf_shrink_contract_witness:
  "\<exists>b'. git_buf_rtrim \<lparr>buf_ptr = Block [65, 32, 10, 0], buf_asize = 4, buf_size = 3\<rparr> = Some b' \<and> content b' = [65]"
  using git_buf_shrink_contract [of "\<lparr>buf_ptr = Block [65, 32, 10, 0], buf_asize = 4, buf_size = 3\<rparr>" 0 0]
  by (auto simp: buf_wf_def content_def git_isspace_def)

section \<open>Joining and splicing\<close>

text \<open>\<open>git_buf_join\<close> and \<open>git_buf_join3\<close> replace the contents by the joined string, with exactly one separator
  between two nonempty parts, also when the first part is (a tail of) the buffer itself and is moved by the reallocation.\<close>

theorem git_buf_join_contract:
  assumes "good_alloc al" and "buf_wf b" and "join_src_is b a sa"
    and "length sa + length (cstr s2) + length (cstr s3) + length (cstr s1) + 3 \<le> BUF_LIMIT"
  shows "buf_outcome al b (join_str sep sa (cstr s2)) (git_buf_join al b sep a s2) \<and>
    buf_outcome al b (join_str sep (join_str sep (cstr s1) (cstr s2)) (cstr s3)) (git_buf_join3 al b sep s1 s2 s3)"
  using git_buf_join_outcome [OF assms(1-3), of s2 sep] git_buf_join3_outcome [OF assms(1,2), of s1 s2 s3 sep] assms(4)
  by simp

theorem git_buf_join_contract_witness:
  "\<exists>b. git_buf_join (fill_alloc 0) GIT_BUF_INIT 47 (JExt [97, 47]) [47, 98] = Some (0, b) \<and> content b = [97, 47, 98]"
proof -
  have "buf_outcome (fill_alloc 0) GIT_BUF_INIT (join_str 47 [97, 47] (cstr [47, 98]))
      (git_buf_join (fill_alloc 0) GIT_BUF_INIT 47 (JExt [97, 47]) [47, 98])"
    using git_buf_join_contract [of "fill_alloc 0" GIT_BUF_INIT "JExt [97, 47]" "[97, 47]" "[47, 98]" "[]" "[]" 47]
    by (simp add: BUF_LIMIT_def join_src_is_def cstr_def)
  then show ?thesis
    using buf_outcome_total by (fastforce simp: cstr_def join_str_def)
qed

text \<open>\<open>git_buf_splice\<close> replaces \<open>n\<close> bytes at \<open>pos\<close> by the data when the allocation already has room. When it
  has to grow, its position pointer, taken before the reallocation, still points into the old block, and the moves
  go through it.\<close>

theorem git_buf_splice_contract:
  assumes "alloc_env al" and "buf_wf b" and "pos + n \<le> buf_size b" and "buf_size b + length d < BUF_LIMIT"
  shows "if buf_size b - n + length d < buf_asize b
    then \<exists>b'. git_buf_splice al b pos n d = Some (0, b') \<and> buf_wf b' \<and>
      content b' = take pos (content b) @ d @ drop (pos + n) (content b)
    else git_buf_splice al b pos n d = None"
  using git_buf_splice_in_place [OF assms(2,3)] git_buf_splice_stale [OF assms(1,2,3) _ assms(4)] by auto

theorem git_buf_splice_contract_witness:
  "git_buf_splice (fill_alloc 0) \<lparr>buf_ptr = Block [65, 66, 67, 0], buf_asize = 4, buf_size = 3\<rparr> 1 1 [7, 8] = None \<and>
   (\<exists>b'. git_buf_splice (fill_alloc 0) \<lparr>buf_ptr = Block [65, 66, 67, 0], buf_asize = 4, buf_size = 3\<rparr> 1 1 [7] = Some (0, b') \<and>
     content b' = [65, 7, 67])"
  using git_buf_splice_contract [of "fill_alloc 0" "\<lparr>buf_ptr = Block [65, 66, 67, 0], buf_asize = 4, buf_size = 3\<rparr>" 1 1 "[7, 8]"]
    git_buf_splice_contract [of "fill_alloc 0" "\<lparr>buf_ptr = Block [65, 66, 67, 0], buf_asize = 4, buf_size = 3\<rparr>" 1 1 "[7]"]
  by (auto simp: buf_wf_def content_def BUF_LIMIT_def)

section \<open>The out-of-memory mark\<close>

lemma git_buf_put_failed:
  assumes al: "good_alloc al" and wf: "buf_wf b" and lim: "buf_size b + length data < BUF_LIMIT"
    and fail: "git_buf_put al b data = Some (-1, b')"
  shows "b' = b\<lparr>buf_ptr := OomBuf\<rparr>"
proof -
  have ne: "data \<noteq> []"
    using fail by (auto simp: git_buf_put_def)
  let ?d = "buf_size b + length data + 1"
  have lim': "?d \<le> BUF_LIMIT" "buf_size b + length data < 2 ^ 64" "?d < 2 ^ 64"
    using lim by (auto simp: BUF_LIMIT_def)
  have put: "git_buf_put al b data = ENSURE_SIZE al b ?d (\<lambda>b. map_option (Pair 0) (buf_append b data))"
    using ne lim' by (simp add: git_buf_put_def)
  show ?thesis
    using git_buf_try_grow_wf [OF al wf lim'(1), of True] fail
    by (auto simp: put ENSURE_SIZE_def git_buf_grow_def buf_mark_oom_def split: if_splits)
qed

text \<open>After an append failed for lack of memory, a further append that fits in the old allocation does not fail as
  the header says: the size check passes, \<open>ptr\<close> is the one-byte sentinel, and the store falls outside it.\<close>

theorem git_buf_put_after_oom:
  assumes "good_alloc al" and "buf_wf b" and "buf_size b + length data < BUF_LIMIT"
    and "git_buf_put al b data = Some (-1, b')" and "0 < buf_size b" and "buf_size b + 2 \<le> buf_asize b"
  shows "git_buf_oom b' \<and> git_buf_putc al' b' c = None"
proof -
  have b': "b' = b\<lparr>buf_ptr := OomBuf\<rparr>"
    by (rule git_buf_put_failed [OF assms(1-4)])
  have "buf_size b + 2 < 2 ^ 64"
    using buf_wf_bounds(2) [OF assms(2)] by simp
  then show ?thesis
    using assms(5,6)
    by (simp add: b' git_buf_oom_def git_buf_putc_def ENSURE_SIZE_def buf_append_def buf_store_def mem_write_def)
qed

theorem git_buf_put_after_oom_witness:
  "\<exists>b'. git_buf_put (limit_alloc 8 0) \<lparr>buf_ptr = Block [65, 0, 0, 0], buf_asize = 4, buf_size = 1\<rparr> (replicate 8 7) = Some (-1, b') \<and>
     git_buf_putc (limit_alloc 8 0) b' 66 = None"
proof -
  let ?b = "\<lparr>buf_ptr = Block [65, 0, 0, 0], buf_asize = 4, buf_size = 1\<rparr>"
  have grow: "buf_grow_size 4 10 = Some 14"
    by (simp add: buf_grow_size.simps)
  have put: "git_buf_put (limit_alloc 8 0) ?b (replicate 8 7) = Some (-1, ?b\<lparr>buf_ptr := OomBuf\<rparr>)"
    by (simp add: git_buf_put_def ENSURE_SIZE_def git_buf_grow_def git_buf_try_grow_def grow buf_round8_def Let_def
        realloc_cells_def limit_alloc_def buf_mark_oom_def)
  have "buf_wf ?b"
    by (simp add: buf_wf_def)
  then show ?thesis
    using put git_buf_put_after_oom [OF _ _ _ put, of "limit_alloc 8 0" 66] by (simp add: BUF_LIMIT_def)
qed

section \<open>Comparison\<close>

lemma memcmp_lexord:
  "(let n = min (length xs) (length ys); r = memcmp (take n xs) (take n ys) in
     if r \<noteq> 0 then r else if length xs < length ys then -1 else if length xs > length ys then 1 else 0) =
   (if xs = ys then 0 else if ord_class.lexordp xs ys then -1 else 1)"
proof (induction xs arbitrary: ys)
  case Nil
  then show ?case by (cases ys) (auto simp: Let_def)
next
  case (Cons x xs)
  show ?case
  proof (cases ys)
    case (Cons y ys')
    show ?thesis
    proof (cases "x = y")
      case True
      have lex: "ord_class.lexordp (y # xs) (y # ys') = ord_class.lexordp xs ys'"
        by simp
      show ?thesis
        unfolding True Cons Let_def length_Cons min_Suc_Suc take_Suc_Cons memcmp.simps(1) Suc_less_eq
        using Cons.IH [of ys', unfolded Let_def] by (simp only: lex refl if_True list.inject simp_thms)
    next
      case False
      then show ?thesis
        unfolding Cons length_Cons min_Suc_Suc take_Suc_Cons memcmp.simps(1) by (auto simp: Let_def)
    qed
  qed (simp add: Let_def)
qed

text \<open>\<open>git_buf_cmp\<close> is the lexicographic comparison of the contents as unsigned bytes, a prefix being smaller.\<close>

theorem git_buf_cmp_lexicographic:
  assumes "buf_wf a" and "buf_wf b"
  shows "git_buf_cmp a b = (if content a = content b then 0 else if ord_class.lexordp (content a) (content b) then -1 else 1)"
proof -
  have cells: "take n (mem_cells (buf_ptr c)) = take n (content c)" if "n \<le> buf_size c" for n c
    using that by (simp add: content_def min_def)
  show ?thesis
    by (simp only: git_buf_cmp_def memcmp_lexord [symmetric] length_content assms Let_def cells min.cobounded1 min.cobounded2)
qed

theorem git_buf_cmp_lexicographic_witness:
  "git_buf_cmp \<lparr>buf_ptr = Block [200, 0], buf_asize = 2, buf_size = 1\<rparr> \<lparr>buf_ptr = Block [65, 66, 0], buf_asize = 3, buf_size = 2\<rparr> = 1"
  by (subst git_buf_cmp_lexicographic) (simp_all add: buf_wf_def content_def)

section \<open>Codecs\<close>

text \<open>Encoding any data as base64 and decoding the text gives back the data, followed by one NUL for each padding
  character, appended to whatever the two buffers held.\<close>

theorem base64_roundtrip:
  assumes env: "alloc_env al" and wf: "buf_wf b" "buf_wf b'"
    and lim: "4 * (length data + 3) + buf_size b < BUF_LIMIT" "4 * (length data + 3) + buf_size b' < BUF_LIMIT"
  shows "\<exists>e b1 b2. git_buf_encode_base64 al b data = Some (0, b1) \<and> buf_wf b1 \<and> content b1 = content b @ e \<and>
    git_buf_decode_base64 al b' e = Some (0, b2) \<and> buf_wf b2 \<and>
    content b2 = content b' @ data @ replicate ((3 - length data mod 3) mod 3) 0"
proof -
  let ?e = "base64_enc_run data"
  obtain b1 where "git_buf_encode_base64 al b data = Some (0, b1)" "buf_wf b1" "content b1 = content b @ ?e"
    using buf_outcome_total [OF git_buf_encode_base64_outcome env] env wf lim by (auto simp: alloc_env_def)
  moreover have e: "length ?e mod 4 = 0" "length ?e + buf_size b' + 1 < BUF_LIMIT"
    using lim(2) by (simp_all add: length_base64_enc_run)
  obtain b2 where "git_buf_decode_base64 al b' ?e = Some (0, b2)" "buf_wf b2"
      "content b2 = content b' @ data @ replicate ((3 - length data mod 3) mod 3) 0"
    using git_buf_decode_base64_total [OF env wf(2) e(2,1) base64_dec_enc_run] by auto
  ultimately show ?thesis by blast
qed

theorem base64_roundtrip_witness:
  "\<exists>e b1 b2. git_buf_encode_base64 (fill_alloc 0) GIT_BUF_INIT [1, 2] = Some (0, b1) \<and> content b1 = e \<and>
     git_buf_decode_base64 (fill_alloc 0) GIT_BUF_INIT e = Some (0, b2) \<and> content b2 = [1, 2, 0]"
  using base64_roundtrip [of "fill_alloc 0" GIT_BUF_INIT GIT_BUF_INIT "[1, 2]"]
  by (auto simp: BUF_LIMIT_def GIT_BUF_INIT_def [THEN arg_cong, of buf_size])

text \<open>C4: Encoding any data as base85 and decoding the text with the length of the data gives back exactly the data.\<close>

theorem base85_roundtrip:
  assumes env: "alloc_env al" and wf: "buf_wf b" "buf_wf b'"
    and lim: "5 * (length data + 3) + buf_size b < BUF_LIMIT" "5 * (length data + 3) + buf_size b' < BUF_LIMIT"
  shows "\<exists>e b1 b2. git_buf_encode_base85 al b data = Some (0, b1) \<and> buf_wf b1 \<and> content b1 = content b @ e \<and>
    git_buf_decode_base85 al b' e (length data) = Some (0, b2) \<and> buf_wf b2 \<and> content b2 = content b' @ data"
proof -
  let ?e = "base85_enc_run data"
  obtain b1 where "git_buf_encode_base85 al b data = Some (0, b1)" "buf_wf b1" "content b1 = content b @ ?e"
    using buf_outcome_total [OF git_buf_encode_base85_outcome env] env wf lim by (auto simp: alloc_env_def)
  moreover have e1: "length data \<le> length ?e * 4 mod 2 ^ 64 div 5"
  proof -
    have "length ?e * 4 < 2 ^ 64"
      using lim(1) by (simp add: length_base85_enc_run BUF_LIMIT_def)
    then show ?thesis by (simp add: length_base85_enc_run)
  qed
  moreover have e2: "length ?e mod 5 = 0" "length data + buf_size b' + 1 < BUF_LIMIT"
    using lim(2) by (simp_all add: length_base85_enc_run)
  obtain b2 where "git_buf_decode_base85 al b' ?e (length data) = Some (0, b2)" "buf_wf b2"
      "content b2 = content b' @ data"
    using git_buf_decode_base85_total [OF env wf(2) e2(2,1) e1 base85_dec_enc_run] by auto
  ultimately show ?thesis by blast
qed

theorem base85_roundtrip_witness:
  "\<exists>e b1 b2. git_buf_encode_base85 (fill_alloc 0) GIT_BUF_INIT [255, 255, 255, 255, 7] = Some (0, b1) \<and> content b1 = e \<and>
     git_buf_decode_base85 (fill_alloc 0) GIT_BUF_INIT e (length [255, 255, 255, 255, 7 :: byte]) = Some (0, b2) \<and> content b2 = [255, 255, 255, 255, 7]"
  using base85_roundtrip [of "fill_alloc 0" GIT_BUF_INIT GIT_BUF_INIT "[255, 255, 255, 255, 7]"]
  by (auto simp: BUF_LIMIT_def GIT_BUF_INIT_def [THEN arg_cong, of buf_size])



end
