(* ===== verification/Sort.thy ===== *)
theory Sort
  imports Prelude
begin

text \<open>
  tsort.c, the natural merge sort every sorted container uses, and the binary
  searches of util.c. The arrays are lists of elements; the pointers into the
  array being sorted become index arguments.
\<close>

section \<open>Comparison callbacks\<close>

text \<open>
  The contract of a C comparison callback: the sign is antisymmetric and
  "not greater" is transitive.
\<close>

definition total_cmp :: "('a \<Rightarrow> 'a \<Rightarrow> int) \<Rightarrow> bool" where
  "total_cmp cmp \<longleftrightarrow>
     (\<forall>x y. cmp x y < 0 \<longleftrightarrow> cmp y x > 0) \<and>
     (\<forall>x y z. cmp x y \<le> 0 \<longrightarrow> cmp y z \<le> 0 \<longrightarrow> cmp x z \<le> 0)"

section \<open>Binary search (util.c)\<close>

text \<open>
  \<open>base\<close> is an index; the result is the return code and the position. The same loop
  serves \<open>git__bsearch_r\<close>, whose comparison takes a payload.
\<close>

function bsearch_loop :: "('k \<Rightarrow> 'a \<Rightarrow> int) \<Rightarrow> 'k \<Rightarrow> 'a list \<Rightarrow> nat \<Rightarrow> nat \<Rightarrow> int \<Rightarrow> (int \<times> nat) option" where
  "bsearch_loop compare key arr base lim cmp =
     (if lim = 0 then Some (cmp, base)
      else
        let part = base + lim div 2 in
        if length arr \<le> part then None
        else
          let c = compare key (arr ! part) in
          if c = 0 then Some (c, part)
          else if c > 0 then bsearch_loop compare key arr (part + 1) ((lim - 1) div 2) c
          else bsearch_loop compare key arr base (lim div 2) c)"
  by pat_completeness auto
termination
  by (relation "measure (\<lambda>(compare, key, arr, base, lim, cmp). lim)") auto

definition git__bsearch :: "'a list \<Rightarrow> nat \<Rightarrow> 'k \<Rightarrow> ('k \<Rightarrow> 'a \<Rightarrow> int) \<Rightarrow> (int \<times> nat) option" where
  "git__bsearch arr array_len key compare =
     (case bsearch_loop compare key arr 0 array_len (-1) of
        None \<Rightarrow> None
      | Some (cmp, base) \<Rightarrow> Some (if cmp = 0 then 0 else GIT_ENOTFOUND, base))"

definition git__bsearch_r :: "'a list \<Rightarrow> nat \<Rightarrow> 'k \<Rightarrow> ('k \<Rightarrow> 'a \<Rightarrow> 'p \<Rightarrow> int) \<Rightarrow> 'p \<Rightarrow> (int \<times> nat) option" where
  "git__bsearch_r arr array_len key compare_r payload =
     (case bsearch_loop (\<lambda>k a. compare_r k a payload) key arr 0 array_len (-1) of
        None \<Rightarrow> None
      | Some (cmp, base) \<Rightarrow> Some (if cmp = 0 then 0 else GIT_ENOTFOUND, base))"

section \<open>Binary insertion sort\<close>

text \<open>Walk over the entries equal to \<open>x\<close> from index \<open>i\<close> on; reading past the array is \<open>None\<close>.\<close>

function skip_equal :: "('a \<Rightarrow> 'a \<Rightarrow> int) \<Rightarrow> 'a list \<Rightarrow> 'a \<Rightarrow> nat \<Rightarrow> nat option" where
  "skip_equal cmp dst x i =
     (if i < length dst then (if cmp x (dst ! i) = 0 then skip_equal cmp dst x (i + 1) else Some i) else None)"
  by pat_completeness auto
termination
  by (relation "measure (\<lambda>(cmp, dst, x, i). length dst - i)") auto

text \<open>The halving loop; \<open>c\<close> is always \<open>l + ((r - l) >> 1)\<close>, also initially.\<close>

function binsearch_loop :: "('a \<Rightarrow> 'a \<Rightarrow> int) \<Rightarrow> 'a list \<Rightarrow> 'a \<Rightarrow> nat \<Rightarrow> nat \<Rightarrow> nat option" where
  "binsearch_loop cmp dst x l r =
     (let c = l + (r - l) div 2 in
      if length dst \<le> c then None
      else
        let val = cmp x (dst ! c) in
        if val < 0 then (if c - l \<le> 1 then Some c else binsearch_loop cmp dst x l c)
        else if val > 0 then (if r - c \<le> 1 then Some (c + 1) else binsearch_loop cmp dst x c r)
        else skip_equal cmp dst x (c + 1))"
  by pat_completeness auto
termination
  by (relation "measure (\<lambda>(cmp, dst, x, l, r). r - l)") (auto, presburger)

definition binsearch :: "('a \<Rightarrow> 'a \<Rightarrow> int) \<Rightarrow> 'a list \<Rightarrow> 'a \<Rightarrow> nat \<Rightarrow> nat option" where
  "binsearch cmp dst x n =
     (if n = 0 \<or> length dst < n then None
      else if cmp x (dst ! 0) < 0 then Some 0
      else if cmp x (dst ! 0) = 0 then skip_equal cmp dst x 1
      else binsearch_loop cmp dst x 0 (n - 1))"

text \<open>\<open>for (j = i - 1; j >= location; j--) dst[j + 1] = dst[j]\<close>, counting \<open>j + 1\<close>.\<close>

fun shift_right :: "'a list \<Rightarrow> nat \<Rightarrow> nat \<Rightarrow> 'a list" where
  "shift_right dst location 0 = dst"
| "shift_right dst location (Suc j) =
     (if j \<ge> location then shift_right (dst[Suc j := dst ! j]) location j else dst)"

function bisort :: "('a \<Rightarrow> 'a \<Rightarrow> int) \<Rightarrow> 'a list \<Rightarrow> nat \<Rightarrow> nat \<Rightarrow> 'a list option" where
  "bisort cmp dst i n =
     (if i < n then
        if i = 0 \<or> length dst \<le> i then None
        else if cmp (dst ! (i - 1)) (dst ! i) \<le> 0 then bisort cmp dst (i + 1) n
        else do {
          location \<leftarrow> binsearch cmp dst (dst ! i) i;
          bisort cmp ((shift_right dst location i)[location := dst ! i]) (i + 1) n }
      else Some dst)"
  by pat_completeness auto
termination
  by (relation "measure (\<lambda>(cmp, dst, i, n). n - i)") auto

declare bsearch_loop.simps [simp del] skip_equal.simps [simp del] binsearch_loop.simps [simp del] bisort.simps [simp del]

section \<open>Runs\<close>

record tsort_run =
  run_start :: nat
  run_length :: nat

record 'a tsort_store =
  ts_alloc :: nat
  ts_storage :: "'a list"

function reverse_elements :: "'a list \<Rightarrow> nat \<Rightarrow> nat \<Rightarrow> 'a list" where
  "reverse_elements dst i j =
     (if i < j then reverse_elements (dst[i := dst ! j, j := dst ! i]) (i + 1) (j - 1) else dst)"
  by pat_completeness auto
termination
  by (relation "measure (\<lambda>(dst, i, j). j - i)") auto

text \<open>\<open>while (cur < size - 1 && p(dst[cur - 1], dst[cur])) cur++\<close>\<close>

function extend_run :: "('a \<Rightarrow> 'a \<Rightarrow> bool) \<Rightarrow> 'a list \<Rightarrow> nat \<Rightarrow> nat \<Rightarrow> nat" where
  "extend_run p dst cur n =
     (if cur < n - 1 \<and> p (dst ! (cur - 1)) (dst ! cur) then extend_run p dst (cur + 1) n else cur)"
  by pat_completeness auto
termination
  by (relation "measure (\<lambda>(p, dst, cur, n). n - cur)") auto

declare reverse_elements.simps [simp del] extend_run.simps [simp del]

definition count_run :: "('a \<Rightarrow> 'a \<Rightarrow> int) \<Rightarrow> 'a list \<Rightarrow> nat \<Rightarrow> nat \<Rightarrow> 'a list \<times> nat" where
  "count_run cmp dst start n =
     (if n - start = 1 then (dst, 1)
      else if start + 2 \<ge> n then
        ((if cmp (dst ! (n - 2)) (dst ! (n - 1)) > 0
          then dst[n - 1 := dst ! (n - 2), n - 2 := dst ! (n - 1)] else dst), 2)
      else if cmp (dst ! start) (dst ! (start + 1)) \<le> 0 then
        (dst, extend_run (\<lambda>x y. cmp x y \<le> 0) dst (start + 2) n - start)
      else
        let cur = extend_run (\<lambda>x y. cmp x y > 0) dst (start + 2) n in
        (reverse_elements dst start (cur - 1), cur - start))"

fun minrun_loop :: "nat \<Rightarrow> nat \<Rightarrow> nat" where
  "minrun_loop n r = (if n \<ge> 64 then minrun_loop (n div 2) (r OR (n AND 1)) else n + r)"

definition compute_minrun :: "nat \<Rightarrow> nat" where
  "compute_minrun n = minrun_loop n 0"

declare minrun_loop.simps [simp del]

text \<open>The run stack is a list with the topmost run first, so \<open>stack_curr\<close> is its length.\<close>

fun check_invariant :: "tsort_run list \<Rightarrow> bool" where
  "check_invariant (c # b # a # rest) =
     (\<not> (run_length a \<le> run_length b + run_length c \<or> run_length b \<le> run_length c))"
| "check_invariant [b, a] = (run_length a > run_length b)"
| "check_invariant _ = True"

section \<open>Merging\<close>

definition tsort_resize :: "'a allocator \<Rightarrow> 'a tsort_store \<Rightarrow> nat \<Rightarrow> 'a tsort_store option" where
  "tsort_resize al store new_size =
     (if ts_alloc store < new_size then
        map_option (\<lambda>m. store\<lparr>ts_storage := m, ts_alloc := new_size\<rparr>)
          (git__reallocarray al (ts_storage store) new_size)
      else Some store)"

text \<open>The left merge, \<open>hi\<close> being \<open>cur + A + B\<close>.\<close>

function merge_left :: "('a \<Rightarrow> 'a \<Rightarrow> int) \<Rightarrow> 'a list \<Rightarrow> nat \<Rightarrow> nat \<Rightarrow> nat \<Rightarrow> nat \<Rightarrow> nat \<Rightarrow> 'a list \<Rightarrow> 'a list" where
  "merge_left cmp storage A hi k i j dst =
     (if k < hi then
        if i < A \<and> j < hi then
          if cmp (storage ! i) (dst ! j) \<le> 0
          then merge_left cmp storage A hi (k + 1) (i + 1) j (dst[k := storage ! i])
          else merge_left cmp storage A hi (k + 1) i (j + 1) (dst[k := dst ! j])
        else if i < A then merge_left cmp storage A hi (k + 1) (i + 1) j (dst[k := storage ! i])
        else merge_left cmp storage A hi (k + 1) i (j + 1) (dst[k := dst ! j])
      else dst)"
  by pat_completeness auto
termination
  by (relation "measure (\<lambda>(cmp, storage, A, hi, k, i, j, dst). hi - k)") auto

text \<open>
  The right merge, with \<open>i\<close>, \<open>j\<close> and \<open>k\<close> one larger than in the code: the code's
  \<open>i >= 0\<close>, \<open>j >= cur\<close> and \<open>k >= cur\<close> are \<open>i > 0\<close>, \<open>j > cur\<close> and \<open>k > cur\<close>.
\<close>

function merge_right :: "('a \<Rightarrow> 'a \<Rightarrow> int) \<Rightarrow> 'a list \<Rightarrow> nat \<Rightarrow> nat \<Rightarrow> nat \<Rightarrow> nat \<Rightarrow> 'a list \<Rightarrow> 'a list" where
  "merge_right cmp storage cur k i j dst =
     (if k > cur then
        if i > 0 \<and> j > cur then
          if cmp (dst ! (j - 1)) (storage ! (i - 1)) > 0
          then merge_right cmp storage cur (k - 1) i (j - 1) (dst[k - 1 := dst ! (j - 1)])
          else merge_right cmp storage cur (k - 1) (i - 1) j (dst[k - 1 := storage ! (i - 1)])
        else if i > 0 then merge_right cmp storage cur (k - 1) (i - 1) j (dst[k - 1 := storage ! (i - 1)])
        else merge_right cmp storage cur (k - 1) i (j - 1) (dst[k - 1 := dst ! (j - 1)])
      else dst)"
  by pat_completeness auto
termination
  by (relation "measure (\<lambda>(cmp, storage, cur, k, i, j, dst). k)") auto

declare merge_left.simps [simp del] merge_right.simps [simp del]

text \<open>Merge two adjacent runs; when the temporary storage is refused the array is left as it is.\<close>

definition tsort_merge :: "'a allocator \<Rightarrow> ('a \<Rightarrow> 'a \<Rightarrow> int) \<Rightarrow> tsort_run \<Rightarrow> tsort_run \<Rightarrow> 'a list \<times> 'a tsort_store \<Rightarrow> ('a list \<times> 'a tsort_store) option" where
  "tsort_merge al cmp ra rb st =
     (let A = run_length ra; B = run_length rb; cur = run_start ra; (dst, store) = st in
      if length dst < cur + A + B then None
      else
        case tsort_resize al store (min A B) of
          None \<Rightarrow> Some (dst, store)
        | Some store1 \<Rightarrow>
            if A < B then
              let storage = take A (drop cur dst) @ drop A (ts_storage store1) in
              Some (merge_left cmp storage A (cur + A + B) cur 0 (cur + A) dst, store1\<lparr>ts_storage := storage\<rparr>)
            else
              let storage = take B (drop (cur + A) dst) @ drop B (ts_storage store1) in
              Some (merge_right cmp storage cur (cur + A + B) B (cur + A) dst, store1\<lparr>ts_storage := storage\<rparr>))"

definition run_join :: "tsort_run \<Rightarrow> tsort_run \<Rightarrow> tsort_run" where
  "run_join ra rb = ra\<lparr>run_length := run_length ra + run_length rb\<rparr>"

fun collapse :: "'a allocator \<Rightarrow> ('a \<Rightarrow> 'a \<Rightarrow> int) \<Rightarrow> nat \<Rightarrow> tsort_run list \<Rightarrow> 'a list \<times> 'a tsort_store \<Rightarrow>
    (tsort_run list \<times> 'a list \<times> 'a tsort_store) option" where
  "collapse al cmp n (c # b # a # rest) st =
     (if run_length a \<le> run_length b + run_length c then
        if run_length a < run_length c then do {
          st1 \<leftarrow> tsort_merge al cmp a b st;
          collapse al cmp n (c # run_join a b # rest) st1 }
        else do {
          st1 \<leftarrow> tsort_merge al cmp b c st;
          collapse al cmp n (run_join b c # a # rest) st1 }
      else if run_length b \<le> run_length c then do {
        st1 \<leftarrow> tsort_merge al cmp b c st;
        collapse al cmp n (run_join b c # a # rest) st1 }
      else Some (c # b # a # rest, st))"
| "collapse al cmp n [b, a] st =
     (if run_length a + run_length b = n \<or> run_length a \<le> run_length b then do {
        st1 \<leftarrow> tsort_merge al cmp a b st;
        Some ([run_join a b], st1) }
      else Some ([b, a], st))"
| "collapse al cmp n stack st = Some (stack, st)"

section \<open>The sort\<close>

text \<open>The end of \<open>PUSH_NEXT\<close>: merge what is on the stack.\<close>

fun merge_all :: "'a allocator \<Rightarrow> ('a \<Rightarrow> 'a \<Rightarrow> int) \<Rightarrow> tsort_run list \<Rightarrow> 'a list \<times> 'a tsort_store \<Rightarrow> 'a list option" where
  "merge_all al cmp (b # a # rest) st = do {
     st1 \<leftarrow> tsort_merge al cmp a b st;
     merge_all al cmp (run_join a b # rest) st1 }"
| "merge_all al cmp stack st = Some (fst st)"

text \<open>
  One \<open>PUSH_NEXT\<close>: find the next run, extend it to \<open>minrun\<close> by insertion, and push
  it. The run stack has 128 slots. The result is the new stack, array and \<open>cur\<close>.
\<close>

definition push_run :: "('a \<Rightarrow> 'a \<Rightarrow> int) \<Rightarrow> nat \<Rightarrow> tsort_run list \<Rightarrow> nat \<Rightarrow> 'a list \<Rightarrow> (tsort_run list \<times> nat \<times> 'a list) option" where
  "push_run cmp minrun stack cur dst =
     (let n = length dst;
          (dst1, len) = count_run cmp dst cur n;
          run = (if minrun > n - cur then n - cur else minrun)
      in do {
        dst2 \<leftarrow> (if run > len
                 then map_option (\<lambda>seg. take cur dst1 @ seg) (bisort cmp (drop cur dst1) len run)
                 else Some dst1);
        let len2 = (if run > len then run else len);
        if length stack < 128
        then Some (\<lparr>run_start = cur, run_length = len2\<rparr> # stack, cur + len2, dst2)
        else None })"

section \<open>Lengths are kept, stacks shrink\<close>

lemma length_merge_left [simp]: "length (merge_left cmp storage A hi k i j dst) = length dst"
proof (induction cmp storage A hi k i j dst rule: merge_left.induct)
  case (1 cmp storage A hi k i j dst)
  then show ?case by (subst merge_left.simps) simp
qed

lemma length_merge_right [simp]: "length (merge_right cmp storage cur k i j dst) = length dst"
proof (induction cmp storage cur k i j dst rule: merge_right.induct)
  case (1 cmp storage cur k i j dst)
  then show ?case by (subst merge_right.simps) simp
qed

lemma tsort_merge_length:
  "tsort_merge al cmp ra rb st = Some st1 \<Longrightarrow> length (fst st1) = length (fst st)"
  by (auto simp: tsort_merge_def Let_def split: prod.splits if_splits option.splits)

lemma collapse_length:
  "collapse al cmp n stack st = Some (stack1, st1) \<Longrightarrow>
    length (fst st1) = length (fst st) \<and> length stack1 \<le> length stack \<and>
    (\<not> check_invariant stack \<longrightarrow> length stack1 < length stack)"
proof (induction al cmp n stack st rule: collapse.induct)
  case (1 al cmp n c b a rest st)
  then show ?case
    by (fastforce split: if_splits bind_splits dest: tsort_merge_length)
next
  case (2 al cmp n b a st)
  then show ?case
    by (auto split: if_splits bind_splits dest: tsort_merge_length)
qed auto

lemma length_shift_right [simp]: "length (shift_right dst location i) = length dst"
  by (induction dst location i rule: shift_right.induct) auto

lemma length_reverse_elements [simp]: "length (reverse_elements dst i j) = length dst"
proof (induction dst i j rule: reverse_elements.induct)
  case (1 dst i j)
  then show ?case by (subst reverse_elements.simps) simp
qed

lemma bisort_length: "bisort cmp dst i n = Some dst1 \<Longrightarrow> length dst1 = length dst"
proof (induction cmp dst i n rule: bisort.induct)
  case (1 cmp dst i n)
  show ?case
    using "1.prems" "1.IH" by (subst (asm) bisort.simps) (auto split: if_splits bind_splits)
qed

lemma extend_run_ge: "cur \<le> extend_run p dst cur n"
proof (induction p dst cur n rule: extend_run.induct)
  case (1 p dst cur n)
  then show ?case by (subst extend_run.simps) auto
qed

lemma extend_run_le: "extend_run p dst cur n \<le> max cur (n - 1)"
proof (induction p dst cur n rule: extend_run.induct)
  case (1 p dst cur n)
  then show ?case by (subst extend_run.simps) auto
qed

lemma count_run_length:
  assumes "start < n"
  shows "length (fst (count_run cmp dst start n)) = length dst \<and> 0 < snd (count_run cmp dst start n)"
proof -
  have "start < extend_run p dst (start + 2) n" for p
    using extend_run_ge [of "start + 2" p dst n] by simp
  then show ?thesis
    by (auto simp: count_run_def Let_def)
qed

lemma push_run_length:
  assumes "push_run cmp minrun stack cur dst = Some (stack1, cur1, dst1)" and "cur < length dst"
  shows "length dst1 = length dst \<and> cur < cur1"
proof -
  obtain d l where c: "count_run cmp dst cur (length dst) = (d, l)"
    by (cases "count_run cmp dst cur (length dst)")
  have "length d = length dst" "0 < l"
    using count_run_length [OF assms(2), of cmp dst] by (simp_all add: c)
  then show ?thesis
    using assms by (auto simp: push_run_def c Let_def dest!: bisort_length split: if_splits bind_splits)
qed

text \<open>The main loop; a first phase pushes three runs without looking at the invariant.\<close>

function tsort_loop :: "'a allocator \<Rightarrow> ('a \<Rightarrow> 'a \<Rightarrow> int) \<Rightarrow> nat \<Rightarrow> nat \<Rightarrow> tsort_run list \<Rightarrow> nat \<Rightarrow> 'a list \<times> 'a tsort_store \<Rightarrow> 'a list option" where
  "tsort_loop al cmp minrun pushes stack cur st =
     (if pushes = 0 \<and> \<not> check_invariant stack then
        case collapse al cmp (length (fst st)) stack st of
          None \<Rightarrow> None
        | Some (stack1, st1) \<Rightarrow> tsort_loop al cmp minrun 0 stack1 cur st1
      else if length (fst st) \<le> cur then None
      else
        case push_run cmp minrun stack cur (fst st) of
          None \<Rightarrow> None
        | Some (stack1, cur1, dst1) \<Rightarrow>
            if cur1 = length dst1 then merge_all al cmp stack1 (dst1, snd st)
            else tsort_loop al cmp minrun (pushes - 1) stack1 cur1 (dst1, snd st))"
  by pat_completeness auto

termination
proof (relation "measures [\<lambda>(al, cmp, minrun, pushes, stack, cur, st). length (fst st) - cur,
    \<lambda>(al, cmp, minrun, pushes, stack, cur, st). length stack]", goal_cases)
  case (2 al cmp minrun pushes stack cur st p stack1 st1)
  then show ?case
    using collapse_length [of al cmp "length (fst st)" stack st stack1 st1] by (cases st1) auto
next
  case (3 al cmp minrun pushes stack cur st p stack1 q cur1 dst1)
  then show ?case
    using push_run_length [of cmp minrun stack cur "fst st" stack1 cur1 dst1] by auto
qed simp

declare tsort_loop.simps [simp del]

definition git__tsort_r :: "'a allocator \<Rightarrow> ('a \<Rightarrow> 'a \<Rightarrow> 'p \<Rightarrow> int) \<Rightarrow> 'p \<Rightarrow> 'a list \<Rightarrow> 'a list option" where
  "git__tsort_r al cmp payload dst =
     (let n = length dst; c = (\<lambda>x y. cmp x y payload) in
      if n < 64 then bisort c dst 1 n
      else tsort_loop al c (compute_minrun n) 3 [] 0 (dst, \<lparr>ts_alloc = 0, ts_storage = []\<rparr>))"

definition git__tsort :: "'a allocator \<Rightarrow> ('a \<Rightarrow> 'a \<Rightarrow> int) \<Rightarrow> 'a list \<Rightarrow> 'a list option" where
  "git__tsort al cmp dst = git__tsort_r al (\<lambda>x y payload. payload x y) cmp dst"

section \<open>Facts about comparison callbacks\<close>

abbreviation sorted_by :: "('a \<Rightarrow> 'a \<Rightarrow> int) \<Rightarrow> 'a list \<Rightarrow> bool" where
  "sorted_by cmp xs \<equiv> sorted_wrt (\<lambda>x y. cmp x y \<le> 0) xs"

text \<open>The same elements, those that compare equal in the same order.\<close>

definition stable_eq :: "('a \<Rightarrow> 'a \<Rightarrow> int) \<Rightarrow> 'a list \<Rightarrow> 'a list \<Rightarrow> bool" where
  "stable_eq cmp xs ys \<longleftrightarrow> (\<forall>z. filter (\<lambda>y. cmp z y = 0) xs = filter (\<lambda>y. cmp z y = 0) ys)"

lemma total_cmp_flip:
  assumes "total_cmp cmp"
  shows "cmp x y < 0 \<longleftrightarrow> cmp y x > 0" and "cmp x y = 0 \<longleftrightarrow> cmp y x = 0"
proof -
  have flip: "\<And>x y. cmp x y < 0 \<longleftrightarrow> cmp y x > 0"
    using assms by (simp add: total_cmp_def)
  then show "cmp x y < 0 \<longleftrightarrow> cmp y x > 0" by blast
  show "cmp x y = 0 \<longleftrightarrow> cmp y x = 0"
    using flip [of x y] flip [of y x] by linarith
qed

lemma total_cmp_trans: "total_cmp cmp \<Longrightarrow> cmp x y \<le> 0 \<Longrightarrow> cmp y z \<le> 0 \<Longrightarrow> cmp x z \<le> 0"
  unfolding total_cmp_def by blast

lemma total_cmp_refl: "total_cmp cmp \<Longrightarrow> cmp x x = 0"
  using total_cmp_flip(1) [of cmp x x] by force

lemma total_cmp_le: "total_cmp cmp \<Longrightarrow> cmp x y \<le> 0 \<longleftrightarrow> cmp y x \<ge> 0"
  using total_cmp_flip [of cmp y x] by force

lemma total_cmp_trans_less:
  assumes "total_cmp cmp"
  shows "cmp x y < 0 \<Longrightarrow> cmp y z \<le> 0 \<Longrightarrow> cmp x z < 0"
    and "cmp x y \<le> 0 \<Longrightarrow> cmp y z < 0 \<Longrightarrow> cmp x z < 0"
  using total_cmp_trans [OF assms, of y z x] total_cmp_trans [OF assms, of z x y]
    total_cmp_le [OF assms, of z x] total_cmp_le [OF assms, of y x] total_cmp_le [OF assms, of z y]
  by (meson linorder_not_less)+

lemma total_cmp_greater_trans:
  assumes "total_cmp cmp"
  shows "cmp x y > 0 \<Longrightarrow> cmp y z > 0 \<Longrightarrow> cmp x z > 0"
  using total_cmp_trans_less(1) [OF assms, of z y x] total_cmp_flip(1) [OF assms] by (meson less_imp_le)

lemma transp_le: "total_cmp cmp \<Longrightarrow> transp (\<lambda>x y. cmp x y \<le> 0)"
  by (auto intro: transpI total_cmp_trans)

lemma transp_greater: "total_cmp cmp \<Longrightarrow> transp (\<lambda>x y. cmp x y > 0)"
  by (auto intro: transpI total_cmp_greater_trans)

lemma stable_eq_refl [simp]: "stable_eq cmp xs xs"
  by (simp add: stable_eq_def)

lemma stable_eq_trans: "stable_eq cmp xs ys \<Longrightarrow> stable_eq cmp ys zs \<Longrightarrow> stable_eq cmp xs zs"
  by (simp add: stable_eq_def)

lemma stable_eq_append: "stable_eq cmp xs xs' \<Longrightarrow> stable_eq cmp ys ys' \<Longrightarrow> stable_eq cmp (xs @ ys) (xs' @ ys')"
  by (simp add: stable_eq_def)

lemma stable_eq_mset:
  assumes "total_cmp cmp" and "stable_eq cmp xs ys"
  shows "mset xs = mset ys"
proof (rule multiset_eqI)
  fix a
  have "count (mset zs) a = count (mset (filter (\<lambda>y. cmp a y = 0) zs)) a" for zs
    using total_cmp_refl [OF assms(1), of a] by (simp add: mset_filter)
  then show "count (mset xs) a = count (mset ys) a"
    using assms(2) by (metis stable_eq_def)
qed

section \<open>Binary search\<close>

text \<open>
  On an array that the key's comparison splits, the search returns an index
  inside the bounds; it is that of an equal element, or the only place to insert the key.
\<close>

definition key_sorted :: "('k \<Rightarrow> 'a \<Rightarrow> int) \<Rightarrow> 'k \<Rightarrow> 'a list \<Rightarrow> bool" where
  "key_sorted compare key xs \<longleftrightarrow> sorted_wrt (\<lambda>x y. compare key y \<ge> 0 \<longrightarrow> compare key x > 0 \<or> compare key x = 0 \<and> compare key y = 0) xs"

lemma bsearch_loop_spec:
  assumes "key_sorted compare key xs" and "base + lim \<le> length xs"
    and "\<forall>k < base. compare key (xs ! k) > 0"
    and "\<forall>k. base + lim \<le> k \<and> k < length xs \<longrightarrow> compare key (xs ! k) < 0"
    and "cmp \<noteq> 0"
  shows "\<exists>c pos. bsearch_loop compare key xs base lim cmp = Some (c, pos) \<and> pos \<le> length xs \<and>
    (if c = 0 then pos < length xs \<and> compare key (xs ! pos) = 0
     else (\<forall>k < pos. compare key (xs ! k) > 0) \<and> (\<forall>k. pos \<le> k \<and> k < length xs \<longrightarrow> compare key (xs ! k) < 0))"
  using assms(2-)
proof (induction lim arbitrary: base cmp rule: less_induct)
  case (less lim)
  show ?case
  proof (cases "lim = 0")
    case True
    then show ?thesis using less.prems by (subst bsearch_loop.simps) auto
  next
    case False
    define part where "part = base + lim div 2"
    have part: "part < length xs" "base \<le> part" "part < base + lim"
      using False less.prems(1) by (auto simp: part_def)
    have mono: "compare key (xs ! j) \<ge> 0 \<Longrightarrow> i < j \<Longrightarrow> j < length xs \<Longrightarrow>
        compare key (xs ! i) > 0 \<or> compare key (xs ! i) = 0 \<and> compare key (xs ! j) = 0" for i j
      using assms(1) unfolding key_sorted_def by (auto dest: sorted_wrt_nth_less)
    let ?c = "compare key (xs ! part)"
    consider (eq) "?c = 0" | (gt) "?c > 0" | (lt) "?c < 0" by linarith
    then show ?thesis
    proof cases
      case eq
      then show ?thesis
        using False part by (subst bsearch_loop.simps) (auto simp: part_def [symmetric] Let_def)
    next
      case gt
      have len: "(part + 1) + (lim - 1) div 2 = base + lim"
        using False unfolding part_def by presburger
      have "\<forall>k < part + 1. compare key (xs ! k) > 0"
        using gt mono [of part] part by (metis Suc_eq_plus1 less_antisym less_imp_le less_irrefl)
      then show ?thesis
        using less.IH [of "(lim - 1) div 2" "part + 1" ?c] less.prems len gt False part
        by (subst bsearch_loop.simps) (auto simp: part_def [symmetric] Let_def)
    next
      case lt
      have "\<forall>k. base + lim div 2 \<le> k \<and> k < length xs \<longrightarrow> compare key (xs ! k) < 0"
      proof (intro allI impI)
        fix k assume "base + lim div 2 \<le> k \<and> k < length xs"
        then show "compare key (xs ! k) < 0"
          using lt mono [of k part] by (cases "k = part") (auto simp: part_def [symmetric] not_less [symmetric])
      qed
      then show ?thesis
        using less.IH [of "lim div 2" base ?c] less.prems lt False part
        by (subst bsearch_loop.simps) (auto simp: part_def [symmetric] Let_def)
    qed
  qed
qed

lemma git__bsearch_spec:
  assumes "key_sorted compare key xs" and "n = length xs"
  shows "\<exists>r pos. git__bsearch xs n key compare = Some (r, pos) \<and> pos \<le> n \<and>
    (r = 0 \<and> pos < n \<and> compare key (xs ! pos) = 0 \<or>
     r = GIT_ENOTFOUND \<and> (\<forall>k < pos. compare key (xs ! k) > 0) \<and> (\<forall>k. pos \<le> k \<and> k < n \<longrightarrow> compare key (xs ! k) < 0))"
  using bsearch_loop_spec [OF assms(1), of 0 n "-1"] assms(2) by (auto simp: git__bsearch_def split: if_splits)

section \<open>Merging two sorted lists\<close>

fun mrg :: "('a \<Rightarrow> 'a \<Rightarrow> int) \<Rightarrow> 'a list \<Rightarrow> 'a list \<Rightarrow> 'a list" where
  "mrg cmp (x # xs) (y # ys) = (if cmp x y \<le> 0 then x # mrg cmp xs (y # ys) else y # mrg cmp (x # xs) ys)"
| "mrg cmp [] ys = ys"
| "mrg cmp xs [] = xs"

text \<open>The merge from the right end, on the reversed lists.\<close>

fun rmrg :: "('a \<Rightarrow> 'a \<Rightarrow> int) \<Rightarrow> 'a list \<Rightarrow> 'a list \<Rightarrow> 'a list" where
  "rmrg cmp (x # xs) (y # ys) = (if cmp x y > 0 then x # rmrg cmp xs (y # ys) else y # rmrg cmp (x # xs) ys)"
| "rmrg cmp [] ys = ys"
| "rmrg cmp xs [] = xs"

lemma mset_mrg [simp]: "mset (mrg cmp xs ys) = mset xs + mset ys"
  by (induction cmp xs ys rule: mrg.induct) auto

lemma set_mrg [simp]: "set (mrg cmp xs ys) = set xs \<union> set ys"
  by (induction cmp xs ys rule: mrg.induct) auto

lemma mset_rmrg [simp]: "mset (rmrg cmp xs ys) = mset xs + mset ys"
  by (induction cmp xs ys rule: rmrg.induct) auto

lemma set_rmrg [simp]: "set (rmrg cmp xs ys) = set xs \<union> set ys"
  by (induction cmp xs ys rule: rmrg.induct) auto

lemma sorted_mrg:
  "total_cmp cmp \<Longrightarrow> sorted_by cmp xs \<Longrightarrow> sorted_by cmp ys \<Longrightarrow> sorted_by cmp (mrg cmp xs ys)"
proof (induction cmp xs ys rule: mrg.induct)
  case (1 cmp x xs y ys)
  note assms = "1.prems"(1)
  show ?case
  proof (cases "cmp x y \<le> 0")
    case True
    then have "\<forall>z \<in> set (mrg cmp xs (y # ys)). cmp x z \<le> 0"
      using "1.prems"(2,3) total_cmp_trans [OF assms, of x y] by auto
    then show ?thesis using 1 True by simp
  next
    case False
    then have yx: "cmp y x \<le> 0"
      using total_cmp_le [OF assms, of y x] by simp
    then have "\<forall>z \<in> set (mrg cmp (x # xs) ys). cmp y z \<le> 0"
      using "1.prems"(2,3) total_cmp_trans [OF assms, of y x] by auto
    then show ?thesis using 1 False by simp
  qed
qed auto

lemma sorted_rmrg:
  "total_cmp cmp \<Longrightarrow> sorted_wrt (\<lambda>x y. cmp y x \<le> 0) xs \<Longrightarrow> sorted_wrt (\<lambda>x y. cmp y x \<le> 0) ys \<Longrightarrow>
    sorted_wrt (\<lambda>x y. cmp y x \<le> 0) (rmrg cmp xs ys)"
proof (induction cmp xs ys rule: rmrg.induct)
  case (1 cmp x xs y ys)
  note assms = "1.prems"(1)
  show ?case
  proof (cases "cmp x y > 0")
    case True
    then have yx: "cmp y x \<le> 0"
      using total_cmp_le [OF assms, of y x] by simp
    then have "\<forall>z \<in> set (rmrg cmp xs (y # ys)). cmp z x \<le> 0"
      using "1.prems"(2,3) total_cmp_trans [OF assms, of _ y x] by auto
    then show ?thesis using 1 True by simp
  next
    case False
    then have "\<forall>z \<in> set (rmrg cmp (x # xs) ys). cmp z y \<le> 0"
      using "1.prems"(2,3) total_cmp_trans [OF assms, of _ x y] by auto
    then show ?thesis using 1 False by simp
  qed
qed auto

lemma filter_equal_none:
  assumes "total_cmp cmp" and "\<forall>w \<in> set ws. cmp y w < 0 \<or> cmp y w > 0" and "cmp z y = 0"
  shows "filter (\<lambda>w. cmp z w = 0) ws = []"
proof -
  have "cmp z w \<noteq> 0" if "w \<in> set ws" for w
  proof
    assume "cmp z w = 0"
    then have "cmp y w \<le> 0" "cmp w y \<le> 0"
      using assms(3) total_cmp_flip(2) [OF assms(1), of z w] total_cmp_flip(2) [OF assms(1), of z y]
        total_cmp_trans [OF assms(1), of y z w] total_cmp_trans [OF assms(1), of w z y] by simp_all
    then have "cmp y w = 0"
      using total_cmp_le [OF assms(1), of w y] by simp
    then show False using assms(2) that by force
  qed
  then show ?thesis by simp
qed

text \<open>The left merge keeps equal elements in order when the left run is sorted, the right merge when the right run is.\<close>

lemma filter_mrg:
  "total_cmp cmp \<Longrightarrow> sorted_by cmp xs \<Longrightarrow>
    filter (\<lambda>w. cmp z w = 0) (mrg cmp xs ys) = filter (\<lambda>w. cmp z w = 0) xs @ filter (\<lambda>w. cmp z w = 0) ys"
proof (induction cmp xs ys rule: mrg.induct)
  case (1 cmp x xs y ys)
  note assms = "1.prems"(1)
  show ?case
  proof (cases "cmp x y \<le> 0")
    case False
    then have yx: "cmp y x < 0"
      using total_cmp_flip(1) [OF assms, of y x] by simp
    then have "\<forall>w \<in> set (x # xs). cmp y w < 0 \<or> cmp y w > 0"
      using "1.prems"(2) total_cmp_trans_less(1) [OF assms yx] by auto
    then have "cmp z y = 0 \<Longrightarrow> filter (\<lambda>w. cmp z w = 0) (x # xs) = []"
      by (rule filter_equal_none [OF assms])
    then show ?thesis using 1 False by (cases "cmp z y = 0") auto
  qed (use 1 in auto)
qed auto

lemma filter_rmrg:
  "total_cmp cmp \<Longrightarrow> sorted_wrt (\<lambda>x y. cmp y x \<le> 0) ys \<Longrightarrow>
    filter (\<lambda>w. cmp z w = 0) (rmrg cmp xs ys) = filter (\<lambda>w. cmp z w = 0) ys @ filter (\<lambda>w. cmp z w = 0) xs"
proof (induction cmp xs ys rule: rmrg.induct)
  case (1 cmp x xs y ys)
  note assms = "1.prems"(1)
  show ?case
  proof (cases "cmp x y > 0")
    case True
    then have yx: "cmp y x < 0"
      using total_cmp_flip(1) [OF assms, of y x] by simp
    have "cmp x w > 0" if "w \<in> set (y # ys)" for w
      using that "1.prems"(2) yx total_cmp_trans_less(2) [OF assms, of w y x] total_cmp_flip(1) [OF assms, of w x] by auto
    then have "cmp z x = 0 \<Longrightarrow> filter (\<lambda>w. cmp z w = 0) (y # ys) = []"
      using filter_equal_none [OF assms] by blast
    then show ?thesis using 1 True by (cases "cmp z x = 0") auto
  qed (use 1 in auto)
qed auto

section \<open>The in-place merges\<close>

lemma mrg_Nil2 [simp]: "mrg cmp xs [] = xs"
  by (cases xs) simp_all

lemma rmrg_Nil2 [simp]: "rmrg cmp xs [] = xs"
  by (cases xs) simp_all

lemma nth_at: "k = length P \<Longrightarrow> (P @ x # Q) ! k = x"
  by simp

lemma update_at: "k = length P \<Longrightarrow> (P @ x # Q)[k := y] = P @ y # Q"
  by simp

lemma merge_left_spec:
  assumes "dst = P @ J @ R @ S" and "k = length P" and "j = length P + length J" and "hi = j + length R"
    and "A \<le> length storage" and "i + length J = A"
  shows "merge_left cmp storage A hi k i j dst = P @ mrg cmp (drop i (take A storage)) R @ S"
  using assms
proof (induction "length J + length R" arbitrary: P J R k i j dst rule: less_induct)
  case less
  note prems = less.prems
  have L: "J \<noteq> [] \<Longrightarrow> drop i (take A storage) = storage ! i # drop (i + 1) (take A storage)"
    using prems(5,6) Cons_nth_drop_Suc [of i "take A storage"] by (cases J) auto
  have L0: "J = [] \<Longrightarrow> drop i (take A storage) = []"
    using prems(5,6) by simp
  show ?case
  proof (cases J)
    case J: Nil
    show ?thesis
    proof (cases R)
      case Nil
      then show ?thesis using J prems L0 by (subst merge_left.simps) simp
    next
      case (Cons y R')
      have "merge_left cmp storage A hi k i j dst = merge_left cmp storage A hi (k + 1) i (j + 1) ((P @ [y]) @ [] @ R' @ S)"
        using J Cons prems by (subst merge_left.simps) simp
      also have "\<dots> = (P @ [y]) @ mrg cmp (drop i (take A storage)) R' @ S"
        using J Cons prems by (intro less.hyps) auto
      finally show ?thesis using Cons J L0 by simp
    qed
  next
    case J: (Cons g J')
    let ?x = "storage ! i"
    have take_left: "merge_left cmp storage A hi (k + 1) (i + 1) j (dst[k := ?x]) =
        P @ ?x # mrg cmp (drop (i + 1) (take A storage)) R @ S"
    proof -
      have "merge_left cmp storage A hi (k + 1) (i + 1) j (dst[k := ?x]) =
          (P @ [?x]) @ mrg cmp (drop (i + 1) (take A storage)) R @ S"
        using J prems by (intro less.hyps [of J' R _ "P @ [?x]"]) auto
      then show ?thesis by simp
    qed
    show ?thesis
    proof (cases R)
      case Nil
      have "merge_left cmp storage A hi k i j dst = merge_left cmp storage A hi (k + 1) (i + 1) j (dst[k := ?x])"
        using J Nil prems by (subst merge_left.simps) simp
      then show ?thesis using take_left Nil J L by simp
    next
      case (Cons y R')
      have y: "dst ! j = y"
        using prems(1,3) Cons J by (simp add: nth_append)
      show ?thesis
      proof (cases "cmp ?x y \<le> 0")
        case True
        have "merge_left cmp storage A hi k i j dst = merge_left cmp storage A hi (k + 1) (i + 1) j (dst[k := ?x])"
          using J Cons prems y True by (subst merge_left.simps) simp
        then show ?thesis using take_left Cons J L True by simp
      next
        case False
        have "merge_left cmp storage A hi k i j dst = merge_left cmp storage A hi (k + 1) i (j + 1) (dst[k := y])"
          using J Cons prems y False by (subst merge_left.simps) simp
        also have "\<dots> = (P @ [y]) @ mrg cmp (drop i (take A storage)) R' @ S"
          using J Cons prems by (intro less.hyps [of "J' @ [y]" R']) auto
        finally show ?thesis using Cons J L False by simp
      qed
    qed
  qed
qed

lemma merge_right_spec:
  assumes "dst = S @ L @ J @ P" and "cur = length S" and "j = cur + length L" and "k = j + length J"
    and "i \<le> length storage" and "i = length J"
  shows "merge_right cmp storage cur k i j dst = S @ rev (rmrg cmp (rev L) (rev (take i storage))) @ P"
  using assms
proof (induction "length J + length L" arbitrary: P J L k i j dst rule: less_induct)
  case less
  note prems = less.prems
  show ?case
  proof (cases J rule: rev_cases)
    case J: Nil
    show ?thesis
    proof (cases L rule: rev_cases)
      case Nil
      then show ?thesis using J prems by (subst merge_right.simps) simp
    next
      case (snoc L' x)
      have x: "dst ! (j - 1) = x" "k > cur" "j > cur" "\<not> i > 0"
        using prems J snoc by (simp_all add: nth_append)
      moreover have "k - 1 = j - 1"
        using prems J by simp
      ultimately have x: "dst ! (j - 1) = x" "dst[k - 1 := x] = dst" "k > cur" "j > cur" "\<not> i > 0"
        using list_update_id [of dst "j - 1"] by simp_all
      have "merge_right cmp storage cur k i j dst = merge_right cmp storage cur (k - 1) i (j - 1) dst"
        using x by (subst merge_right.simps) simp
      also have "\<dots> = S @ rev (rmrg cmp (rev L') (rev (take i storage))) @ (x # P)"
        using J snoc prems by (intro less.hyps [of "[]" L']) auto
      finally show ?thesis using snoc J prems by (cases "rev L'") simp_all
    qed
  next
    case J: (snoc J' g)
    let ?y = "storage ! (i - 1)"
    have i: "i > 0" "k > cur" "i = Suc (i - 1)" "take i storage = take (i - 1) storage @ [?y]"
      using prems J by (auto simp: take_Suc_conv_app_nth [symmetric])
    have upd: "dst[k - 1 := z] = S @ L @ J' @ (z # P)" for z
      using prems J update_at [of "k - 1" "S @ L @ J'" g P z] by simp
    have take_right: "merge_right cmp storage cur (k - 1) (i - 1) j (dst[k - 1 := ?y]) =
        S @ rev (rmrg cmp (rev L) (rev (take (i - 1) storage))) @ (?y # P)"
      unfolding upd using J prems by (intro less.hyps [of J' L]) auto
    show ?thesis
    proof (cases L rule: rev_cases)
      case Nil
      have "merge_right cmp storage cur k i j dst = merge_right cmp storage cur (k - 1) (i - 1) j (dst[k - 1 := ?y])"
        using i Nil prems by (subst merge_right.simps) simp
      then show ?thesis using take_right i(4) Nil by simp
    next
      case (snoc L' x)
      have x: "dst ! (j - 1) = x" "j > cur"
        using prems snoc by (simp_all add: nth_append)
      show ?thesis
      proof (cases "cmp x ?y > 0")
        case True
        have "merge_right cmp storage cur k i j dst = merge_right cmp storage cur (k - 1) i (j - 1) (dst[k - 1 := x])"
          using i x True by (subst merge_right.simps) simp
        also have "\<dots> = S @ rev (rmrg cmp (rev L') (rev (take i storage))) @ (x # P)"
          using J snoc prems unfolding upd by (intro less.hyps [of "x # J'" L']) auto
        finally show ?thesis using snoc i(4) True by simp
      next
        case False
        have "merge_right cmp storage cur k i j dst = merge_right cmp storage cur (k - 1) (i - 1) j (dst[k - 1 := ?y])"
          using i x False by (subst merge_right.simps) simp
        then show ?thesis using take_right i(4) snoc False by simp
      qed
    qed
  qed
qed

section \<open>Insertion sort\<close>

lemma shift_right_eq:
  assumes "location \<le> i" and "i < length dst"
  shows "shift_right dst location i = take location dst @ dst ! location # drop location (take i dst) @ drop (i + 1) dst"
  using assms
proof (induction i arbitrary: dst)
  case 0
  then show ?case by (cases dst) auto
next
  case (Suc i)
  show ?case
  proof (cases "location \<le> i")
    case True
    have d: "drop location (take (Suc i) dst) = drop location (take i dst) @ [dst ! i]"
      using True Suc.prems by (simp add: take_Suc_conv_app_nth)
    show ?thesis
    proof (cases "location = i")
      case True
      then show ?thesis using Suc d by (simp add: upd_conv_take_nth_drop nth_append)
    next
      case False
      then show ?thesis using Suc True d by (simp add: upd_conv_take_nth_drop nth_append)
    qed
  next
    case False
    then have "location = Suc i" using Suc.prems by simp
    then show ?thesis using Suc.prems by (simp add: Cons_nth_drop_Suc)
  qed
qed

text \<open>Where \<open>x\<close> goes in the sorted prefix of \<open>n\<close> entries: after those not above it, before those above it.\<close>

definition upper_place :: "('a \<Rightarrow> 'a \<Rightarrow> int) \<Rightarrow> 'a list \<Rightarrow> 'a \<Rightarrow> nat \<Rightarrow> nat \<Rightarrow> bool" where
  "upper_place cmp dst x n loc \<longleftrightarrow> loc < n \<and> (\<forall>k < loc. cmp x (dst ! k) \<ge> 0) \<and> (\<forall>k. loc \<le> k \<and> k < n \<longrightarrow> cmp x (dst ! k) < 0)"

lemma sorted_prefix_nth:
  "sorted_by cmp (take n dst) \<Longrightarrow> i < j \<Longrightarrow> j < n \<Longrightarrow> n \<le> length dst \<Longrightarrow> cmp (dst ! i) (dst ! j) \<le> 0"
  using sorted_wrt_nth_less [of "\<lambda>x y. cmp x y \<le> 0" "take n dst" i j] by simp

lemma skip_equal_spec:
  assumes cm: "total_cmp cmp" and srt: "sorted_by cmp (take n dst)" and n: "n \<le> length dst"
    and "0 < i" and "i < n" and "\<forall>k < i. cmp x (dst ! k) \<ge> 0" and "cmp x (dst ! (i - 1)) = 0"
    and last: "cmp x (dst ! (n - 1)) < 0"
  shows "\<exists>loc. skip_equal cmp dst x i = Some loc \<and> upper_place cmp dst x n loc"
  using assms(4-7)
proof (induction "n - i" arbitrary: i rule: less_induct)
  case less
  show ?case
  proof (cases "cmp x (dst ! i) = 0")
    case True
    then have "i \<noteq> n - 1" using last by auto
    then have i: "i + 1 < n" using less.prems by simp
    have "\<forall>k < i + 1. cmp x (dst ! k) \<ge> 0"
      using less.prems True by (auto simp: less_Suc_eq)
    then show ?thesis
      using less.hyps [of "i + 1"] less.prems True i n by (subst skip_equal.simps) auto
  next
    case False
    have "cmp x (dst ! (i - 1)) \<le> 0" using less.prems(4) by simp
    moreover have "cmp (dst ! (i - 1)) (dst ! i) \<le> 0"
      using sorted_prefix_nth [OF srt, of "i - 1" i] less.prems n by simp
    ultimately have "cmp x (dst ! i) \<le> 0"
      by (rule total_cmp_trans [OF cm])
    then have lt: "cmp x (dst ! i) < 0" using False by simp
    have "cmp x (dst ! k) < 0" if "i \<le> k" "k < n" for k
      using lt total_cmp_trans_less(1) [OF cm lt] sorted_prefix_nth [OF srt, of i k] that n by (cases "k = i") auto
    then show ?thesis
      using False less.prems n by (subst skip_equal.simps) (auto simp: upper_place_def)
  qed
qed

lemma binsearch_loop_spec:
  assumes cm: "total_cmp cmp" and srt: "sorted_by cmp (take n dst)" and n: "n \<le> length dst"
    and "l < r" and "r < n" and "cmp x (dst ! l) > 0" and "cmp x (dst ! r) < 0"
  shows "\<exists>loc. binsearch_loop cmp dst x l r = Some loc \<and> upper_place cmp dst x n loc"
  using assms(4-)
proof (induction "r - l" arbitrary: l r rule: less_induct)
  case less
  define c where "c = l + (r - l) div 2"
  have c: "l \<le> c" "c < r" "c < n" using less.prems by (auto simp: c_def)
  have below: "\<forall>k \<le> i. cmp x (dst ! k) \<ge> 0" if "cmp x (dst ! i) \<ge> 0" "i < n" for i
  proof (intro allI impI)
    fix k assume "k \<le> i"
    have "cmp (dst ! i) x \<le> 0" using that total_cmp_le [OF cm] by simp
    then have "cmp (dst ! k) x \<le> 0"
      using sorted_prefix_nth [OF srt, of k i] \<open>k \<le> i\<close> that n total_cmp_trans [OF cm, of "dst ! k" "dst ! i" x]
      by (cases "k = i") auto
    then show "cmp x (dst ! k) \<ge> 0" using total_cmp_le [OF cm] by simp
  qed
  have above: "cmp x (dst ! k) < 0" if "cmp x (dst ! i) < 0" "i \<le> k" "k < n" for i k
    using that total_cmp_trans_less(1) [OF cm that(1)] sorted_prefix_nth [OF srt, of i k] n by (cases "k = i") auto
  have len: "\<not> length dst \<le> c" using c n by simp
  note unfold = binsearch_loop.simps [of cmp dst x l r, unfolded c_def [symmetric] Let_def]
  consider (lt) "cmp x (dst ! c) < 0" | (gt) "cmp x (dst ! c) > 0" | (eq) "cmp x (dst ! c) = 0" by linarith
  then show ?case
  proof cases
    case lt
    then have "l \<noteq> c" using less.prems by auto
    show ?thesis
    proof (cases "c - l \<le> 1")
      case True
      then have "\<forall>k < c. cmp x (dst ! k) \<ge> 0"
        using below [of l] less.prems c \<open>l \<noteq> c\<close> by auto
      then show ?thesis
        using unfold True lt len c above by (auto simp: upper_place_def)
    next
      case False
      then show ?thesis
        using unfold lt len c less.hyps [of c l] less.prems by auto
    qed
  next
    case gt
    show ?thesis
    proof (cases "r - c \<le> 1")
      case True
      then have "r = c + 1" using c by simp
      then show ?thesis
        using unfold True gt len c above [OF less.prems(4)] below [of c] less.prems
        by (auto simp: upper_place_def less_Suc_eq_le)
    next
      case False
      then have "l < c" unfolding c_def by auto
      then show ?thesis
        using False unfold gt len c less.hyps [of r c] less.prems by auto
    qed
  next
    case eq
    have "\<exists>loc. skip_equal cmp dst x (c + 1) = Some loc \<and> upper_place cmp dst x n loc"
      using eq below [of c] above [OF less.prems(4), of "n - 1"] c less.prems
      by (intro skip_equal_spec [OF cm srt n]) (auto simp: less_Suc_eq_le)
    then show ?thesis using unfold eq len by simp
  qed
qed

lemma binsearch_spec:
  assumes cm: "total_cmp cmp" and srt: "sorted_by cmp (take n dst)" and n: "n \<le> length dst" "0 < n"
    and last: "cmp x (dst ! (n - 1)) < 0"
  shows "\<exists>loc. binsearch cmp dst x n = Some loc \<and> upper_place cmp dst x n loc"
proof -
  consider (lt) "cmp x (dst ! 0) < 0" | (eq) "cmp x (dst ! 0) = 0" | (gt) "cmp x (dst ! 0) > 0" by linarith
  then show ?thesis
  proof cases
    case lt
    have "cmp x (dst ! k) < 0" if "k < n" for k
      using lt total_cmp_trans_less(1) [OF cm lt] sorted_prefix_nth [OF srt, of 0 k] that n by (cases "k = 0") auto
    then show ?thesis using lt n by (auto simp: binsearch_def upper_place_def)
  next
    case eq
    then have "1 < n" using last n by (cases "n = 1") auto
    then have "\<exists>loc. skip_equal cmp dst x 1 = Some loc \<and> upper_place cmp dst x n loc"
      using eq last by (intro skip_equal_spec [OF cm srt n(1)]) auto
    then show ?thesis using eq n by (simp add: binsearch_def)
  next
    case gt
    then have "0 < n - 1" using last n by (cases "n = 1") auto
    then have "\<exists>loc. binsearch_loop cmp dst x 0 (n - 1) = Some loc \<and> upper_place cmp dst x n loc"
      using gt last n by (intro binsearch_loop_spec [OF cm srt n(1)]) auto
    then show ?thesis using gt n by (simp add: binsearch_def)
  qed
qed

lemma upper_place_elems:
  assumes "upper_place cmp dst x n loc" and "n \<le> length dst"
  shows "\<forall>y \<in> set (take loc dst). cmp x y \<ge> 0" and "\<forall>y \<in> set (drop loc (take n dst)). cmp x y < 0"
proof -
  show "\<forall>y \<in> set (take loc dst). cmp x y \<ge> 0"
    using assms by (auto simp: upper_place_def in_set_conv_nth)
  show "\<forall>y \<in> set (drop loc (take n dst)). cmp x y < 0"
    using assms by (auto simp: upper_place_def in_set_conv_nth)
qed

lemma stable_eq_rotate:
  assumes "total_cmp cmp" and "\<forall>y \<in> set M. cmp x y < 0"
  shows "stable_eq cmp (M @ [x]) (x # M)"
proof -
  have "cmp z x = 0 \<Longrightarrow> filter (\<lambda>w. cmp z w = 0) M = []" for z
    using filter_equal_none [OF assms(1), of M x z] assms(2) by blast
  then show ?thesis by (auto simp: stable_eq_def)
qed

lemma insert_step:
  assumes cm: "total_cmp cmp" and srt: "sorted_by cmp (take i dst)" and i: "i < length dst"
    and loc: "upper_place cmp dst (dst ! i) i loc"
  defines "d \<equiv> (shift_right dst loc i)[loc := dst ! i]"
  shows "sorted_by cmp (take (i + 1) d)" and "drop (i + 1) d = drop (i + 1) dst" and "stable_eq cmp dst d"
    and "length d = length dst"
proof -
  let ?x = "dst ! i" and ?M = "drop loc (take i dst)"
  have li: "loc < i" using loc by (simp add: upper_place_def)
  have d: "d = take loc dst @ ?x # ?M @ drop (i + 1) dst"
    using li i by (simp add: d_def shift_right_eq upd_conv_take_nth_drop)
  have lenM: "length ?M = i - loc" using i by simp
  have dst: "dst = take loc dst @ ?M @ ?x # drop (i + 1) dst"
  proof -
    have "take loc dst @ ?M = take i dst"
      using li by (metis append_take_drop_id less_imp_le min.absorb1 take_take)
    then show ?thesis
      using id_take_nth_drop [OF i] by (metis Suc_eq_plus1 append.assoc)
  qed
  note el = upper_place_elems [OF loc less_imp_le [OF i]]
  have tk: "take (i + 1) d = take loc dst @ ?x # ?M"
    unfolding d using li i lenM by (simp add: Suc_diff_le)
  have "sorted_by cmp (take loc dst @ ?M)"
    using srt li by (metis append_take_drop_id less_imp_le min.absorb1 take_take)
  moreover have "\<forall>y \<in> set (take loc dst). cmp y ?x \<le> 0"
    using el(1) total_cmp_le [OF cm] by simp
  ultimately show "sorted_by cmp (take (i + 1) d)"
    unfolding tk using el(2) by (auto simp: sorted_wrt_append intro: less_imp_le)
  show "drop (i + 1) d = drop (i + 1) dst"
    unfolding d using li i lenM by (simp add: Suc_diff_le)
  have "stable_eq cmp (take loc dst @ (?M @ [?x]) @ drop (i + 1) dst) (take loc dst @ (?x # ?M) @ drop (i + 1) dst)"
    by (intro stable_eq_append stable_eq_refl stable_eq_rotate [OF cm el(2)])
  then show "stable_eq cmp dst d"
    using dst d by simp
  show "length d = length dst" by (simp add: d_def)
qed

lemma bisort_spec:
  assumes cm: "total_cmp cmp" and "0 < i" and "i \<le> n" and "n \<le> length dst" and "sorted_by cmp (take i dst)"
  shows "\<exists>d. bisort cmp dst i n = Some d \<and> sorted_by cmp (take n d) \<and> drop n d = drop n dst \<and> stable_eq cmp dst d"
  using assms(2-)
proof (induction "n - i" arbitrary: i dst rule: less_induct)
  case less
  show ?case
  proof (cases "i < n")
    case False
    then show ?thesis using less.prems by (subst bisort.simps) auto
  next
    case lt: True
    then have i: "i < length dst" using less.prems by simp
    have drops: "drop n d = drop n dst" if "drop (i + 1) d = drop (i + 1) dst" for d
    proof -
      have "n = (n - (i + 1)) + (i + 1)" using lt by simp
      then show ?thesis using that by (metis drop_drop)
    qed
    show ?thesis
    proof (cases "cmp (dst ! (i - 1)) (dst ! i) \<le> 0")
      case True
      have "cmp y (dst ! i) \<le> 0" if "y \<in> set (take i dst)" for y
      proof -
        obtain k where k: "k < i" "y = dst ! k" using \<open>y \<in> set (take i dst)\<close> i by (auto simp: in_set_conv_nth)
        then show ?thesis
          using sorted_prefix_nth [OF less.prems(4), of k "i - 1"] True total_cmp_trans [OF cm _ True] less.prems i
          by (cases "k = i - 1") auto
      qed
      then have "sorted_by cmp (take (i + 1) dst)"
        using less.prems(4) i by (simp add: take_Suc_conv_app_nth sorted_wrt_append)
      then show ?thesis
        using less.hyps [of "i + 1" dst] less.prems lt i True by (subst bisort.simps) auto
    next
      case False
      then have "cmp (dst ! i) (dst ! (i - 1)) < 0" using total_cmp_flip(1) [OF cm, of "dst ! i" "dst ! (i - 1)"] by simp
      then obtain loc where loc: "binsearch cmp dst (dst ! i) i = Some loc" "upper_place cmp dst (dst ! i) i loc"
        using binsearch_spec [OF cm less.prems(4)] less.prems i by fastforce
      define d where "d = (shift_right dst loc i)[loc := dst ! i]"
      note step = insert_step [OF cm less.prems(4) i loc(2), folded d_def]
      have "bisort cmp dst i n = bisort cmp d (i + 1) n"
        using lt i loc(1) False less.prems by (subst bisort.simps) (simp add: d_def)
      moreover obtain d' where "bisort cmp d (i + 1) n = Some d'" "sorted_by cmp (take n d')" "drop n d' = drop n d"
          "stable_eq cmp d d'"
        using less.hyps [of "i + 1" d] diff_less_mono2 [of i "i + 1" n] step lt less.prems by auto
      ultimately show ?thesis
        using step(3) drops [OF step(2)] by (auto intro: stable_eq_trans)
    qed
  qed
qed

section \<open>Runs\<close>

lemma reverse_elements_mid:
  "reverse_elements (P @ M @ S) (length P) (length P + length M - 1) = P @ rev M @ S"
proof (induction "length M" arbitrary: P M S rule: less_induct)
  case less
  show ?case
  proof (cases "length M < 2")
    case True
    then have "M = [] \<or> (\<exists>a. M = [a])" by (cases M) (auto simp: length_Suc_conv)
    then show ?thesis by (subst reverse_elements.simps) auto
  next
    case False
    then obtain a M' b where M: "M = a # M' @ [b]"
      by (cases M; cases "tl M" rule: rev_cases) auto
    have upd: "(P @ M @ S)[length P := b, length P + length M - 1 := a] = (P @ [b]) @ M' @ (a # S)"
      by (simp add: M list_update_append)
    have nth: "(P @ M @ S) ! (length P + length M - 1) = b" "(P @ M @ S) ! length P = a"
      by (simp_all add: M nth_append)
    have "reverse_elements (P @ M @ S) (length P) (length P + length M - 1) =
        reverse_elements ((P @ [b]) @ M' @ (a # S)) (length P + 1) (length P + length M - 1 - 1)"
      using nth upd by (subst reverse_elements.simps) (simp add: M)
    also have "\<dots> = reverse_elements ((P @ [b]) @ M' @ (a # S)) (length (P @ [b])) (length (P @ [b]) + length M' - 1)"
      by (simp add: M)
    also have "\<dots> = (P @ [b]) @ rev M' @ (a # S)"
      by (rule less) (simp add: M)
    finally show ?thesis by (simp add: M)
  qed
qed

lemma extend_run_all:
  "k < extend_run p dst cur n \<Longrightarrow> cur \<le> k \<Longrightarrow> p (dst ! (k - 1)) (dst ! k)"
proof (induction p dst cur n rule: extend_run.induct)
  case (1 p dst cur n)
  show ?case
  proof (cases "cur < n - 1 \<and> p (dst ! (cur - 1)) (dst ! cur)")
    case True
    then have "extend_run p dst cur n = extend_run p dst (cur + 1) n" by (subst extend_run.simps) simp
    then show ?thesis using 1 True by (cases "k = cur") auto
  next
    case False
    then have "extend_run p dst cur n = cur" by (subst extend_run.simps) auto
    then show ?thesis using "1.prems" by simp
  qed
qed

lemma segment_sorted:
  assumes tr: "transp P" and "e \<le> length dst" and "\<forall>k. start < k \<and> k < e \<longrightarrow> P (dst ! (k - 1)) (dst ! k)"
  shows "sorted_wrt P (take (e - start) (drop start dst))"
proof (subst sorted_wrt_iff_nth_Suc_transp [OF tr], intro allI impI)
  fix i assume "Suc i < length (take (e - start) (drop start dst))"
  then show "P (take (e - start) (drop start dst) ! i) (take (e - start) (drop start dst) ! Suc i)"
    using assms(2,3) by (auto dest: spec [of _ "Suc (start + i)"])
qed

lemma stable_eq_rev_desc:
  assumes cm: "total_cmp cmp" and "sorted_wrt (\<lambda>x y. cmp x y > 0) M"
  shows "stable_eq cmp M (rev M)"
proof -
  have "filter (\<lambda>w. cmp z w = 0) M = rev (filter (\<lambda>w. cmp z w = 0) M)" for z
    using assms(2)
  proof (induction M)
    case (Cons x M)
    have "cmp z x = 0 \<Longrightarrow> filter (\<lambda>w. cmp z w = 0) M = []"
      using filter_equal_none [OF cm, of M x z] Cons.prems by auto
    then show ?case using Cons by auto
  qed simp
  then show ?thesis by (simp add: stable_eq_def rev_filter)
qed

lemma sorted_rev_desc:
  assumes cm: "total_cmp cmp" and "sorted_wrt (\<lambda>x y. cmp x y > 0) M"
  shows "sorted_by cmp (rev M)"
proof -
  have "sorted_wrt (\<lambda>x y. cmp y x \<le> 0) M"
    using assms(2) by (rule sorted_wrt_mono_rel [rotated]) (use total_cmp_flip(1) [OF cm] in \<open>auto intro: less_imp_le\<close>)
  then show ?thesis by (simp add: sorted_wrt_rev)
qed

text \<open>Only the segment of the run changes, into a sorted one with the same elements.\<close>

definition seg_sorted :: "('a \<Rightarrow> 'a \<Rightarrow> int) \<Rightarrow> 'a list \<Rightarrow> nat \<Rightarrow> nat \<Rightarrow> 'a list \<Rightarrow> bool" where
  "seg_sorted cmp dst start len d \<longleftrightarrow>
     length d = length dst \<and> take start d = take start dst \<and> drop (start + len) d = drop (start + len) dst \<and>
     sorted_by cmp (take len (drop start d)) \<and> stable_eq cmp (drop start dst) (drop start d)"

lemma seg_sortedI:
  assumes "dst = P @ M @ S" and "d = P @ M' @ S" and "length P = start" and "length M = len" and "length M' = len"
    and "sorted_by cmp M'" and "stable_eq cmp M M'"
  shows "seg_sorted cmp dst start len d"
  using assms by (auto simp: seg_sorted_def intro: stable_eq_append)

lemma count_run_spec:
  assumes cm: "total_cmp cmp" and start: "start < length dst"
    and run: "count_run cmp dst start (length dst) = (d, len)"
  shows "seg_sorted cmp dst start len d \<and> 0 < len \<and> start + len \<le> length dst"
proof -
  let ?n = "length dst"
  have split: "dst = take start dst @ take (e - start) (drop start dst) @ drop e dst" if "start \<le> e" for e
    using that by (metis append_take_drop_id drop_drop le_add_diff_inverse2)
  consider (one) "?n - start = 1" | (two) "?n = start + 2" | (more) "start + 2 < ?n" using start by linarith
  then show ?thesis
  proof cases
    case one
    then obtain x where x: "drop start dst = [x]"
    proof -
      have "length (drop start dst) = Suc 0" using one by simp
      then show ?thesis using that unfolding length_Suc_conv by auto
    qed
    have "seg_sorted cmp dst start 1 dst"
      using x split [of "?n"] start one by (intro seg_sortedI [of _ "take start dst" "[x]" "[]" _ "[x]"]) auto
    then show ?thesis using run one start by (auto simp: count_run_def)
  next
    case two
    then obtain x y where xy: "drop start dst = [x, y]"
    proof -
      have "length (drop start dst) = Suc (Suc 0)" using two by simp
      then show ?thesis using that unfolding length_Suc_conv by auto
    qed
    have dst: "dst = take start dst @ [x, y]"
      using xy by (metis append_take_drop_id)
    have ls: "length (take start dst) = start" using start by simp
    obtain P where P: "dst = P @ [x, y]" "length P = start" "P = take start dst"
      using dst ls by blast
    have nth: "dst ! (?n - 2) = x" "dst ! (?n - 1) = y"
      by (simp_all add: P(1) nth_append)
    have upd: "dst[?n - 1 := x, ?n - 2 := y] = take start dst @ [y, x]"
      unfolding P(3) [symmetric] by (simp add: P(1) list_update_append)
    have d: "d = (if cmp x y > 0 then take start dst @ [y, x] else dst)" "len = 2"
      using run two nth upd by (auto simp: count_run_def)
    show ?thesis
    proof (cases "cmp x y > 0")
      case True
      then have "cmp y x < 0" using total_cmp_flip(1) [OF cm] by blast
      then have "seg_sorted cmp dst start 2 d"
        using dst d True ls stable_eq_rotate [OF cm, of "[x]" y]
        by (intro seg_sortedI [of _ "take start dst" "[x, y]" "[]" _ "[y, x]"]) auto
      then show ?thesis using d two by simp
    next
      case False
      then have "seg_sorted cmp dst start 2 d"
        using dst d ls by (intro seg_sortedI [of _ "take start dst" "[x, y]" "[]" _ "[x, y]"]) auto
      then show ?thesis using d two by simp
    qed
  next
    case more
    then have c: "(?n - start = 1) = False" "(?n \<le> start + 2) = False"
      by auto
    show ?thesis
    proof (cases "cmp (dst ! start) (dst ! (start + 1)) \<le> 0")
      case True
      define e where "e = extend_run (\<lambda>x y. cmp x y \<le> 0) dst (start + 2) ?n"
      have e: "start + 2 \<le> e" "e \<le> ?n"
        using extend_run_ge [of "start + 2"] extend_run_le [of "\<lambda>x y. cmp x y \<le> 0" dst "start + 2" ?n] more
        by (auto simp: e_def max_def split: if_splits)
      have d: "d = dst" "len = e - start"
        using run by (auto simp only: count_run_def c if_False True if_True prod.inject e_def)
      have "\<forall>k. start < k \<and> k < e \<longrightarrow> cmp (dst ! (k - 1)) (dst ! k) \<le> 0"
        using True extend_run_all [of _ "\<lambda>x y. cmp x y \<le> 0" dst "start + 2" ?n] unfolding e_def
        by (metis Suc_eq_plus1 Suc_leI add_2_eq_Suc' add_diff_cancel_right' le_neq_implies_less)
      then have "sorted_by cmp (take (e - start) (drop start dst))"
        using e by (intro segment_sorted transp_le [OF cm]) auto
      then have "seg_sorted cmp dst start len d"
        using split [of e] e d start by (intro seg_sortedI [OF split [of e] _ _ _ _ _ stable_eq_refl]) auto
      then show ?thesis using d e by auto
    next
      case False
      define e where "e = extend_run (\<lambda>x y. cmp x y > 0) dst (start + 2) ?n"
      let ?M = "take (e - start) (drop start dst)"
      have e: "start + 2 \<le> e" "e \<le> ?n"
        using extend_run_ge [of "start + 2"] extend_run_le [of "\<lambda>x y. cmp x y > 0" dst "start + 2" ?n] more
        by (auto simp: e_def max_def split: if_splits)
      have "\<forall>k. start < k \<and> k < e \<longrightarrow> cmp (dst ! (k - 1)) (dst ! k) > 0"
        using False extend_run_all [of _ "\<lambda>x y. cmp x y > 0" dst "start + 2" ?n] unfolding e_def
        by (metis Suc_eq_plus1 Suc_leI add_2_eq_Suc' add_diff_cancel_right' le_neq_implies_less not_less)
      then have desc: "sorted_wrt (\<lambda>x y. cmp x y > 0) ?M"
        using e by (intro segment_sorted transp_greater [OF cm]) auto
      have "reverse_elements dst start (e - 1) = take start dst @ rev ?M @ drop e dst"
        using reverse_elements_mid [of "take start dst" ?M "drop e dst"] split [of e] e start by simp
      then have "d = take start dst @ rev ?M @ drop e dst" "len = e - start"
        using run by (auto simp only: count_run_def c if_False False prod.inject e_def [symmetric] Let_def)
      then show ?thesis
        using e start sorted_rev_desc [OF cm desc] stable_eq_rev_desc [OF cm desc]
        by (auto intro!: seg_sortedI [OF split [of e]])
    qed
  qed
qed

section \<open>The sort\<close>

definition run_seg :: "'a list \<Rightarrow> tsort_run \<Rightarrow> 'a list" where
  "run_seg dst r = take (run_length r) (drop (run_start r) dst)"

definition store_ok :: "'a tsort_store \<Rightarrow> bool" where
  "store_ok store \<longleftrightarrow> ts_alloc store \<le> length (ts_storage store)"

text \<open>\<open>d\<close> is \<open>dst\<close> with the elements from \<open>s\<close> to \<open>e\<close> permuted.\<close>

definition seg_perm :: "'a list \<Rightarrow> nat \<Rightarrow> nat \<Rightarrow> 'a list \<Rightarrow> bool" where
  "seg_perm dst s e d \<longleftrightarrow> mset d = mset dst \<and> take s d = take s dst \<and> drop e d = drop e dst"

lemma seg_perm_run:
  assumes "seg_perm dst s e d" and "run_start r + run_length r \<le> s \<or> e \<le> run_start r"
  shows "run_seg d r = run_seg dst r"
  using assms(2)
proof
  assume le: "run_start r + run_length r \<le> s"
  have "run_seg d r = take (run_length r) (drop (run_start r) (take s d))" for d
    using le by (simp add: run_seg_def drop_take min_def)
  then show ?thesis using assms(1) by (metis seg_perm_def)
next
  assume "e \<le> run_start r"
  then have "run_seg d r = take (run_length r) (drop (run_start r - e) (drop e d))" for d
    by (simp add: run_seg_def)
  then show ?thesis using assms(1) by (metis seg_perm_def)
qed

lemma tsort_resize_ok:
  assumes "good_alloc al" and "store_ok store" and "tsort_resize al store n = Some store1"
  shows "store_ok store1 \<and> n \<le> ts_alloc store1"
  using assms git__reallocarray_cases(1) [OF assms(1)]
  by (fastforce simp: tsort_resize_def store_ok_def split: if_splits)

lemma tsort_merge_spec:
  assumes al: "good_alloc al" and st: "store_ok store"
    and dst: "dst = P @ L @ R @ S" and len: "run_start ra = length P" "run_length ra = length L" "run_length rb = length R"
  shows "\<exists>d store1. tsort_merge al cmp ra rb (dst, store) = Some (d, store1) \<and> store_ok store1 \<and>
    seg_perm dst (length P) (length P + length L + length R) d \<and>
    (total_alloc al \<and> length dst < 2 ^ 61 \<and> total_cmp cmp \<and> sorted_by cmp L \<and> sorted_by cmp R \<longrightarrow>
       sorted_by cmp (run_seg d (run_join ra rb)) \<and> stable_eq cmp dst d)"
proof -
  have inside: "\<not> length dst < length P + length L + length R"
    by (simp add: dst)
  have segs: "take (length L) (drop (length P) dst) = L" "take (length R) (drop (length P + length L) dst) = R"
    by (simp_all add: dst)
  note unfold = tsort_merge_def Let_def len prod.case inside if_False segs
  have seg: "run_seg (P @ M @ S) (run_join ra rb) = M" if "length M = length L + length R" for M
    using that len by (simp add: run_seg_def run_join_def)
  show ?thesis
  proof (cases "tsort_resize al store (min (length L) (length R))")
    case None
    have "\<not> (total_alloc al \<and> length dst < 2 ^ 61)"
    proof
      assume a: "total_alloc al \<and> length dst < 2 ^ 61"
      then have "min (length L) (length R) < 2 ^ 61" by (auto simp: dst min_less_iff_disj)
      then show False
        using None git__reallocarray_total [of al "min (length L) (length R)" "ts_storage store"] a
        by (auto simp: tsort_resize_def split: if_splits)
    qed
    then show ?thesis
      using None st by (auto simp: unfold seg_perm_def)
  next
    case (Some store1)
    note ok = tsort_resize_ok [OF al st Some]
    show ?thesis
    proof (cases "length L < length R")
      case True
      let ?st = "L @ drop (length L) (ts_storage store1)"
      have t: "length L \<le> length ?st" by simp
      let ?d = "P @ mrg cmp L R @ S"
      have "merge_left cmp ?st (length L) (length P + length L + length R) (length P) 0 (length P + length L) dst = ?d"
        using merge_left_spec [OF dst refl refl refl t, of 0 cmp] by simp
      then have "tsort_merge al cmp ra rb (dst, store) = Some (?d, store1\<lparr>ts_storage := ?st\<rparr>)"
        using True Some by (simp add: unfold)
      moreover have "store_ok (store1\<lparr>ts_storage := ?st\<rparr>)"
        using ok True by (auto simp: store_ok_def dst)
      moreover have lm: "length (mrg cmp L R) = length L + length R"
        using mset_mrg [of cmp L R] by (metis size_mset size_union)
      moreover have "seg_perm dst (length P) (length P + length L + length R) ?d"
        using lm by (simp add: seg_perm_def dst)
      moreover have "stable_eq cmp dst ?d" if "total_cmp cmp" "sorted_by cmp L"
        using filter_mrg [OF that] by (simp add: stable_eq_def dst)
      ultimately show ?thesis
        using seg [OF lm] sorted_mrg [of cmp L R] by auto
    next
      case False
      let ?st = "R @ drop (length R) (ts_storage store1)"
      have t: "length R \<le> length ?st" by simp
      let ?m = "rev (rmrg cmp (rev L) (rev R))"
      let ?d = "P @ ?m @ S"
      have "merge_right cmp ?st (length P) (length P + length L + length R) (length R) (length P + length L) dst = ?d"
        using merge_right_spec [OF dst refl refl refl t refl, of cmp] by simp
      then have "tsort_merge al cmp ra rb (dst, store) = Some (?d, store1\<lparr>ts_storage := ?st\<rparr>)"
        using False Some by (simp add: unfold)
      moreover have "store_ok (store1\<lparr>ts_storage := ?st\<rparr>)"
        using ok False by (auto simp: store_ok_def dst)
      moreover have lm: "length ?m = length L + length R"
        using mset_rmrg [of cmp "rev L" "rev R"] by (metis length_rev mset_rev size_mset size_union)
      moreover have "seg_perm dst (length P) (length P + length L + length R) ?d"
        using lm by (simp add: seg_perm_def dst)
      moreover have "stable_eq cmp dst ?d" if "total_cmp cmp" "sorted_by cmp R"
        using filter_rmrg [OF that(1), of "rev R" _ "rev L"] that(2)
        by (simp add: stable_eq_def dst sorted_wrt_rev rev_filter [symmetric])
      moreover have "sorted_by cmp ?m" if "total_cmp cmp" "sorted_by cmp L" "sorted_by cmp R"
        using sorted_rmrg [OF that(1), of "rev L" "rev R"] that(2,3) by (simp add: sorted_wrt_rev)
      ultimately show ?thesis
        using seg [OF lm] by auto
    qed
  qed
qed

text \<open>The runs on the stack are adjacent, from the beginning of the array to \<open>e\<close>.\<close>

fun chain :: "tsort_run list \<Rightarrow> nat \<Rightarrow> bool" where
  "chain [] e = (e = 0)"
| "chain (r # rs) e = (run_start r + run_length r = e \<and> chain rs (run_start r))"

lemma chain_below: "chain rs e \<Longrightarrow> r \<in> set rs \<Longrightarrow> run_start r + run_length r \<le> e"
  by (induction rs arbitrary: e) force+



lemma chain_run_join: "chain (b # a # rest) e \<Longrightarrow> chain (run_join a b # rest) e"
  by (simp add: run_join_def)

definition sort_env :: "'a allocator \<Rightarrow> ('a \<Rightarrow> 'a \<Rightarrow> int) \<Rightarrow> 'a list \<Rightarrow> bool" where
  "sort_env al cmp d0 \<longleftrightarrow> total_alloc al \<and> total_cmp cmp \<and> length d0 < 2 ^ 61"

text \<open>
  What holds of the array throughout: the elements are those of \<open>d0\<close>, and, as long as no
  temporary storage was refused, every run on the stack is sorted and equal elements are in order.
\<close>

definition sort_inv :: "'a allocator \<Rightarrow> ('a \<Rightarrow> 'a \<Rightarrow> int) \<Rightarrow> 'a list \<Rightarrow> tsort_run list \<Rightarrow> 'a list \<times> 'a tsort_store \<Rightarrow> bool" where
  "sort_inv al cmp d0 stack st \<longleftrightarrow>
     mset (fst st) = mset d0 \<and> store_ok (snd st) \<and>
     (sort_env al cmp d0 \<longrightarrow> (\<forall>r \<in> set stack. sorted_by cmp (run_seg (fst st) r)) \<and> stable_eq cmp d0 (fst st))"

lemma sort_inv_length: "sort_inv al cmp d0 stack st \<Longrightarrow> length (fst st) = length d0"
  unfolding sort_inv_def by (metis size_mset)

lemma sort_inv_merge:
  assumes al: "good_alloc al" and inv: "sort_inv al cmp d0 (ts @ b # a # rest) st"
    and ch: "chain (b # a # rest) e" and e: "e \<le> length d0" and above: "\<forall>t \<in> set ts. e \<le> run_start t"
  shows "\<exists>st1. tsort_merge al cmp a b st = Some st1 \<and> sort_inv al cmp d0 (ts @ run_join a b # rest) st1"
proof -
  obtain dst store where st: "st = (dst, store)" by (cases st)
  have n: "length dst = length d0" using sort_inv_length [OF inv] by (simp add: st)
  have ends: "run_start a + run_length a = run_start b" "run_start b + run_length b = e"
    using ch by auto
  define P where "P = take (run_start a) dst"
  define L where "L = run_seg dst a"
  define R where "R = run_seg dst b"
  have lens: "run_start a = length P" "run_length a = length L" "run_length b = length R"
    using ends e n by (auto simp: P_def L_def R_def run_seg_def)
  have dst: "dst = P @ L @ R @ drop e dst"
  proof -
    have "dst = P @ drop (run_start a) dst" by (simp add: P_def)
    also have "drop (run_start a) dst = L @ drop (run_start b) dst"
      using ends by (simp add: L_def run_seg_def add.commute)
        (metis add.commute append_take_drop_id drop_drop)
    also have "drop (run_start b) dst = R @ drop e dst"
      using ends by (simp add: R_def run_seg_def add.commute)
        (metis add.commute append_take_drop_id drop_drop)
    finally show ?thesis .
  qed
  have ok: "store_ok store" "mset dst = mset d0" using inv by (simp_all add: sort_inv_def st)
  obtain d store1 where d: "tsort_merge al cmp a b (dst, store) = Some (d, store1)" "store_ok store1"
      "seg_perm dst (length P) (length P + length L + length R) d"
      "total_alloc al \<and> length dst < 2 ^ 61 \<and> total_cmp cmp \<and> sorted_by cmp L \<and> sorted_by cmp R \<longrightarrow>
       sorted_by cmp (run_seg d (run_join a b)) \<and> stable_eq cmp dst d"
    using tsort_merge_spec [OF al ok(1) dst lens, of cmp] by blast
  have other: "run_seg d r = run_seg dst r" if "r \<in> set ts \<union> set rest" for r
  proof (rule seg_perm_run [OF d(3)])
    have "chain rest (run_start a)" using ch by simp
    then show "run_start r + run_length r \<le> length P \<or> length P + length L + length R \<le> run_start r"
      using that above ends lens chain_below [of rest "run_start a" r] by auto
  qed
  have "sort_inv al cmp d0 (ts @ run_join a b # rest) (d, store1)"
    using inv d(2-4) other n
    by (auto simp: sort_inv_def st seg_perm_def sort_env_def L_def R_def intro: stable_eq_trans)
  then show ?thesis using d(1) st by auto
qed

lemma collapse_spec:
  "good_alloc al \<Longrightarrow> sort_inv al cmp d0 stack st \<Longrightarrow> chain stack e \<Longrightarrow> e \<le> length d0 \<Longrightarrow>
    \<exists>stack1 st1. collapse al cmp n stack st = Some (stack1, st1) \<and> sort_inv al cmp d0 stack1 st1 \<and> chain stack1 e"
proof (induction al cmp n stack st rule: collapse.induct)
  case (1 al cmp n c b a rest st)
  note prems = "1.prems"
  have bot: "chain (b # a # rest) (run_start c)" "run_start c \<le> length d0"
    using prems(3,4) by auto
  obtain st1 where st1: "tsort_merge al cmp a b st = Some st1" "sort_inv al cmp d0 (c # run_join a b # rest) st1"
    using sort_inv_merge [OF prems(1), of cmp d0 "[c]" b a rest st "run_start c"] prems bot by auto
  obtain st2 where st2: "tsort_merge al cmp b c st = Some st2" "sort_inv al cmp d0 (run_join b c # a # rest) st2"
    using sort_inv_merge [OF prems(1), of cmp d0 "[]" c b "a # rest" st e] prems by auto
  have ch1: "chain (c # run_join a b # rest) e" and ch2: "chain (run_join b c # a # rest) e"
    using prems(3) chain_run_join [OF bot(1)] chain_run_join [OF prems(3)] by auto
  show ?case
    using "1.IH"(1) [OF _ _ st1(1) prems(1) st1(2) ch1 prems(4)] "1.IH"(2) [OF _ _ st2(1) prems(1) st2(2) ch2 prems(4)]
      "1.IH"(3) [OF _ _ st2(1) prems(1) st2(2) ch2 prems(4)] st1(1) st2(1) prems by (cases st) auto
next
  case (2 al cmp n b a st)
  then show ?case
    using sort_inv_merge [of al cmp d0 "[]" b a "[]" st e] chain_run_join [of b a "[]" e] by (cases st) auto
qed (auto simp: split_paired_all)

lemma run_seg_whole:
  "sort_inv al cmp d0 [r] st \<Longrightarrow> chain [r] (length d0) \<Longrightarrow> run_seg (fst st) r = fst st"
  using sort_inv_length [of al cmp d0 "[r]" st] by (simp add: run_seg_def)

lemma merge_all_spec:
  "good_alloc al \<Longrightarrow> sort_inv al cmp d0 stack st \<Longrightarrow> chain stack (length d0) \<Longrightarrow>
    \<exists>ys. merge_all al cmp stack st = Some ys \<and> mset ys = mset d0 \<and>
      (sort_env al cmp d0 \<longrightarrow> sorted_by cmp ys \<and> stable_eq cmp d0 ys)"
proof (induction al cmp stack st rule: merge_all.induct)
  case (1 al cmp b a rest st)
  obtain st1 where st1: "tsort_merge al cmp a b st = Some st1" "sort_inv al cmp d0 (run_join a b # rest) st1"
    using sort_inv_merge [OF "1.prems"(1), of cmp d0 "[]" b a rest st "length d0"] "1.prems" by auto
  then show ?case
    using "1.IH" [OF st1(1) "1.prems"(1) st1(2) chain_run_join [OF "1.prems"(3)]] by simp
next
  case "2_1"
  then show ?case by (auto simp: sort_inv_def)
next
  case prems: "2_2"
  show ?case using prems run_seg_whole [OF prems(2,3)] by (auto simp: sort_inv_def)
qed


lemma minrun_loop_ge: "32 \<le> n \<Longrightarrow> 32 \<le> minrun_loop n r"
proof (induction n r rule: minrun_loop.induct)
  case (1 n r)
  then show ?case by (subst minrun_loop.simps) auto
qed

lemma minrun_loop_le: "r \<le> 1 \<Longrightarrow> minrun_loop n r \<le> 64"
proof (induction n r rule: minrun_loop.induct)
  case (1 n r)
  have "r OR (n AND 1) \<le> 1"
  proof -
    have "r = 0 \<or> r = 1" "n AND 1 = 0 \<or> n AND 1 = 1" using 1(2) by (auto simp: and_one_eq)
    then show ?thesis by (elim disjE) auto
  qed
  then show ?case using 1 by (subst minrun_loop.simps) auto
qed

lemma push_run_spec:
  assumes cm: "total_cmp cmp" and inv: "sort_inv al cmp d0 stack (dst, store)" and ch: "chain stack cur"
    and cur: "cur < length d0" and room: "length stack < 128" and mr: "0 < minrun"
  shows "\<exists>stack1 cur1 dst1. push_run cmp minrun stack cur dst = Some (stack1, cur1, dst1) \<and>
    sort_inv al cmp d0 stack1 (dst1, store) \<and> chain stack1 cur1 \<and> length stack1 = Suc (length stack) \<and>
    cur1 \<le> length d0 \<and> (cur1 < length d0 \<longrightarrow> cur + minrun \<le> cur1)"
proof -
  have n: "length dst = length d0" using sort_inv_length [OF inv] by simp
  obtain d len where c: "count_run cmp dst cur (length dst) = (d, len)" by fastforce
  have run: "seg_sorted cmp dst cur len d" "0 < len" "cur + len \<le> length dst"
    using count_run_spec [OF cm _ c] cur n by auto
  define run where "run = (if minrun > length dst - cur then length dst - cur else minrun)"
  define len2 where "len2 = (if run > len then run else len)"
  have len2: "cur + len2 \<le> length dst" "len \<le> len2" "cur + len2 < length dst \<longrightarrow> minrun \<le> len2"
    using run(3) cur n by (auto simp: len2_def run_def)
  have d: "length d = length dst" "take cur d = take cur dst" "sorted_by cmp (take len (drop cur d))"
      "stable_eq cmp (drop cur dst) (drop cur d)"
    using run(1) by (simp_all add: seg_sorted_def)
  have "\<exists>seg. (if run > len then map_option (\<lambda>seg. take cur d @ seg) (bisort cmp (drop cur d) len run) else Some d) =
      Some (take cur d @ seg) \<and> sorted_by cmp (take len2 seg) \<and> stable_eq cmp (drop cur d) seg"
  proof (cases "run > len")
    case True
    then have "run \<le> length (drop cur d)" using d(1) len2(1) by (simp add: len2_def)
    then obtain seg where "bisort cmp (drop cur d) len run = Some seg" "sorted_by cmp (take run seg)"
        "stable_eq cmp (drop cur d) seg"
      using bisort_spec [OF cm run(2), of run "drop cur d"] d(3) True by auto
    then show ?thesis using True by (simp add: len2_def)
  next
    case False
    then show ?thesis using d(3) by (auto simp: len2_def intro!: exI [of _ "drop cur d"])
  qed
  then obtain seg where seg: "(if run > len then map_option (\<lambda>seg. take cur d @ seg) (bisort cmp (drop cur d) len run) else Some d) =
      Some (take cur d @ seg)" "sorted_by cmp (take len2 seg)" "stable_eq cmp (drop cur d) seg" by blast
  let ?d2 = "take cur dst @ seg" and ?r = "\<lparr>run_start = cur, run_length = len2\<rparr>"
  have push: "push_run cmp minrun stack cur dst = Some (?r # stack, cur + len2, ?d2)"
    using seg(1) room unfolding push_run_def c Let_def prod.case run_def [symmetric] len2_def [symmetric] d(2) [symmetric]
    by (simp split del: if_split)
  have st: "stable_eq cmp (drop cur dst) seg"
    using d(4) seg(3) by (rule stable_eq_trans)
  then have steq: "stable_eq cmp dst ?d2"
    using stable_eq_append [of cmp "take cur dst" "take cur dst" "drop cur dst" seg] by simp
  then have "mset ?d2 = mset dst"
    using stable_eq_mset [OF cm] by metis
  moreover have lens: "length (take cur dst) = cur" using cur n by simp
  moreover have "run_seg ?d2 r = run_seg dst r" if "r \<in> set stack" for r
  proof -
    have "run_start r + run_length r \<le> cur" using chain_below [OF ch that] .
    then show ?thesis using cur n by (auto simp: run_seg_def drop_take min_def)
  qed
  moreover have "run_seg ?d2 ?r = take len2 seg" using lens by (simp add: run_seg_def)
  ultimately have "sort_inv al cmp d0 (?r # stack) (?d2, store)"
    using inv seg(2) steq by (auto simp: sort_inv_def intro: stable_eq_trans)
  moreover have "chain (?r # stack) (cur + len2)" using ch by simp
  ultimately show ?thesis using push len2 n by auto
qed

lemma tsort_loop_spec:
  "good_alloc al \<Longrightarrow> total_cmp cmp \<Longrightarrow> 32 \<le> minrun \<Longrightarrow> length d0 \<le> 4096 \<Longrightarrow>
    sort_inv al cmp d0 stack st \<Longrightarrow> chain stack cur \<Longrightarrow> cur < length d0 \<Longrightarrow> 32 * length stack \<le> cur \<Longrightarrow>
    \<exists>ys. tsort_loop al cmp minrun pushes stack cur st = Some ys \<and> mset ys = mset d0 \<and>
      (sort_env al cmp d0 \<longrightarrow> sorted_by cmp ys \<and> stable_eq cmp d0 ys)"
proof (induction al cmp minrun pushes stack cur st rule: tsort_loop.induct)
  case (1 al cmp minrun pushes stack cur st)
  note prems = "1.prems"
  have n: "length (fst st) = length d0" using sort_inv_length [OF prems(5)] .
  show ?case
  proof (cases "pushes = 0 \<and> \<not> check_invariant stack")
    case True
    obtain stack1 st1 where c: "collapse al cmp (length (fst st)) stack st = Some (stack1, st1)"
        "sort_inv al cmp d0 stack1 st1" "chain stack1 cur"
      using collapse_spec [OF prems(1) prems(5,6)] prems(7) by force
    have "length stack1 \<le> length stack" using collapse_length [OF c(1)] by simp
    then have "32 * length stack1 \<le> cur" using prems(8) by linarith
    then show ?thesis
      using "1.IH"(1) [OF True c(1) refl prems(1-4) c(2,3) prems(7)] True c(1)
      by (subst tsort_loop.simps) simp
  next
    case False
    have "length stack < 128" using prems(4,7,8) by linarith
    then obtain stack1 cur1 dst1 where p: "push_run cmp minrun stack cur (fst st) = Some (stack1, cur1, dst1)"
        "sort_inv al cmp d0 stack1 (dst1, snd st)" "chain stack1 cur1" "length stack1 = Suc (length stack)"
        "cur1 \<le> length d0" "cur1 < length d0 \<longrightarrow> cur + minrun \<le> cur1"
      using push_run_spec [OF prems(2), of al d0 stack "fst st" "snd st" cur minrun] prems by auto
    have n1: "length dst1 = length d0" using sort_inv_length [OF p(2)] by simp
    have inside: "\<not> length (fst st) \<le> cur" using n prems(7) by simp
    show ?thesis
    proof (cases "cur1 = length dst1")
      case True
      then show ?thesis
        using merge_all_spec [OF prems(1) p(2)] p(1,3) n1 inside False by (subst tsort_loop.simps) auto
    next
      case more: False
      then have lt: "cur1 < length d0" using p(5) n1 by simp
      then have "32 * length stack1 \<le> cur1" using p(4,6) prems(3,8) by simp
      then show ?thesis
        using "1.IH"(2) [OF False inside p(1) refl refl more prems(1-4) p(2,3) lt] False inside p(1) more
        by (subst tsort_loop.simps) auto
    qed
  qed
qed

text \<open>The size up to which the 128 slots of the run stack are provably enough.\<close>

definition TSORT_LIMIT :: nat where
  "TSORT_LIMIT = 4096"

lemma git__tsort_r_spec:
  assumes al: "good_alloc al" and cm: "total_cmp (\<lambda>x y. cmp x y payload)" and n: "length xs \<le> TSORT_LIMIT"
  shows "\<exists>ys. git__tsort_r al cmp payload xs = Some ys \<and> mset ys = mset xs \<and>
    (total_alloc al \<longrightarrow> sorted_by (\<lambda>x y. cmp x y payload) ys \<and> stable_eq (\<lambda>x y. cmp x y payload) xs ys)"
proof -
  let ?c = "\<lambda>x y. cmp x y payload"
  show ?thesis
  proof (cases "length xs < 64")
    case True
    show ?thesis
    proof (cases "length xs = 0")
      case True
      then show ?thesis by (simp add: git__tsort_r_def bisort.simps)
    next
      case False
      then have "sorted_by ?c (take 1 xs)" by (cases xs) auto
      then obtain d where "bisort ?c xs 1 (length xs) = Some d" "sorted_by ?c (take (length xs) d)"
          "drop (length xs) d = []" "stable_eq ?c xs d"
        using bisort_spec [OF cm, of 1 "length xs" xs] False
        by (auto simp: Suc_le_eq simp del: One_nat_def)
      then show ?thesis
        using True stable_eq_mset [OF cm, of xs d] by (simp add: git__tsort_r_def Let_def)
    qed
  next
    case False
    have inv: "sort_inv al ?c xs [] (xs, \<lparr>ts_alloc = 0, ts_storage = []\<rparr>)"
      by (simp add: sort_inv_def store_ok_def)
    have mr: "32 \<le> compute_minrun (length xs)"
      using False by (simp add: compute_minrun_def minrun_loop_ge)
    have env: "sort_env al ?c xs \<longleftrightarrow> total_alloc al"
      using cm n by (auto simp: sort_env_def TSORT_LIMIT_def)
    have lim: "length xs \<le> 4096" "0 < length xs"
      using n False by (auto simp: TSORT_LIMIT_def)
    show ?thesis
      using tsort_loop_spec [OF al cm mr lim(1) inv, of 0 3] lim(2) False
      by (simp add: git__tsort_r_def Let_def env)
  qed
qed

section \<open>The interface of a sort\<close>

text \<open>
  What the sorted containers rely on: within a size limit the sort returns, it permutes its
  input, and in an environment where it gets the memory it asks for the result is
  the stable sorting of the input.
\<close>

lemma stable_sorted_unique:
  assumes cm: "total_cmp cmp"
  shows "sorted_by cmp xs \<Longrightarrow> sorted_by cmp ys \<Longrightarrow> stable_eq cmp xs ys \<Longrightarrow> xs = ys"
proof (induction xs arbitrary: ys)
  case Nil
  then show ?case using stable_eq_mset [OF cm Nil(3)] by simp
next
  case (Cons x xs)
  have ms: "mset (x # xs) = mset ys" using stable_eq_mset [OF cm Cons.prems(3)] .
  then obtain y ys' where ys: "ys = y # ys'" by (cases ys) auto
  have "y \<in> set (x # xs)" "x \<in> set ys"
    using mset_eq_setD [OF ms] ys by auto
  then have "cmp x y \<le> 0" "cmp y x \<le> 0"
    using Cons.prems(1,2) ys total_cmp_refl [OF cm] by auto
  then have xy: "cmp x y = 0" using total_cmp_le [OF cm, of y x] by simp
  have "filter (\<lambda>w. cmp x w = 0) (x # xs) = filter (\<lambda>w. cmp x w = 0) ys"
    using Cons.prems(3) by (simp add: stable_eq_def)
  then have eq: "x = y" using xy total_cmp_refl [OF cm, of x] by (simp add: ys)
  have "stable_eq cmp xs ys'"
    using Cons.prems(3) by (auto simp: stable_eq_def ys eq split: if_splits)
  then show ?case using Cons.IH [of ys'] Cons.prems(1,2) by (simp add: ys eq)
qed

locale sorter =
  fixes env :: "'e \<Rightarrow> bool"
    and sort :: "'e \<Rightarrow> ('a \<Rightarrow> 'a \<Rightarrow> int) \<Rightarrow> 'a list \<Rightarrow> 'a list option"
    and limit :: nat
  assumes sort_stable: "env e \<Longrightarrow> total_cmp cmp \<Longrightarrow> length xs \<le> limit \<Longrightarrow>
    \<exists>ys. sort e cmp xs = Some ys \<and> sorted_by cmp ys \<and> stable_eq cmp xs ys"
begin

lemma sort_result:
  assumes "env e" and "total_cmp cmp" and "length xs \<le> limit"
  obtains ys where "sort e cmp xs = Some ys" "sorted_by cmp ys" "mset ys = mset xs"
  using sort_stable [OF assms] stable_eq_mset [OF assms(2)] by metis

text \<open>Sorting a sorted list gives the list back, and the result of a sort is determined by its input.\<close>

lemma sort_sorted:
  assumes "env e" and "total_cmp cmp" and "length xs \<le> limit" and "sorted_by cmp xs"
  shows "sort e cmp xs = Some xs"
proof -
  obtain ys where ys: "sort e cmp xs = Some ys" "sorted_by cmp ys" "stable_eq cmp xs ys"
    using sort_stable [OF assms(1-3)] by blast
  then have "xs = ys" by (intro stable_sorted_unique [OF assms(2,4)])
  with ys show ?thesis by simp
qed

lemma sort_unique:
  assumes "env e" and "total_cmp cmp" and "length xs \<le> limit" and "sorted_by cmp ys" and "stable_eq cmp xs ys"
  shows "sort e cmp xs = Some ys"
proof -
  obtain zs where zs: "sort e cmp xs = Some zs" "sorted_by cmp zs" "stable_eq cmp xs zs"
    using sort_stable [OF assms(1-3)] by blast
  have "stable_eq cmp ys zs" using assms(5) zs(3) by (simp add: stable_eq_def)
  then have "ys = zs" by (intro stable_sorted_unique [OF assms(2,4) zs(2)])
  with zs show ?thesis by simp
qed

end

definition cells_env :: "'a allocator \<Rightarrow> bool" where
  "cells_env al \<longleftrightarrow> good_alloc al \<and> total_alloc al"

lemma cells_env_fill [simp]: "cells_env (fill_alloc x)"
  by (simp add: cells_env_def)

lemma git__tsort_spec:
  assumes "good_alloc al" and "total_cmp cmp" and "length xs \<le> TSORT_LIMIT"
  shows "\<exists>ys. git__tsort al cmp xs = Some ys \<and> mset ys = mset xs \<and>
    (total_alloc al \<longrightarrow> sorted_by cmp ys \<and> stable_eq cmp xs ys)"
  using git__tsort_r_spec [OF assms(1), of "\<lambda>x y payload. payload x y" cmp xs] assms by (simp add: git__tsort_def)

interpretation tsort: sorter cells_env git__tsort TSORT_LIMIT
proof unfold_locales
  fix al :: "'a allocator" and cmp :: "'a \<Rightarrow> 'a \<Rightarrow> int" and xs :: "'a list"
  assume "cells_env al" "total_cmp cmp" "length xs \<le> TSORT_LIMIT"
  then show "\<exists>ys. git__tsort al cmp xs = Some ys \<and> sorted_by cmp ys \<and> stable_eq cmp xs ys"
    using git__tsort_spec [of al cmp xs] by (auto simp: cells_env_def)
qed

section \<open>Properties\<close>

text \<open>C5: \<open>git__tsort_r\<close> on up to 4096 elements and any total comparison returns, uses no slot of its run stack
  beyond the last, and permutes the array; if it gets its temporary storage, the result is sorted and
  elements that compare equal keep their order.\<close>

theorem git__tsort_r_stable_sort:
  assumes "good_alloc al" and "total_cmp (\<lambda>x y. cmp x y payload)" and "length xs \<le> TSORT_LIMIT"
  shows "\<exists>ys. git__tsort_r al cmp payload xs = Some ys \<and> mset ys = mset xs \<and>
    (total_alloc al \<longrightarrow> sorted_by (\<lambda>x y. cmp x y payload) ys \<and> stable_eq (\<lambda>x y. cmp x y payload) xs ys)"
  using git__tsort_r_spec [of al cmp payload xs] assms by simp

lemma total_cmp_minus: "total_cmp (\<lambda>x y. x - y :: int)"
  by (auto simp: total_cmp_def)

theorem git__tsort_r_stable_sort_witness:
  "\<exists>ys. git__tsort_r (fill_alloc 0) (\<lambda>x y payload. x - y) () (rev [0..99]) = Some ys \<and> sorted ys \<and> mset ys = mset [0..99]"
  using git__tsort_r_stable_sort [of "fill_alloc 0" "\<lambda>x y payload. x - y" "()" "rev [0..99]"]
  by (auto simp: total_cmp_minus TSORT_LIMIT_def)

text \<open>On an array ordered with respect to the key, \<open>git__bsearch\<close> returns 0 with the index of an element that
  compares equal, or GIT_ENOTFOUND with the only index where the key can be inserted, and reads no
  element outside the array.\<close>

theorem git__bsearch_correct:
  assumes "key_sorted compare key xs"
  shows "\<exists>r pos. git__bsearch xs (length xs) key compare = Some (r, pos) \<and> pos \<le> length xs \<and>
    (r = 0 \<and> pos < length xs \<and> compare key (xs ! pos) = 0 \<or>
     r = GIT_ENOTFOUND \<and> (\<forall>k < pos. compare key (xs ! k) > 0) \<and>
       (\<forall>k. pos \<le> k \<and> k < length xs \<longrightarrow> compare key (xs ! k) < 0))"
  using git__bsearch_spec [OF assms refl] by auto

theorem git__bsearch_correct_witness:
  "git__bsearch [1, 3, 5] 3 (4 :: int) (-) = Some (GIT_ENOTFOUND, 2)"
proof -
  have "key_sorted (-) (4 :: int) [1, 3, 5]" by (simp add: key_sorted_def)
  from git__bsearch_correct [OF this] show ?thesis
    by (auto simp: git__bsearch_def bsearch_loop.simps)
qed

end
