(* ===== verification/Vector.thy ===== *)
theory Vector
  imports Sort
begin

text \<open>
  The pointer vector of vector.c: a growable array of \<open>void *\<close> with an optional
  comparison callback and a flag that remembers whether it is sorted. A pointer is
  an \<open>'a option\<close>, NULL being \<open>None\<close>; comparison callbacks receive pointers, as in C.
\<close>

section \<open>The structure\<close>

type_synonym 'a ptr_cmp = "'a option \<Rightarrow> 'a option \<Rightarrow> int"

text \<open>\<open>v_contents\<close> holds the cells of the block \<open>contents\<close> points to, \<open>[]\<close> for NULL.\<close>

record 'a git_vector =
  v_alloc_size :: nat
  v_cmp :: "'a ptr_cmp option"
  v_contents :: "'a option list"
  v_length :: nat
  v_flags :: u32

type_synonym 'a cells = "'a option allocator"

definition MIN_ALLOCSIZE :: nat where
  "MIN_ALLOCSIZE = 8"

definition GIT_VECTOR_SORTED :: u32 where
  "GIT_VECTOR_SORTED = push_bit 0 1"

definition GIT_VECTOR_FLAG_MAX :: u32 where
  "GIT_VECTOR_FLAG_MAX = push_bit 1 1"

definition git_vector_is_sorted :: "'a git_vector \<Rightarrow> bool" where
  "git_vector_is_sorted v \<longleftrightarrow> v_flags v AND GIT_VECTOR_SORTED \<noteq> 0"

definition git_vector_set_sorted :: "'a git_vector \<Rightarrow> bool \<Rightarrow> 'a git_vector" where
  "git_vector_set_sorted v s =
     v\<lparr>v_flags := (if s then v_flags v OR GIT_VECTOR_SORTED else v_flags v AND NOT GIT_VECTOR_SORTED)\<rparr>"

text \<open>Two callbacks are the same pointer or not; the model is told which.\<close>

definition git_vector_set_cmp :: "'a git_vector \<Rightarrow> 'a ptr_cmp option \<Rightarrow> bool \<Rightarrow> 'a git_vector" where
  "git_vector_set_cmp v cmp same = (if same then v else git_vector_set_sorted (v\<lparr>v_cmp := cmp\<rparr>) False)"

section \<open>Growth\<close>

definition compute_new_size :: "'a git_vector \<Rightarrow> nat" where
  "compute_new_size v =
     (let new_size = v_alloc_size v in
      if new_size < MIN_ALLOCSIZE then MIN_ALLOCSIZE
      else if new_size \<le> SIZE_MAX div 3 * 2 then new_size + new_size div 2
      else SIZE_MAX)"

definition resize_vector :: "'a cells \<Rightarrow> 'a git_vector \<Rightarrow> nat \<Rightarrow> (int \<times> 'a git_vector) option" where
  "resize_vector al v new_size =
     (case git__reallocarray al (v_contents v) new_size of
        None \<Rightarrow> Some (-1, v)
      | Some new_contents \<Rightarrow> Some (0, v\<lparr>v_alloc_size := new_size, v_contents := new_contents\<rparr>))"

definition git_vector_size_hint :: "'a cells \<Rightarrow> 'a git_vector \<Rightarrow> nat \<Rightarrow> (int \<times> 'a git_vector) option" where
  "git_vector_size_hint al v size_hint =
     (if v_alloc_size v \<ge> size_hint then Some (0, v) else resize_vector al v size_hint)"

section \<open>Life cycle\<close>

text \<open>\<open>git_vector_init\<close> and \<open>git_vector_dup\<close> write every field of the target; \<open>flags\<close> comes from the source.\<close>

definition git_vector_init :: "'a cells \<Rightarrow> nat \<Rightarrow> 'a ptr_cmp option \<Rightarrow> (int \<times> 'a git_vector) option" where
  "git_vector_init al initial_size cmp =
     resize_vector al \<lparr>v_alloc_size = 0, v_cmp = cmp, v_contents = [], v_length = 0, v_flags = GIT_VECTOR_SORTED\<rparr>
       (max initial_size MIN_ALLOCSIZE)"

definition git_vector_dup :: "'a cells \<Rightarrow> 'a git_vector \<Rightarrow> 'a git_vector \<Rightarrow> 'a ptr_cmp option \<Rightarrow> bool \<Rightarrow> (int \<times> 'a git_vector) option" where
  "git_vector_dup al v src cmp same =
     alloc_mul v (v_length src) 8 (\<lambda>bytes.
       let v1 = v\<lparr>v_alloc_size := v_length src, v_cmp := (if cmp = None then v_cmp src else cmp),
                  v_length := v_length src, v_flags := v_flags src\<rparr>;
           v2 = (if same then v1 else git_vector_set_sorted v1 False)
       in case al (v_length src) of
            None \<Rightarrow> Some (-1, v2\<lparr>v_contents := []\<rparr>)
          | Some m \<Rightarrow>
              if length (v_contents src) < v_length src then None
              else Some (0, v2\<lparr>v_contents := take (v_length src) (v_contents src)\<rparr>))"

definition git_vector_free :: "'a git_vector \<Rightarrow> 'a git_vector" where
  "git_vector_free v = v\<lparr>v_contents := [], v_length := 0, v_alloc_size := 0\<rparr>"

definition git_vector_detach :: "'a git_vector \<Rightarrow> ('a option list \<times> nat \<times> nat) \<times> 'a git_vector" where
  "git_vector_detach v =
     ((v_contents v, v_length v, v_alloc_size v), v\<lparr>v_alloc_size := 0, v_length := 0, v_contents := []\<rparr>)"

definition git_vector_clear :: "'a git_vector \<Rightarrow> 'a git_vector" where
  "git_vector_clear v = git_vector_set_sorted (v\<lparr>v_length := 0\<rparr>) True"

definition git_vector_swap :: "'a git_vector \<times> 'a git_vector \<Rightarrow> 'a git_vector \<times> 'a git_vector" where
  "git_vector_swap p = (snd p, fst p)"

section \<open>Access and update\<close>

definition git_vector_get :: "'a git_vector \<Rightarrow> nat \<Rightarrow> 'a option" where
  "git_vector_get v position = (if position < v_length v then v_contents v ! position else None)"

definition git_vector_last :: "'a git_vector \<Rightarrow> 'a option" where
  "git_vector_last v = (if v_length v > 0 then git_vector_get v (v_length v - 1) else None)"

text \<open>A store \<open>contents[i] = x\<close>, undefined outside the block, and a \<open>memmove\<close> or \<open>memset\<close> of a range.\<close>

definition vec_put :: "'a git_vector \<Rightarrow> nat \<Rightarrow> 'a option \<Rightarrow> 'a git_vector option" where
  "vec_put v i x = (if i < length (v_contents v) then Some (v\<lparr>v_contents := (v_contents v)[i := x]\<rparr>) else None)"

definition vec_write :: "'a git_vector \<Rightarrow> nat \<Rightarrow> 'a option list \<Rightarrow> 'a git_vector option" where
  "vec_write v i xs =
     (if xs = [] then Some v
      else if i + length xs \<le> length (v_contents v)
      then Some (v\<lparr>v_contents := take i (v_contents v) @ xs @ drop (i + length xs) (v_contents v)\<rparr>)
      else None)"

definition git_vector_insert :: "'a cells \<Rightarrow> 'a git_vector \<Rightarrow> 'a option \<Rightarrow> (int \<times> 'a git_vector) option" where
  "git_vector_insert al v element =
     or_fail (if v_length v \<ge> v_alloc_size v then resize_vector al v (compute_new_size v) else Some (0, v))
       (\<lambda>v1. do {
          v2 \<leftarrow> vec_put v1 (v_length v1) element;
          let v3 = v2\<lparr>v_length := v_length v2 + 1\<rparr>;
          Some (0, git_vector_set_sorted v3 (v_length v3 \<le> 1)) })"

definition git_vector_sort :: "'a cells \<Rightarrow> 'a git_vector \<Rightarrow> 'a git_vector option" where
  "git_vector_sort al v =
     (case v_cmp v of
        None \<Rightarrow> Some v
      | Some cmp \<Rightarrow>
          if git_vector_is_sorted v then Some v
          else if v_length v > 1 then do {
            xs \<leftarrow> git__tsort al cmp (take (v_length v) (v_contents v));
            v1 \<leftarrow> vec_write v 0 xs;
            Some (git_vector_set_sorted v1 True) }
          else Some (git_vector_set_sorted v True))"

text \<open>
  \<open>on_dup\<close> may replace the element found; its return code cancels the insertion when negative.
\<close>

definition git_vector_insert_sorted ::
    "'a cells \<Rightarrow> 'a git_vector \<Rightarrow> 'a option \<Rightarrow> ('a option \<Rightarrow> 'a option \<Rightarrow> int \<times> 'a option) option \<Rightarrow> (int \<times> 'a git_vector) option" where
  "git_vector_insert_sorted al v0 element on_dup =
     (case v_cmp v0 of
        None \<Rightarrow> None
      | Some cmp \<Rightarrow> do {
          v \<leftarrow> (if \<not> git_vector_is_sorted v0 then git_vector_sort al v0 else Some v0);
          or_fail (if v_length v \<ge> v_alloc_size v then resize_vector al v (compute_new_size v) else Some (0, v))
            (\<lambda>v1. do {
              (found, pos) \<leftarrow> git__bsearch (v_contents v1) (v_length v1) element cmp;
              (result, v2) \<leftarrow>
                (case on_dup of
                   Some f \<Rightarrow>
                     if found = 0 then do {
                       let (r, old) = f (v_contents v1 ! pos) element;
                       v2 \<leftarrow> vec_put v1 pos old;
                       Some (r, v2) }
                     else Some (0, v1)
                 | None \<Rightarrow> Some (0, v1));
              if result < 0 then Some (result, v2)
              else do {
                v3 \<leftarrow> vec_write v2 (pos + 1) (take (v_length v2 - pos) (drop pos (v_contents v2)));
                v4 \<leftarrow> vec_put v3 pos element;
                Some (0, v4\<lparr>v_length := v_length v4 + 1\<rparr>) } }) })"

section \<open>Searching\<close>

text \<open>The key is a pointer, which the assertions require not to be NULL; the comparison must be there as well. When nothing
  is found, \<open>git_vector_search2\<close> leaves the position as it was.\<close>

definition git_vector_bsearch2 ::
    "'a cells \<Rightarrow> 'a git_vector \<Rightarrow> ('k option \<Rightarrow> 'a option \<Rightarrow> int) \<Rightarrow> 'k option \<Rightarrow> (int \<times> nat \<times> 'a git_vector) option" where
  "git_vector_bsearch2 al v key_lookup key =
     (if key = None then None
      else if v_cmp v = None then Some (-1, 0, v)
      else do {
        v1 \<leftarrow> git_vector_sort al v;
        (r, pos) \<leftarrow> git__bsearch (v_contents v1) (v_length v1) key key_lookup;
        Some (r, pos, v1) })"

definition git_vector_bsearch :: "'a cells \<Rightarrow> 'a git_vector \<Rightarrow> 'a option \<Rightarrow> (int \<times> nat \<times> 'a git_vector) option" where
  "git_vector_bsearch al v key =
     (case v_cmp v of None \<Rightarrow> None | Some cmp \<Rightarrow> git_vector_bsearch2 al v cmp key)"

fun search_from :: "('k \<Rightarrow> 'a option \<Rightarrow> int) \<Rightarrow> 'k \<Rightarrow> nat \<Rightarrow> 'a option list \<Rightarrow> int \<times> nat option" where
  "search_from key_lookup key i [] = (GIT_ENOTFOUND, None)"
| "search_from key_lookup key i (x # xs) =
     (if key_lookup key x = 0 then (0, Some i) else search_from key_lookup key (i + 1) xs)"

definition git_vector_search2 ::
    "'a git_vector \<Rightarrow> ('k option \<Rightarrow> 'a option \<Rightarrow> int) \<Rightarrow> 'k option \<Rightarrow> (int \<times> nat option) option" where
  "git_vector_search2 v key_lookup key =
     (if key = None then None
      else Some (search_from key_lookup key 0 (take (v_length v) (v_contents v))))"

definition strict_comparison :: "'a ptr_cmp" where
  "strict_comparison a b = (if a = b then 0 else -1)"

definition git_vector_search :: "'a git_vector \<Rightarrow> 'a option \<Rightarrow> (int \<times> nat option) option" where
  "git_vector_search v entry =
     git_vector_search2 v (case v_cmp v of Some cmp \<Rightarrow> cmp | None \<Rightarrow> strict_comparison) entry"

section \<open>Removal\<close>

definition git_vector_remove :: "'a git_vector \<Rightarrow> nat \<Rightarrow> (int \<times> 'a git_vector) option" where
  "git_vector_remove v idx =
     (if idx \<ge> v_length v then Some (GIT_ENOTFOUND, v)
      else do {
        v1 \<leftarrow> vec_write v idx (take (v_length v - idx - 1) (drop (idx + 1) (v_contents v)));
        Some (0, v1\<lparr>v_length := v_length v1 - 1\<rparr>) })"

definition git_vector_pop :: "'a git_vector \<Rightarrow> 'a git_vector" where
  "git_vector_pop v = (if v_length v > 0 then v\<lparr>v_length := v_length v - 1\<rparr> else v)"

text \<open>The loop of \<open>git_vector_uniq\<close>: of equal neighbours the last one stays.\<close>

function uniq_loop :: "'a ptr_cmp \<Rightarrow> nat \<Rightarrow> nat \<Rightarrow> nat \<Rightarrow> 'a option list \<Rightarrow> nat \<times> 'a option list" where
  "uniq_loop cmp n i j m =
     (if j < n then
        if cmp (m ! i) (m ! j) = 0 then uniq_loop cmp n i (j + 1) (m[i := m ! j])
        else uniq_loop cmp n (i + 1) (j + 1) (m[i + 1 := m ! j])
      else (i, m))"
  by pat_completeness auto
termination
  by (relation "measure (\<lambda>(cmp, n, i, j, m). n - j)") auto

declare uniq_loop.simps [simp del]

definition git_vector_uniq :: "'a cells \<Rightarrow> 'a git_vector \<Rightarrow> 'a git_vector option" where
  "git_vector_uniq al v =
     (if v_length v \<le> 1 then Some v
      else do {
        v1 \<leftarrow> git_vector_sort al v;
        let cmp = (case v_cmp v1 of Some c \<Rightarrow> c | None \<Rightarrow> strict_comparison);
        if length (v_contents v1) < v_length v1 then None
        else
          let (i, m) = uniq_loop cmp (v_length v1) 0 1 (v_contents v1)
          in Some (v1\<lparr>v_contents := m, v_length := v_length v1 - (v_length v1 - i - 1)\<rparr>) })"

function remove_matching_loop :: "('a git_vector \<Rightarrow> nat \<Rightarrow> bool) \<Rightarrow> 'a git_vector \<Rightarrow> nat \<Rightarrow> nat \<Rightarrow> nat \<times> 'a git_vector" where
  "remove_matching_loop matches v i j =
     (if j < v_length v then
        let v1 = v\<lparr>v_contents := (v_contents v)[i := v_contents v ! j]\<rparr>
        in remove_matching_loop matches v1 (if matches v1 i then i else i + 1) (j + 1)
      else (i, v))"
  by pat_completeness auto
termination
  by (relation "measure (\<lambda>(matches, v, i, j). v_length v - j)") auto

declare remove_matching_loop.simps [simp del]

definition git_vector_remove_matching :: "'a git_vector \<Rightarrow> ('a git_vector \<Rightarrow> nat \<Rightarrow> bool) \<Rightarrow> 'a git_vector option" where
  "git_vector_remove_matching v matches =
     (if length (v_contents v) < v_length v then None
      else let (i, v1) = remove_matching_loop matches v 0 0 in Some (v1\<lparr>v_length := i\<rparr>))"

section \<open>Resizing\<close>

definition git_vector_resize_to :: "'a cells \<Rightarrow> 'a git_vector \<Rightarrow> nat \<Rightarrow> (int \<times> 'a git_vector) option" where
  "git_vector_resize_to al v new_length =
     or_fail (if new_length > v_alloc_size v then resize_vector al v new_length else Some (0, v))
       (\<lambda>v1. do {
          v2 \<leftarrow> (if new_length > v_length v1 then vec_write v1 (v_length v1) (replicate (new_length - v_length v1) None)
                else Some v1);
          Some (0, v2\<lparr>v_length := new_length\<rparr>) })"

definition git_vector_insert_null :: "'a cells \<Rightarrow> 'a git_vector \<Rightarrow> nat \<Rightarrow> nat \<Rightarrow> (int \<times> 'a git_vector) option" where
  "git_vector_insert_null al v idx insert_len =
     (if \<not> (insert_len > 0 \<and> idx \<le> v_length v) then None
      else alloc_add v (v_length v) insert_len (\<lambda>new_length.
        or_fail (if new_length > v_alloc_size v then resize_vector al v new_length else Some (0, v))
          (\<lambda>v1. do {
             v2 \<leftarrow> vec_write v1 (idx + insert_len) (take (v_length v1 - idx) (drop idx (v_contents v1)));
             v3 \<leftarrow> vec_write v2 idx (replicate insert_len None);
             Some (0, v3\<lparr>v_length := new_length\<rparr>) })))"

definition git_vector_remove_range :: "'a git_vector \<Rightarrow> nat \<Rightarrow> nat \<Rightarrow> (int \<times> 'a git_vector) option" where
  "git_vector_remove_range v idx remove_len =
     (if \<not> remove_len > 0 then None
      else case add_sizet idx remove_len of
        None \<Rightarrow> None
      | Some end_idx \<Rightarrow>
          if \<not> end_idx \<le> v_length v then None
          else do {
            let new_length = v_length v - remove_len;
            v1 \<leftarrow> vec_write v idx (take (v_length v - end_idx) (drop end_idx (v_contents v)));
            v2 \<leftarrow> vec_write v1 new_length (replicate remove_len None);
            Some (0, v2\<lparr>v_length := new_length\<rparr>) })"

text \<open>The old pointer is the third component.\<close>

definition git_vector_set :: "'a cells \<Rightarrow> 'a git_vector \<Rightarrow> nat \<Rightarrow> 'a option \<Rightarrow> (int \<times> 'a option \<times> 'a git_vector) option" where
  "git_vector_set al v position value =
     (case (if (position + 1) mod 2 ^ 64 > v_length v then git_vector_resize_to al v ((position + 1) mod 2 ^ 64)
            else Some (0, v)) of
        None \<Rightarrow> None
      | Some (r, v1) \<Rightarrow>
          if r < 0 then Some (-1, None, v1)
          else if length (v_contents v1) \<le> position then None
          else map_option (\<lambda>v2. (0, v_contents v1 ! position, v2)) (vec_put v1 position value))"

fun verify_from :: "'a ptr_cmp \<Rightarrow> 'a option list \<Rightarrow> int" where
  "verify_from cmp (x # y # xs) = (if cmp x y > 0 then -1 else verify_from cmp (y # xs))"
| "verify_from cmp _ = 0"

definition git_vector_verify_sorted :: "'a git_vector \<Rightarrow> int option" where
  "git_vector_verify_sorted v =
     (if \<not> git_vector_is_sorted v then Some (-1)
      else if v_length v \<le> 1 then Some 0
      else map_option (\<lambda>cmp. verify_from cmp (take (v_length v) (v_contents v))) (v_cmp v))"

section \<open>Well-formed vectors\<close>

text \<open>The elements a vector holds, and its invariant; the bound is that of the address space.\<close>

definition items :: "'a git_vector \<Rightarrow> 'a option list" where
  "items v = take (v_length v) (v_contents v)"

definition vec_wf :: "'a git_vector \<Rightarrow> bool" where
  "vec_wf v \<longleftrightarrow> v_length v \<le> v_alloc_size v \<and> v_alloc_size v \<le> length (v_contents v) \<and> v_alloc_size v < 2 ^ 60"

text \<open>The flag says the truth: a vector marked sorted whose callback is known is sorted.\<close>

definition flag_ok :: "'a git_vector \<Rightarrow> bool" where
  "flag_ok v \<longleftrightarrow> (\<forall>cmp. git_vector_is_sorted v \<and> v_cmp v = Some cmp \<longrightarrow> sorted_by cmp (items v))"

lemma items_update: "items (v\<lparr>v_contents := m, v_length := l\<rparr>) = take l m"
  by (simp add: items_def)

definition VEC_LIMIT :: nat where
  "VEC_LIMIT = 2 ^ 58"

lemma git_vector_is_sorted_bit: "git_vector_is_sorted v \<longleftrightarrow> bit (v_flags v) 0"
  by (simp add: git_vector_is_sorted_def GIT_VECTOR_SORTED_def and_one_eq odd_iff_mod_2_eq_one [symmetric] bit_0)

lemma set_sorted_simps [simp]:
  "git_vector_is_sorted (git_vector_set_sorted v s) = s"
  "v_cmp (git_vector_set_sorted v s) = v_cmp v"
  "v_contents (git_vector_set_sorted v s) = v_contents v"
  "v_length (git_vector_set_sorted v s) = v_length v"
  "v_alloc_size (git_vector_set_sorted v s) = v_alloc_size v"
  "items (git_vector_set_sorted v s) = items v"
  "vec_wf (git_vector_set_sorted v s) = vec_wf v"
  by (simp_all add: git_vector_is_sorted_bit git_vector_set_sorted_def GIT_VECTOR_SORTED_def bit_simps items_def vec_wf_def)

lemma set_sorted_other_bits:
  "n \<noteq> 0 \<Longrightarrow> bit (v_flags (git_vector_set_sorted v s)) n = bit (v_flags v) n"
  by (auto simp: git_vector_set_sorted_def GIT_VECTOR_SORTED_def bit_simps dest: bit_imp_le_length)

lemma flag_ok_set_sorted:
  "flag_ok (git_vector_set_sorted v s) \<longleftrightarrow> (s \<longrightarrow> (\<forall>cmp. v_cmp v = Some cmp \<longrightarrow> sorted_by cmp (items v)))"
  by (auto simp: flag_ok_def)

lemma length_items [simp]: "vec_wf v \<Longrightarrow> length (items v) = v_length v"
  by (simp add: items_def vec_wf_def)

lemma resize_vector_spec:
  assumes al: "good_alloc al" and wf: "vec_wf v" and n: "v_length v \<le> n" "n < 2 ^ 60"
  shows "\<exists>r v1. resize_vector al v n = Some (r, v1) \<and>
    (r = 0 \<and> vec_wf v1 \<and> items v1 = items v \<and> v_alloc_size v1 = n \<and> v_length v1 = v_length v \<and> v_cmp v1 = v_cmp v \<and>
       v_flags v1 = v_flags v \<and> length (v_contents v1) = n \<or>
     r = -1 \<and> v1 = v \<and> \<not> total_alloc al)"
proof (cases "git__reallocarray al (v_contents v) n")
  case None
  then have "\<not> total_alloc al"
    using git__reallocarray_total [of al n "v_contents v"] n by auto
  then show ?thesis using None by (simp add: resize_vector_def)
next
  case (Some m)
  have "take (v_length v) m = take (v_length v) (v_contents v)" "length m = n"
    using git__reallocarray_cases [OF al Some] wf n by (auto simp: vec_wf_def)
  then show ?thesis using Some n by (simp add: resize_vector_def vec_wf_def items_def)
qed

text \<open>The growth step before an insertion.\<close>

lemma vec_room_spec:
  assumes al: "good_alloc al" and wf: "vec_wf v" and n: "v_length v < VEC_LIMIT"
  shows "\<exists>r v1. (if v_length v \<ge> v_alloc_size v then resize_vector al v (compute_new_size v) else Some (0, v)) = Some (r, v1) \<and>
    (r = 0 \<and> vec_wf v1 \<and> items v1 = items v \<and> v_length v1 < v_alloc_size v1 \<and> v_length v1 = v_length v \<and> v_cmp v1 = v_cmp v \<and>
       v_flags v1 = v_flags v \<and> (v_length v < v_alloc_size v \<longrightarrow> v_alloc_size v1 = v_alloc_size v) \<or>
     r = -1 \<and> v1 = v \<and> \<not> total_alloc al)"
proof (cases "v_length v \<ge> v_alloc_size v")
  case True
  then have eq: "v_alloc_size v = v_length v" using wf by (simp add: vec_wf_def)
  have small: "v_length v \<le> SIZE_MAX div 3 * 2"
    using n by (simp add: VEC_LIMIT_def SIZE_MAX_def)
  have "v_length v < compute_new_size v" "compute_new_size v < 2 ^ 60"
    using n small by (auto simp: compute_new_size_def eq MIN_ALLOCSIZE_def VEC_LIMIT_def Let_def)
  then show ?thesis
    using True resize_vector_spec [OF al wf, of "compute_new_size v"] by auto
qed (use wf in auto)

lemma vec_room_total:
  assumes "cells_env al" and "vec_wf v" and "v_length v < VEC_LIMIT"
  obtains v1 where "(if v_length v \<ge> v_alloc_size v then resize_vector al v (compute_new_size v) else Some (0, v)) = Some (0, v1)"
    "vec_wf v1" "items v1 = items v" "v_length v1 < v_alloc_size v1" "v_length v1 = v_length v" "v_cmp v1 = v_cmp v"
    "v_flags v1 = v_flags v"
proof -
  have al: "good_alloc al" "total_alloc al" using assms(1) by (auto simp: cells_env_def)
  obtain r v1 where res: "(if v_length v \<ge> v_alloc_size v then resize_vector al v (compute_new_size v) else Some (0, v)) = Some (r, v1)"
    and c: "r = 0 \<and> vec_wf v1 \<and> items v1 = items v \<and> v_length v1 < v_alloc_size v1 \<and> v_length v1 = v_length v \<and> v_cmp v1 = v_cmp v \<and>
       v_flags v1 = v_flags v \<and> (v_length v < v_alloc_size v \<longrightarrow> v_alloc_size v1 = v_alloc_size v) \<or>
     r = -1 \<and> v1 = v \<and> \<not> total_alloc al"
    using vec_room_spec [OF al(1) assms(2,3)] by blast
  show thesis
    using res c al(2) by (intro that [of v1]) simp_all
qed

lemma vec_put_spec:
  assumes "vec_wf v" and "i < v_alloc_size v"
  shows "vec_put v i x = Some (v\<lparr>v_contents := (v_contents v)[i := x]\<rparr>)"
  using assms by (simp add: vec_put_def vec_wf_def)

lemma vec_write_spec:
  assumes "vec_wf v" and "i + length xs \<le> v_alloc_size v"
  shows "vec_write v i xs = Some (v\<lparr>v_contents := take i (v_contents v) @ xs @ drop (i + length xs) (v_contents v)\<rparr>)"
  using assms by (cases "xs = []") (auto simp: vec_write_def vec_wf_def)

text \<open>
  The outcome of an operation that may allocate: success with the stated elements,
  well-formed and with a truthful flag, or -1 after a refused allocation with the vector as it was.
\<close>

definition vec_outcome :: "'a cells \<Rightarrow> 'a git_vector \<Rightarrow> 'a option list \<Rightarrow> (int \<times> 'a git_vector) option \<Rightarrow> bool" where
  "vec_outcome al v new res \<longleftrightarrow>
     (\<exists>r v'. res = Some (r, v') \<and>
        (r = 0 \<and> vec_wf v' \<and> flag_ok v' \<and> v_cmp v' = v_cmp v \<and> items v' = new \<or>
         r = -1 \<and> v' = v \<and> \<not> total_alloc al))"

lemma vec_outcome_total:
  "vec_outcome al v new res \<Longrightarrow> cells_env al \<Longrightarrow>
    \<exists>v'. res = Some (0, v') \<and> vec_wf v' \<and> flag_ok v' \<and> v_cmp v' = v_cmp v \<and> items v' = new"
  by (auto simp: vec_outcome_def cells_env_def)

lemma git_vector_insert_flags:
  assumes al: "good_alloc al" and wf: "vec_wf v" and n: "v_length v < VEC_LIMIT"
  shows "\<exists>r v'. git_vector_insert al v x = Some (r, v') \<and>
    (r = 0 \<and> vec_wf v' \<and> flag_ok v' \<and> v_cmp v' = v_cmp v \<and> items v' = items v @ [x] \<and>
       (\<forall>k. k \<noteq> 0 \<longrightarrow> bit (v_flags v') k = bit (v_flags v) k) \<and>
       (v_length v < v_alloc_size v \<longrightarrow> v_alloc_size v' = v_alloc_size v) \<or>
     r = -1 \<and> v' = v \<and> \<not> total_alloc al)"
proof -
  obtain r v1 where room: "(if v_length v \<ge> v_alloc_size v then resize_vector al v (compute_new_size v) else Some (0, v)) = Some (r, v1)"
    and c: "r = 0 \<and> vec_wf v1 \<and> items v1 = items v \<and> v_length v1 < v_alloc_size v1 \<and> v_length v1 = v_length v \<and>
        v_cmp v1 = v_cmp v \<and> v_flags v1 = v_flags v \<and> (v_length v < v_alloc_size v \<longrightarrow> v_alloc_size v1 = v_alloc_size v) \<or> r = -1 \<and> v1 = v \<and> \<not> total_alloc al"
    using vec_room_spec [OF al wf n] by blast
  show ?thesis
  proof (cases "r = 0")
    case True
    with c have v1: "vec_wf v1" "items v1 = items v" "v_length v1 < v_alloc_size v1" "v_length v1 = v_length v"
      "v_cmp v1 = v_cmp v" "v_flags v1 = v_flags v"
      "v_length v < v_alloc_size v \<longrightarrow> v_alloc_size v1 = v_alloc_size v" by auto
    let ?v2 = "v1\<lparr>v_contents := (v_contents v1)[v_length v1 := x], v_length := v_length v1 + 1\<rparr>"
    have "git_vector_insert al v x = Some (0, git_vector_set_sorted ?v2 (v_length ?v2 \<le> 1))"
      unfolding git_vector_insert_def room using True vec_put_spec [OF v1(1,3), of x] by (simp add: Let_def)
    moreover have "vec_wf ?v2" using v1 by (simp add: vec_wf_def)
    moreover have it: "items ?v2 = items v @ [x]"
    proof -
      have "v_length v1 < length (v_contents v1)" using v1(1,3) by (simp add: vec_wf_def)
      then show ?thesis using v1(2) by (simp add: items_def take_Suc_conv_app_nth)
    qed
    moreover have "sorted_by cmp (items ?v2)" if "v_length ?v2 \<le> 1" for cmp
    proof -
      have "items v = []" using that v1 by (simp add: items_def)
      then show ?thesis unfolding it by simp
    qed
    ultimately show ?thesis
      using v1 set_sorted_other_bits [of _ ?v2] by (auto simp: flag_ok_set_sorted)
  next
    case False
    then show ?thesis using c room by (auto simp: git_vector_insert_def)
  qed
qed

lemma git_vector_insert_outcome:
  assumes "good_alloc al" and "vec_wf v" and "v_length v < VEC_LIMIT"
  shows "vec_outcome al v (items v @ [x]) (git_vector_insert al v x)"
  using git_vector_insert_flags [OF assms, of x] by (auto simp: vec_outcome_def)

text \<open>Sorting.\<close>

lemma vec_replace_items:
  assumes "vec_wf v" and "length xs = v_length v"
  shows "\<exists>v1. vec_write v 0 xs = Some v1 \<and> vec_wf v1 \<and> items v1 = xs \<and> v_length v1 = v_length v \<and> v_cmp v1 = v_cmp v \<and>
    v_flags v1 = v_flags v \<and> v_alloc_size v1 = v_alloc_size v"
  using assms vec_write_spec [of v 0 xs] by (auto simp: vec_wf_def items_def)

lemma git_vector_sort_spec:
  assumes env: "cells_env al" and wf: "vec_wf v" and fl: "flag_ok v"
    and cm: "\<And>cmp. v_cmp v = Some cmp \<Longrightarrow> total_cmp cmp" and n: "v_length v \<le> TSORT_LIMIT"
  shows "\<exists>v1. git_vector_sort al v = Some v1 \<and> vec_wf v1 \<and> flag_ok v1 \<and> v_cmp v1 = v_cmp v \<and> v_length v1 = v_length v \<and>
    (\<forall>cmp. v_cmp v = Some cmp \<longrightarrow> git_vector_is_sorted v1 \<and> sorted_by cmp (items v1) \<and> stable_eq cmp (items v) (items v1)) \<and>
    (v_cmp v = None \<longrightarrow> v1 = v)"
proof (cases "v_cmp v")
  case None
  then show ?thesis using wf fl by (simp add: git_vector_sort_def)
next
  case (Some cmp)
  show ?thesis
  proof (cases "git_vector_is_sorted v \<or> v_length v \<le> 1")
    case True
    then have "sorted_by cmp (items v)"
    proof
      assume "v_length v \<le> 1"
      then have "items v = [] \<or> (\<exists>x. items v = [x])"
        using length_items [OF wf] by (cases "items v") (auto simp flip: length_0_conv)
      then show ?thesis by auto
    qed (use fl Some in \<open>auto simp: flag_ok_def\<close>)
    then show ?thesis
      using True wf fl Some by (auto simp: git_vector_sort_def flag_ok_set_sorted)
  next
    case False
    obtain ys where ys: "git__tsort al cmp (items v) = Some ys" "sorted_by cmp ys" "stable_eq cmp (items v) ys"
      using tsort.sort_stable [OF env cm [OF Some], of "items v"] n wf by auto
    have "length ys = v_length v"
      using stable_eq_mset [OF cm [OF Some] ys(3)] wf by (metis length_items size_mset)
    then obtain v1 where v1: "vec_write v 0 ys = Some v1" "vec_wf v1" "items v1 = ys" "v_length v1 = v_length v" "v_cmp v1 = v_cmp v"
      using vec_replace_items [OF wf] by blast
    then show ?thesis
      using False ys Some by (auto simp: git_vector_sort_def items_def [symmetric] flag_ok_set_sorted)
  qed
qed

section \<open>Sorted insertion and lookup\<close>

text \<open>A comparison that is total orders every sorted vector with respect to any element as the key.\<close>

lemma key_sorted_cmp:
  assumes cm: "total_cmp cmp" and "sorted_by cmp xs"
  shows "key_sorted cmp x xs"
  unfolding key_sorted_def using assms(2)
proof (rule sorted_wrt_mono_rel [rotated])
  fix a b assume ab: "cmp a b \<le> 0"
  show "cmp x b \<ge> 0 \<longrightarrow> cmp x a > 0 \<or> cmp x a = 0 \<and> cmp x b = 0"
    using ab total_cmp_trans_less(1) [OF cm, of x a b] total_cmp_trans_less(2) [OF cm, of x a b]
      total_cmp_trans [OF cm, of x a b] by (cases "cmp x a" "0 :: int" rule: linorder_cases) auto
qed

lemma sorted_insert_at:
  assumes cm: "total_cmp cmp" and srt: "sorted_by cmp xs" and pos: "pos \<le> length xs"
    and lo: "\<forall>k < pos. cmp x (xs ! k) \<ge> 0" and hi: "\<forall>k. pos \<le> k \<and> k < length xs \<longrightarrow> cmp x (xs ! k) \<le> 0"
  shows "sorted_by cmp (take pos xs @ x # drop pos xs)"
proof -
  have "sorted_by cmp (take pos xs @ drop pos xs)" using srt by simp
  moreover have "\<forall>y \<in> set (take pos xs). cmp y x \<le> 0"
    using lo pos total_cmp_le [OF cm] by (auto simp: in_set_conv_nth)
  moreover have "\<forall>y \<in> set (drop pos xs). cmp x y \<le> 0"
    using hi by (auto simp: in_set_conv_nth)
  ultimately show ?thesis
    using srt by (auto simp: sorted_wrt_append sorted_wrt_take sorted_wrt_drop intro: total_cmp_trans [OF cm, of _ x])
qed

lemma bsearch_items:
  assumes wf: "vec_wf v" and ks: "key_sorted compare key (items v)"
  shows "\<exists>r pos. git__bsearch (v_contents v) (v_length v) key compare = Some (r, pos) \<and> pos \<le> v_length v \<and>
    (r = 0 \<and> pos < v_length v \<and> compare key (items v ! pos) = 0 \<or>
     r = GIT_ENOTFOUND \<and> (\<forall>k < pos. compare key (items v ! k) > 0) \<and>
       (\<forall>k. pos \<le> k \<and> k < v_length v \<longrightarrow> compare key (items v ! k) < 0))"
proof -
  have len: "v_length v \<le> length (v_contents v)" using wf by (simp add: vec_wf_def)
  have loop: "base + lim \<le> v_length v \<Longrightarrow>
      bsearch_loop compare key (v_contents v) base lim c = bsearch_loop compare key (items v) base lim c" for base lim c
  proof (induction lim arbitrary: base c rule: less_induct)
    case (less lim)
    show ?case
    proof (cases "lim = 0")
      case True
      then show ?thesis by (simp add: bsearch_loop.simps)
    next
      case False
      have part: "base + lim div 2 < v_length v" using less.prems False by simp
      then have "items v ! (base + lim div 2) = v_contents v ! (base + lim div 2)" by (simp add: items_def)
      moreover have "base + lim div 2 + 1 + (lim - 1) div 2 \<le> v_length v"
        using less.prems False by presburger
      moreover have "base + lim div 2 \<le> v_length v" using part by simp
      ultimately show ?thesis
        using False part len wf less.IH [of "(lim - 1) div 2"] less.IH [of "lim div 2"]
        by (subst (1 2) bsearch_loop.simps) (simp add: Let_def)
    qed
  qed
  have "git__bsearch (v_contents v) (v_length v) key compare = git__bsearch (items v) (length (items v)) key compare"
    using loop [of 0 "v_length v" "-1"] wf by (simp add: git__bsearch_def)
  then show ?thesis
    using git__bsearch_spec [OF ks refl] wf by simp
qed

lemma git_vector_insert_sorted_spec:
  assumes env: "cells_env al" and wf: "vec_wf v" and fl: "flag_ok v" and c: "v_cmp v = Some cmp" and cm: "total_cmp cmp"
    and n: "v_length v \<le> TSORT_LIMIT"
  shows "\<exists>v'. git_vector_insert_sorted al v x None = Some (0, v') \<and> vec_wf v' \<and> flag_ok v' \<and> v_cmp v' = Some cmp \<and>
    git_vector_is_sorted v' \<and> sorted_by cmp (items v') \<and> mset (items v') = add_mset x (mset (items v))"
proof -
  obtain v1 where v1: "(if \<not> git_vector_is_sorted v then git_vector_sort al v else Some v) = Some v1" "vec_wf v1"
      "v_cmp v1 = Some cmp" "v_length v1 = v_length v" "git_vector_is_sorted v1" "sorted_by cmp (items v1)"
      "mset (items v1) = mset (items v)"
  proof (cases "git_vector_is_sorted v")
    case True
    then show ?thesis using that [of v] wf fl c by (auto simp: flag_ok_def)
  next
    case False
    obtain w where w: "git_vector_sort al v = Some w" "vec_wf w" "v_cmp w = v_cmp v" "v_length w = v_length v"
        "git_vector_is_sorted w" "sorted_by cmp (items w)" "stable_eq cmp (items v) (items w)"
      using git_vector_sort_spec [OF env wf fl _ n] c cm by auto
    then show ?thesis using that [of w] False c stable_eq_mset [OF cm w(7)] by simp
  qed
  have al: "good_alloc al" "total_alloc al" using env by (auto simp: cells_env_def)
  have "v_length v1 < VEC_LIMIT" using n v1(4) by (simp add: TSORT_LIMIT_def VEC_LIMIT_def)
  then obtain v2 where v2:
      "(if v_length v1 \<ge> v_alloc_size v1 then resize_vector al v1 (compute_new_size v1) else Some (0, v1)) = Some (0, v2)"
      "vec_wf v2" "items v2 = items v1" "v_length v2 < v_alloc_size v2" "v_length v2 = v_length v1" "v_cmp v2 = v_cmp v1"
      "v_flags v2 = v_flags v1"
    by (rule vec_room_total [OF env v1(2)])
  let ?xs = "items v1"
  have ks: "key_sorted cmp x (items v2)" using key_sorted_cmp [OF cm v1(6)] v2(3) by simp
  obtain r pos where b: "git__bsearch (v_contents v2) (v_length v2) x cmp = Some (r, pos)" "pos \<le> v_length v2"
      "r = 0 \<and> pos < v_length v2 \<and> cmp x (items v2 ! pos) = 0 \<or>
       r = GIT_ENOTFOUND \<and> (\<forall>k < pos. cmp x (items v2 ! k) > 0) \<and> (\<forall>k. pos \<le> k \<and> k < v_length v2 \<longrightarrow> cmp x (items v2 ! k) < 0)"
    using bsearch_items [OF v2(2) ks] by blast
  let ?m = "v_contents v2" and ?n = "v_length v2"
  have len: "?n < length ?m" using v2(2,4) by (simp add: vec_wf_def)
  let ?tail = "take (?n - pos) (drop pos ?m)"
  let ?m1 = "take (pos + 1) ?m @ ?tail @ drop (?n + 1) ?m"
  let ?v3 = "v2\<lparr>v_contents := ?m1[pos := x], v_length := ?n + 1\<rparr>"
  have tail: "length ?tail = ?n - pos" "pos + 1 + length ?tail = ?n + 1" using len b(2) by auto
  have "vec_write v2 (pos + 1) ?tail = Some (v2\<lparr>v_contents := ?m1\<rparr>)"
    using vec_write_spec [OF v2(2), of "pos + 1" ?tail] tail v2(4) by simp
  moreover have lm1: "length ?m1 = length ?m" using len b(2) by simp
  ultimately have ins: "git_vector_insert_sorted al v x None = Some (0, ?v3)"
    using c v1(1) v2(1) b(1,2) len by (simp add: git_vector_insert_sorted_def vec_put_def)
  have it: "items ?v3 = take pos ?xs @ x # drop pos ?xs"
  proof -
    have cut: "take (?n + 1) (P @ x # T @ R) = P @ x # T" if "length P = pos" "length T = ?n - pos" for P T R
      using that b(2) by (simp add: Suc_diff_le)
    have m1: "?m1[pos := x] = take pos ?m @ x # ?tail @ drop (?n + 1) ?m"
      using len b(2) by (simp add: take_Suc_conv_app_nth list_update_append)
    have "take (?n + 1) (?m1[pos := x]) = take pos ?m @ x # ?tail"
      unfolding m1 using len b(2) by (intro cut) simp_all
    also have "\<dots> = take pos ?xs @ x # drop pos ?xs"
      unfolding v2(3) [symmetric] using b(2) by (simp add: items_def drop_take min_def)
    finally show ?thesis by (simp only: items_update)
  qed
  have idx: "\<forall>k < pos. cmp x (?xs ! k) \<ge> 0" "\<forall>k. pos \<le> k \<and> k < length ?xs \<longrightarrow> cmp x (?xs ! k) \<le> 0"
  proof -
    have nth: "k < l \<Longrightarrow> l < length ?xs \<Longrightarrow> cmp (?xs ! k) (?xs ! l) \<le> 0" for k l
      using v1(6) by (auto dest: sorted_wrt_nth_less)
    have "(\<forall>k < pos. cmp x (?xs ! k) \<ge> 0) \<and> (\<forall>k. pos \<le> k \<and> k < length ?xs \<longrightarrow> cmp x (?xs ! k) \<le> 0)"
      using b(3)
    proof
      assume eq: "r = 0 \<and> pos < ?n \<and> cmp x (items v2 ! pos) = 0"
      then have x: "cmp x (?xs ! pos) = 0" "cmp (?xs ! pos) x = 0" "pos < length ?xs"
        using v2 v1(2) total_cmp_flip(2) [OF cm] by auto
      show ?thesis
      proof (intro conjI allI impI)
        fix k assume "k < pos"
        then show "cmp x (?xs ! k) \<ge> 0"
          using nth [of k pos] x total_cmp_trans [OF cm, of "?xs ! k" "?xs ! pos" x] total_cmp_le [OF cm] by auto
      next
        fix k assume "pos \<le> k \<and> k < length ?xs"
        then show "cmp x (?xs ! k) \<le> 0"
          using nth [of pos k] x total_cmp_trans [OF cm, of x "?xs ! pos" "?xs ! k"] by (cases "k = pos") auto
      qed
    qed (use v2 v1(2) in \<open>auto intro: less_imp_le\<close>)
    then show "\<forall>k < pos. cmp x (?xs ! k) \<ge> 0" "\<forall>k. pos \<le> k \<and> k < length ?xs \<longrightarrow> cmp x (?xs ! k) \<le> 0" by auto
  qed
  have "sorted_by cmp (items ?v3)"
    unfolding it using b(2) v2(5) v1(2) idx by (intro sorted_insert_at [OF cm v1(6)]) auto
  moreover have "mset (items ?v3) = add_mset x (mset (items v))"
    unfolding it using v1(7) by (metis append_take_drop_id mset.simps(2) mset_append union_mset_add_mset_right)
  moreover have "vec_wf ?v3" using v2(2,4) lm1 by (simp add: vec_wf_def)
  moreover have "git_vector_is_sorted ?v3" using v1(5) v2(7) by (simp add: git_vector_is_sorted_def)
  ultimately show ?thesis
    using ins v1(3) v2(6) by (auto simp: flag_ok_def)
qed

section \<open>Removal\<close>

lemma sorted_wrt_sublist: "sorted_wrt P (a @ b @ c) \<Longrightarrow> sorted_wrt P (a @ c)"
  by (auto simp: sorted_wrt_append)

lemma flag_ok_shrink:
  assumes "flag_ok v" and "v_flags v' = v_flags v" and "v_cmp v' = v_cmp v"
    and "\<And>cmp. sorted_by cmp (items v) \<Longrightarrow> sorted_by cmp (items v')"
  shows "flag_ok v'"
  using assms by (auto simp: flag_ok_def git_vector_is_sorted_def)

lemma git_vector_remove_range_spec:
  assumes wf: "vec_wf v" and fl: "flag_ok v" and n: "0 < n" "idx + n \<le> v_length v"
  shows "\<exists>v'. git_vector_remove_range v idx n = Some (0, v') \<and> vec_wf v' \<and> flag_ok v' \<and> v_cmp v' = v_cmp v \<and>
    items v' = take idx (items v) @ drop (idx + n) (items v)"
proof -
  define m where "m = v_contents v"
  define l where "l = v_length v"
  have len: "l \<le> v_alloc_size v" "v_alloc_size v \<le> length m" "idx + n < 2 ^ 64" "v_alloc_size v < 2 ^ 60"
    using wf n by (auto simp: vec_wf_def m_def l_def)
  define t where "t = take (l - (idx + n)) (drop (idx + n) m)"
  have t: "length t = l - (idx + n)" using len by (simp add: t_def)
  define m1 where "m1 = take idx m @ t @ drop (idx + length t) m"
  have m1: "length m1 = length m" "take (l - n) m1 = take idx m @ t"
    using len n t by (auto simp: m1_def l_def)
  define m2 where "m2 = take (l - n) m1 @ replicate n None @ drop l m1"
  have lt: "length (take (l - n) m1) = l - n" using m1(1) len by simp
  have "l - n + (n + (length m - l)) = length m" using n len by (simp add: l_def)
  then have m2: "length m2 = length m" "take (l - n) m2 = take idx m @ t"
    by (simp_all only: m2_def length_append lt length_replicate length_drop m1(1))
      (metis append_eq_conv_conj lt m1(2))
  have "idx + length t \<le> v_alloc_size v" using t n len unfolding l_def by linarith
  then have w1: "vec_write v idx t = Some (v\<lparr>v_contents := m1\<rparr>)"
    using vec_write_spec [OF wf, of idx t] by (simp add: m1_def m_def)
  have wf1: "vec_wf (v\<lparr>v_contents := m1\<rparr>)" using wf m1 by (simp add: vec_wf_def m_def)
  have "l - n + n = l" using n by (simp add: l_def)
  then have w2: "vec_write (v\<lparr>v_contents := m1\<rparr>) (l - n) (replicate n None) = Some (v\<lparr>v_contents := m2\<rparr>)"
    using vec_write_spec [OF wf1, of "l - n" "replicate n None"] len by (simp add: m2_def)
  have run: "git_vector_remove_range v idx n = Some (0, v\<lparr>v_contents := m2, v_length := l - n\<rparr>)"
    using n len w1 w2 by (simp add: git_vector_remove_range_def t_def m_def l_def)
  have it: "items (v\<lparr>v_contents := m2, v_length := l - n\<rparr>) = take idx (items v) @ drop (idx + n) (items v)"
    using n by (simp add: items_update m2) (simp add: items_def t_def m_def l_def drop_take min_def)
  have "flag_ok (v\<lparr>v_contents := m2, v_length := l - n\<rparr>)"
  proof (rule flag_ok_shrink [OF fl])
    fix cmp assume "sorted_by cmp (items v)"
    moreover have "items v = take idx (items v) @ take n (drop idx (items v)) @ drop (idx + n) (items v)"
      by (metis add.commute append_take_drop_id drop_drop)
    ultimately show "sorted_by cmp (items (v\<lparr>v_contents := m2, v_length := l - n\<rparr>))"
      unfolding it by (metis sorted_wrt_sublist)
  qed simp_all
  moreover have "vec_wf (v\<lparr>v_contents := m2, v_length := l - n\<rparr>)"
    using len m2(1) by (auto simp: vec_wf_def)
  ultimately show ?thesis using run it by simp
qed

lemma git_vector_remove_spec:
  assumes wf: "vec_wf v" and fl: "flag_ok v" and n: "idx < v_length v"
  shows "\<exists>v'. git_vector_remove v idx = Some (0, v') \<and> vec_wf v' \<and> flag_ok v' \<and> v_cmp v' = v_cmp v \<and>
    items v' = take idx (items v) @ drop (idx + 1) (items v)"
proof -
  let ?m = "v_contents v" and ?l = "v_length v"
  have len: "?l \<le> length ?m" using wf by (simp add: vec_wf_def)
  let ?t = "take (?l - idx - 1) (drop (idx + 1) ?m)"
  have t: "length ?t = ?l - idx - 1" using len by simp
  let ?m1 = "take idx ?m @ ?t @ drop (idx + length ?t) ?m"
  let ?v1 = "v\<lparr>v_contents := ?m1, v_length := ?l - 1\<rparr>"
  have m1: "length ?m1 = length ?m" using len n t by simp
  have w1: "vec_write v idx ?t = Some (v\<lparr>v_contents := ?m1\<rparr>)"
  proof -
    have "?l \<le> v_alloc_size v" using wf by (simp add: vec_wf_def)
    then have "idx + length ?t \<le> v_alloc_size v" using t n by linarith
    then show ?thesis by (rule vec_write_spec [OF wf])
  qed
  have run: "git_vector_remove v idx = Some (0, ?v1)"
    using n w1 by (simp add: git_vector_remove_def)
  have it: "items ?v1 = take idx (items v) @ drop (idx + 1) (items v)"
  proof -
    have "items ?v1 = take idx ?m @ ?t" using n len t by (simp add: items_def)
    then show ?thesis using n by (simp add: items_def drop_take min_def)
  qed
  have "flag_ok ?v1"
  proof (rule flag_ok_shrink [OF fl])
    fix cmp assume "sorted_by cmp (items v)"
    moreover have "items v = take idx (items v) @ take 1 (drop idx (items v)) @ drop (idx + 1) (items v)"
      by (metis add.commute append_take_drop_id drop_drop)
    ultimately show "sorted_by cmp (items ?v1)"
      unfolding it by (metis sorted_wrt_sublist)
  qed simp_all
  moreover have "vec_wf ?v1" using wf m1 by (auto simp: vec_wf_def)
  ultimately show ?thesis using run it by simp
qed

text \<open>What \<open>git_vector_uniq\<close> keeps: the last of every group of equal neighbours.\<close>

fun last_of_groups :: "('a \<Rightarrow> 'a \<Rightarrow> int) \<Rightarrow> 'a list \<Rightarrow> 'a list" where
  "last_of_groups cmp (x # y # xs) = (if cmp x y = 0 then last_of_groups cmp (y # xs) else x # last_of_groups cmp (y # xs))"
| "last_of_groups cmp xs = xs"

lemma uniq_loop_spec:
  assumes "i < j" and "j \<le> n" and "n \<le> length m"
  shows "\<exists>i' m'. uniq_loop cmp n i j m = (i', m') \<and> length m' = length m \<and> i' < n \<and>
    take (i' + 1) m' = take i m @ last_of_groups cmp (m ! i # take (n - j) (drop j m))"
  using assms
proof (induction cmp n i j m rule: uniq_loop.induct)
  case (1 cmp n i j m)
  show ?case
  proof (cases "j < n")
    case False
    then show ?thesis using "1.prems" by (subst uniq_loop.simps) (simp add: take_Suc_conv_app_nth)
  next
    case True
    have j: "drop j m = m ! j # drop (j + 1) m" "n - j = Suc (n - (j + 1))"
      using True "1.prems" by (simp_all add: Cons_nth_drop_Suc)
    show ?thesis
    proof (cases "cmp (m ! i) (m ! j) = 0")
      case eq: True
      have "\<exists>i' m'. uniq_loop cmp n i (j + 1) (m[i := m ! j]) = (i', m') \<and> length m' = length (m[i := m ! j]) \<and> i' < n \<and>
          take (i' + 1) m' = take i (m[i := m ! j]) @
            last_of_groups cmp ((m[i := m ! j]) ! i # take (n - (j + 1)) (drop (j + 1) (m[i := m ! j])))"
        using True eq "1.prems" by (intro "1.IH"(1)) auto
      then show ?thesis
        using True eq "1.prems" j by (subst uniq_loop.simps) simp
    next
      case ne: False
      have "\<exists>i' m'. uniq_loop cmp n (i + 1) (j + 1) (m[i + 1 := m ! j]) = (i', m') \<and> length m' = length (m[i + 1 := m ! j]) \<and> i' < n \<and>
          take (i' + 1) m' = take (i + 1) (m[i + 1 := m ! j]) @
            last_of_groups cmp ((m[i + 1 := m ! j]) ! (i + 1) # take (n - (j + 1)) (drop (j + 1) (m[i + 1 := m ! j])))"
        using True ne "1.prems" by (intro "1.IH"(2)) auto
      then show ?thesis
        using True ne "1.prems" j by (subst uniq_loop.simps) (simp add: take_Suc_conv_app_nth)
    qed
  qed
qed

lemma last_of_groups_hd: "xs \<noteq> [] \<Longrightarrow> last_of_groups cmp xs \<noteq> [] \<and> set (last_of_groups cmp xs) \<subseteq> set xs"
  by (induction cmp xs rule: last_of_groups.induct) auto

text \<open>On a sorted list the result is strictly increasing and represents every element.\<close>

lemma last_of_groups_spec:
  "total_cmp cmp \<Longrightarrow> sorted_by cmp xs \<Longrightarrow>
    sorted_wrt (\<lambda>x y. cmp x y < 0) (last_of_groups cmp xs) \<and> (\<forall>x \<in> set xs. \<exists>y \<in> set (last_of_groups cmp xs). cmp x y = 0)"
proof (induction cmp xs rule: last_of_groups.induct)
  case (1 cmp x y xs)
  note cm = "1.prems"(1)
  show ?case
  proof (cases "cmp x y = 0")
    case True
    then have IH: "sorted_wrt (\<lambda>x y. cmp x y < 0) (last_of_groups cmp (y # xs))"
      "\<forall>x \<in> set (y # xs). \<exists>z \<in> set (last_of_groups cmp (y # xs)). cmp x z = 0"
      using 1 by auto
    obtain z where z: "z \<in> set (last_of_groups cmp (y # xs))" "cmp y z = 0" using IH(2) by auto
    have "cmp x z \<le> 0" "cmp z x \<le> 0"
      using True z total_cmp_trans [OF cm, of x y z] total_cmp_trans [OF cm, of z y x]
        total_cmp_flip(2) [OF cm, of x y] total_cmp_flip(2) [OF cm, of y z] by auto
    then have "cmp x z = 0" using total_cmp_le [OF cm, of z x] by simp
    then show ?thesis using True IH z by auto
  next
    case False
    then have IH: "sorted_wrt (\<lambda>x y. cmp x y < 0) (last_of_groups cmp (y # xs))"
      "\<forall>x \<in> set (y # xs). \<exists>z \<in> set (last_of_groups cmp (y # xs)). cmp x z = 0"
      using 1 by auto
    have xy: "cmp x y < 0" using False "1.prems"(2) by auto
    have "cmp x z < 0" if "z \<in> set (y # xs)" for z
      using that "1.prems"(2) total_cmp_trans_less(1) [OF cm xy] xy by auto
    then have "\<forall>z \<in> set (last_of_groups cmp (y # xs)). cmp x z < 0"
      using last_of_groups_hd [of "y # xs" cmp] by blast
    then show ?thesis using False IH total_cmp_refl [OF cm] by auto
  qed
qed (auto simp: total_cmp_refl)

lemma git_vector_uniq_spec:
  assumes env: "cells_env al" and wf: "vec_wf v" and fl: "flag_ok v" and c: "v_cmp v = Some cmp" and cm: "total_cmp cmp"
    and n: "v_length v \<le> TSORT_LIMIT"
  shows "\<exists>v' xs. git_vector_uniq al v = Some v' \<and> vec_wf v' \<and> v_cmp v' = Some cmp \<and>
    sorted_by cmp xs \<and> mset xs = mset (items v) \<and> items v' = last_of_groups cmp xs"
proof (cases "v_length v \<le> 1")
  case True
  then have "items v = [] \<or> (\<exists>x. items v = [x])"
    using length_items [OF wf] by (cases "items v") (auto simp flip: length_0_conv)
  then show ?thesis
    using True wf c by (auto simp: git_vector_uniq_def intro!: exI [of _ "items v"])
next
  case False
  obtain w where w: "git_vector_sort al v = Some w" "vec_wf w" "v_cmp w = v_cmp v" "v_length w = v_length v"
      "sorted_by cmp (items w)" "stable_eq cmp (items v) (items w)"
    using git_vector_sort_spec [OF env wf fl _ n] c cm by auto
  have len: "v_length w \<le> length (v_contents w)" using w(2) by (simp add: vec_wf_def)
  obtain i m where u: "uniq_loop cmp (v_length w) 0 1 (v_contents w) = (i, m)" "length m = length (v_contents w)"
      "i < v_length w" "take (i + 1) m = last_of_groups cmp (v_contents w ! 0 # take (v_length w - 1) (drop 1 (v_contents w)))"
    using uniq_loop_spec [of 0 1 "v_length w" "v_contents w" cmp] len False w(4) by auto
  have "v_contents w ! 0 # take (v_length w - 1) (drop 1 (v_contents w)) = items w"
    using len False w(4) by (cases "v_contents w"; cases "v_length v") (auto simp: items_def)
  then have g: "take (i + 1) m = last_of_groups cmp (items w)" using u(4) by simp
  have k: "v_length w - (v_length w - i - 1) = i + 1" using u(3) by simp
  let ?v = "w\<lparr>v_contents := m, v_length := i + 1\<rparr>"
  have run: "git_vector_uniq al v = Some ?v"
    using False w(1,3) c len u(1) k by (simp add: git_vector_uniq_def)
  have "vec_wf ?v" using w(2) u(2,3) by (simp add: vec_wf_def)
  moreover have "items ?v = last_of_groups cmp (items w)" using g by (simp add: items_def)
  moreover have "mset (items w) = mset (items v)" using stable_eq_mset [OF cm w(6)] by simp
  ultimately show ?thesis using run w(3,5) c by auto
qed

section \<open>Properties\<close>

text \<open>\<open>git_vector_insert\<close> appends the element, growing the array when it is full, and clears the sorted flag unless the
  vector has at most one element; a refused allocation leaves the vector as it was and returns -1.\<close>

theorem git_vector_insert_contract:
  assumes "good_alloc al" and "vec_wf v" and "v_length v < VEC_LIMIT"
  shows "vec_outcome al v (items v @ [x]) (git_vector_insert al v x)"
  by (rule git_vector_insert_outcome [OF assms])

theorem git_vector_insert_contract_witness:
  "\<exists>v0 v1. git_vector_init (fill_alloc None) 4 None = Some (0, v0) \<and>
     git_vector_insert (fill_alloc None) v0 (Some (7 :: int)) = Some (0, v1) \<and> items v1 = [Some 7]"
proof -
  let ?v0 = "\<lparr>v_alloc_size = 8, v_cmp = None, v_contents = replicate 8 (None :: int option), v_length = 0,
      v_flags = GIT_VECTOR_SORTED\<rparr>"
  have init: "git_vector_init (fill_alloc None) 4 None = Some (0, ?v0)"
    by (simp add: git_vector_init_def MIN_ALLOCSIZE_def resize_vector_def git__reallocarray_def realloc_cells_def fill_alloc_def)
  have "vec_outcome (fill_alloc None) ?v0 (items ?v0 @ [Some 7]) (git_vector_insert (fill_alloc None) ?v0 (Some 7))"
    by (rule git_vector_insert_contract) (simp_all add: vec_wf_def VEC_LIMIT_def)
  then show ?thesis
    using init vec_outcome_total by (fastforce simp: items_def)
qed


definition int_ptr_cmp :: "int ptr_cmp" where
  "int_ptr_cmp a b = (case a of None \<Rightarrow> 0 | Some x \<Rightarrow> x) - (case b of None \<Rightarrow> 0 | Some y \<Rightarrow> y)"

lemma total_int_ptr_cmp: "total_cmp int_ptr_cmp"
  by (auto simp: total_cmp_def int_ptr_cmp_def)


text \<open>\<open>git_vector_uniq\<close> leaves a strictly increasing vector: of every group of elements that compare equal exactly
  the last in the (stably) sorted order stays, and every element of the old vector is represented.\<close>

theorem git_vector_uniq_contract:
  assumes "cells_env al" and "vec_wf v" and "flag_ok v" and "v_cmp v = Some cmp" and "total_cmp cmp"
    and "v_length v \<le> TSORT_LIMIT"
  shows "\<exists>v'. git_vector_uniq al v = Some v' \<and> vec_wf v' \<and> sorted_wrt (\<lambda>x y. cmp x y < 0) (items v') \<and>
    set (items v') \<subseteq> set (items v) \<and> (\<forall>x. x \<in> set (items v) \<longrightarrow> (\<exists>y. y \<in> set (items v') \<and> cmp x y = 0))"
proof -
  obtain v' xs where u: "git_vector_uniq al v = Some v'" "vec_wf v'" "sorted_by cmp xs" "mset xs = mset (items v)"
      "items v' = last_of_groups cmp xs"
    using git_vector_uniq_spec [OF assms] by blast
  have "set xs = set (items v)" using u(4) by (rule mset_eq_setD)
  then show ?thesis
    using u last_of_groups_spec [OF assms(5) u(3)] last_of_groups_hd [of xs cmp] by (cases "xs = []") auto
qed

theorem git_vector_uniq_contract_witness:
  "\<exists>v'. git_vector_uniq (fill_alloc None)
      \<lparr>v_alloc_size = 3, v_cmp = Some int_ptr_cmp, v_contents = [Some 9, Some 3, Some 9], v_length = 3, v_flags = 0\<rparr> = Some v' \<and>
     sorted_wrt (\<lambda>x y. int_ptr_cmp x y < 0) (items v')"
  using git_vector_uniq_contract [of "fill_alloc None"
      "\<lparr>v_alloc_size = 3, v_cmp = Some int_ptr_cmp, v_contents = [Some 9, Some 3, Some 9], v_length = 3, v_flags = 0\<rparr>" int_ptr_cmp]
  by (auto simp: vec_wf_def flag_ok_def git_vector_is_sorted_def total_int_ptr_cmp TSORT_LIMIT_def)

text \<open>\<open>git_vector_remove\<close> and \<open>git_vector_remove_range\<close> take out exactly the stated elements, keep the order of the
  rest, stay inside the block and keep the sorted flag truthful; an index outside the vector is GIT_ENOTFOUND.\<close>

theorem git_vector_remove_contract:
  assumes "vec_wf v" and "flag_ok v"
  shows "(if idx < v_length v
      then \<exists>v'. git_vector_remove v idx = Some (0, v') \<and> vec_wf v' \<and> flag_ok v' \<and>
        items v' = take idx (items v) @ drop (idx + 1) (items v)
      else git_vector_remove v idx = Some (GIT_ENOTFOUND, v)) \<and>
    (0 < n \<and> idx + n \<le> v_length v \<longrightarrow>
      (\<exists>v'. git_vector_remove_range v idx n = Some (0, v') \<and> vec_wf v' \<and> flag_ok v' \<and>
        items v' = take idx (items v) @ drop (idx + n) (items v)))"
  using git_vector_remove_spec [OF assms, of idx] git_vector_remove_range_spec [OF assms, of n idx]
  by (auto simp: git_vector_remove_def)

theorem git_vector_remove_contract_witness:
  "\<exists>v'. git_vector_remove_range
      \<lparr>v_alloc_size = 4, v_cmp = None, v_contents = [Some 1, Some 2, Some 3, Some (4 :: int)], v_length = 4, v_flags = 0\<rparr> 1 2 = Some (0, v') \<and>
     items v' = [Some 1, Some 4]"
  using git_vector_remove_contract [of
      "\<lparr>v_alloc_size = 4, v_cmp = None, v_contents = [Some 1, Some 2, Some 3, Some (4 :: int)], v_length = 4, v_flags = 0\<rparr>" 1 2]
  by (auto simp: vec_wf_def flag_ok_def items_def)

end
