(* ===== verification/PQueue.thy ===== *)
theory PQueue
  imports Vector
begin

text \<open>
  The priority queue of pqueue.c: a binary min-heap in a \<open>git_vector\<close>, optionally of fixed
  size, in which case it keeps the greatest elements inserted.
\<close>

section \<open>The code\<close>

type_synonym 'a git_pqueue = "'a git_vector"

definition GIT_PQUEUE_FIXED_SIZE :: u32 where
  "GIT_PQUEUE_FIXED_SIZE = push_bit 1 GIT_VECTOR_FLAG_MAX"

definition PQUEUE_LCHILD_OF :: "nat \<Rightarrow> nat" where
  "PQUEUE_LCHILD_OF i = i * 2 + 1"

definition PQUEUE_PARENT_OF :: "nat \<Rightarrow> nat" where
  "PQUEUE_PARENT_OF i = (i - 1) div 2"

definition git_pqueue_init :: "'a cells \<Rightarrow> u32 \<Rightarrow> nat \<Rightarrow> 'a ptr_cmp option \<Rightarrow> (int \<times> 'a git_pqueue) option" where
  "git_pqueue_init al flags init_size cmp =
     map_option (\<lambda>(error, pq).
       if error = 0 then
         let pq1 = pq\<lparr>v_flags := v_flags pq OR flags\<rparr> in
         (error, if flags AND GIT_PQUEUE_FIXED_SIZE \<noteq> 0 \<and> init_size > 0 then pq1\<lparr>v_alloc_size := init_size\<rparr> else pq1)
       else (error, pq))
     (git_vector_init al init_size cmp)"

text \<open>The loop of \<open>pqueue_up\<close> on the cells \<open>m\<close>, with the moving element in \<open>kid\<close>.\<close>

function up_loop :: "'a ptr_cmp \<Rightarrow> 'a option list \<Rightarrow> nat \<Rightarrow> 'a option \<Rightarrow> 'a option list" where
  "up_loop cmp m el kid =
     (if el > 0 then
        let parent = m ! PQUEUE_PARENT_OF el in
        if cmp parent kid \<le> 0 then m[el := kid]
        else up_loop cmp (m[el := parent]) (PQUEUE_PARENT_OF el) kid
      else m[el := kid])"
  by pat_completeness auto
termination
  by (relation "measure (\<lambda>(cmp, m, el, kid). el)") (auto simp: PQUEUE_PARENT_OF_def)

definition pqueue_up :: "'a git_pqueue \<Rightarrow> nat \<Rightarrow> 'a git_pqueue option" where
  "pqueue_up pq el =
     (case v_cmp pq of
        None \<Rightarrow> if el > 0 then None else vec_put pq el (git_vector_get pq el)
      | Some cmp \<Rightarrow>
          if length (v_contents pq) \<le> el then None
          else Some (pq\<lparr>v_contents := up_loop cmp (v_contents pq) el (git_vector_get pq el)\<rparr>))"

text \<open>\<open>git_vector_get\<close> on the cells \<open>m\<close> of a vector of length \<open>n\<close>.\<close>

definition cell_get :: "nat \<Rightarrow> 'a option list \<Rightarrow> nat \<Rightarrow> 'a option" where
  "cell_get n m i = (if i < n then m ! i else None)"

text \<open>The smaller child of \<open>el\<close> and its index; NULL when \<open>el\<close> has no left child.\<close>

definition min_kid :: "'a ptr_cmp \<Rightarrow> nat \<Rightarrow> 'a option list \<Rightarrow> nat \<Rightarrow> 'a option \<times> nat" where
  "min_kid cmp n m el =
     (let kid_el = PQUEUE_LCHILD_OF el; kid = cell_get n m kid_el; rkid = cell_get n m (kid_el + 1) in
      if kid \<noteq> None \<and> rkid \<noteq> None \<and> cmp kid rkid > 0 then (rkid, kid_el + 1) else (kid, kid_el))"

function down_loop :: "'a ptr_cmp \<Rightarrow> nat \<Rightarrow> 'a option list \<Rightarrow> nat \<Rightarrow> 'a option \<Rightarrow> 'a option list" where
  "down_loop cmp n m el parent =
     (case min_kid cmp n m el of (kid, kid_el) \<Rightarrow>
        if kid = None then m[el := parent]
        else if cmp parent kid \<le> 0 then m[el := parent]
        else down_loop cmp n (m[el := kid]) kid_el parent)"
  by pat_completeness auto
termination
  by (relation "measure (\<lambda>(cmp, n, m, el, parent). n - el)")
    (auto simp: min_kid_def Let_def cell_get_def PQUEUE_LCHILD_OF_def split: if_splits)

declare up_loop.simps [simp del] down_loop.simps [simp del]

definition pqueue_down :: "'a git_pqueue \<Rightarrow> nat \<Rightarrow> 'a git_pqueue option" where
  "pqueue_down pq el =
     (if length (v_contents pq) \<le> el \<or> length (v_contents pq) < v_length pq then None
      else case v_cmp pq of
        None \<Rightarrow> if cell_get (v_length pq) (v_contents pq) (PQUEUE_LCHILD_OF el) = None then Some pq else None
      | Some cmp \<Rightarrow>
          Some (pq\<lparr>v_contents := down_loop cmp (v_length pq) (v_contents pq) el (git_vector_get pq el)\<rparr>))"

definition git_pqueue_pop :: "'a git_pqueue \<Rightarrow> ('a option \<times> 'a git_pqueue) option" where
  "git_pqueue_pop pq =
     (let rval = git_vector_get pq 0 in
      if v_length pq > 1 then do {
        pq1 \<leftarrow> vec_put pq 0 (git_vector_last pq);
        pq2 \<leftarrow> pqueue_down (git_vector_pop pq1) 0;
        Some (rval, pq2) }
      else Some (rval, git_vector_pop pq))"

definition pqueue_add :: "'a cells \<Rightarrow> 'a git_pqueue \<Rightarrow> 'a option \<Rightarrow> (int \<times> 'a git_pqueue) option" where
  "pqueue_add al pq item = do {
     (error, pq1) \<leftarrow> git_vector_insert al pq item;
     if error = 0 then map_option (Pair error) (pqueue_up pq1 (v_length pq1 - 1)) else Some (error, pq1) }"

definition git_pqueue_insert :: "'a cells \<Rightarrow> 'a git_pqueue \<Rightarrow> 'a option \<Rightarrow> (int \<times> 'a git_pqueue) option" where
  "git_pqueue_insert al pq item =
     (if v_flags pq AND GIT_PQUEUE_FIXED_SIZE \<noteq> 0 \<and> v_length pq \<ge> v_alloc_size pq then
        case v_cmp pq of
          None \<Rightarrow> None
        | Some cmp \<Rightarrow>
            if cmp item (git_vector_get pq 0) \<le> 0 then Some (0, pq)
            else do { (x, pq1) \<leftarrow> git_pqueue_pop pq; pqueue_add al pq1 item }
      else pqueue_add al pq item)"

section \<open>The heap\<close>

definition heap :: "('a \<Rightarrow> 'a \<Rightarrow> int) \<Rightarrow> 'a list \<Rightarrow> bool" where
  "heap cmp xs \<longleftrightarrow> (\<forall>i. 0 < i \<and> i < length xs \<longrightarrow> cmp (xs ! ((i - 1) div 2)) (xs ! i) \<le> 0)"

lemma heap_root:
  assumes cm: "total_cmp cmp" and h: "heap cmp xs" and "i < length xs"
  shows "cmp (xs ! 0) (xs ! i) \<le> 0"
  using assms(3)
proof (induction i rule: less_induct)
  case (less i)
  show ?case
  proof (cases "i = 0")
    case True
    then show ?thesis using total_cmp_refl [OF cm, of "xs ! 0"] by simp
  next
    case False
    then have "(i - 1) div 2 < i" by simp
    then have "cmp (xs ! 0) (xs ! ((i - 1) div 2)) \<le> 0" using less by simp
    moreover have "cmp (xs ! ((i - 1) div 2)) (xs ! i) \<le> 0"
      using h False less.prems by (simp add: heap_def)
    ultimately show ?thesis by (rule total_cmp_trans [OF cm])
  qed
qed

lemma swap_mset: "i < length xs \<Longrightarrow> j < length xs \<Longrightarrow> mset (xs[i := xs ! j, j := xs ! i]) = mset xs"
  by (rule mset_swap)

text \<open>Both loops only touch the first \<open>n\<close> cells.\<close>

lemma up_loop_append:
  "el < length xs \<Longrightarrow> up_loop cmp (xs @ ys) el kid = up_loop cmp xs el kid @ ys"
proof (induction cmp xs el kid rule: up_loop.induct)
  case (1 cmp xs el kid)
  have p: "el > 0 \<Longrightarrow> PQUEUE_PARENT_OF el < length xs" using 1(2) by (simp add: PQUEUE_PARENT_OF_def)
  show ?case
    using 1 p by (subst (1 2) up_loop.simps) (auto simp: Let_def nth_append list_update_append)
qed

lemma min_kid_append: "n = length xs \<Longrightarrow> min_kid cmp n (xs @ ys) el = min_kid cmp n xs el"
  by (simp add: min_kid_def cell_get_def nth_append Let_def)

lemma min_kid_index:
  "min_kid cmp n m el = (kid, k) \<Longrightarrow> kid \<noteq> None \<Longrightarrow> k < n \<and> kid = m ! k \<and> el < k \<and> 0 < k \<and> (k - 1) div 2 = el"
  by (auto simp: min_kid_def cell_get_def PQUEUE_LCHILD_OF_def Let_def split: if_splits)

lemma down_loop_append:
  "n = length xs \<Longrightarrow> el < length xs \<Longrightarrow> down_loop cmp n (xs @ ys) el parent = down_loop cmp n xs el parent @ ys"
proof (induction cmp n xs el parent rule: down_loop.induct)
  case (1 cmp n xs el parent)
  obtain kid k where k: "min_kid cmp n xs el = (kid, k)" by fastforce
  show ?case
  proof (cases "kid = None \<or> cmp parent kid \<le> 0")
    case True
    then show ?thesis
      using "1.prems" k by (subst (1 2) down_loop.simps) (auto simp: min_kid_append list_update_append)
  next
    case False
    have "down_loop cmp n (xs[el := kid] @ ys) k parent = down_loop cmp n (xs[el := kid]) k parent @ ys"
      using False "1.prems" k min_kid_index [OF k] by (intro "1.IH" [OF k [symmetric]]) auto
    then show ?thesis
      using False "1.prems" k by (subst (1 2) down_loop.simps) (auto simp: min_kid_append list_update_append)
  qed
qed

lemma up_loop_heap:
  assumes cm: "total_cmp cmp"
  shows "el < length m \<Longrightarrow>
    \<forall>i. 0 < i \<and> i < length m \<and> i \<noteq> el \<longrightarrow> cmp (m[el := kid] ! ((i - 1) div 2)) (m[el := kid] ! i) \<le> 0 \<Longrightarrow>
    \<forall>c. 0 < el \<and> 0 < c \<and> c < length m \<and> (c - 1) div 2 = el \<longrightarrow> cmp (m ! ((el - 1) div 2)) (m ! c) \<le> 0 \<Longrightarrow>
    heap cmp (up_loop cmp m el kid) \<and> mset (up_loop cmp m el kid) = mset (m[el := kid])"
proof (induction el arbitrary: m rule: less_induct)
  case (less el)
  show ?case
  proof (cases "el = 0")
    case True
    then have "up_loop cmp m el kid = m[el := kid]" by (subst up_loop.simps) simp
    then show ?thesis using less.prems(2) True by (auto simp: heap_def)
  next
    case False
    define p where "p = (el - 1) div 2"
    have p: "p < el" "PQUEUE_PARENT_OF el = p" using False by (auto simp: p_def PQUEUE_PARENT_OF_def)
    let ?x = "m ! p" and ?m1 = "m[el := m ! p]"
    show ?thesis
    proof (cases "cmp ?x kid \<le> 0")
      case True
      then have eq: "up_loop cmp m el kid = m[el := kid]" using False p by (subst up_loop.simps) simp
      have "cmp (m[el := kid] ! ((i - 1) div 2)) (m[el := kid] ! i) \<le> 0" if "0 < i" "i < length m" for i
        using less.prems(1,2) that True p by (cases "i = el") (auto simp: p_def)
      then show ?thesis by (simp add: eq heap_def)
    next
      case up: False
      then have kx: "cmp kid ?x \<le> 0" using total_cmp_le [OF cm, of kid ?x] by simp
      have eq: "up_loop cmp m el kid = up_loop cmp ?m1 p kid" using False p up by (subst up_loop.simps) simp
      have old: "cmp (m[el := kid] ! ((i - 1) div 2)) (m[el := kid] ! i) \<le> 0" if "0 < i" "i < length m" "i \<noteq> el" for i
        using less.prems(2) that by blast
      have par_x: "cmp ?x (m ! i) \<le> 0" if "0 < i" "i < length m" "(i - 1) div 2 = p" "i \<noteq> el" for i
        using old [OF that(1,2,4)] that p less.prems(1) by auto
      have a: "cmp (?m1[p := kid] ! ((i - 1) div 2)) (?m1[p := kid] ! i) \<le> 0" if i: "0 < i" "i < length ?m1" "i \<noteq> p" for i
      proof -
        consider (el) "i = el" | (kid) "i \<noteq> el" "(i - 1) div 2 = el" | (sib) "i \<noteq> el" "(i - 1) div 2 = p"
          | (other) "i \<noteq> el" "(i - 1) div 2 \<noteq> el" "(i - 1) div 2 \<noteq> p" by blast
        then show ?thesis
        proof cases
          case el
          then show ?thesis using kx p less.prems(1) by (simp add: p_def [symmetric, simplified])
        next
          case kid
          then show ?thesis using less.prems(1,3) False i p by (auto simp: p_def)
        next
          case sib
          then show ?thesis using par_x [of i] total_cmp_trans [OF cm kx, of "m ! i"] i p less.prems(1) by auto
        next
          case other
          then show ?thesis using old [of i] i p less.prems(1) by auto
        qed
      qed
      have b: "cmp (?m1 ! ((p - 1) div 2)) (?m1 ! c) \<le> 0"
        if c: "0 < p" "0 < c" "c < length ?m1" "(c - 1) div 2 = p" for c
      proof -
        have gp: "(p - 1) div 2 < p" "(p - 1) div 2 \<noteq> el" using c p by auto
        have px: "cmp (m ! ((p - 1) div 2)) ?x \<le> 0" using old [of p] c p gp less.prems(1) by auto
        show ?thesis
        proof (cases "c = el")
          case True
          then show ?thesis using px gp less.prems(1) by simp
        next
          case False
          then show ?thesis using total_cmp_trans [OF cm px par_x [of c]] c gp by simp
        qed
      qed
      have "heap cmp (up_loop cmp ?m1 p kid) \<and> mset (up_loop cmp ?m1 p kid) = mset (?m1[p := kid])"
        using less.IH [OF p(1), of ?m1] a b p less.prems(1) by auto
      moreover have sw: "?m1[p := kid] = (m[el := kid])[el := m[el := kid] ! p, p := m[el := kid] ! el]"
        using p less.prems(1) by simp
      moreover have "mset (?m1[p := kid]) = mset (m[el := kid])"
        unfolding sw using p less.prems(1) by (intro mset_swap) auto
      ultimately show ?thesis unfolding eq by simp
    qed
  qed
qed

lemma min_kid_least:
  assumes cm: "total_cmp cmp" and nn: "None \<notin> set m" and k: "min_kid cmp (length m) m el = (kid, k)" and "kid \<noteq> None"
    and c: "0 < c" "c < length m" "(c - 1) div 2 = el"
  shows "cmp kid (m ! c) \<le> 0"
proof -
  have c2: "c = PQUEUE_LCHILD_OF el \<or> c = PQUEUE_LCHILD_OF el + 1"
    using c by (auto simp: PQUEUE_LCHILD_OF_def)
  have "m ! i \<noteq> None" if "i < length m" for i using nn that by (metis nth_mem)
  then have "Suc (PQUEUE_LCHILD_OF el) < length m \<Longrightarrow> m ! Suc (PQUEUE_LCHILD_OF el) \<noteq> None" by blast
  then show ?thesis
    using c2 k assms(4) c(2) total_cmp_refl [OF cm] total_cmp_le [OF cm, of "m ! (PQUEUE_LCHILD_OF el + 1)" "m ! PQUEUE_LCHILD_OF el"]
    by (auto simp: min_kid_def cell_get_def Let_def split: if_splits)
qed

lemma down_loop_heap:
  assumes cm: "total_cmp cmp"
  shows "el < length m \<Longrightarrow> None \<notin> set (m[el := parent]) \<Longrightarrow>
    \<forall>i. 0 < i \<and> i < length m \<and> (i - 1) div 2 \<noteq> el \<longrightarrow> cmp (m[el := parent] ! ((i - 1) div 2)) (m[el := parent] ! i) \<le> 0 \<Longrightarrow>
    \<forall>c. 0 < el \<and> 0 < c \<and> c < length m \<and> (c - 1) div 2 = el \<longrightarrow> cmp (m ! ((el - 1) div 2)) (m ! c) \<le> 0 \<Longrightarrow>
    heap cmp (down_loop cmp (length m) m el parent) \<and> mset (down_loop cmp (length m) m el parent) = mset (m[el := parent])"
proof (induction "length m - el" arbitrary: m el rule: less_induct)
  case less
  let ?m = "m[el := parent]"
  obtain kid k where k: "min_kid cmp (length m) m el = (kid, k)" by fastforce
  have par_ne: "c \<noteq> el" if "0 < c" "(c - 1) div 2 = el" for c using that by auto
  have same_kid: "min_kid cmp (length m) m el = min_kid cmp (length ?m) ?m el"
    by (simp add: min_kid_def cell_get_def PQUEUE_LCHILD_OF_def)
  note least = min_kid_least [OF cm less.prems(2) k [unfolded same_kid]]
  show ?case
  proof (cases "kid = None \<or> cmp parent kid \<le> 0")
    case True
    have eq: "down_loop cmp (length m) m el parent = ?m"
      using True k by (subst down_loop.simps) auto
    have "cmp (?m ! ((i - 1) div 2)) (?m ! i) \<le> 0" if i: "0 < i" "i < length m" for i
    proof (cases "(i - 1) div 2 = el")
      case el: True
      have lk: "PQUEUE_LCHILD_OF el < length m" using i el by (auto simp: PQUEUE_LCHILD_OF_def)
      have "?m ! PQUEUE_LCHILD_OF el = m ! PQUEUE_LCHILD_OF el" by (simp add: PQUEUE_LCHILD_OF_def)
      then obtain y where "m ! PQUEUE_LCHILD_OF el = Some y"
        using less.prems(2) lk nth_mem [of "PQUEUE_LCHILD_OF el" ?m] by (metis length_list_update option.exhaust)
      then have "cell_get (length m) m (PQUEUE_LCHILD_OF el) \<noteq> None" using lk by (simp add: cell_get_def)
      then have "kid \<noteq> None" using k by (auto simp: min_kid_def Let_def simp del: not_None_eq not_Some_eq split: if_splits)
      then have "cmp parent kid \<le> 0" "cmp kid (?m ! i) \<le> 0" using True least [of i] i el by auto
      then show ?thesis using total_cmp_trans [OF cm] el less.prems(1) by auto
    qed (use less.prems(3) i in blast)
    then show ?thesis by (simp add: eq heap_def)
  next
    case False
    then have kp: "cmp kid parent \<le> 0" using total_cmp_le [OF cm, of kid parent] by simp
    have kk: "k < length m" "kid = m ! k" "el < k" "(k - 1) div 2 = el" using min_kid_index [OF k] False by auto
    let ?m1 = "m[el := kid]"
    have eq: "down_loop cmp (length m) m el parent = down_loop cmp (length ?m1) ?m1 k parent"
      using False k by (subst down_loop.simps) auto
    have sw: "?m1[k := parent] = ?m[el := ?m ! k, k := ?m ! el]" using kk less.prems(1) by simp
    have ms: "mset (?m1[k := parent]) = mset ?m"
      unfolding sw using kk less.prems(1) by (intro mset_swap) auto
    have old: "cmp (?m ! ((i - 1) div 2)) (?m ! i) \<le> 0" if "0 < i" "i < length m" "(i - 1) div 2 \<noteq> el" for i
      using less.prems(3) that by blast
    have a: "cmp (?m1[k := parent] ! ((i - 1) div 2)) (?m1[k := parent] ! i) \<le> 0"
      if i: "0 < i" "i < length ?m1" "(i - 1) div 2 \<noteq> k" for i
    proof -
      consider (k) "i = k" | (sib) "i \<noteq> k" "(i - 1) div 2 = el" | (el) "i = el" "(i - 1) div 2 \<noteq> el"
        | (other) "i \<noteq> k" "i \<noteq> el" "(i - 1) div 2 \<noteq> el" by blast
      then show ?thesis
      proof cases
        case k
        then show ?thesis using kp kk less.prems(1) by auto
      next
        case sib
        then show ?thesis using least [of i] False i par_ne [of i] less.prems(1) kk by auto
      next
        case el
        then have "cmp (m ! ((el - 1) div 2)) (m ! k) \<le> 0" using less.prems(4) i kk by auto
        then show ?thesis using el i kk less.prems(1) by auto
      next
        case other
        then show ?thesis using old [of i] i kk less.prems(1) by auto
      qed
    qed
    have b: "cmp (?m1 ! ((k - 1) div 2)) (?m1 ! c) \<le> 0" if c: "0 < k" "0 < c" "c < length ?m1" "(c - 1) div 2 = k" for c
    proof -
      have "c \<noteq> el" "c \<noteq> k" using c kk by auto
      then show ?thesis using old [of c] c kk less.prems(1) by auto
    qed
    have none: "None \<notin> set (?m1[k := parent])" using less.prems(2) ms by (metis set_mset_mset)
    have "heap cmp (down_loop cmp (length ?m1) ?m1 k parent) \<and>
        mset (down_loop cmp (length ?m1) ?m1 k parent) = mset (?m1[k := parent])"
    proof (rule less.hyps)
      show "length ?m1 - k < length m - el" "k < length ?m1" using kk by simp_all
      show "\<forall>i. 0 < i \<and> i < length ?m1 \<and> (i - 1) div 2 \<noteq> k \<longrightarrow>
          cmp (?m1[k := parent] ! ((i - 1) div 2)) (?m1[k := parent] ! i) \<le> 0"
        by (intro allI impI, elim conjE, rule a)
      show "\<forall>c. 0 < k \<and> 0 < c \<and> c < length ?m1 \<and> (c - 1) div 2 = k \<longrightarrow> cmp (?m1 ! ((k - 1) div 2)) (?m1 ! c) \<le> 0"
        by (intro allI impI, elim conjE, rule b)
    qed (rule none)
    then show ?thesis using eq ms by simp
  qed
qed

section \<open>The queue operations\<close>

definition pq_fixed :: "'a git_pqueue \<Rightarrow> bool" where
  "pq_fixed q \<longleftrightarrow> v_flags q AND GIT_PQUEUE_FIXED_SIZE \<noteq> 0"

definition pq_ok :: "'a ptr_cmp \<Rightarrow> 'a git_pqueue \<Rightarrow> bool" where
  "pq_ok cmp q \<longleftrightarrow> vec_wf q \<and> v_cmp q = Some cmp \<and> None \<notin> set (items q) \<and> heap cmp (items q)"

lemma pq_fixed_bit: "pq_fixed q \<longleftrightarrow> bit (v_flags q) 2"
  by (simp add: pq_fixed_def GIT_PQUEUE_FIXED_SIZE_def GIT_VECTOR_FLAG_MAX_def bit_iff_and_push_bit_not_eq_0)

lemma cells_split: "vec_wf q \<Longrightarrow> v_contents q = items q @ drop (v_length q) (v_contents q)"
  by (simp add: items_def)

lemma git_vector_get_items: "i < v_length q \<Longrightarrow> git_vector_get q i = items q ! i"
  by (simp add: git_vector_get_def items_def)

lemma git_pqueue_pop_spec:
  assumes cm: "total_cmp cmp" and ok: "pq_ok cmp q" and n: "0 < v_length q"
  shows "\<exists>q'. git_pqueue_pop q = Some (items q ! 0, q') \<and> pq_ok cmp q' \<and> mset (items q') = mset (items q) - {#items q ! 0#} \<and>
    v_length q' = v_length q - 1 \<and> v_flags q' = v_flags q \<and> v_alloc_size q' = v_alloc_size q"
proof -
  have wf: "vec_wf q" and c: "v_cmp q = Some cmp" and nn: "None \<notin> set (items q)" and h: "heap cmp (items q)"
    using ok by (auto simp: pq_ok_def)
  let ?xs = "items q" and ?n = "v_length q"
  have len: "length ?xs = ?n" using wf by simp
  have top: "git_vector_get q 0 = ?xs ! 0" using n by (rule git_vector_get_items)
  show ?thesis
  proof (cases "?n > 1")
    case False
    then have n1: "?n = 1" using n by simp
    then obtain x where x: "?xs = [x]" using len by (metis One_nat_def length_0_conv length_Suc_conv)
    have "git_pqueue_pop q = Some (?xs ! 0, q\<lparr>v_length := 0\<rparr>)"
      using n1 top by (simp add: git_pqueue_pop_def git_vector_pop_def)
    moreover have "pq_ok cmp (q\<lparr>v_length := 0\<rparr>)"
      using wf c by (simp add: pq_ok_def vec_wf_def items_def heap_def)
    moreover have "items (q\<lparr>v_length := 0\<rparr>) = []" by (simp add: items_def)
    ultimately show ?thesis using x n1 by simp
  next
    case True
    then obtain x0 mid l where xs: "?xs = x0 # mid @ [l]"
      using len by (cases ?xs; cases "tl ?xs" rule: rev_cases) auto
    have nm: "?n = length mid + 2" using len xs by simp
    have last: "git_vector_last q = l"
      using True xs nm git_vector_get_items [of "?n - 1" q] by (simp add: git_vector_last_def nth_append)
    define rest where "rest = drop ?n (v_contents q)"
    have cells: "v_contents q = x0 # mid @ l # rest" using cells_split [OF wf] xs by (simp add: rest_def)
    have put: "vec_put q 0 l = Some (q\<lparr>v_contents := l # mid @ l # rest\<rparr>)" by (simp add: vec_put_def cells)
    let ?zs = "l # mid"
    let ?d = "down_loop cmp (length ?zs) ?zs 0 l"
    have "heap cmp ?d \<and> mset ?d = mset (?zs[0 := l])"
    proof (rule down_loop_heap [OF cm])
      show "None \<notin> set (?zs[0 := l])" using nn xs by auto
      show "\<forall>i. 0 < i \<and> i < length ?zs \<and> (i - 1) div 2 \<noteq> 0 \<longrightarrow> cmp (?zs[0 := l] ! ((i - 1) div 2)) (?zs[0 := l] ! i) \<le> 0"
      proof (intro allI impI)
        fix i assume i: "0 < i \<and> i < length ?zs \<and> (i - 1) div 2 \<noteq> 0"
        then have "?zs ! i = ?xs ! i" "?zs ! ((i - 1) div 2) = ?xs ! ((i - 1) div 2)" "i < length ?xs"
          by (auto simp: xs nth_Cons' nth_append)
        then show "cmp (?zs[0 := l] ! ((i - 1) div 2)) (?zs[0 := l] ! i) \<le> 0" using h i by (simp add: heap_def)
      qed
    qed simp_all
    then have d: "heap cmp ?d" "mset ?d = add_mset l (mset mid)" by auto
    have ld: "length ?d = ?n - 1" using d(2) nm by (metis Suc_eq_plus1 add_2_eq_Suc' diff_Suc_1 mset.simps(2) size_mset length_Cons)
    have run: "down_loop cmp (?n - 1) (l # mid @ l # rest) 0 l = ?d @ l # rest"
      using down_loop_append [of "?n - 1" ?zs 0 cmp "l # rest" l] nm by simp
    let ?q = "q\<lparr>v_contents := ?d @ l # rest, v_length := ?n - 1\<rparr>"
    have pop: "git_pqueue_pop q = Some (x0, ?q)"
      using True put last top xs c run nm
      by (simp add: git_pqueue_pop_def git_vector_pop_def pqueue_down_def git_vector_get_def)
    have it: "items ?q = ?d" using ld by (simp add: items_update)
    have "None \<notin> set ?d" using d(2) nn xs by (metis mset.simps(2) set_mset_mset in_set_conv_decomp insert_iff list.set(2)
          set_append Un_iff)
    moreover have "length (v_contents ?q) = length (v_contents q)" using ld nm by (simp add: cells)
    moreover have "v_length q - 1 \<le> v_alloc_size q" using wf le_trans [OF diff_le_self] by (simp add: vec_wf_def)
    ultimately have "pq_ok cmp ?q" using wf c d(1) it by (simp add: pq_ok_def vec_wf_def)
    then show ?thesis using pop it d(2) xs by simp
  qed
qed


lemma git_vector_insert_room:
  "v_length v < v_alloc_size v \<Longrightarrow> git_vector_insert al v x = git_vector_insert (fill_alloc None) v x"
  by (simp add: git_vector_insert_def)

lemma pqueue_add_spec:
  assumes al: "good_alloc al" and cm: "total_cmp cmp" and ok: "pq_ok cmp q" and x: "x \<noteq> None" and n: "v_length q < VEC_LIMIT"
  shows "\<exists>r q'. pqueue_add al q x = Some (r, q') \<and>
    (r = 0 \<and> pq_ok cmp q' \<and> mset (items q') = add_mset x (mset (items q)) \<and> pq_fixed q' = pq_fixed q \<and>
       (v_length q < v_alloc_size q \<longrightarrow> v_alloc_size q' = v_alloc_size q) \<or>
     r = -1 \<and> q' = q \<and> \<not> total_alloc al \<and> v_length q \<ge> v_alloc_size q)"
proof -
  have wf: "vec_wf q" and c: "v_cmp q = Some cmp" and nn: "None \<notin> set (items q)" and h: "heap cmp (items q)"
    using ok by (auto simp: pq_ok_def)
  let ?al = "if v_length q < v_alloc_size q then fill_alloc None else al"
  have al': "good_alloc ?al" using al by simp
  obtain r v where ins: "git_vector_insert ?al q x = Some (r, v)"
    and d: "r = 0 \<and> vec_wf v \<and> flag_ok v \<and> v_cmp v = v_cmp q \<and> items v = items q @ [x] \<and>
       (\<forall>k. k \<noteq> 0 \<longrightarrow> bit (v_flags v) k = bit (v_flags q) k) \<and> (v_length q < v_alloc_size q \<longrightarrow> v_alloc_size v = v_alloc_size q) \<or>
     r = -1 \<and> v = q \<and> \<not> total_alloc ?al"
    using git_vector_insert_flags [OF al' wf n, of x] by blast
  have ins: "git_vector_insert al q x = Some (r, v)"
    using ins git_vector_insert_room [of q al x] by (simp split: if_splits)
  show ?thesis
  proof (cases "r = 0")
    case False
    then have "r = -1 \<and> v = q \<and> \<not> total_alloc ?al" using d by simp
    then show ?thesis using ins by (auto simp: pqueue_add_def split: if_splits)
  next
    case True
    then have v: "vec_wf v" "v_cmp v = Some cmp" "items v = items q @ [x]" "pq_fixed v = pq_fixed q"
      "v_length q < v_alloc_size q \<Longrightarrow> v_alloc_size v = v_alloc_size q" using d c by (auto simp: pq_fixed_bit)
    let ?n = "v_length q" and ?xs = "items v"
    have len: "v_length v = Suc ?n" using v(1,3) wf by (metis length_append_singleton length_items)
    have lx: "length ?xs = Suc ?n" using v(3) wf by simp
    define rest where "rest = drop (v_length v) (v_contents v)"
    have cells: "v_contents v = ?xs @ rest" using cells_split [OF v(1)] by (simp add: rest_def)
    have get: "git_vector_get v ?n = x" using len v(3) wf by (simp add: git_vector_get_items nth_append)
    let ?u = "up_loop cmp ?xs ?n x"
    have same: "?xs[?n := x] = ?xs" using v(3) wf by (simp add: list_update_append)
    have u: "heap cmp ?u \<and> mset ?u = mset (?xs[?n := x])"
    proof (rule up_loop_heap [OF cm])
      show "\<forall>i. 0 < i \<and> i < length ?xs \<and> i \<noteq> ?n \<longrightarrow> cmp (?xs[?n := x] ! ((i - 1) div 2)) (?xs[?n := x] ! i) \<le> 0"
        unfolding same using h lx wf by (auto simp: v(3) heap_def nth_append)
      show "\<forall>c. 0 < ?n \<and> 0 < c \<and> c < length ?xs \<and> (c - 1) div 2 = ?n \<longrightarrow> cmp (?xs ! ((?n - 1) div 2)) (?xs ! c) \<le> 0"
        using lx by auto
    qed (simp add: lx)
    then have ms: "mset ?u = add_mset x (mset (items q))" unfolding same using v(3) by simp
    then have lu: "length ?u = Suc ?n" using wf by (metis length_items mset_append mset_single_iff size_add_mset size_mset)
    let ?q = "v\<lparr>v_contents := ?u @ rest\<rparr>"
    have run: "pqueue_up v (v_length v - 1) = Some ?q"
      using len v(2) get lx up_loop_append [of ?n ?xs cmp rest x] by (simp add: pqueue_up_def cells)
    have it: "items ?q = ?u" using lu len by (simp add: items_def)
    have "None \<notin> set ?u" using ms nn x by (metis insert_iff set_mset_add_mset_insert set_mset_mset)
    moreover have "length (v_contents ?q) = length (v_contents v)" using lu lx by (simp add: cells)
    ultimately have "pq_ok cmp ?q" using v u it by (simp add: pq_ok_def vec_wf_def)
    moreover have "pq_fixed ?q = pq_fixed q" using v(4) by (simp add: pq_fixed_def)
    ultimately show ?thesis using ins True run it ms v(5) by (simp add: pqueue_add_def)
  qed
qed


lemma git_pqueue_insert_spec:
  assumes al: "good_alloc al" and cm: "total_cmp cmp" and ok: "pq_ok cmp q" and x: "x \<noteq> None" and n: "v_length q < VEC_LIMIT"
    and pos: "0 < v_alloc_size q"
  shows "\<exists>r q'. git_pqueue_insert al q x = Some (r, q') \<and>
    (if pq_fixed q \<and> v_length q \<ge> v_alloc_size q then
       r = 0 \<and> pq_ok cmp q' \<and> pq_fixed q' \<and> v_alloc_size q' = v_alloc_size q \<and>
       mset (items q') = (if cmp x (items q ! 0) \<le> 0 then mset (items q) else add_mset x (mset (items q) - {#items q ! 0#}))
     else
       r = 0 \<and> pq_ok cmp q' \<and> mset (items q') = add_mset x (mset (items q)) \<and> pq_fixed q' = pq_fixed q \<and>
         (v_length q < v_alloc_size q \<longrightarrow> v_alloc_size q' = v_alloc_size q) \<or>
       r = -1 \<and> q' = q \<and> \<not> total_alloc al \<and> v_length q \<ge> v_alloc_size q)"
proof (cases "pq_fixed q \<and> v_length q \<ge> v_alloc_size q")
  case False
  then show ?thesis
    using pqueue_add_spec [OF al cm ok x n] by (auto simp: git_pqueue_insert_def pq_fixed_def)
next
  case True
  have c: "v_cmp q = Some cmp" and len: "0 < v_length q" using ok pos True by (auto simp: pq_ok_def vec_wf_def)
  have code: "git_pqueue_insert al q x =
      (if cmp x (items q ! 0) \<le> 0 then Some (0, q) else do { (x', pq1) \<leftarrow> git_pqueue_pop q; pqueue_add al pq1 x })"
    using True c len by (simp add: git_pqueue_insert_def pq_fixed_def git_vector_get_items)
  show ?thesis
  proof (cases "cmp x (items q ! 0) \<le> 0")
    case le: True
    then show ?thesis using code True ok by simp
  next
    case gt: False
    obtain q1 where pop: "git_pqueue_pop q = Some (items q ! 0, q1)" and q1: "pq_ok cmp q1"
      "mset (items q1) = mset (items q) - {#items q ! 0#}" "v_length q1 = v_length q - 1" "v_flags q1 = v_flags q"
      "v_alloc_size q1 = v_alloc_size q"
      using git_pqueue_pop_spec [OF cm ok len] by blast
    have "v_length q \<le> v_alloc_size q" using ok by (simp add: pq_ok_def vec_wf_def)
    then have "v_length q1 < v_alloc_size q1" "v_length q1 < VEC_LIMIT" using q1 len n by simp_all
    then show ?thesis
      using pqueue_add_spec [OF al cm q1(1) x] code gt pop True q1 by (auto simp: pq_fixed_def)
  qed
qed


section \<open>The contract of a priority queue\<close>

text \<open>The client loop \<open>while ((item = git_pqueue_pop(q)) != NULL)\<close>, run at most \<open>n\<close> times.\<close>

primrec drain :: "('q \<Rightarrow> ('a option \<times> 'q) option) \<Rightarrow> nat \<Rightarrow> 'q \<Rightarrow> ('a option list \<times> 'q) option" where
  "drain pop 0 q = Some ([], q)"
| "drain pop (Suc n) q = do {
     (x, q1) \<leftarrow> pop q;
     if x = None then Some ([], q1)
     else do { (xs, q2) \<leftarrow> drain pop n q1; Some (x # xs, q2) } }"

locale priority_queue =
  fixes ok :: "'q \<Rightarrow> bool" and bag :: "'q \<Rightarrow> 'a option multiset" and le :: "'a option \<Rightarrow> 'a option \<Rightarrow> bool"
    and pop :: "'q \<Rightarrow> ('a option \<times> 'q) option"
  assumes no_null: "ok q \<Longrightarrow> None \<notin># bag q"
    and pop_empty: "ok q \<Longrightarrow> bag q = {#} \<Longrightarrow> \<exists>q'. pop q = Some (None, q') \<and> ok q' \<and> bag q' = {#}"
    and pop_least: "ok q \<Longrightarrow> bag q \<noteq> {#} \<Longrightarrow>
      \<exists>x q'. pop q = Some (x, q') \<and> ok q' \<and> x \<in># bag q \<and> bag q' = bag q - {#x#} \<and> (\<forall>y\<in>#bag q. le x y)"
begin

lemma drain_sorts:
  "ok q \<Longrightarrow> size (bag q) < n \<Longrightarrow>
   \<exists>xs q'. drain pop n q = Some (xs, q') \<and> ok q' \<and> bag q' = {#} \<and> mset xs = bag q \<and> sorted_wrt le xs"
proof (induction n arbitrary: q)
  case (Suc n)
  show ?case
  proof (cases "bag q = {#}")
    case True
    then show ?thesis using pop_empty [OF Suc.prems(1)] by auto
  next
    case False
    obtain x q1 where pop: "pop q = Some (x, q1)" and q1: "ok q1" "x \<in># bag q" "bag q1 = bag q - {#x#}"
      "\<forall>y\<in>#bag q. le x y" using pop_least [OF Suc.prems(1) False] by blast
    have "size (bag q1) < n" using Suc.prems(2) q1(2) size_Suc_Diff1 [OF q1(2)] by (simp add: q1(3))
    then obtain xs q' where d: "drain pop n q1 = Some (xs, q')" "ok q'" "bag q' = {#}" "mset xs = bag q1" "sorted_wrt le xs"
      using Suc.IH [OF q1(1)] by blast
    have "x \<noteq> None" using no_null [OF Suc.prems(1)] q1(2) by metis
    moreover have "\<forall>y\<in>set xs. le x y" using d(4) q1 by (metis in_diffD set_mset_mset)
    ultimately show ?thesis using pop d q1 by auto
  qed
qed simp

end

lemma pq_pop_empty:
  assumes "pq_ok cmp q" and "mset (items q) = {#}"
  shows "git_pqueue_pop q = Some (None, q)"
proof -
  have "v_length q = 0" using assms by (metis length_items list.size(3) mset_zero_iff pq_ok_def)
  then show ?thesis by (simp add: git_pqueue_pop_def git_vector_pop_def git_vector_get_def)
qed

interpretation pq: priority_queue "\<lambda>q. total_cmp cmp \<and> pq_ok cmp q" "\<lambda>q. mset (items q)" "\<lambda>x y. cmp x y \<le> 0" git_pqueue_pop
  for cmp :: "'a ptr_cmp"
proof unfold_locales
  fix q :: "'a git_vector"
  assume ok: "total_cmp cmp \<and> pq_ok cmp q"
  then show "None \<notin># mset (items q)" by (simp add: pq_ok_def)
  show "\<exists>q'. git_pqueue_pop q = Some (None, q') \<and> (total_cmp cmp \<and> pq_ok cmp q') \<and> mset (items q') = {#}" if "mset (items q) = {#}"
    using pq_pop_empty ok that by blast
  assume "mset (items q) \<noteq> {#}"
  moreover have len: "length (items q) = v_length q" using ok by (simp add: pq_ok_def)
  ultimately have n: "0 < v_length q" by (metis length_greater_0_conv mset_zero_iff)
  have "\<forall>y\<in>#mset (items q). cmp (items q ! 0) y \<le> 0"
    using heap_root ok len by (fastforce simp: pq_ok_def in_set_conv_nth)
  moreover have "items q ! 0 \<in># mset (items q)" using n len by simp
  ultimately show "\<exists>x q'. git_pqueue_pop q = Some (x, q') \<and> (total_cmp cmp \<and> pq_ok cmp q') \<and> x \<in># mset (items q) \<and>
      mset (items q') = mset (items q) - {#x#} \<and> (\<forall>y\<in>#mset (items q). cmp x y \<le> 0)"
    using git_pqueue_pop_spec ok n by blast
qed


section \<open>Clients\<close>

text \<open>Insert a list of items one after the other; the first error ends the run.\<close>

primrec insert_all :: "'a cells \<Rightarrow> 'a option list \<Rightarrow> 'a git_pqueue \<Rightarrow> (int \<times> 'a git_pqueue) option" where
  "insert_all al [] q = Some (0, q)"
| "insert_all al (x # xs) q = do {
     (error, q1) \<leftarrow> git_pqueue_insert al q x;
     if error = 0 then insert_all al xs q1 else Some (error, q1) }"

lemma git_pqueue_init_spec:
  assumes env: "cells_env al" and n: "n < 2 ^ 60" and fl: "\<not> bit flags 0"
  shows "\<exists>q. git_pqueue_init al flags n (Some cmp) = Some (0, q) \<and> pq_ok cmp q \<and> items q = [] \<and> 0 < v_alloc_size q \<and>
    pq_fixed q = (flags AND GIT_PQUEUE_FIXED_SIZE \<noteq> 0) \<and> (pq_fixed q \<and> 0 < n \<longrightarrow> v_alloc_size q = n)"
proof -
  let ?v = "\<lparr>v_alloc_size = 0, v_cmp = Some cmp, v_contents = [], v_length = 0, v_flags = GIT_VECTOR_SORTED\<rparr>"
  have wf: "vec_wf ?v" by (simp add: vec_wf_def)
  have m: "max n MIN_ALLOCSIZE < 2 ^ 60" using n by (simp add: MIN_ALLOCSIZE_def)
  obtain v where v: "resize_vector al ?v (max n MIN_ALLOCSIZE) = Some (0, v)" "vec_wf v" "items v = []" "v_alloc_size v = max n MIN_ALLOCSIZE"
    "v_length v = 0" "v_cmp v = Some cmp" "v_flags v = GIT_VECTOR_SORTED"
    using resize_vector_spec [OF _ wf _ m, of al] env by (auto simp: cells_env_def items_def)
  let ?q = "v\<lparr>v_flags := v_flags v OR flags\<rparr>"
  let ?q' = "if flags AND GIT_PQUEUE_FIXED_SIZE \<noteq> 0 \<and> n > 0 then ?q\<lparr>v_alloc_size := n\<rparr> else ?q"
  have run: "git_pqueue_init al flags n (Some cmp) = Some (0, ?q')"
    using v by (simp add: git_pqueue_init_def git_vector_init_def Let_def)
  have "GIT_VECTOR_SORTED AND GIT_PQUEUE_FIXED_SIZE = 0"
    by (simp add: GIT_VECTOR_SORTED_def GIT_PQUEUE_FIXED_SIZE_def GIT_VECTOR_FLAG_MAX_def)
  then have fx: "pq_fixed ?q' = (flags AND GIT_PQUEUE_FIXED_SIZE \<noteq> 0)"
    using v(7) by (simp add: pq_fixed_def word_bw_comms and.commute bit.conj_disj_distrib)
  have "pq_ok cmp ?q'" using v by (auto simp: pq_ok_def vec_wf_def items_def heap_def MIN_ALLOCSIZE_def)
  moreover have "items ?q' = []" "0 < v_alloc_size ?q'" using v by (auto simp: items_def MIN_ALLOCSIZE_def)
  ultimately show ?thesis using run fx by auto
qed

lemma insert_all_unbounded:
  assumes env: "cells_env al" and cm: "total_cmp cmp"
  shows "pq_ok cmp q \<Longrightarrow> \<not> pq_fixed q \<Longrightarrow> 0 < v_alloc_size q \<Longrightarrow> None \<notin> set xs \<Longrightarrow> v_length q + length xs \<le> VEC_LIMIT \<Longrightarrow>
    \<exists>q'. insert_all al xs q = Some (0, q') \<and> pq_ok cmp q' \<and> mset (items q') = mset (items q) + mset xs"
proof (induction xs arbitrary: q)
  case (Cons x xs)
  have al: "good_alloc al" "total_alloc al" using env by (auto simp: cells_env_def)
  have x: "x \<noteq> None" "v_length q < VEC_LIMIT" using Cons.prems by (metis list.set_intros(1)) (use Cons.prems in simp)
  obtain q1 where q1: "git_pqueue_insert al q x = Some (0, q1)" "pq_ok cmp q1" "mset (items q1) = add_mset x (mset (items q))"
    "\<not> pq_fixed q1"
    using git_pqueue_insert_spec [OF al(1) cm Cons.prems(1) x Cons.prems(3)] Cons.prems(2) al(2) by auto
  have "v_length q1 = Suc (v_length q)"
    using q1(2,3) Cons.prems(1) by (metis length_items pq_ok_def size_add_mset size_mset)
  moreover from this have "0 < v_alloc_size q1" using q1(2) by (simp add: pq_ok_def vec_wf_def)
  ultimately show ?case using Cons.IH [OF q1(2,4)] q1 Cons.prems by auto
qed simp

lemma insert_all_fixed:
  assumes al: "good_alloc al" and cm: "total_cmp cmp"
  shows "pq_ok cmp q \<Longrightarrow> pq_fixed q \<Longrightarrow> 0 < v_alloc_size q \<Longrightarrow> v_alloc_size q < VEC_LIMIT \<Longrightarrow> None \<notin> set xs \<Longrightarrow>
    mset (items q) \<subseteq># M \<Longrightarrow> size (mset (items q)) = min (v_alloc_size q) (size M) \<Longrightarrow>
    \<forall>y\<in>#M - mset (items q). \<forall>z\<in>#mset (items q). cmp y z \<le> 0 \<Longrightarrow>
    \<exists>q'. insert_all al xs q = Some (0, q') \<and> pq_ok cmp q' \<and> mset (items q') \<subseteq># M + mset xs \<and>
      size (mset (items q')) = min (v_alloc_size q) (size M + length xs) \<and>
      (\<forall>y\<in>#M + mset xs - mset (items q'). \<forall>z\<in>#mset (items q'). cmp y z \<le> 0)"
proof (induction xs arbitrary: q M)
  case (Cons x xs)
  let ?k = "v_alloc_size q" and ?b = "mset (items q)"
  have wf: "v_length q \<le> ?k" "length (items q) = v_length q" using Cons.prems(1) by (simp_all add: pq_ok_def vec_wf_def)
  have x: "x \<noteq> None" using Cons.prems by (metis list.set_intros(1))
  have lim: "v_length q < VEC_LIMIT" using wf Cons.prems by simp
  have tr: "cmp u w \<le> 0" if "cmp u v \<le> 0" "cmp v w \<le> 0" for u v w using total_cmp_trans [OF cm] that .
  obtain q1 where q1: "git_pqueue_insert al q x = Some (0, q1)" "pq_ok cmp q1" "pq_fixed q1" "v_alloc_size q1 = ?k"
    and b: "mset (items q1) = (if v_length q < ?k then add_mset x ?b
      else if cmp x (items q ! 0) \<le> 0 then ?b else add_mset x (?b - {#items q ! 0#}))"
    using git_pqueue_insert_spec [OF al cm Cons.prems(1) x lim Cons.prems(3)] Cons.prems(2) by (auto split: if_splits)
  have root: "cmp (items q ! 0) z \<le> 0" if "z \<in># ?b" for z
    using heap_root [OF cm, of "items q"] Cons.prems(1) that by (auto simp: pq_ok_def in_set_conv_nth)
  have "mset (items q1) \<subseteq># add_mset x M \<and> size (mset (items q1)) = min ?k (size (add_mset x M)) \<and>
      (\<forall>y\<in>#add_mset x M - mset (items q1). \<forall>z\<in>#mset (items q1). cmp y z \<le> 0)"
  proof (cases "v_length q < ?k")
    case True
    then have "size ?b = size M" using Cons.prems(7) wf by simp
    then have "?b = M" using Cons.prems(6) by (metis mset_subset_size nless_le subset_mset.le_less)
    then show ?thesis using b True wf by auto
  next
    case False
    then have full: "size ?b = ?k" "?k \<le> size M" using wf Cons.prems(7) by auto
    then have r: "items q ! 0 \<in># ?b" using Cons.prems(3) by simp
    obtain D where M: "M = ?b + D" using Cons.prems(6) by (metis subset_mset.add_diff_inverse)
    have D: "\<forall>y\<in>#D. \<forall>z\<in>#?b. cmp y z \<le> 0" using Cons.prems(8) by (simp add: M)
    show ?thesis
    proof (cases "cmp x (items q ! 0) \<le> 0")
      case True
      then have "\<forall>z\<in>#?b. cmp x z \<le> 0" using root tr by blast
      then show ?thesis using b False True full D by (auto simp: M min_def)
    next
      case gt: False
      let ?r = "items q ! 0"
      obtain R where R: "?b = add_mset ?r R" using r by (metis insert_DiffM)
      have b1: "mset (items q1) = add_mset x R" using b False gt R by simp
      have rx: "cmp ?r x \<le> 0" using gt total_cmp_le [OF cm, of ?r x] by simp
      have rR: "\<forall>z\<in>#R. cmp ?r z \<le> 0" using root R by auto
      have DR: "\<forall>y\<in>#D. cmp y ?r \<le> 0 \<and> (\<forall>z\<in>#R. cmp y z \<le> 0)" using D R by auto
      have "add_mset x M - mset (items q1) = add_mset ?r D" by (simp add: b1 M R)
      moreover have "\<forall>y\<in>#add_mset ?r D. \<forall>z\<in>#add_mset x R. cmp y z \<le> 0"
        using rx rR DR tr by auto
      ultimately show ?thesis using full b1 R by (auto simp: M min_def)
    qed
  qed
  then show ?case
    using Cons.IH [OF q1(2,3), of "add_mset x M"] q1 Cons.prems by auto
qed simp


text \<open>C7: Inserting any items into an ordinary queue and popping it until it is empty yields exactly
  those items, in the order of the comparison callback.\<close>

theorem git_pqueue_sorts:
  assumes "cells_env al" and "total_cmp cmp" and "None \<notin> set xs" and "length xs \<le> VEC_LIMIT" and "n < 2 ^ 60"
  shows "\<exists>q0 q1 q2 ys. git_pqueue_init al 0 n (Some cmp) = Some (0, q0) \<and> insert_all al xs q0 = Some (0, q1) \<and>
    drain git_pqueue_pop (Suc (length xs)) q1 = Some (ys, q2) \<and> v_length q2 = 0 \<and> mset ys = mset xs \<and> sorted_by cmp ys"
proof -
  obtain q0 where q0: "git_pqueue_init al 0 n (Some cmp) = Some (0, q0)" "pq_ok cmp q0" "items q0 = []" "0 < v_alloc_size q0" "\<not> pq_fixed q0"
    using git_pqueue_init_spec [OF assms(1,5), of 0 cmp] by auto
  have "v_length q0 = 0" using q0(2,3) by (metis length_items list.size(3) pq_ok_def)
  then obtain q1 where q1: "insert_all al xs q0 = Some (0, q1)" "pq_ok cmp q1" "mset (items q1) = mset xs"
    using insert_all_unbounded [OF assms(1,2) q0(2,5,4) assms(3)] assms(4) q0(3) by auto
  obtain ys q2 where d: "drain git_pqueue_pop (Suc (length xs)) q1 = Some (ys, q2)" "pq_ok cmp q2" "mset (items q2) = {#}"
    "mset ys = mset xs" "sorted_by cmp ys"
    using pq.drain_sorts [of cmp q1 "Suc (length xs)"] assms(2) q1 by (auto simp: q1(3) simp del: drain.simps)
  have "v_length q2 = 0" using d(2,3) by (metis length_items list.size(3) mset_zero_iff pq_ok_def)
  then show ?thesis using q0 q1 d by blast
qed

theorem git_pqueue_sorts_witness:
  "\<exists>q0 q1 q2 ys. git_pqueue_init (fill_alloc None) 0 0 (Some int_ptr_cmp) = Some (0, q0) \<and>
    insert_all (fill_alloc None) [Some 3, Some 1, Some 2] q0 = Some (0, q1) \<and>
    drain git_pqueue_pop (Suc (length [Some 3, Some 1, Some (2 :: int)])) q1 = Some (ys, q2) \<and> v_length q2 = 0 \<and>
    mset ys = mset [Some 3, Some 1, Some 2] \<and> sorted_by int_ptr_cmp ys"
  by (rule git_pqueue_sorts) (simp_all add: total_int_ptr_cmp VEC_LIMIT_def)

text \<open>C8: A queue of fixed size \<open>n\<close> never asks the allocator for more, never fails, and after any sequence of
  insertions holds the \<open>n\<close> greatest items: everything it dropped compares at most equal to everything it kept.\<close>

theorem git_pqueue_fixed_keeps_greatest:
  assumes "cells_env al" and "good_alloc al'" and "total_cmp cmp" and "None \<notin> set xs" and "0 < n" and "n < VEC_LIMIT"
  shows "\<exists>q0 q1. git_pqueue_init al GIT_PQUEUE_FIXED_SIZE n (Some cmp) = Some (0, q0) \<and> insert_all al' xs q0 = Some (0, q1) \<and>
    mset (items q1) \<subseteq># mset xs \<and> v_length q1 = min n (length xs) \<and>
    (\<forall>y\<in>#mset xs - mset (items q1). \<forall>z\<in>#mset (items q1). cmp y z \<le> 0)"
proof -
  have n: "n < 2 ^ 60" using assms(6) by (simp add: VEC_LIMIT_def)
  have fl: "\<not> bit GIT_PQUEUE_FIXED_SIZE 0" "GIT_PQUEUE_FIXED_SIZE AND GIT_PQUEUE_FIXED_SIZE \<noteq> 0"
    by (simp_all add: GIT_PQUEUE_FIXED_SIZE_def GIT_VECTOR_FLAG_MAX_def bit_simps)
  obtain q0 where q0: "git_pqueue_init al GIT_PQUEUE_FIXED_SIZE n (Some cmp) = Some (0, q0)" "pq_ok cmp q0" "items q0 = []"
    "pq_fixed q0" "v_alloc_size q0 = n" using git_pqueue_init_spec [OF assms(1) n fl(1)] fl(2) assms(5) by blast
  obtain q1 where q1: "insert_all al' xs q0 = Some (0, q1)" "pq_ok cmp q1" "mset (items q1) \<subseteq># mset xs"
    "size (mset (items q1)) = min n (length xs)" "\<forall>y\<in>#mset xs - mset (items q1). \<forall>z\<in>#mset (items q1). cmp y z \<le> 0"
    using insert_all_fixed [OF assms(2,3) q0(2,4), of xs "{#}"] q0(3,5) assms by auto
  have "v_length q1 = min n (length xs)" using q1(2,4) by (simp add: pq_ok_def)
  then show ?thesis using q0 q1 by blast
qed

theorem git_pqueue_fixed_keeps_greatest_witness:
  "\<exists>q0 q1. git_pqueue_init (fill_alloc None) GIT_PQUEUE_FIXED_SIZE 2 (Some int_ptr_cmp) = Some (0, q0) \<and>
    insert_all (limit_alloc 0 None) [Some 3, Some 1, Some (2 :: int)] q0 = Some (0, q1) \<and>
    mset (items q1) \<subseteq># mset [Some 3, Some 1, Some 2] \<and> v_length q1 = min 2 (length [Some 3, Some 1, Some (2 :: int)]) \<and>
    (\<forall>y\<in>#mset [Some 3, Some 1, Some 2] - mset (items q1). \<forall>z\<in>#mset (items q1). int_ptr_cmp y z \<le> 0)"
  by (rule git_pqueue_fixed_keeps_greatest) (simp_all add: total_int_ptr_cmp VEC_LIMIT_def)

end
