(* ===== verification/Delta.thy ===== *)
theory Delta
  imports Prelude
begin

text \<open>
  Binary deltas (delta.c, delta.h): the index over a source buffer, the delta encoder that
  uses it, and the decoder \<open>git_delta_apply\<close>. The encoder writes into a buffer that it grows itself;
  the model keeps the cells of that buffer, and every access to an array is checked, so that
  \<open>None\<close> is an access outside of it. An \<open>unsigned int\<close> of the encoder's state is a \<open>nat\<close> below \<open>2 ^ 32\<close>
  with its wrap-around written out, the fingerprint \<open>val\<close> a \<open>32 word\<close>.
\<close>

section \<open>The Rabin fingerprint\<close>

definition delta_T :: "u32 list" where
  "delta_T =
    [0x00000000, 0xab59b4d1, 0x56b369a2, 0xfdeadd73, 0x063f6795, 0xad66d344, 0x508c0e37, 0xfbd5bae6,
     0x0c7ecf2a, 0xa7277bfb, 0x5acda688, 0xf1941259, 0x0a41a8bf, 0xa1181c6e, 0x5cf2c11d, 0xf7ab75cc,
     0x18fd9e54, 0xb3a42a85, 0x4e4ef7f6, 0xe5174327, 0x1ec2f9c1, 0xb59b4d10, 0x48719063, 0xe32824b2,
     0x1483517e, 0xbfdae5af, 0x423038dc, 0xe9698c0d, 0x12bc36eb, 0xb9e5823a, 0x440f5f49, 0xef56eb98,
     0x31fb3ca8, 0x9aa28879, 0x6748550a, 0xcc11e1db, 0x37c45b3d, 0x9c9defec, 0x6177329f, 0xca2e864e,
     0x3d85f382, 0x96dc4753, 0x6b369a20, 0xc06f2ef1, 0x3bba9417, 0x90e320c6, 0x6d09fdb5, 0xc6504964,
     0x2906a2fc, 0x825f162d, 0x7fb5cb5e, 0xd4ec7f8f, 0x2f39c569, 0x846071b8, 0x798aaccb, 0xd2d3181a,
     0x25786dd6, 0x8e21d907, 0x73cb0474, 0xd892b0a5, 0x23470a43, 0x881ebe92, 0x75f463e1, 0xdeadd730,
     0x63f67950, 0xc8afcd81, 0x354510f2, 0x9e1ca423, 0x65c91ec5, 0xce90aa14, 0x337a7767, 0x9823c3b6,
     0x6f88b67a, 0xc4d102ab, 0x393bdfd8, 0x92626b09, 0x69b7d1ef, 0xc2ee653e, 0x3f04b84d, 0x945d0c9c,
     0x7b0be704, 0xd05253d5, 0x2db88ea6, 0x86e13a77, 0x7d348091, 0xd66d3440, 0x2b87e933, 0x80de5de2,
     0x7775282e, 0xdc2c9cff, 0x21c6418c, 0x8a9ff55d, 0x714a4fbb, 0xda13fb6a, 0x27f92619, 0x8ca092c8,
     0x520d45f8, 0xf954f129, 0x04be2c5a, 0xafe7988b, 0x5432226d, 0xff6b96bc, 0x02814bcf, 0xa9d8ff1e,
     0x5e738ad2, 0xf52a3e03, 0x08c0e370, 0xa39957a1, 0x584ced47, 0xf3155996, 0x0eff84e5, 0xa5a63034,
     0x4af0dbac, 0xe1a96f7d, 0x1c43b20e, 0xb71a06df, 0x4ccfbc39, 0xe79608e8, 0x1a7cd59b, 0xb125614a,
     0x468e1486, 0xedd7a057, 0x103d7d24, 0xbb64c9f5, 0x40b17313, 0xebe8c7c2, 0x16021ab1, 0xbd5bae60,
     0x6cb54671, 0xc7ecf2a0, 0x3a062fd3, 0x915f9b02, 0x6a8a21e4, 0xc1d39535, 0x3c394846, 0x9760fc97,
     0x60cb895b, 0xcb923d8a, 0x3678e0f9, 0x9d215428, 0x66f4eece, 0xcdad5a1f, 0x3047876c, 0x9b1e33bd,
     0x7448d825, 0xdf116cf4, 0x22fbb187, 0x89a20556, 0x7277bfb0, 0xd92e0b61, 0x24c4d612, 0x8f9d62c3,
     0x7836170f, 0xd36fa3de, 0x2e857ead, 0x85dcca7c, 0x7e09709a, 0xd550c44b, 0x28ba1938, 0x83e3ade9,
     0x5d4e7ad9, 0xf617ce08, 0x0bfd137b, 0xa0a4a7aa, 0x5b711d4c, 0xf028a99d, 0x0dc274ee, 0xa69bc03f,
     0x5130b5f3, 0xfa690122, 0x0783dc51, 0xacda6880, 0x570fd266, 0xfc5666b7, 0x01bcbbc4, 0xaae50f15,
     0x45b3e48d, 0xeeea505c, 0x13008d2f, 0xb85939fe, 0x438c8318, 0xe8d537c9, 0x153feaba, 0xbe665e6b,
     0x49cd2ba7, 0xe2949f76, 0x1f7e4205, 0xb427f6d4, 0x4ff24c32, 0xe4abf8e3, 0x19412590, 0xb2189141,
     0x0f433f21, 0xa41a8bf0, 0x59f05683, 0xf2a9e252, 0x097c58b4, 0xa225ec65, 0x5fcf3116, 0xf49685c7,
     0x033df00b, 0xa86444da, 0x558e99a9, 0xfed72d78, 0x0502979e, 0xae5b234f, 0x53b1fe3c, 0xf8e84aed,
     0x17bea175, 0xbce715a4, 0x410dc8d7, 0xea547c06, 0x1181c6e0, 0xbad87231, 0x4732af42, 0xec6b1b93,
     0x1bc06e5f, 0xb099da8e, 0x4d7307fd, 0xe62ab32c, 0x1dff09ca, 0xb6a6bd1b, 0x4b4c6068, 0xe015d4b9,
     0x3eb80389, 0x95e1b758, 0x680b6a2b, 0xc352defa, 0x3887641c, 0x93ded0cd, 0x6e340dbe, 0xc56db96f,
     0x32c6cca3, 0x999f7872, 0x6475a501, 0xcf2c11d0, 0x34f9ab36, 0x9fa01fe7, 0x624ac294, 0xc9137645,
     0x26459ddd, 0x8d1c290c, 0x70f6f47f, 0xdbaf40ae, 0x207afa48, 0x8b234e99, 0x76c993ea, 0xdd90273b,
     0x2a3b52f7, 0x8162e626, 0x7c883b55, 0xd7d18f84, 0x2c043562, 0x875d81b3, 0x7ab75cc0, 0xd1eee811]"

definition delta_U :: "u32 list" where
  "delta_U =
    [0x00000000, 0x7eb5200d, 0x5633f4cb, 0x2886d4c6, 0x073e5d47, 0x798b7d4a, 0x510da98c, 0x2fb88981,
     0x0e7cba8e, 0x70c99a83, 0x584f4e45, 0x26fa6e48, 0x0942e7c9, 0x77f7c7c4, 0x5f711302, 0x21c4330f,
     0x1cf9751c, 0x624c5511, 0x4aca81d7, 0x347fa1da, 0x1bc7285b, 0x65720856, 0x4df4dc90, 0x3341fc9d,
     0x1285cf92, 0x6c30ef9f, 0x44b63b59, 0x3a031b54, 0x15bb92d5, 0x6b0eb2d8, 0x4388661e, 0x3d3d4613,
     0x39f2ea38, 0x4747ca35, 0x6fc11ef3, 0x11743efe, 0x3eccb77f, 0x40799772, 0x68ff43b4, 0x164a63b9,
     0x378e50b6, 0x493b70bb, 0x61bda47d, 0x1f088470, 0x30b00df1, 0x4e052dfc, 0x6683f93a, 0x1836d937,
     0x250b9f24, 0x5bbebf29, 0x73386bef, 0x0d8d4be2, 0x2235c263, 0x5c80e26e, 0x740636a8, 0x0ab316a5,
     0x2b7725aa, 0x55c205a7, 0x7d44d161, 0x03f1f16c, 0x2c4978ed, 0x52fc58e0, 0x7a7a8c26, 0x04cfac2b,
     0x73e5d470, 0x0d50f47d, 0x25d620bb, 0x5b6300b6, 0x74db8937, 0x0a6ea93a, 0x22e87dfc, 0x5c5d5df1,
     0x7d996efe, 0x032c4ef3, 0x2baa9a35, 0x551fba38, 0x7aa733b9, 0x041213b4, 0x2c94c772, 0x5221e77f,
     0x6f1ca16c, 0x11a98161, 0x392f55a7, 0x479a75aa, 0x6822fc2b, 0x1697dc26, 0x3e1108e0, 0x40a428ed,
     0x61601be2, 0x1fd53bef, 0x3753ef29, 0x49e6cf24, 0x665e46a5, 0x18eb66a8, 0x306db26e, 0x4ed89263,
     0x4a173e48, 0x34a21e45, 0x1c24ca83, 0x6291ea8e, 0x4d29630f, 0x339c4302, 0x1b1a97c4, 0x65afb7c9,
     0x446b84c6, 0x3adea4cb, 0x1258700d, 0x6ced5000, 0x4355d981, 0x3de0f98c, 0x15662d4a, 0x6bd30d47,
     0x56ee4b54, 0x285b6b59, 0x00ddbf9f, 0x7e689f92, 0x51d01613, 0x2f65361e, 0x07e3e2d8, 0x7956c2d5,
     0x5892f1da, 0x2627d1d7, 0x0ea10511, 0x7014251c, 0x5facac9d, 0x21198c90, 0x099f5856, 0x772a785b,
     0x4c921c31, 0x32273c3c, 0x1aa1e8fa, 0x6414c8f7, 0x4bac4176, 0x3519617b, 0x1d9fb5bd, 0x632a95b0,
     0x42eea6bf, 0x3c5b86b2, 0x14dd5274, 0x6a687279, 0x45d0fbf8, 0x3b65dbf5, 0x13e30f33, 0x6d562f3e,
     0x506b692d, 0x2ede4920, 0x06589de6, 0x78edbdeb, 0x5755346a, 0x29e01467, 0x0166c0a1, 0x7fd3e0ac,
     0x5e17d3a3, 0x20a2f3ae, 0x08242768, 0x76910765, 0x59298ee4, 0x279caee9, 0x0f1a7a2f, 0x71af5a22,
     0x7560f609, 0x0bd5d604, 0x235302c2, 0x5de622cf, 0x725eab4e, 0x0ceb8b43, 0x246d5f85, 0x5ad87f88,
     0x7b1c4c87, 0x05a96c8a, 0x2d2fb84c, 0x539a9841, 0x7c2211c0, 0x029731cd, 0x2a11e50b, 0x54a4c506,
     0x69998315, 0x172ca318, 0x3faa77de, 0x411f57d3, 0x6ea7de52, 0x1012fe5f, 0x38942a99, 0x46210a94,
     0x67e5399b, 0x19501996, 0x31d6cd50, 0x4f63ed5d, 0x60db64dc, 0x1e6e44d1, 0x36e89017, 0x485db01a,
     0x3f77c841, 0x41c2e84c, 0x69443c8a, 0x17f11c87, 0x38499506, 0x46fcb50b, 0x6e7a61cd, 0x10cf41c0,
     0x310b72cf, 0x4fbe52c2, 0x67388604, 0x198da609, 0x36352f88, 0x48800f85, 0x6006db43, 0x1eb3fb4e,
     0x238ebd5d, 0x5d3b9d50, 0x75bd4996, 0x0b08699b, 0x24b0e01a, 0x5a05c017, 0x728314d1, 0x0c3634dc,
     0x2df207d3, 0x534727de, 0x7bc1f318, 0x0574d315, 0x2acc5a94, 0x54797a99, 0x7cffae5f, 0x024a8e52,
     0x06852279, 0x78300274, 0x50b6d6b2, 0x2e03f6bf, 0x01bb7f3e, 0x7f0e5f33, 0x57888bf5, 0x293dabf8,
     0x08f998f7, 0x764cb8fa, 0x5eca6c3c, 0x207f4c31, 0x0fc7c5b0, 0x7172e5bd, 0x59f4317b, 0x27411176,
     0x1a7c5765, 0x64c97768, 0x4c4fa3ae, 0x32fa83a3, 0x1d420a22, 0x63f72a2f, 0x4b71fee9, 0x35c4dee4,
     0x1400edeb, 0x6ab5cde6, 0x42331920, 0x3c86392d, 0x133eb0ac, 0x6d8b90a1, 0x450d4467, 0x3bb8646a]"

definition HASH_LIMIT :: nat where
  "HASH_LIMIT = 64"

definition RABIN_SHIFT :: nat where
  "RABIN_SHIFT = 23"

definition RABIN_WINDOW :: nat where
  "RABIN_WINDOW = 16"

text \<open>A checked array access.\<close>

definition at :: "'a list \<Rightarrow> nat \<Rightarrow> 'a option" where
  "at xs i = (if i < length xs then Some (xs ! i) else None)"

definition rabin_push :: "u32 \<Rightarrow> byte \<Rightarrow> u32 option" where
  "rabin_push val c = map_option (\<lambda>t. (push_bit 8 val OR ucast c) XOR t) (at delta_T (unat (drop_bit RABIN_SHIFT val)))"

primrec rabin_bytes :: "u32 \<Rightarrow> byte list \<Rightarrow> u32 option" where
  "rabin_bytes val [] = Some val"
| "rabin_bytes val (c # cs) = do { val1 \<leftarrow> rabin_push val c; rabin_bytes val1 cs }"

section \<open>The index\<close>

text \<open>
  An entry points at the last byte of a block of the source (an offset here). The entries of one
  hash bucket form a list linked by \<open>next\<close>; no entry is in two buckets, so a bucket is a list.
\<close>

record index_entry =
  e_ptr :: nat
  e_val :: u32

record git_delta_index =
  x_memsize :: nat
  x_src :: "byte list"
  x_mask :: u32
  x_hash :: "index_entry list list"

text \<open>
  The sizes are those of an LP64 target: 24 bytes for an entry, 8 for a pointer, 32 for the index.
  \<open>git__is_ulong\<close> holds of every \<open>size_t\<close> there.
\<close>

definition lookup_index_alloc :: "byte allocator \<Rightarrow> nat \<Rightarrow> nat \<Rightarrow> (int \<times> nat) option" where
  "lookup_index_alloc al entries hash_count =
     alloc_mul 0 entries 24 (\<lambda>entries_len.
     alloc_mul 0 hash_count 8 (\<lambda>hash_len.
     alloc_add 0 32 entries_len (\<lambda>index_len.
     alloc_add 0 index_len hash_len (\<lambda>index_len.
       if al index_len = None then Some (-1, 0) else Some (0, index_len)))))"

definition index_entries :: "nat \<Rightarrow> nat" where
  "index_entries bufsize =
     (if bufsize \<ge> 0xffffffff then 0xfffffffe div RABIN_WINDOW else (bufsize - 1) mod 2 ^ 32 div RABIN_WINDOW)"

text \<open>\<open>for (i = 4; i < 31 && (1u << i) < hsize; i++);\<close>\<close>

function hash_shift :: "nat \<Rightarrow> nat \<Rightarrow> nat" where
  "hash_shift i hsize = (if i < 31 \<and> 2 ^ i < hsize then hash_shift (i + 1) hsize else i)"
  by pat_completeness auto
termination by (relation "measure (\<lambda>(i, hsize). 31 - i)") auto

declare hash_shift.simps [simp del]

text \<open>
  One block: its fingerprint, then either a new entry at the head of its bucket or, for a block like the one before,
  a new pointer in the entry added last. That entry (\<open>entry[-1]\<close>) is the head of the same bucket.
\<close>

type_synonym index_state = "u32 \<times> index_entry list list \<times> nat list"

definition populate_step :: "byte list \<Rightarrow> u32 \<Rightarrow> nat \<Rightarrow> index_state \<Rightarrow> index_state option" where
  "populate_step buffer hmask data = (\<lambda>(prev_val, hash, hash_count).
     if length buffer \<le> data + RABIN_WINDOW then None
     else do {
       val \<leftarrow> rabin_bytes 0 (take RABIN_WINDOW (drop (data + 1) buffer));
       let i = unat (val AND hmask);
       bucket \<leftarrow> at hash i;
       if val = prev_val then
         case bucket of
           [] \<Rightarrow> None
         | entry # rest \<Rightarrow> Some (prev_val, hash[i := entry\<lparr>e_ptr := data + RABIN_WINDOW\<rparr> # rest], hash_count)
       else do {
         n \<leftarrow> at hash_count i;
         Some (val, hash[i := \<lparr>e_ptr = data + RABIN_WINDOW, e_val = val\<rparr> # bucket], hash_count[i := n + 1]) } })"

text \<open>The blocks are visited from the last to the first; \<open>populate b\<close> visits blocks \<open>b - 1, \<dots>, 0\<close>.\<close>

primrec populate :: "byte list \<Rightarrow> u32 \<Rightarrow> nat \<Rightarrow> index_state \<Rightarrow> index_state option" where
  "populate buffer hmask 0 st = Some st"
| "populate buffer hmask (Suc b) st = do { st1 \<leftarrow> populate_step buffer hmask (b * RABIN_WINDOW) st; populate buffer hmask b st1 }"

text \<open>The culling of a crowded bucket: \<open>skip_entries\<close> is the inner \<open>do\<close> loop, \<open>cull\<close> the outer one.\<close>

fun skip_entries :: "int \<Rightarrow> 'e list \<Rightarrow> 'e list" where
  "skip_entries skip [] = []"
| "skip_entries skip (entry # next) = (if skip - 1 \<noteq> 0 \<and> next \<noteq> [] then skip_entries (skip - 1) next else next)"

lemma skip_entries_shorter: "length (skip_entries skip es) \<le> length es - 1"
proof (induction es arbitrary: skip)
  case (Cons e es)
  show ?case using Cons.IH [of "skip - 1"] by (auto intro: le_trans)
qed simp

function cull :: "int \<Rightarrow> 'e list \<Rightarrow> 'e list" where
  "cull skip [] = []"
| "cull skip (keep # next) = keep # cull skip (skip_entries skip (keep # next))"
  by pat_completeness auto
termination
  by (relation "measure (\<lambda>(skip, es). length es)")
    (auto simp: less_Suc_eq_le simp del: skip_entries.simps intro: le_trans [OF skip_entries_shorter])

definition cull_bucket :: "nat \<Rightarrow> 'e list \<Rightarrow> 'e list" where
  "cull_bucket n bucket = (if n < HASH_LIMIT then bucket else cull (int (n div HASH_LIMIT div 2)) bucket)"

text \<open>A NULL buffer is the empty list; both give the NULL index with code 0.\<close>

definition git_delta_index_init :: "byte allocator \<Rightarrow> byte list \<Rightarrow> (int \<times> git_delta_index option) option" where
  "git_delta_index_init al buf =
     (if buf = [] then Some (0, None)
      else
        let entries = index_entries (length buf);
            hsize = 2 ^ hash_shift 4 (entries div 4);
            hmask = of_nat (hsize - 1) :: u32
        in do {
          (error, memsize) \<leftarrow> lookup_index_alloc al entries hsize;
          if error < 0 then Some (-1, None)
          else if al (hsize * 4) = None then Some (-1, None)
          else do {
            (prev_val, hash, hash_count) \<leftarrow> populate buf hmask entries (NOT 0, replicate hsize [], replicate hsize 0);
            Some (0, Some \<lparr>x_memsize = memsize, x_src = buf, x_mask = hmask, x_hash = map2 cull_bucket hash_count hash\<rparr>) } })"

definition git_delta_index_size :: "git_delta_index \<Rightarrow> nat" where
  "git_delta_index_size index = x_memsize index"

section \<open>The encoder\<close>

definition MAX_OP_SIZE :: nat where
  "MAX_OP_SIZE = 5 + 5 + 1 + RABIN_WINDOW + 7"

definition inc32 :: "nat \<Rightarrow> nat" where
  "inc32 n = (n + 1) mod 2 ^ 32"

definition dec32 :: "nat \<Rightarrow> nat" where
  "dec32 n = (n + (2 ^ 32 - 1)) mod 2 ^ 32"

record delta_state =
  d_buf :: "byte list"
  d_bufpos :: nat
  d_bufsize :: nat
  d_data :: nat
  d_inscnt :: int
  d_moff :: nat
  d_msize :: nat
  d_val :: u32

text \<open>\<open>buf[bufpos++] = b\<close> for each byte of a list.\<close>

definition emit :: "byte list \<Rightarrow> delta_state \<Rightarrow> delta_state option" where
  "emit bs st =
     (if d_bufpos st + length bs \<le> length (d_buf st)
      then Some (st\<lparr>d_buf := take (d_bufpos st) (d_buf st) @ bs @ drop (d_bufpos st + length bs) (d_buf st),
                    d_bufpos := d_bufpos st + length bs\<rparr>)
      else None)"

text \<open>\<open>buf[bufpos - inscnt - 1] = inscnt\<close>.\<close>

definition patch_count :: "delta_state \<Rightarrow> delta_state option" where
  "patch_count st =
     (let i = (int (d_bufpos st) - d_inscnt st - 1) mod 2 ^ 32 in
      if nat i < length (d_buf st) then Some (st\<lparr>d_buf := (d_buf st)[nat i := of_int (d_inscnt st)]\<rparr>) else None)"

text \<open>A size in seven-bit groups, least significant first.\<close>

function hdr_bytes :: "nat \<Rightarrow> byte list" where
  "hdr_bytes i = (if i \<ge> 0x80 then (of_nat i OR 0x80) # hdr_bytes (i div 2 ^ 7) else [of_nat i])"
  by pat_completeness auto
termination by (relation "measure id") auto

declare hdr_bytes.simps [simp del]

text \<open>\<open>while (ref_size-- && *src++ == *ref) ref++;\<close>: the number of bytes matched.\<close>

fun match_run :: "nat \<Rightarrow> byte list \<Rightarrow> byte list \<Rightarrow> nat" where
  "match_run (Suc n) (s # src) (r # ref) = (if s = r then Suc (match_run n src ref) else 0)"
| "match_run n src ref = 0"

text \<open>The walk through a bucket, with the best match so far.\<close>

definition match_room :: "byte list \<Rightarrow> byte list \<Rightarrow> nat \<Rightarrow> index_entry \<Rightarrow> nat" where
  "match_room src trg data entry =
     (let ref_size = (length src - e_ptr entry) mod 2 ^ 32; left = (length trg - data) mod 2 ^ 32 in
      if ref_size > left then left else ref_size)"

fun find_match :: "byte list \<Rightarrow> byte list \<Rightarrow> nat \<Rightarrow> u32 \<Rightarrow> index_entry list \<Rightarrow> nat \<Rightarrow> nat \<Rightarrow> nat \<times> nat" where
  "find_match src trg data val [] msize moff = (msize, moff)"
| "find_match src trg data val (entry # next) msize moff =
     (if e_val entry \<noteq> val then find_match src trg data val next msize moff
      else if match_room src trg data entry \<le> msize then (msize, moff)
      else
        let n = match_run (match_room src trg data entry) (drop data trg) (drop (e_ptr entry) src) in
        if msize < n \<and> n \<ge> 4096 then (n, e_ptr entry)
        else if msize < n then find_match src trg data val next n (e_ptr entry)
        else find_match src trg data val next msize moff)"

definition delta_match :: "git_delta_index \<Rightarrow> byte list \<Rightarrow> delta_state \<Rightarrow> delta_state option" where
  "delta_match index trg st =
     (if d_msize st < 4096 then
        if d_data st < RABIN_WINDOW then None
        else do {
          old \<leftarrow> at trg (d_data st - RABIN_WINDOW);
          u \<leftarrow> at delta_U (unat old);
          c \<leftarrow> at trg (d_data st);
          val \<leftarrow> rabin_push (d_val st XOR u) c;
          bucket \<leftarrow> at (x_hash index) (unat (val AND x_mask index));
          let (msize, moff) = find_match (x_src index) trg (d_data st) val bucket (d_msize st) (d_moff st);
          Some (st\<lparr>d_val := val, d_msize := msize, d_moff := moff\<rparr>) }
      else Some st)"

definition delta_literal :: "byte list \<Rightarrow> delta_state \<Rightarrow> delta_state option" where
  "delta_literal trg st = do {
     let st1 = (if d_inscnt st = 0 then st\<lparr>d_bufpos := inc32 (d_bufpos st)\<rparr> else st);
     c \<leftarrow> at trg (d_data st);
     st2 \<leftarrow> emit [c] st1;
     let st3 = st2\<lparr>d_data := d_data st + 1, d_inscnt := d_inscnt st + 1, d_msize := 0\<rparr>;
     if d_inscnt st3 = 0x7f then do { st4 \<leftarrow> patch_count st3; Some (st4\<lparr>d_inscnt := 0\<rparr>) }
     else Some st3 }"

text \<open>The loop that extends a match backwards over pending literals.\<close>

function back_match :: "byte list \<Rightarrow> byte list \<Rightarrow> delta_state \<Rightarrow> delta_state option" where
  "back_match src trg st =
     (if d_moff st = 0 then Some st
      else if d_data st = 0 then None
      else do {
        a \<leftarrow> at src (d_moff st - 1);
        b \<leftarrow> at trg (d_data st - 1);
        if a = b then
          let st1 = st\<lparr>d_msize := inc32 (d_msize st), d_moff := d_moff st - 1, d_data := d_data st - 1,
                       d_bufpos := dec32 (d_bufpos st), d_inscnt := d_inscnt st - 1\<rparr>
          in if d_inscnt st1 \<noteq> 0 then back_match src trg st1
             else Some (st1\<lparr>d_bufpos := dec32 (d_bufpos st1), d_inscnt := -1\<rparr>)
        else Some st })"
  by pat_completeness auto
termination by (relation "measure (\<lambda>(src, trg, st). d_moff st)") auto

declare back_match.simps [simp del]

text \<open>One conditional byte of a copy operation: \<open>if (v & mask) buf[bufpos++] = v >> s, i |= flag;\<close>\<close>

definition emit_arg :: "u32 \<Rightarrow> nat \<Rightarrow> byte \<Rightarrow> byte \<times> byte list \<Rightarrow> byte \<times> byte list" where
  "emit_arg v s flag = (\<lambda>(i, args).
     if v AND push_bit s 0xff \<noteq> 0 then (i OR flag, args @ [ucast (drop_bit s v)]) else (i, args))"

definition copy_op :: "u32 \<Rightarrow> u32 \<Rightarrow> byte list" where
  "copy_op moff msize =
     (case emit_arg msize 8 0x20 (emit_arg msize 0 0x10
             (emit_arg moff 24 0x08 (emit_arg moff 16 0x04 (emit_arg moff 8 0x02 (emit_arg moff 0 0x01 (0x80, []))))))
      of (i, args) \<Rightarrow> i # args)"

definition delta_copy :: "git_delta_index \<Rightarrow> byte list \<Rightarrow> delta_state \<Rightarrow> delta_state option" where
  "delta_copy index trg st = do {
     st1 \<leftarrow> (if d_inscnt st \<noteq> 0 then do {
               s1 \<leftarrow> back_match (x_src index) trg st;
               s2 \<leftarrow> patch_count s1;
               Some (s2\<lparr>d_inscnt := 0\<rparr>) }
             else Some st);
     let left = (if d_msize st1 < 0x10000 then 0 else d_msize st1 - 0x10000);
     let msize = d_msize st1 - left;
     st2 \<leftarrow> emit (copy_op (of_nat (d_moff st1)) (of_nat msize)) st1;
     let st3 = st2\<lparr>d_data := d_data st1 + msize, d_moff := (d_moff st1 + msize) mod 2 ^ 32, d_msize := left\<rparr>;
     if left < 4096 then
       if d_data st3 < RABIN_WINDOW \<or> length trg < d_data st3 then None
       else do {
         val \<leftarrow> rabin_bytes 0 (take RABIN_WINDOW (drop (d_data st3 - RABIN_WINDOW) trg));
         Some (st3\<lparr>d_val := val\<rparr>) }
     else Some st3 }"

text \<open>The end of an iteration: the buffer grows, the loop stops at the limit, or memory is exhausted.\<close>

datatype delta_outcome = Continue delta_state | Break delta_state | OutOfMemory

definition delta_room :: "byte allocator \<Rightarrow> nat \<Rightarrow> delta_state \<Rightarrow> delta_outcome" where
  "delta_room al max_size st =
     (if d_bufpos st \<ge> (d_bufsize st + (2 ^ 32 - MAX_OP_SIZE)) mod 2 ^ 32 then
        let bufsize = d_bufsize st * 3 mod 2 ^ 32 div 2;
            bufsize = (if max_size \<noteq> 0 \<and> bufsize \<ge> max_size then (max_size + MAX_OP_SIZE + 1) mod 2 ^ 32 else bufsize);
            st1 = st\<lparr>d_bufsize := bufsize\<rparr>
        in if max_size \<noteq> 0 \<and> d_bufpos st > max_size then Break st1
           else case realloc_cells al (d_buf st) bufsize of
                  None \<Rightarrow> OutOfMemory
                | Some buf \<Rightarrow> Continue (st1\<lparr>d_buf := buf\<rparr>)
      else Continue st)"

definition delta_step :: "byte allocator \<Rightarrow> git_delta_index \<Rightarrow> byte list \<Rightarrow> nat \<Rightarrow> delta_state \<Rightarrow> delta_outcome option" where
  "delta_step al index trg max_size st = do {
     st1 \<leftarrow> delta_match index trg st;
     st2 \<leftarrow> (if d_msize st1 < 4 then delta_literal trg st1 else delta_copy index trg st1);
     Some (delta_room al max_size st2) }"

text \<open>The main loop; the result \<open>Some None\<close> is the early return when memory is exhausted.\<close>

partial_function (option) delta_loop ::
    "byte allocator \<Rightarrow> git_delta_index \<Rightarrow> byte list \<Rightarrow> nat \<Rightarrow> delta_state \<Rightarrow> delta_state option option" where
  "delta_loop al index trg max_size st =
     (if d_data st < length trg then do {
        r \<leftarrow> delta_step al index trg max_size st;
        case r of
          Continue st1 \<Rightarrow> delta_loop al index trg max_size st1
        | Break st1 \<Rightarrow> Some (Some st1)
        | OutOfMemory \<Rightarrow> Some None }
      else Some (Some st))"

definition delta_start :: "git_delta_index \<Rightarrow> byte list \<Rightarrow> nat \<Rightarrow> byte list \<Rightarrow> delta_state option" where
  "delta_start index trg bufsize buf = do {
     let st0 = \<lparr>d_buf = buf, d_bufpos = 0, d_bufsize = bufsize, d_data = 0, d_inscnt = 0, d_moff = 0, d_msize = 0, d_val = 0\<rparr>;
     st1 \<leftarrow> emit (hdr_bytes (length (x_src index) mod 2 ^ 32)) st0;
     st2 \<leftarrow> emit (hdr_bytes (length trg mod 2 ^ 32)) st1;
     let window = take RABIN_WINDOW trg;
     st3 \<leftarrow> emit window (st2\<lparr>d_bufpos := inc32 (d_bufpos st2)\<rparr>);
     val \<leftarrow> rabin_bytes 0 window;
     Some (st3\<lparr>d_data := length window, d_inscnt := int (length window), d_val := val\<rparr>) }"

definition git_delta_create_from_index ::
    "byte allocator \<Rightarrow> git_delta_index \<Rightarrow> byte list \<Rightarrow> nat \<Rightarrow> (int \<times> byte list option) option" where
  "git_delta_create_from_index al index trg max_size =
     (if trg = [] then Some (0, None)
      else
        let bufsize = (if max_size \<noteq> 0 \<and> 8192 \<ge> max_size then max_size + MAX_OP_SIZE + 1 else 8192) in
        case al bufsize of
          None \<Rightarrow> Some (-1, None)
        | Some buf \<Rightarrow> do {
            st0 \<leftarrow> delta_start index trg bufsize buf;
            r \<leftarrow> delta_loop al index trg max_size st0;
            case r of
              None \<Rightarrow> Some (-1, None)
            | Some st1 \<Rightarrow> do {
                st2 \<leftarrow> (if d_inscnt st1 \<noteq> 0 then patch_count st1 else Some st1);
                if max_size \<noteq> 0 \<and> d_bufpos st2 > max_size then Some (GIT_EBUFS, None)
                else Some (0, Some (take (d_bufpos st2) (d_buf st2))) } })"

definition git_delta :: "byte allocator \<Rightarrow> byte list \<Rightarrow> byte list \<Rightarrow> nat \<Rightarrow> (int \<times> byte list option) option" where
  "git_delta al src trg max_delta_size = do {
     (error, index) \<leftarrow> git_delta_index_init al src;
     if error < 0 then Some (error, None)
     else case index of
            None \<Rightarrow> Some (error, None)
          | Some ix \<Rightarrow> git_delta_create_from_index al ix trg max_delta_size }"

section \<open>The decoder\<close>

text \<open>
  The bytes from \<open>*delta\<close> to the end of the delta are a list. A group is shifted as an \<open>unsigned int\<close>: a shift
  of 32 or more is undefined (\<open>None\<close>). The result is the code, the size and the bytes left.
\<close>

fun hdr_loop :: "byte list \<Rightarrow> u32 \<Rightarrow> nat \<Rightarrow> (int \<times> nat \<times> byte list) option" where
  "hdr_loop [] r shift = Some (-1, 0, [])"
| "hdr_loop (c # d) r shift =
     (if shift \<ge> 32 then None
      else
        let r1 = r OR push_bit shift (ucast c AND 0x7f) in
        if c AND 0x80 \<noteq> 0 then hdr_loop d r1 (shift + 7) else Some (0, unat r1, d))"

definition hdr_sz :: "byte list \<Rightarrow> (int \<times> nat \<times> byte list) option" where
  "hdr_sz delta = hdr_loop delta 0 0"

definition git_delta_read_header :: "byte list \<Rightarrow> (int \<times> nat \<times> nat) option" where
  "git_delta_read_header delta = do {
     (e1, base_sz, d1) \<leftarrow> hdr_sz delta;
     if e1 < 0 then Some (-1, 0, 0)
     else do {
       (e2, res_sz, d2) \<leftarrow> hdr_sz d1;
       if e2 < 0 then Some (-1, base_sz, 0) else Some (0, base_sz, res_sz) } }"

text \<open>
  \<open>if (cmd & flag) v |= *delta++ << s;\<close> on a \<open>size_t\<close>. A read past the end of the delta is \<open>None\<close>, and so is
  the shift of a byte above 127 by 24, which overflows the \<open>int\<close> the byte is promoted to.
\<close>

definition read_arg :: "byte \<Rightarrow> byte \<Rightarrow> nat \<Rightarrow> u64 \<times> byte list \<Rightarrow> (u64 \<times> byte list) option" where
  "read_arg cmd flag s = (\<lambda>(v, delta).
     if cmd AND flag \<noteq> 0 then
       case delta of
         [] \<Rightarrow> None
       | b # rest \<Rightarrow> if s = 24 \<and> b \<ge> 0x80 then None else Some (v OR push_bit s (ucast b), rest)
     else Some (v, delta))"

definition read_copy :: "byte \<Rightarrow> byte list \<Rightarrow> (u64 \<times> u64 \<times> byte list) option" where
  "read_copy cmd d0 = do {
     a1 \<leftarrow> read_arg cmd 0x01 0 (0, d0);
     a2 \<leftarrow> read_arg cmd 0x02 8 a1;
     a3 \<leftarrow> read_arg cmd 0x04 16 a2;
     (off, d1) \<leftarrow> read_arg cmd 0x08 24 a3;
     b1 \<leftarrow> read_arg cmd 0x10 0 (0, d1);
     b2 \<leftarrow> read_arg cmd 0x20 8 b1;
     (len, d2) \<leftarrow> read_arg cmd 0x40 16 b2;
     Some (off, if len = 0 then 0x10000 else len, d2) }"

lemma read_arg_shorter: "read_arg cmd flag s (v, d) = Some (v', d') \<Longrightarrow> length d' \<le> length d"
  by (auto simp: read_arg_def split: if_splits list.splits)

lemma read_copy_shorter: "read_copy cmd d = Some (off, len, d') \<Longrightarrow> length d' \<le> length d"
  unfolding read_copy_def by (auto simp: bind_eq_Some_conv dest!: read_arg_shorter)

text \<open>The loop over the operations: the bytes written to the result and the space left in it.\<close>

function apply_loop :: "byte list \<Rightarrow> byte list \<Rightarrow> byte list \<Rightarrow> nat \<Rightarrow> (int \<times> byte list option) option" where
  "apply_loop base [] out res_sz = (if res_sz \<noteq> 0 then Some (-1, None) else Some (0, Some out))"
| "apply_loop base (cmd # delta) out res_sz =
     (if cmd AND 0x80 \<noteq> 0 then
        case read_copy cmd delta of
          None \<Rightarrow> None
        | Some (off, len, rest) \<Rightarrow>
            if length base < unat (off + len) \<or> res_sz < unat len then Some (-1, None)
            else apply_loop base rest (out @ take (unat len) (drop (unat off) base)) (res_sz - unat len)
      else if cmd \<noteq> 0 then
        if length delta < unat cmd \<or> res_sz < unat cmd then Some (-1, None)
        else apply_loop base (drop (unat cmd) delta) (out @ take (unat cmd) delta) (res_sz - unat cmd)
      else Some (-1, None))"
  by pat_completeness auto
termination
  by (relation "measure (\<lambda>(base, delta, out, res_sz). length delta)")
    (auto dest: read_copy_shorter simp: less_Suc_eq_le)

definition git_delta_apply :: "byte allocator \<Rightarrow> byte list \<Rightarrow> byte list \<Rightarrow> (int \<times> byte list option) option" where
  "git_delta_apply al base delta = do {
     (e1, base_sz, d1) \<leftarrow> hdr_sz delta;
     if e1 < 0 \<or> base_sz \<noteq> length base then Some (-1, None)
     else do {
       (e2, res_sz, d2) \<leftarrow> hdr_sz d1;
       if e2 < 0 then Some (-1, None)
       else alloc_add None res_sz 1 (\<lambda>alloc_sz.
         if al alloc_sz = None then Some (-1, None) else apply_loop base d2 [] res_sz) } }"

end
