(* ===== verification/DeltaSpec.thy ===== *)
theory DeltaSpec
  imports Delta
begin

text \<open>What delta.c promises: memory safety of the encoder, and the decoder undoes it.\<close>

section \<open>The fingerprint stays below \<open>2 ^ 31\<close>\<close>

lemma length_delta_tables [simp]: "length delta_T = 256" "length delta_U = 256"
  by (simp_all add: delta_T_def delta_U_def)

lemma delta_T_top: "map (\<lambda>t. bit t 31) delta_T = map odd [0..<256]"
  by code_simp

lemma delta_U_top: "list_all (\<lambda>t. \<not> bit t 31) delta_U"
  by code_simp

lemma delta_T_bit: "i < 256 \<Longrightarrow> bit (delta_T ! i) 31 = odd i"
  using arg_cong [OF delta_T_top, of "\<lambda>xs. xs ! i"] by simp

lemma delta_U_bit: "i < 256 \<Longrightarrow> \<not> bit (delta_U ! i) 31"
  using delta_U_top by (simp add: list_all_length)

lemma rabin_push_ok:
  assumes "\<not> bit val 31"
  shows "\<exists>v. rabin_push val c = Some v \<and> \<not> bit v 31"
proof -
  let ?i = "unat (drop_bit RABIN_SHIFT val)"
  have "take_bit 8 (drop_bit 23 val) = drop_bit 23 val"
  proof (rule bit_word_eqI)
    fix n
    have "n < 8" if "bit val (23 + n)"
      using that assms bit_imp_le_length [OF that] by (cases "n = 8") auto
    then show "bit (take_bit 8 (drop_bit 23 val)) n = bit (drop_bit 23 val) n" by (auto simp: bit_simps)
  qed
  then have "take_bit 8 ?i = ?i" by (simp add: RABIN_SHIFT_def flip: unsigned_take_bit_eq)
  then have i: "?i < 256" using take_bit_nat_less_exp [of 8 ?i] by simp
  have "bit ?i 0 = bit val 23" by (simp only: RABIN_SHIFT_def bit_unsigned_iff bit_drop_bit_eq) simp
  then have "odd ?i = bit val 23" by (simp only: bit_0)
  then show ?thesis using i delta_T_bit [OF i] by (auto simp: rabin_push_def at_def bit_simps bit_byte_high)
qed


lemma rabin_bytes_ok: "\<not> bit val 31 \<Longrightarrow> \<exists>v. rabin_bytes val bs = Some v \<and> \<not> bit v 31"
proof (induction bs arbitrary: val)
  case (Cons b bs)
  obtain v where "rabin_push val b = Some v" "\<not> bit v 31" using rabin_push_ok [OF Cons.prems] by blast
  then show ?case using Cons.IH by simp
qed simp

section \<open>The index\<close>

definition index_ok :: "git_delta_index \<Rightarrow> bool" where
  "index_ok ix \<longleftrightarrow> length (x_hash ix) = Suc (unat (x_mask ix)) \<and>
     (\<forall>bucket\<in>set (x_hash ix). \<forall>e\<in>set bucket. e_ptr e < length (x_src ix))"

lemma hash_shift_range: "4 \<le> i \<Longrightarrow> i \<le> 31 \<Longrightarrow> 4 \<le> hash_shift i h \<and> hash_shift i h \<le> 31"
  by (induction i h rule: hash_shift.induct) (subst (1 2) hash_shift.simps, auto)

lemma unat_and_mask: "unat (val AND m) < Suc (unat (m :: u32))"
  using word_and_le1 [of val m] by (simp add: less_Suc_eq_le word_le_nat_alt and.commute)

lemma at_Some [simp]: "i < length xs \<Longrightarrow> at xs i = Some (xs ! i)"
  by (simp add: at_def)

definition populated :: "byte list \<Rightarrow> u32 \<Rightarrow> index_state \<Rightarrow> bool" where
  "populated buf hmask = (\<lambda>(prev, hash, cnt). length hash = Suc (unat hmask) \<and> length cnt = Suc (unat hmask) \<and>
     (\<forall>bucket\<in>set hash. \<forall>e\<in>set bucket. e_ptr e < length buf) \<and>
     (\<not> bit prev 31 \<longrightarrow> hash ! unat (prev AND hmask) \<noteq> []))"

lemma populate_step_ok:
  assumes st: "populated buf hmask st" and data: "data + 16 < length buf"
  shows "\<exists>st1. populate_step buf hmask data st = Some st1 \<and> populated buf hmask st1"
proof -
  obtain prev hash cnt where st_eq: "st = (prev, hash, cnt)" by (cases st)
  have len: "length hash = Suc (unat hmask)" "length cnt = Suc (unat hmask)"
    and ptrs: "\<forall>bucket\<in>set hash. \<forall>e\<in>set bucket. e_ptr e < length buf"
    and last: "\<not> bit prev 31 \<longrightarrow> hash ! unat (prev AND hmask) \<noteq> []" using st by (auto simp: populated_def st_eq)
  obtain val where val: "rabin_bytes 0 (take RABIN_WINDOW (drop (data + 1) buf)) = Some val" "\<not> bit val 31"
    using rabin_bytes_ok by (metis bit_0_eq bot_apply bot_bool_def)
  let ?i = "unat (val AND hmask)"
  have i: "?i < length hash" "?i < length cnt" using unat_and_mask [of val hmask] len by simp_all
  have b: "\<forall>e\<in>set (hash ! ?i). e_ptr e < length buf" using ptrs i(1) nth_mem by blast
  show ?thesis
  proof (cases "val = prev")
    case True
    then obtain e rest where e: "hash ! ?i = e # rest" using last val(2) by (metis list.exhaust)
    have "populated buf hmask (prev, hash[?i := e\<lparr>e_ptr := data + RABIN_WINDOW\<rparr> # rest], cnt)"
      using len ptrs b e i data True by (auto simp: populated_def RABIN_WINDOW_def dest!: set_update_subset_insert [THEN subsetD])
    then show ?thesis using data val e i True by (simp add: populate_step_def st_eq RABIN_WINDOW_def Let_def)
  next
    case False
    have "populated buf hmask (val, hash[?i := \<lparr>e_ptr = data + RABIN_WINDOW, e_val = val\<rparr> # hash ! ?i], cnt[?i := cnt ! ?i + 1])"
      using len ptrs b i data by (auto simp: populated_def RABIN_WINDOW_def dest!: set_update_subset_insert [THEN subsetD])
    then show ?thesis using data val i False by (simp add: populate_step_def st_eq RABIN_WINDOW_def Let_def)
  qed
qed

lemma populate_ok:
  "populated buf hmask st \<Longrightarrow> b * 16 < length buf \<Longrightarrow> \<exists>st1. populate buf hmask b st = Some st1 \<and> populated buf hmask st1"
proof (induction b arbitrary: st)
  case (Suc b)
  then obtain st1 where "populate_step buf hmask (b * RABIN_WINDOW) st = Some st1" "populated buf hmask st1"
    using populate_step_ok [of buf hmask st "b * 16"] by (auto simp: RABIN_WINDOW_def)
  then show ?case using Suc.IH [of st1] Suc.prems by simp
qed simp

lemma skip_entries_subset: "set (skip_entries skip es) \<subseteq> set es"
  by (induction skip es rule: skip_entries.induct) (auto split: if_splits)

lemma cull_subset: "set (cull skip es) \<subseteq> set es"
proof (induction skip es rule: cull.induct)
  case (2 skip keep es)
  then show ?case using skip_entries_subset [of skip "keep # es"] by (auto simp del: skip_entries.simps)
qed simp

lemma cull_bucket_subset: "set (cull_bucket n es) \<subseteq> set es"
  by (simp add: cull_bucket_def cull_subset)

lemma git_delta_index_init_ok:
  assumes al: "good_alloc al" and src: "length src < 2 ^ 32" "src \<noteq> []"
  shows "\<exists>r ix. git_delta_index_init al src = Some (r, ix) \<and>
    (r = 0 \<and> (\<exists>x. ix = Some x \<and> index_ok x \<and> x_src x = src) \<or> r = -1 \<and> ix = None \<and> \<not> total_alloc al)"
proof -
  define entries where "entries = index_entries (length src)"
  define sh where "sh = hash_shift 4 (entries div 4)"
  define hmask where "hmask = (of_nat (2 ^ sh - 1) :: u32)"
  have sh: "4 \<le> sh" "sh \<le> 31" using hash_shift_range [of 4 "entries div 4"] by (auto simp: sh_def)
  have pow: "(2 :: nat) ^ sh \<le> 2 ^ 31" using sh by (intro power_increasing) auto
  then have "unat hmask = 2 ^ sh - 1" by (simp only: hmask_def unat_of_nat) simp
  then have mask: "Suc (unat hmask) = 2 ^ sh" by simp
  have "entries * 16 < length src"
    using src by (cases src) (auto simp: entries_def index_entries_def RABIN_WINDOW_def less_Suc_eq_le div_mult_self_is_m)
  moreover have "entries < 2 ^ 28" using calculation src by simp
  ultimately have ent: "entries * 16 < length src" "entries * 24 < 2 ^ 34" by simp_all
  let ?st = "(NOT 0 :: u32, replicate (2 ^ sh) [] :: index_entry list list, replicate (2 ^ sh) (0 :: nat))"
  have "populated src hmask ?st" by (simp add: populated_def mask bit_simps)
  then obtain prev hash cnt where pop: "populate src hmask entries ?st = Some (prev, hash, cnt)" "populated src hmask (prev, hash, cnt)"
    using populate_ok [OF _ ent(1)] by (metis prod_cases3)
  let ?h = "map2 cull_bucket cnt hash"
  have "index_ok \<lparr>x_memsize = m, x_src = src, x_mask = hmask, x_hash = ?h\<rparr>" for m
    using pop(2) cull_bucket_subset by (fastforce simp: index_ok_def populated_def dest!: set_zip_rightD)
  moreover have "lookup_index_alloc al entries (2 ^ sh) =
      (if al (32 + entries * 24 + 2 ^ sh * 8) = None then Some (-1, 0) else Some (0, 32 + entries * 24 + 2 ^ sh * 8))"
    using ent(2) pow by (simp add: lookup_index_alloc_def)
  moreover have "git_delta_index_init al src = do {
      (error, memsize) \<leftarrow> lookup_index_alloc al entries (2 ^ sh);
      if error < 0 then Some (-1, None)
      else if al (2 ^ sh * 4) = None then Some (-1, None)
      else do {
        (prev_val, hash, hash_count) \<leftarrow> populate src hmask entries ?st;
        Some (0, Some \<lparr>x_memsize = memsize, x_src = src, x_mask = hmask, x_hash = map2 cull_bucket hash_count hash\<rparr>) } }"
    unfolding git_delta_index_init_def Let_def entries_def [symmetric] sh_def [symmetric] hmask_def [symmetric] using src(2) by simp
  ultimately show ?thesis
    using pop(1) by (simp add: total_alloc_def) metis
qed


section \<open>What a sequence of operations decodes to\<close>

definition produces :: "byte list \<Rightarrow> byte list \<Rightarrow> byte list \<Rightarrow> bool" where
  "produces base ops seg \<longleftrightarrow>
     (\<forall>rest out n. length seg \<le> n \<longrightarrow> apply_loop base (ops @ rest) out n = apply_loop base rest (out @ seg) (n - length seg))"

lemma produces_Nil: "produces base [] []"
  by (simp add: produces_def)

lemma produces_append:
  assumes a: "produces base ops1 seg1" and b: "produces base ops2 seg2"
  shows "produces base (ops1 @ ops2) (seg1 @ seg2)"
  unfolding produces_def
proof (intro allI impI)
  fix rest out n assume n: "length (seg1 @ seg2) \<le> n"
  then have "apply_loop base (ops1 @ (ops2 @ rest)) out n = apply_loop base (ops2 @ rest) (out @ seg1) (n - length seg1)"
    using a unfolding produces_def by (metis add_leD1 length_append)
  also have "\<dots> = apply_loop base rest ((out @ seg1) @ seg2) (n - length seg1 - length seg2)"
    using b n unfolding produces_def by (metis add.commute le_diff_conv2 length_append add_leD1)
  finally show "apply_loop base ((ops1 @ ops2) @ rest) out n = apply_loop base rest (out @ seg1 @ seg2) (n - length (seg1 @ seg2))"
    by simp
qed

lemma produces_insert:
  assumes "lits \<noteq> []" and "length lits < 128"
  shows "produces base (of_nat (length lits) # lits) lits"
proof -
  let ?c = "of_nat (length lits) :: byte"
  have n: "unat ?c = length lits" using assms(2) by (simp add: unat_of_nat)
  have "?c < 128" using n assms(2) by (simp add: word_less_nat_alt)
  then have "?c AND 0x80 = 0"
    by (rule all_bytes [of "\<lambda>c. c < 128 \<longrightarrow> c AND 0x80 = 0", THEN mp, rotated]) code_simp
  moreover have "?c \<noteq> 0" using n assms(1) by (metis length_0_conv unat_0)
  ultimately show ?thesis by (simp add: produces_def n)
qed

definition arg_bytes :: "u32 \<Rightarrow> nat \<Rightarrow> byte list" where
  "arg_bytes v s = (if v AND push_bit s 0xff \<noteq> 0 then [ucast (drop_bit s v)] else [])"

definition arg_value :: "u32 \<Rightarrow> nat \<Rightarrow> u64" where
  "arg_value v s = push_bit s (ucast (ucast (drop_bit s v) :: byte))"

lemma emit_arg_eq:
  "emit_arg v s flag (i, args) = (i OR (if v AND push_bit s 0xff \<noteq> 0 then flag else 0), args @ arg_bytes v s)"
  by (simp add: emit_arg_def arg_bytes_def)

lemma arg_zero: "(v :: u32) AND push_bit s 0xff = 0 \<Longrightarrow> s + 8 \<le> 32 \<Longrightarrow> (ucast (drop_bit s v) :: byte) = 0"
proof (rule bit_word_eqI)
  fix n assume z: "v AND push_bit s 0xff = 0" and "s + 8 \<le> 32" "n < LENGTH(8)"
  have m: "(0xff :: u32) = mask 8" by (simp add: mask_eq_exp_minus_1)
  have "\<not> bit (v AND push_bit s 0xff) (s + n)" using z by simp
  then have "\<not> bit v (s + n)" using \<open>n < LENGTH(8)\<close> \<open>s + 8 \<le> 32\<close> unfolding m by (simp add: bit_simps)
  then show "bit (ucast (drop_bit s v) :: byte) n = bit 0 n" by (simp add: bit_simps add.commute)
qed

lemma read_arg_bytes:
  assumes cmd: "(cmd AND flag \<noteq> 0) = (v AND push_bit s 0xff \<noteq> 0)" and s: "s + 8 \<le> 32"
    and top: "s = 24 \<Longrightarrow> \<not> bit v 31"
  shows "read_arg cmd flag s (w, arg_bytes v s @ rest) = Some (w OR arg_value v s, rest)"
proof (cases "v AND push_bit s 0xff = 0")
  case True
  then show ?thesis using cmd arg_zero [OF True s] by (simp add: read_arg_def arg_bytes_def arg_value_def)
next
  case False
  have "\<not> bit (ucast (drop_bit s v) :: byte) 7" if "s = 24" using top that by (simp add: bit_simps)
  moreover have "x < 0x80" if "\<not> bit x 7" for x :: byte
    using that by (rule all_bytes [of "\<lambda>x. \<not> bit x 7 \<longrightarrow> x < 0x80", THEN mp, rotated]) code_simp
  ultimately show ?thesis
    using cmd False by (auto simp: read_arg_def arg_bytes_def arg_value_def not_le [symmetric])
qed

lemma arg_values_u32: "arg_value v 0 OR arg_value v 8 OR arg_value v 16 OR arg_value v 24 = ucast v"
proof (rule bit_word_eqI)
  fix n assume "n < LENGTH(64)"
  consider "n < 8" | "8 \<le> n" "n < 16" | "16 \<le> n" "n < 24" | "24 \<le> n" "n < 32" | "32 \<le> n" by linarith
  then show "bit (arg_value v 0 OR arg_value v 8 OR arg_value v 16 OR arg_value v 24) n = bit (ucast v :: u64) n"
    by cases (auto simp: arg_value_def bit_simps dest: bit_imp_le_length)
qed

lemma arg_values_u16: "arg_value v 0 OR arg_value v 8 = ucast (v AND 0xffff)"
proof (rule bit_word_eqI)
  fix n assume "n < LENGTH(64)"
  have m: "(0xffff :: u32) = mask 16" by (simp add: mask_eq_exp_minus_1)
  consider "n < 8" | "8 \<le> n" "n < 16" | "16 \<le> n" by linarith
  then show "bit (arg_value v 0 OR arg_value v 8) n = bit (ucast (v AND 0xffff) :: u64) n"
    unfolding m by cases (auto simp: arg_value_def bit_simps dest: bit_imp_le_length)
qed

definition cmd_byte :: "bool \<Rightarrow> bool \<Rightarrow> bool \<Rightarrow> bool \<Rightarrow> bool \<Rightarrow> bool \<Rightarrow> byte" where
  "cmd_byte a b c d e f =
     ((((((0x80 OR (if a then 0x01 else 0)) OR (if b then 0x02 else 0)) OR (if c then 0x04 else 0)) OR (if d then 0x08 else 0))
        OR (if e then 0x10 else 0)) OR (if f then 0x20 else 0))"

lemma cmd_byte_flags:
  "cmd_byte a b c d e f AND 0x80 \<noteq> 0" "(cmd_byte a b c d e f AND 0x01 \<noteq> 0) = a" "(cmd_byte a b c d e f AND 0x02 \<noteq> 0) = b"
  "(cmd_byte a b c d e f AND 0x04 \<noteq> 0) = c" "(cmd_byte a b c d e f AND 0x08 \<noteq> 0) = d" "(cmd_byte a b c d e f AND 0x10 \<noteq> 0) = e"
  "(cmd_byte a b c d e f AND 0x20 \<noteq> 0) = f" "cmd_byte a b c d e f AND 0x40 = 0"
  by (cases a; cases b; cases c; cases d; cases e; cases f; simp add: cmd_byte_def)+

lemma copy_op_eq:
  "copy_op moff msize =
     cmd_byte (moff AND push_bit 0 0xff \<noteq> 0) (moff AND push_bit 8 0xff \<noteq> 0) (moff AND push_bit 16 0xff \<noteq> 0)
       (moff AND push_bit 24 0xff \<noteq> 0) (msize AND push_bit 0 0xff \<noteq> 0) (msize AND push_bit 8 0xff \<noteq> 0) #
     arg_bytes moff 0 @ arg_bytes moff 8 @ arg_bytes moff 16 @ arg_bytes moff 24 @ arg_bytes msize 0 @ arg_bytes msize 8"
  unfolding copy_op_def emit_arg_eq cmd_byte_def by (simp only: prod.case append_assoc append_Nil)

lemma length_copy_op: "length (copy_op moff msize) \<le> 7"
  unfolding copy_op_eq by (simp add: arg_bytes_def)

lemma read_copy_args:
  assumes top: "\<not> bit moff 31"
    and flags: "(cmd AND 0x01 \<noteq> 0) = (moff AND push_bit 0 0xff \<noteq> 0)" "(cmd AND 0x02 \<noteq> 0) = (moff AND push_bit 8 0xff \<noteq> 0)"
      "(cmd AND 0x04 \<noteq> 0) = (moff AND push_bit 16 0xff \<noteq> 0)" "(cmd AND 0x08 \<noteq> 0) = (moff AND push_bit 24 0xff \<noteq> 0)"
      "(cmd AND 0x10 \<noteq> 0) = (msize AND push_bit 0 0xff \<noteq> 0)" "(cmd AND 0x20 \<noteq> 0) = (msize AND push_bit 8 0xff \<noteq> 0)"
      "cmd AND 0x40 = 0"
  shows "read_copy cmd (arg_bytes moff 0 @ arg_bytes moff 8 @ arg_bytes moff 16 @ arg_bytes moff 24 @ arg_bytes msize 0 @ arg_bytes msize 8 @ rest) =
    Some (ucast moff, if ucast (msize AND 0xffff) = (0 :: u64) then 0x10000 else ucast (msize AND 0xffff), rest)"
proof -
  have z: "read_arg cmd 0x40 16 (w, r) = Some (w, r)" for w r using flags(7) by (simp add: read_arg_def)
  note r = read_arg_bytes [OF flags(1)] read_arg_bytes [OF flags(2)] read_arg_bytes [OF flags(3)]
    read_arg_bytes [OF flags(4)] read_arg_bytes [OF flags(5)] read_arg_bytes [OF flags(6)]
  have v: "((arg_value moff 0 OR arg_value moff 8) OR arg_value moff 16) OR arg_value moff 24 = ucast moff"
    using arg_values_u32 [of moff] by (simp add: or.assoc)
  show ?thesis
    by (simp add: read_copy_def r z top v arg_values_u16 [of msize])
qed


lemma unat_ucast64: "unat (ucast (x :: u32) :: u64) = unat x"
proof -
  have "unat x < 2 ^ 64" using unsigned_less [of x] by (rule less_trans) simp
  then show ?thesis by (simp add: unsigned_ucast_eq take_bit_nat_eq_self)
qed

lemma produces_copy:
  assumes m: "0 < msize" "msize \<le> 0x10000" "moff + msize \<le> length base" and b: "length base < 2 ^ 31"
  shows "produces base (copy_op (of_nat moff) (of_nat msize)) (take msize (drop moff base))"
proof -
  let ?o = "of_nat moff :: u32" and ?m = "of_nat msize :: u32"
  have o: "unat ?o = moff" using m b by (simp add: unat_of_nat)
  then have "unat ?o < 2 ^ 31" using m b by simp
  then have top: "\<not> bit ?o 31"
    using bit_unsigned_iff [of ?o 31, where 'a = nat] by (simp add: bit_iff_odd [of "unat ?o"])
  have "unat (?m AND 0xffff) = msize mod 2 ^ 16"
  proof -
    have "?m AND 0xffff = take_bit 16 ?m" by (simp add: take_bit_eq_mask mask_eq_exp_minus_1)
    then show ?thesis using m by (simp only: unsigned_take_bit_eq) (simp add: unat_of_nat take_bit_eq_mod)
  qed
  then have low: "unat (ucast (?m AND 0xffff) :: u64) = msize mod 2 ^ 16" by (simp add: unat_ucast64)
  let ?len = "if ucast (?m AND 0xffff) = (0 :: u64) then 0x10000 else ucast (?m AND 0xffff) :: u64"
  have len: "unat ?len = msize"
  proof (cases "msize = 0x10000")
    case True
    then have "unat (ucast (?m AND 0xffff) :: u64) = 0" using low by simp
    then show ?thesis using True by (simp add: unat_eq_0)
  next
    case False
    then have "unat (ucast (?m AND 0xffff) :: u64) = msize" using low m by simp
    then show ?thesis using m by auto
  qed
  have off: "unat (ucast ?o :: u64) = moff" using o by (simp add: unat_ucast64)
  have sum: "unat (ucast ?o + ?len) = moff + msize" using off len m b by (simp add: unat_add_lem [THEN iffD1])
  show ?thesis
    unfolding produces_def copy_op_eq append.simps append_assoc
    using read_copy_args [OF top, of "cmd_byte _ _ _ _ _ _"] off len sum m
    by (simp add: cmd_byte_flags read_copy_args [OF top])
qed


section \<open>The header\<close>

lemma hdr_group:
  assumes "i < 2 ^ 32"
  shows "(ucast ((of_nat i :: byte) OR 0x80) AND 0x7f) OR push_bit 7 (of_nat (i div 2 ^ 7)) = (of_nat i :: u32)"
proof -
  have d: "(of_nat (i div 2 ^ 7) :: u32) = drop_bit 7 (of_nat i)"
    using assms by (simp add: word_eq_iff_unsigned [where ?'a = nat] unat_div_distrib unat_of_nat drop_bit_eq_div div_le_dividend [THEN le_less_trans])
  have m: "(0x7f :: u32) = mask 7" by (simp add: mask_eq_exp_minus_1)
  have b: "(0x80 :: byte) = push_bit 7 1" "(0x80 :: u32) = push_bit 7 1" "(0x80 :: nat) = push_bit 7 1" by simp_all
  show ?thesis
    unfolding d m
  proof (rule bit_word_eqI)
    fix n assume "n < LENGTH(32)"
    then show "bit ((ucast ((of_nat i :: byte) OR 0x80) AND mask 7) OR push_bit 7 (drop_bit 7 (of_nat i)) :: u32) n = bit (of_nat i :: u32) n"
      by (cases "n < 7") (auto simp: b bit_simps simp del: push_bit_of_1 push_bit_numeral)
  qed
qed

lemma low_group: "i < 0x80 \<Longrightarrow> (ucast (of_nat i :: byte) AND 0x7f) = (of_nat i :: u32) \<and> (of_nat i :: byte) AND 0x80 = 0"
proof -
  assume i: "i < 0x80"
  let ?c = "of_nat i :: byte"
  have n: "unat ?c = i" using i by (simp add: unat_of_nat)
  then have "?c < 0x80" using i by (simp add: word_less_nat_alt)
  then have "ucast ?c AND 0x7f = (ucast ?c :: u32) \<and> ?c AND 0x80 = 0"
    by (rule all_bytes [of "\<lambda>c. c < 0x80 \<longrightarrow> ucast c AND 0x7f = (ucast c :: u32) \<and> c AND 0x80 = 0", THEN mp, rotated]) code_simp
  moreover have "(ucast ?c :: u32) = of_nat i" using n by (metis of_nat_unat)
  ultimately show ?thesis by simp
qed

lemma hdr_loop_bytes:
  "i * 2 ^ shift < 2 ^ 32 \<Longrightarrow> shift < 32 \<Longrightarrow>
   hdr_loop (hdr_bytes i @ rest) r shift = Some (0, unat (r OR push_bit shift (of_nat i)), rest)"
proof (induction i arbitrary: r shift rule: hdr_bytes.induct)
  case (1 i)
  have i: "i < 2 ^ 32" using 1(2) by (rule le_less_trans [rotated]) simp
  show ?case
  proof (cases "i \<ge> 0x80")
    case True
    have "(i div 2 ^ 7) * 2 ^ (shift + 7) \<le> i * 2 ^ shift"
      by (simp add: power_add mult.commute [of _ "128 :: nat"] mult.assoc)
    then have lt: "(i div 2 ^ 7) * 2 ^ (shift + 7) < 2 ^ 32" using 1(2) by linarith
    have "1 * 2 ^ (shift + 7) \<le> (i div 2 ^ 7) * 2 ^ (shift + 7)" using True by (intro mult_le_mono1) simp
    then have "(2 :: nat) ^ (shift + 7) < 2 ^ 32" using lt by linarith
    then have sh: "shift + 7 < 32" by (simp only: power_strict_increasing_iff)
    have c: "((of_nat i :: byte) OR 0x80) AND 0x80 \<noteq> 0"
      by (rule all_bytes [of "\<lambda>c. (c OR 0x80) AND 0x80 \<noteq> 0"]) code_simp
    have "r OR push_bit shift (ucast ((of_nat i :: byte) OR 0x80) AND 0x7f) OR push_bit (shift + 7) (of_nat (i div 2 ^ 7)) =
        r OR push_bit shift (of_nat i)"
      using hdr_group [OF i] by (metis (no_types, lifting) or.assoc push_bit_or push_bit_push_bit)
    then show ?thesis using 1(1) [OF True lt sh] True c 1(3) by (subst hdr_bytes.simps) (simp add: Let_def or.assoc)
  next
    case False
    then have b: "(ucast (of_nat i :: byte) AND 0x7f) = (of_nat i :: u32)" "(of_nat i :: byte) AND 0x80 = 0"
      using low_group [of i] by auto
    then show ?thesis using False 1(3) by (subst hdr_bytes.simps) simp
  qed
qed

lemma hdr_sz_bytes: "i < 2 ^ 32 \<Longrightarrow> hdr_sz (hdr_bytes i @ rest) = Some (0, i, rest)"
  using hdr_loop_bytes [of i 0 rest 0] by (simp add: hdr_sz_def unat_of_nat)

lemma length_hdr_bytes: "i < 128 ^ Suc k \<Longrightarrow> length (hdr_bytes i) \<le> Suc k"
proof (induction k arbitrary: i)
  case (Suc k)
  have "i div 128 < 128 ^ Suc k" using Suc.prems by (simp add: less_mult_imp_div_less mult.commute)
  then show ?case using Suc.IH [of "i div 128"] by (subst hdr_bytes.simps) simp
qed (simp add: hdr_bytes.simps)

end
