(* ===== verification/DeltaEnc.thy ===== *)
theory DeltaEnc
  imports DeltaSpec
begin

text \<open>The encoder: its invariant, the growth of its buffer, and what delta.c promises as a whole.\<close>

section \<open>The encoder's invariant\<close>

definition matched :: "byte list \<Rightarrow> byte list \<Rightarrow> nat \<Rightarrow> nat \<Rightarrow> nat \<Rightarrow> bool" where
  "matched src trg data msize moff \<longleftrightarrow> msize = 0 \<or>
     data + msize \<le> length trg \<and> moff + msize \<le> length src \<and> take msize (drop data trg) = take msize (drop moff src)"

text \<open>What has been written: complete operations, and an insertion with a count still to be filled in.\<close>

definition written :: "byte list \<Rightarrow> byte list \<Rightarrow> byte list \<Rightarrow> byte list \<Rightarrow> int \<Rightarrow> nat \<Rightarrow> bool" where
  "written src trg hdr out inscnt data \<longleftrightarrow>
     (inscnt = 0 \<and> (\<exists>ops. out = hdr @ ops \<and> produces src ops (take data trg))) \<or>
     (\<exists>n ops slot. inscnt = int n \<and> 0 < n \<and> n < 0x7f \<and> n \<le> data \<and>
       out = hdr @ ops @ slot # take n (drop (data - n) trg) \<and> produces src ops (take (data - n) trg))"

definition enc_inv :: "byte list \<Rightarrow> byte list \<Rightarrow> byte list \<Rightarrow> delta_state \<Rightarrow> bool" where
  "enc_inv src trg hdr st \<longleftrightarrow> written src trg hdr (take (d_bufpos st) (d_buf st)) (d_inscnt st) (d_data st) \<and>
     matched src trg (d_data st) (d_msize st) (d_moff st) \<and>
     length (d_buf st) = d_bufsize st \<and> 36 \<le> d_bufsize st \<and> d_bufsize st < 2 ^ 31 \<and> d_bufpos st \<le> d_bufsize st \<and>
     d_bufpos st \<le> 11 + 2 * d_data st \<and> d_data st \<le> length trg \<and> (d_data st = length trg \<or> 16 \<le> d_data st) \<and> \<not> bit (d_val st) 31"

lemma match_run_ok:
  "match_run n xs ys \<le> n \<and> match_run n xs ys \<le> length xs \<and> match_run n xs ys \<le> length ys \<and>
   take (match_run n xs ys) xs = take (match_run n xs ys) ys"
  by (induction n xs ys rule: match_run.induct) auto

lemma find_match_ok:
  assumes "length src < 2 ^ 31" and "length trg < 2 ^ 31" and "data < length trg"
  shows "\<forall>e\<in>set bucket. e_ptr e < length src \<Longrightarrow> matched src trg data msize moff \<Longrightarrow>
    find_match src trg data val bucket msize moff = (m, p) \<Longrightarrow> matched src trg data m p"
proof (induction bucket arbitrary: msize moff)
  case (Cons e es)
  let ?n = "match_run (match_room src trg data e) (drop data trg) (drop (e_ptr e) src)"
  have "matched src trg data ?n (e_ptr e)"
    using match_run_ok [of "match_room src trg data e" "drop data trg" "drop (e_ptr e) src"] assms(3) Cons.prems(1)
    by (auto simp: matched_def)
  then show ?case using Cons by (auto simp: Let_def split: if_splits)
qed simp

lemma delta_match_ok:
  assumes ix: "index_ok ix" "x_src ix = src" and len: "length src < 2 ^ 31" "length trg < 2 ^ 31"
    and inv: "enc_inv src trg hdr st" and data: "d_data st < length trg"
  shows "\<exists>v m p. delta_match ix trg st = Some (st\<lparr>d_val := v, d_msize := m, d_moff := p\<rparr>) \<and>
    enc_inv src trg hdr (st\<lparr>d_val := v, d_msize := m, d_moff := p\<rparr>)"
proof (cases "d_msize st < 4096")
  case False
  then show ?thesis using inv by (intro exI [of _ "d_val st"] exI [of _ "d_msize st"] exI [of _ "d_moff st"]) (simp add: delta_match_def)
next
  case True
  have st: "16 \<le> d_data st" "\<not> bit (d_val st) 31" "matched src trg (d_data st) (d_msize st) (d_moff st)"
    using inv data by (auto simp: enc_inv_def)
  let ?u = "delta_U ! unat (trg ! (d_data st - 16))"
  have u: "unat (trg ! (d_data st - 16)) < 256" using unsigned_less [of "trg ! (d_data st - 16)"] by simp
  then have "\<not> bit (d_val st XOR ?u) 31" using delta_U_bit st(2) by (simp add: bit_xor_iff)
  then obtain v where v: "rabin_push (d_val st XOR ?u) (trg ! d_data st) = Some v" "\<not> bit v 31"
    using rabin_push_ok by blast
  let ?i = "unat (v AND x_mask ix)"
  have i: "?i < length (x_hash ix)" using unat_and_mask [of v "x_mask ix"] ix(1) by (simp add: index_ok_def)
  obtain m p where f: "find_match src trg (d_data st) v (x_hash ix ! ?i) (d_msize st) (d_moff st) = (m, p)" by fastforce
  have "matched src trg (d_data st) m p"
    by (rule find_match_ok [OF len data _ st(3) f]) (use i ix nth_mem in \<open>fastforce simp: index_ok_def\<close>)
  then have "enc_inv src trg hdr (st\<lparr>d_val := v, d_msize := m, d_moff := p\<rparr>)"
    using inv v(2) by (simp add: enc_inv_def)
  then show ?thesis using True st data u v i f ix(2) by (auto simp: delta_match_def RABIN_WINDOW_def)
qed

section \<open>Writing\<close>

lemma emit_ok:
  assumes "d_bufpos st + length bs \<le> length (d_buf st)"
  shows "\<exists>buf. emit bs st = Some (st\<lparr>d_buf := buf, d_bufpos := d_bufpos st + length bs\<rparr>) \<and> length buf = length (d_buf st) \<and>
    take (d_bufpos st + length bs) buf = take (d_bufpos st) (d_buf st) @ bs"
  using assms by (intro exI [of _ "take (d_bufpos st) (d_buf st) @ bs @ drop (d_bufpos st + length bs) (d_buf st)"]) (simp add: emit_def)

lemma patch_prefix:
  assumes "take p buf = pre @ slot # lits" and "p \<le> length buf" and "j \<le> length lits"
  shows "take (length pre + 1 + j) (buf[length pre := c]) = pre @ c # take j lits"
proof -
  have "buf = pre @ slot # lits @ drop p buf" using assms(1) by (metis append_take_drop_id append.assoc append_Cons)
  then obtain tl where "buf = pre @ slot # lits @ tl" by blast
  then show ?thesis using assms(3) by simp
qed

lemma patch_count_ok:
  assumes inv: "take (d_bufpos st) (d_buf st) = pre @ slot # lits" "d_bufpos st \<le> length (d_buf st)"
    and n: "d_inscnt st = int (length lits)" and lim: "length (d_buf st) < 2 ^ 32"
  shows "patch_count st = Some (st\<lparr>d_buf := (d_buf st)[length pre := of_nat (length lits)]\<rparr>)"
    and "take (d_bufpos st) ((d_buf st)[length pre := c]) = pre @ c # lits"
proof -
  have p: "d_bufpos st = length pre + 1 + length lits"
    using arg_cong [OF inv(1), of length] inv(2) by simp
  then have "(int (d_bufpos st) - d_inscnt st - 1) mod 2 ^ 32 = int (length pre)" using n inv(2) lim by simp
  then show "patch_count st = Some (st\<lparr>d_buf := (d_buf st)[length pre := of_nat (length lits)]\<rparr>)"
    using p n inv(2) by (simp add: patch_count_def Let_def)
  show "take (d_bufpos st) ((d_buf st)[length pre := c]) = pre @ c # lits"
    using patch_prefix [OF inv, of "length lits" c] p by simp
qed


lemma written_literal:
  assumes w: "written src trg hdr out n data" and n: "0 < n" "n + 1 < 0x7f" and d: "data < length trg"
  shows "written src trg hdr (out @ [trg ! data]) (n + 1) (data + 1)"
proof -
  obtain m ops slot where m: "n = int m" "0 < m" "m \<le> data" "out = hdr @ ops @ slot # take m (drop (data - m) trg)"
    "produces src ops (take (data - m) trg)" using w n by (auto simp: written_def)
  have "take m (drop (data - m) trg) @ [trg ! data] = take (Suc m) (drop (data - m) trg)"
    using m d by (simp add: take_Suc_conv_app_nth)
  then have "out @ [trg ! data] = hdr @ ops @ slot # take (Suc m) (drop (data + 1 - Suc m) trg)" using m(4) by simp
  then show ?thesis
    unfolding written_def using m n by (intro disjI2 exI [of _ "Suc m"] exI [of _ ops] exI [of _ slot]) simp
qed

lemma delta_literal_ok:
  assumes inv: "enc_inv src trg hdr st" and room: "d_bufpos st + 8 \<le> d_bufsize st" and data: "d_data st < length trg"
  shows "\<exists>st1. delta_literal trg st = Some st1 \<and> enc_inv src trg hdr st1 \<and> d_data st1 = d_data st + 1 \<and>
    d_bufpos st1 \<le> d_bufpos st + 2 \<and> d_bufsize st1 = d_bufsize st"
proof -
  let ?c = "trg ! d_data st"
  have st: "written src trg hdr (take (d_bufpos st) (d_buf st)) (d_inscnt st) (d_data st)" "length (d_buf st) = d_bufsize st"
    "36 \<le> d_bufsize st" "d_bufsize st < 2 ^ 31" "d_bufpos st \<le> 11 + 2 * d_data st" "16 \<le> d_data st" "\<not> bit (d_val st) 31"
    using inv data by (auto simp: enc_inv_def)
  show ?thesis
  proof (cases "d_inscnt st = 0")
    case True
    let ?st1 = "st\<lparr>d_bufpos := d_bufpos st + 1\<rparr>"
    obtain ops where ops: "take (d_bufpos st) (d_buf st) = hdr @ ops" "produces src ops (take (d_data st) trg)"
      using st(1) True by (auto simp: written_def)
    obtain buf where e: "emit [?c] ?st1 = Some (?st1\<lparr>d_buf := buf, d_bufpos := d_bufpos st + 2\<rparr>)" "length buf = length (d_buf st)"
      "take (d_bufpos st + 2) buf = take (d_bufpos st + 1) (d_buf st) @ [?c]"
      using emit_ok [of ?st1 "[?c]"] room st(2) by auto
    have "take (d_bufpos st + 1) (d_buf st) = hdr @ ops @ [d_buf st ! d_bufpos st]"
      using ops(1) room st(2) by (simp add: take_Suc_conv_app_nth)
    then have "take (d_bufpos st + 2) buf = hdr @ ops @ (d_buf st ! d_bufpos st) # take 1 (drop (d_data st + 1 - 1) trg)"
      using e(3) data by (simp add: take_Suc_conv_app_nth)
    then have "written src trg hdr (take (d_bufpos st + 2) buf) 1 (d_data st + 1)"
      unfolding written_def using ops(2) by (intro disjI2 exI [of _ "1 :: nat"] exI [of _ ops] exI [of _ "d_buf st ! d_bufpos st"]) auto
    moreover have "inc32 (d_bufpos st) = d_bufpos st + 1" using room st(4) by (simp add: inc32_def)
    ultimately show ?thesis
      using e True data st room by (simp add: delta_literal_def enc_inv_def matched_def)
  next
    case False
    then obtain n ops slot where n: "d_inscnt st = int n" "0 < n" "n < 0x7f" "n \<le> d_data st"
      "take (d_bufpos st) (d_buf st) = hdr @ ops @ slot # take n (drop (d_data st - n) trg)" "produces src ops (take (d_data st - n) trg)"
      using st(1) by (auto simp: written_def)
    obtain buf where e: "emit [?c] st = Some (st\<lparr>d_buf := buf, d_bufpos := d_bufpos st + 1\<rparr>)" "length buf = length (d_buf st)"
      "take (d_bufpos st + 1) buf = take (d_bufpos st) (d_buf st) @ [?c]"
      using emit_ok [of st "[?c]"] room st(2) by auto
    let ?st2 = "st\<lparr>d_buf := buf, d_bufpos := d_bufpos st + 1, d_data := d_data st + 1, d_inscnt := d_inscnt st + 1, d_msize := 0\<rparr>"
    have code: "delta_literal trg st = (if d_inscnt st + 1 = 0x7f then do { st4 \<leftarrow> patch_count ?st2; Some (st4\<lparr>d_inscnt := 0\<rparr>) } else Some ?st2)"
      using e(1) False data by (simp add: delta_literal_def)
    show ?thesis
    proof (cases "d_inscnt st + 1 = 0x7f")
      case False
      then have "written src trg hdr (take (d_bufpos st) (d_buf st) @ [?c]) (d_inscnt st + 1) (d_data st + 1)"
        using written_literal [OF st(1)] n data by simp
      then show ?thesis using code False e data st room by (simp add: enc_inv_def matched_def)
    next
      case True
      let ?lits = "take (Suc n) (drop (d_data st - n) trg)"
      have l: "length ?lits = Suc n" using n(4) data by simp
      have "take n (drop (d_data st - n) trg) @ [?c] = ?lits" using n(4) data by (simp add: take_Suc_conv_app_nth)
      then have out: "take (d_bufpos ?st2) (d_buf ?st2) = (hdr @ ops) @ slot # ?lits" using e(3) n(5) by simp
      have "patch_count ?st2 = Some (?st2\<lparr>d_buf := (d_buf ?st2)[length (hdr @ ops) := of_nat (Suc n)]\<rparr>)"
        by (rule patch_count_ok(1) [OF out, unfolded l]) (use e(2) st(2,4) room n(1) in simp_all)
      then have p: "patch_count ?st2 = Some (?st2\<lparr>d_buf := buf[length (hdr @ ops) := of_nat (Suc n)]\<rparr>)"
        "take (d_bufpos st + 1) (buf[length (hdr @ ops) := of_nat (Suc n)]) = (hdr @ ops) @ of_nat (Suc n) # ?lits"
        using patch_count_ok(2) [OF out] e(2) st(2,4) room n(1) l by simp_all
      have "produces src (of_nat (length ?lits) # ?lits) ?lits" by (rule produces_insert) (use l n(3) in auto)
      then have "produces src (ops @ of_nat (Suc n) # ?lits) (take (d_data st - n) trg @ ?lits)"
        unfolding l by (rule produces_append [OF n(6)])
      moreover have "take (d_data st - n) trg @ ?lits = take (d_data st + 1) trg"
        using take_append_take_drop [of "d_data st - n" "d_data st + 1" trg] n(4) by (simp add: Suc_diff_le)
      ultimately have "written src trg hdr (take (d_bufpos st + 1) (buf[length (hdr @ ops) := of_nat (Suc n)])) 0 (d_data st + 1)"
        unfolding p(2) written_def by auto
      then show ?thesis using code True p(1) e(2) data st room by (simp add: enc_inv_def matched_def)
    qed
  qed
qed


section \<open>Copy operations\<close>

lemma matched_back:
  assumes "matched src trg data msize moff" and "0 < msize" and "0 < moff" "0 < data" and "src ! (moff - 1) = trg ! (data - 1)"
  shows "matched src trg (data - 1) (msize + 1) (moff - 1)"
proof -
  obtain d m where d: "data = Suc d" "moff = Suc m" using assms(3,4) by (metis gr0_conv_Suc)
  have m: "data + msize \<le> length trg" "moff + msize \<le> length src" "take msize (drop data trg) = take msize (drop moff src)"
    using assms(1,2) by (auto simp: matched_def)
  have "drop d trg = trg ! d # drop data trg" "drop m src = src ! m # drop moff src"
    using m assms(2) by (simp_all add: d Cons_nth_drop_Suc)
  then show ?thesis using m assms(5) by (simp add: matched_def d)
qed

lemma back_match_ok:
  assumes len: "length trg < 2 ^ 31"
  shows "d_inscnt st = int n \<Longrightarrow> 0 < n \<Longrightarrow> n \<le> d_data st \<Longrightarrow> n + 1 \<le> d_bufpos st \<Longrightarrow> d_bufpos st < 2 ^ 31 \<Longrightarrow>
    0 < d_msize st \<Longrightarrow> matched src trg (d_data st) (d_msize st) (d_moff st) \<Longrightarrow>
    \<exists>k p. k \<le> n \<and> matched src trg (d_data st - k) (d_msize st + k) p \<and>
      back_match src trg st = Some (st\<lparr>d_data := d_data st - k, d_msize := d_msize st + k, d_moff := p,
        d_bufpos := d_bufpos st - (if k = n then n + 1 else k), d_inscnt := (if k = n then -1 else int (n - k))\<rparr>)"
proof (induction n arbitrary: st)
  case (Suc n)
  let ?s = "src ! (d_moff st - 1)" and ?t = "trg ! (d_data st - 1)"
  have b: "d_data st + d_msize st \<le> length trg" "d_moff st + d_msize st \<le> length src" using Suc.prems by (auto simp: matched_def)
  show ?case
  proof (cases "d_moff st = 0 \<or> ?s \<noteq> ?t")
    case True
    then have "back_match src trg st = Some st" using b Suc.prems by (subst back_match.simps) (auto simp: Let_def)
    then show ?thesis using Suc.prems by (intro exI [of _ 0] exI [of _ "d_moff st"]) simp
  next
    case False
    let ?st1 = "st\<lparr>d_msize := d_msize st + 1, d_moff := d_moff st - 1, d_data := d_data st - 1,
      d_bufpos := d_bufpos st - 1, d_inscnt := int n\<rparr>"
    have "inc32 (d_msize st) = d_msize st + 1" using b len by (simp add: inc32_def)
    moreover have dec: "dec32 p = p - 1" if "0 < p" "p < 2 ^ 31" for p
    proof -
      have "p + (2 ^ 32 - 1) = (p - 1) + 2 ^ 32" using that(1) by simp
      then have "dec32 p = (p - 1) mod 2 ^ 32" unfolding dec32_def by (simp only: mod_add_self2)
      then show ?thesis using that(2) by simp
    qed
    ultimately have code: "back_match src trg st = (if n \<noteq> 0 then back_match src trg ?st1 else Some (?st1\<lparr>d_bufpos := d_bufpos st - 2, d_inscnt := -1\<rparr>))"
      using b False Suc.prems by (subst back_match.simps) (simp add: Let_def numeral_2_eq_2)
    have m: "matched src trg (d_data st - 1) (d_msize st + 1) (d_moff st - 1)"
      by (rule matched_back) (use Suc.prems False in auto)
    show ?thesis
    proof (cases "n = 0")
      case True
      then show ?thesis using code m by (intro exI [of _ 1] exI [of _ "d_moff st - 1"]) (simp add: numeral_2_eq_2)
    next
      case False
      have pre: "n \<le> d_data st - 1" "n + 1 \<le> d_bufpos st - 1" "d_bufpos st - 1 < 2 ^ 31" using Suc.prems by auto
      obtain k p where k: "k \<le> n" "matched src trg (d_data st - 1 - k) (d_msize st + 1 + k) p"
        "back_match src trg ?st1 = Some (?st1\<lparr>d_data := d_data st - 1 - k, d_msize := d_msize st + 1 + k, d_moff := p,
        d_bufpos := d_bufpos st - 1 - (if k = n then n + 1 else k), d_inscnt := (if k = n then -1 else int (n - k))\<rparr>)"
        using Suc.IH [of ?st1] False m pre by auto
      then show ?thesis using code False by (intro exI [of _ "Suc k"] exI [of _ p]) simp
    qed
  qed
qed simp

text \<open>After the pending insertion is closed, only complete operations have been written.\<close>

lemma close_insert:
  assumes inv: "enc_inv src trg hdr st" and msize: "4 \<le> d_msize st" and len: "length trg < 2 ^ 31"
  shows "\<exists>st1 ops k. (if d_inscnt st \<noteq> 0 then do {
      s1 \<leftarrow> back_match src trg st; s2 \<leftarrow> patch_count s1; Some (s2\<lparr>d_inscnt := 0\<rparr>) } else Some st) = Some st1 \<and>
    d_inscnt st1 = 0 \<and> length (d_buf st1) = length (d_buf st) \<and> d_bufsize st1 = d_bufsize st \<and> d_bufpos st1 \<le> d_bufpos st - k \<and>
    k \<le> d_data st \<and> k < 0x7f \<and> d_data st1 = d_data st - k \<and> d_msize st1 = d_msize st + k \<and> d_val st1 = d_val st \<and>
    matched src trg (d_data st1) (d_msize st1) (d_moff st1) \<and>
    take (d_bufpos st1) (d_buf st1) = hdr @ ops \<and> produces src ops (take (d_data st1) trg)"
proof (cases "d_inscnt st = 0")
  case True
  then show ?thesis using inv by (auto simp: enc_inv_def written_def)
next
  case False
  obtain n ops slot where n: "d_inscnt st = int n" "0 < n" "n < 0x7f" "n \<le> d_data st"
    "take (d_bufpos st) (d_buf st) = hdr @ ops @ slot # take n (drop (d_data st - n) trg)" "produces src ops (take (d_data st - n) trg)"
    using inv False by (auto simp: enc_inv_def written_def)
  have st: "d_bufpos st \<le> length (d_buf st)" "length (d_buf st) < 2 ^ 31" "d_data st + d_msize st \<le> length trg"
    "matched src trg (d_data st) (d_msize st) (d_moff st)" using inv msize by (auto simp: enc_inv_def matched_def)
  let ?lits = "take n (drop (d_data st - n) trg)" and ?pre = "hdr @ ops"
  have l: "length ?lits = n" using n(4) st(3) by simp
  have out: "take (d_bufpos st) (d_buf st) = ?pre @ slot # ?lits" using n(5) by simp
  have p: "d_bufpos st = length ?pre + 1 + n" using arg_cong [OF out, of length] st(1) l by simp
  have side: "n + 1 \<le> d_bufpos st" "d_bufpos st < 2 ^ 31" "0 < d_msize st" using p st msize by auto
  obtain k q where k: "k \<le> n" "matched src trg (d_data st - k) (d_msize st + k) q"
    "back_match src trg st = Some (st\<lparr>d_data := d_data st - k, d_msize := d_msize st + k, d_moff := q,
      d_bufpos := d_bufpos st - (if k = n then n + 1 else k), d_inscnt := (if k = n then -1 else int (n - k))\<rparr>)"
    using back_match_ok [OF len n(1,2,4) side st(4)] by blast
  let ?s1 = "st\<lparr>d_data := d_data st - k, d_msize := d_msize st + k, d_moff := q,
      d_bufpos := d_bufpos st - (if k = n then n + 1 else k), d_inscnt := (if k = n then -1 else int (n - k))\<rparr>"
  have tr: "take (d_data st - n) trg @ take (n - k) ?lits = take (d_data st - k) trg"
    using take_append_take_drop [of "d_data st - n" "d_data st - k" trg] n(4) k(1) by (simp add: min_def)
  show ?thesis
  proof (cases "k = n")
    case True
    have "patch_count ?s1 = Some (?s1\<lparr>d_buf := (d_buf st)[length ?pre := -1]\<rparr>)"
      using p st True by (simp add: patch_count_def Let_def flip: of_nat_add)
    moreover have "take (length ?pre) ((d_buf st)[length ?pre := -1]) = ?pre"
      using arg_cong [OF out, of "take (length ?pre)"] p by simp
    ultimately show ?thesis
      using False k n(3,4,6) p True
      by (intro exI [of _ "?s1\<lparr>d_buf := (d_buf st)[length ?pre := -1], d_inscnt := 0\<rparr>"] exI [of _ ops] exI [of _ n]) simp
  next
    case less: False
    then have kn: "k < n" using k(1) by simp
    let ?j = "n - k" and ?c = "of_nat (n - k) :: byte"
    have "take (d_bufpos st - k) (d_buf st) = ?pre @ slot # take ?j ?lits"
      using arg_cong [OF out, of "take (d_bufpos st - k)"] p kn by (simp add: Suc_diff_le)
    then have out1: "take (d_bufpos ?s1) (d_buf ?s1) = ?pre @ slot # take ?j ?lits" using less by simp
    have lj: "length (take ?j ?lits) = ?j" using l by simp
    have "patch_count ?s1 = Some (?s1\<lparr>d_buf := (d_buf ?s1)[length ?pre := ?c]\<rparr>)"
      by (rule patch_count_ok(1) [OF out1, unfolded lj]) (use st less in simp_all)
    moreover have "take (d_bufpos ?s1) ((d_buf ?s1)[length ?pre := ?c]) = ?pre @ ?c # take ?j ?lits"
      by (rule patch_count_ok(2) [OF out1, unfolded lj]) (use st less in simp_all)
    moreover have "produces src (?c # take ?j ?lits) (take ?j ?lits)"
      using produces_insert [of "take ?j ?lits" src] lj kn n(3) by force
    ultimately show ?thesis
      using False k n(3,4) less produces_append [OF n(6)] tr
      by (intro exI [of _ "?s1\<lparr>d_buf := (d_buf st)[length ?pre := ?c], d_inscnt := 0\<rparr>"] exI [of _ "ops @ ?c # take ?j ?lits"] exI [of _ k])
        (simp del: take_take, metis)
  qed
qed


lemma delta_copy_ok:
  assumes ix: "x_src ix = src" and len: "length src < 2 ^ 31" "length trg < 2 ^ 31"
    and inv: "enc_inv src trg hdr st" and msize: "4 \<le> d_msize st" and room: "d_bufpos st + 8 \<le> d_bufsize st"
  shows "\<exists>st1. delta_copy ix trg st = Some st1 \<and> enc_inv src trg hdr st1 \<and> d_data st < d_data st1 \<and>
    d_bufpos st1 \<le> d_bufpos st + 7 \<and> d_bufsize st1 = d_bufsize st"
proof -
  obtain st1 ops k where c: "(if d_inscnt st \<noteq> 0 then do {
      s1 \<leftarrow> back_match src trg st; s2 \<leftarrow> patch_count s1; Some (s2\<lparr>d_inscnt := 0\<rparr>) } else Some st) = Some st1"
    and st1: "d_inscnt st1 = 0" "length (d_buf st1) = length (d_buf st)" "d_bufsize st1 = d_bufsize st" "d_bufpos st1 \<le> d_bufpos st - k"
      "k \<le> d_data st" "k < 0x7f" "d_data st1 = d_data st - k" "d_msize st1 = d_msize st + k" "d_val st1 = d_val st"
      "matched src trg (d_data st1) (d_msize st1) (d_moff st1)"
      "take (d_bufpos st1) (d_buf st1) = hdr @ ops" "produces src ops (take (d_data st1) trg)"
    using close_insert [OF inv msize len(2)] by blast
  have st: "length (d_buf st) = d_bufsize st" "36 \<le> d_bufsize st" "d_bufsize st < 2 ^ 31" "d_bufpos st \<le> 11 + 2 * d_data st"
    "\<not> bit (d_val st) 31" using inv by (auto simp: enc_inv_def)
  have m: "d_data st1 + d_msize st1 \<le> length trg" "d_moff st1 + d_msize st1 \<le> length src"
    "take (d_msize st1) (drop (d_data st1) trg) = take (d_msize st1) (drop (d_moff st1) src)"
    using st1(8,10) msize by (auto simp: matched_def)
  define left where "left = (if d_msize st1 < 0x10000 then 0 else d_msize st1 - 0x10000)"
  define n where "n = d_msize st1 - left"
  have n: "4 + k \<le> n" "n \<le> 0x10000" "n + left = d_msize st1"
    using msize st1(6,8) by (auto simp: n_def left_def)
  have bounds: "d_data st1 + n \<le> length trg" "d_moff st1 + n \<le> length src" using m n by auto
  let ?op = "copy_op (of_nat (d_moff st1)) (of_nat n)"
  have op: "length ?op \<le> 7" by (rule length_copy_op)
  obtain buf where e: "emit ?op st1 = Some (st1\<lparr>d_buf := buf, d_bufpos := d_bufpos st1 + length ?op\<rparr>)"
    "length buf = length (d_buf st1)" "take (d_bufpos st1 + length ?op) buf = take (d_bufpos st1) (d_buf st1) @ ?op"
    using emit_ok [of st1 ?op] op room st(1) st1(2,4) by force
  have "take n (drop (d_data st1) trg) = take n (drop (d_moff st1) src)"
    using arg_cong [OF m(3), of "take n"] n(3) by simp
  then have seg: "take (d_data st1) trg @ take n (drop (d_moff st1) src) = take (d_data st1 + n) trg"
    by (simp add: take_add)
  have "produces src (ops @ ?op) (take (d_data st1 + n) trg)"
    unfolding seg [symmetric] using n bounds len by (intro produces_append st1(12) produces_copy) auto
  then have w: "written src trg hdr (take (d_bufpos st1 + length ?op) buf) 0 (d_data st1 + n)"
    unfolding e(3) st1(11) written_def by auto
  have "d_msize st1 - n = left" using n(3) by simp
  moreover have "take (d_msize st1 - n) (drop (n + d_data st1) trg) = take (d_msize st1 - n) (drop (n + d_moff st1) src)"
    using arg_cong [OF m(3), of "drop n"] by (simp only: drop_take drop_drop)
  ultimately have rest: "matched src trg (d_data st1 + n) left (d_moff st1 + n)"
    using m n(3) by (simp add: matched_def add.commute [of n])
  have data: "d_data st < d_data st1 + n" "d_data st + 4 \<le> d_data st1 + n" using st1(5,7) n(1) by auto
  have pos: "d_bufpos st1 + length ?op \<le> d_bufpos st + 7" using st1(4) op by linarith
  have win: "16 \<le> d_data st1 + n" using inv data msize by (auto simp: enc_inv_def matched_def)
  obtain v where v: "rabin_bytes 0 (take RABIN_WINDOW (drop (d_data st1 + n - RABIN_WINDOW) trg)) = Some v" "\<not> bit v 31"
    using rabin_bytes_ok by (metis bit_0_eq bot_apply bot_bool_def)
  let ?st3 = "st1\<lparr>d_buf := buf, d_bufpos := d_bufpos st1 + length ?op, d_data := d_data st1 + n, d_moff := d_moff st1 + n, d_msize := left\<rparr>"
  let ?st4 = "if left < 4096 then ?st3\<lparr>d_val := v\<rparr> else ?st3"
  have "delta_copy ix trg st = Some ?st4"
    unfolding delta_copy_def ix c Option.bind.bind_lunit Let_def left_def [symmetric] n_def [symmetric] e(1)
    using v win bounds len by (simp add: RABIN_WINDOW_def)
  moreover have "enc_inv src trg hdr ?st4"
    using w rest e(2) st1 st data pos win bounds v(2) room by (simp add: enc_inv_def)
  ultimately show ?thesis using data pos st1(3) by auto
qed


section \<open>Growth and the loop\<close>

lemma delta_room_ok:
  assumes al: "good_alloc al" and inv: "enc_inv src trg hdr st" and pos: "d_bufpos st < d_bufsize st" and len: "length trg < 2 ^ 28"
  shows "(\<exists>st1. delta_room al max_size st = Continue st1 \<and> enc_inv src trg hdr st1 \<and> d_data st1 = d_data st \<and>
      d_bufpos st1 + 8 \<le> d_bufsize st1) \<or>
    (\<exists>b. delta_room al max_size st = Break (st\<lparr>d_bufsize := b\<rparr>) \<and> max_size \<noteq> 0 \<and> max_size < d_bufpos st) \<or>
    (delta_room al max_size st = OutOfMemory \<and> \<not> total_alloc al)"
proof -
  have st: "length (d_buf st) = d_bufsize st" "36 \<le> d_bufsize st" "d_bufsize st < 2 ^ 31" "d_bufpos st \<le> 11 + 2 * d_data st"
    "d_data st \<le> length trg" using inv by (auto simp: enc_inv_def)
  have "d_bufsize st + (2 ^ 32 - MAX_OP_SIZE) = (d_bufsize st - MAX_OP_SIZE) + 2 ^ 32"
    using st(2) by (simp add: MAX_OP_SIZE_def RABIN_WINDOW_def)
  then have lim: "(d_bufsize st + (2 ^ 32 - MAX_OP_SIZE)) mod 2 ^ 32 = d_bufsize st - 34"
    using st(3) by (simp only: mod_add_self2) (simp add: MAX_OP_SIZE_def RABIN_WINDOW_def)
  show ?thesis
  proof (cases "d_bufpos st \<ge> d_bufsize st - 34")
    case False
    then show ?thesis using inv lim by (intro disjI1 exI [of _ st]) (simp add: delta_room_def)
  next
    case True
    define b0 where "b0 = d_bufsize st * 3 mod 2 ^ 32 div 2"
    have small: "d_bufsize st < 2 ^ 30" using True st(4,5) len by simp
    then have "d_bufsize st * 3 mod 2 ^ 32 = d_bufsize st * 3" by simp
    then have b0: "d_bufsize st + 17 \<le> b0" "b0 < 2 ^ 31 - 64" using st(2) small True st(4,5) len by (auto simp: b0_def)
    define b where "b = (if max_size \<noteq> 0 \<and> b0 \<ge> max_size then (max_size + MAX_OP_SIZE + 1) mod 2 ^ 32 else b0)"
    have b: "b = (if max_size \<noteq> 0 \<and> b0 \<ge> max_size then max_size + 35 else b0)"
      using b0(2) by (simp add: b_def MAX_OP_SIZE_def RABIN_WINDOW_def)
    have code: "delta_room al max_size st =
        (if max_size \<noteq> 0 \<and> d_bufpos st > max_size then Break (st\<lparr>d_bufsize := b\<rparr>)
         else case realloc_cells al (d_buf st) b of None \<Rightarrow> OutOfMemory
              | Some buf \<Rightarrow> Continue (st\<lparr>d_bufsize := b, d_buf := buf\<rparr>))"
      unfolding delta_room_def Let_def lim b0_def [symmetric] b_def [symmetric] using True by simp
    show ?thesis
    proof (cases "max_size \<noteq> 0 \<and> d_bufpos st > max_size")
      case True
      then show ?thesis using code by auto
    next
      case fits: False
      then have pb: "d_bufpos st + 8 \<le> b" "b < 2 ^ 31" "36 \<le> b" using b b0 pos st(2) by auto
      show ?thesis
      proof (cases "realloc_cells al (d_buf st) b")
        case None
        then show ?thesis using code fits realloc_cells_total [of al "d_buf st" b] by auto
      next
        case (Some buf)
        have "length buf = b" "take (d_bufpos st) buf = take (d_bufpos st) (d_buf st)"
          using realloc_cells_length [OF al Some] realloc_cells_take [OF al Some] pos pb st(1) by auto
        then have "enc_inv src trg hdr (st\<lparr>d_bufsize := b, d_buf := buf\<rparr>)"
          using inv pb by (simp add: enc_inv_def)
        then show ?thesis using code fits Some pb by auto
      qed
    qed
  qed
qed

definition loop_outcome :: "byte allocator \<Rightarrow> byte list \<Rightarrow> byte list \<Rightarrow> byte list \<Rightarrow> nat \<Rightarrow> delta_state option \<Rightarrow> bool" where
  "loop_outcome al src trg hdr max_size r \<longleftrightarrow>
     (case r of
        None \<Rightarrow> \<not> total_alloc al
      | Some st \<Rightarrow> written src trg hdr (take (d_bufpos st) (d_buf st)) (d_inscnt st) (d_data st) \<and>
          d_bufpos st \<le> length (d_buf st) \<and> length (d_buf st) < 2 ^ 31 \<and> d_data st \<le> length trg \<and>
          (d_data st = length trg \<or> max_size \<noteq> 0 \<and> max_size < d_bufpos st))"

lemma delta_loop_ok:
  assumes ix: "index_ok ix" "x_src ix = src" and len: "length src < 2 ^ 31" "length trg < 2 ^ 28" and al: "good_alloc al"
  shows "enc_inv src trg hdr st \<Longrightarrow> d_bufpos st + 8 \<le> d_bufsize st \<Longrightarrow>
    \<exists>r. delta_loop al ix trg max_size st = Some r \<and> loop_outcome al src trg hdr max_size r"
proof (induction "length trg - d_data st" arbitrary: st rule: less_induct)
  case less
  note inv = less.prems(1)
  have len': "length trg < 2 ^ 31" using len(2) by simp
  show ?case
  proof (cases "d_data st < length trg")
    case False
    then show ?thesis using inv by (subst delta_loop.simps) (auto simp: loop_outcome_def enc_inv_def)
  next
    case True
    obtain v m p where mt: "delta_match ix trg st = Some (st\<lparr>d_val := v, d_msize := m, d_moff := p\<rparr>)"
      and inv1: "enc_inv src trg hdr (st\<lparr>d_val := v, d_msize := m, d_moff := p\<rparr>)"
      using delta_match_ok [OF ix len(1) len' inv True] by blast
    let ?st1 = "st\<lparr>d_val := v, d_msize := m, d_moff := p\<rparr>"
    have room: "d_bufpos ?st1 + 8 \<le> d_bufsize ?st1" "d_data ?st1 < length trg" using less.prems True by auto
    obtain st2 where w: "(if d_msize ?st1 < 4 then delta_literal trg ?st1 else delta_copy ix trg ?st1) = Some st2"
      and inv2: "enc_inv src trg hdr st2" and st2: "d_data st < d_data st2" "d_bufpos st2 \<le> d_bufpos st + 7" "d_bufsize st2 = d_bufsize st"
      using delta_literal_ok [OF inv1 room] delta_copy_ok [OF ix(2) len(1) len' inv1 _ room(1)] by (cases "m < 4") fastforce+
    have pos: "d_bufpos st2 < d_bufsize st2" using st2 less.prems(2) by simp
    have code: "delta_loop al ix trg max_size st =
        (case delta_room al max_size st2 of Continue st3 \<Rightarrow> delta_loop al ix trg max_size st3
         | Break st3 \<Rightarrow> Some (Some st3) | OutOfMemory \<Rightarrow> Some None)"
      using True mt w by (subst delta_loop.simps) (simp add: delta_step_def)
    consider (c) st3 where "delta_room al max_size st2 = Continue st3" "enc_inv src trg hdr st3" "d_data st3 = d_data st2"
        "d_bufpos st3 + 8 \<le> d_bufsize st3"
      | (b) b where "delta_room al max_size st2 = Break (st2\<lparr>d_bufsize := b\<rparr>)" "max_size \<noteq> 0" "max_size < d_bufpos st2"
      | (o) "delta_room al max_size st2 = OutOfMemory" "\<not> total_alloc al"
      using delta_room_ok [OF al inv2 pos len(2)] by metis
    then show ?thesis
    proof cases
      case c
      then show ?thesis using less.hyps [of st3] code st2(1) True by simp
    next
      case b
      then show ?thesis using code inv2 by (auto simp: loop_outcome_def enc_inv_def)
    next
      case o
      then show ?thesis using code by (simp add: loop_outcome_def)
    qed
  qed
qed


lemma hdr_length: "n < 2 ^ 32 \<Longrightarrow> length (hdr_bytes n) \<le> 5"
  using length_hdr_bytes [of n 4] by simp

lemma delta_start_ok:
  assumes ix: "x_src ix = src" and len: "length src < 2 ^ 31" "length trg < 2 ^ 28" and trg: "trg \<noteq> []"
    and buf: "length buf = bufsize" "36 \<le> bufsize" "bufsize < 2 ^ 31"
  shows "\<exists>st. delta_start ix trg bufsize buf = Some st \<and> enc_inv src trg (hdr_bytes (length src) @ hdr_bytes (length trg)) st \<and>
    d_bufpos st + 8 \<le> d_bufsize st"
proof -
  let ?h1 = "hdr_bytes (length src)" and ?h2 = "hdr_bytes (length trg)" and ?w = "take 16 trg"
  have h: "length ?h1 \<le> 5" "length ?h2 \<le> 5" using hdr_length len by simp_all
  let ?st0 = "\<lparr>d_buf = buf, d_bufpos = 0, d_bufsize = bufsize, d_data = 0, d_inscnt = 0, d_moff = 0, d_msize = 0, d_val = 0\<rparr>"
  obtain b1 where e1: "emit ?h1 ?st0 = Some (?st0\<lparr>d_buf := b1, d_bufpos := length ?h1\<rparr>)" "length b1 = bufsize" "take (length ?h1) b1 = ?h1"
    using emit_ok [of ?st0 ?h1] h buf by auto
  let ?st1 = "?st0\<lparr>d_buf := b1, d_bufpos := length ?h1\<rparr>" and ?p2 = "length ?h1 + length ?h2"
  obtain b2 where e2: "emit ?h2 ?st1 = Some (?st1\<lparr>d_buf := b2, d_bufpos := ?p2\<rparr>)" "length b2 = bufsize" "take ?p2 b2 = ?h1 @ ?h2"
    using emit_ok [of ?st1 ?h2] h buf e1 by auto
  let ?st2 = "?st1\<lparr>d_buf := b2, d_bufpos := ?p2 + 1\<rparr>" and ?p3 = "?p2 + 1 + length ?w"
  have "d_bufpos ?st2 + length ?w \<le> length (d_buf ?st2)" using h buf e2(2) by simp
  then obtain b3 where e3: "emit ?w ?st2 = Some (?st2\<lparr>d_buf := b3, d_bufpos := ?p3\<rparr>)" "length b3 = bufsize" "take ?p3 b3 = take (?p2 + 1) b2 @ ?w"
    using emit_ok [of ?st2 ?w] e2(2) by auto
  have "take (?p2 + 1) b2 = (?h1 @ ?h2) @ [b2 ! ?p2]" using e2(2,3) h buf by (simp add: take_Suc_conv_app_nth)
  then have out: "take ?p3 b3 = (?h1 @ ?h2) @ [] @ (b2 ! ?p2) # ?w" using e3(3) by simp
  obtain v where v: "rabin_bytes 0 ?w = Some v" "\<not> bit v 31"
    using rabin_bytes_ok by (metis bit_0_eq bot_apply bot_bool_def)
  let ?st = "\<lparr>d_buf = b3, d_bufpos = ?p3, d_bufsize = bufsize, d_data = length ?w, d_inscnt = int (length ?w), d_moff = 0, d_msize = 0, d_val = v\<rparr>"
  have "inc32 ?p2 = ?p2 + 1" using h by (simp add: inc32_def)
  then have "delta_start ix trg bufsize buf = Some ?st"
    using e1(1) e2(1) e3(1) v(1) ix len by (simp add: delta_start_def RABIN_WINDOW_def)
  moreover have "written src trg (?h1 @ ?h2) (take ?p3 b3) (int (length ?w)) (length ?w)"
    unfolding out written_def using trg produces_Nil [of src]
    by (intro disjI2 exI [of _ "length ?w"] exI [of _ "[] :: byte list"] exI [of _ "b2 ! ?p2"]) (auto simp: min_def)
  moreover have "?p3 \<le> 11 + length ?w" "?p3 + 8 \<le> bufsize" using h buf by auto
  moreover have "min (length trg) 16 = length trg \<or> 16 \<le> length trg" by (simp add: min_def)
  ultimately show ?thesis using e3(2) buf v(2) by (simp add: enc_inv_def matched_def)
qed

text \<open>Closing the encoding and decoding it.\<close>

lemma written_final:
  assumes w: "written src trg hdr (take (d_bufpos st) (d_buf st)) (d_inscnt st) (d_data st)" and n: "d_bufpos st \<le> length (d_buf st)"
    "length (d_buf st) < 2 ^ 31" "d_data st \<le> length trg"
  shows "\<exists>buf ops. (if d_inscnt st \<noteq> 0 then patch_count st else Some st) = Some (st\<lparr>d_buf := buf\<rparr>) \<and>
    take (d_bufpos st) buf = hdr @ ops \<and> produces src ops (take (d_data st) trg)"
proof (cases "d_inscnt st = 0")
  case True
  then obtain ops where "take (d_bufpos st) (d_buf st) = hdr @ ops" "produces src ops (take (d_data st) trg)"
    using w by (auto simp: written_def)
  then show ?thesis using True by (intro exI [of _ "d_buf st"] exI [of _ ops]) simp
next
  case False
  obtain m ops slot where m: "d_inscnt st = int m" "0 < m" "m < 0x7f" "m \<le> d_data st"
    "take (d_bufpos st) (d_buf st) = (hdr @ ops) @ slot # take m (drop (d_data st - m) trg)" "produces src ops (take (d_data st - m) trg)"
    using w False by (auto simp: written_def)
  let ?lits = "take m (drop (d_data st - m) trg)"
  have l: "length ?lits = m" using m(4) n(3) by simp
  have "patch_count st = Some (st\<lparr>d_buf := (d_buf st)[length (hdr @ ops) := of_nat m]\<rparr>)"
    by (rule patch_count_ok(1) [OF m(5), unfolded l]) (use n m in simp_all)
  moreover have "take (d_bufpos st) ((d_buf st)[length (hdr @ ops) := of_nat m]) = (hdr @ ops) @ of_nat m # ?lits"
    by (rule patch_count_ok(2) [OF m(5), unfolded l]) (use n m in simp_all)
  moreover have "produces src (of_nat m # ?lits) ?lits" using produces_insert [of ?lits src] l m(2,3) by force
  then have "produces src (ops @ of_nat m # ?lits) (take (d_data st) trg)"
    using produces_append [OF m(6)] take_append_take_drop [of "d_data st - m" "d_data st" trg] m(4) by force
  ultimately show ?thesis using False by (intro exI [of _ "(d_buf st)[length (hdr @ ops) := of_nat m]"] exI [of _ "ops @ of_nat m # ?lits"]) simp
qed

lemma apply_decodes:
  assumes "produces base ops trg" and "length base < 2 ^ 31" and "length trg < 2 ^ 28" and "total_alloc al"
  shows "git_delta_apply al base ((hdr_bytes (length base) @ hdr_bytes (length trg)) @ ops) = Some (0, Some trg)"
proof -
  have "apply_loop base (ops @ []) [] (length trg) = apply_loop base [] ([] @ trg) (length trg - length trg)"
    using assms(1) unfolding produces_def by blast
  then show ?thesis
    using hdr_sz_bytes [of "length base" "hdr_bytes (length trg) @ ops"] hdr_sz_bytes [of "length trg" ops] assms
    by (simp add: git_delta_apply_def total_alloc_def)
qed

lemma git_delta_create_ok:
  assumes al: "good_alloc al" and ix: "index_ok ix" "x_src ix = src" and len: "length src < 2 ^ 31" "length trg < 2 ^ 28" "trg \<noteq> []"
  shows "\<exists>r out. git_delta_create_from_index al ix trg max_size = Some (r, out) \<and>
    (r = 0 \<and> (\<exists>ops. out = Some ((hdr_bytes (length src) @ hdr_bytes (length trg)) @ ops) \<and> produces src ops trg \<and>
        (max_size = 0 \<or> length (the out) \<le> max_size)) \<or>
     r = GIT_EBUFS \<and> out = None \<and> max_size \<noteq> 0 \<or> r = -1 \<and> out = None \<and> \<not> total_alloc al)"
proof -
  let ?hdr = "hdr_bytes (length src) @ hdr_bytes (length trg)"
  define bufsize where "bufsize = (if max_size \<noteq> 0 \<and> 8192 \<ge> max_size then max_size + MAX_OP_SIZE + 1 else 8192)"
  have b: "36 \<le> bufsize" "bufsize < 2 ^ 31" by (auto simp: bufsize_def MAX_OP_SIZE_def RABIN_WINDOW_def)
  have code: "git_delta_create_from_index al ix trg max_size =
      (case al bufsize of
         None \<Rightarrow> Some (-1, None)
       | Some buf \<Rightarrow> do {
           st0 \<leftarrow> delta_start ix trg bufsize buf;
           r \<leftarrow> delta_loop al ix trg max_size st0;
           case r of
             None \<Rightarrow> Some (-1, None)
           | Some st1 \<Rightarrow> do {
               st2 \<leftarrow> (if d_inscnt st1 \<noteq> 0 then patch_count st1 else Some st1);
               if max_size \<noteq> 0 \<and> d_bufpos st2 > max_size then Some (GIT_EBUFS, None)
               else Some (0, Some (take (d_bufpos st2) (d_buf st2))) } })"
    unfolding git_delta_create_from_index_def Let_def bufsize_def using len(3) by simp
  show ?thesis
  proof (cases "al bufsize")
    case None
    then show ?thesis using code by (auto simp: total_alloc_def)
  next
    case (Some buf)
    then have "length buf = bufsize" using al by (simp add: good_alloc_def)
    then obtain st0 where st0: "delta_start ix trg bufsize buf = Some st0" "enc_inv src trg ?hdr st0" "d_bufpos st0 + 8 \<le> d_bufsize st0"
      using delta_start_ok [OF ix(2) len] b by blast
    obtain r where r: "delta_loop al ix trg max_size st0 = Some r" "loop_outcome al src trg ?hdr max_size r"
      using delta_loop_ok [OF ix len(1,2) al st0(2,3)] by blast
    show ?thesis
    proof (cases r)
      case None
      then show ?thesis using code Some st0(1) r by (simp add: loop_outcome_def)
    next
      case st1: (Some st1)
      have o: "written src trg ?hdr (take (d_bufpos st1) (d_buf st1)) (d_inscnt st1) (d_data st1)" "d_bufpos st1 \<le> length (d_buf st1)"
        "length (d_buf st1) < 2 ^ 31" "d_data st1 = length trg \<or> max_size \<noteq> 0 \<and> max_size < d_bufpos st1" "d_data st1 \<le> length trg"
        using r(2) by (auto simp: loop_outcome_def st1)
      obtain buf ops where f: "(if d_inscnt st1 \<noteq> 0 then patch_count st1 else Some st1) = Some (st1\<lparr>d_buf := buf\<rparr>)"
        "take (d_bufpos st1) buf = ?hdr @ ops" "produces src ops (take (d_data st1) trg)"
        using written_final [OF o(1,2,3,5)] by blast
      have run: "git_delta_create_from_index al ix trg max_size =
          (if max_size \<noteq> 0 \<and> d_bufpos st1 > max_size then Some (GIT_EBUFS, None) else Some (0, Some (?hdr @ ops)))"
        unfolding code Some option.case st0(1) r(1) st1 Option.bind.bind_lunit f(1) using f(2) by simp
      show ?thesis
      proof (cases "max_size \<noteq> 0 \<and> d_bufpos st1 > max_size")
        case True
        then show ?thesis using run by simp
      next
        case False
        have "length (?hdr @ ops) \<le> d_bufpos st1" unfolding f(2) [symmetric] by simp
        then have "d_data st1 = length trg" "max_size = 0 \<or> length (?hdr @ ops) \<le> max_size"
          using o(4) False by auto
        then show ?thesis using run False f(3) by auto
      qed
    qed
  qed
qed


section \<open>The promises of delta.c\<close>

text \<open>C9: Encoding a target against a source either gives a delta that decodes to exactly that target, and respects
  the size limit, or fails cleanly: \<open>GIT_EBUFS\<close> only with a limit, -1 only after a refused allocation.
  No step of the encoder leaves its arrays (the result is never \<open>None\<close>), and the loop ends. The bounds are those under which no
  32-bit counter wraps.\<close>

theorem git_delta_roundtrip:
  assumes "good_alloc al" and "total_alloc al'" and "src \<noteq> []" and "trg \<noteq> []" and "length src < 2 ^ 31" and "length trg < 2 ^ 28"
  shows "\<exists>r out. git_delta al src trg max_size = Some (r, out) \<and>
    (r = 0 \<and> (\<exists>d. out = Some d \<and> git_delta_apply al' src d = Some (0, Some trg) \<and> (max_size = 0 \<or> length d \<le> max_size)) \<or>
     r = GIT_EBUFS \<and> out = None \<and> max_size \<noteq> 0 \<or> r = -1 \<and> out = None \<and> \<not> total_alloc al)"
proof -
  have "length src < 2 ^ 32" using assms(5) by simp
  then obtain r ix where ix: "git_delta_index_init al src = Some (r, ix)"
    "r = 0 \<and> (\<exists>x. ix = Some x \<and> index_ok x \<and> x_src x = src) \<or> r = -1 \<and> ix = None \<and> \<not> total_alloc al"
    using git_delta_index_init_ok [OF assms(1) _ assms(3)] by blast
  show ?thesis
  proof (cases "r = 0")
    case False
    then show ?thesis using ix by (simp add: git_delta_def)
  next
    case True
    then obtain x where x: "ix = Some x" "index_ok x" "x_src x = src" using ix by auto
    have "git_delta al src trg max_size = git_delta_create_from_index al x trg max_size"
      using ix(1) True x(1) by (simp add: git_delta_def)
    then show ?thesis
      using git_delta_create_ok [OF assms(1) x(2,3) assms(5,6,4), of max_size] apply_decodes [OF _ assms(5,6,2)] by fastforce
  qed
qed

theorem git_delta_roundtrip_witness:
  "\<exists>r out. git_delta (fill_alloc 0) (bytes_of ''the quick brown fox'') (bytes_of ''the quick red fox'') 0 = Some (r, out) \<and>
    (r = 0 \<and> (\<exists>d. out = Some d \<and>
        git_delta_apply (fill_alloc 0) (bytes_of ''the quick brown fox'') d = Some (0, Some (bytes_of ''the quick red fox'')) \<and>
        ((0 :: nat) = 0 \<or> length d \<le> 0)) \<or>
     r = GIT_EBUFS \<and> out = None \<and> (0 :: nat) \<noteq> 0 \<or> r = -1 \<and> out = None \<and> \<not> total_alloc (fill_alloc 0 :: byte allocator))"
  by (rule git_delta_roundtrip) (simp_all add: bytes_of_def)

text \<open>The arguments of a copy are small enough that their sum does not wrap.\<close>

lemma unat_high_bits: "\<forall>n\<ge>k. \<not> bit (w :: u64) n \<Longrightarrow> unat w < 2 ^ k"
proof -
  assume "\<forall>n\<ge>k. \<not> bit w n"
  then have "take_bit k w = w" by (intro bit_word_eqI) (auto simp: bit_simps not_le)
  then have "take_bit k (unat w) = unat w" by (simp flip: unsigned_take_bit_eq)
  then show ?thesis using take_bit_nat_less_exp [of k "unat w"] by simp
qed

lemma read_arg_bits:
  "read_arg cmd flag s (v, d) = Some (v', d') \<Longrightarrow> \<forall>n\<ge>s. \<not> bit v n \<Longrightarrow> \<forall>n\<ge>s + 8. \<not> bit v' n"
  by (auto simp: read_arg_def bit_simps bit_byte_high split: if_splits list.splits)

lemma read_copy_small:
  assumes "read_copy cmd d = Some (off, len, d')"
  shows "unat off < 2 ^ 32" and "unat len < 2 ^ 24" and "0 < len"
proof -
  obtain a1 a2 a3 b1 b2 d1 l e1 e2 e3 e4 e5 where r:
    "read_arg cmd 0x01 0 (0, d) = Some (a1, e1)" "read_arg cmd 0x02 8 (a1, e1) = Some (a2, e2)"
    "read_arg cmd 0x04 16 (a2, e2) = Some (a3, e3)" "read_arg cmd 0x08 24 (a3, e3) = Some (off, d1)"
    "read_arg cmd 0x10 0 (0, d1) = Some (b1, e4)" "read_arg cmd 0x20 8 (b1, e4) = Some (b2, e5)"
    "read_arg cmd 0x40 16 (b2, e5) = Some (l, d')" "len = (if l = 0 then 0x10000 else l)"
    using assms unfolding read_copy_def by (auto simp: bind_eq_Some_conv)
  have "\<forall>n\<ge>32. \<not> bit off n"
    using read_arg_bits [OF r(4)] read_arg_bits [OF r(3)] read_arg_bits [OF r(2)] read_arg_bits [OF r(1)] by simp
  then show "unat off < 2 ^ 32" by (rule unat_high_bits)
  have "\<forall>n\<ge>24. \<not> bit l n"
    using read_arg_bits [OF r(7)] read_arg_bits [OF r(6)] read_arg_bits [OF r(5)] by simp
  then have "unat l < 2 ^ 24" by (rule unat_high_bits)
  then show "unat len < 2 ^ 24" by (simp add: r(8))
  show "0 < len" by (simp add: r(8) word_gt_0)
qed

lemma copy_in_base:
  assumes "read_copy cmd d = Some (off, len, d')" and "unat (off + len) \<le> n"
  shows "unat off + unat len \<le> n"
proof -
  have "unat off + unat len < 2 ^ LENGTH(64)" using read_copy_small [OF assms(1)] by simp
  then have "unat (off + len) = unat off + unat len" by (rule unat_add_lem [THEN iffD1])
  then show ?thesis using assms(2) by simp
qed

lemma apply_loop_length:
  "apply_loop base delta out n = Some (r, res) \<Longrightarrow> r = 0 \<and> (\<exists>x. res = Some x \<and> length x = length out + n) \<or> r = -1 \<and> res = None"
proof (induction base delta out n rule: apply_loop.induct)
  case (2 base cmd delta out n)
  show ?case
  proof (cases "cmd AND 0x80 \<noteq> 0")
    case True
    then obtain off len rest where c: "read_copy cmd delta = Some (off, len, rest)"
      using 2(3) by (auto split: option.splits)
    show ?thesis
    proof (cases "length base < unat (off + len) \<or> n < unat len")
      case False
      then have "unat off + unat len \<le> length base" using copy_in_base [OF c] by simp
      then show ?thesis using 2(1) [OF True c refl refl False] 2(3) True c False by auto
    qed (use 2(3) True c in auto)
  next
    case False
    then show ?thesis using 2(2) [OF False] 2(3) by (auto split: if_splits)
  qed
qed (auto split: if_splits)

lemma hdr_loop_code: "hdr_loop d r s = Some (e, n, d') \<Longrightarrow> e = 0 \<or> e = -1"
  by (induction d r s rule: hdr_loop.induct) (auto split: if_splits simp: Let_def)

text \<open>C10: Whatever delta it is given, the decoder returns code 0 with exactly as many bytes as the
  header declares, for a base of exactly the declared length, or code -1 with no result; a result is never
  shorter or longer than the buffer allocated for it.\<close>

theorem git_delta_apply_bounds:
  assumes "git_delta_apply al base delta = Some (r, res)"
  shows "r = 0 \<and> (\<exists>out. res = Some out \<and> git_delta_read_header delta = Some (0, length base, length out)) \<or> r = -1 \<and> res = None"
proof -
  obtain e1 n1 d1 where h1: "hdr_sz delta = Some (e1, n1, d1)" using assms by (cases "hdr_sz delta") (auto simp: git_delta_apply_def)
  show ?thesis
  proof (cases "e1 < 0 \<or> n1 \<noteq> length base")
    case True
    then show ?thesis using assms h1 by (simp add: git_delta_apply_def)
  next
    case f1: False
    obtain e2 n2 d2 where h2: "hdr_sz d1 = Some (e2, n2, d2)" using assms h1 f1 by (cases "hdr_sz d1") (auto simp: git_delta_apply_def)
    show ?thesis
    proof (cases "e2 < 0 \<or> add_sizet n2 1 = None \<or> al (n2 + 1) = None")
      case True
      then show ?thesis using assms h1 f1 h2 by (auto simp: git_delta_apply_def alloc_add_def add_sizet_def split: option.splits if_splits)
    next
      case False
      then have "apply_loop base d2 [] n2 = Some (r, res)"
        using assms h1 f1 h2 by (auto simp: git_delta_apply_def alloc_add_def add_sizet_def split: option.splits if_splits)
      from apply_loop_length [OF this] show ?thesis using h1 h2 f1 False by (auto simp: git_delta_read_header_def)
    qed
  qed
qed

theorem git_delta_apply_bounds_witness:
  "\<exists>out. git_delta_apply (fill_alloc 0) (bytes_of ''ab'') [2, 1, 0x90, 1] = Some (0, Some out) \<and> length out = 1 \<and>
    ((0 :: int) = 0 \<and> (\<exists>o1. Some out = Some o1 \<and>
        git_delta_read_header [2, 1, 0x90, 1] = Some (0, length (bytes_of ''ab''), length o1)) \<or> (0 :: int) = -1 \<and> Some out = None)"
proof -
  have run: "git_delta_apply (fill_alloc 0) (bytes_of ''ab'') [2, 1, 0x90, 1] = Some (0, Some (bytes_of ''a''))"
    by (simp add: git_delta_apply_def hdr_sz_def bytes_of_def read_copy_def read_arg_def fill_alloc_def)
  show ?thesis using git_delta_apply_bounds [OF run] run by (auto simp: bytes_of_def)
qed

text \<open>C11: The decoder does not check that the arguments of a copy operation lie inside the delta: a delta that ends in
  a copy command byte whose argument is missing is read past its end.\<close>

theorem git_delta_apply_overread:
  assumes "total_alloc al" and "length base < 2 ^ 32" and "n < 2 ^ 32"
  shows "git_delta_apply al base (hdr_bytes (length base) @ hdr_bytes n @ [0x81]) = None"
  using hdr_sz_bytes [OF assms(2), of "hdr_bytes n @ [0x81]"] hdr_sz_bytes [OF assms(3), of "[0x81]"] assms
  by (simp add: git_delta_apply_def total_alloc_def read_copy_def read_arg_def)

theorem git_delta_apply_overread_witness:
  "git_delta_apply (fill_alloc 0) [1, 2, 3] (hdr_bytes (length [1 :: byte, 2, 3]) @ hdr_bytes 5 @ [0x81]) = None"
  by (rule git_delta_apply_overread) simp_all

lemma skip_entries_all: "skip \<le> 0 \<Longrightarrow> skip_entries skip es = []"
  by (induction skip es rule: skip_entries.induct) auto

lemma cull_one: "cull 1 es = es"
  by (induction "1 :: int" es rule: cull.induct) auto

text \<open>The culling of crowded buckets is not uniform: a bucket of 64 to 127 entries loses all but its first
  entry, and one of 128 to 255 entries keeps them all.\<close>

theorem git_delta_index_culling:
  assumes "n = length bucket" and "bucket \<noteq> []"
  shows "cull_bucket n bucket = (if n < 64 then bucket else if n < 128 then [hd bucket] else if n < 256 then bucket
    else cull (int (n div 64 div 2)) bucket)"
proof -
  have "n div 64 div 2 = 0" if "n < 128" using that by simp
  moreover have "n div 64 div 2 = 1" if "128 \<le> n" "n < 256"
  proof -
    have "n div 64 div 2 = n div 128" by (simp add: div_mult2_eq [symmetric])
    then show ?thesis using that by simp
  qed
  moreover have "cull 0 bucket = [hd bucket]"
    using assms(2) by (cases bucket) (simp_all add: skip_entries_all del: skip_entries.simps)
  ultimately show ?thesis by (auto simp: cull_bucket_def HASH_LIMIT_def cull_one)
qed

theorem git_delta_index_culling_witness:
  "cull_bucket 64 [0 :: nat ..< 64] = (if (64 :: nat) < 64 then [0 ..< 64] else if (64 :: nat) < 128 then [hd [0 ..< 64]]
    else if (64 :: nat) < 256 then [0 ..< 64] else cull (int (64 div 64 div 2)) [0 ..< 64])"
  by (rule git_delta_index_culling) simp_all

text \<open>Growing the output by half wraps around for an output above 1.4 GB: the step from this size, which the loop reaches
  by growing from 8192, asks for a smaller buffer.\<close>

lemma delta_room_wraps:
  assumes "d_bufsize st = 1570824171" and "1570824137 \<le> d_bufpos st"
  shows "delta_room al 0 st = (case realloc_cells al (d_buf st) 208752608 of
    None \<Rightarrow> OutOfMemory | Some buf \<Rightarrow> Continue (st\<lparr>d_bufsize := 208752608, d_buf := buf\<rparr>))"
  using assms by (simp add: delta_room_def MAX_OP_SIZE_def RABIN_WINDOW_def)

end
