(* ===== verification/Fnmatch.thy ===== *)
theory Fnmatch
  imports Prelude "HOL-Library.Sublist"
begin

text \<open>
  Wildcard matching (fnmatch.c). A pointer into a C string is the list of the bytes before its NUL;
  the pointer into the subject also carries the byte before it, \<open>None\<close> at \<open>stringstart\<close>, which is what \<open>*(string - 1)\<close>
  reads. Both strings end the loops before their NUL is passed, so no read is out of bounds.
\<close>

section \<open>The code\<close>

definition FNM_NOMATCH :: int where "FNM_NOMATCH = 1"
definition FNM_NORES :: int where "FNM_NORES = 3"
definition FNM_NOESCAPE :: u32 where "FNM_NOESCAPE = 0x01"
definition FNM_PATHNAME :: u32 where "FNM_PATHNAME = 0x02"
definition FNM_PERIOD :: u32 where "FNM_PERIOD = 0x04"
definition FNM_LEADING_DIR :: u32 where "FNM_LEADING_DIR = 0x08"
definition FNM_CASEFOLD :: u32 where "FNM_CASEFOLD = 0x10"

datatype range_result = RANGE_MATCH "byte list" | RANGE_NOMATCH | RANGE_ERROR

definition has_flag :: "u32 \<Rightarrow> u32 \<Rightarrow> bool" where
  "has_flag flags f \<longleftrightarrow> flags AND f \<noteq> 0"

definition fold_char :: "u32 \<Rightarrow> byte \<Rightarrow> byte" where
  "fold_char flags c = (if has_flag flags FNM_CASEFOLD then git_tolower c else c)"

text \<open>\<open>if (c == '\<close>\<open>\\<close>\<open>' && !(flags & FNM_NOESCAPE)) c = *pattern++;\<close>\<close>

definition unescape :: "u32 \<Rightarrow> byte \<Rightarrow> byte list \<Rightarrow> byte \<times> byte list" where
  "unescape flags c pattern =
     (if c = B (CHR 0x5C) \<and> \<not> has_flag flags FNM_NOESCAPE then (peek pattern, tl pattern) else (c, pattern))"

text \<open>
  One pass of the loop of \<open>rangematch\<close>: an early return, or whether this member matched and the
  pattern behind it.
\<close>

definition range_step :: "u32 \<Rightarrow> byte \<Rightarrow> byte \<Rightarrow> byte list \<Rightarrow> range_result + bool \<times> byte list" where
  "range_step flags test c0 pattern0 =
     (case unescape flags c0 pattern0 of (c, pattern) \<Rightarrow>
        if c = 0 then Inl RANGE_ERROR
        else if c = B (CHR ''/'') \<and> has_flag flags FNM_PATHNAME then Inl RANGE_NOMATCH
        else
          let c = fold_char flags c in
          if peek pattern = B (CHR ''-'') \<and> peek (tl pattern) \<noteq> 0 \<and> peek (tl pattern) \<noteq> B (CHR '']'') then
            case unescape flags (peek (tl pattern)) (drop 2 pattern) of (c2, pattern) \<Rightarrow>
              if c2 = 0 then Inl RANGE_ERROR
              else Inr (schar c \<le> schar test \<and> schar test \<le> schar (fold_char flags c2), pattern)
          else Inr (c = test, pattern))"

lemma unescape_length: "unescape flags c p = (c', p') \<Longrightarrow> length p' \<le> length p"
  by (auto simp: unescape_def split: if_splits)

lemma range_step_shorter:
  assumes "range_step flags test c p = Inr (hit, p')"
  shows "c \<noteq> 0" and "length p' \<le> length p"
proof -
  obtain c1 p1 where u: "unescape flags c p = (c1, p1)" by fastforce
  have l: "length p1 \<le> length p" by (rule unescape_length [OF u])
  show "c \<noteq> 0" using assms by (auto simp: range_step_def unescape_def split: if_splits)
  obtain c2 p2 where v: "unescape flags (peek (tl p1)) (drop 2 p1) = (c2, p2)" by fastforce
  have "length p2 \<le> length p1" using unescape_length [OF v] by simp
  then show "length p' \<le> length p" using assms l by (auto simp: range_step_def u v Let_def split: if_splits)
qed

function range_loop :: "u32 \<Rightarrow> byte \<Rightarrow> bool \<Rightarrow> bool \<Rightarrow> byte \<Rightarrow> byte list \<Rightarrow> range_result" where
  "range_loop flags test negate ok c pattern =
     (case range_step flags test c pattern of
        Inl r \<Rightarrow> r
      | Inr (hit, pattern1) \<Rightarrow>
          if peek pattern1 = B (CHR '']'')
          then if (ok \<or> hit) = negate then RANGE_NOMATCH else RANGE_MATCH (tl pattern1)
          else range_loop flags test negate (ok \<or> hit) (peek pattern1) (tl pattern1))"
  by pat_completeness auto
termination
proof (relation "measure (\<lambda>(flags, test, negate, ok, c, pattern). length pattern + (if c = 0 then 0 else 1))")
  fix flags :: u32 and test c and pattern pattern1 :: "byte list" and negate ok hit :: bool
  fix q
  assume "range_step flags test c pattern = Inr q" "(hit, pattern1) = q"
  then have s: "range_step flags test c pattern = Inr (hit, pattern1)" by simp
  show "((flags, test, negate, ok \<or> hit, peek pattern1, tl pattern1), flags, test, negate, ok, c, pattern)
    \<in> measure (\<lambda>(flags, test, negate, ok, c, pattern). length pattern + (if c = 0 then 0 else 1))"
    using range_step_shorter [OF s] by (cases pattern1) auto
qed simp

declare range_loop.simps [simp del]

definition rangematch :: "byte list \<Rightarrow> byte \<Rightarrow> u32 \<Rightarrow> range_result" where
  "rangematch pattern test flags =
     (let negate = (peek pattern = B (CHR ''!'') \<or> peek pattern = B (CHR ''^''));
          pattern = (if negate then tl pattern else pattern)
      in range_loop flags (fold_char flags test) negate False (peek pattern) (tl pattern))"

lemma range_loop_shorter: "range_loop flags test negate ok c p = RANGE_MATCH p' \<Longrightarrow> length p' \<le> length p"
proof (induction flags test negate ok c p rule: range_loop.induct)
  case (1 flags test negate ok c p)
  show ?case
  proof (cases "range_step flags test c p")
    case (Inr q)
    then obtain hit p1 where s: "range_step flags test c p = Inr (hit, p1)" by (cases q) auto
    have l: "length p1 \<le> length p" by (rule range_step_shorter [OF s])
    have eq: "range_loop flags test negate ok c p =
        (if peek p1 = B (CHR '']'') then if (ok \<or> hit) = negate then RANGE_NOMATCH else RANGE_MATCH (tl p1)
         else range_loop flags test negate (ok \<or> hit) (peek p1) (tl p1))"
      by (subst range_loop.simps) (simp add: s)
    show ?thesis
    proof (cases "peek p1 = B (CHR '']'')")
      case True
      then have "p' = tl p1" using 1(2) eq by (simp split: if_splits)
      then show ?thesis using l by simp
    next
      case False
      then have "length p' \<le> length (tl p1)" using 1(1) [OF s refl False] 1(2) eq by simp
      then show ?thesis using l by simp
    qed
  next
    case (Inl r)
    have "r \<noteq> RANGE_MATCH p'" using Inl by (auto simp: range_step_def Let_def split: prod.splits if_splits)
    then show ?thesis using 1(2) Inl by (subst (asm) range_loop.simps) simp
  qed
qed

lemma rangematch_shorter: "rangematch p test flags = RANGE_MATCH p' \<Longrightarrow> length p' \<le> length p"
  by (auto simp: rangematch_def Let_def dest!: range_loop_shorter split: if_splits)

text \<open>\<open>strchr\<close> for a byte that is not NUL; \<open>[]\<close> is NULL.\<close>

definition strchr :: "byte \<Rightarrow> byte list \<Rightarrow> byte list" where
  "strchr c s = dropWhile (\<lambda>x. x \<noteq> c) s"

definition char_matches :: "u32 \<Rightarrow> byte \<Rightarrow> byte \<Rightarrow> bool" where
  "char_matches flags c x \<longleftrightarrow> \<not> (c \<noteq> x \<and> \<not> (has_flag flags FNM_CASEFOLD \<and> git_tolower c = git_tolower x))"

text \<open>The test for a leading period, and the three tests shared by \<open>?\<close> and \<open>[\<close>.\<close>

definition period_stop :: "u32 \<Rightarrow> byte option \<Rightarrow> byte list \<Rightarrow> bool" where
  "period_stop flags prev string \<longleftrightarrow>
     peek string = B (CHR ''.'') \<and> has_flag flags FNM_PERIOD \<and>
     (prev = None \<or> has_flag flags FNM_PATHNAME \<and> prev = Some (B (CHR ''/'')))"

definition wild_stop :: "u32 \<Rightarrow> byte option \<Rightarrow> byte list \<Rightarrow> bool" where
  "wild_stop flags prev string \<longleftrightarrow>
     string = [] \<or> peek string = B (CHR ''/'') \<and> has_flag flags FNM_PATHNAME \<or> period_stop flags prev string"

text \<open>The two loops of \<open>*\<close> that call \<open>p_fnmatchx\<close> again, given as \<open>rec\<close>.\<close>

fun star_loop :: "(byte list \<Rightarrow> int) \<Rightarrow> u32 \<Rightarrow> byte list \<Rightarrow> int" where
  "star_loop rec flags [] = FNM_NOMATCH"
| "star_loop rec flags (test # string) =
     (let e = rec (test # string) in
      if e \<noteq> FNM_NOMATCH then e
      else if test = B (CHR ''/'') \<and> has_flag flags FNM_PATHNAME then FNM_NOMATCH
      else star_loop rec flags string)"

function dstar_loop :: "(byte list \<Rightarrow> int) \<Rightarrow> byte list \<Rightarrow> int" where
  "dstar_loop rec string =
     (let e = rec string in
      if e \<noteq> FNM_NOMATCH then e
      else case strchr (B (CHR ''/'')) string of
             [] \<Rightarrow> FNM_NOMATCH
           | c # string1 \<Rightarrow> dstar_loop rec string1)"
  by pat_completeness auto
termination
proof (relation "measure (\<lambda>(rec, string). length string)")
  fix rec :: "byte list \<Rightarrow> int" and string c string1 e
  assume "strchr (B (CHR ''/'')) string = c # string1"
  then have "length (c # string1) \<le> length string" by (metis strchr_def length_dropWhile_le)
  then show "((rec, string1), rec, string) \<in> measure (\<lambda>(rec, string). length string)" by simp
qed simp

declare dstar_loop.simps [simp del]

function fn_loop :: "(byte list \<Rightarrow> byte list \<Rightarrow> int) \<Rightarrow> u32 \<Rightarrow> byte option \<Rightarrow> byte list \<Rightarrow> byte list \<Rightarrow> int" where
  "fn_loop rec flags prev [] string =
     (if has_flag flags FNM_LEADING_DIR \<and> peek string = B (CHR ''/'') then 0
      else if string = [] then 0 else FNM_NOMATCH)"
| "fn_loop rec flags prev (c # pattern) string =
     (if c = B (CHR ''?'') then
        if wild_stop flags prev string then FNM_NOMATCH
        else fn_loop rec flags (Some (peek string)) pattern (tl string)
      else if c = B (CHR ''*'') then
        if peek pattern = B (CHR ''*'') then
          if tl pattern = [] then 0
          else if peek (tl pattern) \<noteq> B (CHR ''/'') then FNM_NOMATCH
          else dstar_loop (rec (drop 2 pattern)) string
        else if period_stop flags prev string then FNM_NOMATCH
        else if pattern = [] then
          if has_flag flags FNM_PATHNAME then
            if has_flag flags FNM_LEADING_DIR \<or> strchr (B (CHR ''/'')) string = [] then 0 else FNM_NOMATCH
          else 0
        else if peek pattern = B (CHR ''/'') \<and> has_flag flags FNM_PATHNAME then
          case strchr (B (CHR ''/'')) string of
            [] \<Rightarrow> FNM_NOMATCH
          | x # rest \<Rightarrow>
              let passed = length string - length (x # rest) in
              fn_loop rec flags (if passed = 0 then prev else Some (string ! (passed - 1))) pattern (x # rest)
        else star_loop (rec pattern) flags string
      else if c = B (CHR ''['') then
        if wild_stop flags prev string then FNM_NOMATCH
        else case rangematch pattern (peek string) flags of
               RANGE_ERROR \<Rightarrow>
                 if char_matches flags c (peek string) then fn_loop rec flags (Some (peek string)) pattern (tl string)
                 else FNM_NOMATCH
             | RANGE_MATCH newp \<Rightarrow> fn_loop rec flags (Some (peek string)) newp (tl string)
             | RANGE_NOMATCH \<Rightarrow> FNM_NOMATCH
      else
        case unescape flags c pattern of (c1, pattern1) \<Rightarrow>
          let c2 = (if c1 = 0 then c else c1) in
          if char_matches flags c2 (peek string) then fn_loop rec flags (Some (peek string)) pattern1 (tl string)
          else FNM_NOMATCH)"
  by pat_completeness auto
termination
  by (relation "measure (\<lambda>(rec, flags, prev, pattern, string). length pattern)")
    (auto simp: less_Suc_eq_le intro: unescape_length [OF sym] rangematch_shorter)

primrec p_fnmatchx :: "nat \<Rightarrow> u32 \<Rightarrow> byte list \<Rightarrow> byte list \<Rightarrow> int" where
  "p_fnmatchx 0 flags pattern string = FNM_NORES"
| "p_fnmatchx (Suc recurs) flags pattern string =
     fn_loop (\<lambda>p s. p_fnmatchx recurs (flags AND NOT FNM_PERIOD) p s) flags None pattern string"

definition p_fnmatch :: "byte list \<Rightarrow> byte list \<Rightarrow> u32 \<Rightarrow> int" where
  "p_fnmatch pattern string flags = p_fnmatchx 64 flags (cstr pattern) (cstr string)"


section \<open>A declarative semantics of patterns\<close>

inductive glob :: "u32 \<Rightarrow> byte option \<Rightarrow> byte list \<Rightarrow> byte list \<Rightarrow> bool" where
  End: "glob fl prev [] []"
| Leading_dir: "has_flag fl FNM_LEADING_DIR \<Longrightarrow> glob fl prev [] (B (CHR ''/'') # s)"
| Any: "\<not> wild_stop fl prev (x # s) \<Longrightarrow> glob fl (Some x) p s \<Longrightarrow> glob fl prev (B (CHR ''?'') # p) (x # s)"
| Star_star_end: "glob fl prev [B (CHR ''*''), B (CHR ''*'')] s"
| Star_star: "a = [] \<or> last a = B (CHR ''/'') \<Longrightarrow> glob (fl AND NOT FNM_PERIOD) None p b \<Longrightarrow>
    glob fl prev (B (CHR ''*'') # B (CHR ''*'') # B (CHR ''/'') # p) (a @ b)"
| Star: "peek p \<noteq> B (CHR ''*'') \<Longrightarrow> \<not> (has_flag fl FNM_PATHNAME \<and> peek p = B (CHR ''/'')) \<Longrightarrow>
    \<not> period_stop fl prev (a @ b) \<Longrightarrow> has_flag fl FNM_PATHNAME \<longrightarrow> B (CHR ''/'') \<notin> set a \<Longrightarrow>
    glob (fl AND NOT FNM_PERIOD) None p b \<Longrightarrow> glob fl prev (B (CHR ''*'') # p) (a @ b)"
| Star_slash: "has_flag fl FNM_PATHNAME \<Longrightarrow> \<not> period_stop fl prev (a @ B (CHR ''/'') # b) \<Longrightarrow> B (CHR ''/'') \<notin> set a \<Longrightarrow>
    glob fl (Some (B (CHR ''/''))) p b \<Longrightarrow> glob fl prev (B (CHR ''*'') # B (CHR ''/'') # p) (a @ B (CHR ''/'') # b)"
| Bracket: "\<not> wild_stop fl prev (x # s) \<Longrightarrow> rangematch p x fl = RANGE_MATCH p1 \<Longrightarrow> glob fl (Some x) p1 s \<Longrightarrow>
    glob fl prev (B (CHR ''['') # p) (x # s)"
| Bracket_plain: "\<not> wild_stop fl prev (x # s) \<Longrightarrow> rangematch p x fl = RANGE_ERROR \<Longrightarrow> char_matches fl (B (CHR ''['')) x \<Longrightarrow>
    glob fl (Some x) p s \<Longrightarrow> glob fl prev (B (CHR ''['') # p) (x # s)"
| Escaped: "\<not> has_flag fl FNM_NOESCAPE \<Longrightarrow> char_matches fl c x \<Longrightarrow> glob fl (Some x) p s \<Longrightarrow>
    glob fl prev (B (CHR 0x5C) # c # p) (x # s)"
| Escaped_end: "\<not> has_flag fl FNM_NOESCAPE \<Longrightarrow> char_matches fl (B (CHR 0x5C)) x \<Longrightarrow> glob fl (Some x) [] s \<Longrightarrow>
    glob fl prev [B (CHR 0x5C)] (x # s)"
| Plain: "c \<notin> {B (CHR ''?''), B (CHR ''*''), B (CHR ''[''), 0} \<Longrightarrow> c = B (CHR 0x5C) \<longrightarrow> has_flag fl FNM_NOESCAPE \<Longrightarrow>
    char_matches fl c x \<Longrightarrow> glob fl (Some x) p s \<Longrightarrow> glob fl prev (c # p) (x # s)"

inductive_simps glob_Nil: "glob fl prev [] s"
inductive_simps glob_Cons: "glob fl prev (c # p) s"

abbreviation verdict :: "bool \<Rightarrow> int" where
  "verdict b \<equiv> if b then 0 else FNM_NOMATCH"

definition stars :: "byte list \<Rightarrow> nat" where
  "stars p = length (filter (\<lambda>c. c = B (CHR ''*'')) p)"

lemma star_loop_verdict:
  assumes "\<And>b. rec b = verdict (P b)"
  shows "star_loop rec fl s = verdict (\<exists>a b. s = a @ b \<and> b \<noteq> [] \<and> (has_flag fl FNM_PATHNAME \<longrightarrow> B (CHR ''/'') \<notin> set a) \<and> P b)"
proof (induction s)
  case (Cons x s)
  have split: "(\<exists>a b. x # s = a @ b \<and> b \<noteq> [] \<and> (has_flag fl FNM_PATHNAME \<longrightarrow> B (CHR ''/'') \<notin> set a) \<and> P b) \<longleftrightarrow>
      P (x # s) \<or> \<not> (has_flag fl FNM_PATHNAME \<and> x = B (CHR ''/'')) \<and>
        (\<exists>a b. s = a @ b \<and> b \<noteq> [] \<and> (has_flag fl FNM_PATHNAME \<longrightarrow> B (CHR ''/'') \<notin> set a) \<and> P b)" (is "?l = ?r")
  proof
    assume ?l
    then obtain a b where "x # s = a @ b" "b \<noteq> []" "has_flag fl FNM_PATHNAME \<longrightarrow> B (CHR ''/'') \<notin> set a" "P b" by blast
    then show ?r by (cases a) auto
  next
    assume ?r
    then show ?l by (metis append_Cons append_Nil list.distinct(1) set_ConsD empty_iff list.set(1))
  qed
  show ?case unfolding split star_loop.simps Let_def assms [of "x # s"] Cons.IH by (auto simp: FNM_NOMATCH_def)
qed simp


lemma strchr_split:
  "strchr c s = x # rest \<Longrightarrow> x = c \<and> (\<exists>a. s = a @ c # rest \<and> c \<notin> set a)"
  unfolding strchr_def
  by (metis (mono_tags, lifting) dropWhile_eq_Cons_conv set_takeWhileD takeWhile_dropWhile_id)

lemma strchr_append: "c \<notin> set a \<Longrightarrow> strchr c (a @ c # b) = c # b"
  by (induction a) (auto simp: strchr_def)

lemma first_split:
  fixes c :: byte
  assumes "c \<notin> set a"
  shows "(\<exists>u b. a @ c # rest = u @ c # b \<and> c \<notin> set u \<and> G b) \<longleftrightarrow> G rest"
proof
  assume "\<exists>u b. a @ c # rest = u @ c # b \<and> c \<notin> set u \<and> G b"
  then obtain u b where e: "a @ c # rest = u @ c # b" "c \<notin> set u" "G b" by blast
  have "c # rest = c # b" using arg_cong [OF e(1), of "strchr c"] by (simp add: strchr_append assms e(2))
  then show "G rest" using e(3) by simp
qed (use assms in blast)

lemma strchr_Nil: "strchr c s = [] \<longleftrightarrow> c \<notin> set s"
  by (auto simp: strchr_def dropWhile_eq_Nil_conv)

lemma dstar_loop_verdict:
  assumes "\<And>b. rec b = verdict (P b)"
  shows "dstar_loop rec s = verdict (\<exists>a b. s = a @ b \<and> (a = [] \<or> last a = B (CHR ''/'')) \<and> P b)"
proof (induction s rule: length_induct)
  case (1 s)
  let ?sl = "B (CHR ''/'') :: byte"
  show ?case
  proof (cases "strchr ?sl s")
    case Nil
    then have "(\<exists>a b. s = a @ b \<and> (a = [] \<or> last a = ?sl) \<and> P b) \<longleftrightarrow> P s"
      by (metis Nil append_Nil last_in_set strchr_Nil Un_iff set_append)
    then show ?thesis using Nil by (subst dstar_loop.simps) (simp add: Let_def assms [of s] FNM_NOMATCH_def)
  next
    case (Cons c rest)
    then obtain a0 where a0: "c = ?sl" "s = a0 @ ?sl # rest" "?sl \<notin> set a0" using strchr_split by blast
    have ih: "dstar_loop rec rest = verdict (\<exists>a b. rest = a @ b \<and> (a = [] \<or> last a = ?sl) \<and> P b)"
      using 1 a0(2) by simp
    have "(\<exists>a b. s = a @ b \<and> (a = [] \<or> last a = ?sl) \<and> P b) \<longleftrightarrow>
        P s \<or> (\<exists>a b. rest = a @ b \<and> (a = [] \<or> last a = ?sl) \<and> P b)" (is "?l \<longleftrightarrow> ?r")
    proof
      assume ?l
      then obtain a b where ab: "s = a @ b" "a = [] \<or> last a = ?sl" "P b" by blast
      show ?r
      proof (cases "a = []")
        case False
        then have "?sl \<in> set a" using ab(2) last_in_set by metis
        then obtain u where u: "a = a0 @ ?sl # u"
          using ab(1) a0(2,3) by (auto simp: append_eq_append_conv2 Cons_eq_append_conv append_eq_Cons_conv)
        then have "rest = u @ b" using ab(1) a0(2) by simp
        moreover have "u = [] \<or> last u = ?sl" using ab(2) u by (auto split: if_splits)
        ultimately show ?thesis using ab(3) by blast
      qed (use ab in simp)
    next
      assume ?r
      then show ?l
      proof
        assume "\<exists>a b. rest = a @ b \<and> (a = [] \<or> last a = ?sl) \<and> P b"
        then obtain u b where "rest = u @ b" "u = [] \<or> last u = ?sl" "P b" by blast
        then show ?l using a0(2) by (intro exI [of _ "a0 @ ?sl # u"] exI [of _ b]) auto
      qed (metis append_Nil)
    qed
    then show ?thesis using Cons ih by (subst dstar_loop.simps) (simp add: Let_def assms [of s] FNM_NOMATCH_def)
  qed
qed


text \<open>What a bracket leaves of the pattern is a suffix of it.\<close>

lemma suffix_tl: "suffix (tl p) p"
  by (cases p) (auto simp: suffix_def)

lemma unescape_suffix: "unescape fl c p = (c1, p1) \<Longrightarrow> suffix p1 p"
  by (auto simp: unescape_def suffix_tl split: if_splits)

lemma range_step_suffix:
  assumes "range_step fl test c p = Inr (hit, p1)"
  shows "suffix p1 p"
proof -
  obtain c1 q where u: "unescape fl c p = (c1, q)" by fastforce
  obtain c2 q2 where v: "unescape fl (peek (tl q)) (drop 2 q) = (c2, q2)" by fastforce
  have "suffix q2 q" using unescape_suffix [OF v] suffix_drop suffix_order.trans by blast
  then show ?thesis
    using assms unescape_suffix [OF u] suffix_order.trans by (auto simp: range_step_def u v Let_def split: if_splits)
qed

lemma range_loop_suffix: "range_loop fl test negate ok c p = RANGE_MATCH p1 \<Longrightarrow> suffix p1 p"
proof (induction fl test negate ok c p rule: range_loop.induct)
  case (1 fl test negate ok c p)
  show ?case
  proof (cases "range_step fl test c p")
    case (Inr q)
    then obtain hit p2 where s: "range_step fl test c p = Inr (hit, p2)" by (cases q) auto
    have l: "suffix (tl p2) p" using range_step_suffix [OF s] suffix_tl suffix_order.trans by blast
    have eq: "range_loop fl test negate ok c p =
        (if peek p2 = B (CHR '']'') then if (ok \<or> hit) = negate then RANGE_NOMATCH else RANGE_MATCH (tl p2)
         else range_loop fl test negate (ok \<or> hit) (peek p2) (tl p2))"
      by (subst range_loop.simps) (simp add: s)
    show ?thesis
    proof (cases "peek p2 = B (CHR '']'')")
      case True
      then have "p1 = tl p2" using 1(2) eq by (simp split: if_splits)
      then show ?thesis using l by simp
    next
      case False
      then have "suffix p1 (tl p2)" using 1(1) [OF s refl False] 1(2) eq by simp
      then show ?thesis using l suffix_order.trans by blast
    qed
  next
    case (Inl r)
    have "r \<noteq> RANGE_MATCH p1" using Inl by (auto simp: range_step_def Let_def split: prod.splits if_splits)
    then show ?thesis using 1(2) Inl by (subst (asm) range_loop.simps) simp
  qed
qed

lemma rangematch_suffix:
  assumes "rangematch p test fl = RANGE_MATCH p1"
  shows "suffix p1 p"
proof -
  have "suffix p1 (tl p) \<or> suffix p1 (tl (tl p))"
    using assms by (auto simp: rangematch_def Let_def dest!: range_loop_suffix split: if_splits)
  then show ?thesis using suffix_tl [of p] suffix_tl [of "tl p"] suffix_order.trans by metis
qed

lemma stars_suffix: "suffix p1 p \<Longrightarrow> stars p1 \<le> stars p"
  by (auto simp: suffix_def stars_def)

lemma nul_suffix: "suffix p1 p \<Longrightarrow> 0 \<notin> set p \<Longrightarrow> 0 \<notin> set p1"
  by (auto simp: suffix_def)

text \<open>A nonempty pattern without a leading star does not match the empty string.\<close>

lemma glob_empty: "glob fl prev p [] \<Longrightarrow> p = [] \<or> peek p = B (CHR ''*'')"
  by (cases rule: glob.cases) auto

lemma tolower_nul: "c \<noteq> 0 \<Longrightarrow> git_tolower c \<noteq> git_tolower 0"
  by (rule all_bytes [of "\<lambda>c. c \<noteq> 0 \<longrightarrow> git_tolower c \<noteq> git_tolower 0", THEN mp]) code_simp

lemma char_matches_nul: "c \<noteq> 0 \<Longrightarrow> \<not> char_matches fl c 0"
  using tolower_nul [of c] by (simp add: char_matches_def)

definition good_rec :: "(byte list \<Rightarrow> byte list \<Rightarrow> int) \<Rightarrow> u32 \<Rightarrow> nat \<Rightarrow> bool" where
  "good_rec rec fl k \<longleftrightarrow> (\<forall>p s. stars p < k \<longrightarrow> 0 \<notin> set p \<longrightarrow> rec p s = verdict (glob fl None p s))"


lemma glob_star_star:
  "glob fl prev (B (CHR ''*'') # B (CHR ''*'') # q) s \<longleftrightarrow>
     q = [] \<or> (\<exists>q1. q = B (CHR ''/'') # q1 \<and>
       (\<exists>a b. s = a @ b \<and> (a = [] \<or> last a = B (CHR ''/'')) \<and> glob (fl AND NOT FNM_PERIOD) None q1 b))"
  by (subst glob_Cons) auto

lemma glob_star:
  assumes "peek p \<noteq> B (CHR ''*'')" and "\<not> (has_flag fl FNM_PATHNAME \<and> peek p = B (CHR ''/''))"
  shows "glob fl prev (B (CHR ''*'') # p) s \<longleftrightarrow> \<not> period_stop fl prev s \<and>
    (\<exists>a b. s = a @ b \<and> (has_flag fl FNM_PATHNAME \<longrightarrow> B (CHR ''/'') \<notin> set a) \<and> glob (fl AND NOT FNM_PERIOD) None p b)"
  using assms by (subst glob_Cons) auto

lemma glob_star_slash:
  assumes "has_flag fl FNM_PATHNAME"
  shows "glob fl prev (B (CHR ''*'') # B (CHR ''/'') # p) s \<longleftrightarrow> \<not> period_stop fl prev s \<and>
    (\<exists>a b. s = a @ B (CHR ''/'') # b \<and> B (CHR ''/'') \<notin> set a \<and> glob fl (Some (B (CHR ''/''))) p b)"
  using assms by (subst glob_Cons) auto

lemma glob_plain:
  assumes c: "c \<noteq> B (CHR ''?'')" "c \<noteq> B (CHR ''*'')" "c \<noteq> B (CHR ''['')" and nul: "c \<noteq> 0" "0 \<notin> set p"
    and u: "unescape fl c p = (c1, p1)"
  shows "glob fl prev (c # p) (x # t) \<longleftrightarrow> char_matches fl (if c1 = 0 then c else c1) x \<and> glob fl (Some x) p1 t"
proof (cases "c = B (CHR 0x5C) \<and> \<not> has_flag fl FNM_NOESCAPE")
  case False
  then have "c1 = c" "p1 = p" using u by (auto simp: unescape_def)
  then show ?thesis using False c nul by (subst glob_Cons) auto
next
  case True
  show ?thesis
  proof (cases p)
    case Nil
    then have "c1 = 0" "p1 = []" using u True by (auto simp: unescape_def)
    then show ?thesis using True Nil by (subst glob_Cons) auto
  next
    case (Cons d q)
    then have "c1 = d" "p1 = q" "d \<noteq> 0" using u True nul by (auto simp: unescape_def)
    then show ?thesis using True Cons by (subst glob_Cons) auto
  qed
qed

lemma fn_loop_glob:
  "good_rec rec (fl AND NOT FNM_PERIOD) (stars p) \<Longrightarrow> 0 \<notin> set p \<Longrightarrow>
   fn_loop rec fl prev p s = verdict (glob fl prev p s)"
proof (induction rec fl prev p s rule: fn_loop.induct)
  case (1 rec fl prev s)
  then show ?case by (cases s) (auto simp: glob_Nil)
next
  case (2 rec fl prev c p s)
  have good: "good_rec rec (fl AND NOT FNM_PERIOD) (stars q)" if "suffix q p" for q
  proof -
    have "stars q \<le> stars (c # p)" using stars_suffix [OF that] by (simp add: stars_def)
    then show ?thesis using 2(6) unfolding good_rec_def by (meson less_le_trans)
  qed
  have nul: "c \<noteq> 0" "0 \<notin> set p" using 2(7) by auto
  consider (any) "c = B (CHR ''?'')" | (star) "c = B (CHR ''*'')" | (bracket) "c = B (CHR ''['')"
    | (plain) "c \<noteq> B (CHR ''?'')" "c \<noteq> B (CHR ''*'')" "c \<noteq> B (CHR ''['')" by blast
  then show ?case
  proof cases
    case any
    show ?thesis
    proof (cases "wild_stop fl prev s")
      case True
      then show ?thesis using any by (cases s) (auto simp: glob_Cons)
    next
      case False
      then obtain x t where s: "s = x # t" by (cases s) (auto simp: wild_stop_def)
      have "fn_loop rec fl (Some x) p t = verdict (glob fl (Some x) p t)"
        using 2(1) [OF any False good] nul s by simp
      then show ?thesis using any False s by (simp add: glob_Cons)
    qed
  next
    case plain
    obtain c1 p1 where u: "unescape fl c p = (c1, p1)" by fastforce
    let ?c2 = "if c1 = 0 then c else c1"
    have sf: "suffix p1 p" by (rule unescape_suffix [OF u])
    have c2: "?c2 \<noteq> 0" using nul by simp
    show ?thesis
    proof (cases s)
      case Nil
      then show ?thesis using plain u char_matches_nul [OF c2] by (simp add: glob_Cons Let_def)
    next
      case (Cons x t)
      have ih: "fn_loop rec fl (Some x) p1 t = verdict (glob fl (Some x) p1 t)" if "char_matches fl ?c2 x"
        using 2(5) [OF plain u [symmetric] refl] that good [OF sf] nul_suffix [OF sf nul(2)] Cons by simp
      have "glob fl prev (c # p) (x # t) \<longleftrightarrow> char_matches fl ?c2 x \<and> glob fl (Some x) p1 t"
        by (rule glob_plain [OF plain nul(1,2) u])
      then show ?thesis using plain u Cons ih by (simp add: Let_def)
    qed
  next
    case bracket
    then have c: "c \<noteq> B (CHR ''?'')" "c \<noteq> B (CHR ''*'')" by auto
    show ?thesis
    proof (cases "wild_stop fl prev s")
      case True
      then show ?thesis using bracket by (cases s) (auto simp: glob_Cons)
    next
      case False
      then obtain x t where s: "s = x # t" by (cases s) (auto simp: wild_stop_def)
      show ?thesis
      proof (cases "rangematch p x fl")
        case (RANGE_MATCH p1)
        have sf: "suffix p1 p" by (rule rangematch_suffix [OF RANGE_MATCH])
        have "fn_loop rec fl (Some x) p1 t = verdict (glob fl (Some x) p1 t)"
          using 2(3) [OF c bracket False] RANGE_MATCH s good [OF sf] nul_suffix [OF sf nul(2)] by simp
        then show ?thesis using bracket False s RANGE_MATCH by (simp add: glob_Cons)
      next
        case RANGE_NOMATCH
        then show ?thesis using bracket False s by (simp add: glob_Cons)
      next
        case RANGE_ERROR
        have "fn_loop rec fl (Some x) p t = verdict (glob fl (Some x) p t)" if "char_matches fl c x"
          using 2(4) [OF c bracket False] RANGE_ERROR s good nul that by simp
        then show ?thesis using bracket False s RANGE_ERROR by (simp add: glob_Cons)
      qed
    qed
  next
    case star
    then have c: "c \<noteq> B (CHR ''?'')" by auto
    have recs: "rec q u = verdict (glob (fl AND NOT FNM_PERIOD) None q u)" if "suffix q p" for q u
    proof -
      have "stars q < stars (c # p)" using stars_suffix [OF that] star by (simp add: stars_def)
      then show ?thesis using 2(6) nul_suffix [OF that nul(2)] unfolding good_rec_def by blast
    qed
    show ?thesis
    proof (cases "peek p = B (CHR ''*'')")
      case True
      then obtain q where p: "p = B (CHR ''*'') # q" by (cases p) auto
      have "rec (drop 2 p) u = verdict (glob (fl AND NOT FNM_PERIOD) None (drop 2 p) u)" for u
        by (rule recs) (rule suffix_drop)
      then have "dstar_loop (rec (drop 2 p)) s =
          verdict (\<exists>a b. s = a @ b \<and> (a = [] \<or> last a = B (CHR ''/'')) \<and> glob (fl AND NOT FNM_PERIOD) None (drop 2 p) b)"
        by (rule dstar_loop_verdict)
      then show ?thesis using star p glob_star_star [of fl prev q s] by (cases q) auto
    next
      case single: False
      show ?thesis
      proof (cases "period_stop fl prev s")
        case True
        then show ?thesis using star single by (cases p) (auto simp: glob_Cons)
      next
        case nostop: False
        show ?thesis
        proof (cases "has_flag fl FNM_PATHNAME \<and> peek p = B (CHR ''/'')")
          case True
          then obtain q where p: "p = B (CHR ''/'') # q" by (cases p) auto
          show ?thesis
          proof (cases "strchr (B (CHR ''/'')) s")
            case Nil
            then show ?thesis
              using star single nostop True p glob_star_slash [of fl prev q s] Nil [unfolded strchr_Nil] by auto
          next
            case (Cons x rest)
            then obtain a where a: "x = B (CHR ''/'')" "s = a @ B (CHR ''/'') # rest" "B (CHR ''/'') \<notin> set a"
              using strchr_split by blast
            let ?prev = "if length s - length (x # rest) = 0 then prev else Some (s ! (length s - length (x # rest) - 1))"
            have "fn_loop rec fl ?prev p (x # rest) = verdict (glob fl ?prev p (x # rest))"
              using 2(2) [OF c star single nostop _ _ Cons refl] True p good nul by (simp add: Let_def)
            moreover have "glob fl ?prev p (x # rest) \<longleftrightarrow> glob fl (Some (B (CHR ''/''))) q rest"
              unfolding p a(1) by (subst glob_Cons) (simp add: char_matches_def)
            moreover have "glob fl prev (c # p) s \<longleftrightarrow> glob fl (Some (B (CHR ''/''))) q rest"
              unfolding star p glob_star_slash [OF conjunct1 [OF True]] a(2) first_split [OF a(3)]
              using nostop a(2) by simp
            ultimately show ?thesis using star single nostop True p Cons by (simp add: Let_def)
          qed
        next
          case general: False
          let ?P = "glob (fl AND NOT FNM_PERIOD) None p"
          have eq: "glob fl prev (c # p) s \<longleftrightarrow> (\<exists>a b. s = a @ b \<and> (has_flag fl FNM_PATHNAME \<longrightarrow> B (CHR ''/'') \<notin> set a) \<and> ?P b)"
            using glob_star [OF single general] star nostop by simp
          show ?thesis
          proof (cases "p = []")
            case True
            have lead: "has_flag (fl AND NOT FNM_PERIOD) FNM_LEADING_DIR = has_flag fl FNM_LEADING_DIR"
              by (simp add: has_flag_def FNM_PERIOD_def FNM_LEADING_DIR_def and.assoc)
            have "?P b \<longleftrightarrow> b = [] \<or> has_flag fl FNM_LEADING_DIR \<and> peek b = B (CHR ''/'')" for b
              unfolding True using lead by (cases b) (auto simp: glob_Nil)
            then have "glob fl prev (c # p) s \<longleftrightarrow>
                (has_flag fl FNM_PATHNAME \<longrightarrow> has_flag fl FNM_LEADING_DIR \<or> strchr (B (CHR ''/'')) s = [])"
              unfolding eq strchr_Nil
              by (metis (no_types, lifting) append_Nil2 in_set_conv_decomp_first peek_simps(2))
            then show ?thesis using star single nostop True by simp
          next
            case False
            have r: "rec p b = verdict (?P b)" for b by (rule recs) simp
            have "\<not> ?P []" using glob_empty single False by blast
            then have "(\<exists>a b. s = a @ b \<and> b \<noteq> [] \<and> (has_flag fl FNM_PATHNAME \<longrightarrow> B (CHR ''/'') \<notin> set a) \<and> ?P b) \<longleftrightarrow>
                glob fl prev (c # p) s" unfolding eq by blast
            then show ?thesis using star_loop_verdict [of "rec p" ?P fl s, OF r] star single nostop False general by auto
          qed
        qed
      qed
    qed
  qed
qed


lemma p_fnmatchx_glob: "stars p < r \<Longrightarrow> 0 \<notin> set p \<Longrightarrow> p_fnmatchx r fl p s = verdict (glob fl None p s)"
proof (induction r arbitrary: fl p s)
  case (Suc r)
  have "good_rec (\<lambda>p s. p_fnmatchx r (fl AND NOT FNM_PERIOD) p s) (fl AND NOT FNM_PERIOD) (stars p)"
    unfolding good_rec_def using Suc.IH Suc.prems(1) by auto
  then show ?case using fn_loop_glob Suc.prems(2) by simp
qed simp



section \<open>Bracket expressions\<close>

datatype bracket_item = Single byte | Range byte byte

fun item_bytes :: "bracket_item \<Rightarrow> byte list" where
  "item_bytes (Single c) = [c]"
| "item_bytes (Range a b) = [a, B (CHR ''-''), b]"

definition bracket_plain :: "byte \<Rightarrow> bool" where
  "bracket_plain c \<longleftrightarrow> c \<notin> {0, B (CHR '']''), B (CHR 0x5C), B (CHR ''-''), B (CHR ''/'')}"

fun item_plain :: "bracket_item \<Rightarrow> bool" where
  "item_plain (Single c) = bracket_plain c"
| "item_plain (Range a b) = (bracket_plain a \<and> bracket_plain b)"

text \<open>Membership is decided on signed \<open>char\<close> values.\<close>

fun item_hit :: "u32 \<Rightarrow> byte \<Rightarrow> bracket_item \<Rightarrow> bool" where
  "item_hit fl x (Single c) = (fold_char fl c = fold_char fl x)"
| "item_hit fl x (Range a b) =
     (schar (fold_char fl a) \<le> schar (fold_char fl x) \<and> schar (fold_char fl x) \<le> schar (fold_char fl b))"

lemma range_step_item:
  assumes "item_plain i" and "peek rest \<noteq> B (CHR ''-'')"
  shows "range_step fl (fold_char fl x) (hd (item_bytes i)) (tl (item_bytes i) @ rest) = Inr (item_hit fl x i, rest)"
  using assms by (cases i) (auto simp: range_step_def unescape_def bracket_plain_def Let_def)

definition items_bytes :: "bracket_item list \<Rightarrow> byte list \<Rightarrow> byte list" where
  "items_bytes is rest = concat (map item_bytes is) @ B (CHR '']'') # rest"

lemma peek_items: "list_all item_plain is \<Longrightarrow> peek (items_bytes is rest) \<noteq> B (CHR ''-'')"
  by (cases "is"; cases "hd is") (auto simp: items_bytes_def bracket_plain_def)

lemma range_loop_items:
  "list_all item_plain (i # is) \<Longrightarrow>
   range_loop fl (fold_char fl x) negate ok (hd (item_bytes i)) (tl (item_bytes i) @ items_bytes is rest) =
     (if (ok \<or> (\<exists>j\<in>set (i # is). item_hit fl x j)) = negate then RANGE_NOMATCH else RANGE_MATCH rest)"
proof (induction "is" arbitrary: i ok)
  case Nil
  have "range_step fl (fold_char fl x) (hd (item_bytes i)) (tl (item_bytes i) @ items_bytes [] rest) = Inr (item_hit fl x i, items_bytes [] rest)"
    by (rule range_step_item) (use Nil peek_items [of "[]"] in auto)
  then show ?case by (subst range_loop.simps) (simp add: items_bytes_def)
next
  case (Cons j "is")
  have "range_step fl (fold_char fl x) (hd (item_bytes i)) (tl (item_bytes i) @ items_bytes (j # is) rest) =
      Inr (item_hit fl x i, items_bytes (j # is) rest)"
    by (rule range_step_item) (use Cons.prems peek_items [of "j # is"] in auto)
  moreover have "peek (items_bytes (j # is) rest) = hd (item_bytes j)" "tl (items_bytes (j # is) rest) = tl (item_bytes j) @ items_bytes is rest"
    "hd (item_bytes j) \<noteq> B (CHR '']'')"
    using Cons.prems by (cases j; auto simp: items_bytes_def bracket_plain_def)+
  ultimately show ?case using Cons.IH [of j] Cons.prems by (subst range_loop.simps) (simp add: disj_assoc)
qed

text \<open>A bracket expression of single bytes and ranges, negated or not, accepts exactly the bytes in one of its
  members (after case folding when asked for), and the matcher goes on behind the closing bracket.\<close>

theorem rangematch_items:
  assumes "list_all item_plain (i # is)" and "hd (item_bytes i) \<notin> {B (CHR ''!''), B (CHR ''^'')}" and "neg = [] \<or> neg = [B (CHR ''!'')]"
  shows "rangematch (neg @ items_bytes (i # is) rest) x flags =
    (if (\<exists>j\<in>set (i # is). item_hit flags x j) = (neg = []) then RANGE_MATCH rest else RANGE_NOMATCH)"
proof -
  have h: "items_bytes (i # is) rest = hd (item_bytes i) # tl (item_bytes i) @ items_bytes is rest"
    by (cases i) (simp_all add: items_bytes_def)
  show ?thesis
  proof (cases "neg = []")
    case True
    then show ?thesis
      using assms(2) range_loop_items [OF assms(1), of flags x False False rest] unfolding h by (simp add: rangematch_def)
  next
    case False
    then show ?thesis
      using assms(3) range_loop_items [OF assms(1), of flags x True False rest] unfolding h by (simp add: rangematch_def)
  qed
qed

theorem rangematch_items_witness:
  "rangematch ([] @ items_bytes (Range (B (CHR ''a'')) (B (CHR ''f'')) # [Single (B (CHR ''x''))]) (bytes_of ''.h'')) (B (CHR ''C'')) FNM_CASEFOLD =
    (if (\<exists>j\<in>set (Range (B (CHR ''a'')) (B (CHR ''f'')) # [Single (B (CHR ''x''))]). item_hit FNM_CASEFOLD (B (CHR ''C'')) j) = (([] :: byte list) = [])
     then RANGE_MATCH (bytes_of ''.h'') else RANGE_NOMATCH)"
  by (rule rangematch_items) (simp_all add: bracket_plain_def)

end
