(* ===== verification/Oid.thy ===== *)
theory Oid
  imports Buffer
begin

text \<open>
  Object ids (oid.c, oid.h): parsing, formatting, comparing, and the object-id lines of commits and tags.
  A \<open>git_oid\<close> is its array of 20 bytes; a pointer that may be NULL is an option. A C string is the bytes of its object,
  whose end counts as NUL.
\<close>

section \<open>The type\<close>

abbreviation GIT_OID_RAWSZ :: nat where "GIT_OID_RAWSZ \<equiv> 20"
abbreviation GIT_OID_HEXSZ :: nat where "GIT_OID_HEXSZ \<equiv> 40"

typedef git_oid = "{raw :: byte list. length raw = GIT_OID_RAWSZ}" morphisms oid_id Abs_git_oid
  by (rule exI [of _ "replicate 20 0"]) simp

setup_lifting type_definition_git_oid

text \<open>\<open>git_oid_fromraw\<close> copies 20 bytes from its argument; a shorter object is read past its end.\<close>

lift_definition oid_of :: "byte list \<Rightarrow> git_oid" is "\<lambda>raw. take 20 (raw @ replicate 20 (0 :: byte))"
  by simp

definition git_oid_fromraw :: "byte list \<Rightarrow> git_oid option" where
  "git_oid_fromraw raw = (if length raw < GIT_OID_RAWSZ then None else Some (oid_of raw))"

definition git_oid_cpy :: "git_oid \<Rightarrow> git_oid" where
  "git_oid_cpy src = oid_of (oid_id src)"

text \<open>\<open>out->id[i] = v\<close>, for an index inside the array.\<close>

definition oid_put :: "git_oid \<Rightarrow> nat \<Rightarrow> byte \<Rightarrow> git_oid" where
  "oid_put out i v = oid_of ((oid_id out)[i := v])"

section \<open>Hexadecimal digits\<close>

definition from_hex :: "int list" where
  "from_hex = replicate 48 (-1) @ [0, 1, 2, 3, 4, 5, 6, 7, 8, 9] @ replicate 7 (-1) @ [10, 11, 12, 13, 14, 15] @
     replicate 26 (-1) @ [10, 11, 12, 13, 14, 15] @ replicate 153 (-1)"

definition git__fromhex :: "byte \<Rightarrow> int" where
  "git__fromhex h = from_hex ! unat h"

fun git__ishex :: "byte list \<Rightarrow> bool" where
  "git__ishex [] = True"
| "git__ishex (c # str) = (if c = 0 then True else if git__fromhex c < 0 then False else git__ishex str)"

definition to_hex :: "byte list" where
  "to_hex = bytes_of ''0123456789abcdef''"

section \<open>Parsing\<close>

text \<open>The loop of \<open>git_oid_fromstrn\<close>; \<open>n\<close> characters are still to be read. An error leaves the digits read so far in \<open>out\<close>.\<close>

fun fromstrn_loop :: "git_oid \<Rightarrow> nat \<Rightarrow> nat \<Rightarrow> byte list \<Rightarrow> int \<times> git_oid" where
  "fromstrn_loop out p 0 str = (0, out)"
| "fromstrn_loop out p (Suc n) str =
     (let v = git__fromhex (peek str) in
      if v < 0 then (-1, out)
      else fromstrn_loop
             (oid_put out (p div 2) (oid_id out ! (p div 2) OR of_int (if p mod 2 \<noteq> 0 then v else push_bit 4 v)))
             (p + 1) n (tl str))"

definition git_oid_fromstrn :: "git_oid \<Rightarrow> byte list \<Rightarrow> nat \<Rightarrow> int \<times> git_oid" where
  "git_oid_fromstrn out str n =
     (if n = 0 then (-1, out)
      else if n > GIT_OID_HEXSZ then (-1, out)
      else fromstrn_loop (oid_of (replicate 20 0)) 0 n str)"

definition git_oid_fromstrp :: "git_oid \<Rightarrow> byte list \<Rightarrow> int \<times> git_oid" where
  "git_oid_fromstrp out str = git_oid_fromstrn out str (cstrlen str)"

definition git_oid_fromstr :: "git_oid \<Rightarrow> byte list \<Rightarrow> int \<times> git_oid" where
  "git_oid_fromstr out str = git_oid_fromstrn out str GIT_OID_HEXSZ"

section \<open>Formatting\<close>

text \<open>The formatters are given by the bytes they write from \<open>str\<close> on.\<close>

definition fmt_one :: "byte \<Rightarrow> byte list" where
  "fmt_one val = [to_hex ! unat (drop_bit 4 val), to_hex ! unat (val AND 0xf)]"

definition git_oid_nfmt :: "nat \<Rightarrow> git_oid option \<Rightarrow> byte list" where
  "git_oid_nfmt n oid =
     (case oid of
        None \<Rightarrow> replicate n 0
      | Some oid \<Rightarrow>
          let zeros = (if n > GIT_OID_HEXSZ then replicate (n - GIT_OID_HEXSZ) 0 else []);
              n = (if n > GIT_OID_HEXSZ then GIT_OID_HEXSZ else n);
              max_i = n div 2
          in concat (map (\<lambda>i. fmt_one (oid_id oid ! i)) [0..<max_i]) @
             (if n mod 2 \<noteq> 0 then [to_hex ! unat (drop_bit 4 (oid_id oid ! max_i))] else []) @ zeros)"

definition git_oid_fmt :: "git_oid \<Rightarrow> byte list" where
  "git_oid_fmt oid = git_oid_nfmt GIT_OID_HEXSZ (Some oid)"

definition git_oid_pathfmt :: "git_oid \<Rightarrow> byte list" where
  "git_oid_pathfmt oid =
     fmt_one (oid_id oid ! 0) @ [B (CHR ''/'')] @ concat (map (\<lambda>i. fmt_one (oid_id oid ! i)) [1..<GIT_OID_RAWSZ])"

definition git_oid_tostr_s :: "git_oid option \<Rightarrow> byte list" where
  "git_oid_tostr_s oid = git_oid_nfmt (GIT_OID_HEXSZ + 1) oid"

definition git_oid_allocfmt :: "byte allocator \<Rightarrow> git_oid option \<Rightarrow> byte list option" where
  "git_oid_allocfmt al oid =
     (if al (GIT_OID_HEXSZ + 1) = None then None else Some (git_oid_nfmt (GIT_OID_HEXSZ + 1) oid))"

text \<open>
  \<open>git_oid_tostr\<close> on a buffer \<open>out\<close> of at least \<open>n\<close> cells: the string it returns and the buffer. A NULL buffer is \<open>None\<close>.
\<close>

definition git_oid_tostr :: "byte list option \<Rightarrow> nat \<Rightarrow> git_oid option \<Rightarrow> byte list \<times> byte list option" where
  "git_oid_tostr out n oid =
     (case out of
        None \<Rightarrow> ([], None)
      | Some cells \<Rightarrow>
          if n = 0 then ([], out)
          else
            let n = (if n > GIT_OID_HEXSZ + 1 then GIT_OID_HEXSZ + 1 else n);
                written = git_oid_nfmt (n - 1) oid @ [0];
                cells = written @ drop n cells
            in (cells, Some cells))"

section \<open>Object-id lines\<close>

text \<open>
  The buffer is the bytes from \<open>*buffer_out\<close> to \<open>buffer_end\<close>, the header a C string. The result is the code, the id
  and the bytes left.
\<close>

definition git_oid__parse :: "git_oid \<Rightarrow> byte list \<Rightarrow> byte list \<Rightarrow> int \<times> git_oid \<times> byte list" where
  "git_oid__parse oid buffer header =
     (let sha_len = GIT_OID_HEXSZ; header_len = cstrlen header in
      if header_len + sha_len + 1 > length buffer then (-1, oid, buffer)
      else if take header_len buffer \<noteq> cstr header then (-1, oid, buffer)
      else if buffer ! (header_len + sha_len) \<noteq> 10 then (-1, oid, buffer)
      else case git_oid_fromstr oid (drop header_len buffer) of
             (r, oid1) \<Rightarrow>
               if r < 0 then (-1, oid1, buffer)
               else (0, oid1, drop (header_len + sha_len + 1) buffer))"

text \<open>The results of the three appends are not looked at.\<close>

definition git_oid__writebuf :: "byte allocator \<Rightarrow> git_buf \<Rightarrow> byte list \<Rightarrow> git_oid \<Rightarrow> git_buf option" where
  "git_oid__writebuf al buf header oid = do {
     (r1, b1) \<leftarrow> git_buf_puts al buf header;
     (r2, b2) \<leftarrow> git_buf_put al b1 (git_oid_fmt oid);
     (r3, b3) \<leftarrow> git_buf_putc al b2 10;
     Some b3 }"

section \<open>Comparing\<close>

text \<open>A difference of two bytes is an \<open>int\<close>.\<close>

fun hashcmp :: "byte list \<Rightarrow> byte list \<Rightarrow> int" where
  "hashcmp (a # sha1) (b # sha2) = (if a \<noteq> b then uint a - uint b else hashcmp sha1 sha2)"
| "hashcmp sha1 sha2 = 0"

definition git_oid__hashcmp :: "byte list \<Rightarrow> byte list \<Rightarrow> int" where
  "git_oid__hashcmp sha1 sha2 = hashcmp (take GIT_OID_RAWSZ sha1) (take GIT_OID_RAWSZ sha2)"

definition git_oid__cmp :: "git_oid \<Rightarrow> git_oid \<Rightarrow> int" where
  "git_oid__cmp a b = git_oid__hashcmp (oid_id a) (oid_id b)"

definition git_oid_cmp :: "git_oid \<Rightarrow> git_oid \<Rightarrow> int" where
  "git_oid_cmp a b = git_oid__cmp a b"

definition git_oid_equal :: "git_oid \<Rightarrow> git_oid \<Rightarrow> bool" where
  "git_oid_equal a b \<longleftrightarrow> git_oid__cmp a b = 0"

text \<open>\<open>memcpy\<close> of the first \<open>(len + 1) / 2\<close> bytes, then the low half of the last one is cleared for an odd \<open>len\<close>.\<close>

definition git_oid__cpy_prefix :: "git_oid \<Rightarrow> git_oid \<Rightarrow> nat \<Rightarrow> git_oid option" where
  "git_oid__cpy_prefix out src n =
     (let m = (n + 1) div 2 in
      if m > GIT_OID_RAWSZ then None
      else
        let out1 = oid_of (take m (oid_id src) @ drop m (oid_id out)) in
        Some (if odd n then oid_put out1 (n div 2) (oid_id out1 ! (n div 2) AND 0xF0) else out1))"

fun ncmp_loop :: "nat \<Rightarrow> byte list \<Rightarrow> byte list \<Rightarrow> int" where
  "ncmp_loop (Suc (Suc n)) (a # as) (b # bs) = (if a \<noteq> b then 1 else ncmp_loop n as bs)"
| "ncmp_loop (Suc 0) (a # as) (b # bs) = (if (a XOR b) AND 0xf0 \<noteq> 0 then 1 else 0)"
| "ncmp_loop n as bs = 0"

definition git_oid_ncmp :: "git_oid \<Rightarrow> git_oid \<Rightarrow> nat \<Rightarrow> int" where
  "git_oid_ncmp oid_a oid_b n = ncmp_loop (if n > GIT_OID_HEXSZ then GIT_OID_HEXSZ else n) (oid_id oid_a) (oid_id oid_b)"

text \<open>The loop of \<open>git_oid_strcmp\<close> over the bytes of the id left, with the string read so far removed.\<close>

fun oid_strcmp_loop :: "byte list \<Rightarrow> byte list \<Rightarrow> int" where
  "oid_strcmp_loop [] str = 0"
| "oid_strcmp_loop (a # as) str =
     (if peek str = 0 then 0
      else
        let hexval = git__fromhex (peek str) in
        if hexval < 0 then -1
        else
          let strval = of_int (push_bit 4 hexval) :: byte; str1 = tl str in
          if peek str1 \<noteq> 0 then
            let hexval = git__fromhex (peek str1) in
            if hexval < 0 then -1
            else
              let strval = strval OR of_int hexval in
              if a \<noteq> strval then uint a - uint strval else oid_strcmp_loop as (tl str1)
          else if a \<noteq> strval then uint a - uint strval else oid_strcmp_loop as str1)"

definition git_oid_strcmp :: "git_oid \<Rightarrow> byte list \<Rightarrow> int" where
  "git_oid_strcmp oid_a str = oid_strcmp_loop (oid_id oid_a) str"

definition git_oid_streq :: "git_oid \<Rightarrow> byte list \<Rightarrow> int" where
  "git_oid_streq oid_a str = (if git_oid_strcmp oid_a str = 0 then 0 else -1)"

definition git_oid_iszero :: "git_oid \<Rightarrow> bool" where
  "git_oid_iszero oid_a \<longleftrightarrow> list_all (\<lambda>a. a = 0) (oid_id oid_a)"


section \<open>The order on object ids\<close>

lemma length_oid_id [simp]: "length (oid_id oid) = GIT_OID_RAWSZ"
  using oid_id by simp

lemma oid_id_of [simp]: "length raw = GIT_OID_RAWSZ \<Longrightarrow> oid_id (oid_of raw) = raw"
  by transfer simp

lemma oid_of_id [simp]: "oid_of (oid_id oid) = oid"
  by transfer simp

lemma hashcmp_sym: "hashcmp a b = - hashcmp b a"
  by (induction a b rule: hashcmp.induct) auto

lemma hashcmp_0: "length a = length b \<Longrightarrow> hashcmp a b = 0 \<longleftrightarrow> a = b"
  by (induction a b rule: hashcmp.induct) (auto simp: word_uint_eq_iff)

lemma hashcmp_trans:
  "length a = length b \<Longrightarrow> length b = length c \<Longrightarrow> hashcmp a b \<le> 0 \<Longrightarrow> hashcmp b c \<le> 0 \<Longrightarrow> hashcmp a c \<le> 0"
proof (induction a arbitrary: b c)
  case (Cons x a)
  then obtain y b' z c' where "b = y # b'" "c = z # c'" by (metis length_Suc_conv)
  then show ?case using Cons.prems Cons.IH [of b' c'] by (auto simp: word_uint_eq_iff split: if_splits)
qed simp

lemma git_oid__cmp_hashcmp: "git_oid__cmp a b = hashcmp (oid_id a) (oid_id b)"
  by (simp add: git_oid__cmp_def git_oid__hashcmp_def)

text \<open>The code's comparison makes the ids a linear order, and equality is decided by it.\<close>

instantiation git_oid :: equal
begin

definition equal_git_oid :: "git_oid \<Rightarrow> git_oid \<Rightarrow> bool" where
  "equal_git_oid a b \<longleftrightarrow> git_oid_equal a b"

instance
  by standard (simp add: equal_git_oid_def git_oid_equal_def git_oid__cmp_hashcmp hashcmp_0 oid_id_inject)

end

instantiation git_oid :: linorder
begin

definition less_eq_git_oid :: "git_oid \<Rightarrow> git_oid \<Rightarrow> bool" where
  "less_eq_git_oid a b \<longleftrightarrow> git_oid__cmp a b \<le> 0"

definition less_git_oid :: "git_oid \<Rightarrow> git_oid \<Rightarrow> bool" where
  "less_git_oid a b \<longleftrightarrow> git_oid__cmp a b < 0"

instance
proof
  fix a b c :: git_oid
  have sym: "git_oid__cmp a b = - git_oid__cmp b a" by (simp add: git_oid__cmp_hashcmp hashcmp_sym [of "oid_id a"])
  have eq: "git_oid__cmp a b = 0 \<longleftrightarrow> a = b" by (simp add: git_oid__cmp_hashcmp hashcmp_0 oid_id_inject)
  show "a < b \<longleftrightarrow> a \<le> b \<and> \<not> b \<le> a" using sym by (auto simp: less_git_oid_def less_eq_git_oid_def)
  show "a \<le> a" by (simp add: less_eq_git_oid_def git_oid__cmp_hashcmp hashcmp_0 [THEN iffD2])
  show "a \<le> b \<Longrightarrow> b \<le> c \<Longrightarrow> a \<le> c"
    using hashcmp_trans [of "oid_id a" "oid_id b" "oid_id c"] by (simp add: less_eq_git_oid_def git_oid__cmp_hashcmp)
  show "a \<le> b \<Longrightarrow> b \<le> a \<Longrightarrow> a = b" using sym eq by (simp add: less_eq_git_oid_def)
  show "a \<le> b \<or> b \<le> a" using sym by (auto simp: less_eq_git_oid_def)
qed

end

section \<open>Hexadecimal round trips\<close>

text \<open>The digits of a byte, and reading them back.\<close>

lemma fromhex_digits: "list_all (\<lambda>n. git__fromhex (to_hex ! n) = int n) [0..<16]"
  by code_simp

lemma nibble_bounds: "unat (drop_bit 4 (v :: byte)) < 16" "unat ((v :: byte) AND 0xf) < 16"
proof -
  have "unat v < 256" using unsigned_less [of v] by simp
  then show "unat (drop_bit 4 v) < 16" by (simp add: unat_div_distrib drop_bit_eq_div less_mult_imp_div_less)
  show "unat (v AND 0xf) < 16" using word_and_le1 [of v "0xf"] by (simp add: word_le_nat_alt)
qed

lemma fromhex_fmt_one:
  "git__fromhex (to_hex ! unat (drop_bit 4 (v :: byte))) = uint (drop_bit 4 v)"
  "git__fromhex (to_hex ! unat (v AND 0xf)) = uint (v AND 0xf)"
  using fromhex_digits nibble_bounds [of v] by (simp_all add: list_all_length)

lemma nibbles: "push_bit 4 (drop_bit 4 v) OR (v AND 0xf) = (v :: byte)"
  by (simp add: byte_bits)

definition hex_bytes :: "byte list \<Rightarrow> byte list" where
  "hex_bytes bs = concat (map fmt_one bs)"

lemma hex_bytes_simps [simp]: "hex_bytes [] = []" "hex_bytes (v # bs) = fmt_one v @ hex_bytes bs"
  by (simp_all add: hex_bytes_def)

lemma length_hex_bytes [simp]: "length (hex_bytes bs) = 2 * length bs"
  by (induction bs) (simp_all add: fmt_one_def)

lemma git_oid_fmt_hex: "git_oid_fmt oid = hex_bytes (oid_id oid)"
proof -
  have "map (\<lambda>i. fmt_one (oid_id oid ! i)) [0..<20] = map fmt_one (oid_id oid)"
    by (metis (no_types, lifting) length_oid_id map_nth map_map comp_apply map_cong)
  then show ?thesis by (simp add: git_oid_fmt_def git_oid_nfmt_def hex_bytes_def Let_def)
qed


lemma oid_put_at:
  assumes "length pre + Suc (length todo) = GIT_OID_RAWSZ"
  shows "oid_put (oid_of (pre @ x # todo)) (length pre) v = oid_of (pre @ v # todo)"
    and "oid_id (oid_of (pre @ x # todo)) ! length pre = x"
  using assms by (simp_all add: oid_put_def)

text \<open>Two digits fill one byte, a single last one its upper half.\<close>

lemma fromstrn_loop_byte:
  assumes "length pre + Suc (length todo) = GIT_OID_RAWSZ"
  shows "fromstrn_loop (oid_of (pre @ 0 # todo)) (2 * length pre) (Suc (Suc n)) (fmt_one v @ rest) =
    fromstrn_loop (oid_of (pre @ v # todo)) (2 * Suc (length pre)) n rest"
    and "fromstrn_loop (oid_of (pre @ 0 # todo)) (2 * length pre) 1 (fmt_one v @ rest) =
    (0, oid_of (pre @ (v AND 0xf0) # todo))"
proof -
  have hi: "of_int (push_bit 4 (uint (drop_bit 4 v))) = (push_bit 4 (drop_bit 4 v) :: byte)"
    by (simp add: push_bit_eq_mult)
  note lo = nibbles [of v]
  have up: "push_bit 4 (drop_bit 4 v) = v AND 0xf0"
    by (simp add: byte_bits)
  note put = oid_put_at [OF assms]
  have one: "fromstrn_loop (oid_of (pre @ 0 # todo)) (2 * length pre) (Suc m) (fmt_one v @ rest) =
      fromstrn_loop (oid_of (pre @ push_bit 4 (drop_bit 4 v) # todo)) (2 * length pre + 1) m (tl (fmt_one v) @ rest)" for m
    using fromhex_fmt_one(1) [of v] by (simp add: fmt_one_def Let_def put hi)
  then show "fromstrn_loop (oid_of (pre @ 0 # todo)) (2 * length pre) (Suc (Suc n)) (fmt_one v @ rest) =
    fromstrn_loop (oid_of (pre @ v # todo)) (2 * Suc (length pre)) n rest"
    using fromhex_fmt_one(2) [of v] by (simp add: fmt_one_def Let_def put lo)
  show "fromstrn_loop (oid_of (pre @ 0 # todo)) (2 * length pre) 1 (fmt_one v @ rest) = (0, oid_of (pre @ (v AND 0xf0) # todo))"
    using one [of 0] up by simp
qed

text \<open>The bytes that the first \<open>n\<close> digits determine.\<close>

fun prefix_bytes :: "nat \<Rightarrow> byte list \<Rightarrow> byte list" where
  "prefix_bytes (Suc (Suc n)) (v # bs) = v # prefix_bytes n bs"
| "prefix_bytes (Suc 0) (v # bs) = (v AND 0xf0) # replicate (length bs) 0"
| "prefix_bytes n bs = replicate (length bs) 0"

lemma fromstrn_loop_hex:
  "length pre + length bs = GIT_OID_RAWSZ \<Longrightarrow> n \<le> 2 * length bs \<Longrightarrow>
   fromstrn_loop (oid_of (pre @ replicate (length bs) 0)) (2 * length pre) n (hex_bytes bs @ rest) =
     (0, oid_of (pre @ prefix_bytes n bs))"
proof (induction n bs arbitrary: pre rule: prefix_bytes.induct)
  case (1 n v bs)
  have "fromstrn_loop (oid_of (pre @ replicate (length (v # bs)) 0)) (2 * length pre) (Suc (Suc n)) (hex_bytes (v # bs) @ rest) =
      fromstrn_loop (oid_of ((pre @ [v]) @ replicate (length bs) 0)) (2 * length (pre @ [v])) n (hex_bytes bs @ rest)"
    using fromstrn_loop_byte(1) [of pre "replicate (length bs) 0" n v "hex_bytes bs @ rest"] 1(2) by simp
  then show ?case using 1(1) [of "pre @ [v]"] 1(2,3) by simp
next
  case (2 v bs)
  then show ?case using fromstrn_loop_byte(2) [of pre "replicate (length bs) 0" v "hex_bytes bs @ rest"] by simp
qed auto

lemma length_prefix_bytes [simp]: "length (prefix_bytes n bs) = length bs"
  by (induction n bs rule: prefix_bytes.induct) auto

lemma prefix_bytes_all: "prefix_bytes (2 * length bs) bs = bs"
  by (induction bs) auto

lemma hex_prefix_bytes:
  "n \<le> 2 * length bs \<Longrightarrow> hex_bytes (prefix_bytes n bs) = take n (hex_bytes bs) @ replicate (2 * length bs - n) 48"
proof -
  have zeros: "hex_bytes (replicate k 0) = replicate (2 * k) 48" for k
    by (induction k) (simp_all add: fmt_one_def to_hex_def bytes_of_def)
  have half: "fmt_one (v AND 0xf0) = [hd (fmt_one v), 48]" for v :: byte
  proof -
    have "drop_bit 4 (v AND 0xf0) = drop_bit 4 v" "(v AND 0xf0) AND 0xf = 0" by (simp_all add: byte_bits)
    then show ?thesis by (simp add: fmt_one_def to_hex_def bytes_of_def)
  qed
  have two: "fmt_one v = [hd (fmt_one v), last (fmt_one v)]" for v by (simp add: fmt_one_def)
  show "n \<le> 2 * length bs \<Longrightarrow> hex_bytes (prefix_bytes n bs) = take n (hex_bytes bs) @ replicate (2 * length bs - n) 48"
  proof (induction n bs rule: prefix_bytes.induct)
    case (1 n v bs)
    obtain a b where "fmt_one v = [a, b]" using two [of v] by blast
    then show ?case using 1 by simp
  next
    case (2 v bs)
    obtain a b where "fmt_one v = [a, b]" using two [of v] by blast
    then show ?case by (simp add: half zeros)
  qed (simp_all add: zeros)
qed

text \<open>Digits of either case have the same value, and every digit is the lower case of its value.\<close>

lemma fromhex_lower:
  assumes "git_isxdigit c"
  shows "git__fromhex (git_tolower c) = git__fromhex c" and "0 \<le> git__fromhex c" "git__fromhex c < 16"
    and "to_hex ! nat (git__fromhex c) = git_tolower c"
proof -
  have "list_all (\<lambda>c. git_isxdigit c \<longrightarrow> git__fromhex (git_tolower c) = git__fromhex c \<and> 0 \<le> git__fromhex c \<and> git__fromhex c < 16 \<and>
      to_hex ! nat (git__fromhex c) = git_tolower c) (map (\<lambda>n. word_of_nat n :: byte) [0..<256])"
    by code_simp
  moreover have "unat c < 256" using unsigned_less [of c] by simp
  then obtain n where "n < 256" "c = word_of_nat n" by (intro that [of "unat c"]) simp_all
  ultimately show "git__fromhex (git_tolower c) = git__fromhex c" "0 \<le> git__fromhex c" "git__fromhex c < 16"
    "to_hex ! nat (git__fromhex c) = git_tolower c"
    using assms by (auto simp: list_all_iff)
qed

lemma fmt_digits:
  assumes "git_isxdigit a" "git_isxdigit b"
  shows "\<exists>v. fmt_one v = [git_tolower a, git_tolower b]"
proof -
  define v :: byte where "v = word_of_int (16 * git__fromhex a + git__fromhex b)"
  have u: "uint v = 16 * git__fromhex a + git__fromhex b"
    unfolding v_def uint_word_of_int using fromhex_lower(2,3) [OF assms(1)] fromhex_lower(2,3) [OF assms(2)]
    by (intro mod_pos_pos_trivial) auto
  have "uint (drop_bit 4 v) = git__fromhex a"
    using fromhex_lower(2,3) [OF assms(2)] by (simp add: unsigned_drop_bit_eq drop_bit_eq_div uint_div u)
  moreover have "uint (v AND 0xf) = git__fromhex b"
  proof -
    have "v AND 0xf = take_bit 4 v" by (simp add: take_bit_eq_mask mask_numeral)
    then have "uint (v AND 0xf) = uint v mod 16" by (simp only: unsigned_take_bit_eq) (simp add: take_bit_eq_mod)
    then show ?thesis using fromhex_lower(2,3) [OF assms(2)] by (simp add: u)
  qed
  ultimately have "unat (drop_bit 4 v) = nat (git__fromhex a)" "unat (v AND 0xf) = nat (git__fromhex b)"
    by (simp_all flip: nat_uint_eq)
  then have "fmt_one v = [git_tolower a, git_tolower b]"
    using fromhex_lower(4) assms by (simp add: fmt_one_def)
  then show ?thesis ..
qed

lemma hex_bytes_exist:
  "\<forall>c\<in>set t. git_isxdigit c \<Longrightarrow> length t \<le> 2 * k \<Longrightarrow> \<exists>bs. length bs = k \<and> take (length t) (hex_bytes bs) = map git_tolower t"
proof (induction t arbitrary: k rule: induct_list012)
  case 1
  then show ?case by (intro exI [of _ "replicate k 0"]) simp
next
  case (2 a)
  then obtain v where "fmt_one v = [git_tolower a, git_tolower a]" using fmt_digits [of a a] by auto
  then show ?case using 2 by (cases k) (auto intro!: exI [of _ "v # replicate (k - 1) 0"])
next
  case (3 a b t)
  from 3 obtain v where v: "fmt_one v = [git_tolower a, git_tolower b]" using fmt_digits [of a b] by auto
  from 3(4) obtain k' where k: "k = Suc k'" by (cases k) auto
  with 3 obtain bs where "length bs = k'" "take (length t) (hex_bytes bs) = map git_tolower t" by fastforce
  then show ?case using v k by (intro exI [of _ "v # bs"]) simp
qed

lemma fromstrn_loop_cong:
  "\<forall>i<n. git__fromhex (peek (drop i s)) = git__fromhex (peek (drop i t)) \<Longrightarrow> fromstrn_loop out p n s = fromstrn_loop out p n t"
proof (induction n arbitrary: out p s t)
  case (Suc n)
  have "git__fromhex (peek s) = git__fromhex (peek t)" using Suc.prems by auto
  moreover have "\<forall>i<n. git__fromhex (peek (drop i (tl s))) = git__fromhex (peek (drop i (tl t)))"
    using Suc.prems by (auto simp: drop_Suc [symmetric])
  ultimately show ?case using Suc.IH by (simp add: Let_def)
qed simp

lemma fromstrn_loop_oid: "m \<le> 40 \<Longrightarrow> fromstrn_loop (oid_of (replicate 20 0)) 0 m (hex_bytes (oid_id oid)) = (0, oid_of (prefix_bytes m (oid_id oid)))"
  using fromstrn_loop_hex [of "[]" "oid_id oid" m "[]"] by simp

text \<open>C13: Parsing the first \<open>n\<close> hexadecimal digits of an id gives the id with all later digits zero, for odd and even \<open>n\<close>, and
  parsing all of them gives the id back, whatever was in the target before. In the other direction, \<open>n\<close> digits of either case
  parse to an id, and formatting it gives the digits back, in lower case and followed by zeros.\<close>

theorem git_oid_hex_roundtrip:
  assumes "0 < n" and "n \<le> GIT_OID_HEXSZ" and "n \<le> length text" and "\<forall>c\<in>set (take n text). git_isxdigit c"
  shows "git_oid_fromstrn out (git_oid_fmt oid) n = (0, oid_of (prefix_bytes n (oid_id oid))) \<and>
    git_oid_fromstr out (git_oid_fmt oid) = (0, oid) \<and>
    (\<exists>oid'. git_oid_fromstrn out text n = (0, oid') \<and>
      git_oid_fmt oid' = map git_tolower (take n text) @ replicate (GIT_OID_HEXSZ - n) 48)"
proof (intro conjI)
  have "prefix_bytes 40 (oid_id oid) = oid_id oid" using prefix_bytes_all [of "oid_id oid"] by simp
  then show "git_oid_fromstrn out (git_oid_fmt oid) n = (0, oid_of (prefix_bytes n (oid_id oid)))"
    "git_oid_fromstr out (git_oid_fmt oid) = (0, oid)"
    using assms(1,2) by (simp_all add: git_oid_fromstr_def git_oid_fromstrn_def git_oid_fmt_hex fromstrn_loop_oid)
  have n: "length (take n text) = n" "n \<le> 40" using assms(2,3) by simp_all
  obtain bs where bs: "length bs = 20" "take n (hex_bytes bs) = map git_tolower (take n text)"
    using hex_bytes_exist [OF assms(4), of 20] n by auto
  have id: "oid_id (oid_of bs) = bs" using bs(1) by simp
  have "git__fromhex (peek (drop i text)) = git__fromhex (peek (drop i (hex_bytes bs)))" if "i < n" for i
  proof -
    have "hex_bytes bs ! i = git_tolower (text ! i)" using arg_cong [OF bs(2), of "\<lambda>xs. xs ! i"] that n by simp
    moreover have "text ! i \<in> set (take n text)" using assms(3) that by (metis in_set_conv_nth n(1) nth_take)
    then have "git_isxdigit (text ! i)" using assms(4) by blast
    moreover have "drop i text = text ! i # drop (Suc i) text" "drop i (hex_bytes bs) = hex_bytes bs ! i # drop (Suc i) (hex_bytes bs)"
      using that assms(3) n(2) bs(1) by (simp_all add: Cons_nth_drop_Suc)
    ultimately show ?thesis using fromhex_lower(1) by simp
  qed
  then have "fromstrn_loop (oid_of (replicate 20 0)) 0 n text = fromstrn_loop (oid_of (replicate 20 0)) 0 n (hex_bytes bs)"
    by (intro fromstrn_loop_cong) blast
  then have "git_oid_fromstrn out text n = (0, oid_of (prefix_bytes n bs))"
    using assms(1,2) fromstrn_loop_oid [of n "oid_of bs"] id by (simp add: git_oid_fromstrn_def)
  moreover have "git_oid_fmt (oid_of (prefix_bytes n bs)) = map git_tolower (take n text) @ replicate (GIT_OID_HEXSZ - n) 48"
    using hex_prefix_bytes [of n bs] bs n(2) by (simp add: git_oid_fmt_hex)
  ultimately show "\<exists>oid'. git_oid_fromstrn out text n = (0, oid') \<and>
      git_oid_fmt oid' = map git_tolower (take n text) @ replicate (GIT_OID_HEXSZ - n) 48" by blast
qed

theorem git_oid_hex_roundtrip_witness:
  "git_oid_fromstrn (oid_of []) (git_oid_fmt (oid_of [0xde, 0xad, 0xbe, 0xef])) 7 =
     (0, oid_of (prefix_bytes 7 (oid_id (oid_of [0xde, 0xad, 0xbe, 0xef])))) \<and>
   git_oid_fromstr (oid_of []) (git_oid_fmt (oid_of [0xde, 0xad, 0xbe, 0xef])) = (0, oid_of [0xde, 0xad, 0xbe, 0xef]) \<and>
   (\<exists>oid'. git_oid_fromstrn (oid_of []) (bytes_of ''DeadBEf..'') 7 = (0, oid') \<and>
      git_oid_fmt oid' = map git_tolower (take 7 (bytes_of ''DeadBEf..'')) @ replicate (GIT_OID_HEXSZ - 7) 48)"
  by (rule git_oid_hex_roundtrip) (simp_all add: bytes_of_def git_isxdigit_def schar_def)

text \<open>Which strings parse.\<close>

lemma fromstrn_loop_code:
  "fst (fromstrn_loop out p n str) = (if \<forall>i<n. 0 \<le> git__fromhex (peek (drop i str)) then 0 else -1)"
proof (induction out p n str rule: fromstrn_loop.induct)
  case (2 out p n str)
  have "(\<forall>i<Suc n. 0 \<le> git__fromhex (peek (drop i str))) \<longleftrightarrow>
      0 \<le> git__fromhex (peek str) \<and> (\<forall>i<n. 0 \<le> git__fromhex (peek (drop i (tl str))))"
    by (simp only: All_less_Suc2 drop_0 drop_Suc)
  then show ?case using 2 by (simp add: Let_def)
qed simp

text \<open>Parsing succeeds exactly on 1 to 40 characters that are all hexadecimal digits; a NUL or the end of the string
  among them is an error like any other character.\<close>

theorem git_oid_fromstrn_accepts:
  "fst (git_oid_fromstrn out str n) =
     (if 0 < n \<and> n \<le> GIT_OID_HEXSZ \<and> (\<forall>i<n. 0 \<le> git__fromhex (peek (drop i str))) then 0 else -1)"
  by (simp add: git_oid_fromstrn_def fromstrn_loop_code)

theorem git_oid_fromstrn_accepts_witness:
  "fst (git_oid_fromstrn (oid_of []) (bytes_of ''12g4'') 4) =
     (if 0 < (4 :: nat) \<and> 4 \<le> GIT_OID_HEXSZ \<and> (\<forall>i<4. 0 \<le> git__fromhex (peek (drop i (bytes_of ''12g4'')))) then 0 else -1)"
  by (rule git_oid_fromstrn_accepts)


section \<open>Prefixes\<close>

lemma fromhex_inj: "m < 16 \<Longrightarrow> n < 16 \<Longrightarrow> to_hex ! m = to_hex ! n \<longleftrightarrow> m = n"
proof -
  assume n: "m < 16" "n < 16"
  have "git__fromhex (to_hex ! k) = int k" if "k < 16" for k
    using fromhex_digits that by (simp add: list_all_length)
  then show ?thesis using n by (metis of_nat_eq_iff)
qed

lemma fmt_one_eq: "fmt_one a = fmt_one b \<longleftrightarrow> a = b"
proof
  assume "fmt_one a = fmt_one b"
  then have eq: "unat (drop_bit 4 a) = unat (drop_bit 4 b)" "unat (a AND 0xf) = unat (b AND 0xf)"
    using fromhex_inj [OF nibble_bounds(1) [of a] nibble_bounds(1) [of b]] fromhex_inj [OF nibble_bounds(2) [of a] nibble_bounds(2) [of b]]
    by (simp_all add: fmt_one_def)
  have "drop_bit 4 a = drop_bit 4 b" "a AND 0xf = b AND 0xf" by (rule word_unat_eq_iff [THEN iffD2], rule eq)+
  then show "a = b" using nibbles by metis
qed simp

lemma fmt_one_hi_eq: "hd (fmt_one a) = hd (fmt_one b) \<longleftrightarrow> (a XOR b) AND 0xf0 = 0"
proof -
  have hi: "x AND 0xf0 = push_bit 4 (drop_bit 4 x)" "drop_bit 4 (x AND 0xf0) = drop_bit 4 x" for x :: byte
    by (simp_all add: byte_bits)
  have "(a XOR b) AND 0xf0 = 0 \<longleftrightarrow> a AND 0xf0 = b AND 0xf0"
    by (auto simp: bit_eq_iff bit_simps)
  also have "\<dots> \<longleftrightarrow> drop_bit 4 a = drop_bit 4 b" using hi by metis
  also have "\<dots> \<longleftrightarrow> hd (fmt_one a) = hd (fmt_one b)"
    using fromhex_inj [OF nibble_bounds(1) [of a] nibble_bounds(1) [of b]] by (simp add: fmt_one_def word_unat_eq_iff)
  finally show ?thesis by simp
qed

lemma ncmp_loop_prefix:
  "length as = length bs \<Longrightarrow> ncmp_loop n as bs = (if take n (hex_bytes as) = take n (hex_bytes bs) then 0 else 1)"
proof (induction n as bs rule: ncmp_loop.induct)
  case (1 n a as b bs)
  have "take (Suc (Suc n)) (hex_bytes (x # xs)) = fmt_one x @ take n (hex_bytes xs)" for x xs
    by (simp add: fmt_one_def)
  then show ?case using 1 fmt_one_eq [of a b] by (auto simp: fmt_one_def)
next
  case (2 a as b bs)
  have "take (Suc 0) (hex_bytes (x # xs)) = [hd (fmt_one x)]" for x xs by (simp add: fmt_one_def)
  then show ?case using fmt_one_hi_eq [of a b] by simp
qed (auto simp: numeral_2_eq_2)

text \<open>\<open>git_oid_ncmp\<close> is 0 exactly when the first \<open>len\<close> hexadecimal digits of the two ids agree, for odd lengths too,
  and lengths above 40 compare the whole ids.\<close>

theorem git_oid_ncmp_prefix:
  "git_oid_ncmp a b len = (if take len (git_oid_fmt a) = take len (git_oid_fmt b) then 0 else 1)"
  using ncmp_loop_prefix [of "oid_id a" "oid_id b" "if len > 40 then 40 else len"]
  by (simp add: git_oid_ncmp_def git_oid_fmt_hex)

section \<open>Comparing with a string\<close>

lemma oid_strcmp_loop_hex:
  "length as = length bs \<Longrightarrow> oid_strcmp_loop as (hex_bytes bs) = hashcmp as bs"
proof (induction as arbitrary: bs)
  case (Cons a as)
  then obtain b bs' where bs: "bs = b # bs'" "length as = length bs'" by (metis length_Suc_conv)
  have nz: "list_all (\<lambda>n. to_hex ! n \<noteq> 0) [0..<16]" by code_simp
  have "to_hex ! unat (drop_bit 4 b) \<noteq> 0" "to_hex ! unat (b AND 0xf) \<noteq> 0"
    using nz nibble_bounds [of b] by (simp_all add: list_all_length)
  moreover have "of_int (push_bit 4 (uint (drop_bit 4 b))) = (push_bit 4 (drop_bit 4 b) :: byte)"
    by (simp add: push_bit_eq_mult)
  ultimately show ?case
    using Cons.IH [OF bs(2)] fromhex_fmt_one [of b] nibbles [of b] by (simp add: bs(1) fmt_one_def Let_def)
qed simp

text \<open>Comparing an id with the formatted form of another one gives the same number as comparing the ids, so the
  order on strings is the order on ids, and \<open>git_oid_streq\<close> holds exactly of the id's own string.\<close>

theorem git_oid_strcmp_cmp:
  "git_oid_strcmp a (git_oid_fmt b) = git_oid_cmp a b \<and> (git_oid_streq a (git_oid_fmt b) = 0 \<longleftrightarrow> a = b) \<and> (a \<le> b \<longleftrightarrow> git_oid_cmp a b \<le> 0)"
  by (simp add: git_oid_strcmp_def git_oid_streq_def git_oid_cmp_def git_oid_fmt_hex oid_strcmp_loop_hex git_oid__cmp_hashcmp
      hashcmp_0 oid_id_inject less_eq_git_oid_def)

section \<open>Object-id lines\<close>

text \<open>A line written by \<open>git_oid__writebuf\<close> is read back by \<open>git_oid__parse\<close> with the same header, from any position
  in a buffer, and the parse ends behind its newline.\<close>

theorem git_oid_line_roundtrip:
  assumes "good_alloc al" and "total_alloc al" and "buf_wf b" and "buf_size b + cstrlen header + 64 < BUF_LIMIT"
  shows "\<exists>b'. git_oid__writebuf al b header oid = Some b' \<and> buf_wf b' \<and>
    content b' = content b @ cstr header @ git_oid_fmt oid @ [10] \<and>
    git_oid__parse out (drop (length (content b)) (content b') @ rest) header = (0, oid, rest)"
proof -
  have len: "length (git_oid_fmt oid) = 40" by (simp add: git_oid_fmt_hex)
  obtain b1 where b1: "git_buf_puts al b header = Some (0, b1)" "buf_wf b1" "content b1 = content b @ cstr header"
    using git_buf_puts_outcome [OF assms(1,3), of header] assms(2,4) by (auto simp: buf_outcome_def)
  then have n1: "buf_size b1 = buf_size b + cstrlen header"
    using assms(3) by (metis length_content cstrlen_def length_append)
  obtain b2 where b2: "git_buf_put al b1 (git_oid_fmt oid) = Some (0, b2)" "buf_wf b2" "content b2 = content b1 @ git_oid_fmt oid"
    using git_buf_put_outcome [OF assms(1) b1(2), of "git_oid_fmt oid"] assms(2,4) n1 len by (auto simp: buf_outcome_def)
  then have n2: "buf_size b2 = buf_size b1 + 40" using b1(2) len by (metis length_content length_append)
  obtain b3 where b3: "git_buf_putc al b2 10 = Some (0, b3)" "buf_wf b3" "content b3 = content b2 @ [10]"
    using git_buf_putc_outcome [OF assms(1) b2(2), of 10] assms(2,4) n1 n2 by (auto simp: buf_outcome_def)
  have "git_oid_fromstr out (git_oid_fmt oid @ x) = (0, oid)" for x
    using fromstrn_loop_hex [of "[]" "oid_id oid" 40 x] prefix_bytes_all [of "oid_id oid"]
    by (simp add: git_oid_fromstr_def git_oid_fromstrn_def git_oid_fmt_hex)
  then have "git_oid__parse out ((cstr header @ git_oid_fmt oid @ [10]) @ rest) header = (0, oid, rest)"
    using len by (simp add: git_oid__parse_def cstrlen_def nth_append Let_def)
  then show ?thesis using b1 b2 b3 by (simp add: git_oid__writebuf_def)
qed

theorem git_oid_line_roundtrip_witness:
  "\<exists>b'. git_oid__writebuf (fill_alloc 0) GIT_BUF_INIT (bytes_of ''tree '') (oid_of [1, 2, 3]) = Some b' \<and> buf_wf b' \<and>
    content b' = content GIT_BUF_INIT @ cstr (bytes_of ''tree '') @ git_oid_fmt (oid_of [1, 2, 3]) @ [10] \<and>
    git_oid__parse (oid_of []) (drop (length (content GIT_BUF_INIT)) (content b') @ bytes_of ''author'') (bytes_of ''tree '') =
      (0, oid_of [1, 2, 3], bytes_of ''author'')"
  by (rule git_oid_line_roundtrip) (simp_all add: GIT_BUF_INIT_def [THEN arg_cong, of buf_size] BUF_LIMIT_def cstrlen_def cstr_def bytes_of_def)

end
