(* ===== verification/Numbers.thy ===== *)
theory Numbers
  imports Prelude
begin

text \<open>
  Reading numbers (\<open>git__strntol64\<close> and its variants) and UTF-8 (\<open>git__utf8_iterate\<close>), from util.c. Signed 64-bit
  arithmetic is the two's complement one that the overflow test of \<open>git__strntol64\<close> presupposes, written as
  \<open>int64\<close>.
\<close>

section \<open>Numbers\<close>

definition int64 :: "int \<Rightarrow> int" where
  "int64 x = (x + 2 ^ 63) mod 2 ^ 64 - 2 ^ 63"

definition int32 :: "int \<Rightarrow> int" where
  "int32 x = (x + 2 ^ 31) mod 2 ^ 32 - 2 ^ 31"

text \<open>The base, and the digits with the prefix \<open>0x\<close> taken off; \<open>None\<close> for a base that does not exist.\<close>

definition strtol_base :: "byte list \<Rightarrow> int \<Rightarrow> (int \<times> byte list) option" where
  "strtol_base p base =
     (if base = 0 then
        if peek p \<noteq> 48 then Some (10, p)
        else if peek (tl p) = 120 \<or> peek (tl p) = 88 then Some (16, drop 2 p) else Some (8, p)
      else if base = 16 \<and> peek p = 48 then
        if peek (tl p) = 120 \<or> peek (tl p) = 88 then Some (base, drop 2 p) else Some (base, p)
      else if base < 0 \<or> 36 < base then None
      else Some (base, p))"

definition digit_value :: "int \<Rightarrow> byte \<Rightarrow> int" where
  "digit_value base c =
     (let v = schar c in
      if 48 \<le> v \<and> v \<le> 57 then v - 48
      else if 97 \<le> v \<and> v \<le> 122 then v - 97 + 10
      else if 65 \<le> v \<and> v \<le> 90 then v - 65 + 10
      else base)"

text \<open>The digits: the number, whether an overflow was noticed, how many digits there are, and what follows them.\<close>

fun strtol_digits :: "bool \<Rightarrow> int \<Rightarrow> nat \<Rightarrow> byte list \<Rightarrow> int \<Rightarrow> bool \<Rightarrow> nat \<Rightarrow> int \<times> bool \<times> nat \<times> byte list" where
  "strtol_digits neg base 0 p n ovfl ndig = (n, ovfl, ndig, p)"
| "strtol_digits neg base (Suc len) p n ovfl ndig =
     (let v = digit_value base (peek p) in
      if v \<ge> base then (n, ovfl, ndig, p)
      else let nn = int64 (n * base + (if neg then - v else v))
           in strtol_digits neg base len (tl p) nn
                (if \<not> neg \<and> nn < n \<or> neg \<and> nn > n then True else ovfl) (ndig + 1))"

text \<open>The results are the code, what \<open>*endptr\<close> is set to (the text behind the number), and \<open>*result\<close>.\<close>

type_synonym strtol_result = "int \<times> byte list option \<times> int option"

definition git__strntol64 :: "byte list \<Rightarrow> nat \<Rightarrow> int \<Rightarrow> strtol_result" where
  "git__strntol64 nptr nptr_len base =
     (let p = dropWhile git_isspace nptr;
          neg = (peek p = 45);
          p = (if peek p = 45 \<or> peek p = 43 then tl p else p)
      in case strtol_base p base of
           None \<Rightarrow> (-1, None, None)
         | Some (base, p) \<Rightarrow>
             (case strtol_digits neg base nptr_len p 0 False 0 of
                (n, ovfl, ndig, p) \<Rightarrow>
                  if ndig = 0 then (-1, None, None)
                  else if ovfl then (-1, Some p, None)
                  else (0, Some p, Some n)))"

definition git__strtol64 :: "byte list \<Rightarrow> int \<Rightarrow> strtol_result" where
  "git__strtol64 nptr base = git__strntol64 nptr SIZE_MAX base"

definition git__strntol32 :: "byte list \<Rightarrow> nat \<Rightarrow> int \<Rightarrow> strtol_result" where
  "git__strntol32 nptr nptr_len base =
     (case git__strntol64 nptr nptr_len base of
        (error, endptr, result) \<Rightarrow>
          if error < 0 then (error, endptr, None)
          else case result of
                 None \<Rightarrow> (error, endptr, None)
               | Some tmp_long \<Rightarrow>
                   let tmp_int = int32 (tmp_long mod 2 ^ 32)
                   in if tmp_int \<noteq> tmp_long then (-1, endptr, None) else (error, endptr, Some tmp_int))"

definition git__strtol32 :: "byte list \<Rightarrow> int \<Rightarrow> strtol_result" where
  "git__strtol32 nptr base = git__strntol32 nptr SIZE_MAX base"

section \<open>UTF-8\<close>

definition utf8proc_utf8class :: "nat list" where
  "utf8proc_utf8class = replicate 128 1 @ replicate 64 0 @ replicate 32 2 @ replicate 16 3 @ replicate 8 4 @ replicate 8 0"

text \<open>The first byte at \<open>i\<close> or later that is not a continuation byte; \<open>None\<close> reads behind the object.\<close>

fun utf8_cont :: "byte list \<Rightarrow> nat \<Rightarrow> nat \<Rightarrow> int option" where
  "utf8_cont str i 0 = Some (int i)"
| "utf8_cont str i (Suc n) =
     (if length str \<le> i then None
      else if (str ! i AND 0xC0) \<noteq> 0x80 then Some (- int i) else utf8_cont str (i + 1) n)"

definition git__utf8_charlen :: "byte list \<Rightarrow> int \<Rightarrow> int option" where
  "git__utf8_charlen str str_len =
     (case str of [] \<Rightarrow> None
      | c # _ \<Rightarrow>
          let len = utf8proc_utf8class ! unat c
          in if len = 0 then Some (-1)
             else if str_len \<ge> 0 \<and> int len > str_len then Some (- str_len)
             else utf8_cont str 1 (len - 1))"

definition utf8_bits :: "byte \<Rightarrow> byte \<Rightarrow> nat \<Rightarrow> int" where
  "utf8_bits c m n = uint (c AND m) * 2 ^ n"

definition utf8_value :: "byte list \<Rightarrow> int \<Rightarrow> int" where
  "utf8_value str len =
     (if len = 1 then uint (str ! 0)
      else if len = 2 then
        let uc = utf8_bits (str ! 0) 0x1F 6 + utf8_bits (str ! 1) 0x3F 0
        in if uc < 0x80 then -1 else uc
      else if len = 3 then
        let uc = utf8_bits (str ! 0) 0x0F 12 + utf8_bits (str ! 1) 0x3F 6 + utf8_bits (str ! 2) 0x3F 0
        in if uc < 0x800 \<or> uc \<ge> 0xD800 \<and> uc < 0xE000 \<or> uc \<ge> 0xFDD0 \<and> uc < 0xFDF0 then -1 else uc
      else if len = 4 then
        let uc = utf8_bits (str ! 0) 0x07 18 + utf8_bits (str ! 1) 0x3F 12 + utf8_bits (str ! 2) 0x3F 6 + utf8_bits (str ! 3) 0x3F 0
        in if uc < 0x10000 \<or> uc \<ge> 0x110000 then -1 else uc
      else -1)"

text \<open>The length of the character and the code point stored in \<open>*dst\<close>.\<close>

definition git__utf8_iterate :: "byte list \<Rightarrow> int \<Rightarrow> (int \<times> int) option" where
  "git__utf8_iterate str str_len = do {
     len \<leftarrow> git__utf8_charlen str str_len;
     if len < 0 then Some (-1, -1)
     else let uc = utf8_value str len
          in if uc < 0 \<or> uc mod 0x10000 \<ge> 0xFFFE then Some (-1, -1) else Some (len, uc) }"

section \<open>Numbers: what is read\<close>

lemma int64_id: "- (2 ^ 63) \<le> x \<Longrightarrow> x < 2 ^ 63 \<Longrightarrow> int64 x = x"
  by (simp add: int64_def)

lemma int32_id: "int32 (x mod 2 ^ 32) = x \<longleftrightarrow> - (2 ^ 31) \<le> x \<and> x < 2 ^ 31"
proof -
  have "int32 (x mod 2 ^ 32) = (x + 2 ^ 31) mod 2 ^ 32 - 2 ^ 31"
    by (simp add: int32_def mod_simps)
  moreover have "(x + 2 ^ 31) mod 2 ^ 32 = x + 2 ^ 31 \<longleftrightarrow> 0 \<le> x + 2 ^ 31 \<and> x + 2 ^ 31 < (2 :: int) ^ 32"
    by (metis mod_pos_pos_trivial pos_mod_bound pos_mod_sign zero_less_numeral zero_less_power)
  ultimately show ?thesis by auto
qed

text \<open>The value of a sequence of digits.\<close>

definition digits_value :: "int \<Rightarrow> int \<Rightarrow> byte list \<Rightarrow> int" where
  "digits_value base = foldl (\<lambda>n c. n * base + digit_value base c)"

lemma digits_value_simps [simp]:
  "digits_value base n [] = n" "digits_value base n (c # ds) = digits_value base (n * base + digit_value base c) ds"
  by (simp_all add: digits_value_def)

lemma digit_value_nonneg: "0 \<le> base \<Longrightarrow> 0 \<le> digit_value base c"
  by (simp add: digit_value_def Let_def)

definition sgn_int :: "bool \<Rightarrow> int \<Rightarrow> int" where
  "sgn_int neg x = (if neg then - x else x)"

definition is_digits :: "int \<Rightarrow> byte list \<Rightarrow> bool" where
  "is_digits base ds \<longleftrightarrow> (\<forall>c\<in>set ds. digit_value base c < base)"

lemma is_digits_simps [simp]: "is_digits base []" "is_digits base (c # ds) \<longleftrightarrow> digit_value base c < base \<and> is_digits base ds"
  by (simp_all add: is_digits_def)

lemma digits_value_mono: "0 < base \<Longrightarrow> 0 \<le> n \<Longrightarrow> n \<le> digits_value base n ds"
proof (induction ds arbitrary: n)
  case (Cons c ds)
  have "n * 1 \<le> n * base" using Cons.prems by (intro mult_left_mono) auto
  then have "n \<le> n * base + digit_value base c" using digit_value_nonneg [of base c] Cons.prems by simp
  then show ?case using Cons.IH [of "n * base + digit_value base c"] Cons.prems by simp
qed simp

lemma strtol_digits_exact:
  assumes "0 < base" "is_digits base ds" "length ds \<le> len" "len = length ds \<or> base \<le> digit_value base (peek rest)"
    and "0 \<le> n" "sgn_int neg (digits_value base n ds) \<in> {- (2 ^ 63)..<2 ^ 63}"
  shows "strtol_digits neg base len (ds @ rest) (sgn_int neg n) ovfl ndig =
    (sgn_int neg (digits_value base n ds), ovfl, ndig + length ds, rest)"
  using assms
proof (induction ds arbitrary: len n ndig)
  case Nil
  then show ?case by (cases len) auto
next
  case (Cons c ds)
  from Cons.prems obtain len' where len: "len = Suc len'" by (cases len) auto
  let ?m = "n * base + digit_value base c"
  have "n * 1 \<le> n * base" using Cons.prems by (intro mult_left_mono) auto
  then have m: "n \<le> ?m" using digit_value_nonneg [of base c] Cons.prems by simp
  have "?m \<le> digits_value base n (c # ds)" using digits_value_mono [of base ?m ds] Cons.prems m by simp
  then have "sgn_int neg ?m \<in> {- (2 ^ 63)..<2 ^ 63}" using Cons.prems(5,6) m by (auto simp: sgn_int_def)
  moreover have "sgn_int neg n * base + (if neg then - digit_value base c else digit_value base c) = sgn_int neg ?m"
    by (simp add: sgn_int_def algebra_simps)
  ultimately have nn: "int64 (sgn_int neg n * base + (if neg then - digit_value base c else digit_value base c)) = sgn_int neg ?m"
    by (simp add: int64_id)
  have quiet: "(if \<not> neg \<and> sgn_int neg ?m < sgn_int neg n \<or> neg \<and> sgn_int neg ?m > sgn_int neg n then True else ovfl) = ovfl"
    using m by (auto simp: sgn_int_def)
  have "strtol_digits neg base len ((c # ds) @ rest) (sgn_int neg n) ovfl ndig =
      strtol_digits neg base len' (ds @ rest) (sgn_int neg ?m) ovfl (ndig + 1)"
    using Cons.prems(2) unfolding len strtol_digits.simps append_Cons peek_simps list.sel nn quiet Let_def by simp
  then show ?case using Cons.IH [of len' ?m "ndig + 1"] Cons.prems m by (simp add: len)
qed

lemma digit_not_space: "digit_value base c < base \<Longrightarrow> \<not> git_isspace c \<and> c \<noteq> 43 \<and> c \<noteq> 45 \<and> c \<noteq> 0"
  by (auto simp: digit_value_def git_isspace_def schar_def)

lemma dropWhile_spaces: "\<forall>c\<in>set ws. P c \<Longrightarrow> dropWhile P (ws @ s) = dropWhile P s"
  by (induction ws) auto

text \<open>The digits \<open>ds\<close> with base \<open>base\<close> are followed by something else, or are all that may be read.\<close>

definition digits_end :: "int \<Rightarrow> nat \<Rightarrow> byte list \<Rightarrow> byte list \<Rightarrow> bool" where
  "digits_end base len ds rest \<longleftrightarrow> ds \<noteq> [] \<and> is_digits base ds \<and> length ds \<le> len \<and>
     (len = length ds \<or> base \<le> digit_value base (peek rest)) \<and>
     (base = 16 \<longrightarrow> peek (tl (ds @ rest)) \<noteq> 120 \<and> peek (tl (ds @ rest)) \<noteq> 88)"

lemma strtol_base_plain:
  "2 \<le> base \<Longrightarrow> base \<le> 36 \<Longrightarrow> (base = 16 \<longrightarrow> peek (tl p) \<noteq> 120 \<and> peek (tl p) \<noteq> 88) \<Longrightarrow> strtol_base p base = Some (base, p)"
  by (auto simp: strtol_base_def)

lemma git__strntol64_ok:
  assumes "2 \<le> base" "base \<le> 36" "\<forall>c\<in>set ws. git_isspace c" "sign \<in> {[], [43], [45]}" "digits_end base len ds rest"
    and v: "v = sgn_int (sign = [45]) (digits_value base 0 ds)" "v \<in> {- (2 ^ 63)..<2 ^ 63}"
  shows "git__strntol64 (ws @ sign @ ds @ rest) len base = (0, Some rest, Some v)"
proof -
  note e = assms(5) [unfolded digits_end_def]
  obtain c ds' where ds: "ds = c # ds'" using e by (cases ds) auto
  then have c: "\<not> git_isspace c" "c \<noteq> 43" "c \<noteq> 45" using e digit_not_space [of base c] by auto
  have p: "dropWhile git_isspace (ws @ sign @ ds @ rest) = sign @ ds @ rest"
    using assms(4) c unfolding dropWhile_spaces [OF assms(3)] by (auto simp: ds git_isspace_def)
  have "strtol_base (ds @ rest) base = Some (base, ds @ rest)" using e assms(1,2) by (intro strtol_base_plain) auto
  moreover have "strtol_digits (sign = [45]) base len (ds @ rest) 0 False 0 = (v, False, length ds, rest)"
    using strtol_digits_exact [of base ds len rest 0 "sign = [45]" False 0] e assms(1) v
    unfolding sgn_int_def minus_zero if_cancel by simp
  moreover have "peek (ds @ rest) \<noteq> 45" "peek (ds @ rest) \<noteq> 43" "ds \<noteq> []" using c by (simp_all add: ds)
  ultimately show ?thesis using assms(4) p unfolding git__strntol64_def
    by (elim insertE emptyE) (simp_all add: Let_def)
qed

section \<open>Characters: what is read\<close>

definition byte_of :: "int \<Rightarrow> byte" where
  "byte_of x = word_of_int x"

text \<open>The encoding of a code point, and the code points that the decoder lets through.\<close>

definition utf8_encode :: "int \<Rightarrow> byte list" where
  "utf8_encode u =
     (if u < 0x80 then [byte_of u]
      else if u < 0x800 then [byte_of (0xC0 + u div 64), byte_of (0x80 + u mod 64)]
      else if u < 0x10000 then [byte_of (0xE0 + u div 4096), byte_of (0x80 + u div 64 mod 64), byte_of (0x80 + u mod 64)]
      else [byte_of (0xF0 + u div 262144), byte_of (0x80 + u div 4096 mod 64), byte_of (0x80 + u div 64 mod 64),
            byte_of (0x80 + u mod 64)])"

definition utf8_ok :: "int \<Rightarrow> bool" where
  "utf8_ok u \<longleftrightarrow> 0 \<le> u \<and> u < 0x110000 \<and> \<not> (0xD800 \<le> u \<and> u < 0xE000) \<and> \<not> (0xFDD0 \<le> u \<and> u < 0xFDF0) \<and>
     u mod 0x10000 < 0xFFFE"

lemma class_byte:
  "utf8proc_utf8class ! unat (c :: byte) =
     (if uint c < 0x80 then 1 else if uint c < 0xC0 then 0 else if uint c < 0xE0 then 2 else if uint c < 0xF0 then 3
      else if uint c < 0xF8 then 4 else 0)"
  by (rule all_bytes [of _ c]) code_simp

lemma byte_low: "uint (c AND mask n :: byte) = uint c mod 2 ^ n"
  unfolding take_bit_eq_mask [symmetric] unsigned_take_bit_eq by (rule take_bit_eq_mod)

lemma byte_masks:
  "uint (c AND 0x3F :: byte) = uint c mod 64" "uint (c AND 0x1F :: byte) = uint c mod 32"
  "uint (c AND 0x0F :: byte) = uint c mod 16" "uint (c AND 0x07 :: byte) = uint c mod 8"
  using byte_low [of c 6] byte_low [of c 5] byte_low [of c 4] byte_low [of c 3] by (simp_all add: mask_numeral)

lemma byte_bit: "n < 8 \<Longrightarrow> bit (c :: byte) n \<longleftrightarrow> odd (uint c div 2 ^ n)"
  by (simp add: bit_iff_odd [of "uint c", symmetric] bit_uint_iff)

lemma continuation_byte: "(c AND 0xC0 :: byte) = 0x80 \<longleftrightarrow> 0x80 \<le> uint c \<and> uint c < 0xC0"
proof -
  define y where "y = uint c div 64"
  have y: "0 \<le> y" "y < 4" using uint_lt2p [of c] uint_ge_0 [of c] by (auto simp: y_def pos_imp_zdiv_nonneg_iff)
  have "(c AND 0xC0 :: byte) = 0x80 \<longleftrightarrow> bit c 7 \<and> \<not> bit c 6"
    by (auto simp: byte_eq_bits bit_simps)
  also have "\<dots> \<longleftrightarrow> odd (y div 2) \<and> \<not> odd y"
    using byte_bit [of 7 c] byte_bit [of 6 c] zdiv_zmult2_eq [of 2 "uint c" 64] by (simp add: y_def)
  also have "\<dots> \<longleftrightarrow> y = 2"
    using y by presburger
  also have "\<dots> \<longleftrightarrow> 0x80 \<le> uint c \<and> uint c < 0xC0" unfolding y_def by linarith
  finally show ?thesis .
qed

lemma uint_byte [simp]: "0 \<le> x \<Longrightarrow> x < 256 \<Longrightarrow> uint (byte_of x) = x"
  by (simp add: byte_of_def uint_word_of_int)

lemma length_utf8_encode:
  "length (utf8_encode u) = (if u < 0x80 then 1 else if u < 0x800 then 2 else if u < 0x10000 then 3 else 4)"
  by (simp add: utf8_encode_def)

lemmas utf8_eval = git__utf8_iterate_def git__utf8_charlen_def utf8_value_def utf8_bits_def class_byte byte_masks continuation_byte Let_def numeral_2_eq_2 numeral_3_eq_3

lemma utf8_field_1: "0 \<le> a \<Longrightarrow> a < 32 \<Longrightarrow> (192 + a) mod 32 = (a :: int)"
  using mod_add_left_eq [of 192 32 a] by simp

lemma utf8_field_2: "0 \<le> a \<Longrightarrow> a < 16 \<Longrightarrow> (224 + a) mod 16 = (a :: int)"
  using mod_add_left_eq [of 224 16 a] by simp

lemma utf8_field_3: "0 \<le> a \<Longrightarrow> a < 8 \<Longrightarrow> (240 + a) mod 8 = (a :: int)"
  using mod_add_left_eq [of 240 8 a] by simp

lemma utf8_field_4: "0 \<le> a \<Longrightarrow> a < 64 \<Longrightarrow> (128 + a) mod 64 = (a :: int)"
  using mod_add_left_eq [of 128 64 a] by simp

lemmas utf8_fields = utf8_field_1 utf8_field_2 utf8_field_3 utf8_field_4

lemma str_len_enough: "str_len < 0 \<or> k \<le> str_len \<Longrightarrow> 0 < k \<Longrightarrow> (0 \<le> str_len \<and> str_len < k) = False \<and> str_len \<noteq> (0 :: int)"
  by auto

lemma utf8_2:
  assumes "0 \<le> a" "a < 32" "0 \<le> b" "b < 64" "str_len < 0 \<or> 2 \<le> str_len" and u: "u = a * 64 + b"
  shows "git__utf8_iterate ([byte_of (0xC0 + a), byte_of (0x80 + b)] @ rest) str_len =
    (if u < 0x80 then Some (-1, -1) else Some (2, u))"
proof -
  have "0 \<le> u" "u < 0xFFFE" "u mod 0x10000 = u" using assms by auto
  then show ?thesis using assms(1-4) by (simp add: utf8_eval utf8_fields str_len_enough [OF assms(5)] flip: u)
qed

lemma utf8_3:
  assumes "0 \<le> a" "a < 16" "0 \<le> b" "b < 64" "0 \<le> c" "c < 64" "str_len < 0 \<or> 3 \<le> str_len" and u: "u = a * 4096 + b * 64 + c"
  shows "git__utf8_iterate ([byte_of (0xE0 + a), byte_of (0x80 + b), byte_of (0x80 + c)] @ rest) str_len =
    (if u < 0x800 \<or> \<not> utf8_ok u then Some (-1, -1) else Some (3, u))"
proof -
  have "0 \<le> u" "u < 0x110000" "u mod 0x10000 = u" using assms by auto
  then show ?thesis using assms(1-6) by (simp add: utf8_eval utf8_fields utf8_ok_def str_len_enough [OF assms(7)] flip: u)
qed

lemma utf8_4:
  assumes "0 \<le> a" "a < 8" "0 \<le> b" "b < 64" "0 \<le> c" "c < 64" "0 \<le> d" "d < 64" "str_len < 0 \<or> 4 \<le> str_len"
    and u: "u = a * 262144 + b * 4096 + c * 64 + d"
  shows "git__utf8_iterate ([byte_of (0xF0 + a), byte_of (0x80 + b), byte_of (0x80 + c), byte_of (0x80 + d)] @ rest) str_len =
    (if u < 0x10000 \<or> \<not> utf8_ok u then Some (-1, -1) else Some (4, u))"
proof -
  let ?s = "[byte_of (0xF0 + a), byte_of (0x80 + b), byte_of (0x80 + c), byte_of (0x80 + d)] @ rest"
  have "git__utf8_charlen ?s str_len = Some 4"
    using assms(1-8) by (simp add: git__utf8_charlen_def class_byte continuation_byte Let_def numeral_3_eq_3 str_len_enough [OF assms(9)])
  moreover have "utf8_value ?s 4 = (if u < 0x10000 \<or> u \<ge> 0x110000 then -1 else u)"
    using assms(1-8) unfolding u by (simp add: utf8_value_def utf8_bits_def byte_masks Let_def utf8_fields numeral_2_eq_2 numeral_3_eq_3)
  moreover have "0 \<le> u" using assms by auto
  ultimately show ?thesis by (simp add: git__utf8_iterate_def utf8_ok_def Let_def)
qed

lemma utf8_1:
  assumes "0 \<le> u" "u < 0x80" "str_len < 0 \<or> 1 \<le> str_len"
  shows "git__utf8_iterate ([byte_of u] @ rest) str_len = Some (1, u)"
proof -
  have "u < 0xFFFE" "u mod 0x10000 = u" using assms by auto
  then show ?thesis using assms(1,2) by (simp add: utf8_eval str_len_enough [OF assms(3)])
qed

lemma utf8_encode_2:
  "0 \<le> a \<Longrightarrow> a < 32 \<Longrightarrow> 0 \<le> b \<Longrightarrow> b < 64 \<Longrightarrow> u = a * 64 + b \<Longrightarrow> 0x80 \<le> u \<Longrightarrow>
    utf8_encode u = [byte_of (0xC0 + a), byte_of (0x80 + b)]"
  by (simp add: utf8_encode_def)

lemma field_of: "u = x * 64 + c \<Longrightarrow> 0 \<le> c \<Longrightarrow> c < 64 \<Longrightarrow> u div 64 = x \<and> u mod 64 = (c :: int)"
  by simp

lemma utf8_encode_3:
  assumes "0 \<le> a" "a < 16" "0 \<le> b" "b < 64" "0 \<le> c" "c < 64" "u = (a * 64 + b) * 64 + c" "0x800 \<le> u"
  shows "utf8_encode u = [byte_of (0xE0 + a), byte_of (0x80 + b), byte_of (0x80 + c)]"
proof -
  have "u div 64 = a * 64 + b" "u mod 64 = c" using field_of [OF assms(7,5,6)] by auto
  then have "u div 4096 = a" "u div 64 mod 64 = b" "u mod 64 = c" using field_of [of "u div 64" a b] assms(3,4) zdiv_zmult2_eq [of 64 u 64] by auto
  moreover have "u < 0x10000" using assms(2,4,6,7) by simp
  ultimately show ?thesis using assms(8) by (simp add: utf8_encode_def)
qed

lemma utf8_encode_4:
  assumes "0 \<le> a" "a < 8" "0 \<le> b" "b < 64" "0 \<le> c" "c < 64" "0 \<le> d" "d < 64"
    "u = ((a * 64 + b) * 64 + c) * 64 + d" "0x10000 \<le> u"
  shows "utf8_encode u = [byte_of (0xF0 + a), byte_of (0x80 + b), byte_of (0x80 + c), byte_of (0x80 + d)]"
proof -
  have 1: "u div 64 = (a * 64 + b) * 64 + c" "u mod 64 = d" using field_of [OF assms(9,7,8)] by auto
  then have 2: "u div 4096 = a * 64 + b" "u div 64 mod 64 = c"
    using field_of [of "u div 64" "a * 64 + b" c] assms(5,6) zdiv_zmult2_eq [of 64 u 64] by auto
  then have "u div 262144 = a" "u div 4096 mod 64 = b" using field_of [of "u div 4096" a b] assms(3,4) zdiv_zmult2_eq [of 64 u 4096] by auto
  with 1 2 show ?thesis using assms(10) by (simp add: utf8_encode_def)
qed

text \<open>The decoder's view of the start of a string: how many bytes make up a character, and the fields in them.\<close>

lemma utf8_cont_run:
  "utf8_cont str i n = Some k \<Longrightarrow> 0 < k \<Longrightarrow> i \<le> length str \<Longrightarrow>
    k = int (i + n) \<and> i + n \<le> length str \<and> (\<forall>j<n. (str ! (i + j) AND 0xC0) = 0x80)"
proof (induction str i n rule: utf8_cont.induct)
  case (2 str i n)
  then have "\<not> length str \<le> i" "(str ! i AND 0xC0) = 0x80" by (auto split: if_splits)
  with 2 show ?case by (auto simp: less_Suc_eq_0_disj)
qed simp

lemma utf8_split:
  assumes "utf8_ok u"
  shows "u < 0x80 \<or> (\<exists>a b. 0 \<le> a \<and> a < 32 \<and> 0 \<le> b \<and> b < 64 \<and> u = a * 64 + b \<and> 0x80 \<le> u) \<or>
    (\<exists>a b c. 0 \<le> a \<and> a < 16 \<and> 0 \<le> b \<and> b < 64 \<and> 0 \<le> c \<and> c < 64 \<and> u = (a * 64 + b) * 64 + c \<and> 0x800 \<le> u) \<or>
    (\<exists>a b c d. 0 \<le> a \<and> a < 8 \<and> 0 \<le> b \<and> b < 64 \<and> 0 \<le> c \<and> c < 64 \<and> 0 \<le> d \<and> d < 64 \<and>
      u = ((a * 64 + b) * 64 + c) * 64 + d \<and> 0x10000 \<le> u)"
proof -
  have u: "0 \<le> u" "u < 0x110000" using assms by (auto simp: utf8_ok_def)
  have e1: "u = u div 64 * 64 + u mod 64" by simp
  have e2: "u = (u div 64 div 64 * 64 + u div 64 mod 64) * 64 + u mod 64" by simp
  have e3: "u = ((u div 64 div 64 div 64 * 64 + u div 64 div 64 mod 64) * 64 + u div 64 mod 64) * 64 + u mod 64" by simp
  have m: "0 \<le> x mod 64" "x mod 64 < 64" for x :: int by simp_all
  consider "u < 0x80" | "0x80 \<le> u" "u < 0x800" | "0x800 \<le> u" "u < 0x10000" | "0x10000 \<le> u" by linarith
  then show ?thesis
  proof cases
    case 2
    then have "0 \<le> u div 64" "u div 64 < 32" by auto
    with m e1 2 show ?thesis by blast
  next
    case 3
    then have "0 \<le> u div 64 div 64" "u div 64 div 64 < 16" by auto
    with m e2 3 show ?thesis by blast
  next
    case 4
    then have "0 \<le> u div 64 div 64 div 64" "u div 64 div 64 div 64 < 8" using u by auto
    with m e3 4 show ?thesis by blast
  qed simp
qed

lemma utf8_iterate_encode:
  assumes ok: "utf8_ok u" and len: "str_len < 0 \<or> int (length (utf8_encode u)) \<le> str_len"
  shows "git__utf8_iterate (utf8_encode u @ rest) str_len = Some (int (length (utf8_encode u)), u)"
  using utf8_split [OF ok]
proof (elim disjE exE conjE)
  assume u: "u < 0x80"
  then have "utf8_encode u = [byte_of u]" by (simp add: utf8_encode_def)
  then show ?thesis using utf8_1 [of u str_len rest] u ok len by (simp add: utf8_ok_def)
next
  fix a b assume *: "0 \<le> a" "a < 32" "0 \<le> b" "b < 64" "u = a * 64 + b" "0x80 \<le> u"
  from utf8_encode_2 [OF this] show ?thesis using utf8_2 [OF *(1-4) _ *(5), of str_len rest] * len by simp
next
  fix a b c assume *: "0 \<le> a" "a < 16" "0 \<le> b" "b < 64" "0 \<le> c" "c < 64" "u = (a * 64 + b) * 64 + c" "0x800 \<le> u"
  from utf8_encode_3 [OF this] show ?thesis using utf8_3 [OF *(1-6), of str_len u rest] * ok len by simp
next
  fix a b c d assume *: "0 \<le> a" "a < 8" "0 \<le> b" "b < 64" "0 \<le> c" "c < 64" "0 \<le> d" "d < 64"
    "u = ((a * 64 + b) * 64 + c) * 64 + d" "0x10000 \<le> u"
  from utf8_encode_4 [OF this] show ?thesis using utf8_4 [OF *(1-8), of str_len u rest] * ok len by simp
qed

lemma byte_of_uint: "byte_of (uint c) = c"
  by (simp add: byte_of_def)

text \<open>A byte of a class, by its field.\<close>

lemma byte_field: "k \<le> uint c \<Longrightarrow> uint c < k + n \<Longrightarrow> \<exists>a. 0 \<le> a \<and> a < n \<and> c = byte_of (k + a)"
  by (rule exI [of _ "uint c - k"]) (simp add: byte_of_uint)

lemma utf8_charlen_split:
  assumes "git__utf8_charlen str str_len = Some k" "0 < k"
  obtains (one) u rest where "0 \<le> u" "u < 0x80" "k = 1" "str = [byte_of u] @ rest" "str_len < 0 \<or> 1 \<le> str_len"
    | (two) a b rest where "0 \<le> a" "a < 32" "0 \<le> b" "b < 64" "k = 2" "str = [byte_of (0xC0 + a), byte_of (0x80 + b)] @ rest"
        "str_len < 0 \<or> 2 \<le> str_len"
    | (three) a b c rest where "0 \<le> a" "a < 16" "0 \<le> b" "b < 64" "0 \<le> c" "c < 64" "k = 3"
        "str = [byte_of (0xE0 + a), byte_of (0x80 + b), byte_of (0x80 + c)] @ rest" "str_len < 0 \<or> 3 \<le> str_len"
    | (four) a b c d rest where "0 \<le> a" "a < 8" "0 \<le> b" "b < 64" "0 \<le> c" "c < 64" "0 \<le> d" "d < 64" "k = 4"
        "str = [byte_of (0xF0 + a), byte_of (0x80 + b), byte_of (0x80 + c), byte_of (0x80 + d)] @ rest"
        "str_len < 0 \<or> 4 \<le> str_len"
proof -
  obtain x s where str: "str = x # s" using assms by (cases str) (auto simp: git__utf8_charlen_def)
  have cont: "\<exists>a. 0 \<le> a \<and> a < 64 \<and> c = byte_of (0x80 + a)" if "(c AND 0xC0) = 0x80" for c
    using byte_field [of "0x80" c 64] that by (simp add: continuation_byte)
  have lead: "0 \<le> uint x" "uint x < 256" using uint_lt2p [of x] by simp_all
  have run: "utf8_cont (x # s) 1 n = Some k \<Longrightarrow> 0 < k \<Longrightarrow> k = int n + 1 \<and> n \<le> length s \<and> (\<forall>i<n. (s ! i AND 0xC0) = 0x80)" for n
    using utf8_cont_run [of "x # s" 1 n k] by simp
  show thesis
  proof (cases "uint x < 0x80")
    case True
    then show ?thesis
      using one [of "uint x" s] assms lead by (auto simp: git__utf8_charlen_def str class_byte byte_of_uint Let_def split: if_splits)
  next
    case False
    note charlen = assms(1) [unfolded git__utf8_charlen_def str list.case Let_def]
    have gen: "\<not> (str_len \<ge> 0 \<and> int n > str_len) \<and> utf8_cont (x # s) 1 (n - 1) = Some k"
      if "utf8proc_utf8class ! unat x = n" "n \<noteq> 0" for n
      using charlen that assms(2) by (cases "str_len \<ge> 0 \<and> int n > str_len") auto
    have class0: False if "utf8proc_utf8class ! unat x = 0"
      using charlen that assms(2) by simp
    have enough: "str_len < 0 \<or> int n \<le> str_len" if "\<not> (str_len \<ge> 0 \<and> int n > str_len)" for n
      using that by auto
    consider "uint x < 0xC0" | "0xC0 \<le> uint x" "uint x < 0xE0" | "0xE0 \<le> uint x" "uint x < 0xF0"
      | "0xF0 \<le> uint x" "uint x < 0xF8" | "0xF8 \<le> uint x" by linarith
    then show ?thesis
    proof cases
      case 2
      have class2: "utf8proc_utf8class ! unat x = 2" using 2 by (simp add: class_byte)
      have c: "\<not> (str_len \<ge> 0 \<and> int 2 > str_len)" "utf8_cont (x # s) 1 1 = Some k"
        using gen [OF class2] by simp_all
      have r: "k = 2" "1 \<le> length s" "(s ! 0 AND 0xC0) = 0x80" using run [OF c(2) assms(2)] by simp_all
      then obtain y s' where s': "s = y # s'" "(y AND 0xC0) = 0x80" "k = 2" by (cases s) auto
      from cont [OF s'(2)] byte_field [of "0xC0" x 32] 2 obtain a b where "0 \<le> a" "a < 32" "0 \<le> b" "b < 64"
        "x = byte_of (0xC0 + a)" "y = byte_of (0x80 + b)" by auto
      with two [of a b s'] s' str enough [OF c(1)] show ?thesis by simp
    next
      case 3
      have class3: "utf8proc_utf8class ! unat x = 3" using 3 by (simp add: class_byte)
      have c: "\<not> (str_len \<ge> 0 \<and> int 3 > str_len)" "utf8_cont (x # s) 1 2 = Some k"
        using gen [OF class3] by simp_all
      have r: "k = 3" "2 \<le> length s" "\<forall>i<2. (s ! i AND 0xC0) = 0x80" using run [OF c(2) assms(2)] by simp_all
      then obtain y z s' where s': "s = y # z # s'" by (cases s; cases "tl s") auto
      have "(y AND 0xC0) = 0x80" "(z AND 0xC0) = 0x80" using r(3) [rule_format, of 0] r(3) [rule_format, of 1] s' by auto
      from cont [OF this(1)] cont [OF this(2)] byte_field [of "0xE0" x 16] 3
      obtain a b d where "0 \<le> a" "a < 16" "0 \<le> b" "b < 64" "0 \<le> d" "d < 64"
        "x = byte_of (0xE0 + a)" "y = byte_of (0x80 + b)" "z = byte_of (0x80 + d)" by auto
      with three [of a b d s'] s' r str enough [OF c(1)] show ?thesis by simp
    next
      case 4
      have class4: "utf8proc_utf8class ! unat x = 4" using 4 by (simp add: class_byte)
      have c: "\<not> (str_len \<ge> 0 \<and> int 4 > str_len)" "utf8_cont (x # s) 1 3 = Some k"
        using gen [OF class4] by simp_all
      have r: "k = 4" "3 \<le> length s" "\<forall>i<3. (s ! i AND 0xC0) = 0x80" using run [OF c(2) assms(2)] by simp_all
      then obtain y z w s' where s': "s = y # z # w # s'" by (cases s; cases "tl s"; cases "tl (tl s)") auto
      have "(y AND 0xC0) = 0x80" "(z AND 0xC0) = 0x80" "(w AND 0xC0) = 0x80"
        using r(3) [rule_format, of 0] r(3) [rule_format, of 1] r(3) [rule_format, of 2] s' by auto
      from cont [OF this(1)] cont [OF this(2)] cont [OF this(3)] byte_field [of "0xF0" x 8] 4
      obtain a b d e where "0 \<le> a" "a < 8" "0 \<le> b" "b < 64" "0 \<le> d" "d < 64" "0 \<le> e" "e < 64"
        "x = byte_of (0xF0 + a)" "y = byte_of (0x80 + b)" "z = byte_of (0x80 + d)" "w = byte_of (0x80 + e)" by auto
      with four [of a b d e s'] s' r str enough [OF c(1)] show ?thesis by simp
    qed (use class0 False in \<open>simp_all add: class_byte\<close>)
  qed
qed

lemma utf8_iterate_decode:
  assumes "git__utf8_iterate str str_len = Some (k, u)" "0 < k"
  shows "utf8_ok u \<and> k = int (length (utf8_encode u)) \<and> take (nat k) str = utf8_encode u"
proof -
  from assms have "git__utf8_charlen str str_len = Some k"
    by (cases "git__utf8_charlen str str_len") (auto simp: git__utf8_iterate_def Let_def split: if_splits)
  from this assms(2) show ?thesis
  proof (cases rule: utf8_charlen_split)
    case (one v rest)
    then show ?thesis using utf8_1 [OF one(1,2,5), of rest] assms by (auto simp: utf8_ok_def utf8_encode_def)
  next
    case (two a b rest)
    with utf8_2 [OF two(1-4) two(7) refl, of rest] assms have u: "u = a * 64 + b" "0x80 \<le> u" by (auto split: if_splits)
    with utf8_encode_2 [OF two(1-4) u(1,2)] two show ?thesis by (auto simp: utf8_ok_def)
  next
    case (three a b c rest)
    with utf8_3 [OF three(1-6) three(9) refl, of rest] assms have u: "u = (a * 64 + b) * 64 + c" "0x800 \<le> u" "utf8_ok u"
      by (auto split: if_splits)
    with utf8_encode_3 [OF three(1-6) u(1,2)] three show ?thesis by auto
  next
    case (four a b c d rest)
    with utf8_4 [OF four(1-8) four(11) refl, of rest] assms
    have u: "u = ((a * 64 + b) * 64 + c) * 64 + d" "0x10000 \<le> u" "utf8_ok u"
      by (auto split: if_splits)
    with utf8_encode_4 [OF four(1-8) u(1,2)] four show ?thesis by auto
  qed
qed

section \<open>Properties\<close>



text \<open>The overflow test of \<open>git__strntol64\<close> only looks whether the wrapped number moved the wrong way, so it misses
  overflows: a number of 20 digits is read as another number, without an error.\<close>

theorem git__strntol64_missed_overflow:
  "git__strntol64 (bytes_of ''9223372036854775808'') 19 10 = (-1, Some [], None) \<and>
   git__strntol64 (bytes_of ''25000000000000000000'') 20 10 = (0, Some [], Some 6553255926290448384)"
  by code_simp

text \<open>C21: Reading the UTF-8 encoding of a code point gives the code point and its length, and whatever is read as a
  character is the encoding of that code point: overlong forms, surrogates, non-characters and code points
  above 10FFFF are refused.\<close>

theorem git__utf8_roundtrip:
  "(utf8_ok u \<and> (str_len < 0 \<or> int (length (utf8_encode u)) \<le> str_len) \<longrightarrow>
     git__utf8_iterate (utf8_encode u @ rest) str_len = Some (int (length (utf8_encode u)), u)) \<and>
   (git__utf8_iterate str str_len = Some (k, u) \<and> 0 < k \<longrightarrow>
     utf8_ok u \<and> k = int (length (utf8_encode u)) \<and> take (nat k) str = utf8_encode u)"
  using utf8_iterate_encode utf8_iterate_decode by blast

theorem git__utf8_roundtrip_witness:
  "git__utf8_iterate [0xE2, 0x82, 0xAC, 0x41] 4 = Some (3, 0x20AC) \<and>
   take 3 [0xE2, 0x82, 0xAC, 0x41 :: byte] = utf8_encode 0x20AC"
proof -
  have e: "utf8_encode 0x20AC = [0xE2, 0x82, 0xAC]" by (simp add: utf8_encode_def byte_of_def)
  have it: "git__utf8_iterate (utf8_encode 0x20AC @ [0x41]) 4 = Some (3, 0x20AC)"
    using git__utf8_roundtrip [where u = "0x20AC" and str_len = 4 and rest = "[0x41]"] by (simp add: utf8_ok_def e)
  then show ?thesis
    using git__utf8_roundtrip [where u = "0x20AC" and str_len = 4 and str = "utf8_encode 0x20AC @ [0x41]" and k = 3] by (simp add: e)
qed

end
