(* ===== verification/Shorten.thy ===== *)
theory Shorten
  imports Oid Numbers "HOL-Library.Sublist"
begin

text \<open>
  The object-id shortener of oid.c: an array of trie nodes indexed by short integers, in which a leaf keeps the
  rest of its string. The theorems relate it to the set of strings it has been given.
\<close>

section \<open>The model\<close>

text \<open>
  A node is a union: the pointer to the rest of a string, or sixteen child indices. All its bytes are zero when it is
  allocated and a leaf writes only the pointer, so clearing the pointer makes it sixteen zero indices. Reading the indices of a
  node that holds a pointer is undefined behaviour, as is an index outside the array.
\<close>

datatype trie_node = Tail "byte list" | Children "int list"

text \<open>\<open>nodes\<close> is NULL (no cells) after a failed reallocation.\<close>

record git_oid_shorten =
  sh_nodes :: "trie_node list"
  sh_node_count :: nat
  sh_size :: nat
  sh_min_length :: int
  sh_full :: bool

definition SHRT_MAX :: nat where
  "SHRT_MAX = 32767"

definition zero_node :: trie_node where
  "zero_node = Children (replicate 16 0)"

text \<open>The conversion to \<open>node_index\<close>, a signed 16-bit integer.\<close>

definition node_index :: "nat \<Rightarrow> int" where
  "node_index n = (int n + 2 ^ 15) mod 2 ^ 16 - 2 ^ 15"

definition resize_trie :: "trie_node allocator \<Rightarrow> git_oid_shorten \<Rightarrow> nat \<Rightarrow> int \<times> git_oid_shorten" where
  "resize_trie al self new_size =
     (case Option.bind (mul_sizet new_size 32) (\<lambda>_. realloc_cells al (sh_nodes self) new_size) of
        None \<Rightarrow> (-1, self\<lparr>sh_nodes := []\<rparr>)
      | Some m \<Rightarrow>
          (0, self\<lparr>sh_nodes := (if new_size > sh_size self
                              then take (sh_size self) m @ replicate (new_size - sh_size self) zero_node else m),
                   sh_size := new_size\<rparr>))"

text \<open>The children of a node.\<close>

definition node_children :: "git_oid_shorten \<Rightarrow> int \<Rightarrow> int list option" where
  "node_children os idx =
     (if 0 \<le> idx \<and> nat idx < length (sh_nodes os)
      then (case sh_nodes os ! nat idx of Children ch \<Rightarrow> Some ch | Tail _ \<Rightarrow> None) else None)"

definition set_node :: "git_oid_shorten \<Rightarrow> int \<Rightarrow> trie_node \<Rightarrow> git_oid_shorten" where
  "set_node os idx node = os\<lparr>sh_nodes := (sh_nodes os)[nat idx := node]\<rparr>"

text \<open>The result says whether the pointer returned is not NULL.\<close>

definition push_leaf :: "trie_node allocator \<Rightarrow> git_oid_shorten \<Rightarrow> int \<Rightarrow> int \<Rightarrow> byte list \<Rightarrow> (bool \<times> git_oid_shorten) option" where
  "push_leaf al os idx push_at oid =
     (let (r, os1) = (if sh_node_count os \<ge> sh_size os then resize_trie al os (sh_size os * 2 mod 2 ^ 64) else (0, os)) in
      if r < 0 then Some (False, os1)
      else
        let idx_leaf = node_index (sh_node_count os1);
            os2 = os1\<lparr>sh_node_count := sh_node_count os1 + 1\<rparr>
        in if sh_node_count os2 = SHRT_MAX then Some (False, os2\<lparr>sh_full := True\<rparr>)
           else do {
             ch \<leftarrow> node_children os2 idx;
             if 0 \<le> push_at \<and> push_at < 16 \<and> 0 \<le> idx_leaf \<and> nat idx_leaf < length (sh_nodes os2)
             then Some (True, set_node (set_node os2 idx (Children (ch[nat push_at := - idx_leaf]))) idx_leaf (Tail oid))
             else None })"

text \<open>The outer \<open>None\<close> is the failed assertion that \<open>min_length\<close> survives the conversion to \<open>int\<close> and back, the inner one is NULL:
  no memory.\<close>

definition git_oid_shorten_new :: "byte allocator \<Rightarrow> trie_node allocator \<Rightarrow> nat \<Rightarrow> git_oid_shorten option option" where
  "git_oid_shorten_new cal al min_length =
     (if int32 (int min_length) mod 2 ^ 64 \<noteq> int min_length then None
      else case cal 32 of
        None \<Rightarrow> Some None
      | Some _ \<Rightarrow>
          (let (r, os) = resize_trie al \<lparr>sh_nodes = [], sh_node_count = 0, sh_size = 0, sh_min_length = 0, sh_full = False\<rparr> 16
           in if r < 0 then Some None
              else Some (Some (os\<lparr>sh_node_count := 1, sh_min_length := int32 (int min_length)\<rparr>))))"

text \<open>A leaf that is met becomes a normal node with one leaf below it.\<close>

definition split_leaf :: "trie_node allocator \<Rightarrow> git_oid_shorten \<Rightarrow> int \<Rightarrow> (bool \<times> git_oid_shorten) option" where
  "split_leaf al os idx =
     (if 0 \<le> idx \<and> nat idx < length (sh_nodes os)
      then (case sh_nodes os ! nat idx of
              Tail t \<Rightarrow> push_leaf al (set_node os idx zero_node) idx (git__fromhex (peek t)) (tl t)
            | Children _ \<Rightarrow> None)
      else None)"

text \<open>
  The loop with \<open>n\<close> characters left before the fortieth; \<open>Inl\<close> is the early return of -1, \<open>Inr\<close> gives the value of \<open>i\<close> behind the loop.
\<close>

fun shorten_loop :: "trie_node allocator \<Rightarrow> nat \<Rightarrow> git_oid_shorten \<Rightarrow> byte list \<Rightarrow> bool \<Rightarrow> int \<Rightarrow>
    (git_oid_shorten + nat \<times> git_oid_shorten) option" where
  "shorten_loop al 0 os text is_leaf idx = Some (Inr (GIT_OID_HEXSZ, os))"
| "shorten_loop al (Suc n) os text is_leaf idx =
     (let c = git__fromhex (peek text) in
      if c = -1 then Some (Inl os)
      else
        (case (if is_leaf then split_leaf al os idx else Some (True, os)) of
           None \<Rightarrow> None
         | Some (False, os1) \<Rightarrow> Some (Inl os1)
         | Some (True, os1) \<Rightarrow>
             (case node_children os1 idx of
                None \<Rightarrow> None
              | Some ch \<Rightarrow>
                  let k = ch ! nat c in
                  if k = 0 then
                    (case push_leaf al os1 idx c (tl text) of
                       None \<Rightarrow> None
                     | Some (False, os2) \<Rightarrow> Some (Inl os2)
                     | Some (True, os2) \<Rightarrow> Some (Inr (GIT_OID_HEXSZ - Suc n, os2)))
                  else if k < 0 then
                    shorten_loop al n (set_node os1 idx (Children (ch[nat c := - k]))) (tl text) True (- k)
                  else shorten_loop al n os1 (tl text) False k)))"

definition git_oid_shorten_add :: "trie_node allocator \<Rightarrow> git_oid_shorten \<Rightarrow> byte list option \<Rightarrow> (int \<times> git_oid_shorten) option" where
  "git_oid_shorten_add al os text_oid =
     (if sh_full os then Some (-1, os)
      else
        (case text_oid of
           None \<Rightarrow> Some (sh_min_length os, os)
         | Some text \<Rightarrow> do {
             res \<leftarrow> shorten_loop al GIT_OID_HEXSZ os text False 0;
             (case res of
                Inl os1 \<Rightarrow> Some (-1, os1)
              | Inr (i, os1) \<Rightarrow>
                  (let os2 = (if int (i + 1) > sh_min_length os1 then os1\<lparr>sh_min_length := int (i + 1)\<rparr> else os1)
                   in Some (sh_min_length os2, os2))) }))"

section \<open>The invariant\<close>

definition digits :: "byte list \<Rightarrow> int list" where
  "digits s = map git__fromhex s"

text \<open>
  \<open>P\<close> gives every allocated node its path from the root, \<open>U\<close> is the set of strings below the nodes, and \<open>pend\<close> is the
  leaf that is about to be split, whose parent already points to it with a positive index.
\<close>


definition is_tail :: "trie_node \<Rightarrow> bool" where
  "is_tail x \<longleftrightarrow> (\<exists>t. x = Tail t)"

definition link_ok :: "(nat \<Rightarrow> int list) \<Rightarrow> nat option \<Rightarrow> git_oid_shorten \<Rightarrow> nat \<Rightarrow> nat \<Rightarrow> int \<Rightarrow> bool" where
  "link_ok P pend os j c k \<longleftrightarrow>
     k \<noteq> 0 \<longrightarrow> nat \<bar>k\<bar> < sh_node_count os \<and> P (nat \<bar>k\<bar>) = P j @ [int c] \<and>
       (length (P j) < 39 \<longrightarrow> (k < 0 \<longleftrightarrow> is_tail (sh_nodes os ! nat \<bar>k\<bar>) \<and> pend \<noteq> Some (nat \<bar>k\<bar>)))"

definition size_ok :: "git_oid_shorten \<Rightarrow> bool" where
  "size_ok os \<longleftrightarrow> length (sh_nodes os) = sh_size os \<and> sh_node_count os \<le> sh_size os \<and> 0 < sh_node_count os \<and>
     sh_size os \<le> 2 ^ 16 \<and> sh_node_count os < SHRT_MAX \<and> \<not> sh_full os"

definition inner_ok :: "(nat \<Rightarrow> int list) \<Rightarrow> nat option \<Rightarrow> git_oid_shorten \<Rightarrow> bool" where
  "inner_ok P pend os \<longleftrightarrow>
     (\<forall>j < sh_node_count os. \<forall>ch. sh_nodes os ! j = Children ch \<longrightarrow>
        length ch = 16 \<and> length (P j) < 40 \<and> (\<forall>c < 16. link_ok P pend os j c (ch ! c)))"

definition tails_ok :: "(nat \<Rightarrow> int list) \<Rightarrow> git_oid_shorten \<Rightarrow> bool" where
  "tails_ok P os \<longleftrightarrow>
     (\<forall>j < sh_node_count os. \<forall>t. sh_nodes os ! j = Tail t \<longrightarrow>
        length (P j) \<le> 40 \<and> 40 - length (P j) \<le> length t \<and> (\<forall>x\<in>set (digits (take (40 - length (P j)) t)). 0 \<le> x))"

definition linked :: "git_oid_shorten \<Rightarrow> bool" where
  "linked os \<longleftrightarrow>
     (\<forall>j < sh_node_count os. 0 < j \<longrightarrow>
        (\<exists>i < sh_node_count os. \<exists>ch c. c < 16 \<and> sh_nodes os ! i = Children ch \<and> ch ! c \<noteq> 0 \<and> nat \<bar>ch ! c\<bar> = j))"

definition covered :: "(nat \<Rightarrow> int list) \<Rightarrow> int list set \<Rightarrow> git_oid_shorten \<Rightarrow> bool" where
  "covered P U os \<longleftrightarrow> (\<forall>j < sh_node_count os. 0 < j \<longrightarrow> (\<exists>s\<in>U. prefix (P j) s))"

definition trie_inv :: "(nat \<Rightarrow> int list) \<Rightarrow> int list set \<Rightarrow> nat option \<Rightarrow> git_oid_shorten \<Rightarrow> bool" where
  "trie_inv P U pend os \<longleftrightarrow>
     size_ok os \<and> P 0 = [] \<and> \<not> is_tail (sh_nodes os ! 0) \<and> inj_on P {..<sh_node_count os} \<and>
     inner_ok P pend os \<and> tails_ok P os \<and> linked os \<and> covered P U os"

text \<open>The strings of the leaves.\<close>

definition leaf_strs :: "(nat \<Rightarrow> int list) \<Rightarrow> git_oid_shorten \<Rightarrow> int list set" where
  "leaf_strs P os = {P j @ digits (take (40 - length (P j)) t) | j t. j < sh_node_count os \<and> sh_nodes os ! j = Tail t}"


lemma fromhex_range: "git__fromhex x = -1 \<or> 0 \<le> git__fromhex x \<and> git__fromhex x < 16"
proof -
  have "list_all (\<lambda>v. v = -1 \<or> 0 \<le> v \<and> v < 16) from_hex \<and> length from_hex = 256" by code_simp
  moreover have "unat x < 256" using unsigned_less [of x] by simp
  ultimately show ?thesis by (simp add: git__fromhex_def list_all_length)
qed

text \<open>The ancestors of a node are inner nodes, each linked from the one before.\<close>

lemma ancestor:
  assumes inv: "trie_inv P U pend os" and "j < sh_node_count os" and "d \<le> length (P j)"
  shows "\<exists>i < sh_node_count os. P i = take d (P j) \<and>
    (d < length (P j) \<longrightarrow> (\<exists>ch c. sh_nodes os ! i = Children ch \<and> c < 16 \<and> ch ! c \<noteq> 0 \<and> P j ! d = int c))"
  using assms(2,3)
proof (induction "length (P j)" arbitrary: j rule: less_induct)
  case less
  show ?case
  proof (cases "d = length (P j)")
    case True
    then show ?thesis using less.prems(1) by auto
  next
    case False
    then have "0 < j" using less.prems inv by (cases j) (auto simp: trie_inv_def)
    then obtain i ch c where i: "i < sh_node_count os" "c < 16" "sh_nodes os ! i = Children ch" "ch ! c \<noteq> 0" "nat \<bar>ch ! c\<bar> = j"
      using inv less.prems(1) by (auto simp: trie_inv_def linked_def)
    then have P: "P j = P i @ [int c]"
      using inv by (auto simp: trie_inv_def inner_ok_def link_ok_def)
    show ?thesis
    proof (cases "d = length (P i)")
      case True
      then show ?thesis using i P by auto
    next
      case 2: False
      then have "d < length (P i)" using False less.prems(2) P by simp
      then show ?thesis using less.hyps [of i] i(1) P by (auto simp: nth_append)
    qed
  qed
qed

text \<open>A missing child means that no leaf lies in that direction.\<close>

lemma no_child:
  assumes inv: "trie_inv P U pend os" and i: "i < sh_node_count os" "sh_nodes os ! i = Children ch" and c: "c < 16" "ch ! c = 0"
    and s: "s \<in> leaf_strs P os"
  shows "\<not> prefix (P i @ [int c]) s"
proof
  assume pre: "prefix (P i @ [int c]) s"
  obtain j t where j: "j < sh_node_count os" "sh_nodes os ! j = Tail t" "s = P j @ digits (take (40 - length (P j)) t)"
    using s by (auto simp: leaf_strs_def)
  have inj: "a = b" if "P a = P b" "a < sh_node_count os" "b < sh_node_count os" for a b
    using inv that by (auto simp: trie_inv_def inj_on_def)
  show False
  proof (cases "length (P i) < length (P j)")
    case True
    obtain z where z: "P j @ digits (take (40 - length (P j)) t) = (P i @ [int c]) @ z"
      using pre j(3) by (auto elim!: prefixE)
    have "take (Suc (length (P i))) (P j @ digits (take (40 - length (P j)) t)) = take (Suc (length (P i))) ((P i @ [int c]) @ z)"
      unfolding z ..
    then have eq: "P i @ [int c] = take (Suc (length (P i))) (P j)" using True by simp
    obtain a ch' c' where "a < sh_node_count os" "P a = take (length (P i)) (P j)" "sh_nodes os ! a = Children ch'" "ch' ! c' \<noteq> 0"
        "P j ! length (P i) = int c'"
      using ancestor [OF inv j(1), of "length (P i)"] True by auto
    moreover have "P i = take (length (P i)) (P j)" "P j ! length (P i) = int c"
      using eq True by (simp_all add: take_Suc_conv_app_nth)
    ultimately show False using inj [of a i] i c by auto
  next
    case False
    have "P j = take (length (P j)) s" using j(3) by simp
    also have "\<dots> = take (length (P j)) (P i)" using pre False by (auto simp: prefix_def)
    finally have eq: "P j = take (length (P j)) (P i)" .
    obtain a where "a < sh_node_count os" "P a = P j" "length (P j) < length (P i) \<longrightarrow> (\<exists>ch. sh_nodes os ! a = Children ch)"
      using ancestor [OF inv i(1), of "length (P j)"] False eq by auto
    moreover from this have "a = j" using inj [of a j] j(1) by simp
    ultimately have "length (P j) = length (P i)" using j(2) False by auto
    then have "P j = P i" using eq by simp
    then have "j = i" by (rule inj [OF _ j(1) i(1)])
    then show False using i(2) j(2) by simp
  qed
qed


section \<open>Adding a leaf\<close>

lemma node_index_small: "n < SHRT_MAX \<Longrightarrow> node_index n = int n"
  by (simp add: node_index_def SHRT_MAX_def)

lemma resize_ok:
  assumes "good_alloc al" and "total_alloc al" and "size_ok os"
  shows "\<exists>os1. (if sh_node_count os \<ge> sh_size os then resize_trie al os (sh_size os * 2 mod 2 ^ 64) else (0, os)) = (0, os1) \<and>
    (\<forall>j < sh_node_count os. sh_nodes os1 ! j = sh_nodes os ! j) \<and> length (sh_nodes os1) = sh_size os1 \<and>
    sh_node_count os < sh_size os1 \<and> sh_size os1 \<le> 2 ^ 16 \<and> sh_node_count os1 = sh_node_count os \<and>
    sh_min_length os1 = sh_min_length os \<and> \<not> sh_full os1"
proof (cases "sh_node_count os \<ge> sh_size os")
  case True
  then have n: "sh_size os = sh_node_count os" "length (sh_nodes os) = sh_node_count os" "0 < sh_size os" "sh_size os < SHRT_MAX"
    using assms(3) by (auto simp: size_ok_def)
  obtain m where m: "realloc_cells al (sh_nodes os) (sh_size os * 2) = Some m"
    using realloc_cells_total [OF assms(2)] by blast
  have len: "length m = sh_size os * 2" by (rule realloc_cells_length [OF assms(1) m])
  have take: "take (sh_size os) m = sh_nodes os"
    using realloc_cells_take [OF assms(1) m, of "sh_size os"] n by simp
  have "mul_sizet (sh_size os * 2) 32 = Some (sh_size os * 2 * 32)"
    using n(4) by (intro mul_sizet_fits) (simp add: SHRT_MAX_def)
  then show ?thesis
    using True m len take n assms(3) by (auto simp: resize_trie_def nth_append SHRT_MAX_def size_ok_def)
qed (use assms in \<open>auto simp: size_ok_def\<close>)

lemma new_path:
  assumes inv: "trie_inv P U pend os" and i: "i < sh_node_count os" "sh_nodes os ! i = Children ch" and c: "c < 16" "ch ! c = 0"
    and k: "k < sh_node_count os"
  shows "P k \<noteq> P i @ [int c]"
proof
  assume eq: "P k = P i @ [int c]"
  obtain a ch' c' where a: "a < sh_node_count os" "P a = P i" "sh_nodes os ! a = Children ch'" "ch' ! c' \<noteq> 0" "c = c'"
    using ancestor [OF inv k, of "length (P i)"] eq by auto
  then have "a = i" using inv i(1) by (auto simp: trie_inv_def inj_on_def)
  then show False using a i c by simp
qed

lemma push_leaf_ok:
  assumes al: "good_alloc al" "total_alloc al" and inv: "trie_inv P U None os"
    and i: "i < sh_node_count os" "sh_nodes os ! i = Children ch" and c: "c < 16" "ch ! c = 0"
    and t: "39 - length (P i) \<le> length t" "\<forall>x\<in>set (digits (take (39 - length (P i)) t)). 0 \<le> x"
  defines "new \<equiv> P i @ int c # digits (take (39 - length (P i)) t)"
  shows "\<exists>ok os'. push_leaf al os (int i) (int c) t = Some (ok, os') \<and> (\<not> ok \<longrightarrow> sh_full os') \<and>
    (ok \<longrightarrow> (let P' = P(sh_node_count os := P i @ [int c]) in
       trie_inv P' (insert new U) None os' \<and> leaf_strs P' os' = insert new (leaf_strs P os) \<and>
       sh_node_count os' = sh_node_count os + 1 \<and> sh_nodes os' ! i = Children (ch[c := - int (sh_node_count os)]) \<and>
       sh_min_length os' = sh_min_length os))"
proof -
  define n where "n = sh_node_count os"
  define P' where "P' = P(n := P i @ [int c])"
  have size: "size_ok os" using inv by (simp add: trie_inv_def)
  obtain os1 where os1: "(if sh_node_count os \<ge> sh_size os then resize_trie al os (sh_size os * 2 mod 2 ^ 64) else (0, os)) = (0, os1)"
      "\<forall>j < n. sh_nodes os1 ! j = sh_nodes os ! j" "length (sh_nodes os1) = sh_size os1" "n < sh_size os1" "sh_size os1 \<le> 2 ^ 16"
      "sh_node_count os1 = n" "sh_min_length os1 = sh_min_length os" "\<not> sh_full os1"
    using resize_ok [OF al size] by (auto simp: n_def)
  have n: "n < SHRT_MAX" "0 < n" "i < n" using size i by (simp_all add: size_ok_def n_def)
  have ch: "length ch = 16" "length (P i) < 40" "link_ok P None os i b (ch ! b)" if "b < 16" for b
    using inv i that by (auto simp: trie_inv_def inner_ok_def)
  show ?thesis
  proof (cases "n + 1 = SHRT_MAX")
    case True
    then show ?thesis using os1 by (auto simp: push_leaf_def intro!: exI [of _ False])
  next
    case False
    define os' where "os' = os1\<lparr>sh_nodes := (sh_nodes os1)[i := Children (ch[c := - int n]), n := Tail t], sh_node_count := n + 1\<rparr>"
    have run: "push_leaf al os (int i) (int c) t = Some (True, os')"
      using False os1 n i c(1) by (simp add: push_leaf_def node_children_def set_node_def node_index_small os'_def n_def [symmetric])
    have nd: "sh_nodes os' ! i = Children (ch[c := - int n])" "sh_nodes os' ! n = Tail t"
        "\<And>j. j < n \<Longrightarrow> j \<noteq> i \<Longrightarrow> sh_nodes os' ! j = sh_nodes os ! j"
      using os1 n by (auto simp: os'_def)
    have tail: "is_tail (sh_nodes os' ! j) \<longleftrightarrow> is_tail (sh_nodes os ! j)" if "j < n" for j
      using nd(1) nd(3) [OF that] i by (cases "j = i") (auto simp: is_tail_def)
    have cnt: "sh_node_count os' = n + 1" by (simp add: os'_def)
    have P': "P' n = P i @ [int c]" "\<And>j. j < n \<Longrightarrow> P' j = P j" by (auto simp: P'_def)
    have size': "size_ok os'" using os1 n False by (auto simp: size_ok_def os'_def)
    have inj: "inj_on P' {..<n + 1}"
    proof (rule inj_onI)
      fix a b assume ab: "a \<in> {..<n + 1}" "b \<in> {..<n + 1}" "P' a = P' b"
      have new: "P k \<noteq> P i @ [int c]" if "k < n" for k using new_path [OF inv i c] that by (simp add: n_def)
      have "a = b" if "a < n" "b < n"
        using inv ab that by (auto simp: trie_inv_def inj_on_def n_def P'(2))
      moreover have "a < n \<or> a = n" "b < n \<or> b = n" using ab(1,2) by auto
      ultimately show "a = b" using ab(3) P' new by metis
    qed
    have links: "link_ok P' None os' j b k" if "j < n" "link_ok P None os j b k" for j b k
      using that tail P' cnt by (auto simp: link_ok_def n_def [symmetric])
    have inner: "inner_ok P' None os'"
      unfolding inner_ok_def cnt
    proof (intro allI impI)
      fix j ch' assume j: "j < n + 1" "sh_nodes os' ! j = Children ch'"
      then have "j < n" using nd(2) by (cases "j = n") auto
      show "length ch' = 16 \<and> length (P' j) < 40 \<and> (\<forall>b < 16. link_ok P' None os' j b (ch' ! b))"
      proof (cases "j = i")
        case True
        then have ch': "ch' = ch[c := - int n]" using j nd(1) by simp
        have "link_ok P' None os' i c (- int n)"
          using n nd(2) P' cnt by (simp add: link_ok_def is_tail_def)
        then show ?thesis
          using True ch ch' \<open>j < n\<close> links [OF n(3)] P'(2) c(1) by (auto simp: nth_list_update)
      next
        case False
        then have "sh_nodes os ! j = Children ch'" using j(2) nd(3) [OF \<open>j < n\<close>] by simp
        then show ?thesis
          using inv \<open>j < n\<close> links [OF \<open>j < n\<close>] P'(2) by (auto simp: trie_inv_def inner_ok_def n_def [symmetric])
      qed
    qed
    have old_tail: "j < n \<and> j \<noteq> i \<and> sh_nodes os ! j = Tail u \<or> j = n \<and> u = t"
      if "j < n + 1" "sh_nodes os' ! j = Tail u" for j u
      using that nd by (cases "j = n"; cases "j = i") (auto simp: less_Suc_eq)
    have tails: "tails_ok P' os'"
      unfolding tails_ok_def cnt
    proof (intro allI impI)
      fix j u assume "j < n + 1" "sh_nodes os' ! j = Tail u"
      from old_tail [OF this]
      show "length (P' j) \<le> 40 \<and> 40 - length (P' j) \<le> length u \<and> (\<forall>x\<in>set (digits (take (40 - length (P' j)) u)). 0 \<le> x)"
      proof
        assume "j < n \<and> j \<noteq> i \<and> sh_nodes os ! j = Tail u"
        then show ?thesis using inv P'(2) unfolding trie_inv_def tails_ok_def n_def by auto
      next
        assume "j = n \<and> u = t"
        then show ?thesis using t ch(2) [of 0] P'(1) by simp
      qed
    qed
    have linked: "linked os'"
      unfolding linked_def cnt
    proof (intro allI impI)
      fix j assume j: "j < n + 1" "0 < j"
      show "\<exists>a < n + 1. \<exists>ch' b. b < 16 \<and> sh_nodes os' ! a = Children ch' \<and> ch' ! b \<noteq> 0 \<and> nat \<bar>ch' ! b\<bar> = j"
      proof (cases "j = n")
        case True
        then show ?thesis
          using n nd(1) c ch(1) [of 0] by (intro exI [of _ i] conjI exI [of _ "ch[c := - int n]"] exI [of _ c]) auto
      next
        case False
        then have "j < sh_node_count os" using j by (simp add: n_def)
        moreover have "linked os" using inv by (simp add: trie_inv_def)
        ultimately obtain a ch' b where a: "a < n" "b < 16" "sh_nodes os ! a = Children ch'" "ch' ! b \<noteq> 0" "nat \<bar>ch' ! b\<bar> = j"
          using j(2) unfolding linked_def n_def by blast
        show ?thesis
        proof (cases "a = i")
          case True
          then have "b \<noteq> c" "ch' = ch" using a i c by auto
          then show ?thesis
            using a True nd(1) n by (intro exI [of _ i] conjI exI [of _ "ch[c := - int n]"] exI [of _ b]) auto
        next
          case False
          then show ?thesis using a nd(3) [OF a(1)] by (intro exI [of _ a] conjI exI [of _ ch'] exI [of _ b]) auto
        qed
      qed
    qed
    have covered: "covered P' (insert new U) os'"
      using inv P' by (auto simp: covered_def cnt less_Suc_eq trie_inv_def n_def [symmetric] new_def)
    have strs: "leaf_strs P' os' = insert new (leaf_strs P os)"
    proof (intro equalityI subsetI)
      fix s assume "s \<in> leaf_strs P' os'"
      then obtain j u where j: "j < n + 1" "sh_nodes os' ! j = Tail u" "s = P' j @ digits (take (40 - length (P' j)) u)"
        by (auto simp: leaf_strs_def cnt)
      from old_tail [OF j(1,2)] show "s \<in> insert new (leaf_strs P os)"
        using j(3) P' by (auto simp: leaf_strs_def n_def [symmetric] new_def)
    next
      fix s assume "s \<in> insert new (leaf_strs P os)"
      then consider "s = new" | j u where "j < n" "sh_nodes os ! j = Tail u" "s = P j @ digits (take (40 - length (P j)) u)"
        by (auto simp: leaf_strs_def n_def)
      then show "s \<in> leaf_strs P' os'"
      proof cases
        case 1
        then show ?thesis
          using nd(2) P'(1) by (auto simp: leaf_strs_def cnt new_def intro!: exI [of _ n] exI [of _ t])
      next
        case 2
        then have "j \<noteq> i" using i by auto
        then show ?thesis
          using 2 nd(3) [OF 2(1)] P'(2) [OF 2(1)] by (auto simp: leaf_strs_def cnt intro!: exI [of _ j] exI [of _ u])
      qed
    qed
    have "trie_inv P' (insert new U) None os'"
      using inv size' inj inner tails linked covered tail [of 0] n P'(2) [of 0] cnt by (auto simp: trie_inv_def)
    then show ?thesis
      using run strs cnt nd(1) os1(7) by (auto simp: n_def [symmetric] P'_def [symmetric] os'_def)
  qed
qed


section \<open>Splitting a leaf\<close>

lemma clear_leaf:
  assumes inv: "trie_inv P U (Some i) os" and i: "i < sh_node_count os" "sh_nodes os ! i = Tail t" "length (P i) < 40"
  shows "trie_inv P U None (set_node os (int i) zero_node)"
    and "leaf_strs P os = insert (P i @ digits (take (40 - length (P i)) t)) (leaf_strs P (set_node os (int i) zero_node))"
proof -
  let ?os = "set_node os (int i) zero_node"
  have size: "i < length (sh_nodes os)" using inv i(1) by (simp add: trie_inv_def size_ok_def)
  have nd: "sh_nodes ?os ! i = zero_node" "\<And>j. j \<noteq> i \<Longrightarrow> sh_nodes ?os ! j = sh_nodes os ! j" "sh_node_count ?os = sh_node_count os"
    using size by (simp_all add: set_node_def)
  have tail: "is_tail (sh_nodes ?os ! j) \<longleftrightarrow> is_tail (sh_nodes os ! j) \<and> j \<noteq> i" for j
    using nd by (cases "j = i") (auto simp: is_tail_def zero_node_def)
  have root: "i \<noteq> 0" using inv i(2) by (metis is_tail_def trie_inv_def)
  have links: "link_ok P None ?os j b k" if "link_ok P (Some i) os j b k" for j b k
    using that by (auto simp: link_ok_def tail nd)
  have "inner_ok P None ?os"
    unfolding inner_ok_def nd(3)
  proof (intro allI impI)
    fix j ch assume j: "j < sh_node_count os" "sh_nodes ?os ! j = Children ch"
    show "length ch = 16 \<and> length (P j) < 40 \<and> (\<forall>c < 16. link_ok P None ?os j c (ch ! c))"
    proof (cases "j = i")
      case True
      then show ?thesis using j nd(1) i(3) by (auto simp: zero_node_def link_ok_def)
    next
      case False
      then show ?thesis using inv j nd(2) links by (auto simp: trie_inv_def inner_ok_def)
    qed
  qed
  moreover have "tails_ok P ?os"
    unfolding tails_ok_def nd(3)
  proof (intro allI impI)
    fix j u assume j: "j < sh_node_count os" "sh_nodes ?os ! j = Tail u"
    then have "j \<noteq> i" using nd(1) by (auto simp: zero_node_def)
    then show "length (P j) \<le> 40 \<and> 40 - length (P j) \<le> length u \<and> (\<forall>x\<in>set (digits (take (40 - length (P j)) u)). 0 \<le> x)"
      using inv j nd(2) unfolding trie_inv_def tails_ok_def by auto
  qed
  moreover have "linked ?os"
    unfolding linked_def nd(3)
  proof (intro allI impI)
    fix j assume "j < sh_node_count os" "0 < j"
    then obtain a ch b where a: "a < sh_node_count os" "b < 16" "sh_nodes os ! a = Children ch" "ch ! b \<noteq> 0" "nat \<bar>ch ! b\<bar> = j"
      using inv unfolding trie_inv_def linked_def by blast
    then have "a \<noteq> i" using i(2) by auto
    then show "\<exists>a < sh_node_count os. \<exists>ch b. b < 16 \<and> sh_nodes ?os ! a = Children ch \<and> ch ! b \<noteq> 0 \<and> nat \<bar>ch ! b\<bar> = j"
      using a nd(2) by (intro exI [of _ a] conjI exI [of _ ch] exI [of _ b]) simp_all
  qed
  moreover have "\<not> is_tail (sh_nodes ?os ! 0)" using inv tail root by (simp add: trie_inv_def)
  ultimately show "trie_inv P U None ?os"
    using inv nd(3) by (auto simp: trie_inv_def size_ok_def covered_def set_node_def)
  show "leaf_strs P os = insert (P i @ digits (take (40 - length (P i)) t)) (leaf_strs P ?os)"
  proof (intro equalityI subsetI)
    fix s assume "s \<in> leaf_strs P os"
    then obtain j u where j: "j < sh_node_count os" "sh_nodes os ! j = Tail u" "s = P j @ digits (take (40 - length (P j)) u)"
      by (auto simp: leaf_strs_def)
    have "s \<in> leaf_strs P ?os" if "j \<noteq> i"
      unfolding leaf_strs_def nd(3) using j nd(2) [OF that] by (intro CollectI exI [of _ j] exI [of _ u]) simp
    then show "s \<in> insert (P i @ digits (take (40 - length (P i)) t)) (leaf_strs P ?os)"
      using i(2) j by (cases "j = i") auto
  next
    fix s assume "s \<in> insert (P i @ digits (take (40 - length (P i)) t)) (leaf_strs P ?os)"
    then consider "s = P i @ digits (take (40 - length (P i)) t)"
      | j u where "j < sh_node_count os" "sh_nodes ?os ! j = Tail u" "s = P j @ digits (take (40 - length (P j)) u)"
      by (auto simp: leaf_strs_def nd(3))
    then show "s \<in> leaf_strs P os"
    proof cases
      case 1
      then show ?thesis using i by (auto simp: leaf_strs_def)
    next
      case 2
      then show ?thesis using nd by (cases "j = i") (auto simp: leaf_strs_def zero_node_def)
    qed
  qed
qed

lemma split_leaf_ok:
  assumes al: "good_alloc al" "total_alloc al" and inv: "trie_inv P S (Some i) os" and S: "leaf_strs P os = S"
    and i: "i < sh_node_count os" "sh_nodes os ! i = Tail t" "length (P i) < 40"
  shows "\<exists>ok os'. split_leaf al os (int i) = Some (ok, os') \<and> (\<not> ok \<longrightarrow> sh_full os') \<and>
    (ok \<longrightarrow> (\<exists>P' ch. trie_inv P' S None os' \<and> leaf_strs P' os' = S \<and> (\<forall>j < sh_node_count os. P' j = P j) \<and>
      sh_node_count os < sh_node_count os' \<and> sh_nodes os' ! i = Children ch \<and> sh_min_length os' = sh_min_length os))"
proof -
  let ?os = "set_node os (int i) zero_node"
  note clear = clear_leaf [OF inv i]
  have t: "40 - length (P i) \<le> length t" "\<forall>x\<in>set (digits (take (40 - length (P i)) t)). 0 \<le> x"
    using inv i(1,2) unfolding trie_inv_def tails_ok_def by auto
  obtain m where m: "40 - length (P i) = Suc m" "39 - length (P i) = m" using i(3) by (cases "40 - length (P i)") auto
  obtain x u where x: "t = x # u" using t(1) m by (cases t) auto
  define c where "c = nat (git__fromhex x)"
  have c: "git__fromhex x = int c" "c < 16"
    using t(2) fromhex_range [of x] by (auto simp: x m(1) digits_def c_def)
  have size: "i < length (sh_nodes os)" using inv i(1) by (simp add: trie_inv_def size_ok_def)
  have ch: "sh_nodes ?os ! i = Children (replicate 16 0)" "replicate 16 0 ! c = (0 :: int)" "i < sh_node_count ?os"
    using size i(1) c(2) by (simp_all add: set_node_def zero_node_def)
  have u: "39 - length (P i) \<le> length u" "\<forall>y\<in>set (digits (take (39 - length (P i)) u)). 0 \<le> y"
    using t m by (auto simp: x digits_def)
  have new: "P i @ int c # digits (take (39 - length (P i)) u) = P i @ digits (take (40 - length (P i)) t)"
    using m c(1) by (simp add: x digits_def)
  have "insert (P i @ digits (take (40 - length (P i)) t)) S = S" using clear(2) S by auto
  with push_leaf_ok [OF al clear(1) ch(3,1) c(2) ch(2) u] clear(2) S
  obtain ok os' where os': "push_leaf al ?os (int i) (int c) u = Some (ok, os')" "\<not> ok \<longrightarrow> sh_full os'"
      "ok \<longrightarrow> (let P' = P(sh_node_count ?os := P i @ [int c]) in
         trie_inv P' S None os' \<and> leaf_strs P' os' = S \<and> sh_node_count os' = sh_node_count ?os + 1 \<and>
         sh_nodes os' ! i = Children ((replicate 16 0)[c := - int (sh_node_count ?os)]) \<and> sh_min_length os' = sh_min_length ?os)"
    by (auto simp: new)
  have "split_leaf al os (int i) = Some (ok, os')"
    using size i(2) os'(1) by (simp add: split_leaf_def x c(1))
  moreover have "\<exists>P' ch. trie_inv P' S None os' \<and> leaf_strs P' os' = S \<and> (\<forall>j < sh_node_count os. P' j = P j) \<and>
      sh_node_count os < sh_node_count os' \<and> sh_nodes os' ! i = Children ch \<and> sh_min_length os' = sh_min_length os" if ok
  proof -
    have "sh_node_count ?os = sh_node_count os" "sh_min_length ?os = sh_min_length os" by (simp_all add: set_node_def)
    then show ?thesis
      using os'(3) that unfolding Let_def by (intro exI [of _ "P(sh_node_count os := P i @ [int c])"] exI) auto
  qed
  ultimately show ?thesis using os'(2) by blast
qed


section \<open>Walking down\<close>

lemma mark_child:
  assumes inv: "trie_inv P U None os" and i: "i < sh_node_count os" "sh_nodes os ! i = Children ch" and c: "c < 16" "ch ! c < 0"
  shows "trie_inv P U (Some (nat (- (ch ! c)))) (set_node os (int i) (Children (ch[c := - (ch ! c)])))"
    and "leaf_strs P (set_node os (int i) (Children (ch[c := - (ch ! c)]))) = leaf_strs P os"
proof -
  define m where "m = nat (- (ch ! c))"
  let ?os = "set_node os (int i) (Children (ch[c := - (ch ! c)]))"
  have size: "i < length (sh_nodes os)" using inv i(1) by (simp add: trie_inv_def size_ok_def)
  have nd: "sh_nodes ?os ! i = Children (ch[c := - (ch ! c)])" "\<And>j. j \<noteq> i \<Longrightarrow> sh_nodes ?os ! j = sh_nodes os ! j"
      "sh_node_count ?os = sh_node_count os"
    using size by (simp_all add: set_node_def)
  have tail: "is_tail (sh_nodes ?os ! j) \<longleftrightarrow> is_tail (sh_nodes os ! j)" for j
    using nd i(2) by (cases "j = i") (auto simp: is_tail_def)
  have ok: "length ch = 16" "length (P i) < 40" "link_ok P None os i b (ch ! b)" if "b < 16" for b
    using inv i that by (auto simp: trie_inv_def inner_ok_def)
  have m: "nat \<bar>ch ! c\<bar> = m" "m < sh_node_count os" "P m = P i @ [int c]"
    using ok(3) [OF c(1)] c(2) by (auto simp: link_ok_def m_def)
  have only: "j = i \<and> b = c" if "j < sh_node_count os" "nat \<bar>k\<bar> = m" "link_ok P None os j b k" "k \<noteq> 0" for j b k
  proof -
    have "P j @ [int b] = P i @ [int c]" using that m by (simp add: link_ok_def)
    then show ?thesis using inv that(1) i(1) by (auto simp: trie_inv_def inj_on_def)
  qed
  have inner: "inner_ok P (Some m) ?os"
    unfolding inner_ok_def nd(3)
  proof (intro allI impI)
    fix j ch' assume j: "j < sh_node_count os" "sh_nodes ?os ! j = Children ch'"
    show "length ch' = 16 \<and> length (P j) < 40 \<and> (\<forall>b < 16. link_ok P (Some m) ?os j b (ch' ! b))"
    proof (cases "j = i")
      case True
      have "link_ok P (Some m) ?os i b (ch[c := - (ch ! c)] ! b)" if "b < 16" for b
      proof (cases "b = c")
        case True
        then show ?thesis using m c ok(1) [OF c(1)] by (simp add: link_ok_def nd(3))
      next
        case False
        then show ?thesis
          using ok(3) [OF that] only [OF i(1) _ ok(3) [OF that]] by (auto simp: link_ok_def nd(3) tail)
      qed
      then show ?thesis using True j nd(1) ok(1,2) [OF c(1)] by auto
    next
      case False
      have "link_ok P (Some m) ?os j b (ch' ! b)" if "b < 16" for b
      proof -
        have l: "link_ok P None os j b (ch' ! b)"
          using inv j that nd(2) [OF False] by (simp add: trie_inv_def inner_ok_def)
        then show ?thesis using only [OF j(1) _ l] False by (auto simp: link_ok_def nd(3) tail)
      qed
      then show ?thesis using inv j nd(2) [OF False] by (simp add: trie_inv_def inner_ok_def)
    qed
  qed
  have same: "sh_nodes ?os ! j = Tail u \<longleftrightarrow> sh_nodes os ! j = Tail u" for j u
    using nd i(2) by (cases "j = i") auto
  have tails: "tails_ok P ?os" using inv by (auto simp: trie_inv_def tails_ok_def nd(3) same)
  have linked: "linked ?os"
    unfolding linked_def nd(3)
  proof (intro allI impI)
    fix j assume "j < sh_node_count os" "0 < j"
    then obtain a ch' b where a: "a < sh_node_count os" "b < 16" "sh_nodes os ! a = Children ch'" "ch' ! b \<noteq> 0" "nat \<bar>ch' ! b\<bar> = j"
      using inv unfolding trie_inv_def linked_def by blast
    show "\<exists>a < sh_node_count os. \<exists>ch b. b < 16 \<and> sh_nodes ?os ! a = Children ch \<and> ch ! b \<noteq> 0 \<and> nat \<bar>ch ! b\<bar> = j"
    proof (cases "a = i")
      case True
      then show ?thesis
        using a i nd(1) c ok(1) [OF c(1)]
        by (intro exI [of _ i] conjI exI [of _ "ch[c := - (ch ! c)]"] exI [of _ b]) (auto simp: nth_list_update)
    next
      case False
      then show ?thesis using a nd(2) by (intro exI [of _ a] conjI exI [of _ ch'] exI [of _ b]) simp_all
    qed
  qed
  show "trie_inv P U (Some (nat (- (ch ! c)))) ?os"
    using inv inner tails linked tail [of 0]
    by (auto simp: trie_inv_def size_ok_def covered_def set_node_def m_def [symmetric])
  show "leaf_strs P ?os = leaf_strs P os" by (auto simp: leaf_strs_def nd(3) same)
qed

lemma drop_pend:
  assumes "trie_inv P U (Some i) os" and "40 \<le> length (P i)"
  shows "trie_inv P U None os"
proof -
  have "link_ok P None os j b k" if "link_ok P (Some i) os j b k" for j b k
    using that assms(2) by (auto simp: link_ok_def)
  then have "inner_ok P None os" using assms(1) by (auto simp: trie_inv_def inner_ok_def)
  then show ?thesis using assms(1) by (simp add: trie_inv_def)
qed


text \<open>How far a string agrees with the set: the position at which the walk ends.\<close>

definition shared_upto :: "int list set \<Rightarrow> int list \<Rightarrow> nat \<Rightarrow> bool" where
  "shared_upto S T e \<longleftrightarrow> e \<le> 40 \<and> (e = 0 \<or> (\<exists>s\<in>S. take e s = take e T)) \<and>
     (e < 40 \<longrightarrow> (\<forall>s\<in>S. take (Suc e) s \<noteq> take (Suc e) T))"

lemma take_prefix: "prefix (take n xs) s \<Longrightarrow> n \<le> length xs \<Longrightarrow> take n s = take n xs"
  by (auto elim!: prefixE)

lemma prefix_take: "take n s = take n xs \<Longrightarrow> prefix (take n xs) s"
  by (metis take_is_prefix)

lemma shared_gap:
  assumes inv: "trie_inv P S None os" and S: "leaf_strs P os = S" and i: "i < sh_node_count os" "sh_nodes os ! i = Children ch"
    and c: "c < 16" "ch ! c = 0" and T: "P i = take d T" "length T = 40" "d < 40" "T ! d = int c"
  shows "shared_upto S T d"
proof -
  have "\<exists>s\<in>S. take d s = take d T" if "d \<noteq> 0"
  proof -
    have "length (P i) = d" "P 0 = []" using T inv by (simp_all add: trie_inv_def)
    then have "i \<noteq> 0" using that by (cases i) auto
    then obtain s where "s \<in> S" "prefix (P i) s" using inv i(1) by (auto simp: trie_inv_def covered_def)
    then show ?thesis using take_prefix [of d T s] T by auto
  qed
  moreover have "take (Suc d) s \<noteq> take (Suc d) T" if "s \<in> S" for s
    using no_child [OF inv i c, of s] that S T prefix_take [of "Suc d" s T] by (auto simp: take_Suc_conv_app_nth)
  ultimately show ?thesis using T(3) by (auto simp: shared_upto_def)
qed

text \<open>What the loop leaves: a full set, or the trie of one string more.\<close>

definition walk_ok :: "int list \<Rightarrow> int list set \<Rightarrow> int \<Rightarrow> git_oid_shorten + nat \<times> git_oid_shorten \<Rightarrow> bool" where
  "walk_ok T S mn res \<longleftrightarrow>
     (case res of
        Inl os' \<Rightarrow> sh_full os'
      | Inr (e, os') \<Rightarrow> (\<exists>P'. trie_inv P' (insert T S) None os' \<and> leaf_strs P' os' = insert T S) \<and>
          sh_min_length os' = mn \<and> shared_upto S T e)"

lemma shorten_loop_ok:
  assumes "good_alloc al" and "total_alloc al" and "n \<le> 40"
    and "trie_inv P S (if is_leaf then Some i else None) os" and "leaf_strs P os = S" and "i < sh_node_count os"
    and "P i = take (40 - n) T" and "length T = 40" and "\<forall>x\<in>set T. 0 \<le> x" and "n \<le> length text" and "digits (take n text) = drop (40 - n) T"
    and "0 < n \<longrightarrow> (is_leaf \<longleftrightarrow> is_tail (sh_nodes os ! i))"
  shows "\<exists>res. shorten_loop al n os text is_leaf (int i) = Some res \<and>
    walk_ok T S (sh_min_length os) res"
  using assms
proof (induction n arbitrary: P is_leaf i os "text")
  case 0
  note prems0 = 0
  have inv: "trie_inv P S None os"
    using prems0(4,7,8) drop_pend [of P S i os] by (cases is_leaf) auto
  have "\<not> (\<exists>ch. sh_nodes os ! i = Children ch)"
    using inv prems0(6,7,8) by (auto simp: trie_inv_def inner_ok_def)
  then obtain t where "sh_nodes os ! i = Tail t" by (cases "sh_nodes os ! i") auto
  then have "T \<in> leaf_strs P os"
    unfolding leaf_strs_def using prems0(6,7,8) by (intro CollectI exI [of _ i] exI [of _ t]) (simp add: digits_def)
  then have T: "T \<in> S" using prems0(5) by simp
  have "insert T S = S" using T by auto
  then show ?case using inv prems0(5) T by (auto simp: shared_upto_def walk_ok_def)
next
  case (Suc n)
  define d where "d = 39 - n"
  have d: "40 - Suc n = d" "d < 40" "40 - n = Suc d" "n = 39 - d" using Suc.prems(3) by (auto simp: d_def)
  note al = Suc.prems(1,2) and Pi = Suc.prems(7) [unfolded d(1)] and T = Suc.prems(8,9)
  obtain x u where tx: "text = x # u" "n \<le> length u" using Suc.prems(10) by (cases "text") auto
  have "git__fromhex x # digits (take n u) = T ! d # drop (Suc d) T"
    using Suc.prems(11) T(1) d(1,2) by (simp add: Cons_nth_drop_Suc tx digits_def)
  then have dT: "git__fromhex x = T ! d" "digits (take n u) = drop (Suc d) T" by simp_all
  define c where "c = nat (T ! d)"
  have c: "git__fromhex x = int c" "T ! d = int c" "c < 16"
    using fromhex_range [of x] T d(2) dT(1) nth_mem [of d T] by (auto simp: c_def)
  have P_len: "length (P i) = d" using Pi T(1) d(2) by simp
  have "\<exists>ok os1. (if is_leaf then split_leaf al os (int i) else Some (True, os)) = Some (ok, os1) \<and> (\<not> ok \<longrightarrow> sh_full os1) \<and>
    (ok \<longrightarrow> (\<exists>P1 ch. trie_inv P1 S None os1 \<and> leaf_strs P1 os1 = S \<and> P1 i = take d T \<and> i < sh_node_count os1 \<and>
      sh_nodes os1 ! i = Children ch \<and> sh_min_length os1 = sh_min_length os))"
  proof (cases is_leaf)
    case True
    then obtain t where t: "sh_nodes os ! i = Tail t" using Suc.prems(12) by (auto simp: is_tail_def)
    have inv: "trie_inv P S (Some i) os" using Suc.prems(4) True by simp
    have "length (P i) < 40" using P_len d(2) by simp
    from split_leaf_ok [OF al inv Suc.prems(5,6) t this]
    obtain ok os1 where r: "split_leaf al os (int i) = Some (ok, os1)" "\<not> ok \<longrightarrow> sh_full os1"
        "ok \<longrightarrow> (\<exists>P' ch. trie_inv P' S None os1 \<and> leaf_strs P' os1 = S \<and> (\<forall>j < sh_node_count os. P' j = P j) \<and>
          sh_node_count os < sh_node_count os1 \<and> sh_nodes os1 ! i = Children ch \<and> sh_min_length os1 = sh_min_length os)"
      by blast
    have "ok \<longrightarrow> (\<exists>P1 ch. trie_inv P1 S None os1 \<and> leaf_strs P1 os1 = S \<and> P1 i = take d T \<and> i < sh_node_count os1 \<and>
      sh_nodes os1 ! i = Children ch \<and> sh_min_length os1 = sh_min_length os)"
      using r(3) Pi Suc.prems(6) by (metis less_trans)
    then show ?thesis using r(1,2) True by auto
  next
    case False
    then obtain ch where "sh_nodes os ! i = Children ch" using Suc.prems(12) by (cases "sh_nodes os ! i") (auto simp: is_tail_def)
    then show ?thesis using False Suc.prems(4-6) Pi by auto
  qed
  then obtain ok os1 where first: "(if is_leaf then split_leaf al os (int i) else Some (True, os)) = Some (ok, os1)" "\<not> ok \<longrightarrow> sh_full os1"
      "ok \<longrightarrow> (\<exists>P1 ch. trie_inv P1 S None os1 \<and> leaf_strs P1 os1 = S \<and> P1 i = take d T \<and> i < sh_node_count os1 \<and>
        sh_nodes os1 ! i = Children ch \<and> sh_min_length os1 = sh_min_length os)"
    by blast
  show ?case
  proof (cases ok)
    case False
    then show ?thesis using first(1,2) c by (simp add: tx walk_ok_def)
  next
    case True
    then obtain P1 ch where P1: "trie_inv P1 S None os1" "leaf_strs P1 os1 = S" "P1 i = take d T" "i < sh_node_count os1"
        "sh_nodes os1 ! i = Children ch" "sh_min_length os1 = sh_min_length os"
      using first(3) by blast
    have len1: "i < length (sh_nodes os1)" using P1(1,4) by (simp add: trie_inv_def size_ok_def)
    have link: "link_ok P1 None os1 i c (ch ! c)" using P1(1,4,5) c(3) by (simp add: trie_inv_def inner_ok_def)
    have step: "shorten_loop al (Suc n) os text is_leaf (int i) =
        (let k = ch ! c in
         if k = 0 then
           (case push_leaf al os1 (int i) (int c) u of
              None \<Rightarrow> None
            | Some (False, os2) \<Rightarrow> Some (Inl os2)
            | Some (True, os2) \<Rightarrow> Some (Inr (d, os2)))
         else if k < 0 then shorten_loop al n (set_node os1 (int i) (Children (ch[c := - k]))) u True (- k)
         else shorten_loop al n os1 u False k)"
      unfolding d(1) [symmetric] using first(1) True P1(5) len1 c(1) by (simp add: tx node_children_def Let_def)
    consider (gap) "ch ! c = 0" | (leaf) "ch ! c < 0" | (node) "0 < ch ! c" by linarith
    then show ?thesis
    proof cases
      case gap
      have u: "39 - length (P1 i) \<le> length u" "\<forall>x\<in>set (digits (take (39 - length (P1 i)) u)). 0 \<le> x"
        using tx(2) P1(3) T d dT(2) by (auto dest: in_set_dropD)
      have new: "P1 i @ int c # digits (take (39 - length (P1 i)) u) = T"
        using P1(3) T(1) d dT(2) c(2) id_take_nth_drop [of d T] by simp
      from push_leaf_ok [OF al P1(1,4,5) c(3) gap u]
      obtain ok2 os2 where r: "push_leaf al os1 (int i) (int c) u = Some (ok2, os2)" "\<not> ok2 \<longrightarrow> sh_full os2"
          "ok2 \<longrightarrow> (let P' = P1(sh_node_count os1 := P1 i @ [int c]) in
             trie_inv P' (insert T S) None os2 \<and> leaf_strs P' os2 = insert T S \<and>
             sh_node_count os2 = sh_node_count os1 + 1 \<and> sh_nodes os2 ! i = Children (ch[c := - int (sh_node_count os1)]) \<and>
             sh_min_length os2 = sh_min_length os1)"
        unfolding new P1(2) by blast
      have "shared_upto S T d" by (rule shared_gap [OF P1(1,2,4,5) c(3) gap P1(3) T(1) d(2) c(2)])
      then show ?thesis
        using r P1(6) unfolding step by (cases ok2) (auto simp: gap Let_def walk_ok_def)
    next
      case leaf
      define m where "m = nat (- (ch ! c))"
      let ?os = "set_node os1 (int i) (Children (ch[c := - (ch ! c)]))"
      have m: "- (ch ! c) = int m" using leaf by (simp add: m_def)
      note mark = mark_child [OF P1(1,4,5) c(3) leaf, folded m_def]
      have P1m: "m < sh_node_count os1" "P1 m = take (Suc d) T" "d < 39 \<longrightarrow> is_tail (sh_nodes os1 ! m)"
        using link leaf P1(3) T(1) d(2) c(2) by (auto simp: link_ok_def m_def take_Suc_conv_app_nth)
      have "m \<noteq> i" using P1m(2) P1(3) T(1) d(2) by (metis length_take min.absorb4 less_imp_le min.absorb2 n_not_Suc_n Suc_leI)
      have "shorten_loop al (Suc n) os text is_leaf (int i) = shorten_loop al n ?os u True (int m)"
        unfolding step using leaf m by (simp add: Let_def)
      moreover have "sh_min_length ?os = sh_min_length os" using P1(6) by (simp add: set_node_def)
      moreover have "\<exists>res. shorten_loop al n ?os u True (int m) = Some res \<and>
        walk_ok T S (sh_min_length ?os) res"
        using mark P1 P1m d T tx(2) dT(2) Suc.prems(3) \<open>m \<noteq> i\<close>
        by (intro Suc.IH [of P1 True m] al) (auto simp: set_node_def)
      ultimately show ?thesis by (simp del: shorten_loop.simps)
    next
      case node
      define m where "m = nat (ch ! c)"
      have m: "ch ! c = int m" using node by (simp add: m_def)
      have P1m: "m < sh_node_count os1" "P1 m = take (Suc d) T" "d < 39 \<longrightarrow> \<not> is_tail (sh_nodes os1 ! m)"
        using link node P1(3) T(1) d(2) c(2) by (auto simp: link_ok_def m_def take_Suc_conv_app_nth)
      have "shorten_loop al (Suc n) os text is_leaf (int i) = shorten_loop al n os1 u False (int m)"
        unfolding step using node m by (simp add: Let_def)
      moreover have "\<exists>res. shorten_loop al n os1 u False (int m) = Some res \<and>
        walk_ok T S (sh_min_length os1) res"
        using P1 P1m d T tx(2) dT(2) Suc.prems(3)
        by (intro Suc.IH [of P1 False m] al) auto
      ultimately show ?thesis using P1(6) by (simp del: shorten_loop.simps)
    qed
  qed
qed


section \<open>The shortest unique length\<close>

definition hex40 :: "byte list \<Rightarrow> bool" where
  "hex40 t \<longleftrightarrow> 40 \<le> length t \<and> (\<forall>x\<in>set (take 40 t). 0 \<le> git__fromhex x)"

definition oid_digits :: "byte list \<Rightarrow> int list" where
  "oid_digits t = digits (take 40 t)"

fun add_all :: "trie_node allocator \<Rightarrow> git_oid_shorten \<Rightarrow> byte list list \<Rightarrow> (int \<times> git_oid_shorten) option" where
  "add_all al os [] = git_oid_shorten_add al os None"
| "add_all al os (t # ts) = do {
     (r, os') \<leftarrow> git_oid_shorten_add al os (Some t);
     if r < 0 then Some (r, os') else add_all al os' ts }"

text \<open>Prefixes of length \<open>n\<close> tell the strings apart; no length below 41 does so for equal strings.\<close>

definition unique_at :: "nat \<Rightarrow> int list list \<Rightarrow> bool" where
  "unique_at n xs \<longleftrightarrow> 41 \<le> n \<or> distinct (map (take n) xs)"

definition least_unique :: "nat \<Rightarrow> int list list \<Rightarrow> int \<Rightarrow> bool" where
  "least_unique mn xs r \<longleftrightarrow> (\<forall>n. r \<le> int n \<longleftrightarrow> mn \<le> n \<and> (xs \<noteq> [] \<longrightarrow> 1 \<le> n) \<and> unique_at n xs)"

lemma shared_unique:
  assumes "shared_upto (set xs) T e" and "1 \<le> n"
  shows "unique_at n (T # xs) \<longleftrightarrow> unique_at n xs \<and> e + 1 \<le> n"
proof (cases "e + 1 \<le> n")
  case True
  have "take n T \<noteq> take n s" if "s \<in> set xs" "n \<le> 40" for s
  proof
    assume "take n T = take n s"
    then have "take (Suc e) (take n T) = take (Suc e) (take n s)" by simp
    then show False using assms(1) that True by (auto simp: shared_upto_def min_def split: if_splits)
  qed
  then have "n \<le> 40 \<Longrightarrow> take n T \<notin> take n ` set xs" by blast
  then show ?thesis using True by (auto simp: unique_at_def)
next
  case False
  then obtain s where s: "s \<in> set xs" "take e s = take e T" "n \<le> e" "e \<le> 40"
    using assms by (auto simp: shared_upto_def)
  then have "take n (take e s) = take n (take e T)" by simp
  then have "take n T \<in> take n ` set xs" using s by (metis image_eqI min.absorb1 take_take)
  then show ?thesis using s False by (auto simp: unique_at_def)
qed

lemma add_step:
  assumes al: "good_alloc al" "total_alloc al" and inv: "trie_inv P (set xs) None os" "leaf_strs P os = set xs"
    and t: "hex40 t" and least: "least_unique mn xs (sh_min_length os)" "0 \<le> sh_min_length os"
  shows "\<exists>r os'. git_oid_shorten_add al os (Some t) = Some (r, os') \<and>
    (r = -1 \<and> sh_full os' \<or> 0 \<le> r \<and> r = sh_min_length os' \<and> (\<exists>P'. trie_inv P' (set (oid_digits t # xs)) None os' \<and>
      leaf_strs P' os' = set (oid_digits t # xs)) \<and> least_unique mn (oid_digits t # xs) (sh_min_length os'))"
proof -
  have full: "\<not> sh_full os" using inv(1) by (simp add: trie_inv_def size_ok_def)
  have T: "length (oid_digits t) = 40" "\<forall>x\<in>set (oid_digits t). 0 \<le> x" "40 \<le> length t" "digits (take 40 t) = drop 0 (oid_digits t)"
    using t by (auto simp: hex40_def oid_digits_def digits_def)
  have "\<exists>res. shorten_loop al 40 os t False (int 0) = Some res \<and> walk_ok (oid_digits t) (set xs) (sh_min_length os) res"
    using inv T by (intro shorten_loop_ok [OF al, where P = P]) (auto simp: trie_inv_def size_ok_def)
  then obtain res where res: "shorten_loop al 40 os t False 0 = Some res" "walk_ok (oid_digits t) (set xs) (sh_min_length os) res"
    by auto
  show ?thesis
  proof (cases res)
    case (Inl os')
    then show ?thesis using res full by (auto simp: git_oid_shorten_add_def walk_ok_def)
  next
    case (Inr p)
    then obtain e os1 P' where e: "res = Inr (e, os1)" "trie_inv P' (insert (oid_digits t) (set xs)) None os1"
        "leaf_strs P' os1 = insert (oid_digits t) (set xs)" "sh_min_length os1 = sh_min_length os" "shared_upto (set xs) (oid_digits t) e"
      using res(2) by (cases p) (auto simp: walk_ok_def)
    define r where "r = max (sh_min_length os) (int (e + 1))"
    define os' where "os' = os1\<lparr>sh_min_length := r\<rparr>"
    have "git_oid_shorten_add al os (Some t) = Some (r, os')"
      using res(1) e(1,4) full by (cases os1) (auto simp: git_oid_shorten_add_def os'_def r_def max_def Let_def simp del: shorten_loop.simps)
    moreover have "trie_inv P' (set (oid_digits t # xs)) None os'" "leaf_strs P' os' = set (oid_digits t # xs)"
      using e(2,3) by (simp_all add: os'_def trie_inv_def size_ok_def inner_ok_def link_ok_def tails_ok_def linked_def covered_def leaf_strs_def)
    moreover have "least_unique mn (oid_digits t # xs) r"
      unfolding least_unique_def
    proof
      fix n
      have old: "sh_min_length os \<le> int n \<longleftrightarrow> mn \<le> n \<and> (xs \<noteq> [] \<longrightarrow> 1 \<le> n) \<and> unique_at n xs"
        using least(1) unfolding least_unique_def by (rule spec)
      have "r \<le> int n \<longleftrightarrow> sh_min_length os \<le> int n \<and> e + 1 \<le> n" by (auto simp: r_def)
      also have "\<dots> \<longleftrightarrow> mn \<le> n \<and> unique_at n xs \<and> e + 1 \<le> n" unfolding old by auto
      also have "\<dots> \<longleftrightarrow> mn \<le> n \<and> (oid_digits t # xs \<noteq> [] \<longrightarrow> 1 \<le> n) \<and> unique_at n (oid_digits t # xs)"
        using shared_unique [OF e(5), of n] by (cases n) auto
      finally show "r \<le> int n \<longleftrightarrow> mn \<le> n \<and> (oid_digits t # xs \<noteq> [] \<longrightarrow> 1 \<le> n) \<and> unique_at n (oid_digits t # xs)" .
    qed
    ultimately show ?thesis using least(2) by (auto simp: os'_def r_def)
  qed
qed

lemma add_all_ok:
  assumes "good_alloc al" "total_alloc al" and "trie_inv P (set xs) None os" "leaf_strs P os = set xs"
    and "\<forall>t\<in>set ts. hex40 t" and "least_unique mn xs (sh_min_length os)" "0 \<le> sh_min_length os"
  shows "\<exists>r os'. add_all al os ts = Some (r, os') \<and>
    (r = -1 \<and> sh_full os' \<or> least_unique mn (rev (map oid_digits ts) @ xs) r)"
  using assms(3-)
proof (induction ts arbitrary: P xs os)
  case Nil
  then show ?case by (auto simp: git_oid_shorten_add_def trie_inv_def size_ok_def)
next
  case (Cons t ts)
  have "hex40 t" using Cons.prems(3) by simp
  from add_step [OF assms(1,2) Cons.prems(1,2) this Cons.prems(4,5)]
  obtain r os1 where r: "git_oid_shorten_add al os (Some t) = Some (r, os1)"
      "r = -1 \<and> sh_full os1 \<or> 0 \<le> r \<and> r = sh_min_length os1 \<and> (\<exists>P'. trie_inv P' (set (oid_digits t # xs)) None os1 \<and>
        leaf_strs P' os1 = set (oid_digits t # xs)) \<and> least_unique mn (oid_digits t # xs) (sh_min_length os1)"
    by blast
  then show ?case
  proof (cases "r = -1")
    case False
    then obtain P' where "0 \<le> r" "r = sh_min_length os1" "trie_inv P' (set (oid_digits t # xs)) None os1"
        "leaf_strs P' os1 = set (oid_digits t # xs)" "least_unique mn (oid_digits t # xs) (sh_min_length os1)"
      using r(2) by auto
    then show ?thesis using Cons.IH [of P' "oid_digits t # xs" os1] Cons.prems(3) r(1) by simp
  qed auto
qed

definition fresh_trie :: "nat \<Rightarrow> git_oid_shorten" where
  "fresh_trie mn = \<lparr>sh_nodes = replicate 16 zero_node, sh_node_count = 1, sh_size = 16, sh_min_length = int mn, sh_full = False\<rparr>"

lemma git_oid_shorten_new_eq:
  "cal 32 \<noteq> None \<Longrightarrow> al 16 \<noteq> None \<Longrightarrow> mn < 2 ^ 31 \<Longrightarrow> git_oid_shorten_new cal al mn = Some (Some (fresh_trie mn))"
proof -
  assume "cal 32 \<noteq> None" "al 16 \<noteq> None" "mn < 2 ^ 31"
  moreover from this(3) have "int32 (int mn) = int mn" by (simp add: int32_def)
  ultimately show ?thesis
    by (auto simp: git_oid_shorten_new_def resize_trie_def mul_sizet_def SIZE_MAX_def realloc_cells_def fresh_trie_def)
qed

lemma fresh_trie_inv: "trie_inv (\<lambda>_. []) (set []) None (fresh_trie mn)" "leaf_strs (\<lambda>_. []) (fresh_trie mn) = set []"
  by (auto simp: trie_inv_def size_ok_def inner_ok_def link_ok_def tails_ok_def linked_def covered_def leaf_strs_def fresh_trie_def
      SHRT_MAX_def is_tail_def zero_node_def lessThan_Suc)

section \<open>When the set is full\<close>

text \<open>Every level of the trie takes at most one new node, so adding an id takes at most forty.\<close>

definition grown :: "git_oid_shorten \<Rightarrow> git_oid_shorten \<Rightarrow> nat \<Rightarrow> bool" where
  "grown os os' k \<longleftrightarrow> sh_node_count os' \<le> sh_node_count os + k \<and> (sh_full os' \<longrightarrow> sh_full os \<or> SHRT_MAX \<le> sh_node_count os')"

lemma push_leaf_grown:
  "push_leaf al os idx p oid = Some (b, os') \<Longrightarrow> grown os os' 1 \<and> sh_node_count os \<le> sh_node_count os'"
  by (auto simp: push_leaf_def resize_trie_def set_node_def grown_def Let_def split: if_splits option.splits bind_splits prod.splits)

lemma set_node_count [simp]: "sh_node_count (set_node os idx x) = sh_node_count os" "sh_full (set_node os idx x) = sh_full os"
  by (simp_all add: set_node_def)

lemma split_leaf_grown:
  "split_leaf al os idx = Some (b, os') \<Longrightarrow> grown os os' 1 \<and> sh_node_count os \<le> sh_node_count os'"
  using push_leaf_grown [of al "set_node os idx zero_node" idx]
  by (fastforce simp: split_leaf_def grown_def split: if_splits trie_node.splits)

lemma shorten_loop_grown:
  "shorten_loop al n os str is_leaf idx = Some res \<Longrightarrow>
    (let os' = (case res of Inl os' \<Rightarrow> os' | Inr (_, os') \<Rightarrow> os') in
     grown os os' (n + (if is_leaf then 1 else 0)) \<and> sh_node_count os \<le> sh_node_count os')"
proof (induction al n os str is_leaf idx arbitrary: res rule: shorten_loop.induct)
  case (1 al os str is_leaf idx)
  then show ?case by (auto simp: grown_def)
next
  case (2 al n os str is_leaf idx)
  let ?c = "git__fromhex (peek str)"
  show ?case
  proof (cases "?c = -1")
    case True
    then show ?thesis using "2.prems" by (auto simp: grown_def)
  next
    case c: False
    obtain b os1 where split: "(if is_leaf then split_leaf al os idx else Some (True, os)) = Some (b, os1)"
      using "2.prems" c by (auto simp: Let_def split: option.splits if_splits)
    have g1: "grown os os1 (if is_leaf then 1 else 0)" "sh_node_count os \<le> sh_node_count os1"
      using split split_leaf_grown [of al os idx b os1] by (auto simp: grown_def split: if_splits)
    show ?thesis
    proof (cases b)
      case False
      then show ?thesis using "2.prems" c split g1 by (auto simp: grown_def)
    next
      case b: True
      obtain ch where ch: "node_children os1 idx = Some ch"
        using "2.prems" c split b by (auto simp: Let_def split: option.splits)
      define k where "k = ch ! nat ?c"
      have eq: "shorten_loop al (Suc n) os str is_leaf idx = (if k = 0 then
            (case push_leaf al os1 idx ?c (tl str) of
               None \<Rightarrow> None | Some (False, os2) \<Rightarrow> Some (Inl os2) | Some (True, os2) \<Rightarrow> Some (Inr (GIT_OID_HEXSZ - Suc n, os2)))
          else if k < 0 then shorten_loop al n (set_node os1 idx (Children (ch[nat ?c := - k]))) (tl str) True (- k)
          else shorten_loop al n os1 (tl str) False k)"
        using c split b ch by (simp add: Let_def k_def)
      consider "k = 0" | "k < 0" | "k > 0" by linarith
      then show ?thesis
      proof cases
        case 1
        then obtain q os2 where "push_leaf al os1 idx ?c (tl str) = Some (q, os2)" "res = Inl os2 \<or> (\<exists>i. res = Inr (i, os2))"
          using "2.prems" unfolding eq by (auto split: option.splits bool.splits)
        then show ?thesis using push_leaf_grown [of al os1 idx ?c "tl str" q os2] g1
          by (auto simp: Let_def grown_def split: if_splits)
      next
        case 2
        have "shorten_loop al n (set_node os1 idx (Children (ch[nat ?c := - k]))) (tl str) True (- k) = Some res"
          using "2.prems" 2 unfolding eq by simp
        with "2.IH"(1) [OF refl c split refl eqTrueI [OF b] ch refl] 2 show ?thesis
          using g1 by (fastforce simp: k_def Let_def grown_def split: if_splits)
      next
        case 3
        have "shorten_loop al n os1 (tl str) False k = Some res"
          using "2.prems" 3 unfolding eq by simp
        with "2.IH"(2) [OF refl c split refl eqTrueI [OF b] ch refl] 3 show ?thesis
          using g1 by (fastforce simp: k_def Let_def grown_def split: if_splits)
      qed
    qed
  qed
qed

lemma add_all_grown:
  "add_all al os ts = Some (r, os') \<Longrightarrow> grown os os' (40 * length ts) \<and> sh_node_count os \<le> sh_node_count os'"
proof (induction ts arbitrary: os)
  case Nil
  then show ?case by (auto simp: git_oid_shorten_add_def grown_def split: if_splits)
next
  case (Cons t ts)
  then obtain r1 os1 where a: "git_oid_shorten_add al os (Some t) = Some (r1, os1)"
    and rest: "(if r1 < 0 then Some (r1, os1) else add_all al os1 ts) = Some (r, os')" by (auto split: bind_splits)
  have "grown os os1 40 \<and> sh_node_count os \<le> sh_node_count os1"
  proof (cases "sh_full os")
    case False
    then obtain res where res: "shorten_loop al 40 os t False 0 = Some res"
      using a by (auto simp: git_oid_shorten_add_def simp del: shorten_loop.simps split: bind_splits)
    then show ?thesis
      using a False shorten_loop_grown [OF res]
      by (cases res) (auto simp: git_oid_shorten_add_def grown_def Let_def simp del: shorten_loop.simps split: if_splits)
  qed (use a in \<open>auto simp: git_oid_shorten_add_def grown_def\<close>)
  then show ?case using rest Cons.IH [of os1] by (fastforce simp: grown_def split: if_splits)
qed

text \<open>All the cases, ids added twice included.\<close>

lemma shorten_all:
  assumes "good_alloc al" and "total_alloc al" and "cal 32 \<noteq> None" and "\<forall>t\<in>set ts. hex40 t" and "mn < 2 ^ 31"
  shows "\<exists>os r os'. git_oid_shorten_new cal al mn = Some (Some os) \<and> add_all al os ts = Some (r, os') \<and>
    (r = -1 \<and> sh_full os' \<and> 819 < length ts \<or> least_unique mn (map oid_digits ts) r)"
proof -
  have new: "git_oid_shorten_new cal al mn = Some (Some (fresh_trie mn))"
    using assms(2,3,5) by (intro git_oid_shorten_new_eq) (auto simp: total_alloc_def)
  have "least_unique mn [] (sh_min_length (fresh_trie mn))" "0 \<le> sh_min_length (fresh_trie mn)"
    by (simp_all add: least_unique_def fresh_trie_def unique_at_def)
  from add_all_ok [OF assms(1,2) fresh_trie_inv assms(4) this]
  obtain r os' where r: "add_all al (fresh_trie mn) ts = Some (r, os')" "r = -1 \<and> sh_full os' \<or> least_unique mn (rev (map oid_digits ts)) r"
    by auto
  have "sh_full os' \<Longrightarrow> 819 < length ts" using add_all_grown [OF r(1)] by (auto simp: grown_def fresh_trie_def SHRT_MAX_def)
  moreover have "least_unique mn (rev (map oid_digits ts)) r = least_unique mn (map oid_digits ts) r"
    by (simp add: least_unique_def unique_at_def flip: rev_map)
  ultimately show ?thesis using new r by blast
qed

text \<open>The documentation promises a length that identifies all ids added. For an id that is added twice there is none, and the
  result is greater than the length of an id.\<close>

lemma shorten_duplicate:
  assumes "good_alloc al" and "total_alloc al" and "cal 32 \<noteq> None" and "hex40 t"
  shows "\<exists>os os'. git_oid_shorten_new cal al 7 = Some (Some os) \<and> add_all al os [t, t] = Some (41, os')"
proof -
  define ts where "ts = [t, t]"
  have "\<forall>u\<in>set ts. hex40 u" "(7 :: nat) < 2 ^ 31" using assms(4) by (simp_all add: ts_def)
  from shorten_all [where cal = cal, OF assms(1-3) this] obtain os r os' where r: "git_oid_shorten_new cal al 7 = Some (Some os)" "add_all al os ts = Some (r, os')"
    "r = -1 \<and> sh_full os' \<and> 819 < length ts \<or> least_unique 7 (map oid_digits ts) r"
    by (elim exE conjE) (erule (2) that)
  have same: "unique_at n (map oid_digits ts) \<longleftrightarrow> 41 \<le> n" for n by (simp add: unique_at_def ts_def)
  from r(3) have least: "least_unique 7 (map oid_digits ts) r" by (simp add: ts_def)
  have le: "r \<le> int n \<longleftrightarrow> 41 \<le> n" for n
    using spec [OF least [unfolded least_unique_def same], of n] by linarith
  from le [of 41] le [of 40] have "r = 41" by simp
  then show ?thesis using r(1,2) unfolding ts_def by blast
qed

text \<open>C16: Adding the texts of object ids, no id twice, one by one to a set with a minimal length in the range of \<open>int\<close> never
  leaves the array and returns the least length, not below the given minimum, at which the prefixes of all ids added are different.
  With more than 819 ids it may report instead that the set is full.\<close>

theorem git_oid_shorten_least:
  assumes "good_alloc al" and "total_alloc al" and "cal 32 \<noteq> None" and "mn < 2 ^ 31"
    and "\<forall>t\<in>set ts. hex40 t" and "distinct (map oid_digits ts)"
  shows "\<exists>os r os'. git_oid_shorten_new cal al mn = Some (Some os) \<and> add_all al os ts = Some (r, os') \<and>
    (r = -1 \<and> sh_full os' \<and> 819 < length ts \<or>
     (\<forall>n. r \<le> int n \<longleftrightarrow> mn \<le> n \<and> (ts \<noteq> [] \<longrightarrow> 1 \<le> n) \<and> distinct (map (\<lambda>t. take n (oid_digits t)) ts)))"
proof -
  have long: "distinct (map (\<lambda>t. take n (oid_digits t)) ts)" if "41 \<le> n" for n
  proof -
    have "map (\<lambda>t. take n (oid_digits t)) ts = map oid_digits ts"
      using that assms(5) by (intro map_cong refl) (auto simp: hex40_def oid_digits_def digits_def)
    then show ?thesis using assms(6) by (rule ssubst)
  qed
  obtain os r os' where "git_oid_shorten_new cal al mn = Some (Some os)" "add_all al os ts = Some (r, os')"
    "r = -1 \<and> sh_full os' \<and> 819 < length ts \<or> least_unique mn (map oid_digits ts) r"
    using shorten_all [of al cal ts mn] assms(1-5) by blast
  then show ?thesis using long by (auto simp: least_unique_def unique_at_def o_def)
qed

definition shorten_sample :: "byte list list" where
  "shorten_sample = [replicate 40 48, replicate 3 48 @ replicate 37 49]"

theorem git_oid_shorten_least_witness:
  "\<exists>os r os'. git_oid_shorten_new (fill_alloc 0) (fill_alloc zero_node) 0 = Some (Some os) \<and>
    add_all (fill_alloc zero_node) os shorten_sample = Some (r, os') \<and>
    (r = -1 \<and> sh_full os' \<and> 819 < length shorten_sample \<or>
     (\<forall>n. r \<le> int n \<longleftrightarrow> 0 \<le> n \<and> (shorten_sample \<noteq> [] \<longrightarrow> 1 \<le> n) \<and>
        distinct (map (\<lambda>t. take n (oid_digits t)) shorten_sample)))"
proof (rule git_oid_shorten_least)
  show "\<forall>t\<in>set shorten_sample. hex40 t"
    by (simp add: shorten_sample_def hex40_def git__fromhex_def from_hex_def nth_append)
  show "distinct (map oid_digits shorten_sample)" by code_simp
qed (simp_all add: fill_alloc_def)

text \<open>An invalid character met while a leaf is being entered is reported, but leaves the leaf marked as a normal node: the next valid id
  that goes the same way has the code read child indices out of the pointer kept there, which is undefined.\<close>

theorem git_oid_shorten_add_after_error:
  assumes "al 16 \<noteq> None" and "cal 32 \<noteq> None" and "hex40 (a # as)" and "hex40 (b # bs)"
    and "git__fromhex b = git__fromhex a" and "git__fromhex z = -1"
  shows "\<exists>os os1 os2. git_oid_shorten_new cal al 0 = Some (Some os) \<and> git_oid_shorten_add al os (Some (a # as)) = Some (1, os1) \<and>
    git_oid_shorten_add al os1 (Some [a, z]) = Some (-1, os2) \<and> git_oid_shorten_add al os2 (Some (b # bs)) = None"
proof -
  define c where "c = nat (git__fromhex a)"
  have c: "git__fromhex a = int c" "git__fromhex b = int c" "c < 16"
    using assms(3,5) fromhex_range [of a] by (auto simp: hex40_def take_Cons' c_def)
  have two: "git__fromhex (peek bs) \<noteq> -1"
    using assms(4) by (cases bs) (auto simp: hex40_def take_Cons')
  define os1 where "os1 = (fresh_trie 0)\<lparr>sh_nodes := Children ((replicate 16 0)[c := -1]) # Tail as # replicate 14 zero_node,
    sh_node_count := 2, sh_min_length := 1\<rparr>"
  define os2 where "os2 = os1\<lparr>sh_nodes := Children ((replicate 16 0)[c := 1]) # Tail as # replicate 14 zero_node\<rparr>"
  have sixteen: "replicate 16 zero_node = zero_node # zero_node # replicate 14 zero_node" by (simp add: numeral_eq_Suc)
  have forty: "(40 :: nat) = Suc 39" "(39 :: nat) = Suc 38" by simp_all
  have add: "git_oid_shorten_add al os (Some t) = (case shorten_loop al (Suc 39) os t False 0 of
        None \<Rightarrow> None | Some (Inl os') \<Rightarrow> Some (-1, os')
      | Some (Inr (i, os')) \<Rightarrow> (let os'' = (if int (i + 1) > sh_min_length os' then os'\<lparr>sh_min_length := int (i + 1)\<rparr> else os')
          in Some (sh_min_length os'', os'')))"
    if "\<not> sh_full os" for os t
    using that unfolding git_oid_shorten_add_def forty(1) by (simp del: shorten_loop.simps split: option.split sum.split)
  have nodes: "node_children (fresh_trie 0) 0 = Some (replicate 16 0)" "node_children os1 0 = Some ((replicate 16 0)[c := -1])"
      "node_children os2 0 = Some ((replicate 16 0)[c := 1])" "node_children os2 1 = None"
      "\<not> sh_full (fresh_trie 0)" "\<not> sh_full os1" "\<not> sh_full os2"
    by (simp_all add: node_children_def fresh_trie_def os1_def os2_def zero_node_def)
  have push: "push_leaf al (fresh_trie 0) 0 (int c) as = Some (True, os1\<lparr>sh_min_length := 0\<rparr>)"
    using c(3) by (simp add: push_leaf_def fresh_trie_def node_children_def set_node_def node_index_def SHRT_MAX_def zero_node_def
        sixteen [unfolded zero_node_def] os1_def)
  have mark: "set_node os1 0 (Children ((replicate 16 0)[c := 1])) = os2" by (simp add: set_node_def os1_def os2_def)
  have "shorten_loop al (Suc 39) (fresh_trie 0) (a # as) False 0 = Some (Inr (0, os1\<lparr>sh_min_length := 0\<rparr>))"
    unfolding shorten_loop.simps(2) [of al 39] using c push nodes(1) by (simp add: Let_def)
  then have one: "git_oid_shorten_add al (fresh_trie 0) (Some (a # as)) = Some (1, os1)"
    unfolding add [OF nodes(5)] by (simp add: os1_def)
  have bad: "shorten_loop al 39 os2 [z] True 1 = Some (Inl os2)"
    unfolding forty(2) shorten_loop.simps(2) using assms(6) by simp
  have "shorten_loop al (Suc 39) os1 [a, z] False 0 = Some (Inl os2)"
    unfolding shorten_loop.simps(2) [of al 39] using c nodes(2) mark bad by (simp add: Let_def)
  then have err: "git_oid_shorten_add al os1 (Some [a, z]) = Some (-1, os2)"
    unfolding add [OF nodes(6)] by simp
  have bad2: "shorten_loop al 39 os2 bs False 1 = None"
    unfolding forty(2) shorten_loop.simps(2) using two nodes(4) by (simp add: Let_def)
  have "shorten_loop al (Suc 39) os2 (b # bs) False 0 = None"
    unfolding shorten_loop.simps(2) [of al 39] using c nodes(3) bad2 by (simp add: Let_def)
  then have "git_oid_shorten_add al os2 (Some (b # bs)) = None"
    unfolding add [OF nodes(7)] by simp
  moreover have "git_oid_shorten_new cal al 0 = Some (Some (fresh_trie 0))"
    using assms(1,2) by (intro git_oid_shorten_new_eq) simp_all
  ultimately show ?thesis using one err by blast
qed

theorem git_oid_shorten_add_after_error_witness:
  "\<exists>os os1 os2. git_oid_shorten_new (fill_alloc 0) (fill_alloc zero_node) 0 = Some (Some os) \<and>
    git_oid_shorten_add (fill_alloc zero_node) os (Some (48 # replicate 39 49)) = Some (1, os1) \<and>
    git_oid_shorten_add (fill_alloc zero_node) os1 (Some [48, 122]) = Some (-1, os2) \<and>
    git_oid_shorten_add (fill_alloc zero_node) os2 (Some (48 # replicate 39 50)) = None"
  by (rule git_oid_shorten_add_after_error)
    (simp_all add: fill_alloc_def hex40_def git__fromhex_def from_hex_def nth_append take_Cons')

end
