(* ===== verification/BufText.thy ===== *)
theory BufText
  imports BufferEdit "HOL-Library.Sublist"
begin

text \<open>
  The text operations on buffers of buf_text.c: escaping and unescaping,
  line-ending conversion, the common prefix of a list of strings, byte order
  marks and the text statistics.
\<close>

section \<open>The model\<close>

subsection \<open>Pushing bytes and searching\<close>

text \<open>
  \<open>memmove (buf->ptr + buf->size, d, n); buf->size += n\<close>: unlike \<open>buf_append\<close> it writes no NUL.
\<close>

definition buf_push :: "git_buf \<Rightarrow> byte list \<Rightarrow> git_buf option" where
  "buf_push b d = map_option (\<lambda>b'. b'\<lparr>buf_size := buf_size b' + length d\<rparr>) (buf_store b (buf_size b) d)"

text \<open>\<open>memchr\<close>, \<open>strcspn\<close> and \<open>strspn\<close> of the C library.\<close>

definition memchr :: "byte \<Rightarrow> byte list \<Rightarrow> nat option" where
  "memchr c s = (let k = length (takeWhile (\<lambda>x. x \<noteq> c) s) in if k < length s then Some k else None)"

definition strcspn :: "byte list \<Rightarrow> byte list \<Rightarrow> nat" where
  "strcspn s reject = length (takeWhile (\<lambda>c. c \<notin> set (cstr reject)) (cstr s))"

definition strspn :: "byte list \<Rightarrow> byte list \<Rightarrow> nat" where
  "strspn s accept = length (takeWhile (\<lambda>c. c \<in> set (cstr accept)) (cstr s))"

lemma strspn_progress: "peek s \<noteq> 0 \<Longrightarrow> 0 < strcspn s chars + strspn (drop (strcspn s chars) s) chars"
  by (cases s) (auto simp: strcspn_def strspn_def cstr_def)

subsection \<open>Escaping\<close>

text \<open>The two passes of \<open>git_buf_text_puts_escaped\<close>: the length of the output, and the copy.\<close>

function esc_total :: "byte list \<Rightarrow> nat \<Rightarrow> byte list \<Rightarrow> nat \<Rightarrow> nat" where
  "esc_total chars esc_len scan acc =
     (if peek scan = 0 then acc
      else
        let count = strcspn scan chars;
            acc' = (acc + count) mod 2 ^ 64;
            scan' = drop count scan;
            count' = strspn scan' chars
        in esc_total chars esc_len (drop count' scan') ((acc' + count' * (esc_len + 1)) mod 2 ^ 64))"
  by pat_completeness auto
termination
proof (relation "measure (\<lambda>(_, _, scan, _). length scan)", goal_cases)
  case (2 chars esc_len scan acc)
  then show ?case using strspn_progress [of scan chars] by (cases scan) (auto simp: less_diff_conv)
qed simp

declare esc_total.simps [simp del]

fun esc_run :: "byte list \<Rightarrow> nat \<Rightarrow> git_buf \<Rightarrow> byte list \<Rightarrow> (git_buf \<times> byte list) option" where
  "esc_run esc 0 buf scan = Some (buf, scan)"
| "esc_run esc (Suc n) buf scan = do {
     b1 \<leftarrow> buf_push buf esc;
     b2 \<leftarrow> buf_push b1 [peek scan];
     esc_run esc n b2 (tl scan) }"

lemma esc_run_scan: "esc_run esc n buf scan = Some (b, s) \<Longrightarrow> s = drop n scan"
  by (induction esc n buf scan rule: esc_run.induct) (auto simp: drop_Suc split: bind_splits)

function esc_copy :: "byte list \<Rightarrow> byte list \<Rightarrow> git_buf \<Rightarrow> byte list \<Rightarrow> git_buf option" where
  "esc_copy chars esc buf scan =
     (if peek scan = 0 then Some buf
      else
        let count = strcspn scan chars; scan' = drop count scan
        in (case buf_push buf (take count scan) of
              None \<Rightarrow> None
            | Some b1 \<Rightarrow>
                (case esc_run esc (strspn scan' chars) b1 scan' of
                   None \<Rightarrow> None
                 | Some (b2, scan'') \<Rightarrow> esc_copy chars esc b2 scan'')))"
  by pat_completeness auto
termination
proof (relation "measure (\<lambda>(_, _, _, scan). length scan)", goal_cases)
  case (2 chars esc buf scan count scan' b1 p b2 scan'')
  then have "scan'' = drop (strspn scan' chars + count) scan"
    using esc_run_scan [of esc "strspn scan' chars" b1 scan' b2 scan''] by simp
  then show ?case
    using 2 strspn_progress [of scan chars] by (cases scan) auto
qed simp

declare esc_copy.simps [simp del]

definition git_buf_text_puts_escaped ::
  "byte allocator \<Rightarrow> git_buf \<Rightarrow> byte list option \<Rightarrow> byte list \<Rightarrow> byte list \<Rightarrow> (int \<times> git_buf) option" where
  "git_buf_text_puts_escaped al buf string esc_chars esc_with =
     (case string of
        None \<Rightarrow> Some (0, buf)
      | Some str \<Rightarrow>
          alloc_add buf (esc_total esc_chars (cstrlen esc_with) str 0) 1 (\<lambda>alloclen.
            or_fail (git_buf_grow_by al buf alloclen) (\<lambda>b. do {
              b1 \<leftarrow> esc_copy esc_chars (cstr esc_with) b str;
              b2 \<leftarrow> buf_terminate b1;
              Some (0, b2) })))"

definition git_buf_text_puts_escape_regex :: "byte allocator \<Rightarrow> git_buf \<Rightarrow> byte list option \<Rightarrow> (int \<times> git_buf) option" where
  "git_buf_text_puts_escape_regex al buf string =
     git_buf_text_puts_escaped al buf string (bytes_of ''^.[]$()|*+?{}'' @ [92]) [92]"

text \<open>
  \<open>git__unescape\<close> of util.c works in place, with a reading index \<open>scan\<close> and a writing
  index \<open>pos\<close> into the cells of the string; the model stops with \<open>None\<close> when it leaves them.
\<close>

function unesc_loop :: "byte list \<Rightarrow> nat \<Rightarrow> nat \<Rightarrow> (byte list \<times> nat \<times> nat) option" where
  "unesc_loop m scan pos =
     (if length m \<le> scan then None
      else if m ! scan = 0 then Some (m, scan, pos)
      else if m ! scan = 92 \<and> length m \<le> scan + 1 then None
      else
        let scan' = (if m ! scan = 92 \<and> m ! (scan + 1) \<noteq> 0 then scan + 1 else scan);
            m' = (if pos \<noteq> scan' then m[pos := m ! scan'] else m)
        in unesc_loop m' (scan' + 1) (pos + 1))"
  by pat_completeness auto
termination by (relation "measure (\<lambda>(m, scan, _). length m - scan)") (auto simp: Let_def)

declare unesc_loop.simps [simp del]

definition git__unescape :: "byte list option \<Rightarrow> (nat \<times> byte list) option" where
  "git__unescape str =
     (case str of
        None \<Rightarrow> Some (0, [])
      | Some m \<Rightarrow> do {
          (m', scan, pos) \<leftarrow> unesc_loop m 0 0;
          Some (pos, if pos \<noteq> scan then m'[pos := 0] else m') })"

definition git_buf_text_unescape :: "git_buf \<Rightarrow> git_buf option" where
  "git_buf_text_unescape buf =
     (case buf_ptr buf of
        NullPtr \<Rightarrow> Some (buf\<lparr>buf_size := 0\<rparr>)
      | Block m \<Rightarrow> do { (n, m') \<leftarrow> git__unescape (Some m); Some (buf\<lparr>buf_ptr := Block m', buf_size := n\<rparr>) }
      | p \<Rightarrow> do { (n, _) \<leftarrow> git__unescape (Some (mem_cells p)); Some (buf\<lparr>buf_size := n\<rparr>) })"

subsection \<open>Line endings\<close>

text \<open>The copying loop of \<open>git_buf_text_crlf_to_lf\<close>: \<open>out\<close> is an offset into the target, \<open>scan\<close> what is left of the source.\<close>

function crlf_loop :: "git_buf \<Rightarrow> nat \<Rightarrow> byte list \<Rightarrow> (git_buf \<times> nat \<times> byte list) option" where
  "crlf_loop tgt out scan =
     (case memchr 13 scan of
        None \<Rightarrow> Some (tgt, out, scan)
      | Some k \<Rightarrow>
          let rest = drop (Suc k) scan;
              keep = rest = [] \<or> hd rest \<noteq> 10
          in (case (if 0 < k then buf_store tgt out (take k scan) else Some tgt) of
                None \<Rightarrow> None
              | Some t1 \<Rightarrow>
                  (case (if keep then buf_store t1 (out + k) [13] else Some t1) of
                     None \<Rightarrow> None
                   | Some t2 \<Rightarrow> crlf_loop t2 (if keep then out + k + 1 else out + k) rest)))"
  by pat_completeness auto
termination
  by (relation "measure (\<lambda>(_, _, scan). length scan)") (auto simp: memchr_def Let_def split: if_splits)

declare crlf_loop.simps [simp del]

definition crlf_finish :: "git_buf \<Rightarrow> nat \<Rightarrow> byte list \<Rightarrow> (int \<times> git_buf) option" where
  "crlf_finish tgt out scan = do {
     t1 \<leftarrow> (if scan \<noteq> [] then buf_store tgt out scan else Some tgt);
     t2 \<leftarrow> buf_terminate (t1\<lparr>buf_size := out + length scan\<rparr>);
     Some (0, t2) }"

definition git_buf_text_crlf_to_lf :: "byte allocator \<Rightarrow> git_buf \<Rightarrow> git_buf \<Rightarrow> (int \<times> git_buf) option" where
  "git_buf_text_crlf_to_lf al tgt src =
     (let text = content src in
      if memchr 13 text = None then git_buf_set al tgt (Ext (mem_cells (buf_ptr src))) (buf_size src)
      else
        alloc_add tgt (buf_size src) 1 (\<lambda>new_size. or_fail (git_buf_grow al tgt new_size) (\<lambda>t. do {
          (t1, out, scan) \<leftarrow> crlf_loop (t\<lparr>buf_size := 0\<rparr>) 0 text;
          crlf_finish t1 out scan })))"

text \<open>The loop of \<open>git_buf_text_lf_to_crlf\<close>: the target grows for every line.\<close>

function lf_loop :: "byte allocator \<Rightarrow> git_buf \<Rightarrow> byte list \<Rightarrow> (git_buf \<Rightarrow> byte list \<Rightarrow> (int \<times> git_buf) option) \<Rightarrow> (int \<times> git_buf) option" where
  "lf_loop al tgt scan fin =
     (case memchr 10 scan of
        None \<Rightarrow> fin tgt scan
      | Some k \<Rightarrow>
          let copylen = (if 0 < k \<and> scan ! (k - 1) = 13 then k - 1 else k)
          in alloc_add tgt copylen 3 (\<lambda>alloclen. or_fail (git_buf_grow_by al tgt alloclen) (\<lambda>t. do {
               t1 \<leftarrow> (if 0 < copylen then buf_push t (take copylen scan) else Some t);
               t2 \<leftarrow> buf_push t1 [13];
               t3 \<leftarrow> buf_push t2 [10];
               lf_loop al t3 (drop (Suc k) scan) fin })))"
  by pat_completeness auto
termination
  by (relation "measure (\<lambda>(_, _, scan, _). length scan)") (auto simp: memchr_def Let_def split: if_splits)

declare lf_loop.simps [simp del]

definition git_buf_text_lf_to_crlf :: "byte allocator \<Rightarrow> git_buf \<Rightarrow> git_buf \<Rightarrow> (int \<times> git_buf) option" where
  "git_buf_text_lf_to_crlf al tgt src =
     (let text = content src in
      if memchr 10 text = None then git_buf_set al tgt (Ext (mem_cells (buf_ptr src))) (buf_size src)
      else
        alloc_add tgt (buf_size src) (buf_size src div 16) (\<lambda>alloclen. alloc_add tgt alloclen 1 (\<lambda>alloclen'.
          or_fail (git_buf_grow al tgt alloclen') (\<lambda>t.
            lf_loop al (t\<lparr>buf_size := 0\<rparr>) text (\<lambda>t scan. do {
              t1 \<leftarrow> buf_terminate t;
              git_buf_put al t1 scan })))))"

subsection \<open>The common prefix\<close>

fun shared_run :: "byte list \<Rightarrow> byte list \<Rightarrow> nat" where
  "shared_run [] pfx = 0"
| "shared_run (c # str) pfx = (if c \<noteq> 0 \<and> c = peek pfx then Suc (shared_run str (tl pfx)) else 0)"

fun prefix_loop :: "git_buf \<Rightarrow> byte list list \<Rightarrow> git_buf option" where
  "prefix_loop buf [] = Some buf"
| "prefix_loop buf (str # rest) = do {
     b \<leftarrow> git_buf_truncate buf (shared_run str (mem_cells (buf_ptr buf)));
     if buf_size b = 0 then Some b else prefix_loop b rest }"

definition git_buf_text_common_prefix :: "byte allocator \<Rightarrow> git_buf \<Rightarrow> byte list list option \<Rightarrow> (int \<times> git_buf) option" where
  "git_buf_text_common_prefix al buf strings = do {
     b \<leftarrow> git_buf_clear buf;
     (case strings of
        None \<Rightarrow> Some (0, b)
      | Some [] \<Rightarrow> Some (0, b)
      | Some (first # rest) \<Rightarrow>
          or_fail (git_buf_sets al b (Some first)) (\<lambda>b'. do { b'' \<leftarrow> prefix_loop b' rest; Some (0, b'') })) }"

subsection \<open>Byte order marks and statistics\<close>

datatype git_bom_t = GIT_BOM_NONE | GIT_BOM_UTF8 | GIT_BOM_UTF16_LE | GIT_BOM_UTF16_BE | GIT_BOM_UTF32_LE | GIT_BOM_UTF32_BE

text \<open>The value of the enumeration, which \<open>git_buf_text_is_binary\<close> compares.\<close>

fun bom_value :: "git_bom_t \<Rightarrow> nat" where
  "bom_value GIT_BOM_NONE = 0"
| "bom_value GIT_BOM_UTF8 = 1"
| "bom_value GIT_BOM_UTF16_LE = 2"
| "bom_value GIT_BOM_UTF16_BE = 3"
| "bom_value GIT_BOM_UTF32_LE = 4"
| "bom_value GIT_BOM_UTF32_BE = 5"

text \<open>The switch on the bytes behind the offset, of which there are at least two.\<close>

definition bom_switch :: "byte list \<Rightarrow> int \<times> git_bom_t" where
  "bom_switch d =
     (let c = d ! 0; ptr = tl d; len = length d in
      if c = 0 \<and> len \<ge> 4 \<and> ptr ! 0 = 0 \<and> ptr ! 1 = 0xFE \<and> ptr ! 2 = 0xFF then (4, GIT_BOM_UTF32_BE)
      else if c = 0xEF \<and> len \<ge> 3 \<and> ptr ! 0 = 0xBB \<and> ptr ! 1 = 0xBF then (3, GIT_BOM_UTF8)
      else if c = 0xFE \<and> ptr ! 0 = 0xFF then (2, GIT_BOM_UTF16_BE)
      else if c = 0xFF \<and> ptr ! 0 = 0xFE then
        (if len \<ge> 4 \<and> ptr ! 1 = 0 \<and> ptr ! 2 = 0 then (4, GIT_BOM_UTF32_LE) else (2, GIT_BOM_UTF16_LE))
      else (0, GIT_BOM_NONE))"

definition git_buf_text_detect_bom :: "git_buf \<Rightarrow> nat \<Rightarrow> (int \<times> git_bom_t) option" where
  "git_buf_text_detect_bom buf offset =
     (if buf_size buf < (offset + 2) mod 2 ^ 64 then Some (0, GIT_BOM_NONE)
      else if buf_size buf < offset + 2 then None
      else Some (bom_switch (drop offset (content buf))))"

text \<open>\<open>++\<close> on a counter of type \<open>int\<close>.\<close>

definition incr_int :: "int \<Rightarrow> int option" where
  "incr_int n = (if n < 2 ^ 31 - 1 then Some (n + 1) else None)"

fun binary_loop :: "byte list \<Rightarrow> int \<Rightarrow> int \<Rightarrow> bool option" where
  "binary_loop [] printable nonprintable = Some (drop_bit 7 printable < nonprintable)"
| "binary_loop (c # scan) printable nonprintable =
     (if (c > 0x1F \<and> c \<noteq> 127) \<or> c = 8 \<or> c = 27 \<or> c = 12
      then do { p \<leftarrow> incr_int printable; binary_loop scan p nonprintable }
      else if c = 0 then Some True
      else if \<not> git_isspace c then do { n \<leftarrow> incr_int nonprintable; binary_loop scan printable n }
      else binary_loop scan printable nonprintable)"

definition git_buf_text_is_binary :: "git_buf \<Rightarrow> bool option" where
  "git_buf_text_is_binary buf = do {
     (skip, bom) \<leftarrow> git_buf_text_detect_bom buf 0;
     if bom_value bom > bom_value GIT_BOM_UTF8 then Some True
     else binary_loop (drop (nat skip) (content buf)) 0 0 }"

definition git_buf_text_contains_nul :: "git_buf \<Rightarrow> bool" where
  "git_buf_text_contains_nul buf \<longleftrightarrow> memchr 0 (content buf) \<noteq> None"

record git_buf_text_stats =
  st_bom :: git_bom_t
  st_nul :: u32
  st_cr :: u32
  st_lf :: u32
  st_crlf :: u32
  st_printable :: u32
  st_nonprintable :: u32

text \<open>One round of the counting loop: the byte \<open>c\<close> with \<open>scan\<close> behind it.\<close>

definition stats_step :: "byte \<Rightarrow> byte list \<Rightarrow> git_buf_text_stats \<Rightarrow> git_buf_text_stats" where
  "stats_step c scan st =
     (if c > 0x1F \<and> c \<noteq> 0x7F then st\<lparr>st_printable := st_printable st + 1\<rparr>
      else if c = 0 then st\<lparr>st_nul := st_nul st + 1, st_nonprintable := st_nonprintable st + 1\<rparr>
      else if c = 10 then st\<lparr>st_lf := st_lf st + 1\<rparr>
      else if c = 13 then
        (let st' = st\<lparr>st_cr := st_cr st + 1\<rparr>
         in if scan \<noteq> [] \<and> hd scan = 10 then st'\<lparr>st_crlf := st_crlf st' + 1\<rparr> else st')
      else if c = 9 \<or> c = 12 \<or> c = 11 \<or> c = 8 \<or> c = 0x1b then st\<lparr>st_printable := st_printable st + 1\<rparr>
      else st\<lparr>st_nonprintable := st_nonprintable st + 1\<rparr>)"

fun stats_loop :: "byte list \<Rightarrow> git_buf_text_stats \<Rightarrow> git_buf_text_stats" where
  "stats_loop [] st = st"
| "stats_loop (c # scan) st = stats_loop scan (stats_step c scan st)"

definition git_buf_text_gather_stats :: "git_buf \<Rightarrow> bool \<Rightarrow> (bool \<times> git_buf_text_stats) option" where
  "git_buf_text_gather_stats buf skip_bom = do {
     (skip, bom) \<leftarrow> git_buf_text_detect_bom buf 0;
     let text = content buf;
         text' = (if text \<noteq> [] \<and> last text = 26 then butlast text else text);
         scan = (if skip_bom then drop (nat skip) text' else text');
         st = stats_loop scan \<lparr>st_bom = bom, st_nul = 0, st_cr = 0, st_lf = 0, st_crlf = 0, st_printable = 0, st_nonprintable = 0\<rparr>;
         binary = st_nul st > 0 \<or> drop_bit 7 (st_printable st) < st_nonprintable st
     in Some (binary, st) }"


section \<open>Pushing into a buffer with room\<close>

text \<open>
  The outcome of the conversions: inside defined behaviour, and either the stated contents or, only
  when the allocator refused a request, -1 and a marked buffer (whose size may be that of the lines already converted).
\<close>

definition text_outcome :: "byte allocator \<Rightarrow> byte list \<Rightarrow> (int \<times> git_buf) option \<Rightarrow> bool" where
  "text_outcome al new res \<longleftrightarrow>
     (\<exists>r b'. res = Some (r, b') \<and> (r = 0 \<and> buf_wf b' \<and> content b' = new \<or> r = -1 \<and> \<not> total_alloc al \<and> git_buf_oom b'))"

lemma buf_outcome_text: "buf_outcome al b new res \<Longrightarrow> text_outcome al new res"
  by (auto simp: buf_outcome_def text_outcome_def)

lemma text_outcome_total:
  "text_outcome al new res \<Longrightarrow> alloc_env al \<Longrightarrow> \<exists>b'. res = Some (0, b') \<and> buf_wf b' \<and> content b' = new"
  by (auto simp: text_outcome_def alloc_env_def)

lemma length_content_weak: "buf_weak b \<Longrightarrow> length (content b) = buf_size b"
  by (auto simp: buf_weak_def content_def GIT_BUF_INIT_def)

lemma buf_push_weak:
  assumes "buf_weak b" and "buf_size b + length d < buf_asize b"
  shows "\<exists>b'. buf_push b d = Some b' \<and> buf_weak b' \<and> content b' = content b @ d \<and> buf_asize b' = buf_asize b \<and>
    buf_size b' = buf_size b + length d"
  using assms
  by (auto simp: buf_weak_def buf_push_def GIT_BUF_INIT_def buf_store_block content_def)

lemma buf_terminate_weak:
  assumes "buf_weak b" and "0 < buf_asize b"
  shows "\<exists>b'. buf_terminate b = Some b' \<and> buf_wf b' \<and> content b' = content b \<and> buf_size b' = buf_size b \<and>
    buf_asize b' = buf_asize b"
  using assms
  by (auto simp: buf_weak_def buf_wf_def GIT_BUF_INIT_def buf_terminate_block content_def)

lemma or_fail_grow_by_weak:
  assumes al: "good_alloc al" and wf: "buf_weak b" and n: "0 < n" "buf_size b + n \<le> BUF_LIMIT"
    and ok: "\<And>b'. buf_weak b' \<Longrightarrow> content b' = content b \<Longrightarrow> buf_size b' = buf_size b \<Longrightarrow> buf_size b + n \<le> buf_asize b' \<Longrightarrow>
      text_outcome al new (k b')"
  shows "text_outcome al new (or_fail (git_buf_grow_by al b n) k)"
proof -
  have add: "add_sizet (buf_size b) n = Some (buf_size b + n)"
    using n by (intro add_sizet_fits) (simp add: BUF_LIMIT_def)
  have grown: "\<exists>r b'. git_buf_try_grow al b (buf_size b + n) True = Some (r, b') \<and>
      (r = 0 \<and> buf_weak b' \<and> content b' = content b \<and> buf_size b' = buf_size b \<and> buf_size b + n \<le> buf_asize b' \<or>
       r = -1 \<and> \<not> total_alloc al \<and> b' = buf_mark_oom True b)"
  proof (cases "buf_asize b < buf_size b + n")
    case True
    then show ?thesis using git_buf_try_grow_weak [OF al wf True n(2), of True] buf_wf_weak by blast
  next
    case False
    then show ?thesis using wf n(1) by (auto simp: git_buf_try_grow_def buf_weak_def GIT_BUF_INIT_def)
  qed
  then obtain r b' where "git_buf_grow_by al b n = Some (r, b')"
    "r = 0 \<and> buf_weak b' \<and> content b' = content b \<and> buf_size b' = buf_size b \<and> buf_size b + n \<le> buf_asize b' \<or>
       r = -1 \<and> \<not> total_alloc al \<and> b' = buf_mark_oom True b"
    using add by (auto simp: git_buf_grow_by_def)
  then show ?thesis
    using ok [of b'] by (auto simp: text_outcome_def buf_mark_oom_def git_buf_oom_def)
qed

lemma or_fail_grow_weak:
  assumes al: "good_alloc al" and wf: "buf_wf b" and n: "n \<le> BUF_LIMIT"
    and ok: "\<And>b'. buf_wf b' \<Longrightarrow> content b' = content b \<Longrightarrow> n \<le> buf_asize b' \<Longrightarrow> text_outcome al new (k b')"
  shows "text_outcome al new (or_fail (git_buf_grow al b n) k)"
proof -
  obtain r b' where "git_buf_grow al b n = Some (r, b')"
    "r = 0 \<and> buf_wf b' \<and> content b' = content b \<and> buf_size b' = buf_size b \<and> n \<le> buf_asize b' \<or>
     r = -1 \<and> \<not> total_alloc al \<and> b' = buf_mark_oom True b"
    using git_buf_try_grow_wf [OF al wf n, of True] by (auto simp: git_buf_grow_def)
  then show ?thesis
    using ok [of b'] by (auto simp: text_outcome_def buf_mark_oom_def git_buf_oom_def)
qed

lemma memchr_None: "memchr c s = None \<longleftrightarrow> c \<notin> set s"
  by (induction s) (auto simp: memchr_def Let_def split: if_splits)

lemma memchr_Some:
  assumes "memchr c s = Some k"
  shows "k < length s" "s ! k = c" "c \<notin> set (take k s)" "s = take k s @ c # drop (Suc k) s"
proof -
  have k: "k = length (takeWhile (\<lambda>x. x \<noteq> c) s)" "k < length s"
    using assms by (auto simp: memchr_def Let_def split: if_splits)
  show "k < length s" by (rule k)
  show nth: "s ! k = c" using k nth_length_takeWhile [of "\<lambda>x. x \<noteq> c" s] by simp
  show "c \<notin> set (take k s)" unfolding k(1) takeWhile_eq_take [symmetric] by (auto dest: set_takeWhileD)
  show "s = take k s @ c # drop (Suc k) s" using id_take_nth_drop [OF k(2)] nth by simp
qed


section \<open>Line endings\<close>

subsection \<open>What the conversions compute\<close>

text \<open>A carriage return goes when a line feed follows; a line feed gets one when none precedes.\<close>

fun crlf_to_lf :: "byte list \<Rightarrow> byte list" where
  "crlf_to_lf [] = []"
| "crlf_to_lf (c # s) = (if c = 13 \<and> s \<noteq> [] \<and> hd s = 10 then crlf_to_lf s else c # crlf_to_lf s)"

fun lf_to_crlf :: "bool \<Rightarrow> byte list \<Rightarrow> byte list" where
  "lf_to_crlf after_cr [] = []"
| "lf_to_crlf after_cr (c # s) =
     (if c = 10 \<and> \<not> after_cr then 13 # 10 # lf_to_crlf False s else c # lf_to_crlf (c = 13) s)"

lemma crlf_to_lf_no_cr: "13 \<notin> set d \<Longrightarrow> crlf_to_lf (d @ s) = d @ crlf_to_lf s"
  by (induction d) auto

lemma crlf_to_lf_at:
  assumes "memchr 13 s = Some k"
  shows "crlf_to_lf s = take k s @ (if drop (Suc k) s = [] \<or> hd (drop (Suc k) s) \<noteq> 10 then [13] else []) @ crlf_to_lf (drop (Suc k) s)"
proof -
  have "crlf_to_lf s = crlf_to_lf (take k s @ 13 # drop (Suc k) s)"
    using memchr_Some(4) [OF assms] by simp
  also have "\<dots> = take k s @ crlf_to_lf (13 # drop (Suc k) s)"
    by (rule crlf_to_lf_no_cr [OF memchr_Some(3) [OF assms]])
  finally show ?thesis by simp
qed

lemma lf_to_crlf_no_lf: "10 \<notin> set d \<Longrightarrow> lf_to_crlf p (d @ s) = d @ lf_to_crlf (if d = [] then p else last d = 13) s"
  by (induction d arbitrary: p) auto

lemma lf_to_crlf_at:
  assumes "memchr 10 s = Some k"
  shows "lf_to_crlf False s =
    take (if 0 < k \<and> s ! (k - 1) = 13 then k - 1 else k) s @ [13, 10] @ lf_to_crlf False (drop (Suc k) s)"
proof -
  note k = memchr_Some [OF assms]
  have "lf_to_crlf False s = lf_to_crlf False (take k s @ 10 # drop (Suc k) s)"
    using k(4) by simp
  also have "\<dots> = take k s @ lf_to_crlf (if take k s = [] then False else last (take k s) = 13) (10 # drop (Suc k) s)"
    by (rule lf_to_crlf_no_lf [OF k(3)])
  finally have eq: "lf_to_crlf False s =
      take k s @ lf_to_crlf (if take k s = [] then False else last (take k s) = 13) (10 # drop (Suc k) s)" .
  show ?thesis
  proof (cases "0 < k \<and> s ! (k - 1) = 13")
    case True
    then obtain j where j: "k = Suc j" "s ! j = 13" by (cases k) auto
    then have "take k s = take j s @ [13]" using k(1) by (simp add: take_Suc_conv_app_nth)
    then show ?thesis using eq j by simp
  next
    case False
    then show ?thesis using eq k(1) by (auto simp: last_conv_nth)
  qed
qed

subsection \<open>The loops compute it\<close>

lemma store_push:
  "buf_store t out d = map_option (\<lambda>b. b\<lparr>buf_size := buf_size t\<rparr>) (buf_push (t\<lparr>buf_size := out\<rparr>) d)"
  by (auto simp: buf_store_def buf_push_def option.map_comp comp_def intro!: option.map_cong)

lemma buf_store_weak:
  assumes "buf_weak (t\<lparr>buf_size := out\<rparr>)" and "out + length d < buf_asize t"
  shows "\<exists>t'. buf_store t out d = Some t' \<and> buf_weak (t'\<lparr>buf_size := out + length d\<rparr>) \<and>
    content (t'\<lparr>buf_size := out + length d\<rparr>) = content (t\<lparr>buf_size := out\<rparr>) @ d \<and> buf_asize t' = buf_asize t"
proof -
  have same: "b\<lparr>buf_size := n\<rparr> = b" if "buf_size b = n" for b :: git_buf and n using that by (cases b) simp
  obtain b' where "buf_push (t\<lparr>buf_size := out\<rparr>) d = Some b'" "buf_weak b'" "content b' = content (t\<lparr>buf_size := out\<rparr>) @ d"
      "buf_asize b' = buf_asize t" "buf_size b' = out + length d"
    using buf_push_weak [of "t\<lparr>buf_size := out\<rparr>" d] assms by auto
  then show ?thesis by (simp add: store_push same)
qed

lemma crlf_loop_ok:
  assumes "buf_weak (t\<lparr>buf_size := out\<rparr>)" and "out + length (crlf_to_lf scan) < buf_asize t"
  shows "\<exists>t1 out1 rest. crlf_loop t out scan = Some (t1, out1, rest) \<and> buf_weak (t1\<lparr>buf_size := out1\<rparr>) \<and>
    content (t1\<lparr>buf_size := out1\<rparr>) @ rest = content (t\<lparr>buf_size := out\<rparr>) @ crlf_to_lf scan \<and> buf_asize t1 = buf_asize t"
  using assms
proof (induction t out scan rule: crlf_loop.induct)
  case (1 t out scan)
  show ?case
  proof (cases "memchr 13 scan")
    case None
    then have "crlf_to_lf scan = scan" using crlf_to_lf_no_cr [of scan "[]"] by (simp add: memchr_None)
    then show ?thesis using None "1.prems" by (simp add: crlf_loop.simps)
  next
    case (Some k)
    define rest where "rest = drop (Suc k) scan"
    define keep where "keep \<longleftrightarrow> rest = [] \<or> hd rest \<noteq> 10"
    define tail where "tail = (if keep then [13] else [] :: byte list)"
    have k: "k < length scan" by (rule memchr_Some [OF Some])
    have eq: "crlf_to_lf scan = take k scan @ tail @ crlf_to_lf rest"
      using crlf_to_lf_at [OF Some] by (simp add: tail_def keep_def rest_def)
    obtain t1 where t1: "buf_store t out (take k scan) = Some t1" "buf_weak (t1\<lparr>buf_size := out + k\<rparr>)"
        "content (t1\<lparr>buf_size := out + k\<rparr>) = content (t\<lparr>buf_size := out\<rparr>) @ take k scan" "buf_asize t1 = buf_asize t"
      using buf_store_weak [OF "1.prems"(1), of "take k scan"] "1.prems"(2) k eq by auto
    obtain t2 where t2: "buf_store t1 (out + k) tail = Some t2" "buf_weak (t2\<lparr>buf_size := out + k + length tail\<rparr>)"
        "content (t2\<lparr>buf_size := out + k + length tail\<rparr>) = content (t\<lparr>buf_size := out\<rparr>) @ take k scan @ tail"
        "buf_asize t2 = buf_asize t"
      using buf_store_weak [OF t1(2), of tail] t1 "1.prems"(2) k eq by auto
    have s1: "(if 0 < k then buf_store t out (take k scan) else Some t) = Some t1"
      using t1(1) by (cases k) auto
    have s2: "(if keep then buf_store t1 (out + k) [13] else Some t1) = Some t2"
      and n2: "(if keep then out + k + 1 else out + k) = out + k + length tail"
      using t2(1) by (auto simp: tail_def)
    have step: "crlf_loop t out scan = crlf_loop t2 (out + k + length tail) rest"
      using Some s1 s2 n2 by (subst crlf_loop.simps) (simp add: keep_def rest_def [symmetric] cong: if_cong)
    have "out + k + length tail + length (crlf_to_lf rest) < buf_asize t2"
      using "1.prems"(2) eq k t2(4) by simp
    with "1.IH" [OF Some rest_def keep_def s1 s2] t2(2) n2
    obtain t3 out3 rest3 where "crlf_loop t2 (out + k + length tail) rest = Some (t3, out3, rest3)"
        "buf_weak (t3\<lparr>buf_size := out3\<rparr>)"
        "content (t3\<lparr>buf_size := out3\<rparr>) @ rest3 = content (t2\<lparr>buf_size := out + k + length tail\<rparr>) @ crlf_to_lf rest"
        "buf_asize t3 = buf_asize t2"
      by auto
    then show ?thesis using step t2 eq by auto
  qed
qed


lemma crlf_finish_ok:
  assumes "buf_weak (t\<lparr>buf_size := out\<rparr>)" and "out + length scan < buf_asize t"
  shows "\<exists>t2. crlf_finish t out scan = Some (0, t2) \<and> buf_wf t2 \<and> content t2 = content (t\<lparr>buf_size := out\<rparr>) @ scan"
proof -
  obtain t1 where t1: "buf_store t out scan = Some t1" "buf_weak (t1\<lparr>buf_size := out + length scan\<rparr>)"
      "content (t1\<lparr>buf_size := out + length scan\<rparr>) = content (t\<lparr>buf_size := out\<rparr>) @ scan" "buf_asize t1 = buf_asize t"
    using buf_store_weak [OF assms] by auto
  then have "(if scan \<noteq> [] then buf_store t out scan else Some t) = Some t1" by auto
  then show ?thesis
    using buf_terminate_weak [OF t1(2)] t1 assms(2) by (auto simp: crlf_finish_def)
qed

lemma git_buf_text_crlf_to_lf_ok:
  assumes al: "good_alloc al" and tgt: "buf_wf tgt" and src: "buf_wf src" and lim: "buf_size src + 1 < BUF_LIMIT"
  shows "text_outcome al (crlf_to_lf (content src)) (git_buf_text_crlf_to_lf al tgt src)"
proof (cases "memchr 13 (content src) = None")
  case True
  then have "crlf_to_lf (content src) = content src"
    using crlf_to_lf_no_cr [of "content src" "[]"] by (simp add: memchr_None)
  moreover have "buf_size src \<le> length (mem_cells (buf_ptr src))" using length_content [OF src] by (simp add: content_def)
  ultimately show ?thesis
    using True buf_outcome_text [OF git_buf_set_outcome [OF al tgt, of "buf_size src" "mem_cells (buf_ptr src)"]] lim
    by (simp add: git_buf_text_crlf_to_lf_def content_def)
next
  case False
  have len: "length (crlf_to_lf s) \<le> length s" for s by (induction s rule: crlf_to_lf.induct) auto
  have "\<exists>t2. (do { (t1, out, scan) \<leftarrow> crlf_loop (t\<lparr>buf_size := 0\<rparr>) 0 (content src); crlf_finish t1 out scan }) = Some (0, t2) \<and>
      buf_wf t2 \<and> content t2 = crlf_to_lf (content src)"
    if t: "buf_wf t" "buf_size src + 1 \<le> buf_asize t" for t
  proof -
    have weak: "buf_weak (t\<lparr>buf_size := 0\<rparr>\<lparr>buf_size := 0\<rparr>)" "0 + length (crlf_to_lf (content src)) < buf_asize (t\<lparr>buf_size := 0\<rparr>)"
      using t len [of "content src"] length_content [OF src] by (auto simp: buf_weak_def GIT_BUF_INIT_def elim!: buf_wf_cases)
    obtain t1 out scan where l: "crlf_loop (t\<lparr>buf_size := 0\<rparr>) 0 (content src) = Some (t1, out, scan)" "buf_weak (t1\<lparr>buf_size := out\<rparr>)"
        "content (t1\<lparr>buf_size := out\<rparr>) @ scan = crlf_to_lf (content src)" "buf_asize t1 = buf_asize t"
      using crlf_loop_ok [OF weak] by (auto simp: content_def)
    have "out + length scan < buf_asize t1"
      using arg_cong [OF l(3), of length] l(4) weak(2) length_content_weak [OF l(2)] by simp
    from crlf_finish_ok [OF l(2) this] show ?thesis using l by auto
  qed
  then have step: "text_outcome al (crlf_to_lf (content src))
      (do { (t1, out, scan) \<leftarrow> crlf_loop (t\<lparr>buf_size := 0\<rparr>) 0 (content src); crlf_finish t1 out scan })"
    if "buf_wf t" "buf_size src + 1 \<le> buf_asize t" for t
    using that unfolding text_outcome_def by blast
  have "text_outcome al (crlf_to_lf (content src)) (or_fail (git_buf_grow al tgt (buf_size src + 1)) (\<lambda>t.
      do { (t1, out, scan) \<leftarrow> crlf_loop (t\<lparr>buf_size := 0\<rparr>) 0 (content src); crlf_finish t1 out scan }))"
    by (rule or_fail_grow_weak [OF al tgt]) (use lim step in simp_all)
  then show ?thesis
    using False lim by (auto simp: git_buf_text_crlf_to_lf_def BUF_LIMIT_def Let_def)
qed

lemma lf_loop_ok:
  assumes "good_alloc al" and "buf_weak t" and "buf_size t + length (lf_to_crlf False scan) + 3 \<le> BUF_LIMIT"
    and "memchr 10 scan = None \<longrightarrow> 0 < buf_asize t"
  shows "text_outcome al (content t @ lf_to_crlf False scan)
    (lf_loop al t scan (\<lambda>t scan. do { t1 \<leftarrow> buf_terminate t; git_buf_put al t1 scan }))"
  using assms
proof (induction "length scan" arbitrary: t scan rule: less_induct)
  case less
  note al = less.prems(1) and weak = less.prems(2) and lim = less.prems(3)
  show ?case
  proof (cases "memchr 10 scan")
    case None
    then have "lf_to_crlf False scan = scan" using lf_to_crlf_no_lf [of scan False "[]"] by (simp add: memchr_None)
    moreover obtain t1 where "buf_terminate t = Some t1" "buf_wf t1" "content t1 = content t" "buf_size t1 = buf_size t"
      using buf_terminate_weak [OF less.prems(2)] less.prems(4) None by auto
    ultimately show ?thesis
      using None less.prems(3) buf_outcome_text [OF git_buf_put_outcome [OF less.prems(1), of t1 scan]]
      by (simp add: lf_loop.simps)
  next
    case (Some k)
    define n where "n = (if 0 < k \<and> scan ! (k - 1) = 13 then k - 1 else k)"
    define rest where "rest = drop (Suc k) scan"
    have n: "n \<le> k" "k < length scan" using memchr_Some [OF Some] by (simp_all add: n_def)
    have eq: "lf_to_crlf False scan = take n scan @ [13, 10] @ lf_to_crlf False rest"
      using lf_to_crlf_at [OF Some] by (simp add: n_def rest_def)
    have len: "length (lf_to_crlf False scan) = n + 2 + length (lf_to_crlf False rest)" using eq n by simp
    let ?fin = "\<lambda>t scan. do { t1 \<leftarrow> buf_terminate t; git_buf_put al t1 scan }"
    let ?body = "\<lambda>t. do { t1 \<leftarrow> (if 0 < n then buf_push t (take n scan) else Some t); t2 \<leftarrow> buf_push t1 [13]; t3 \<leftarrow> buf_push t2 [10];
      lf_loop al t3 rest ?fin }"
    have "lf_loop al t scan ?fin = alloc_add t n 3 (\<lambda>alloclen. or_fail (git_buf_grow_by al t alloclen) ?body)"
      using Some by (subst lf_loop.simps) (simp only: option.case n_def rest_def Let_def)
    also have "\<dots> = or_fail (git_buf_grow_by al t (n + 3)) ?body"
      using lim len by (intro alloc_add_fits) (simp add: BUF_LIMIT_def)
    finally have unfold: "lf_loop al t scan ?fin = or_fail (git_buf_grow_by al t (n + 3)) ?body" .
    show ?thesis unfolding unfold
    proof (rule or_fail_grow_by_weak [OF al weak])
      show "0 < n + 3" "buf_size t + (n + 3) \<le> BUF_LIMIT" using lim len by simp_all
      fix b' assume b': "buf_weak b'" "content b' = content t" "buf_size b' = buf_size t" "buf_size t + (n + 3) \<le> buf_asize b'"
      obtain t1 where t1: "(if 0 < n then buf_push b' (take n scan) else Some b') = Some t1" "buf_weak t1"
          "content t1 = content t @ take n scan" "buf_asize t1 = buf_asize b'" "buf_size t1 = buf_size t + n"
        using buf_push_weak [OF b'(1), of "take n scan"] b' n by (cases "n = 0") auto
      obtain t2 where t2: "buf_push t1 [13] = Some t2" "buf_weak t2" "content t2 = content t @ take n scan @ [13]"
          "buf_asize t2 = buf_asize b'" "buf_size t2 = buf_size t + n + 1"
        using buf_push_weak [OF t1(2), of "[13]"] t1 b' by auto
      obtain t3 where t3: "buf_push t2 [10] = Some t3" "buf_weak t3" "content t3 = content t @ take n scan @ [13, 10]"
          "buf_asize t3 = buf_asize b'" "buf_size t3 = buf_size t + n + 2"
        using buf_push_weak [OF t2(2), of "[10]"] t2 b' by auto
      have "text_outcome al (content t3 @ lf_to_crlf False rest) (lf_loop al t3 rest ?fin)"
        using n t3 b' lim len by (intro less.hyps [OF _ al]) (auto simp: rest_def)
      then show "text_outcome al (content t @ lf_to_crlf False scan) (?body b')"
        using t1(1) t2(1) t3(1,3) eq by simp
    qed
  qed
qed


lemma git_buf_text_lf_to_crlf_ok:
  assumes al: "good_alloc al" and tgt: "buf_wf tgt" and src: "buf_wf src" and lim: "2 * buf_size src + 4 \<le> BUF_LIMIT"
  shows "text_outcome al (lf_to_crlf False (content src)) (git_buf_text_lf_to_crlf al tgt src)"
proof (cases "memchr 10 (content src) = None")
  case True
  then have "lf_to_crlf False (content src) = content src"
    using lf_to_crlf_no_lf [of "content src" False "[]"] by (simp add: memchr_None)
  moreover have "buf_size src \<le> length (mem_cells (buf_ptr src))" using length_content [OF src] by (simp add: content_def)
  ultimately show ?thesis
    using True buf_outcome_text [OF git_buf_set_outcome [OF al tgt, of "buf_size src" "mem_cells (buf_ptr src)"]] lim
    by (simp add: git_buf_text_lf_to_crlf_def content_def)
next
  case False
  have len: "length (lf_to_crlf p s) \<le> 2 * length s" for p s by (induction p s rule: lf_to_crlf.induct) auto
  let ?n = "buf_size src + buf_size src div 16 + 1"
  let ?fin = "\<lambda>t scan. do { t1 \<leftarrow> buf_terminate t; git_buf_put al t1 scan }"
  have n: "?n \<le> BUF_LIMIT" using lim by simp
  have "text_outcome al (lf_to_crlf False (content src))
      (or_fail (git_buf_grow al tgt ?n) (\<lambda>t. lf_loop al (t\<lparr>buf_size := 0\<rparr>) (content src) ?fin))"
  proof (rule or_fail_grow_weak [OF al tgt n])
    fix t assume t: "buf_wf t" "?n \<le> buf_asize t"
    then have "buf_weak (t\<lparr>buf_size := 0\<rparr>)" by (auto simp: buf_weak_def GIT_BUF_INIT_def elim!: buf_wf_cases)
    moreover have "content (t\<lparr>buf_size := 0\<rparr>) = []" by (simp add: content_def)
    ultimately show "text_outcome al (lf_to_crlf False (content src)) (lf_loop al (t\<lparr>buf_size := 0\<rparr>) (content src) ?fin)"
      using lf_loop_ok [OF al, of "t\<lparr>buf_size := 0\<rparr>" "content src"] len [of False "content src"] lim t(2) src by simp
  qed
  then show ?thesis
    using False lim n by (auto simp: git_buf_text_lf_to_crlf_def BUF_LIMIT_def Let_def)
qed

subsection \<open>Both ways\<close>

lemma crlf_to_lf_to_crlf: "crlf_to_lf ((if p then [13] else []) @ lf_to_crlf p s) = crlf_to_lf ((if p then [13] else []) @ s)"
proof (induction p s rule: lf_to_crlf.induct)
  case (2 p c s)
  then show ?case by (cases "c = 10"; cases "c = 13"; cases p) auto
qed simp

lemma lf_to_crlf_idem: "lf_to_crlf p (lf_to_crlf p s) = lf_to_crlf p s"
  by (induction p s rule: lf_to_crlf.induct) auto


section \<open>Escaping\<close>

definition esc_bytes :: "byte list \<Rightarrow> byte list \<Rightarrow> byte list \<Rightarrow> byte list" where
  "esc_bytes chars esc s = concat (map (\<lambda>c. if c \<in> set chars then esc @ [c] else [c]) s)"

lemma esc_bytes_simps [simp]:
  "esc_bytes chars esc [] = []"
  "esc_bytes chars esc (s @ t) = esc_bytes chars esc s @ esc_bytes chars esc t"
  by (simp_all add: esc_bytes_def)

lemma esc_bytes_plain: "set s \<inter> set chars = {} \<Longrightarrow> esc_bytes chars esc s = s"
  by (induction s) (auto simp: esc_bytes_def)

lemma length_esc_bytes_run: "set s \<subseteq> set chars \<Longrightarrow> length (esc_bytes chars esc s) = length s * (length esc + 1)"
  by (induction s) (auto simp: esc_bytes_def)

lemma cstr_drop: "n \<le> length (cstr s) \<Longrightarrow> cstr (drop n s) = drop n (cstr s)"
  by (induction s arbitrary: n) (auto simp: cstr_def drop_Cons' split: if_splits nat.splits)

lemma take_cstr: "n \<le> length (cstr s) \<Longrightarrow> take n s = take n (cstr s)"
  by (induction s arbitrary: n) (auto simp: cstr_def take_Cons' split: if_splits nat.splits)

text \<open>One round of either loop: a plain run and an escaped run.\<close>

lemma esc_round:
  fixes chars scan
  defines "n1 \<equiv> strcspn scan chars" and "n2 \<equiv> strspn (drop (strcspn scan chars) scan) chars"
  shows "n1 + n2 \<le> length (cstr scan)"
    and "esc_bytes (cstr chars) esc (cstr scan) =
      take n1 scan @ esc_bytes (cstr chars) esc (take n2 (drop n1 scan)) @ esc_bytes (cstr chars) esc (cstr (drop n2 (drop n1 scan)))"
    and "set (take n2 (drop n1 scan)) \<subseteq> set (cstr chars)" "length (take n2 (drop n1 scan)) = n2" "length (take n1 scan) = n1"
proof -
  let ?P = "\<lambda>c. c \<in> set (cstr chars)"
  have n1: "n1 \<le> length (cstr scan)" "take n1 (cstr scan) = takeWhile (\<lambda>c. \<not> ?P c) (cstr scan)"
    by (simp_all add: n1_def strcspn_def length_takeWhile_le takeWhile_eq_take [symmetric])
  have rest: "cstr (drop n1 scan) = drop n1 (cstr scan)" by (rule cstr_drop [OF n1(1)])
  have n2: "n2 \<le> length (drop n1 (cstr scan))" "take n2 (drop n1 (cstr scan)) = takeWhile ?P (drop n1 (cstr scan))"
    unfolding n2_def n1_def [symmetric] strspn_def rest by (simp_all add: length_takeWhile_le takeWhile_eq_take [symmetric] del: length_drop)
  show sum: "n1 + n2 \<le> length (cstr scan)" using n1 n2 by simp
  have t1: "take n1 scan = take n1 (cstr scan)" by (rule take_cstr [OF n1(1)])
  have t2: "take n2 (drop n1 scan) = take n2 (drop n1 (cstr scan))"
    using take_cstr [of n2 "drop n1 scan"] n2(1) rest by simp
  have t3: "cstr (drop n2 (drop n1 scan)) = drop n2 (drop n1 (cstr scan))"
    using cstr_drop [of n2 "drop n1 scan"] n2(1) rest by simp
  have split: "cstr scan = take n1 (cstr scan) @ take n2 (drop n1 (cstr scan)) @ drop n2 (drop n1 (cstr scan))"
    by (simp del: drop_drop)
  have "esc_bytes (cstr chars) esc (take n1 (cstr scan)) = take n1 (cstr scan)"
    unfolding n1(2) by (rule esc_bytes_plain) (auto dest: set_takeWhileD)
  then show "esc_bytes (cstr chars) esc (cstr scan) =
      take n1 scan @ esc_bytes (cstr chars) esc (take n2 (drop n1 scan)) @ esc_bytes (cstr chars) esc (cstr (drop n2 (drop n1 scan)))"
    unfolding t1 t2 t3 by (metis split esc_bytes_simps(2))
  show "set (take n2 (drop n1 scan)) \<subseteq> set (cstr chars)" unfolding t2 n2(2) by (auto dest: set_takeWhileD)
  show "length (take n2 (drop n1 scan)) = n2" "length (take n1 scan) = n1" unfolding t1 t2 using n1(1) n2(1) by simp_all
qed

lemma esc_total_ok:
  assumes "acc + length (esc_bytes (cstr chars) esc (cstr scan)) < 2 ^ 64"
  shows "esc_total chars (length esc) scan acc = acc + length (esc_bytes (cstr chars) esc (cstr scan))"
  using assms
proof (induction "length scan" arbitrary: scan acc rule: less_induct)
  case less
  show ?case
  proof (cases "peek scan = 0")
    case True
    then have "cstr scan = []" by (cases scan) (simp_all add: cstr_def)
    then show ?thesis using True by (simp add: esc_total.simps)
  next
    case False
    define n1 where "n1 = strcspn scan chars"
    define n2 where "n2 = strspn (drop n1 scan) chars"
    note round = esc_round [where scan = scan and chars = chars, folded n1_def, folded n2_def]
    have len: "length (esc_bytes (cstr chars) esc (cstr scan)) =
        n1 + n2 * (length esc + 1) + length (esc_bytes (cstr chars) esc (cstr (drop n2 (drop n1 scan))))"
      unfolding round(2) length_append length_esc_bytes_run [OF round(3)] round(4,5) by (simp del: drop_drop)
    have shorter: "length (drop n2 (drop n1 scan)) < length scan"
      using strspn_progress [OF False, of chars] False by (cases scan) (auto simp: n1_def n2_def)
    have "esc_total chars (length esc) scan acc = esc_total chars (length esc) (drop n2 (drop n1 scan)) (acc + n1 + n2 * (length esc + 1))"
      using False less.prems len by (subst esc_total.simps) (simp add: n1_def [symmetric] n2_def [symmetric] Let_def del: drop_drop)
    then show ?thesis
      using less.hyps [OF shorter, of "acc + n1 + n2 * (length esc + 1)"] less.prems len by simp
  qed
qed

lemma esc_run_ok:
  assumes "buf_weak b" and "n \<le> length scan" and "set (take n scan) \<subseteq> set (cstr chars)" and "0 \<notin> set (take n scan)"
    and "buf_size b + length (esc_bytes (cstr chars) esc (take n scan)) < buf_asize b"
  shows "\<exists>b'. esc_run esc n b scan = Some (b', drop n scan) \<and> buf_weak b' \<and> buf_asize b' = buf_asize b \<and>
    content b' = content b @ esc_bytes (cstr chars) esc (take n scan)"
  using assms
proof (induction n arbitrary: b scan)
  case (Suc n)
  then obtain c s where scan: "scan = c # s" by (cases scan) auto
  have e: "esc_bytes (cstr chars) esc (take (Suc n) scan) = (esc @ [c]) @ esc_bytes (cstr chars) esc (take n s)"
    using Suc.prems(3) scan by (simp add: esc_bytes_def)
  obtain b1 where b1: "buf_push b esc = Some b1" "buf_weak b1" "content b1 = content b @ esc" "buf_asize b1 = buf_asize b"
      "buf_size b1 = buf_size b + length esc"
    using buf_push_weak [OF Suc.prems(1), of esc] Suc.prems(5) e by auto
  obtain b2 where b2: "buf_push b1 [c] = Some b2" "buf_weak b2" "content b2 = content b @ esc @ [c]" "buf_asize b2 = buf_asize b"
      "buf_size b2 = buf_size b + length esc + 1"
    using buf_push_weak [OF b1(2), of "[c]"] b1 Suc.prems(5) e by auto
  have "\<exists>b'. esc_run esc n b2 s = Some (b', drop n s) \<and> buf_weak b' \<and> buf_asize b' = buf_asize b2 \<and>
      content b' = content b2 @ esc_bytes (cstr chars) esc (take n s)"
    using Suc.prems scan b2 e by (intro Suc.IH) auto
  then show ?case using scan b1 b2 e by auto
qed simp

lemma esc_copy_ok:
  assumes "buf_weak b" and "buf_size b + length (esc_bytes (cstr chars) esc (cstr scan)) < buf_asize b"
  shows "\<exists>b'. esc_copy chars esc b scan = Some b' \<and> buf_weak b' \<and> buf_asize b' = buf_asize b \<and>
    content b' = content b @ esc_bytes (cstr chars) esc (cstr scan)"
  using assms
proof (induction "length scan" arbitrary: scan b rule: less_induct)
  case less
  show ?case
  proof (cases "peek scan = 0")
    case True
    then have "cstr scan = []" by (cases scan) (simp_all add: cstr_def)
    then show ?thesis using True less.prems by (simp add: esc_copy.simps)
  next
    case False
    define n1 where "n1 = strcspn scan chars"
    define n2 where "n2 = strspn (drop n1 scan) chars"
    define rest where "rest = drop n2 (drop n1 scan)"
    note round = esc_round [where scan = scan and chars = chars, folded n1_def, folded n2_def]
    have e: "esc_bytes (cstr chars) esc (cstr scan) =
        take n1 scan @ esc_bytes (cstr chars) esc (take n2 (drop n1 scan)) @ esc_bytes (cstr chars) esc (cstr rest)"
      unfolding rest_def by (rule round(2))
    have shorter: "length rest < length scan"
      using strspn_progress [OF False, of chars] False by (cases scan) (auto simp: n1_def n2_def rest_def)
    obtain b1 where b1: "buf_push b (take n1 scan) = Some b1" "buf_weak b1" "content b1 = content b @ take n1 scan"
        "buf_asize b1 = buf_asize b" "buf_size b1 = buf_size b + n1"
      using buf_push_weak [OF less.prems(1), of "take n1 scan"] less.prems(2) e round(5) by auto
    have "take n2 (drop n1 scan) = drop n1 (take (n1 + n2) scan)" by (simp add: drop_take)
    then have "0 \<notin> set (take n2 (drop n1 scan))"
      using take_cstr [OF round(1)] cstr_no_nul [of scan] in_set_dropD in_set_takeD by metis
    moreover have "n2 \<le> length (drop n1 scan)" using round(4) by simp
    ultimately obtain b2 where b2: "esc_run esc n2 b1 (drop n1 scan) = Some (b2, rest)" "buf_weak b2" "buf_asize b2 = buf_asize b"
        "content b2 = content b @ take n1 scan @ esc_bytes (cstr chars) esc (take n2 (drop n1 scan))"
      using esc_run_ok [OF b1(2) _ round(3), of esc] round(5) b1 less.prems(2) e by (auto simp: rest_def)
    have "buf_size b2 + length (esc_bytes (cstr chars) esc (cstr rest)) < buf_asize b2"
      using less.prems(2) e b2(3) arg_cong [OF b2(4), of length] length_content_weak [OF b2(2)] length_content_weak [OF less.prems(1)]
      by simp
    then obtain b3 where "esc_copy chars esc b2 rest = Some b3" "buf_weak b3" "buf_asize b3 = buf_asize b2"
        "content b3 = content b2 @ esc_bytes (cstr chars) esc (cstr rest)"
      using less.hyps [OF shorter b2(2)] by auto
    moreover have "esc_copy chars esc b scan = esc_copy chars esc b2 rest"
      using False b1(1) b2(1) by (subst esc_copy.simps) (simp add: n1_def [symmetric] n2_def [symmetric] Let_def)
    ultimately show ?thesis using b2 e by auto
  qed
qed

lemma git_buf_text_puts_escaped_ok:
  assumes al: "good_alloc al" and wf: "buf_wf b"
    and lim: "buf_size b + length (esc_bytes (cstr chars) (cstr esc) (cstr str)) + 1 \<le> BUF_LIMIT"
  shows "text_outcome al (content b @ esc_bytes (cstr chars) (cstr esc) (cstr str))
    (git_buf_text_puts_escaped al b (Some str) chars esc)"
proof -
  let ?n = "length (esc_bytes (cstr chars) (cstr esc) (cstr str))"
  have n: "esc_total chars (cstrlen esc) str 0 = ?n"
    using esc_total_ok [of 0 chars "cstr esc" str] lim by (simp add: cstrlen_def BUF_LIMIT_def)
  have "text_outcome al (content b @ esc_bytes (cstr chars) (cstr esc) (cstr str))
      (or_fail (git_buf_grow_by al b (?n + 1)) (\<lambda>b. do { b1 \<leftarrow> esc_copy chars (cstr esc) b str; b2 \<leftarrow> buf_terminate b1; Some (0, b2) }))"
  proof (rule or_fail_grow_by_weak [OF al buf_wf_weak [OF wf]])
    fix b' assume b': "buf_weak b'" "content b' = content b" "buf_size b' = buf_size b" "buf_size b + (?n + 1) \<le> buf_asize b'"
    obtain b1 where "esc_copy chars (cstr esc) b' str = Some b1" "buf_weak b1" "buf_asize b1 = buf_asize b'"
        "content b1 = content b @ esc_bytes (cstr chars) (cstr esc) (cstr str)"
      using esc_copy_ok [OF b'(1), of chars "cstr esc" str] b' by auto
    then show "text_outcome al (content b @ esc_bytes (cstr chars) (cstr esc) (cstr str))
        (do { b1 \<leftarrow> esc_copy chars (cstr esc) b' str; b2 \<leftarrow> buf_terminate b1; Some (0, b2) })"
      using buf_terminate_weak [of b1] b'(4) by (auto simp: text_outcome_def)
  qed (use lim in simp_all)
  then show ?thesis using n lim by (simp add: git_buf_text_puts_escaped_def BUF_LIMIT_def)
qed


subsection \<open>Unescaping\<close>

fun unesc_bytes :: "byte list \<Rightarrow> byte list" where
  "unesc_bytes [] = []"
| "unesc_bytes [c] = [c]"
| "unesc_bytes (c # d # s) = (if c = 92 then d # unesc_bytes s else c # unesc_bytes (d # s))"

lemma unesc_step_plain:
  assumes "c \<noteq> 0" and "c = 92 \<longrightarrow> r = []"
  shows "unesc_loop (d @ j @ c # r @ 0 # t) (length d + length j) (length d) =
    unesc_loop ((d @ [c]) @ (if j = [] then [] else tl j @ [c]) @ r @ 0 # t) (length d + length j + 1) (length d + 1)"
proof -
  have nth: "(d @ j @ c # r @ 0 # t) ! (length d + length j) = c" "(d @ j @ c # r @ 0 # t) ! (length d + length j + 1) = (r @ [0]) ! 0"
    by (simp_all add: nth_append)
  have upd: "(d @ j @ c # r @ 0 # t)[length d := c] = (d @ [c]) @ (tl j @ [c]) @ r @ 0 # t" if "j \<noteq> []"
    using that by (cases j) (simp_all add: list_update_append)
  show ?thesis
    using assms nth upd by (subst unesc_loop.simps) (cases "j = []"; cases "c = 92"; simp add: Let_def nth_append)
qed

lemma unesc_step_escape:
  assumes "c \<noteq> 0"
  shows "unesc_loop (d @ j @ 92 # c # r @ 0 # t) (length d + length j) (length d) =
    unesc_loop ((d @ [c]) @ (tl (j @ [92]) @ [c]) @ r @ 0 # t) (length d + length j + 2) (length d + 1)"
proof -
  have nth: "(d @ j @ 92 # c # r @ 0 # t) ! (length d + length j) = 92"
    "(d @ j @ 92 # c # r @ 0 # t) ! Suc (length d + length j) = c"
    by (simp_all add: nth_append Suc_diff_le)
  have upd: "(d @ j @ 92 # c # r @ 0 # t)[length d := c] = (d @ [c]) @ (tl (j @ [92]) @ [c]) @ r @ 0 # t"
    by (cases j) (simp_all add: list_update_append)
  show ?thesis
    using assms nth upd by (subst unesc_loop.simps) (simp add: Let_def)
qed

lemma unesc_loop_ok:
  assumes "0 \<notin> set r"
  shows "\<exists>m'. unesc_loop (d @ j @ r @ 0 # t) (length d + length j) (length d) =
      Some (m', length d + length j + length r, length d + length (unesc_bytes r)) \<and>
    take (length d + length (unesc_bytes r)) m' = d @ unesc_bytes r \<and> length m' = length (d @ j @ r @ 0 # t) \<and>
    m' ! (length d + length j + length r) = 0"
  using assms
proof (induction r arbitrary: d j rule: unesc_bytes.induct)
  case 1
  then show ?case by (simp add: unesc_loop.simps nth_append)
next
  case (2 c)
  then show ?case
    using unesc_step_plain [of c "[]" d j t] by (simp add: unesc_loop.simps nth_append)
next
  case (3 c c' s)
  show ?case
  proof (cases "c = 92")
    case True
    then show ?thesis
      using 3 unesc_step_escape [of c' d j s t] "3.IH"(1) [OF True, of "d @ [c']" "tl (j @ [92]) @ [c']"] by simp
  next
    case False
    then show ?thesis
      using 3 unesc_step_plain [of c "c' # s" d j t] "3.IH"(2) [OF False, of "d @ [c]" "if j = [] then [] else tl j @ [c]"]
      by (cases j) simp_all
  qed
qed

lemma unesc_esc: "92 \<in> set chars \<Longrightarrow> unesc_bytes (esc_bytes chars [92] s) = s"
proof (induction s)
  case (Cons c s)
  have "unesc_bytes (c # u) = c # unesc_bytes u" if "c \<noteq> 92" for u :: "byte list" using that by (cases u) simp_all
  then show ?case using Cons by (cases "c = 92") (auto simp: esc_bytes_def)
qed simp

lemma length_unesc_bytes: "length (unesc_bytes r) \<le> length r"
  by (induction r rule: unesc_bytes.induct) auto

lemma cstr_split: "\<exists>t. s @ [0] = cstr s @ 0 # t"
  by (induction s) (auto simp: cstr_def)

lemma git_buf_text_unescape_ok:
  assumes "buf_wf b"
  shows "\<exists>b'. git_buf_text_unescape b = Some b' \<and> buf_wf b' \<and> content b' = unesc_bytes (cstr (content b))"
  using assms
proof (cases rule: buf_wf_cases)
  case init
  then show ?thesis
    by (simp add: git_buf_text_unescape_def GIT_BUF_INIT_def git__unescape_def unesc_loop.simps content_def buf_wf_def)
next
  case (block m)
  let ?r = "cstr (content b)"
  obtain t where t: "content b @ [0] = ?r @ 0 # t" using cstr_split [of "content b"] ..
  let ?d = "drop (Suc (buf_size b)) m"
  have "m = (content b @ [0]) @ ?d"
    using block id_take_nth_drop [of "buf_size b" m] by (simp add: content_def)
  also have "\<dots> = [] @ [] @ ?r @ 0 # (t @ ?d)" unfolding t by simp
  finally have m: "m = [] @ [] @ ?r @ 0 # (t @ ?d)" .
  obtain m' where m': "unesc_loop m 0 0 = Some (m', length ?r, length (unesc_bytes ?r))"
      "take (length (unesc_bytes ?r)) m' = unesc_bytes ?r" "length m' = length m" "m' ! length ?r = 0"
    using unesc_loop_ok [of ?r "[]" "[]" "t @ drop (Suc (buf_size b)) m", folded m] by auto
  have "length (unesc_bytes ?r) \<le> buf_size b"
    using length_unesc_bytes [of ?r] length_content [OF assms] by (metis cstr_def length_takeWhile_le le_trans)
  then show ?thesis
    using block m' by (auto simp: git_buf_text_unescape_def git__unescape_def buf_wf_def content_def)
qed


section \<open>The common prefix\<close>

fun common_run :: "byte list \<Rightarrow> byte list \<Rightarrow> byte list" where
  "common_run (x # xs) (y # ys) = (if x = y then x # common_run xs ys else [])"
| "common_run _ _ = []"

lemma common_run_prefix: "prefix p (common_run xs ys) \<longleftrightarrow> prefix p xs \<and> prefix p ys"
  by (induction xs ys arbitrary: p rule: common_run.induct) (auto simp: prefix_Cons)

lemma shared_run_eq: "0 \<notin> set y \<Longrightarrow> shared_run x (y @ 0 # t) = length (common_run y (cstr x))"
proof (induction x arbitrary: y)
  case (Cons c x)
  then show ?case by (cases y) (auto simp: cstr_def)
qed (cases y, simp_all add: cstr_def)

lemma common_run_take: "common_run y x = take (length (common_run y x)) y"
  by (induction y x rule: common_run.induct) auto

lemma content_shared_run:
  assumes "buf_wf b" and "0 \<notin> set (content b)"
  shows "shared_run x (mem_cells (buf_ptr b)) = length (common_run (content b) (cstr x))"
  using assms(1)
proof (cases rule: buf_wf_cases)
  case init
  then show ?thesis using shared_run_eq [of "[]" x "[]"] by (simp add: GIT_BUF_INIT_def content_def)
next
  case (block m)
  then have "m = content b @ 0 # drop (Suc (buf_size b)) m"
    using id_take_nth_drop [of "buf_size b" m] by (simp add: content_def)
  then show ?thesis using shared_run_eq [OF assms(2)] block(1) by (metis mem_cells.simps(4))
qed

lemma prefix_loop_ok:
  assumes "buf_wf b" and "0 \<notin> set (content b)"
  shows "\<exists>b'. prefix_loop b strs = Some b' \<and> buf_wf b' \<and> content b' = foldl (\<lambda>p s. common_run p (cstr s)) (content b) strs"
  using assms
proof (induction strs arbitrary: b)
  case (Cons x strs)
  have nil: "foldl (\<lambda>p s. common_run p (cstr s)) [] l = []" for l by (induction l) auto
  obtain b1 where b1: "git_buf_truncate b (shared_run x (mem_cells (buf_ptr b))) = Some b1" "buf_wf b1"
      "content b1 = common_run (content b) (cstr x)"
    using git_buf_truncate_wf [OF Cons.prems(1)] content_shared_run [OF Cons.prems] common_run_take by metis
  then have "0 \<notin> set (content b1)"
    using Cons.prems(2) common_run_take [of "content b" "cstr x"] by (metis in_set_takeD)
  then show ?case
    using Cons.IH [OF b1(2)] b1 length_content [OF b1(2)] nil by (cases "buf_size b1 = 0") auto
qed simp

lemma foldl_common_run_prefix: "prefix p (foldl (\<lambda>p s. common_run p (cstr s)) d strs) \<longleftrightarrow> prefix p d \<and> (\<forall>s\<in>set strs. prefix p (cstr s))"
  by (induction strs arbitrary: d) (auto simp: common_run_prefix)


section \<open>Statistics\<close>

fun crlf_pairs :: "byte list \<Rightarrow> nat" where
  "crlf_pairs [] = 0"
| "crlf_pairs (c # s) = (if c = 13 \<and> s \<noteq> [] \<and> hd s = 10 then Suc (crlf_pairs s) else crlf_pairs s)"

lemma stats_step_counts:
  "st_lf (stats_step c scan st) = st_lf st + (if c = 10 then 1 else 0)"
  "st_cr (stats_step c scan st) = st_cr st + (if c = 13 then 1 else 0)"
  "st_crlf (stats_step c scan st) = st_crlf st + (if c = 13 \<and> scan \<noteq> [] \<and> hd scan = 10 then 1 else 0)"
  by (auto simp: stats_step_def Let_def)

lemma stats_loop_counts:
  "st_lf (stats_loop s st) = st_lf st + of_nat (count_list s 10)"
  "st_cr (stats_loop s st) = st_cr st + of_nat (count_list s 13)"
  "st_crlf (stats_loop s st) = st_crlf st + of_nat (crlf_pairs s)"
  by (induction s st rule: stats_loop.induct) (auto simp: stats_step_counts)

lemma counts_butlast:
  assumes "s \<noteq> []" and "last s = 26"
  shows "count_list (butlast s) 10 = count_list s 10" "count_list (butlast s) 13 = count_list s 13"
    "crlf_pairs (butlast s) = crlf_pairs s"
proof -
  have pairs: "crlf_pairs (t @ [26]) = crlf_pairs t" for t by (induction t rule: crlf_pairs.induct) (auto simp: hd_append)
  have "s = butlast s @ [26]" using assms append_butlast_last_id [of s] by simp
  then have "count_list s x = count_list (butlast s) x + count_list [26] x" "crlf_pairs s = crlf_pairs (butlast s)" for x
    using pairs [of "butlast s"] count_list_append [of "butlast s" "[26]" x] by metis+
  then show "count_list (butlast s) 10 = count_list s 10" "count_list (butlast s) 13 = count_list s 13"
    "crlf_pairs (butlast s) = crlf_pairs s" by simp_all
qed

lemma gather_stats_counts:
  "\<exists>bin st. git_buf_text_gather_stats b False = Some (bin, st) \<and> st_lf st = of_nat (count_list (content b) 10) \<and>
    st_cr st = of_nat (count_list (content b) 13) \<and> st_crlf st = of_nat (crlf_pairs (content b)) \<and>
    (bin \<longleftrightarrow> st_nul st > 0 \<or> drop_bit 7 (st_printable st) < st_nonprintable st)"
proof -
  have "\<exists>p. git_buf_text_detect_bom b 0 = Some p" by (auto simp: git_buf_text_detect_bom_def)
  then obtain skip bom where "git_buf_text_detect_bom b 0 = Some (skip, bom)" by (metis surj_pair)
  then show ?thesis
    using counts_butlast [of "content b"]
    by (auto simp: git_buf_text_gather_stats_def Let_def stats_loop_counts)
qed

lemma lf_to_crlf_pairs: "crlf_pairs ((if p then [13] else []) @ lf_to_crlf p s) = count_list ((if p then [13] else []) @ lf_to_crlf p s) 10"
proof (induction p s rule: lf_to_crlf.induct)
  case (2 p c s)
  then show ?case by (cases "c = 10"; cases "c = 13"; cases p) auto
qed simp

lemma lf_to_crlf_lines: "count_list (lf_to_crlf p s) 10 = count_list s 10"
  by (induction p s rule: lf_to_crlf.induct) auto

section \<open>Properties\<close>

text \<open>C14: Converting a text to CRLF and back gives what converting it to LF alone gives, the original when it had no carriage
  return; converting to CRLF twice changes nothing more; and the statistics of a converted text count as many CRLF pairs as line feeds, those of
  the original.\<close>

theorem git_buf_text_line_endings:
  assumes "alloc_env al" and "buf_wf src" and "buf_wf t1" and "buf_wf t2" and "buf_wf t3" and "4 * buf_size src + 4 \<le> BUF_LIMIT"
  shows "\<exists>crlf lf again bin st. git_buf_text_lf_to_crlf al t1 src = Some (0, crlf) \<and>
    git_buf_text_crlf_to_lf al t2 crlf = Some (0, lf) \<and> git_buf_text_lf_to_crlf al t3 crlf = Some (0, again) \<and>
    content lf = crlf_to_lf (content src) \<and> (13 \<notin> set (content src) \<longrightarrow> content lf = content src) \<and>
    content again = content crlf \<and>
    git_buf_text_gather_stats crlf False = Some (bin, st) \<and> st_crlf st = st_lf st \<and>
    st_lf st = of_nat (count_list (content src) 10)"
proof -
  have al: "good_alloc al" using assms(1) by (simp add: alloc_env_def)
  have len: "length (lf_to_crlf p s) \<le> 2 * length s" for p s by (induction p s rule: lf_to_crlf.induct) auto
  obtain crlf where crlf: "git_buf_text_lf_to_crlf al t1 src = Some (0, crlf)" "buf_wf crlf" "content crlf = lf_to_crlf False (content src)"
    using text_outcome_total [OF git_buf_text_lf_to_crlf_ok [OF al assms(3,2)] assms(1)] assms(6) by auto
  then have size: "buf_size crlf \<le> 2 * buf_size src"
    using len [of False "content src"] length_content assms(2) by metis
  obtain lf where lf: "git_buf_text_crlf_to_lf al t2 crlf = Some (0, lf)" "content lf = crlf_to_lf (content src)"
    using text_outcome_total [OF git_buf_text_crlf_to_lf_ok [OF al assms(4) crlf(2)] assms(1)] size assms(6)
      crlf_to_lf_to_crlf [of False "content src"] by (auto simp: crlf(3))
  obtain again where again: "git_buf_text_lf_to_crlf al t3 crlf = Some (0, again)" "content again = content crlf"
    using text_outcome_total [OF git_buf_text_lf_to_crlf_ok [OF al assms(5) crlf(2)] assms(1)] size assms(6)
      lf_to_crlf_idem [of False "content src"] by (auto simp: crlf(3))
  have "13 \<notin> set (content src) \<longrightarrow> crlf_to_lf (content src) = content src"
    using crlf_to_lf_no_cr [of "content src" "[]"] by simp
  moreover obtain bin st where "git_buf_text_gather_stats crlf False = Some (bin, st)" "st_lf st = of_nat (count_list (content src) 10)"
      "st_crlf st = of_nat (count_list (content src) 10)"
    using gather_stats_counts [of crlf] lf_to_crlf_pairs [of False "content src"] lf_to_crlf_lines [of False "content src"]
    by (auto simp: crlf(3))
  ultimately show ?thesis using crlf(1) lf again by auto
qed

definition text_sample :: git_buf where
  "text_sample = \<lparr>buf_ptr = Block [97, 10, 98, 10, 0], buf_asize = 5, buf_size = 4\<rparr>"

lemma text_sample [simp]: "buf_wf text_sample" "content text_sample = [97, 10, 98, 10]" "buf_size text_sample = 4"
  by (simp_all add: text_sample_def buf_wf_def content_def)

theorem git_buf_text_line_endings_witness:
  "\<exists>crlf lf again bin st. git_buf_text_lf_to_crlf (fill_alloc 0) GIT_BUF_INIT text_sample = Some (0, crlf) \<and>
    git_buf_text_crlf_to_lf (fill_alloc 0) GIT_BUF_INIT crlf = Some (0, lf) \<and>
    git_buf_text_lf_to_crlf (fill_alloc 0) GIT_BUF_INIT crlf = Some (0, again) \<and>
    content lf = crlf_to_lf (content text_sample) \<and> (13 \<notin> set (content text_sample) \<longrightarrow> content lf = content text_sample) \<and>
    content again = content crlf \<and>
    git_buf_text_gather_stats crlf False = Some (bin, st) \<and> st_crlf st = st_lf st \<and>
    st_lf st = of_nat (count_list (content text_sample) 10)"
  by (rule git_buf_text_line_endings) (simp_all add: BUF_LIMIT_def)

text \<open>C15: Escaping appends the string with \<open>esc_with\<close> before each of the given characters, or fails only for memory; when the
  escape is a backslash that is escaped itself, unescaping the text gives the string back.\<close>

theorem git_buf_text_escape_roundtrip:
  assumes "good_alloc al" and "buf_wf b"
    and "buf_size b + length (esc_bytes (cstr chars) (cstr esc) (cstr str)) + 1 \<le> BUF_LIMIT"
  shows "\<exists>r b'. git_buf_text_puts_escaped al b (Some str) chars esc = Some (r, b') \<and>
    (r = -1 \<and> \<not> total_alloc al \<and> git_buf_oom b' \<or>
     r = 0 \<and> buf_wf b' \<and> content b' = content b @ esc_bytes (cstr chars) (cstr esc) (cstr str) \<and>
     (content b = [] \<and> cstr esc = [92] \<and> 92 \<in> set (cstr chars) \<longrightarrow>
      (\<exists>b''. git_buf_text_unescape b' = Some b'' \<and> buf_wf b'' \<and> content b'' = cstr str)))"
proof -
  have nonul: "0 \<notin> set (esc_bytes (cstr chars) [92] (cstr str))"
    using cstr_no_nul [of str] by (auto simp: esc_bytes_def split: if_splits)
  have "\<exists>b''. git_buf_text_unescape b' = Some b'' \<and> buf_wf b'' \<and> content b'' = cstr str"
    if "buf_wf b'" "content b' = content b @ esc_bytes (cstr chars) (cstr esc) (cstr str)"
      "content b = []" "cstr esc = [92]" "92 \<in> set (cstr chars)" for b'
    using git_buf_text_unescape_ok [OF that(1)] that unesc_esc [OF that(5), of "cstr str"] cstr_id [OF nonul] by auto
  then show ?thesis
    using git_buf_text_puts_escaped_ok [OF assms] unfolding text_outcome_def by blast
qed

theorem git_buf_text_escape_roundtrip_witness:
  "\<exists>r b'. git_buf_text_puts_escaped (limit_alloc 64 0) GIT_BUF_INIT (Some [97, 92, 42, 0]) [42, 92] [92] = Some (r, b') \<and>
    (r = -1 \<and> \<not> total_alloc (limit_alloc 64 (0 :: byte)) \<and> git_buf_oom b' \<or>
     r = 0 \<and> buf_wf b' \<and>
     content b' = content GIT_BUF_INIT @ esc_bytes (cstr [42, 92]) (cstr [92]) (cstr [97, 92, 42, 0]) \<and>
     (content GIT_BUF_INIT = [] \<and> cstr [92] = [92] \<and> 92 \<in> set (cstr [42, 92]) \<longrightarrow>
      (\<exists>b''. git_buf_text_unescape b' = Some b'' \<and> buf_wf b'' \<and> content b'' = cstr [97, 92, 42, 0])))"
  by (rule git_buf_text_escape_roundtrip) (simp_all add: BUF_LIMIT_def GIT_BUF_INIT_def [THEN arg_cong, of buf_size] esc_bytes_def cstr_def)

text \<open>The common prefix is the greatest one: its prefixes are exactly the common prefixes of all the strings.\<close>

theorem git_buf_text_common_prefix_greatest:
  assumes "alloc_env al" and "buf_wf b" and "cstrlen str + 1 < BUF_LIMIT"
  shows "\<exists>b'. git_buf_text_common_prefix al b (Some (str # strs)) = Some (0, b') \<and> buf_wf b' \<and>
    (\<forall>p. prefix p (content b') \<longleftrightarrow> (\<forall>s\<in>set (str # strs). prefix p (cstr s)))"
proof -
  obtain b1 where b1: "git_buf_clear b = Some b1" "buf_wf b1" using git_buf_clear_wf [OF assms(2)] by auto
  have "cstrlen str \<le> length str" by (simp add: cstrlen_def cstr_def length_takeWhile_le)
  then obtain b2 where b2: "git_buf_sets al b1 (Some str) = Some (0, b2)" "buf_wf b2" "content b2 = cstr str"
    using buf_outcome_total [OF git_buf_set_outcome [OF _ b1(2), of al "cstrlen str" str] assms(1)] assms(1,3) take_cstr [of "cstrlen str" str]
    by (auto simp: git_buf_sets_def alloc_env_def cstrlen_def)
  then show ?thesis
    using b1 prefix_loop_ok [OF b2(2), of strs] foldl_common_run_prefix [of _ "cstr str" strs]
    by (auto simp: git_buf_text_common_prefix_def)
qed

theorem git_buf_text_common_prefix_greatest_witness:
  "\<exists>b'. git_buf_text_common_prefix (fill_alloc 0) text_sample (Some (bytes_of ''foobar'' # [bytes_of ''football'', bytes_of ''foo''])) = Some (0, b') \<and>
    buf_wf b' \<and>
    (\<forall>p. prefix p (content b') \<longleftrightarrow> (\<forall>s\<in>set (bytes_of ''foobar'' # [bytes_of ''football'', bytes_of ''foo'']). prefix p (cstr s)))"
  by (rule git_buf_text_common_prefix_greatest) (simp_all add: BUF_LIMIT_def cstrlen_def cstr_def bytes_of_def)

end
