(* ===== verification/Message.thy ===== *)
theory Message
  imports BufText
begin

text \<open>
  Cleaning up a commit message (message.c): trailing whitespace, comment lines and surplus blank lines go.
\<close>

section \<open>The model\<close>

fun line_length_without_trailing_spaces :: "byte list \<Rightarrow> nat \<Rightarrow> nat" where
  "line_length_without_trailing_spaces line 0 = 0"
| "line_length_without_trailing_spaces line (Suc len) =
     (if git_isspace (line ! len) then line_length_without_trailing_spaces line len else Suc len)"

text \<open>The length of the line at the head of the rest of the message, with its newline.\<close>

definition message_line :: "byte list \<Rightarrow> nat" where
  "message_line msg = (case memchr 10 msg of Some k \<Rightarrow> k + 1 | None \<Rightarrow> length msg)"

lemma message_line_pos: "msg \<noteq> [] \<Longrightarrow> 0 < message_line msg"
  by (auto simp: message_line_def split: option.split)

text \<open>
  The loop. The results of the appends are not looked at, as in the code; the counter of empty lines is an \<open>int\<close> that
  only grows and is compared with 0, so it is kept unbounded.
\<close>

function prettify_loop :: "byte allocator \<Rightarrow> bool \<Rightarrow> byte \<Rightarrow> int \<Rightarrow> git_buf \<Rightarrow> byte list \<Rightarrow> git_buf option" where
  "prettify_loop al strip comment empties buf msg =
     (if msg = [] then Some buf
      else
        let line_length = message_line msg; rest = drop line_length msg
        in if strip \<and> line_length \<noteq> 0 \<and> msg ! 0 = comment then prettify_loop al strip comment empties buf rest
           else
             let rtrimmed = line_length_without_trailing_spaces msg line_length
             in if rtrimmed = 0 then prettify_loop al strip comment (empties + 1) buf rest
                else
                  (case (if empties > 0 \<and> buf_size buf > 0 then map_option snd (git_buf_putc al buf 10) else Some buf) of
                     None \<Rightarrow> None
                   | Some b1 \<Rightarrow>
                       (case map_option snd (git_buf_put al b1 (take rtrimmed msg)) of
                          None \<Rightarrow> None
                        | Some b2 \<Rightarrow>
                            (case map_option snd (git_buf_putc al b2 10) of
                               None \<Rightarrow> None
                             | Some b3 \<Rightarrow> prettify_loop al strip comment 0 b3 rest))))"
  by pat_completeness auto

termination
  by (relation "measure (\<lambda>(_, _, _, _, _, msg). length msg)") (auto simp: message_line_pos)

declare prettify_loop.simps [simp del]

definition git_message_prettify :: "byte allocator \<Rightarrow> git_buf \<Rightarrow> byte list \<Rightarrow> bool \<Rightarrow> byte \<Rightarrow> (int \<times> git_buf) option" where
  "git_message_prettify al message_out message strip_comments comment_char = do {
     b \<leftarrow> git_buf_sanitize message_out;
     b' \<leftarrow> prettify_loop al strip_comments comment_char 0 b (cstr message);
     Some (if git_buf_oom b' then -1 else 0, b') }"

section \<open>What it computes\<close>

text \<open>The lines of a text without their newlines.\<close>

fun text_lines :: "byte list \<Rightarrow> byte list list" where
  "text_lines [] = []"
| "text_lines (c # s) = (if c = 10 then [] # text_lines s else case text_lines s of [] \<Rightarrow> [[c]] | l # ls \<Rightarrow> (c # l) # ls)"

definition rtrim :: "byte list \<Rightarrow> byte list" where
  "rtrim l = rev (dropWhile git_isspace (rev l))"

text \<open>The kept lines, one blank line where there were some between two of them.\<close>

fun pretty :: "(byte list \<Rightarrow> bool) \<Rightarrow> bool \<Rightarrow> bool \<Rightarrow> byte list list \<Rightarrow> byte list" where
  "pretty drop_line blank started [] = []"
| "pretty drop_line blank started (l # ls) =
     (if drop_line l then pretty drop_line blank started ls
      else if rtrim l = [] then pretty drop_line True started ls
      else (if blank \<and> started then [10] else []) @ rtrim l @ [10] @ pretty drop_line False True ls)"

text \<open>Which lines are comments.\<close>

definition comment_line :: "bool \<Rightarrow> byte \<Rightarrow> byte list \<Rightarrow> bool" where
  "comment_line strip comment l \<longleftrightarrow> strip \<and> hd (l @ [10]) = comment"

lemma rtrim_length: "line_length_without_trailing_spaces line n = length (rtrim (take n line))" if "n \<le> length line"
  using that by (induction n) (auto simp: rtrim_def take_Suc_conv_app_nth)

lemma rtrim_prefix: "rtrim l = take (length (rtrim l)) l"
proof -
  have "l = rev (takeWhile git_isspace (rev l) @ dropWhile git_isspace (rev l))" by simp
  also have "\<dots> = rtrim l @ rev (takeWhile git_isspace (rev l))" unfolding rtrim_def by (simp only: rev_append)
  finally show ?thesis by (metis append_eq_conv_conj)
qed

lemma isspace_nl: "git_isspace 10"
  by (simp add: git_isspace_def)

lemma rtrim_nl: "rtrim (l @ [10]) = rtrim l"
  by (simp add: rtrim_def isspace_nl)

lemma text_lines_break: "10 \<notin> set l \<Longrightarrow> text_lines (l @ 10 # s) = l # text_lines s"
  by (induction l) auto

lemma text_lines_last: "10 \<notin> set l \<Longrightarrow> l \<noteq> [] \<Longrightarrow> text_lines l = [l]"
proof (induction l)
  case (Cons c l)
  then show ?case by (cases "l = []") auto
qed simp

text \<open>One line of the message, with and without its newline.\<close>

lemma message_line_split:
  assumes "msg \<noteq> []"
  obtains l where "text_lines msg = l # text_lines (drop (message_line msg) msg)" "hd (l @ [10]) = msg ! 0"
    "line_length_without_trailing_spaces msg (message_line msg) = length (rtrim l)" "take (length (rtrim l)) msg = rtrim l"
    "message_line msg \<le> length msg" "length l \<le> message_line msg"
proof (cases "memchr 10 msg")
  case None
  then have "10 \<notin> set msg" by (simp add: memchr_None)
  then show ?thesis
    using None assms text_lines_last [of msg] rtrim_length [of "length msg" msg] rtrim_prefix [of msg]
    by (intro that [of msg]) (auto simp: message_line_def hd_conv_nth nth_append)
next
  case (Some k)
  note k = memchr_Some [OF Some]
  have line: "take (k + 1) msg = take k msg @ [10]" using k(1,2) by (simp add: take_Suc_conv_app_nth)
  have pre: "take (length (rtrim (take k msg))) msg = rtrim (take k msg)"
  proof -
    have "length (rtrim (take k msg)) \<le> length (take k msg)" by (metis rtrim_prefix length_take min.cobounded1)
    then show ?thesis using rtrim_prefix [of "take k msg"] k(1) by (simp add: min_def)
  qed
  have "text_lines msg = take k msg # text_lines (drop (Suc k) msg)"
    using text_lines_break [OF k(3), of "drop (Suc k) msg"] k(4) by simp
  moreover have "hd (take k msg @ [10]) = msg ! 0"
    using k(1,2) by (cases k; cases msg) auto
  ultimately show ?thesis
    using Some k(1) rtrim_length [of "k + 1" msg] pre line rtrim_nl [of "take k msg"]
    by (intro that [of "take k msg"]) (auto simp: message_line_def)
qed


lemma pretty_length: "length (pretty d blank started (text_lines msg)) \<le> 3 * length msg"
proof (induction "length msg" arbitrary: msg blank started rule: less_induct)
  case less
  show ?case
  proof (cases "msg = []")
    case False
    obtain l where l: "text_lines msg = l # text_lines (drop (message_line msg) msg)" "message_line msg \<le> length msg" "length l \<le> message_line msg"
      by (rule message_line_split [OF False])
    have IH: "length (pretty d b st (text_lines (drop (message_line msg) msg))) \<le> 3 * (length msg - message_line msg)" for b st
      using less [of "drop (message_line msg) msg"] message_line_pos [OF False] l(2) False by simp
    have "length (rtrim l) \<le> length l" by (metis rtrim_prefix length_take min.cobounded1)
    then show ?thesis
      using IH [of True started] IH [of blank started] IH [of False True] message_line_pos [OF False] l by (auto simp: le_diff_conv)
  qed simp
qed

lemma prettify_loop_ok:
  assumes "alloc_env al" and "buf_wf b" and "length (content b) + 3 * length msg + 3 < BUF_LIMIT" and "0 \<le> e"
  shows "\<exists>b'. prettify_loop al strip comment e b msg = Some b' \<and> buf_wf b' \<and>
    content b' = content b @ pretty (comment_line strip comment) (0 < e) (content b \<noteq> []) (text_lines msg)"
  using assms
proof (induction "length msg" arbitrary: msg b e rule: less_induct)
  case less
  note al = less.prems(1) and wf = less.prems(2) and lim = less.prems(3)
  show ?case
  proof (cases "msg = []")
    case True
    then show ?thesis using wf by (simp add: prettify_loop.simps)
  next
    case False
    define n where "n = message_line msg"
    obtain l where l: "text_lines msg = l # text_lines (drop n msg)" "hd (l @ [10]) = msg ! 0"
        "line_length_without_trailing_spaces msg n = length (rtrim l)" "take (length (rtrim l)) msg = rtrim l" "n \<le> length msg" "length l \<le> n"
      unfolding n_def by (rule message_line_split [OF False])
    have n: "0 < n" "length (drop n msg) < length msg" using message_line_pos [OF False] False by (simp_all add: n_def)
    have rl: "length (rtrim l) \<le> length l" by (metis rtrim_prefix length_take min.cobounded1)
    have drop: "strip \<and> n \<noteq> 0 \<and> msg ! 0 = comment \<longleftrightarrow> comment_line strip comment l"
      using n(1) l(2) by (auto simp: comment_line_def)
    show ?thesis
    proof (cases "comment_line strip comment l")
      case True
      then have "prettify_loop al strip comment e b msg = prettify_loop al strip comment e b (drop n msg)"
        using False drop by (subst prettify_loop.simps) (simp add: n_def [symmetric] Let_def)
      then show ?thesis
        using less.hyps [OF n(2) al wf _ less.prems(4)] lim l(1,5) True by simp
    next
      case keep: False
      show ?thesis
      proof (cases "rtrim l = []")
        case True
        then have "prettify_loop al strip comment e b msg = prettify_loop al strip comment (e + 1) b (drop n msg)"
          using False drop keep l(3) by (subst prettify_loop.simps) (auto simp: n_def [symmetric] Let_def)
        then show ?thesis
          using less.hyps [OF n(2) al wf, of "e + 1"] lim l(1,5) True keep less.prems(4) by simp
      next
        case line: False
        define gap where "gap = (if 0 < e \<and> content b \<noteq> [] then [10] else [] :: byte list)"
        have size: "0 < buf_size b \<longleftrightarrow> content b \<noteq> []" using length_content [OF wf] by (metis length_greater_0_conv)
        have "\<exists>b1. (if e > 0 \<and> buf_size b > 0 then map_option snd (git_buf_putc al b 10) else Some b) = Some b1 \<and> buf_wf b1 \<and>
            content b1 = content b @ gap"
          using git_buf_putc_total [OF al wf, of 10] wf lim size by (auto simp: gap_def)
        then obtain b1 where b1: "(if e > 0 \<and> buf_size b > 0 then map_option snd (git_buf_putc al b 10) else Some b) = Some b1"
            "buf_wf b1" "content b1 = content b @ gap" by blast
        have g: "length gap \<le> 1" by (simp add: gap_def)
        obtain b2 where b2: "git_buf_put al b1 (rtrim l) = Some (0, b2)" "buf_wf b2" "content b2 = content b1 @ rtrim l"
          using gb.put_ok [OF al b1(2), of "rtrim l"] lim l(5,6) rl g b1(3) by auto
        obtain b3 where b3: "git_buf_putc al b2 10 = Some (0, b3)" "buf_wf b3" "content b3 = content b2 @ [10]"
          using git_buf_putc_total [OF al b2(2), of 10] lim l(5,6) rl g b1(3) b2(3) by auto
        have "prettify_loop al strip comment e b msg = prettify_loop al strip comment 0 b3 (drop n msg)"
          using False drop keep line l(3,4) b1(1) b2(1) b3(1)
          by (subst prettify_loop.simps) (auto simp: n_def [symmetric] Let_def)
        moreover have "length (content b3) + 3 * length (drop n msg) + 3 < BUF_LIMIT"
          using lim l(5,6) rl g b1(3) b2(3) b3(3) n(1) by simp
        ultimately show ?thesis
          using less.hyps [OF n(2) al b3(2), of 0] l(1) keep line b1(3) b2(3) b3(3) by (auto simp: gap_def)
      qed
    qed
  qed
qed


section \<open>Tidy texts\<close>

definition tidy :: "(byte list \<Rightarrow> bool) \<Rightarrow> byte list \<Rightarrow> bool" where
  "tidy drop_line text \<longleftrightarrow>
     (let ls = text_lines text in
      (text \<noteq> [] \<longrightarrow> last text = 10 \<and> hd ls \<noteq> [] \<and> last ls \<noteq> []) \<and>
      (\<forall>l\<in>set ls. rtrim l = l \<and> (l \<noteq> [] \<longrightarrow> \<not> drop_line l)) \<and>
      (\<forall>i. Suc i < length ls \<longrightarrow> ls ! i \<noteq> [] \<or> ls ! Suc i \<noteq> []))"

lemma text_lines_no_nl: "l \<in> set (text_lines msg) \<Longrightarrow> 10 \<notin> set l"
  by (induction msg arbitrary: l rule: text_lines.induct) (auto split: list.splits if_splits)

lemma rtrim_set: "set (rtrim l) \<subseteq> set l"
  by (metis rtrim_prefix set_take_subset)

lemma rtrim_idem: "rtrim (rtrim l) = rtrim l"
  by (simp add: rtrim_def)

lemma rtrim_Nil [simp]: "rtrim [] = []"
  by (simp add: rtrim_def)

lemma rtrim_hd: "rtrim l \<noteq> [] \<Longrightarrow> hd (rtrim l @ [10]) = hd (l @ [10])"
  by (metis rtrim_prefix hd_append2 hd_take length_greater_0_conv take_Nil)

text \<open>The lines of the result.\<close>

fun pretty_lines :: "(byte list \<Rightarrow> bool) \<Rightarrow> bool \<Rightarrow> bool \<Rightarrow> byte list list \<Rightarrow> byte list list" where
  "pretty_lines drop_line blank started [] = []"
| "pretty_lines drop_line blank started (l # ls) =
     (if drop_line l then pretty_lines drop_line blank started ls
      else if rtrim l = [] then pretty_lines drop_line True started ls
      else (if blank \<and> started then [[]] else []) @ rtrim l # pretty_lines drop_line False True ls)"

lemma pretty_concat: "pretty d blank started ls = concat (map (\<lambda>l. l @ [10]) (pretty_lines d blank started ls))"
  by (induction d blank started ls rule: pretty_lines.induct) auto

lemma text_lines_concat: "\<forall>l\<in>set ls. 10 \<notin> set l \<Longrightarrow> text_lines (concat (map (\<lambda>l. l @ [10]) ls)) = ls"
  by (induction ls) (simp_all add: text_lines_break)

lemma pretty_lines_no_nl: "\<forall>l\<in>set ls. 10 \<notin> set l \<Longrightarrow> \<forall>l\<in>set (pretty_lines d blank started ls). 10 \<notin> set l"
proof (induction d blank started ls rule: pretty_lines.induct)
  case (2 d blank started l ls)
  have "10 \<notin> set (rtrim l)" using 2(4) rtrim_set [of l] by auto
  then show ?case using 2 by auto
qed simp

lemma pretty_lines_kept:
  assumes "\<And>l. rtrim l \<noteq> [] \<Longrightarrow> d (rtrim l) \<longleftrightarrow> d l"
  shows "\<forall>l\<in>set (pretty_lines d blank started ls). rtrim l = l \<and> (l \<noteq> [] \<longrightarrow> \<not> d l)"
proof (induction ls arbitrary: blank started)
  case (Cons l ls)
  show ?case using Cons.IH assms [of l] by (cases "rtrim l = []") (auto simp: rtrim_idem)
qed simp

text \<open>No two blank lines in a row, none at the end, and none at the start of an empty text.\<close>

lemma pretty_lines_shape:
  "(pretty_lines d blank started ls \<noteq> [] \<longrightarrow> last (pretty_lines d blank started ls) \<noteq> []) \<and>
   (pretty_lines d blank started ls \<noteq> [] \<and> \<not> (blank \<and> started) \<and> \<not> started \<longrightarrow> hd (pretty_lines d blank started ls) \<noteq> []) \<and>
   successively (\<lambda>a b. a \<noteq> [] \<or> b \<noteq> []) (pretty_lines d blank started ls)"
proof (induction d blank started ls rule: pretty_lines.induct)
  case (2 d blank started l ls)
  then show ?case by (auto simp: successively_Cons)
qed simp

lemma pretty_lines_again:
  assumes "\<And>l. rtrim l \<noteq> [] \<Longrightarrow> d (rtrim l) \<longleftrightarrow> d l" and "\<not> d []"
  shows "pretty_lines d False started (pretty_lines d blank started ls) = pretty_lines d blank started ls"
proof (induction ls arbitrary: blank started)
  case (Cons l ls)
  show ?case using Cons.IH assms(1) [of l] assms(2) by (cases "rtrim l = []") (simp_all add: rtrim_idem)
qed simp


lemma pretty_set: "set (pretty d blank started ls) \<subseteq> insert 10 (\<Union>l\<in>set ls. set l)"
proof (induction ls arbitrary: blank started)
  case (Cons l ls)
  show ?case using Cons.IH [of blank started] Cons.IH [of True started] Cons.IH [of False True] rtrim_set [of l] by auto
qed simp

lemma text_lines_set: "(\<Union>l\<in>set (text_lines s). set l) \<subseteq> set s"
proof (induction s)
  case (Cons c s)
  then show ?case by (cases "text_lines s") (simp_all, blast+)
qed simp

lemma pretty_tidy:
  assumes "\<forall>l\<in>set ls. 10 \<notin> set l" and "\<And>l. rtrim l \<noteq> [] \<Longrightarrow> d (rtrim l) \<longleftrightarrow> d l"
  shows "tidy d (pretty d False False ls)"
proof -
  define ps where "ps = pretty_lines d False False ls"
  have lines: "text_lines (pretty d False False ls) = ps"
    unfolding pretty_concat ps_def by (rule text_lines_concat) (rule pretty_lines_no_nl [OF assms(1)])
  have shape: "ps \<noteq> [] \<longrightarrow> last ps \<noteq> []" "ps \<noteq> [] \<longrightarrow> hd ps \<noteq> []" "successively (\<lambda>a b. a \<noteq> [] \<or> b \<noteq> []) ps"
    using pretty_lines_shape [of d False False ls] by (simp_all add: ps_def)
  have "last (pretty d False False ls) = 10" if "ps \<noteq> []"
    unfolding pretty_concat ps_def [symmetric] using that by (cases ps rule: rev_cases) auto
  moreover have "pretty d False False ls = [] \<longleftrightarrow> ps = []" unfolding pretty_concat ps_def by auto
  moreover have "ps ! i \<noteq> [] \<or> ps ! Suc i \<noteq> []" if "Suc i < length ps" for i
    using successively_nth [OF shape(3) that] .
  ultimately show ?thesis
    using shape(1,2) pretty_lines_kept [of d False False ls, OF assms(2)] by (auto simp: tidy_def lines ps_def [symmetric])
qed

section \<open>Properties\<close>



end
