(* ===== verification/Strings.thy ===== *)
theory Strings
  imports Sort
begin

text \<open>
  The string comparisons and the two tokenizers of util.c. A string is given by the bytes of its object from
  the pointer on, whose end counts as NUL.
\<close>

section \<open>Comparing\<close>

fun git__strcmp :: "byte list \<Rightarrow> byte list \<Rightarrow> int" where
  "git__strcmp (a # as) (b # bs) = (if a \<noteq> 0 \<and> b \<noteq> 0 \<and> a = b then git__strcmp as bs else uint a - uint b)"
| "git__strcmp as bs = uint (peek as) - uint (peek bs)"

fun git__strcasecmp :: "byte list \<Rightarrow> byte list \<Rightarrow> int" where
  "git__strcasecmp (a # as) (b # bs) =
     (if a \<noteq> 0 \<and> b \<noteq> 0 \<and> git_tolower a = git_tolower b then git__strcasecmp as bs
      else uint (git_tolower a) - uint (git_tolower b))"
| "git__strcasecmp as bs = uint (git_tolower (peek as)) - uint (git_tolower (peek bs))"

text \<open>The loop of \<open>git__strcasesort_cmp\<close>; \<open>cmp\<close> is the first difference of case found so far.\<close>

fun casesort_loop :: "int \<Rightarrow> byte list \<Rightarrow> byte list \<Rightarrow> int" where
  "casesort_loop cmp (a # as) (b # bs) =
     (if a \<noteq> 0 \<and> b \<noteq> 0 \<and> git_tolower a = git_tolower b
      then casesort_loop (if a \<noteq> b \<and> cmp = 0 then uint a - uint b else cmp) as bs
      else if a \<noteq> 0 \<or> b \<noteq> 0 then uint (git_tolower a) - uint (git_tolower b)
      else cmp)"
| "casesort_loop cmp [] bs = (if peek bs \<noteq> 0 then 0 - uint (git_tolower (peek bs)) else cmp)"
| "casesort_loop cmp (a # as) [] = (if a \<noteq> 0 then uint (git_tolower a) - 0 else cmp)"

definition git__strcasesort_cmp :: "byte list \<Rightarrow> byte list \<Rightarrow> int" where
  "git__strcasesort_cmp a b = casesort_loop 0 a b"

fun git__strncmp :: "byte list \<Rightarrow> byte list \<Rightarrow> nat \<Rightarrow> int" where
  "git__strncmp as bs 0 = 0"
| "git__strncmp as bs (Suc sz) =
     (if peek as \<noteq> 0 \<and> peek bs \<noteq> 0 \<and> peek as = peek bs then git__strncmp (tl as) (tl bs) sz
      else uint (peek as) - uint (peek bs))"

text \<open>The loop tests \<open>--sz\<close> after its first round, so a length of 0 wraps around: there is then no bound but the strings' ends.\<close>

fun strncasecmp_loop :: "nat \<Rightarrow> byte list \<Rightarrow> byte list \<Rightarrow> int" where
  "strncasecmp_loop sz (a # as) (b # bs) =
     (let al = git_tolower a; bl = git_tolower b; sz' = (sz + SIZE_MAX) mod 2 ^ 64
      in if sz' \<noteq> 0 \<and> al \<noteq> 0 \<and> al = bl then strncasecmp_loop sz' as bs else uint al - uint bl)"
| "strncasecmp_loop sz as bs = uint (git_tolower (peek as)) - uint (git_tolower (peek bs))"

definition git__strncasecmp :: "byte list \<Rightarrow> byte list \<Rightarrow> nat \<Rightarrow> int" where
  "git__strncasecmp a b sz = strncasecmp_loop sz a b"

text \<open>\<open>for (i = 0; i < len; ++i)\<close> over the object.\<close>

definition git__strntolower :: "byte list \<Rightarrow> nat \<Rightarrow> byte list option" where
  "git__strntolower str len = (if length str < len then None else Some (map git_tolower (take len str) @ drop len str))"

definition git__strtolower :: "byte list \<Rightarrow> byte list option" where
  "git__strtolower str = git__strntolower str (cstrlen str)"

fun git__prefixcmp :: "byte list \<Rightarrow> byte list \<Rightarrow> int" where
  "git__prefixcmp str [] = 0"
| "git__prefixcmp str (p # prefix) =
     (if p = 0 then 0 else if peek str \<noteq> p then uint (peek str) - uint p else git__prefixcmp (tl str) prefix)"

text \<open>\<open>strncasecmp\<close> of the C library.\<close>

fun strncasecmp :: "byte list \<Rightarrow> byte list \<Rightarrow> nat \<Rightarrow> int" where
  "strncasecmp as bs 0 = 0"
| "strncasecmp as bs (Suc n) =
     (let al = git_tolower (peek as); bl = git_tolower (peek bs)
      in if al \<noteq> bl then uint al - uint bl else if al = 0 then 0 else strncasecmp (tl as) (tl bs) n)"

definition git__prefixcmp_icase :: "byte list \<Rightarrow> byte list \<Rightarrow> int" where
  "git__prefixcmp_icase str prefix = strncasecmp str prefix (cstrlen prefix)"

text \<open>Neither the prefix nor the string is checked for its end: reading behind the object is \<open>None\<close>.\<close>

fun git__prefixncmp_icase :: "byte list \<Rightarrow> nat \<Rightarrow> byte list \<Rightarrow> int option" where
  "git__prefixncmp_icase str 0 prefix = (case prefix of [] \<Rightarrow> None | p # _ \<Rightarrow> Some (0 - schar p))"
| "git__prefixncmp_icase (c # str) (Suc n) (p # prefix) =
     (let s = uint (git_tolower c); q = uint (git_tolower p)
      in if s \<noteq> q then Some (s - q) else git__prefixncmp_icase str n prefix)"
| "git__prefixncmp_icase _ (Suc n) _ = None"

text \<open>\<open>strcmp\<close> of the C library compares as \<open>git__strcmp\<close> does.\<close>

definition git__suffixcmp :: "byte list \<Rightarrow> byte list \<Rightarrow> int" where
  "git__suffixcmp str suffix =
     (let a = cstrlen str; b = cstrlen suffix
      in if a < b then -1 else git__strcmp (drop (a - b) str) suffix)"

definition git__strcmp_cb :: "byte list \<Rightarrow> byte list \<Rightarrow> int" where
  "git__strcmp_cb a b = git__strcmp a b"

definition git__strcasecmp_cb :: "byte list \<Rightarrow> byte list \<Rightarrow> int" where
  "git__strcasecmp_cb a b = git__strcasecmp a b"

definition git__parse_bool :: "byte list option \<Rightarrow> int \<times> int option" where
  "git__parse_bool value =
     (case value of
        None \<Rightarrow> (0, Some 1)
      | Some v \<Rightarrow>
          if git__strcasecmp v (bytes_of ''true'') = 0 \<or> git__strcasecmp v (bytes_of ''yes'') = 0 \<or>
             git__strcasecmp v (bytes_of ''on'') = 0 then (0, Some 1)
          else if git__strcasecmp v (bytes_of ''false'') = 0 \<or> git__strcasecmp v (bytes_of ''no'') = 0 \<or>
             git__strcasecmp v (bytes_of ''off'') = 0 \<or> peek v = 0 then (0, Some 0)
          else (-1, None))"

text \<open>\<open>git__memrchr\<close>: the offset of the last byte equal to \<open>c\<close> among the first \<open>n\<close>.\<close>

fun git__memrchr :: "byte list \<Rightarrow> byte \<Rightarrow> nat \<Rightarrow> nat option" where
  "git__memrchr s c 0 = None"
| "git__memrchr s c (Suc n) = (if s ! n = c then Some n else git__memrchr s c n)"

section \<open>Tokens\<close>

text \<open>
  The string is cut up in place: the state is the memory of the string and the offset of \<open>*end\<close>; the result is the
  offset of the token, which then ends at the NUL stored behind it. Offsets past the memory's NUL do not occur.
\<close>

definition skip_while :: "(byte \<Rightarrow> bool) \<Rightarrow> byte list \<Rightarrow> nat \<Rightarrow> nat" where
  "skip_while P m i = i + length (takeWhile P (cstr (drop i m)))"

definition git__strtok :: "byte list \<Rightarrow> byte list \<Rightarrow> nat \<Rightarrow> nat option \<times> byte list \<times> nat" where
  "git__strtok sep m end =
     (let ptr = skip_while (\<lambda>c. c \<in> set (cstr sep)) m end in
      if peek (drop ptr m) \<noteq> 0 then
        let e = skip_while (\<lambda>c. c \<notin> set (cstr sep)) m (ptr + 1)
        in if peek (drop e m) \<noteq> 0 then (Some ptr, m[e := 0], e + 1) else (Some ptr, m, e)
      else (None, m, end))"

definition git__strsep :: "byte list \<Rightarrow> byte list \<Rightarrow> nat \<Rightarrow> nat option \<times> byte list \<times> nat" where
  "git__strsep sep m end =
     (let ptr = skip_while (\<lambda>c. c \<notin> set (cstr sep)) m end in
      if peek (drop ptr m) \<noteq> 0 then (Some end, m[ptr := 0], ptr + 1) else (None, m, end))"

definition git__linenlen :: "byte list \<Rightarrow> nat \<Rightarrow> nat" where
  "git__linenlen buffer buffer_len =
     (let k = length (takeWhile (\<lambda>c. c \<noteq> 10) (take buffer_len buffer)) in if k < length (take buffer_len buffer) then k + 1 else buffer_len)"

fun next_line_skip :: "byte list \<Rightarrow> byte list" where
  "next_line_skip [] = []"
| "next_line_skip (c # s) = (if c = 10 \<or> c = 13 then next_line_skip s else c # s)"

fun git__next_line :: "byte list \<Rightarrow> byte list" where
  "git__next_line [] = []"
| "git__next_line (c # s) = (if c \<noteq> 0 \<and> c \<noteq> 10 then git__next_line s else next_line_skip (c # s))"

section \<open>Insertion sort\<close>

text \<open>
  \<open>git__insertsort_r\<close>: \<open>swap_ok\<close> says whether the element used for swapping exists (the caller's, or the result of
  \<open>git__malloc\<close>, which is not checked); the first swap without it is undefined.
\<close>

fun insert_down :: "bool \<Rightarrow> ('a \<Rightarrow> 'a \<Rightarrow> int) \<Rightarrow> nat \<Rightarrow> 'a list \<Rightarrow> 'a list option" where
  "insert_down swap_ok cmp 0 els = Some els"
| "insert_down swap_ok cmp (Suc j) els =
     (if cmp (els ! Suc j) (els ! j) < 0
      then if swap_ok then insert_down swap_ok cmp j (els[Suc j := els ! j, j := els ! Suc j]) else None
      else Some els)"

fun insertsort_from :: "bool \<Rightarrow> ('a \<Rightarrow> 'a \<Rightarrow> int) \<Rightarrow> nat list \<Rightarrow> 'a list \<Rightarrow> 'a list option" where
  "insertsort_from swap_ok cmp [] els = Some els"
| "insertsort_from swap_ok cmp (i # is) els = Option.bind (insert_down swap_ok cmp i els) (insertsort_from swap_ok cmp is)"

definition git__insertsort_r :: "bool \<Rightarrow> 'a list \<Rightarrow> ('a \<Rightarrow> 'a \<Rightarrow> 'p \<Rightarrow> int) \<Rightarrow> 'p \<Rightarrow> 'a list option" where
  "git__insertsort_r swap_ok els cmp payload = insertsort_from swap_ok (\<lambda>x y. cmp x y payload) [1..<length els] els"


section \<open>The order on strings\<close>

lemma tolower_0 [simp]: "git_tolower c = 0 \<longleftrightarrow> c = 0"
  by (auto simp: git_tolower_def unat_arith_simps unat_word_ariths)

lemma uint_diff:
  "uint (a :: byte) - uint b < 0 \<longleftrightarrow> a < b" "uint (a :: byte) - uint b = 0 \<longleftrightarrow> a = b"
  "uint (a :: byte) < uint b \<longleftrightarrow> a < b" "uint (a :: byte) = uint b \<longleftrightarrow> a = b"
  by (simp_all add: word_less_def word_uint_eq_iff)

lemma tolower_zero [simp]: "git_tolower 0 = 0"
  by (simp add: git_tolower_def)

lemma byte_pos: "0 < uint (c :: byte) \<longleftrightarrow> c \<noteq> 0" "0 < c \<longleftrightarrow> c \<noteq> 0"
  by (simp_all add: word_neq_0_conv uint_diff(3) [of 0, simplified])

definition fold_case :: "byte list \<Rightarrow> byte list" where
  "fold_case s = map git_tolower (cstr s)"

lemma fold_case_simps [simp]:
  "fold_case [] = []" "fold_case (c # s) = (if c = 0 then [] else git_tolower c # fold_case s)"
  by (simp_all add: fold_case_def cstr_def)

lemma cstr_Cons [simp]: "cstr (c # s) = (if c = 0 then [] else c # cstr s)"
  by (simp add: cstr_def)

lemma casesort_loop_less:
  "casesort_loop cmp a b < 0 \<longleftrightarrow>
     ord_class.lexordp (fold_case a) (fold_case b) \<or>
     fold_case a = fold_case b \<and> (cmp < 0 \<or> cmp = 0 \<and> ord_class.lexordp (cstr a) (cstr b))"
proof (induction cmp a b rule: casesort_loop.induct)
  case (1 cmp a as b bs)
  show ?case
  proof (cases "a \<noteq> 0 \<and> b \<noteq> 0 \<and> git_tolower a = git_tolower b")
    case True
    then show ?thesis using 1 by (auto simp: uint_diff)
  next
    case False
    then show ?thesis by (auto simp: uint_diff byte_pos)
  qed
next
  case (2 cmp bs)
  then show ?case by (cases bs) (auto simp: byte_pos)
next
  case (3 cmp a as)
  then show ?case by (auto simp: byte_pos)
qed


text \<open>The key that the comparison sorts by: the string without case, then the string itself.\<close>

definition key_less :: "byte list \<Rightarrow> byte list \<Rightarrow> bool" where
  "key_less a b \<longleftrightarrow> ord_class.lexordp (fold_case a) (fold_case b) \<or>
     fold_case a = fold_case b \<and> ord_class.lexordp (cstr a) (cstr b)"

lemma casesort_less: "git__strcasesort_cmp a b < 0 \<longleftrightarrow> key_less a b"
  by (simp add: git__strcasesort_cmp_def casesort_loop_less key_less_def)

lemma casesort_loop_flip: "casesort_loop (- cmp) b a = - casesort_loop cmp a b"
proof (induction cmp a b rule: casesort_loop.induct)
  case (1 cmp a as b bs)
  let ?c = "if a \<noteq> b \<and> cmp = 0 then uint a - uint b else cmp"
  have neg: "(if b \<noteq> a \<and> - cmp = 0 then uint b - uint a else - cmp) = - ?c" by simp
  show ?case
  proof (cases "a \<noteq> 0 \<and> b \<noteq> 0 \<and> git_tolower a = git_tolower b")
    case True
    then have "casesort_loop (- cmp) (b # bs) (a # as) = casesort_loop (- ?c) bs as"
      unfolding casesort_loop.simps(1) neg by simp
    also have "\<dots> = - casesort_loop ?c as bs" by (rule "1.IH" [OF True])
    also have "casesort_loop ?c as bs = casesort_loop cmp (a # as) (b # bs)"
      unfolding casesort_loop.simps(1) using True by simp
    finally show ?thesis .
  next
    case False
    then have "\<not> (b \<noteq> 0 \<and> a \<noteq> 0 \<and> git_tolower b = git_tolower a)" by auto
    then show ?thesis unfolding casesort_loop.simps(1) if_not_P [OF False] by (simp only: if_not_P) auto
  qed
next
  case (2 cmp bs)
  show ?case
  proof (cases bs)
    case Nil
    then show ?thesis by simp
  next
    case (Cons b bs')
    then show ?thesis by (cases "b = 0") simp_all
  qed
next
  case (3 cmp a as)
  show ?case by (cases "a = 0") simp_all
qed

lemma casesort_flip: "git__strcasesort_cmp b a = - git__strcasesort_cmp a b"
  unfolding git__strcasesort_cmp_def using casesort_loop_flip [of 0 b a] by (simp only: minus_zero)

lemma fold_case_cstr: "cstr a = cstr b \<Longrightarrow> fold_case a = fold_case b"
  by (simp add: fold_case_def)

lemma key_less_linear: "key_less a b \<or> cstr a = cstr b \<or> key_less b a"
  using lexordp_linear [of "fold_case a" "fold_case b"] lexordp_linear [of "cstr a" "cstr b"] by (auto simp: key_less_def)

lemma key_less_trans: "key_less a b \<Longrightarrow> key_less b c \<Longrightarrow> key_less a c"
  using lexordp_trans [of "fold_case a" "fold_case b" "fold_case c"] lexordp_trans [of "cstr a" "cstr b" "cstr c"]
  by (auto simp: key_less_def)

lemma key_less_cong: "cstr a = cstr a' \<Longrightarrow> cstr b = cstr b' \<Longrightarrow> key_less a b = key_less a' b'"
  by (simp add: key_less_def fold_case_def)

lemma key_less_irrefl: "\<not> key_less a a"
  by (simp add: key_less_def lexordp_irreflexive')

lemma casesort_total: "total_cmp git__strcasesort_cmp"
  unfolding total_cmp_def
proof (intro conjI allI impI)
  fix x y z
  show "git__strcasesort_cmp x y < 0 \<longleftrightarrow> 0 < git__strcasesort_cmp y x" using casesort_flip [of x y] by simp
  assume "git__strcasesort_cmp x y \<le> 0" "git__strcasesort_cmp y z \<le> 0"
  then have "\<not> key_less y x" "\<not> key_less z y"
    using casesort_flip [of x y] casesort_flip [of y z] by (simp_all flip: casesort_less)
  then have "\<not> key_less z x" using key_less_linear [of x y] key_less_linear [of y z] key_less_trans key_less_cong key_less_irrefl by metis
  then show "git__strcasesort_cmp x z \<le> 0" using casesort_flip [of x z] by (simp flip: casesort_less)
qed


section \<open>Insertion sort agrees with timsort\<close>

lemma insert_down_ok:
  assumes cm: "total_cmp cmp" and "sorted_by cmp (A @ C)" and "\<forall>c\<in>set C. cmp x c < 0"
  shows "\<exists>A1 A2. insert_down True cmp (length A) (A @ x # C @ D) = Some (A1 @ x # A2 @ C @ D) \<and> A = A1 @ A2 \<and>
    sorted_by cmp (A1 @ x # A2 @ C) \<and> stable_eq cmp (A @ [x]) (A1 @ x # A2)"
  using assms(2,3)
proof (induction A arbitrary: C rule: rev_induct)
  case Nil
  then show ?case by (auto intro: less_imp_le)
next
  case (snoc a A)
  have nth: "(A @ a # x # C @ D) ! length A = a" "(A @ a # x # C @ D) ! Suc (length A) = x"
    by (simp_all add: nth_append)
  show ?case
  proof (cases "cmp x a < 0")
    case True
    have upd: "(A @ a # x # C @ D)[Suc (length A) := a, length A := x] = A @ x # (a # C) @ D"
      by (simp add: list_update_append)
    have "sorted_by cmp (A @ a # C)" "\<forall>c\<in>set (a # C). cmp x c < 0" using snoc.prems True by auto
    from snoc.IH [OF this] obtain A1 A2 where
      r: "insert_down True cmp (length A) (A @ x # (a # C) @ D) = Some (A1 @ x # A2 @ (a # C) @ D)" "A = A1 @ A2"
        "sorted_by cmp (A1 @ x # A2 @ a # C)" "stable_eq cmp (A @ [x]) (A1 @ x # A2)" by auto
    have "stable_eq cmp ([a] @ [x]) (x # [a])" using True by (intro stable_eq_rotate [OF cm]) simp
    then have st1: "stable_eq cmp (A @ [a, x]) (A @ [x, a])"
      using stable_eq_append [of cmp A A "[a, x]" "[x, a]"] by simp
    have st2: "stable_eq cmp (A @ [x, a]) (A1 @ x # A2 @ [a])"
      using stable_eq_append [OF r(4), of "[a]" "[a]"] by simp
    from stable_eq_trans [OF st1 st2] have "stable_eq cmp (A @ [a, x]) (A1 @ x # A2 @ [a])" .
    then show ?thesis
      using r True nth upd by (intro exI [of _ A1] exI [of _ "A2 @ [a]"]) simp
  next
    case False
    then have ax: "cmp a x \<le> 0" using total_cmp_le [OF cm, of a x] by simp
    have "sorted_by cmp ((A @ [a]) @ x # C)"
      using snoc.prems ax total_cmp_trans [OF cm] by (auto simp: sorted_wrt_append intro: less_imp_le)
    then show ?thesis
      using False nth by (intro exI [of _ "A @ [a]"] exI [of _ "[]"]) simp
  qed
qed

lemma insertsort_from_ok:
  assumes cm: "total_cmp cmp" and "k \<le> length els" and "sorted_by cmp (take k els)" and "0 < k \<or> els = []"
  shows "\<exists>ys. insertsort_from True cmp [k..<length els] els = Some ys \<and> sorted_by cmp ys \<and> stable_eq cmp els ys \<and> length ys = length els"
  using assms(2-)
proof (induction "length els - k" arbitrary: k els)
  case 0
  then show ?case by simp
next
  case (Suc n)
  then have k: "k < length els" by simp
  have split: "els = take k els @ els ! k # [] @ drop (Suc k) els" using id_take_nth_drop [OF k] by simp
  from insert_down_ok [OF cm, of "take k els" "[]" "els ! k" "drop (Suc k) els"] Suc.prems(2) k
  obtain A1 A2 where r: "insert_down True cmp k (take k els @ els ! k # drop (Suc k) els) = Some (A1 @ els ! k # A2 @ drop (Suc k) els)"
      "take k els = A1 @ A2" "sorted_by cmp (A1 @ els ! k # A2)" "stable_eq cmp (take k els @ [els ! k]) (A1 @ els ! k # A2)"
    by auto
  define els' where "els' = A1 @ els ! k # A2 @ drop (Suc k) els"
  have len: "length els' = length els" "length (A1 @ A2) = k" using k arg_cong [OF r(2), of length] by (auto simp: els'_def)
  have st: "stable_eq cmp els els'"
    using stable_eq_append [OF r(4), of "drop (Suc k) els" "drop (Suc k) els"] split by (simp add: els'_def)
  have "take (Suc k) els' = A1 @ els ! k # A2" using len(2) by (auto simp: els'_def append_eq_conv_conj)
  then have "sorted_by cmp (take (Suc k) els')" using r(3) by simp
  moreover have "n = length els' - Suc k" "Suc k \<le> length els'" "0 < Suc k \<or> els' = []" using Suc.hyps(2) k len(1) by auto
  ultimately obtain ys where "insertsort_from True cmp [Suc k..<length els'] els' = Some ys" "sorted_by cmp ys" "stable_eq cmp els' ys" "length ys = length els"
    using Suc.hyps(1) [of els' "Suc k"] len(1) by auto
  moreover have "insert_down True cmp k els = Some els'" using r(1) split by (simp add: els'_def)
  moreover have "[k..<length els] = k # [Suc k..<length els']" using k len(1) by (simp add: upt_conv_Cons)
  ultimately show ?case using stable_eq_trans [OF st] by auto
qed

lemma git__insertsort_r_ok:
  assumes "total_cmp (\<lambda>x y. cmp x y payload)"
  shows "\<exists>ys. git__insertsort_r True els cmp payload = Some ys \<and> sorted_by (\<lambda>x y. cmp x y payload) ys \<and>
    stable_eq (\<lambda>x y. cmp x y payload) els ys"
proof (cases "els = []")
  case True
  then show ?thesis by (simp add: git__insertsort_r_def)
next
  case False
  then have "1 \<le> length els" by (cases els) auto
  moreover have "sorted_by (\<lambda>x y. cmp x y payload) (take 1 els)" by (cases els) auto
  ultimately show ?thesis
    using insertsort_from_ok [OF assms, of 1 els] by (auto simp: git__insertsort_r_def)
qed

section \<open>Tokens\<close>

fun split_fields :: "(byte \<Rightarrow> bool) \<Rightarrow> byte list \<Rightarrow> byte list list" where
  "split_fields P [] = [[]]"
| "split_fields P (c # s) = (if P c then [] # split_fields P s else (c # hd (split_fields P s)) # tl (split_fields P s))"

lemma fields_not_Nil [simp]: "split_fields P s \<noteq> []"
  by (induction s) auto

lemma fields_split:
  "split_fields P s = takeWhile (\<lambda>c. \<not> P c) s #
     (case dropWhile (\<lambda>c. \<not> P c) s of [] \<Rightarrow> [] | _ # t \<Rightarrow> split_fields P t)"
  by (induction s) auto

lemma fields_skip: "filter (\<lambda>f. f \<noteq> []) (split_fields P (dropWhile P s)) = filter (\<lambda>f. f \<noteq> []) (split_fields P s)"
  by (induction s) auto

lemma hd_split_fields: "hd (split_fields P s) = takeWhile (\<lambda>c. \<not> P c) s"
  by (subst fields_split) simp

lemma split_fields_none: "\<forall>c\<in>set s. \<not> P c \<Longrightarrow> split_fields P s = [s]"
  by (induction s) auto

lemma split_fields_append: "\<forall>c\<in>set g. \<not> P c \<Longrightarrow> P d \<Longrightarrow> split_fields P (g @ d # t) = g # split_fields P t"
  by (induction g) auto

lemma split_fields_set: "g \<in> set (split_fields P s) \<Longrightarrow> c \<in> set g \<Longrightarrow> \<not> P c \<and> c \<in> set s"
proof (induction s arbitrary: g c)
  case (Cons d s)
  obtain h hs where "split_fields P s = h # hs" by (cases "split_fields P s") auto
  with Cons.IH [of h c] Cons.IH [of g c] Cons.prems show ?case by (auto split: if_splits)
qed simp

lemma in_some_field: "c \<in> set s \<Longrightarrow> \<not> P c \<Longrightarrow> \<exists>g\<in>set (split_fields P s). c \<in> set g"
proof (induction s)
  case (Cons d s)
  obtain h hs where "split_fields P s = h # hs" by (cases "split_fields P s") auto
  with Cons show ?case by auto
qed simp

lemma cstr_stop: "0 \<notin> set s \<Longrightarrow> cstr (s @ 0 # r) = s"
  by (induction s) auto

lemma skip_while_at:
  assumes "0 \<notin> set s" shows "skip_while P (pre @ s @ 0 # r) (length pre) = length pre + length (takeWhile P s)"
  by (simp add: skip_while_def cstr_stop [OF assms])

text \<open>A client's loop that asks for tokens until there is none.\<close>

fun strtok_all :: "nat \<Rightarrow> byte list \<Rightarrow> byte list \<Rightarrow> nat \<Rightarrow> byte list list option" where
  "strtok_all 0 sep m end = None"
| "strtok_all (Suc n) sep m end =
     (case git__strtok sep m end of
        (None, _, _) \<Rightarrow> Some []
      | (Some p, m', end') \<Rightarrow> map_option ((#) (cstr (drop p m'))) (strtok_all n sep m' end'))"

fun strsep_all :: "nat \<Rightarrow> byte list \<Rightarrow> byte list \<Rightarrow> nat \<Rightarrow> byte list list option" where
  "strsep_all 0 sep m end = None"
| "strsep_all (Suc n) sep m end =
     (case git__strsep sep m end of
        (None, _, _) \<Rightarrow> Some []
      | (Some p, m', end') \<Rightarrow> map_option ((#) (cstr (drop p m'))) (strsep_all n sep m' end'))"

lemma strsep_all_ok:
  assumes "0 \<notin> set s" "length s < n"
  shows "strsep_all n sep (pre @ s @ 0 # r) (length pre) = Some (butlast (split_fields (\<lambda>c. c \<in> set (cstr sep)) s))"
  using assms
proof (induction n arbitrary: pre s)
  case (Suc n)
  let ?Q = "\<lambda>c. c \<in> set (cstr sep)"
  let ?t = "takeWhile (\<lambda>c. \<not> ?Q c) s"
  have m: "pre @ s @ 0 # r = (pre @ ?t) @ dropWhile (\<lambda>c. \<not> ?Q c) s @ 0 # r"
    by simp
  have ptr: "skip_while (\<lambda>c. \<not> ?Q c) (pre @ s @ 0 # r) (length pre) = length (pre @ ?t)"
    using skip_while_at [OF Suc.prems(1)] by simp
  have z: "0 \<notin> set ?t" using Suc.prems(1) set_takeWhileD by fastforce
  show ?case
  proof (cases "dropWhile (\<lambda>c. \<not> ?Q c) s")
    case Nil
    have "git__strsep sep (pre @ s @ 0 # r) (length pre) = (None, pre @ s @ 0 # r, length pre)"
      unfolding git__strsep_def ptr by (subst (1) m) (simp add: Nil del: takeWhile_dropWhile_id)
    then show ?thesis by (simp add: fields_split [of ?Q s] Nil)
  next
    case (Cons d s')
    have d: "d \<noteq> 0" "0 \<notin> set s'" using Suc.prems(1) Cons set_dropWhileD [of _ "\<lambda>c. \<not> ?Q c" s] by (metis list.set_intros)+
    have "length s' < n" using Suc.prems(2) arg_cong [OF Cons, of length] length_dropWhile_le [of "\<lambda>c. \<not> ?Q c" s] by simp
    note IH = Suc.IH [of s' "pre @ ?t @ [0]", OF d(2) this]
    have "git__strsep sep (pre @ s @ 0 # r) (length pre) =
        (Some (length pre), pre @ ?t @ 0 # s' @ 0 # r, length (pre @ ?t @ [0]))"
      unfolding git__strsep_def ptr by (subst (1 2) m) (simp add: Cons d(1) list_update_append)
    then show ?thesis using IH by (simp add: fields_split [of ?Q s] Cons cstr_stop [OF z])
  qed
qed simp

lemma strtok_all_ok:
  assumes "0 \<notin> set s" "length s < n"
  shows "strtok_all n sep (pre @ s @ 0 # r) (length pre) = Some (filter (\<lambda>f. f \<noteq> []) (split_fields (\<lambda>c. c \<in> set (cstr sep)) s))"
  using assms
proof (induction n arbitrary: pre s)
  case (Suc n)
  let ?Q = "\<lambda>c. c \<in> set (cstr sep)"
  define pre' where "pre' = pre @ takeWhile ?Q s"
  have m: "pre @ s @ 0 # r = pre' @ dropWhile ?Q s @ 0 # r"
    by (simp add: pre'_def)
  have ptr: "skip_while ?Q (pre @ s @ 0 # r) (length pre) = length pre'"
    using skip_while_at [OF Suc.prems(1)] by (simp add: pre'_def)
  note ptr' = ptr [unfolded m]
  note skip = fields_skip [of ?Q s, symmetric]
  show ?case
  proof (cases "dropWhile ?Q s")
    case Nil
    have "git__strtok sep (pre @ s @ 0 # r) (length pre) = (None, pre @ s @ 0 # r, length pre)"
      using ptr' unfolding git__strtok_def m Nil by simp
    then show ?thesis unfolding skip Nil by simp
  next
    case (Cons c s1)
    have c: "c \<noteq> 0" "0 \<notin> set s1" "\<not> ?Q c"
      using Suc.prems(1) Cons set_dropWhileD [of _ ?Q s] hd_dropWhile [of ?Q s] by (metis list.set_intros list.sel(1) list.distinct(1))+
    let ?t = "takeWhile (\<lambda>c. \<not> ?Q c) s1"
    have z: "0 \<notin> set (c # ?t)" using c set_takeWhileD by fastforce
    have e: "skip_while (\<lambda>c. \<not> ?Q c) (pre' @ (c # s1) @ 0 # r) (length pre' + 1) = length (pre' @ c # ?t)"
      using skip_while_at [OF c(2), of "\<lambda>c. \<not> ?Q c" "pre' @ [c]" r] by simp
    have m1: "pre' @ (c # s1) @ 0 # r = (pre' @ c # ?t) @ dropWhile (\<lambda>c. \<not> ?Q c) s1 @ 0 # r" by simp
    have len: "length s1 < length s" using arg_cong [OF Cons, of length] length_dropWhile_le [of ?Q s] by simp
    have peek1: "peek (drop (length pre') (pre' @ (c # s1) @ 0 # r)) \<noteq> 0" using c(1) by simp
    show ?thesis
    proof (cases "dropWhile (\<lambda>c. \<not> ?Q c) s1")
      case Nil
      then have t: "?t = s1" by (simp add: dropWhile_eq_Nil_conv takeWhile_eq_all_conv)
      have step: "git__strtok sep (pre @ s @ 0 # r) (length pre) = (Some (length pre'), pre' @ (c # s1) @ 0 # r, length (pre' @ c # s1))"
        unfolding git__strtok_def m ptr' Let_def unfolding Cons if_P [OF peek1] e t by simp
      obtain n' where n': "n = Suc n'" using len Suc.prems(2) by (cases n) auto
      have "strtok_all n sep ((pre' @ c # s1) @ [] @ 0 # r) (length (pre' @ c # s1)) = Some []"
        using Suc.IH [of "[]" "pre' @ c # s1"] len Suc.prems(2) by simp
      then show ?thesis using step z [unfolded t] unfolding skip Cons fields_split [of ?Q "c # s1"] by (simp add: c Nil t cstr_stop [of "c # s1", simplified])
    next
      case D: (Cons d s2)
      have d: "d \<noteq> 0" "0 \<notin> set s2" using c(2) D set_dropWhileD [of _ "\<lambda>c. \<not> ?Q c" s1] by (metis list.set_intros)+
      have l2: "length s2 < n" using len Suc.prems(2) arg_cong [OF D, of length] length_dropWhile_le [of "\<lambda>c. \<not> ?Q c" s1] by simp
      have step: "git__strtok sep (pre @ s @ 0 # r) (length pre) =
          (Some (length pre'), pre' @ (c # ?t) @ 0 # s2 @ 0 # r, length (pre' @ c # ?t @ [0]))"
        unfolding git__strtok_def m ptr' Let_def unfolding Cons if_P [OF peek1] e
        by (subst (1 2) m1) (simp add: D d(1) list_update_append)
      show ?thesis using step Suc.IH [OF d(2) l2, of "pre' @ c # ?t @ [0]"] unfolding skip Cons fields_split [of ?Q "c # s1"]
        by (simp add: c D cstr_stop [of ?t] z [simplified])
    qed
  qed
qed simp

section \<open>Properties\<close>

text \<open>\<open>git__strcasesort_cmp\<close> is a total order of strings: it compares them without case first and breaks the tie of
  two strings that differ only in case by their first difference, so it is 0 for equal strings alone.\<close>

theorem git__strcasesort_cmp_order:
  "total_cmp git__strcasesort_cmp \<and>
   (git__strcasesort_cmp a b < 0 \<longleftrightarrow>
     ord_class.lexordp (fold_case a) (fold_case b) \<or> fold_case a = fold_case b \<and> ord_class.lexordp (cstr a) (cstr b)) \<and>
   (git__strcasesort_cmp a b = 0 \<longleftrightarrow> cstr a = cstr b)"
proof (intro conjI)
  show "total_cmp git__strcasesort_cmp" by (rule casesort_total)
  show "git__strcasesort_cmp a b < 0 \<longleftrightarrow>
     ord_class.lexordp (fold_case a) (fold_case b) \<or> fold_case a = fold_case b \<and> ord_class.lexordp (cstr a) (cstr b)"
    by (simp add: casesort_less key_less_def)
  have "git__strcasesort_cmp a b = 0 \<longleftrightarrow> \<not> key_less a b \<and> \<not> key_less b a"
    using casesort_flip [of a b] by (auto simp flip: casesort_less)
  then show "git__strcasesort_cmp a b = 0 \<longleftrightarrow> cstr a = cstr b"
    using key_less_linear key_less_cong key_less_irrefl by metis
qed



text \<open>C19: A loop that asks \<open>git__strtok\<close> for tokens until it returns NULL ends after at most one call more than the string has
  bytes, and has then been given the non-empty fields between the separators, in order.\<close>

theorem git__strtok_all:
  assumes "0 \<notin> set s" and "length s < n"
  shows "strtok_all n sep (s @ 0 # r) 0 = Some (filter (\<lambda>f. f \<noteq> []) (split_fields (\<lambda>c. c \<in> set (cstr sep)) s))"
  using strtok_all_ok [OF assms, of sep "[]" r] by simp

theorem git__strtok_all_witness:
  "strtok_all 10 (bytes_of ''/'') (bytes_of ''/ab//c'' @ [0]) 0 = Some [bytes_of ''ab'', bytes_of ''c'']"
  using git__strtok_all [of "bytes_of ''/ab//c''" 10 "bytes_of ''/''" "[]"] by (simp add: bytes_of_def cstr_def)

text \<open>\<open>git__strsep\<close>, called in the same way, gives the empty fields too, but not the field behind the last separator, although
  the source describes it as \<open>strtok\<close> without collapsing separators.\<close>

lemma git__strsep_all:
  assumes "0 \<notin> set s" and "length s < n"
  shows "strsep_all n sep (s @ 0 # r) 0 = Some (butlast (split_fields (\<lambda>c. c \<in> set (cstr sep)) s))"
  using strsep_all_ok [OF assms, of sep "[]" r] by simp

end
