(* ===== verification/Refs.thy ===== *)
theory Refs
  imports Strings Numbers Oid BufText BufferSpec "HOL-Library.Sublist"
begin

text \<open>
  Reference names (refs.c): their syntax, normalisation, the shorthand forms, and the resolution of symbolic
  references over a reference database.
\<close>

section \<open>The syntax of a segment\<close>

abbreviation GIT_REF_FORMAT_ALLOW_ONELEVEL :: u32 where "GIT_REF_FORMAT_ALLOW_ONELEVEL \<equiv> 1"
abbreviation GIT_REF_FORMAT_REFSPEC_PATTERN :: u32 where "GIT_REF_FORMAT_REFSPEC_PATTERN \<equiv> 2"
abbreviation GIT_REF_FORMAT_REFSPEC_SHORTHAND :: u32 where "GIT_REF_FORMAT_REFSPEC_SHORTHAND \<equiv> 4"

definition is_valid_ref_char :: "byte \<Rightarrow> bool" where
  "is_valid_ref_char ch =
     (if unat ch \<le> 32 then False
      else ch \<notin> {B (CHR ''~''), B (CHR ''^''), B (CHR '':''), B (CHR 0x5C), B (CHR ''?''), B (CHR ''[''), B (CHR ''*'')})"

definition GIT_FILELOCK_EXTENSION :: "byte list" where
  "GIT_FILELOCK_EXTENSION = bytes_of ''.lock''"

text \<open>The scan of a segment: its length, or \<open>None\<close> where the code returns -1. The length is then cut down to an \<open>int\<close>.\<close>

fun segment_loop :: "byte \<Rightarrow> nat \<Rightarrow> byte list \<Rightarrow> nat option" where
  "segment_loop prev n [] = Some n"
| "segment_loop prev n (c # s) =
     (if c = 0 \<or> c = 47 then Some n
      else if \<not> is_valid_ref_char c then None
      else if prev = 46 \<and> c = 46 then None
      else if prev = 64 \<and> c = 123 then None
      else segment_loop c (n + 1) s)"

definition ensure_segment_validity :: "byte list \<Rightarrow> int" where
  "ensure_segment_validity name =
     (let lock_len = length GIT_FILELOCK_EXTENSION in
      if peek name = 46 then -1
      else case segment_loop 0 0 name of
             None \<Rightarrow> -1
           | Some segment_len \<Rightarrow>
               let len = int32 (int segment_len) in
               if len \<ge> int lock_len \<and> take lock_len (drop (segment_len - lock_len) name) = GIT_FILELOCK_EXTENSION then -1
               else len)"

definition is_all_caps_and_underscore :: "byte list \<Rightarrow> nat \<Rightarrow> bool option" where
  "is_all_caps_and_underscore name len =
     (if len = 0 \<or> length name < len then None
      else if \<exists>c\<in>set (take len name). (c < 65 \<or> c > 90) \<and> c \<noteq> 95 then Some False
      else if name ! 0 = 95 \<or> name ! (len - 1) = 95 then Some False
      else Some True)"

section \<open>Normalisation\<close>

lemma peek_drop_nonzero: "peek (drop k s) \<noteq> 0 \<Longrightarrow> k < length s"
  by (cases "k < length s") auto

text \<open>A segment is appended to the buffer: the rest of the name is joined to it, then cut off behind the segment.\<close>

definition normalize_segment :: "byte allocator \<Rightarrow> git_buf \<Rightarrow> byte list \<Rightarrow> nat \<Rightarrow> nat \<Rightarrow> (bool \<times> git_buf) option" where
  "normalize_segment al buf cur segment_len segments_count = do {
     let cur_len = buf_size buf;
     (_, b1) \<leftarrow> git_buf_joinpath al buf (JOwn 0) cur;
     b2 \<leftarrow> git_buf_truncate b1 (cur_len + segment_len + (if segments_count \<noteq> 0 then 1 else 0));
     Some (git_buf_oom b2, b2) }"

text \<open>
  The loop: \<open>i\<close> is the offset of \<open>current\<close>. It ends with an error, or with the offset and the length of the last
  segment and the number of non-empty segments.
\<close>

function normalize_loop :: "byte allocator \<Rightarrow> u32 \<Rightarrow> git_buf option \<Rightarrow> byte list \<Rightarrow> nat \<Rightarrow> nat \<Rightarrow>
    (git_buf option \<times> (int + nat \<times> nat \<times> nat)) option" where
  "normalize_loop al process_flags buf name i segments_count =
     (let cur = drop i name;
          v = ensure_segment_validity cur;
          wild = (v < 0 \<and> (process_flags AND GIT_REF_FORMAT_REFSPEC_PATTERN) \<noteq> 0 \<and> peek cur = 42 \<and>
                  (peek (tl cur) = 0 \<or> peek (tl cur) = 47));
          process_flags' = (if wild then process_flags AND NOT GIT_REF_FORMAT_REFSPEC_PATTERN else process_flags);
          segment_len = (if wild then 1 else nat v)
      in if v < 0 \<and> \<not> wild then Some (buf, Inl GIT_EINVALIDSPEC)
         else
           case (case buf of
                   None \<Rightarrow> Some (False, None)
                 | Some b \<Rightarrow>
                     if segment_len > 0 then map_option (map_prod (\<lambda>x. x) Some) (normalize_segment al b cur segment_len segments_count)
                     else Some (False, Some b)) of
             None \<Rightarrow> None
           | Some (oom, buf') \<Rightarrow>
               let count = (if segment_len > 0 then segments_count + 1 else segments_count)
               in if oom then Some (buf', Inl (-1))
                  else if segment_len = 0 \<and> buf = None then Some (buf', Inl GIT_EINVALIDSPEC)
                  else if peek (drop segment_len cur) = 0 then Some (buf', Inr (i, segment_len, count))
                  else normalize_loop al process_flags' buf' name (i + segment_len + 1) count)"
  by pat_completeness auto

termination
proof (relation "measure (\<lambda>(_, _, _, name, i, _). length name - i)", goal_cases)
  case (2 al process_flags buf name i segments_count cur v wild process_flags' segment_len x xb)
  then have "peek (drop segment_len (drop i name)) \<noteq> 0" by simp
  from peek_drop_nonzero [OF this] show ?case by simp
qed simp

declare normalize_loop.simps [simp del]

text \<open>The checks on the whole name; \<open>name ! (i + segment_len - 1)\<close> is \<open>current[segment_len - 1]\<close>.\<close>

definition normalize_checks :: "byte list \<Rightarrow> u32 \<Rightarrow> nat \<Rightarrow> nat \<Rightarrow> nat \<Rightarrow> int option" where
  "normalize_checks name flags i segment_len segments_count =
     (if segment_len = 0 \<and> segments_count = 0 then Some GIT_EINVALIDSPEC
      else if i + segment_len = 0 \<or> length name < i + segment_len then None
      else if name ! (i + segment_len - 1) = 46 then Some GIT_EINVALIDSPEC
      else if name ! (i + segment_len - 1) = 47 then Some GIT_EINVALIDSPEC
      else if segments_count = 1 \<and> (flags AND GIT_REF_FORMAT_ALLOW_ONELEVEL) = 0 then Some GIT_EINVALIDSPEC
      else do {
        bad1 \<leftarrow> (if segments_count = 1 \<and> (flags AND GIT_REF_FORMAT_REFSPEC_SHORTHAND) = 0 then do {
                  caps \<leftarrow> is_all_caps_and_underscore name segment_len;
                  Some (\<not> (caps \<or> (flags AND GIT_REF_FORMAT_REFSPEC_PATTERN) \<noteq> 0 \<and> git__strcmp (bytes_of ''*'') name = 0)) }
                else Some False);
        if bad1 then Some GIT_EINVALIDSPEC
        else do {
          bad2 \<leftarrow> (if segments_count > 1
                  then (case memchr 47 (cstr name) of None \<Rightarrow> None | Some k \<Rightarrow> is_all_caps_and_underscore name k)
                  else Some False);
          Some (if bad2 then GIT_EINVALIDSPEC else 0) } })"

definition git_reference__normalize_name :: "byte allocator \<Rightarrow> git_buf option \<Rightarrow> byte list \<Rightarrow> u32 \<Rightarrow> (int \<times> git_buf option) option" where
  "git_reference__normalize_name al buf name flags =
     (let fail = (\<lambda>error. Some (error, map_option git_buf_free buf)) in
      if peek name = 47 then fail GIT_EINVALIDSPEC
      else do {
        buf0 \<leftarrow> (case buf of None \<Rightarrow> Some None | Some b \<Rightarrow> map_option Some (git_buf_clear b));
        (buf1, res) \<leftarrow> normalize_loop al flags buf0 name 0 0;
        error \<leftarrow> (case res of
                   Inl error \<Rightarrow> Some error
                 | Inr (i, segment_len, segments_count) \<Rightarrow> normalize_checks name flags i segment_len segments_count);
        if error \<noteq> 0 then fail error else Some (0, buf1) })"

text \<open>The copy into a caller's array \<open>buffer_out\<close>; \<open>buffer_size - 1\<close> is computed in \<open>size_t\<close>.\<close>

definition git_reference_normalize_name :: "byte allocator \<Rightarrow> byte list \<Rightarrow> byte list \<Rightarrow> u32 \<Rightarrow> (int \<times> byte list) option" where
  "git_reference_normalize_name al buffer_out name flags = do {
     (error, buf) \<leftarrow> git_reference__normalize_name al (Some GIT_BUF_INIT) name flags;
     if error < 0 then Some (error, buffer_out)
     else case buf of
       None \<Rightarrow> None
     | Some b \<Rightarrow>
         if buf_size b > (length buffer_out + SIZE_MAX) mod 2 ^ 64 then Some (GIT_EBUFS, buffer_out)
         else do { out \<leftarrow> git_buf_copy_cstr buffer_out b; Some (0, out) } }"

definition git_reference__is_valid_name :: "byte allocator \<Rightarrow> byte list \<Rightarrow> u32 \<Rightarrow> bool option" where
  "git_reference__is_valid_name al refname flags =
     map_option (\<lambda>(error, _). \<not> error < 0) (git_reference__normalize_name al None refname flags)"

definition git_reference_is_valid_name :: "byte allocator \<Rightarrow> byte list \<Rightarrow> bool option" where
  "git_reference_is_valid_name al refname = git_reference__is_valid_name al refname GIT_REF_FORMAT_ALLOW_ONELEVEL"

section \<open>Shorthands\<close>

definition GIT_REFS_DIR :: "byte list" where "GIT_REFS_DIR = bytes_of ''refs/''"
definition GIT_REFS_HEADS_DIR :: "byte list" where "GIT_REFS_HEADS_DIR = GIT_REFS_DIR @ bytes_of ''heads/''"
definition GIT_REFS_TAGS_DIR :: "byte list" where "GIT_REFS_TAGS_DIR = GIT_REFS_DIR @ bytes_of ''tags/''"
definition GIT_REFS_REMOTES_DIR :: "byte list" where "GIT_REFS_REMOTES_DIR = GIT_REFS_DIR @ bytes_of ''remotes/''"
definition GIT_REFS_NOTES_DIR :: "byte list" where "GIT_REFS_NOTES_DIR = GIT_REFS_DIR @ bytes_of ''notes/''"
definition GIT_HEAD_FILE :: "byte list" where "GIT_HEAD_FILE = bytes_of ''HEAD''"

definition git_reference__is_branch :: "byte list \<Rightarrow> bool" where
  "git_reference__is_branch ref_name \<longleftrightarrow> git__prefixcmp ref_name GIT_REFS_HEADS_DIR = 0"

definition git_reference__is_remote :: "byte list \<Rightarrow> bool" where
  "git_reference__is_remote ref_name \<longleftrightarrow> git__prefixcmp ref_name GIT_REFS_REMOTES_DIR = 0"

definition git_reference__is_tag :: "byte list \<Rightarrow> bool" where
  "git_reference__is_tag ref_name \<longleftrightarrow> git__prefixcmp ref_name GIT_REFS_TAGS_DIR = 0"

definition git_reference__is_note :: "byte list \<Rightarrow> bool" where
  "git_reference__is_note ref_name \<longleftrightarrow> git__prefixcmp ref_name GIT_REFS_NOTES_DIR = 0"

definition git_reference__shorthand :: "byte list \<Rightarrow> byte list" where
  "git_reference__shorthand name =
     (if git__prefixcmp name GIT_REFS_HEADS_DIR = 0 then drop (length GIT_REFS_HEADS_DIR) name
      else if git__prefixcmp name GIT_REFS_TAGS_DIR = 0 then drop (length GIT_REFS_TAGS_DIR) name
      else if git__prefixcmp name GIT_REFS_REMOTES_DIR = 0 then drop (length GIT_REFS_REMOTES_DIR) name
      else if git__prefixcmp name GIT_REFS_DIR = 0 then drop (length GIT_REFS_DIR) name
      else name)"

section \<open>References and their resolution\<close>

text \<open>The type of a reference is the constructor of its target. The database is a parameter: what a lookup of a name yields.\<close>

datatype ref_target = GIT_REF_OID git_oid | GIT_REF_SYMBOLIC "byte list"

record git_reference =
  ref_name :: "byte list"
  ref_target :: ref_target
  ref_peel :: git_oid

type_synonym refdb = "byte list \<Rightarrow> int + git_reference"

definition GIT_REFNAME_MAX :: nat where "GIT_REFNAME_MAX = 1024"
definition DEFAULT_NESTING_LEVEL :: int where "DEFAULT_NESTING_LEVEL = 5"
definition MAX_NESTING_LEVEL :: int where "MAX_NESTING_LEVEL = 10"

definition git_reference_target :: "git_reference \<Rightarrow> git_oid option" where
  "git_reference_target ref = (case ref_target ref of GIT_REF_OID i \<Rightarrow> Some i | GIT_REF_SYMBOLIC _ \<Rightarrow> None)"

definition git_reference_target_peel :: "git_reference \<Rightarrow> git_oid option" where
  "git_reference_target_peel ref =
     (case ref_target ref of GIT_REF_OID _ \<Rightarrow> (if git_oid_iszero (ref_peel ref) then None else Some (ref_peel ref))
      | GIT_REF_SYMBOLIC _ \<Rightarrow> None)"

definition git_reference_symbolic_target :: "git_reference \<Rightarrow> byte list option" where
  "git_reference_symbolic_target ref = (case ref_target ref of GIT_REF_OID _ \<Rightarrow> None | GIT_REF_SYMBOLIC t \<Rightarrow> Some t)"

definition git_reference_cmp :: "git_reference \<Rightarrow> git_reference \<Rightarrow> int" where
  "git_reference_cmp ref1 ref2 =
     (case (ref_target ref1, ref_target ref2) of
        (GIT_REF_SYMBOLIC a, GIT_REF_SYMBOLIC b) \<Rightarrow> git__strcmp a b
      | (GIT_REF_OID a, GIT_REF_OID b) \<Rightarrow> git_oid__cmp a b
      | (GIT_REF_SYMBOLIC _, _) \<Rightarrow> -1
      | _ \<Rightarrow> 1)"

text \<open>
  The loop of \<open>git_reference_lookup_resolved\<close>, \<open>n\<close> rounds of it. The copy \<open>strncpy\<close> of a symbolic target that fills
  \<open>scan_name\<close> leaves it without a NUL.
\<close>

fun lookup_loop :: "refdb \<Rightarrow> nat \<Rightarrow> byte list \<Rightarrow> (int + git_reference) option" where
  "lookup_loop db 0 scan_name = None"
| "lookup_loop db (Suc n) scan_name =
     (case db scan_name of
        Inl error \<Rightarrow> Some (Inl error)
      | Inr ref \<Rightarrow>
          (case ref_target ref of
             GIT_REF_OID _ \<Rightarrow> Some (Inr ref)
           | GIT_REF_SYMBOLIC t \<Rightarrow>
               if n = 0 then Some (Inr ref)
               else if length (cstr t) \<ge> GIT_REFNAME_MAX then None
               else lookup_loop db n (cstr t)))"

definition git_reference_lookup_resolved :: "byte allocator \<Rightarrow> refdb \<Rightarrow> byte list \<Rightarrow> int \<Rightarrow> (int + git_reference) option" where
  "git_reference_lookup_resolved al db name max_nesting =
     (let max_nesting = (if max_nesting > MAX_NESTING_LEVEL then MAX_NESTING_LEVEL
                         else if max_nesting < 0 then DEFAULT_NESTING_LEVEL else max_nesting)
      in do {
        (error, scan_name) \<leftarrow> git_reference_normalize_name al (replicate GIT_REFNAME_MAX 0) name GIT_REF_FORMAT_ALLOW_ONELEVEL;
        if error < 0 then Some (Inl error)
        else do {
          res \<leftarrow> lookup_loop db (nat max_nesting + 1) (cstr scan_name);
          case res of
            Inl error \<Rightarrow> Some (Inl error)
          | Inr ref \<Rightarrow>
              if git_reference_target ref = None \<and> max_nesting \<noteq> 0 then Some (Inl (-1)) else Some (Inr ref) } })"

definition git_reference_lookup :: "byte allocator \<Rightarrow> refdb \<Rightarrow> byte list \<Rightarrow> (int + git_reference) option" where
  "git_reference_lookup al db name = git_reference_lookup_resolved al db name 0"

definition git_reference_name_to_id :: "byte allocator \<Rightarrow> refdb \<Rightarrow> byte list \<Rightarrow> (int + git_oid) option" where
  "git_reference_name_to_id al db name = do {
     res \<leftarrow> git_reference_lookup_resolved al db name (-1);
     case res of
       Inl error \<Rightarrow> Some (Inl error)
     | Inr ref \<Rightarrow> (case git_reference_target ref of None \<Rightarrow> None | Some i \<Rightarrow> Some (Inr i)) }"

definition git_reference_resolve :: "byte allocator \<Rightarrow> refdb \<Rightarrow> git_reference \<Rightarrow> (int + git_reference) option" where
  "git_reference_resolve al db ref =
     (case ref_target ref of
        GIT_REF_OID _ \<Rightarrow> git_reference_lookup al db (ref_name ref)
      | GIT_REF_SYMBOLIC t \<Rightarrow> git_reference_lookup_resolved al db t (-1))"

text \<open>The end of a chain; the second component is what \<open>*out\<close> is set to, if it is.\<close>

function get_terminal :: "byte allocator \<Rightarrow> refdb \<Rightarrow> byte list \<Rightarrow> int \<Rightarrow> (int \<times> git_reference option) option" where
  "get_terminal al db name nesting =
     (if nesting > MAX_NESTING_LEVEL then Some (GIT_ENOTFOUND, None)
      else
        (case git_reference_lookup al db name of
           None \<Rightarrow> None
         | Some (Inl error) \<Rightarrow> Some (error, None)
         | Some (Inr ref) \<Rightarrow>
             (case git_reference_symbolic_target ref of
                None \<Rightarrow> Some (0, Some ref)
              | Some t \<Rightarrow>
                  (case get_terminal al db t (nesting + 1) of
                     None \<Rightarrow> None
                   | Some (error, out) \<Rightarrow>
                       if error = GIT_ENOTFOUND \<and> out = None then Some (error, Some ref) else Some (error, out)))))"
  by pat_completeness auto

termination
  by (relation "measure (\<lambda>(_, _, _, nesting). nat (MAX_NESTING_LEVEL + 1 - nesting))") auto

declare get_terminal.simps [simp del]

text \<open>The candidates of \<open>git_reference_dwim\<close>, as the formats of the table make them from the name.\<close>

definition dwim_formatters :: "(byte list \<Rightarrow> byte list) list" where
  "dwim_formatters = [\<lambda>n. n, \<lambda>n. GIT_REFS_DIR @ n, \<lambda>n. GIT_REFS_TAGS_DIR @ n, \<lambda>n. GIT_REFS_HEADS_DIR @ n,
     \<lambda>n. GIT_REFS_REMOTES_DIR @ n, \<lambda>n. GIT_REFS_REMOTES_DIR @ n @ bytes_of ''/'' @ GIT_HEAD_FILE]"

fun dwim_loop :: "byte allocator \<Rightarrow> refdb \<Rightarrow> byte list list \<Rightarrow> int \<Rightarrow> (int + git_reference) option" where
  "dwim_loop al db [] error = Some (Inl error)"
| "dwim_loop al db (refnamebuf # rest) error =
     (case git_reference_is_valid_name al refnamebuf of
        None \<Rightarrow> None
      | Some False \<Rightarrow> dwim_loop al db rest GIT_EINVALIDSPEC
      | Some True \<Rightarrow>
          (case git_reference_lookup_resolved al db refnamebuf (-1) of
             None \<Rightarrow> None
           | Some (Inr ref) \<Rightarrow> Some (Inr ref)
           | Some (Inl error') \<Rightarrow> if error' \<noteq> GIT_ENOTFOUND then Some (Inl error') else dwim_loop al db rest error'))"

definition git_reference_dwim :: "byte allocator \<Rightarrow> refdb \<Rightarrow> byte list \<Rightarrow> (int + git_reference) option" where
  "git_reference_dwim al db refname =
     (if peek refname \<noteq> 0 then dwim_loop al db (map (\<lambda>f. f (cstr refname)) dwim_formatters) 0
      else dwim_loop al db [GIT_HEAD_FILE] 0)"

section \<open>What a segment may be\<close>

text \<open>The characters: no control character below DEL, no space, and none of tilde, caret, colon, backslash, question mark,
  opening bracket and star.\<close>

definition plain_ref_char :: "byte \<Rightarrow> bool" where
  "plain_ref_char c \<longleftrightarrow> 32 < c \<and> c \<notin> {126, 94, 58, 92, 63, 91, 42}"

lemma is_valid_ref_char_eq: "is_valid_ref_char c \<longleftrightarrow> plain_ref_char c"
proof -
  have "unat c \<le> 32 \<longleftrightarrow> \<not> 32 < c" by (auto simp: word_less_nat_alt)
  then show ?thesis by (auto simp: is_valid_ref_char_def plain_ref_char_def)
qed

text \<open>A segment is shorter than \<open>2 ^ 31\<close> bytes, the range of the \<open>int\<close> that holds its length.\<close>

definition ref_segment_ok :: "byte list \<Rightarrow> bool" where
  "ref_segment_ok seg \<longleftrightarrow> length seg < 2 ^ 31 \<and> peek seg \<noteq> 46 \<and> (\<forall>c\<in>set seg. plain_ref_char c) \<and>
     \<not> sublist (bytes_of ''..'') seg \<and> \<not> sublist (bytes_of (CHR 0x40 # CHR ''{'' # [])) seg \<and> \<not> suffix GIT_FILELOCK_EXTENSION seg"

definition segment_of :: "byte list \<Rightarrow> byte list" where
  "segment_of s = takeWhile (\<lambda>c. c \<noteq> 47) (cstr s)"

lemma segment_of_simps [simp]:
  "segment_of [] = []" "segment_of (c # s) = (if c = 0 \<or> c = 47 then [] else c # segment_of s)"
  by (simp_all add: segment_of_def)

lemma sublist_pair: "sublist [a, b] (c # s) \<longleftrightarrow> c = a \<and> prefix [b] s \<or> sublist [a, b] s"
  by (auto simp: sublist_Cons_right)

lemma segment_loop_eq:
  "segment_loop prev n s =
     (if (\<forall>c\<in>set (segment_of s). is_valid_ref_char c) \<and> \<not> sublist [46, 46] (prev # segment_of s) \<and>
         \<not> sublist [64, 123] (prev # segment_of s)
      then Some (n + length (segment_of s)) else None)"
proof (induction prev n s rule: segment_loop.induct)
  case (1 prev n)
  then show ?case by (simp add: sublist_Cons_right)
next
  case (2 prev n c s)
  then show ?case by (auto simp: sublist_pair [of _ _ prev] simp del: sublist_Cons_right)
qed

lemma take_segment_of: "take (length (segment_of s)) s = segment_of s"
  by (induction s) auto

lemma segment_of_peek: "peek s \<noteq> 0 \<Longrightarrow> peek s \<noteq> 47 \<Longrightarrow> peek (segment_of s) = peek s"
  by (cases s) auto

lemma suffix_iff_drop: "suffix l t \<longleftrightarrow> length l \<le> length t \<and> drop (length t - length l) t = l"
  by (metis diff_le_self length_drop suffix_def suffix_drop suffix_length_le append_eq_conv_conj diff_diff_cancel
      length_append add_diff_cancel_right')

lemma suffix_take: "n \<le> length s \<Longrightarrow> suffix l (take n s) \<longleftrightarrow> length l \<le> n \<and> take (length l) (drop (n - length l) s) = l"
  by (auto simp: suffix_iff_drop drop_take)

lemma ensure_segment_validity_cases:
  "ensure_segment_validity s = (if ref_segment_ok (segment_of s) then int (length (segment_of s)) else -1) \<or>
   2 ^ 31 \<le> length (segment_of s) \<and>
     (ensure_segment_validity s < 0 \<or> ensure_segment_validity s = int32 (int (length (segment_of s))))"
proof -
  have dots: "bytes_of ''..'' = [46, 46]" "bytes_of (CHR 0x40 # CHR ''{'' # []) = [64, 123]" by (simp_all add: bytes_of_def)
  have dot: "peek (segment_of s) = 46 \<longleftrightarrow> peek s = 46" by (cases s) auto
  have zero: "sublist [a, b] (0 # t) \<longleftrightarrow> sublist [a, b] t" if "a \<noteq> 0" for a b :: byte and t
    using that by (simp add: sublist_pair)
  have le: "length (segment_of s) \<le> length s" by (metis length_take min.cobounded1 take_segment_of)
  have lock: "suffix GIT_FILELOCK_EXTENSION (segment_of s) \<longleftrightarrow>
      length GIT_FILELOCK_EXTENSION \<le> length (segment_of s) \<and>
      take (length GIT_FILELOCK_EXTENSION) (drop (length (segment_of s) - length GIT_FILELOCK_EXTENSION) s) = GIT_FILELOCK_EXTENSION"
    using suffix_take [OF le, of GIT_FILELOCK_EXTENSION] by (simp add: take_segment_of)
  show ?thesis
  proof (cases "length (segment_of s) < 2 ^ 31")
    case True
    then have "int32 (int (length (segment_of s))) = int (length (segment_of s))" by (simp add: int32_def)
    then show ?thesis
      using True unfolding ensure_segment_validity_def ref_segment_ok_def Let_def segment_loop_eq dots lock dot is_valid_ref_char_eq
      by (simp add: zero)
  next
    case False
    then show ?thesis
      by (auto simp: ensure_segment_validity_def Let_def segment_loop_eq)
  qed
qed

lemma ensure_segment_validity_ok: "ref_segment_ok (segment_of s) \<Longrightarrow> ensure_segment_validity s = int (length (segment_of s))"
  using ensure_segment_validity_cases [of s] by (simp add: ref_segment_ok_def)

lemma ensure_segment_validity_bad:
  "\<not> ref_segment_ok (segment_of s) \<Longrightarrow> length (segment_of s) < 2 ^ 31 \<Longrightarrow> ensure_segment_validity s = -1"
  using ensure_segment_validity_cases [of s] by simp

text \<open>A segment that is too long is an error, or it is taken for one with the remainder of its length by \<open>2 ^ 32\<close>.\<close>

lemma int32_remainder: "0 \<le> int32 (int n) \<Longrightarrow> int32 (int n) = int (n mod 2 ^ 32) \<and> n mod 2 ^ 32 < 2 ^ 31"
proof -
  assume n: "0 \<le> int32 (int n)"
  have "int32 (int n) = int32 (int (n mod 2 ^ 32))" by (simp add: int32_def zmod_int mod_simps)
  moreover have "n mod 2 ^ 32 < 2 ^ 31"
  proof (rule ccontr)
    assume "\<not> n mod 2 ^ 32 < 2 ^ 31"
    define x where "x = int (n mod 2 ^ 32)"
    have "n mod 2 ^ 32 < 2 ^ 32" by simp
    then have x: "2 ^ 31 \<le> x" "x < 2 ^ 32" using \<open>\<not> n mod 2 ^ 32 < 2 ^ 31\<close> unfolding x_def
      by (simp_all add: not_less flip: of_nat_less_iff of_nat_le_iff)
    have "(x + 2 ^ 31) mod 2 ^ 32 = (x - 2 ^ 31 + 2 ^ 32) mod 2 ^ 32" by (simp add: add.commute)
    also have "\<dots> = x - 2 ^ 31" unfolding mod_add_self2 using x by (intro mod_pos_pos_trivial) auto
    finally have "int32 x < 0" using x by (simp add: int32_def)
    then show False using n \<open>int32 (int n) = int32 (int (n mod 2 ^ 32))\<close> unfolding x_def by linarith
  qed
  ultimately show ?thesis by (simp add: int32_def)
qed

section \<open>The segments of a name\<close>

abbreviation is_slash :: "byte \<Rightarrow> bool" where "is_slash c \<equiv> c = 47"

fun segs_ok :: "bool \<Rightarrow> byte list list \<Rightarrow> bool" where
  "segs_ok pat [] \<longleftrightarrow> True"
| "segs_ok pat (g # gs) \<longleftrightarrow> (if ref_segment_ok g then segs_ok pat gs else pat \<and> g = [42] \<and> segs_ok False gs)"

fun join_segs :: "byte list list \<Rightarrow> byte list" where
  "join_segs [] = []"
| "join_segs [g] = g"
| "join_segs (g # gs) = g @ 47 # join_segs gs"

definition seg_plain :: "byte list \<Rightarrow> bool" where
  "seg_plain g \<longleftrightarrow> g \<noteq> [] \<and> 0 \<notin> set g \<and> 47 \<notin> set g"

lemma join_segs_snoc: "join_segs (ds @ [g]) = (if ds = [] then g else join_segs ds @ 47 # g)"
  by (induction ds rule: join_segs.induct) auto

lemma join_segs_props:
  "\<forall>g\<in>set ds. seg_plain g \<Longrightarrow> ds \<noteq> [] \<Longrightarrow> join_segs ds \<noteq> [] \<and> last (join_segs ds) \<noteq> 47 \<and> 0 \<notin> set (join_segs ds)"
  by (induction ds rule: join_segs.induct) (auto simp: seg_plain_def dest: last_in_set)

lemma segment_of_wild: "segment_of s = [42] \<longleftrightarrow> peek s = 42 \<and> (peek (tl s) = 0 \<or> peek (tl s) = 47)"
  by (cases s; cases "tl s") auto

lemma star_not_ok: "\<not> ref_segment_ok [42]"
  by (simp add: ref_segment_ok_def plain_ref_char_def)

lemma fields_segment:
  "split_fields is_slash (cstr s) =
     segment_of s # (if peek (drop (length (segment_of s)) s) = 0 then [] else split_fields is_slash (cstr (drop (length (segment_of s) + 1) s)))"
  by (induction s) auto

lemma peek_behind_segment: "peek (drop (length (segment_of s)) s) = 0 \<or> peek (drop (length (segment_of s)) s) = 47"
  by (induction s) auto

lemma length_cstr_segment:
  "length (cstr s) = length (segment_of s) +
     (if peek (drop (length (segment_of s)) s) = 0 then 0 else 1 + length (cstr (drop (length (segment_of s) + 1) s)))"
  by (induction s) auto

lemma seg_plain_segment: "segment_of s \<noteq> [] \<Longrightarrow> seg_plain (segment_of s)"
  by (auto simp: seg_plain_def segment_of_def cstr_def dest: set_takeWhileD)

definition norm_state :: "git_buf option \<Rightarrow> byte list list \<Rightarrow> bool" where
  "norm_state buf ds \<longleftrightarrow> (case buf of None \<Rightarrow> True | Some b \<Rightarrow> buf_wf b \<and> content b = join_segs ds)"

lemma normalize_segment_prefix:
  assumes al: "alloc_env al" and b: "buf_wf b" "content b = join_segs ds" and ds: "\<forall>g\<in>set ds. seg_plain g"
    and len: "length (join_segs ds) + length cur + 3 \<le> BUF_LIMIT"
  shows "\<exists>b'. normalize_segment al b cur k (length ds) = Some (False, b') \<and> buf_wf b' \<and>
    content b' = take (length (join_segs ds) + k + (if length ds \<noteq> 0 then 1 else 0)) (join_str 47 (join_segs ds) (cstr cur))"
proof -
  have z: "0 \<notin> set (join_segs ds)" using join_segs_props [OF ds] by (cases "ds = []") auto
  have src: "join_src_is b (JOwn 0) (join_segs ds)" using b z by (simp add: join_src_is_def)
  have cl: "length (cstr cur) \<le> length cur" by (simp add: cstr_def length_takeWhile_le)
  have "buf_outcome al b (join_str 47 (join_segs ds) (cstr cur)) (git_buf_join al b 47 (JOwn 0) cur)"
    using git_buf_join_contract [where al = al and b = b and a = "JOwn 0" and sa = "join_segs ds" and ?s2.0 = cur and ?s3.0 = "[]" and ?s1.0 = "[]" and sep = 47]
      al src b(1) len cl by (simp add: alloc_env_def)
  from buf_outcome_total [OF this al] obtain b1 where
    b1: "git_buf_join al b 47 (JOwn 0) cur = Some (0, b1)" "buf_wf b1" "content b1 = join_str 47 (join_segs ds) (cstr cur)" by auto
  have size: "buf_size b = length (join_segs ds)" using b length_content [of b] by simp
  let ?n = "length (join_segs ds) + k + (if length ds \<noteq> 0 then 1 else 0)"
  obtain b2 where "git_buf_truncate b1 ?n = Some b2" "buf_wf b2" "content b2 = take ?n (content b1)"
    using git_buf_truncate_wf [OF b1(2), of ?n] by auto
  then show ?thesis
    using b1 size buf_wf_not_oom [of b2] by (simp add: normalize_segment_def git_buf_joinpath_def git_buf_oom_def)
qed

lemma normalize_segment_ok:
  assumes al: "alloc_env al" and b: "buf_wf b" "content b = join_segs ds" and ds: "\<forall>g\<in>set ds. seg_plain g"
    and seg: "segment_of cur \<noteq> []" and len: "length (join_segs ds) + length cur + 3 \<le> BUF_LIMIT"
  shows "\<exists>b'. normalize_segment al b cur (length (segment_of cur)) (length ds) = Some (False, b') \<and> buf_wf b' \<and>
    content b' = join_segs (ds @ [segment_of cur])"
proof -
  obtain c t where cur: "cur = c # t" "c \<noteq> 0" "c \<noteq> 47" using seg by (cases cur) (auto split: if_splits)
  have seg': "take (length (segment_of cur)) (cstr cur) = segment_of cur"
    by (simp add: segment_of_def) (metis takeWhile_eq_take)
  have "take (length (join_segs ds) + length (segment_of cur) + (if length ds \<noteq> 0 then 1 else 0)) (join_str 47 (join_segs ds) (cstr cur)) =
      join_segs (ds @ [segment_of cur])"
    using join_segs_props [OF ds] seg' cur unfolding join_str_def join_segs_snoc by auto
  then show ?thesis using normalize_segment_prefix [OF al b ds len, of "length (segment_of cur)"] by auto
qed

lemma segment_of_drop: "k \<le> length (segment_of s) \<Longrightarrow> segment_of (drop k s) = drop k (segment_of s)"
proof (induction k arbitrary: s)
  case (Suc k)
  then show ?case by (cases s) (auto split: if_splits)
qed simp

text \<open>The loop refuses a segment that is too long: what it takes for the segment is followed by one whose length is -1.\<close>

lemma normalize_loop_long:
  assumes al: "alloc_env al" and len: "2 * length name + 4 \<le> BUF_LIMIT" and "i \<le> length name" "length (join_segs ds) \<le> i"
    and ds: "\<forall>g\<in>set ds. seg_plain g" "norm_state buf ds" and long: "2 ^ 31 \<le> length (segment_of (drop i name))"
  shows "\<exists>buf'. normalize_loop al pf buf name i (length ds) = Some (buf', Inl GIT_EINVALIDSPEC) \<and> (buf' = None \<longleftrightarrow> buf = None)"
proof -
  define cur where "cur = drop i name"
  define n where "n = length (segment_of cur)"
  have n: "2 ^ 31 \<le> n" using long by (simp add: n_def cur_def)
  have no_star: "\<not> (peek (drop k cur) = 42 \<and> (peek (tl (drop k cur)) = 0 \<or> peek (tl (drop k cur)) = 47))" if "k + 1 < n" for k
  proof
    assume "peek (drop k cur) = 42 \<and> (peek (tl (drop k cur)) = 0 \<or> peek (tl (drop k cur)) = 47)"
    then have "segment_of (drop k cur) = [42]" using segment_of_wild [of "drop k cur"] by blast
    moreover have "length (segment_of (drop k cur)) = n - k" using that by (simp add: segment_of_drop n_def)
    ultimately show False using that by simp
  qed
  have fails: "normalize_loop al pf' b name (i + k) c = Some (b, Inl GIT_EINVALIDSPEC)"
    if "ensure_segment_validity (drop k cur) < 0" "k + 1 < n" for k pf' b c
    using that no_star [OF that(2)] by (subst normalize_loop.simps) (simp add: Let_def cur_def add.commute drop_drop)
  show ?thesis
  proof (cases "ensure_segment_validity cur < 0")
    case True
    then show ?thesis using fails [of 0 pf buf] n by simp
  next
    case False
    then have v: "ensure_segment_validity cur = int32 (int n)"
      using ensure_segment_validity_cases [of cur] n by (auto simp: n_def ref_segment_ok_def split: if_splits)
    define k where "k = n mod 2 ^ 32"
    have k: "ensure_segment_validity cur = int k" "k < 2 ^ 31"
      using int32_remainder [of n] False v by (auto simp: k_def)
    have "n \<noteq> k" using n k(2) by auto
    then have "n \<ge> 2 ^ 32" by (metis k_def mod_less linorder_not_less)
    then have kn: "k + 2 < n" using k(2) by simp
    have next_len: "length (segment_of (drop (k + 1) cur)) = n - (k + 1)" using kn by (simp add: segment_of_drop n_def)
    have "int32 (int (n - (k + 1))) = -1"
    proof -
      obtain q where q: "n = k + 2 ^ 32 * q" unfolding k_def by (metis add.commute mod_mult_div_eq)
      have "q \<noteq> 0" using q \<open>n \<noteq> k\<close> by auto
      then have "int (n - (k + 1)) = 2 ^ 32 * int q - 1" using q by (simp add: of_nat_diff)
      moreover have "2 ^ 32 * int q - 1 + 2 ^ 31 = (2 ^ 31 - 1) + 2 ^ 32 * int q" by simp
      ultimately have "int32 (int (n - (k + 1))) = (2 ^ 31 - 1) mod 2 ^ 32 - 2 ^ 31" by (simp only: int32_def mod_mult_self2)
      then show ?thesis by simp
    qed
    then have bad: "ensure_segment_validity (drop (k + 1) cur) < 0"
      using ensure_segment_validity_cases [of "drop (k + 1) cur"] next_len \<open>n \<ge> 2 ^ 32\<close> k(2)
      by (auto simp: ref_segment_ok_def split: if_splits)
    have behind: "peek (drop k cur) \<noteq> 0"
    proof
      assume "peek (drop k cur) = 0"
      then have "segment_of (drop k cur) = []" by (cases "drop k cur") auto
      then show False using kn by (simp add: segment_of_drop n_def)
    qed
    obtain buf1 where buf1: "(case buf of None \<Rightarrow> Some (False, None)
         | Some b \<Rightarrow> if k > 0 then map_option (map_prod (\<lambda>x. x) Some) (normalize_segment al b cur k (length ds))
                    else Some (False, Some b)) = Some (False, buf1)" and none: "buf1 = None \<longleftrightarrow> buf = None"
    proof (cases buf)
      case (Some b)
      have "length (join_segs ds) + length cur + 3 \<le> BUF_LIMIT" using assms(3,4) len by (simp add: cur_def)
      with normalize_segment_prefix [OF al, of b ds cur k] ds Some that show ?thesis
        by (cases "k > 0") (fastforce simp: norm_state_def)+
    qed (use that in simp)
    have step: "normalize_loop al pf buf name i (length ds) =
        (if k = 0 \<and> buf = None then Some (buf1, Inl GIT_EINVALIDSPEC)
         else normalize_loop al pf buf1 name (i + k + 1) (if k > 0 then length ds + 1 else length ds))"
      using behind none by (subst normalize_loop.simps) (simp only: cur_def [symmetric] Let_def k(1) nat_int, auto simp: buf1)
    show ?thesis
      unfolding step using fails [OF bad, of pf buf1] kn none by (auto simp: add.assoc)
  qed
qed

lemma pattern_bit_cleared: "(pf AND NOT GIT_REF_FORMAT_REFSPEC_PATTERN) AND GIT_REF_FORMAT_REFSPEC_PATTERN = 0"
  by (simp add: and.assoc)

lemma normalize_loop_ok:
  assumes al: "alloc_env al" and len: "2 * length name + 4 \<le> BUF_LIMIT" and "i \<le> length name" "length (join_segs ds) \<le> i"
    and "\<forall>g\<in>set ds. seg_plain g" "norm_state buf ds"
  shows "\<exists>buf' res. normalize_loop al pf buf name i (length ds) = Some (buf', res) \<and> (buf' = None \<longleftrightarrow> buf = None) \<and>
    (let ss = split_fields is_slash (cstr (drop i name)) in
      if segs_ok (pf AND GIT_REF_FORMAT_REFSPEC_PATTERN \<noteq> 0) ss \<and> (buf \<noteq> None \<or> [] \<notin> set ss)
      then res = Inr (i + length (cstr (drop i name)) - length (last ss), length (last ss), length ds + length (filter (\<lambda>g. g \<noteq> []) ss)) \<and>
        norm_state buf' (ds @ filter (\<lambda>g. g \<noteq> []) ss) \<and> (\<forall>g\<in>set ss. g \<noteq> [] \<longrightarrow> seg_plain g)
      else res = Inl GIT_EINVALIDSPEC)"
  using assms(3-)
proof (induction "length name - i" arbitrary: i ds buf pf rule: less_induct)
  case less
  define cur where "cur = drop i name"
  define g where "g = segment_of cur"
  define wild where "wild = (\<not> ref_segment_ok g \<and> pf AND GIT_REF_FORMAT_REFSPEC_PATTERN \<noteq> 0 \<and> g = [42])"
  define pf' where "pf' = (if wild then pf AND NOT GIT_REF_FORMAT_REFSPEC_PATTERN else pf)"
  show ?case
  proof (cases "length g < 2 ^ 31")
    case False
    then have long: "2 ^ 31 \<le> length (segment_of (drop i name))" by (simp add: g_def cur_def)
    have "\<not> segs_ok p (split_fields is_slash (cstr cur))" for p
      using False by (subst fields_segment) (auto simp: ref_segment_ok_def simp flip: g_def)
    then show ?thesis using normalize_loop_long [OF al len less.prems long, of pf] by (auto simp: cur_def Let_def)
  next
    case short: True
    have v: "ensure_segment_validity cur = (if ref_segment_ok g then int (length g) else -1)"
      using short ensure_segment_validity_ok ensure_segment_validity_bad by (simp add: g_def)
    have w: "(ensure_segment_validity cur < 0 \<and> pf AND GIT_REF_FORMAT_REFSPEC_PATTERN \<noteq> 0 \<and> peek cur = 42 \<and>
        (peek (tl cur) = 0 \<or> peek (tl cur) = 47)) = wild"
      using segment_of_wild [of cur] by (auto simp: wild_def v g_def)
    have sl: "(if wild then 1 else nat (ensure_segment_validity cur)) = length g" if "ref_segment_ok g \<or> wild"
      using that by (auto simp: wild_def v)
    show ?thesis
    proof (cases "ref_segment_ok g \<or> wild")
      case False
      then have "normalize_loop al pf buf name i (length ds) = Some (buf, Inl GIT_EINVALIDSPEC)"
        by (subst normalize_loop.simps) (simp only: cur_def [symmetric] Let_def w, simp add: v)
      moreover have "\<not> segs_ok (pf AND GIT_REF_FORMAT_REFSPEC_PATTERN \<noteq> 0) (split_fields is_slash (cstr cur))"
        using False by (subst fields_segment) (auto simp: wild_def g_def)
      ultimately show ?thesis by (auto simp: cur_def Let_def)
    next
      case True
      note sl = sl [OF True]
      have nv: "\<not> (ensure_segment_validity cur < 0 \<and> \<not> wild)" using True by (auto simp: v)
      let ?ds = "ds @ filter (\<lambda>g. g \<noteq> []) [g]"
      obtain buf1 where buf1: "(case buf of None \<Rightarrow> Some (False, None)
           | Some b \<Rightarrow> if length g > 0 then map_option (map_prod (\<lambda>x. x) Some) (normalize_segment al b cur (length g) (length ds))
                      else Some (False, Some b)) = Some (False, buf1)"
        and st: "norm_state buf1 ?ds" and none: "buf1 = None \<longleftrightarrow> buf = None"
      proof (cases buf)
        case None
        then show ?thesis using that by (simp add: norm_state_def)
      next
        case (Some b)
        show ?thesis
        proof (cases "g = []")
          case True
          then show ?thesis using that [of buf] Some less.prems(4) by simp
        next
          case False
          have "length (join_segs ds) + length cur + 3 \<le> BUF_LIMIT" using less.prems(1,2) len by (simp add: cur_def)
          with normalize_segment_ok [OF al, of b ds cur] less.prems(3,4) Some False
          obtain b' where "normalize_segment al b cur (length g) (length ds) = Some (False, b')" "buf_wf b'" "content b' = join_segs (ds @ [g])"
            by (auto simp: norm_state_def g_def)
          then show ?thesis using that [of "Some b'"] Some False by (simp add: norm_state_def)
        qed
      qed
      have plain: "\<forall>h\<in>set ?ds. seg_plain h" using less.prems(3) seg_plain_segment [of cur] by (auto simp: g_def)
      have ok_first: "segs_ok p (g # gs) \<longleftrightarrow> segs_ok (p \<and> \<not> wild) gs" if "p = (pf AND GIT_REF_FORMAT_REFSPEC_PATTERN \<noteq> 0)" for p gs
        using True that by (auto simp: wild_def)
      have step: "normalize_loop al pf buf name i (length ds) =
          (if length g = 0 \<and> buf = None then Some (buf1, Inl GIT_EINVALIDSPEC)
           else if peek (drop (length g) cur) = 0 then Some (buf1, Inr (i, length g, length ?ds))
           else normalize_loop al pf' buf1 name (i + length g + 1) (length ?ds))"
        by (subst normalize_loop.simps)
          (simp only: cur_def [symmetric] Let_def w sl nv if_False buf1 option.case prod.case pf'_def, simp)
      define rest where "rest = drop (length g + 1) cur"
      have ss: "split_fields is_slash (cstr cur) = g # (if peek (drop (length g) cur) = 0 then [] else split_fields is_slash (cstr rest))"
        unfolding rest_def g_def by (rule fields_segment)
      have lc: "length (cstr cur) = length g + (if peek (drop (length g) cur) = 0 then 0 else 1 + length (cstr rest))"
        unfolding rest_def g_def by (rule length_cstr_segment)
      consider "length g = 0 \<and> buf = None" | "\<not> (length g = 0 \<and> buf = None)" "peek (drop (length g) cur) = 0"
        | "\<not> (length g = 0 \<and> buf = None)" "peek (drop (length g) cur) \<noteq> 0" by blast
      then show ?thesis
      proof cases
        case 1
        then show ?thesis using step none by (simp add: ss flip: cur_def)
      next
        case 2
        then show ?thesis using step none st plain ss lc ok_first [OF refl, of "[]"] by (auto simp flip: cur_def)
      next
        case 3
        have i': "i + length g < length name" using peek_drop_nonzero [OF 3(2)] by (simp add: cur_def)
        have rest: "drop (i + length g + 1) name = rest" by (simp add: rest_def cur_def add.commute add.left_commute)
        have bits: "(pf' AND GIT_REF_FORMAT_REFSPEC_PATTERN \<noteq> 0) = (pf AND GIT_REF_FORMAT_REFSPEC_PATTERN \<noteq> 0 \<and> \<not> wild)"
          using pattern_bit_cleared [of pf] by (auto simp: pf'_def)
        have "length (join_segs ?ds) \<le> i + length g + 1" using less.prems(2) by (auto simp: join_segs_snoc)
        with less.hyps [of "i + length g + 1" ?ds buf1 pf'] i' plain st
        obtain buf' res where r: "normalize_loop al pf' buf1 name (i + length g + 1) (length ?ds) = Some (buf', res)" "(buf' = None) = (buf1 = None)"
          "let ss = split_fields is_slash (cstr rest) in
            if segs_ok (pf AND GIT_REF_FORMAT_REFSPEC_PATTERN \<noteq> 0 \<and> \<not> wild) ss \<and> (buf1 \<noteq> None \<or> [] \<notin> set ss)
            then res = Inr (i + length g + 1 + length (cstr rest) - length (last ss), length (last ss), length ?ds + length (filter (\<lambda>g. g \<noteq> []) ss)) \<and>
              norm_state buf' (?ds @ filter (\<lambda>g. g \<noteq> []) ss) \<and> (\<forall>g\<in>set ss. g \<noteq> [] \<longrightarrow> seg_plain g)
            else res = Inl GIT_EINVALIDSPEC" unfolding rest bits by fastforce
        define ss' where "ss' = split_fields is_slash (cstr rest)"
        have ss3: "split_fields is_slash (cstr (drop i name)) = g # ss'" using 3(2) ss by (simp add: ss'_def cur_def)
        have ne: "ss' \<noteq> []" by (simp add: ss'_def)
        have lc3: "length (cstr (drop i name)) = length g + 1 + length (cstr rest)" using 3(2) lc by (simp add: cur_def)
        have ok: "segs_ok (pf AND GIT_REF_FORMAT_REFSPEC_PATTERN \<noteq> 0) (g # ss') = segs_ok (pf AND GIT_REF_FORMAT_REFSPEC_PATTERN \<noteq> 0 \<and> \<not> wild) ss'"
          by (rule ok_first [OF refl])
        have "normalize_loop al pf buf name i (length ds) = Some (buf', res)"
          unfolding step if_not_P [OF 3(1)] if_not_P [OF 3(2)] by (rule r(1))
        then show ?thesis
          using r(2,3) none 3(1) plain ne unfolding ss3 ok lc3 ss'_def [symmetric] Let_def
          by (intro exI [of _ buf'] exI [of _ res]) (auto simp: add.assoc)
      qed
    qed
  qed
qed

section \<open>What a name may be\<close>

definition all_caps :: "byte list \<Rightarrow> bool" where
  "all_caps g \<longleftrightarrow> (\<forall>c\<in>set g. 65 \<le> c \<and> c \<le> 90 \<or> c = 95) \<and> hd g \<noteq> 95 \<and> last g \<noteq> 95"

text \<open>The names accepted with the given flags; \<open>lax\<close> allows empty segments between others.\<close>

definition ref_name_ok :: "u32 \<Rightarrow> bool \<Rightarrow> byte list \<Rightarrow> bool" where
  "ref_name_ok flags lax s \<longleftrightarrow>
     (let ss = split_fields is_slash s; n = length (filter (\<lambda>g. g \<noteq> []) ss) in
      s \<noteq> [] \<and> hd s \<noteq> 47 \<and> last s \<noteq> 47 \<and> last s \<noteq> 46 \<and>
      segs_ok (flags AND GIT_REF_FORMAT_REFSPEC_PATTERN \<noteq> 0) ss \<and> (lax \<or> [] \<notin> set ss) \<and>
      (n = 1 \<longrightarrow> flags AND GIT_REF_FORMAT_ALLOW_ONELEVEL \<noteq> 0 \<and>
        (flags AND GIT_REF_FORMAT_REFSPEC_SHORTHAND \<noteq> 0 \<or> all_caps s \<or> flags AND GIT_REF_FORMAT_REFSPEC_PATTERN \<noteq> 0 \<and> s = [42])) \<and>
      (n > 1 \<longrightarrow> \<not> all_caps (hd ss)))"

lemma is_all_caps_eq:
  "0 < len \<Longrightarrow> len \<le> length name \<Longrightarrow> is_all_caps_and_underscore name len = Some (all_caps (take len name))"
proof -
  assume len: "0 < len" "len \<le> length name"
  then have "take len name \<noteq> []" by auto
  then have "hd (take len name) = name ! 0" "last (take len name) = name ! (len - 1)"
    using len by (simp_all add: hd_conv_nth last_conv_nth del: hd_take)
  then show ?thesis using len by (auto simp: is_all_caps_and_underscore_def all_caps_def not_less not_le)
qed

lemma git__strcmp_0: "git__strcmp a b = 0 \<longleftrightarrow> cstr a = cstr b"
  by (induction a b rule: git__strcmp.induct) (auto simp: uint_diff uint_0_iff peek_def split: list.splits)

lemma last_split_fields_Nil: "s \<noteq> [] \<Longrightarrow> last (split_fields P s) = [] \<longleftrightarrow> P (last s)"
proof (induction s)
  case (Cons c s)
  then show ?case by (cases s) (auto simp: neq_Nil_conv)
qed simp

lemma length_last_split_fields: "length (last (split_fields P s)) \<le> length s"
proof (induction s)
  case (Cons c s)
  then show ?case
    by (cases "tl (split_fields P s) = []") (auto simp: last_tl hd_split_fields length_takeWhile_le le_SucI)
qed simp

lemma one_segment:
  assumes "length (filter (\<lambda>g. g \<noteq> []) ss) = 1" "hd ss \<noteq> []" "last ss \<noteq> []" "ss \<noteq> []"
  shows "ss = [hd ss]"
proof (cases ss)
  case (Cons g gs)
  have "gs = []"
  proof (rule ccontr)
    assume "gs \<noteq> []"
    then have "last gs \<in> set gs" "last gs \<noteq> []" "g \<noteq> []" using assms Cons by auto
    then have "filter (\<lambda>g. g \<noteq> []) gs \<noteq> []" by (auto simp: filter_empty_conv)
    then show False using assms(1) Cons \<open>g \<noteq> []\<close> by simp
  qed
  then show ?thesis using Cons by simp
qed (use assms in simp)

lemma split_fields_single: "split_fields P s = [g] \<Longrightarrow> s = g \<and> (\<forall>c\<in>set s. \<not> P c)"
proof (induction s arbitrary: g)
  case (Cons c s)
  have "split_fields P s = hd (split_fields P s) # tl (split_fields P s)" by simp
  with Cons show ?case by (cases "P c") (auto split: if_splits)
qed simp

lemma normalize_checks_ok:
  assumes hd: "peek name \<noteq> 47" and s: "s = cstr name" and ss: "ss = split_fields is_slash s"
    and segs: "segs_ok (flags AND GIT_REF_FORMAT_REFSPEC_PATTERN \<noteq> 0) ss" "lax \<or> [] \<notin> set ss"
  shows "normalize_checks name flags (length s - length (last ss)) (length (last ss)) (length (filter (\<lambda>g. g \<noteq> []) ss)) =
    Some (if ref_name_ok flags lax s then 0 else GIT_EINVALIDSPEC)"
proof (cases "s = []")
  case True
  then show ?thesis by (simp add: ss ref_name_ok_def normalize_checks_def)
next
  case False
  have take: "take (length s) name = s" by (simp add: s cstr_def) (metis takeWhile_eq_take)
  then have le: "length s \<le> length name" by (metis length_take min.cobounded1)
  have len: "length s - length (last ss) + length (last ss) = length s" using length_last_split_fields [of is_slash s] by (simp add: ss)
  have last: "name ! (length s - 1) = last s" using False take by (metis diff_less last_conv_nth length_greater_0_conv nth_take zero_less_one)
  have hds: "hd s \<noteq> 47" "peek name = hd s" using hd False by (cases name; auto simp: s split: if_splits)+
  have hdss: "hd ss = takeWhile (\<lambda>c. c \<noteq> 47) s" "ss \<noteq> []" by (simp_all add: ss hd_split_fields)
  have ne: "hd ss \<noteq> []" using hds False hdss by (cases s) auto
  have n0: "length (filter (\<lambda>g. g \<noteq> []) ss) \<noteq> 0" using ne hdss(2) by (cases ss) auto
  let ?n = "length (filter (\<lambda>g. g \<noteq> []) ss)"
  let ?m = "normalize_checks name flags (length s - length (last ss)) (length (last ss)) ?n"
  show ?thesis
  proof (cases "last s = 46 \<or> last s = 47")
    case True
    then show ?thesis using False n0 le by (auto simp: normalize_checks_def len last [simplified] ref_name_ok_def)
  next
    case ends: False
    have last_ne: "last ss \<noteq> []" using last_split_fields_Nil [OF False, of is_slash] ends by (simp add: ss)
    have ok: "ref_name_ok flags lax s \<longleftrightarrow>
       (?n = 1 \<longrightarrow> flags AND GIT_REF_FORMAT_ALLOW_ONELEVEL \<noteq> 0 \<and>
        (flags AND GIT_REF_FORMAT_REFSPEC_SHORTHAND \<noteq> 0 \<or> all_caps s \<or> flags AND GIT_REF_FORMAT_REFSPEC_PATTERN \<noteq> 0 \<and> s = [42])) \<and>
       (?n > 1 \<longrightarrow> \<not> all_caps (hd ss))"
      using False hds ends segs by (auto simp: ref_name_ok_def ss [symmetric] Let_def)
    have checks: "?m = (if ?n = 1 \<and> (flags AND GIT_REF_FORMAT_ALLOW_ONELEVEL) = 0 then Some GIT_EINVALIDSPEC
      else do {
        bad1 \<leftarrow> (if ?n = 1 \<and> (flags AND GIT_REF_FORMAT_REFSPEC_SHORTHAND) = 0 then do {
                  caps \<leftarrow> is_all_caps_and_underscore name (length (last ss));
                  Some (\<not> (caps \<or> (flags AND GIT_REF_FORMAT_REFSPEC_PATTERN) \<noteq> 0 \<and> git__strcmp (bytes_of ''*'') name = 0)) }
                else Some False);
        if bad1 then Some GIT_EINVALIDSPEC
        else do {
          bad2 \<leftarrow> (if ?n > 1 then (case memchr 47 (cstr name) of None \<Rightarrow> None | Some k \<Rightarrow> is_all_caps_and_underscore name k)
                  else Some False);
          Some (if bad2 then GIT_EINVALIDSPEC else 0) } })"
      unfolding normalize_checks_def len using False n0 le last ends by simp
    have star: "git__strcmp (bytes_of ''*'') name = 0 \<longleftrightarrow> s = [42]" by (auto simp: git__strcmp_0 s bytes_of_def)
    show ?thesis
    proof (cases "?n = 1")
      case True
      have "ss = [hd ss]" by (rule one_segment [OF True ne last_ne hdss(2)])
      then have "split_fields is_slash s = [hd ss]" by (simp add: ss)
      then have "hd ss = s" using split_fields_single by auto
      then have "last ss = s" using \<open>ss = [hd ss]\<close> by (metis last.simps)
      then have "is_all_caps_and_underscore name (length (last ss)) = Some (all_caps s)"
        using is_all_caps_eq [of "length s" name] False le take by simp
      then show ?thesis unfolding checks ok star using True by auto
    next
      case n1: False
      then have n2: "?n > 1" using n0 by linarith
      have "47 \<in> set s"
      proof (rule ccontr)
        assume "47 \<notin> set s"
        then have "ss = [s]" unfolding ss by (intro split_fields_none) auto
        then show False using n2 by (simp split: if_splits)
      qed
      then have "length (takeWhile (\<lambda>c. c \<noteq> 47) s) < length s" by (induction s) auto
      then have "memchr 47 (cstr name) = Some (length (hd ss))" by (simp add: memchr_def Let_def hdss(1) flip: s)
      moreover have "take (length (hd ss)) name = hd ss" "length (hd ss) \<le> length name"
        using take le length_takeWhile_le [of "\<lambda>c. c \<noteq> 47" s] unfolding hdss(1)
        by (metis min.absorb1 take_take takeWhile_eq_take, linarith)
      ultimately show ?thesis unfolding checks ok using n1 n2 is_all_caps_eq [of "length (hd ss)" name] ne by simp
    qed
  qed
qed

section \<open>The normal form\<close>

definition normal_name :: "byte list \<Rightarrow> byte list" where
  "normal_name s = join_segs (filter (\<lambda>g. g \<noteq> []) (split_fields is_slash s))"

lemma normalize_name_ok:
  assumes al: "alloc_env al" and len: "2 * length name + 4 \<le> BUF_LIMIT"
  shows "git_reference__normalize_name al None name flags =
      Some (if ref_name_ok flags False (cstr name) then 0 else GIT_EINVALIDSPEC, None)"
    "buf_wf b \<Longrightarrow> \<exists>b'. git_reference__normalize_name al (Some b) name flags =
      Some (if ref_name_ok flags True (cstr name) then 0 else GIT_EINVALIDSPEC, Some b') \<and>
      (ref_name_ok flags True (cstr name) \<longrightarrow> buf_wf b' \<and> content b' = normal_name (cstr name))"
proof -
  let ?ss = "split_fields is_slash (cstr name)"
  have slash: "\<not> ref_name_ok flags lax (cstr name)" if "peek name = 47" for lax
    using that by (cases name) (auto simp: ref_name_ok_def Let_def)
  have bad: "\<not> ref_name_ok flags lax (cstr name)"
    if "\<not> (segs_ok (flags AND GIT_REF_FORMAT_REFSPEC_PATTERN \<noteq> 0) ?ss \<and> (lax \<or> [] \<notin> set ?ss))" for lax
    using that by (auto simp: ref_name_ok_def Let_def)
  have loop: "\<exists>buf' res. normalize_loop al flags buf name 0 0 = Some (buf', res) \<and> (buf' = None \<longleftrightarrow> buf = None) \<and>
     (if segs_ok (flags AND GIT_REF_FORMAT_REFSPEC_PATTERN \<noteq> 0) ?ss \<and> (buf \<noteq> None \<or> [] \<notin> set ?ss)
      then res = Inr (length (cstr name) - length (last ?ss), length (last ?ss), length (filter (\<lambda>g. g \<noteq> []) ?ss)) \<and>
        norm_state buf' (filter (\<lambda>g. g \<noteq> []) ?ss)
      else res = Inl GIT_EINVALIDSPEC)" if st: "norm_state buf []" for buf
  proof -
    have p: "0 \<le> length name" "length (join_segs []) \<le> 0" "\<forall>g\<in>set []. seg_plain g" by simp_all
    from normalize_loop_ok [OF al len p st, of flags]
    obtain buf' res where "normalize_loop al flags buf name 0 (length ([] :: byte list list)) = Some (buf', res) \<and> (buf' = None) = (buf = None) \<and>
      (let ss = split_fields is_slash (cstr (drop 0 name)) in
        if segs_ok (flags AND GIT_REF_FORMAT_REFSPEC_PATTERN \<noteq> 0) ss \<and> (buf \<noteq> None \<or> [] \<notin> set ss)
        then res = Inr (0 + length (cstr (drop 0 name)) - length (last ss), length (last ss), length ([] :: byte list list) + length (filter (\<lambda>g. g \<noteq> []) ss)) \<and>
          norm_state buf' ([] @ filter (\<lambda>g. g \<noteq> []) ss) \<and> (\<forall>g\<in>set ss. g \<noteq> [] \<longrightarrow> seg_plain g)
        else res = Inl GIT_EINVALIDSPEC)"
      by (elim exE) (rule that, assumption)
    then show ?thesis by (intro exI [of _ buf'] exI [of _ res]) (auto simp: Let_def split: if_splits)
  qed
  show "git_reference__normalize_name al None name flags =
      Some (if ref_name_ok flags False (cstr name) then 0 else GIT_EINVALIDSPEC, None)"
  proof (cases "peek name = 47")
    case True
    then show ?thesis using slash by (simp add: git_reference__normalize_name_def)
  next
    case False
    have "norm_state None []" by (simp add: norm_state_def)
    from loop [OF this] show ?thesis
      using False bad [of False] normalize_checks_ok [OF False refl refl, of flags False]
      by (auto simp: git_reference__normalize_name_def split: if_splits)
  qed
  assume wf: "buf_wf b"
  show "\<exists>b'. git_reference__normalize_name al (Some b) name flags =
      Some (if ref_name_ok flags True (cstr name) then 0 else GIT_EINVALIDSPEC, Some b') \<and>
      (ref_name_ok flags True (cstr name) \<longrightarrow> buf_wf b' \<and> content b' = normal_name (cstr name))"
  proof (cases "peek name = 47")
    case True
    then show ?thesis using slash by (simp add: git_reference__normalize_name_def)
  next
    case False
    from git_buf_clear_wf [OF wf] obtain b0 where b0: "git_buf_clear b = Some b0" "buf_wf b0" "content b0 = []" by auto
    then have "norm_state (Some b0) []" by (simp add: norm_state_def)
    from loop [OF this] obtain b1 res where r: "normalize_loop al flags (Some b0) name 0 0 = Some (Some b1, res)"
      "if segs_ok (flags AND GIT_REF_FORMAT_REFSPEC_PATTERN \<noteq> 0) ?ss
      then res = Inr (length (cstr name) - length (last ?ss), length (last ?ss), length (filter (\<lambda>g. g \<noteq> []) ?ss)) \<and>
        norm_state (Some b1) (filter (\<lambda>g. g \<noteq> []) ?ss)
      else res = Inl GIT_EINVALIDSPEC" by auto
    then show ?thesis
      using False b0 bad [of True] normalize_checks_ok [OF False refl refl, of flags True]
      by (auto simp: git_reference__normalize_name_def norm_state_def normal_name_def split: if_splits)
  qed
qed

lemma ref_segment_ok_Nil [simp]: "ref_segment_ok []"
  by (simp add: ref_segment_ok_def bytes_of_def GIT_FILELOCK_EXTENSION_def)

lemma segs_ok_filter: "segs_ok p (filter (\<lambda>g. g \<noteq> []) ss) = segs_ok p ss"
  by (induction p ss rule: segs_ok.induct) auto

lemma segs_ok_members: "segs_ok p ss \<Longrightarrow> g \<in> set ss \<Longrightarrow> ref_segment_ok g \<or> p \<and> g = [42]"
  by (induction p ss rule: segs_ok.induct) (auto split: if_splits)

lemma split_join: "\<forall>g\<in>set ds. 47 \<notin> set g \<Longrightarrow> ds \<noteq> [] \<Longrightarrow> split_fields is_slash (join_segs ds) = ds"
proof (induction ds rule: join_segs.induct)
  case (2 g)
  then show ?case using split_fields_none [of g is_slash] by auto
next
  case (3 g h gs)
  then have "\<forall>c\<in>set g. c \<noteq> 47" by auto
  with 3 show ?case using split_fields_append [of g is_slash 47] by simp
qed simp

lemma last_last_split_fields: "s \<noteq> [] \<Longrightarrow> \<not> P (last s) \<Longrightarrow> last (last (split_fields P s)) = last s"
proof (induction s)
  case (Cons c s)
  show ?case
  proof (cases "s = []")
    case False
    then have ne: "last (split_fields P s) \<noteq> []" and IH: "last (last (split_fields P s)) = last s"
      using last_split_fields_Nil [of s P] Cons by simp_all
    obtain g gs where g: "split_fields P s = g # gs" by (cases "split_fields P s") auto
    show ?thesis
      using ne IH False by (cases gs) (auto simp: g split: if_splits)
  qed (use Cons in auto)
qed simp

lemma last_join_segs: "\<forall>g\<in>set ds. g \<noteq> [] \<Longrightarrow> ds \<noteq> [] \<Longrightarrow> join_segs ds \<noteq> [] \<and> last (join_segs ds) = last (last ds) \<and> hd (join_segs ds) = hd (hd ds)"
  by (induction ds rule: join_segs.induct) auto

lemma normal_name_ok:
  assumes ok: "ref_name_ok flags lax s" and z: "0 \<notin> set s"
  shows "ref_name_ok flags False (normal_name s)" and "normal_name (normal_name s) = normal_name s" and "0 \<notin> set (normal_name s)"
proof -
  define ss where "ss = split_fields is_slash s"
  define ne where "ne = filter (\<lambda>g. g \<noteq> []) ss"
  have nn: "normal_name s = join_segs ne" by (simp add: normal_name_def ne_def ss_def)
  have s: "s \<noteq> []" "hd s \<noteq> 47" "last s \<noteq> 47" "last s \<noteq> 46" "segs_ok (flags AND GIT_REF_FORMAT_REFSPEC_PATTERN \<noteq> 0) ss"
    using ok by (auto simp: ref_name_ok_def ss_def Let_def)
  have hd_ne: "hd ss \<noteq> []" using s(1,2) by (cases s) (auto simp: ss_def hd_split_fields)
  have last_ne: "last ss \<noteq> []" using last_split_fields_Nil [OF s(1), of is_slash] s(3) by (simp add: ss_def)
  have ss_ne: "ss \<noteq> []" by (simp add: ss_def)
  then have ne: "ne \<noteq> []" "hd ne = hd ss" using hd_ne by (cases ss; simp add: ne_def)+
  have last: "last ne = last ss" using last_ne ss_ne unfolding ne_def by (cases ss rule: rev_cases) auto
  have plain: "\<forall>g\<in>set ne. seg_plain g"
    using split_fields_set [of _ is_slash s] z by (auto simp: ne_def ss_def seg_plain_def)
  then have split: "split_fields is_slash (join_segs ne) = ne" using ne by (intro split_join) (auto simp: seg_plain_def)
  have filter: "filter (\<lambda>g. g \<noteq> []) ne = ne" by (simp add: ne_def)
  have ends: "join_segs ne \<noteq> []" "last (join_segs ne) = last s" "hd (join_segs ne) = hd (hd ss)" "last (join_segs ne) \<noteq> 47"
    using last_join_segs [of ne] ne plain last last_last_split_fields [OF s(1), of is_slash] s(3) join_segs_props [OF plain]
    by (auto simp: seg_plain_def ss_def)
  have hd47: "hd (hd ss) \<noteq> 47" using s(1,2) by (cases s) (auto simp: ss_def hd_split_fields)
  have one: "join_segs ne = s" if "length ne = 1"
  proof -
    have "\<exists>g. ss = [g]" using that hd_ne last_ne ss_ne unfolding ne_def by (metis one_segment)
    then obtain g where g: "ss = [g]" ..
    with split_fields_single [of is_slash s g] have "ss = [s]" by (simp add: ss_def)
    then show ?thesis using s(1) by (simp add: ne_def)
  qed
  show "normal_name (normal_name s) = normal_name s" unfolding nn by (simp add: normal_name_def split filter)
  show "0 \<notin> set (normal_name s)" using join_segs_props [OF plain ne(1)] by (simp add: nn)
  have "[] \<notin> set ne" by (simp add: ne_def)
  moreover have "segs_ok (flags AND GIT_REF_FORMAT_REFSPEC_PATTERN \<noteq> 0) ne" using s(5) by (simp add: ne_def segs_ok_filter)
  moreover have "(length ne = 1 \<longrightarrow> flags AND GIT_REF_FORMAT_ALLOW_ONELEVEL \<noteq> 0 \<and>
        (flags AND GIT_REF_FORMAT_REFSPEC_SHORTHAND \<noteq> 0 \<or> all_caps s \<or> flags AND GIT_REF_FORMAT_REFSPEC_PATTERN \<noteq> 0 \<and> s = [42])) \<and>
      (length ne > 1 \<longrightarrow> \<not> all_caps (hd ss))"
    using ok unfolding ref_name_ok_def Let_def ss_def [symmetric] ne_def [symmetric] by blast
  ultimately show "ref_name_ok flags False (normal_name s)"
    using ends s(4) hd47 one unfolding nn ref_name_ok_def Let_def split filter ne(2) by metis
qed

lemma sublist_in_field: "sublist [a, b] s \<Longrightarrow> \<not> P a \<Longrightarrow> \<not> P b \<Longrightarrow> \<exists>g\<in>set (split_fields P s). sublist [a, b] g"
proof (induction s)
  case (Cons c s)
  obtain h hs where g: "split_fields P s = h # hs" by (cases "split_fields P s") auto
  have h: "h = takeWhile (\<lambda>c. \<not> P c) s" using hd_split_fields [of P s] g by simp
  from Cons.prems(1) consider "c = a" "prefix [b] s" | "sublist [a, b] s" by (auto simp: sublist_pair)
  then show ?case
  proof cases
    case 1
    then have "prefix [b] h" using Cons.prems(3) by (auto simp: h prefix_def)
    then show ?thesis using 1 Cons.prems(2) g by (auto simp: sublist_pair)
  next
    case 2
    with Cons obtain x where "x \<in> set (h # hs)" "sublist [a, b] x" using g by auto
    then show ?thesis by (auto simp: g sublist_pair)
  qed
qed simp

lemma empty_between: "sublist [c, c] s \<Longrightarrow> P c \<Longrightarrow> [] \<in> set (tl (split_fields P s))"
proof (induction s)
  case (Cons d s)
  then consider "d = c" "prefix [c] s" | "sublist [c, c] s" by (auto simp: sublist_pair)
  then show ?case
  proof cases
    case 1
    then show ?thesis using Cons.prems(2) by (auto simp: prefix_def)
  next
    case 2
    then show ?thesis using Cons by (cases "split_fields P s") auto
  qed
qed simp

section \<open>Following symbolic references\<close>

lemma normalize_into_array:
  assumes al: "alloc_env al" and len: "2 * length name + 4 \<le> BUF_LIMIT" and out: "out \<noteq> []" "length out < 2 ^ 64" and z: "0 \<notin> set (cstr name)"
  shows "\<exists>out'. git_reference_normalize_name al out name flags =
    Some (if \<not> ref_name_ok flags True (cstr name) then (GIT_EINVALIDSPEC, out)
      else if length (normal_name (cstr name)) \<ge> length out then (GIT_EBUFS, out) else (0, out')) \<and>
    (ref_name_ok flags True (cstr name) \<and> length (normal_name (cstr name)) < length out \<longrightarrow> cstr out' = normal_name (cstr name))"
proof -
  let ?ok = "ref_name_ok flags True (cstr name)" and ?c = "normal_name (cstr name)"
  from normalize_name_ok(2) [OF al len, of GIT_BUF_INIT flags] obtain b where
    b: "git_reference__normalize_name al (Some GIT_BUF_INIT) name flags = Some (if ?ok then 0 else GIT_EINVALIDSPEC, Some b)"
      "?ok \<Longrightarrow> buf_wf b \<and> content b = ?c" by auto
  have bound: "(length out + SIZE_MAX) mod 2 ^ 64 = length out - 1"
  proof -
    have "length out + SIZE_MAX = (length out - 1) + 2 ^ 64" using out by (cases out) (auto simp: SIZE_MAX_def)
    then show ?thesis using out(2) by simp
  qed
  show ?thesis
  proof (cases ?ok)
    case False
    then show ?thesis using b(1) by (simp add: git_reference_normalize_name_def)
  next
    case True
    note bc = b(2) [OF True]
    have size: "buf_size b = length ?c" using bc length_content [of b] by simp
    show ?thesis
    proof (cases "length ?c \<ge> length out")
      case True
      then have "length out - Suc 0 < length ?c" using out by (cases out) auto
      then show ?thesis using b(1) \<open>?ok\<close> True size bound by (simp add: git_reference_normalize_name_def)
    next
      case False
      have nz: "0 \<notin> set ?c" by (rule normal_name_ok(3) [OF True z])
      have "\<exists>out'. git_buf_copy_cstr out b = Some out' \<and> cstr out' = ?c"
      proof (cases "buf_size b = 0 \<or> buf_asize b = 0")
        case True
        then have "?c = []" using size buf_wf_asize_0 [of b] bc by (auto simp: GIT_BUF_INIT_def)
        then show ?thesis using True out by (cases out) (simp_all add: git_buf_copy_cstr_def)
      next
        case nz2: False
        have "buf_load b 0 (buf_size b) = Some ?c" using buf_load_content [of b 0 "buf_size b"] bc size by simp
        moreover have "cstr ((?c @ drop (length ?c) (out[0 := 0]))[length ?c := 0]) = ?c"
        proof -
          have "(?c @ drop (length ?c) (out[0 := 0]))[length ?c := 0] = ?c @ 0 # drop (Suc (length ?c)) (out[0 := 0])"
            using False by (simp add: list_update_append upd_conv_take_nth_drop)
          then show ?thesis by (simp add: cstr_stop [OF nz])
        qed
        ultimately show ?thesis using False nz2 out size by (auto simp: git_buf_copy_cstr_def Let_def)
      qed
      then show ?thesis using b(1) True False size bound by (auto simp: git_reference_normalize_name_def)
    qed
  qed
qed

inductive sym_chain :: "refdb \<Rightarrow> byte list \<Rightarrow> nat \<Rightarrow> git_reference \<Rightarrow> bool" for db where
  here: "db n = Inr r \<Longrightarrow> sym_chain db n 0 r"
| link: "db n = Inr r \<Longrightarrow> ref_target r = GIT_REF_SYMBOLIC t \<Longrightarrow> sym_chain db (cstr t) k r' \<Longrightarrow> sym_chain db n (Suc k) r'"

inductive_simps sym_chain_simps: "sym_chain db n 0 r" "sym_chain db n (Suc k) r"

definition short_targets :: "refdb \<Rightarrow> bool" where
  "short_targets db \<longleftrightarrow> (\<forall>n r t. db n = Inr r \<longrightarrow> ref_target r = GIT_REF_SYMBOLIC t \<longrightarrow> length (cstr t) < GIT_REFNAME_MAX)"

lemma lookup_loop_returns: "short_targets db \<Longrightarrow> 0 < n \<Longrightarrow> \<exists>r. lookup_loop db n s = Some r"
proof (induction db n s rule: lookup_loop.induct)
  case (2 db n s)
  show ?case
  proof (cases "\<exists>r t. db s = Inr r \<and> ref_target r = GIT_REF_SYMBOLIC t")
    case True
    then obtain r t where r: "db s = Inr r" "ref_target r = GIT_REF_SYMBOLIC t" by blast
    then have "length (cstr t) < GIT_REFNAME_MAX" using 2(2) by (auto simp: short_targets_def)
    then show ?thesis using r 2 by auto
  next
    case False
    then show ?thesis by (auto split: sum.splits ref_target.splits)
  qed
qed simp

lemma lookup_loop_chain:
  "sym_chain db s k ref \<Longrightarrow> short_targets db \<Longrightarrow> git_reference_target ref \<noteq> None \<Longrightarrow> k < n \<Longrightarrow> lookup_loop db n s = Some (Inr ref)"
proof (induction arbitrary: n rule: sym_chain.induct)
  case (here s r)
  then show ?case by (cases n) (auto simp: git_reference_target_def split: ref_target.splits)
next
  case (link s r t k r')
  then obtain m where "n = Suc m" "k < m" by (cases n) auto
  then show ?case using link by (auto simp: short_targets_def not_le)
qed

lemma lookup_loop_found:
  "lookup_loop db n s = Some (Inr ref) \<Longrightarrow> \<exists>k<n. sym_chain db s k ref"
proof (induction db n s rule: lookup_loop.induct)
  case (2 db n s)
  then show ?case
    by (auto simp: sym_chain_simps split: sum.splits ref_target.splits if_splits intro: here)
      (metis Suc_mono link)+
qed simp

lemma join_split: "join_segs (split_fields is_slash s) = s"
proof (induction s)
  case (Cons c s)
  obtain g gs where "split_fields is_slash s = g # gs" by (cases "split_fields is_slash s") auto
  with Cons show ?case by (cases gs) auto
qed simp

lemma normal_name_valid: "ref_name_ok flags False s \<Longrightarrow> normal_name s = s"
  by (auto simp: ref_name_ok_def normal_name_def Let_def join_split intro!: filter_True arg_cong [of _ _ join_segs, THEN trans [OF _ join_split]])

lemma ref_name_ok_lax: "ref_name_ok flags False s \<Longrightarrow> ref_name_ok flags lax s"
  by (auto simp: ref_name_ok_def Let_def)

definition nesting_of :: "int \<Rightarrow> nat" where
  "nesting_of m = nat (if m > MAX_NESTING_LEVEL then MAX_NESTING_LEVEL else if m < 0 then DEFAULT_NESTING_LEVEL else m)"

lemma lookup_resolved_eq:
  assumes al: "alloc_env al" and len: "2 * length name + 4 \<le> BUF_LIMIT" and z: "0 \<notin> set (cstr name)"
    and ok: "ref_name_ok GIT_REF_FORMAT_ALLOW_ONELEVEL True (cstr name)" and short: "length (normal_name (cstr name)) < GIT_REFNAME_MAX"
  shows "git_reference_lookup_resolved al db name m =
    (case lookup_loop db (nesting_of m + 1) (normal_name (cstr name)) of
       None \<Rightarrow> None
     | Some (Inl error) \<Rightarrow> Some (Inl error)
     | Some (Inr ref) \<Rightarrow> if git_reference_target ref = None \<and> nesting_of m \<noteq> 0 then Some (Inl (-1)) else Some (Inr ref))"
proof -
  have "replicate GIT_REFNAME_MAX (0 :: byte) \<noteq> []" "length (replicate GIT_REFNAME_MAX (0 :: byte)) < 2 ^ 64"
    by (simp_all add: GIT_REFNAME_MAX_def)
  from normalize_into_array [OF al len this z, of GIT_REF_FORMAT_ALLOW_ONELEVEL] ok short obtain out where
    "git_reference_normalize_name al (replicate GIT_REFNAME_MAX 0) name GIT_REF_FORMAT_ALLOW_ONELEVEL = Some (0, out)"
    "cstr out = normal_name (cstr name)" by (auto simp: not_le)
  moreover have "(if m > MAX_NESTING_LEVEL then MAX_NESTING_LEVEL else if m < 0 then DEFAULT_NESTING_LEVEL else m) = int (nesting_of m)"
    by (simp add: nesting_of_def MAX_NESTING_LEVEL_def DEFAULT_NESTING_LEVEL_def)
  ultimately show ?thesis
    unfolding git_reference_lookup_resolved_def Let_def by (auto split: option.splits sum.splits)
qed

lemma length_join_segs: "ds \<noteq> [] \<Longrightarrow> length (join_segs ds) + 1 = sum_list (map length ds) + length ds"
  by (induction ds rule: join_segs.induct) auto

lemma length_normal_name: "length (normal_name s) \<le> length s"
proof -
  define ss where "ss = split_fields is_slash s"
  have "sum_list (map length (filter (\<lambda>g. g \<noteq> []) ss)) = sum_list (map length ss)" by (induction ss) auto
  moreover have "length (filter (\<lambda>g. g \<noteq> []) ss) \<le> length ss" by simp
  moreover have "length s + 1 = sum_list (map length ss) + length ss"
    using length_join_segs [of ss] by (simp add: ss_def join_split)
  ultimately show ?thesis
    using length_join_segs [of "filter (\<lambda>g. g \<noteq> []) ss"] unfolding normal_name_def ss_def [symmetric]
    by (cases "filter (\<lambda>g. g \<noteq> []) ss = []") (simp, linarith)
qed

lemma dwim_loop_first:
  assumes "\<forall>n\<in>set pre. git_reference_is_valid_name al n = Some False \<or>
      git_reference_is_valid_name al n = Some True \<and> git_reference_lookup_resolved al db n (-1) = Some (Inl GIT_ENOTFOUND)"
    and "git_reference_is_valid_name al n = Some True" "git_reference_lookup_resolved al db n (-1) = Some (Inr ref)"
  shows "dwim_loop al db (pre @ n # post) e = Some (Inr ref)"
  using assms(1) by (induction pre arbitrary: e) (auto simp: assms(2,3))

lemma git_reference_lookup_resolved_chain_aux:
  assumes "alloc_env al" and "2 * length name + 4 \<le> BUF_LIMIT" and "short_targets db"
    and "ref_name_ok GIT_REF_FORMAT_ALLOW_ONELEVEL True (cstr name)" and "length (normal_name (cstr name)) < GIT_REFNAME_MAX"
    and that: "sym_chain db (normal_name (cstr name)) k ref" "git_reference_target ref \<noteq> None" "k \<le> nesting_of m"
  shows "git_reference_lookup_resolved al db name m = Some (Inr ref)"
  using lookup_loop_chain [OF that(1) assms(3) that(2), of "nesting_of m + 1"] that(2,3)
  unfolding lookup_resolved_eq [OF assms(1,2) cstr_no_nul assms(4,5), of db m] by auto

section \<open>Properties\<close>

text \<open>A leading slash is an error, although the documentation of \<open>git_reference_normalize_name\<close> says that it is removed.\<close>

lemma git_reference__normalize_name_leading_slash:
  "peek name = 47 \<Longrightarrow> git_reference__normalize_name al buf name flags = Some (GIT_EINVALIDSPEC, map_option git_buf_free buf)"
  by (simp add: git_reference__normalize_name_def)





text \<open>C24: A name that \<open>git_reference_is_valid_name\<close> accepts is safe as a path below the repository: it has no
  \<open>..\<close>, no \<open>//\<close> and no at sign before an opening brace, neither begins nor ends with a slash, does not end with a dot, no component begins with a dot
  or ends with \<open>.lock\<close>, and it holds no byte below 32, no space, and none of tilde, caret, colon, backslash, question mark, opening
  bracket and star.\<close>

theorem git_reference_valid_name_safe:
  assumes "alloc_env al" and "2 * length name + 4 \<le> BUF_LIMIT" and "git_reference_is_valid_name al name = Some True"
  shows "\<not> sublist (bytes_of ''..'') (cstr name) \<and> \<not> sublist (bytes_of ''//'') (cstr name) \<and> \<not> sublist (bytes_of (CHR 0x40 # CHR ''{'' # [])) (cstr name) \<and>
    cstr name \<noteq> [] \<and> hd (cstr name) \<noteq> 47 \<and> last (cstr name) \<notin> {46, 47} \<and>
    (\<forall>g\<in>set (split_fields is_slash (cstr name)). g \<noteq> [] \<and> hd g \<noteq> 46 \<and> \<not> suffix GIT_FILELOCK_EXTENSION g) \<and>
    (\<forall>c\<in>set (cstr name). 32 < c \<and> c \<notin> {126, 94, 58, 92, 63, 91, 42})"
proof -
  define s where "s = cstr name"
  have ok: "ref_name_ok GIT_REF_FORMAT_ALLOW_ONELEVEL False s"
    using assms(3) normalize_name_ok(1) [OF assms(1,2), of GIT_REF_FORMAT_ALLOW_ONELEVEL]
    by (simp add: git_reference_is_valid_name_def git_reference__is_valid_name_def s_def split: if_splits)
  then have segs: "segs_ok False (split_fields is_slash s)" "[] \<notin> set (split_fields is_slash s)"
    and ends: "s \<noteq> []" "hd s \<noteq> 47" "last s \<notin> {46, 47}" by (auto simp: ref_name_ok_def Let_def)
  have seg: "ref_segment_ok g \<and> g \<noteq> []" if "g \<in> set (split_fields is_slash s)" for g
    using segs_ok_members [OF segs(1) that] segs(2) that by auto
  have dots: "bytes_of ''..'' = [46, 46]" "bytes_of (CHR 0x40 # CHR ''{'' # []) = [64, 123]" "bytes_of ''//'' = [47, 47]" by (simp_all add: bytes_of_def)
  have "\<not> sublist [46, 46] s" "\<not> sublist [64, 123] s"
    using sublist_in_field [of 46 46 s is_slash] sublist_in_field [of 64 123 s is_slash] seg
    by (fastforce simp: ref_segment_ok_def dots)+
  moreover have "\<not> sublist [47, 47] s"
    using empty_between [of 47 s is_slash] segs(2) by (cases "split_fields is_slash s") auto
  moreover have "\<forall>g\<in>set (split_fields is_slash s). g \<noteq> [] \<and> hd g \<noteq> 46 \<and> \<not> suffix GIT_FILELOCK_EXTENSION g"
  proof
    fix g assume "g \<in> set (split_fields is_slash s)"
    from seg [OF this] show "g \<noteq> [] \<and> hd g \<noteq> 46 \<and> \<not> suffix GIT_FILELOCK_EXTENSION g"
      by (cases g) (auto simp: ref_segment_ok_def)
  qed
  moreover have "\<forall>c\<in>set s. 32 < c \<and> c \<notin> {126, 94, 58, 92, 63, 91, 42}"
  proof
    fix c assume "c \<in> set s"
    then have "c = 47 \<or> plain_ref_char c"
      using in_some_field [of c s is_slash] seg by (auto simp: ref_segment_ok_def)
    then show "32 < c \<and> c \<notin> {126, 94, 58, 92, 63, 91, 42}" by (auto simp: plain_ref_char_def)
  qed
  ultimately show ?thesis using ends by (simp add: s_def dots)
qed

theorem git_reference_valid_name_safe_witness:
  "git_reference_is_valid_name (fill_alloc 0) (bytes_of ''refs/heads/x'') = Some True \<and>
   \<not> sublist (bytes_of ''..'') (bytes_of ''refs/heads/x'')"
proof -
  let ?n = "bytes_of ''refs/heads/x''"
  have ok: "ref_name_ok GIT_REF_FORMAT_ALLOW_ONELEVEL False (cstr ?n)"
    by (simp add: bytes_of_def ref_name_ok_def ref_segment_ok_def plain_ref_char_def all_caps_def
        GIT_FILELOCK_EXTENSION_def suffix_def Cons_eq_append_conv sublist_Cons_right)
  have len: "2 * length ?n + 4 \<le> BUF_LIMIT" by (simp add: bytes_of_def BUF_LIMIT_def)
  have v: "git_reference_is_valid_name (fill_alloc 0) ?n = Some True"
    using normalize_name_ok(1) [OF alloc_env_fill len, of 0 GIT_REF_FORMAT_ALLOW_ONELEVEL] ok
    by (simp add: git_reference_is_valid_name_def git_reference__is_valid_name_def)
  have "cstr ?n = ?n" by (simp add: bytes_of_def)
  with git_reference_valid_name_safe [OF alloc_env_fill len v] v show ?thesis by simp
qed


definition sample_ref :: "byte list \<Rightarrow> ref_target \<Rightarrow> git_reference" where
  "sample_ref n t = \<lparr>ref_name = n, ref_target = t, ref_peel = oid_of (replicate 20 0)\<rparr>"

definition sample_db :: refdb where
  "sample_db n = (if n = bytes_of ''HEAD'' then Inr (sample_ref n (GIT_REF_SYMBOLIC (bytes_of ''refs/heads/m'')))
     else if n = bytes_of ''refs/heads/m'' then Inr (sample_ref n (GIT_REF_OID (oid_of (replicate 20 7))))
     else Inl GIT_ENOTFOUND)"

lemma sample_db_short: "short_targets sample_db"
  by (auto simp: short_targets_def sample_db_def sample_ref_def bytes_of_def GIT_REFNAME_MAX_def split: if_splits)

lemma sample_db_chain:
  "sym_chain sample_db (bytes_of ''HEAD'') 1 (sample_ref (bytes_of ''refs/heads/m'') (GIT_REF_OID (oid_of (replicate 20 7))))"
  unfolding One_nat_def
  by (rule link [where t = "bytes_of ''refs/heads/m''"], auto simp: sample_db_def sample_ref_def bytes_of_def intro!: here)

lemma sample_head_ok: "ref_name_ok GIT_REF_FORMAT_ALLOW_ONELEVEL False (bytes_of ''HEAD'')"
  by (simp add: bytes_of_def ref_name_ok_def ref_segment_ok_def plain_ref_char_def all_caps_def
      GIT_FILELOCK_EXTENSION_def suffix_def Cons_eq_append_conv sublist_Cons_right)

lemma sample_head_cstr: "cstr (bytes_of ''HEAD'') = bytes_of ''HEAD''"
  by (simp add: bytes_of_def)


text \<open>\<open>git_reference_dwim\<close> tries the name itself, then below refs/, refs/tags/, refs/heads/, refs/remotes/, and as the HEAD of a
  remote, and returns the reference of the first of these that is a valid name and exists.\<close>

theorem git_reference_dwim_first:
  assumes "alloc_env al" and "short_targets db" and "cstr refname \<noteq> []" and "length (cstr refname) < 900"
    and "map (\<lambda>f. f (cstr refname)) dwim_formatters = pre @ n # post"
    and "\<forall>p\<in>set pre. ref_name_ok GIT_REF_FORMAT_ALLOW_ONELEVEL False p \<longrightarrow> db p = Inl GIT_ENOTFOUND"
    and "ref_name_ok GIT_REF_FORMAT_ALLOW_ONELEVEL False n"
    and "sym_chain db n k ref" and "git_reference_target ref \<noteq> None" and "k \<le> 5"
  shows "git_reference_dwim al db refname = Some (Inr ref)"
proof -
  have cand: "2 * length p + 4 \<le> BUF_LIMIT \<and> cstr p = p \<and> length p < GIT_REFNAME_MAX" if "p \<in> set (pre @ n # post)" for p
  proof -
    have "p \<in> set (map (\<lambda>f. f (cstr refname)) dwim_formatters)" using that assms(5) by simp
    then have "0 \<notin> set p" "length p \<le> length (cstr refname) + 20" using cstr_no_nul [of refname]
      by (auto simp: dwim_formatters_def GIT_REFS_DIR_def GIT_REFS_TAGS_DIR_def GIT_REFS_HEADS_DIR_def GIT_REFS_REMOTES_DIR_def
          GIT_HEAD_FILE_def bytes_of_def)
    then show ?thesis using assms(4) by (simp add: cstr_id BUF_LIMIT_def GIT_REFNAME_MAX_def)
  qed
  have valid: "git_reference_is_valid_name al p = Some (ref_name_ok GIT_REF_FORMAT_ALLOW_ONELEVEL False p)"
    if "p \<in> set (pre @ n # post)" for p
    using normalize_name_ok(1) [OF assms(1), of p GIT_REF_FORMAT_ALLOW_ONELEVEL] cand [OF that]
    by (simp add: git_reference_is_valid_name_def git_reference__is_valid_name_def)
  have missing: "git_reference_lookup_resolved al db p (-1) = Some (Inl GIT_ENOTFOUND)"
    if "p \<in> set (pre @ n # post)" "ref_name_ok GIT_REF_FORMAT_ALLOW_ONELEVEL False p" "db p = Inl GIT_ENOTFOUND" for p
    using lookup_resolved_eq [OF assms(1) _ cstr_no_nul, of p db "-1"] cand [OF that(1)] that(2,3)
    by (simp add: ref_name_ok_lax normal_name_valid)
  have "git_reference_lookup_resolved al db n (-1) = Some (Inr ref)"
    using git_reference_lookup_resolved_chain_aux [OF assms(1) _ assms(2), of n k ref "-1"] cand [of n] assms(7-10)
    by (simp add: ref_name_ok_lax normal_name_valid nesting_of_def DEFAULT_NESTING_LEVEL_def MAX_NESTING_LEVEL_def)
  moreover have "\<forall>p\<in>set pre. git_reference_is_valid_name al p = Some False \<or>
      git_reference_is_valid_name al p = Some True \<and> git_reference_lookup_resolved al db p (-1) = Some (Inl GIT_ENOTFOUND)"
    using valid missing assms(6) by auto
  moreover have "git_reference_is_valid_name al n = Some True" using valid [of n] assms(7) by simp
  ultimately have "dwim_loop al db (pre @ n # post) 0 = Some (Inr ref)" by (intro dwim_loop_first)
  moreover have "peek refname \<noteq> 0" using assms(3) by (cases refname) (auto split: if_splits)
  ultimately show ?thesis by (simp add: git_reference_dwim_def assms(5))
qed

theorem git_reference_dwim_first_witness:
  "git_reference_dwim (fill_alloc 0) sample_db (bytes_of ''m'') =
     Some (Inr (sample_ref (bytes_of ''refs/heads/m'') (GIT_REF_OID (oid_of (replicate 20 7)))))"
proof (rule git_reference_dwim_first [where pre = "[bytes_of ''m'', bytes_of ''refs/m'', bytes_of ''refs/tags/m'']" and
    n = "bytes_of ''refs/heads/m''" and post = "[bytes_of ''refs/remotes/m'', bytes_of ''refs/remotes/m/HEAD'']" and k = 0])
  show "ref_name_ok GIT_REF_FORMAT_ALLOW_ONELEVEL False (bytes_of ''refs/heads/m'')"
    by (simp add: bytes_of_def ref_name_ok_def ref_segment_ok_def plain_ref_char_def all_caps_def
        GIT_FILELOCK_EXTENSION_def suffix_def Cons_eq_append_conv sublist_Cons_right)
  show "sym_chain sample_db (bytes_of ''refs/heads/m'') 0 (sample_ref (bytes_of ''refs/heads/m'') (GIT_REF_OID (oid_of (replicate 20 7))))"
    by (rule here) (simp add: sample_db_def bytes_of_def)
qed (auto simp: sample_db_short sample_ref_def git_reference_target_def sample_db_def dwim_formatters_def GIT_REFS_DIR_def
    GIT_REFS_TAGS_DIR_def GIT_REFS_HEADS_DIR_def GIT_REFS_REMOTES_DIR_def GIT_HEAD_FILE_def bytes_of_def)

end
