(* ===== verification/Path.thy ===== *)
theory Path
  imports Strings Numbers
begin

text \<open>
  Which paths are valid (\<open>git_path_isvalid\<close> of path.c and the checks of a component it is made of), and the order of
  paths \<open>git_path_cmp\<close>. The settings of a repository are parameters: whether it protects HFS and NTFS names, and the list of
  the names reserved on Windows.
\<close>

section \<open>The checks of a component\<close>

abbreviation GIT_PATH_REJECT_TRAVERSAL :: u32 where "GIT_PATH_REJECT_TRAVERSAL \<equiv> 0x1"
abbreviation GIT_PATH_REJECT_DOT_GIT :: u32 where "GIT_PATH_REJECT_DOT_GIT \<equiv> 0x2"
abbreviation GIT_PATH_REJECT_SLASH :: u32 where "GIT_PATH_REJECT_SLASH \<equiv> 0x4"
abbreviation GIT_PATH_REJECT_BACKSLASH :: u32 where "GIT_PATH_REJECT_BACKSLASH \<equiv> 0x8"
abbreviation GIT_PATH_REJECT_TRAILING_DOT :: u32 where "GIT_PATH_REJECT_TRAILING_DOT \<equiv> 0x10"
abbreviation GIT_PATH_REJECT_TRAILING_SPACE :: u32 where "GIT_PATH_REJECT_TRAILING_SPACE \<equiv> 0x20"
abbreviation GIT_PATH_REJECT_TRAILING_COLON :: u32 where "GIT_PATH_REJECT_TRAILING_COLON \<equiv> 0x40"
abbreviation GIT_PATH_REJECT_DOS_PATHS :: u32 where "GIT_PATH_REJECT_DOS_PATHS \<equiv> 0x80"
abbreviation GIT_PATH_REJECT_NT_CHARS :: u32 where "GIT_PATH_REJECT_NT_CHARS \<equiv> 0x100"
abbreviation GIT_PATH_REJECT_DOT_GIT_LITERAL :: u32 where "GIT_PATH_REJECT_DOT_GIT_LITERAL \<equiv> 0x200"
abbreviation GIT_PATH_REJECT_DOT_GIT_HFS :: u32 where "GIT_PATH_REJECT_DOT_GIT_HFS \<equiv> 0x400"
abbreviation GIT_PATH_REJECT_DOT_GIT_NTFS :: u32 where "GIT_PATH_REJECT_DOT_GIT_NTFS \<equiv> 0x800"

definition flag :: "u32 \<Rightarrow> u32 \<Rightarrow> bool" where
  "flag flags m \<longleftrightarrow> (flags AND m) \<noteq> 0"

text \<open>A component is given by the bytes from its start on and by its length.\<close>

definition verify_dospath :: "byte list \<Rightarrow> nat \<Rightarrow> byte list \<Rightarrow> bool \<Rightarrow> bool" where
  "verify_dospath component len dospath trailing_num =
     (let l = (if trailing_num then 4 else 3) in
      if len < l \<or> git__strncasecmp component dospath 3 \<noteq> 0 then True
      else if trailing_num \<and> (component ! 3 < 49 \<or> component ! 3 > 57) then True
      else len > l \<and> component ! l \<noteq> 46 \<and> component ! l \<noteq> 58)"

definition hfs_ignored :: "int \<Rightarrow> bool" where
  "hfs_ignored codepoint \<longleftrightarrow> codepoint \<in> {0x200c, 0x200d, 0x200e, 0x200f, 0x202a, 0x202b, 0x202c, 0x202d, 0x202e,
     0x206a, 0x206b, 0x206c, 0x206d, 0x206e, 0x206f, 0xfeff}"

definition tolower_int :: "int \<Rightarrow> int" where
  "tolower_int c = (if c \<ge> 65 \<and> c \<le> 90 then c + 32 else c)"

text \<open>The next character, the rest of the component and its length; \<open>None\<close> reads behind the object.\<close>

function next_hfs_char :: "byte list \<Rightarrow> nat \<Rightarrow> (int \<times> byte list \<times> nat) option" where
  "next_hfs_char s len =
     (if len = 0 then Some (0, s, len)
      else case git__utf8_iterate s (int32 (int len)) of
             None \<Rightarrow> None
           | Some (cp_len, codepoint) \<Rightarrow>
               if cp_len < 0 then Some (-1, s, len)
               else if cp_len = 0 \<or> nat cp_len > len then None
               else if hfs_ignored codepoint then next_hfs_char (drop (nat cp_len) s) (len - nat cp_len)
               else Some (tolower_int codepoint, drop (nat cp_len) s, len - nat cp_len))"
  by pat_completeness auto

termination by (relation "measure (\<lambda>(_, len). len)") auto

declare next_hfs_char.simps [simp del]

text \<open>The calls of \<open>next_hfs_char\<close> in \<open>verify_dotgit_hfs\<close>, up to the first that differs from what is expected.\<close>

fun hfs_chars_match :: "int list \<Rightarrow> byte list \<Rightarrow> nat \<Rightarrow> bool option" where
  "hfs_chars_match [] s len = Some True"
| "hfs_chars_match (e # es) s len =
     (case next_hfs_char s len of
        None \<Rightarrow> None
      | Some (c, s', len') \<Rightarrow> if c \<noteq> e then Some False else hfs_chars_match es s' len')"

definition verify_dotgit_hfs :: "byte list \<Rightarrow> nat \<Rightarrow> bool option" where
  "verify_dotgit_hfs path len = map_option Not (hfs_chars_match [46, 103, 105, 116, 0] path len)"

definition verify_dotgit_ntfs :: "byte list list \<Rightarrow> byte list \<Rightarrow> nat \<Rightarrow> bool" where
  "verify_dotgit_ntfs reserved path len =
     (case find (\<lambda>r. len \<ge> length r \<and> strncasecmp path r (length r) = 0) reserved of
        None \<Rightarrow> True
      | Some r \<Rightarrow>
          let start = length r in
          if start = 0 then True
          else if peek (drop start path) = 92 then False
          else \<exists>c\<in>set (drop start (take len path)). c \<noteq> 32 \<and> c \<noteq> 46)"

definition verify_char :: "byte \<Rightarrow> u32 \<Rightarrow> bool" where
  "verify_char c flags =
     (if flag flags GIT_PATH_REJECT_BACKSLASH \<and> c = 92 then False
      else if flag flags GIT_PATH_REJECT_SLASH \<and> c = 47 then False
      else if flag flags GIT_PATH_REJECT_NT_CHARS \<and>
        (c < 32 \<or> c \<in> {B (CHR ''<''), B (CHR ''>''), B (CHR '':''), B (CHR 0x22), B (CHR 0x7C), B (CHR ''?''), B (CHR ''*'')}) then False
      else True)"

definition verify_component :: "byte list list \<Rightarrow> byte list \<Rightarrow> nat \<Rightarrow> u32 \<Rightarrow> bool option" where
  "verify_component reserved component len flags =
     (if len = 0 then Some False
      else if flag flags GIT_PATH_REJECT_TRAVERSAL \<and> len = 1 \<and> component ! 0 = 46 then Some False
      else if flag flags GIT_PATH_REJECT_TRAVERSAL \<and> len = 2 \<and> component ! 0 = 46 \<and> component ! 1 = 46 then Some False
      else if flag flags GIT_PATH_REJECT_TRAILING_DOT \<and> component ! (len - 1) = 46 then Some False
      else if flag flags GIT_PATH_REJECT_TRAILING_SPACE \<and> component ! (len - 1) = 32 then Some False
      else if flag flags GIT_PATH_REJECT_TRAILING_COLON \<and> component ! (len - 1) = 58 then Some False
      else if flag flags GIT_PATH_REJECT_DOS_PATHS \<and>
        (\<not> verify_dospath component len (bytes_of ''CON'') False \<or> \<not> verify_dospath component len (bytes_of ''PRN'') False \<or>
         \<not> verify_dospath component len (bytes_of ''AUX'') False \<or> \<not> verify_dospath component len (bytes_of ''NUL'') False \<or>
         \<not> verify_dospath component len (bytes_of ''COM'') True \<or> \<not> verify_dospath component len (bytes_of ''LPT'') True)
        then Some False
      else do {
        hfs \<leftarrow> (if flag flags GIT_PATH_REJECT_DOT_GIT_HFS then verify_dotgit_hfs component len else Some True);
        if \<not> hfs then Some False
        else if flag flags GIT_PATH_REJECT_DOT_GIT_NTFS \<and> \<not> verify_dotgit_ntfs reserved component len then Some False
        else if \<not> flag flags GIT_PATH_REJECT_DOT_GIT_HFS \<and> \<not> flag flags GIT_PATH_REJECT_DOT_GIT_NTFS \<and>
          flag flags GIT_PATH_REJECT_DOT_GIT_LITERAL \<and> len = 4 \<and> component ! 0 = 46 \<and>
          (component ! 1 = 103 \<or> component ! 1 = 71) \<and> (component ! 2 = 105 \<or> component ! 2 = 73) \<and>
          (component ! 3 = 116 \<or> component ! 3 = 84) then Some False
        else Some True })"

section \<open>Valid paths\<close>

text \<open>
  The settings of the repository, if there is one, as \<open>core.protectHFS\<close> and \<open>core.protectNTFS\<close> give them; the build is neither for
  Windows nor for Mac OS.
\<close>

definition dotgit_flags :: "(bool \<times> bool) option \<Rightarrow> u32 \<Rightarrow> u32" where
  "dotgit_flags repo flags =
     (let flags = flags OR GIT_PATH_REJECT_DOT_GIT_LITERAL;
          protectHFS = (case repo of None \<Rightarrow> False | Some (hfs, _) \<Rightarrow> hfs);
          flags = (if protectHFS then flags OR GIT_PATH_REJECT_DOT_GIT_HFS else flags);
          protectNTFS = (case repo of None \<Rightarrow> False | Some (_, ntfs) \<Rightarrow> ntfs)
      in if protectNTFS then flags OR GIT_PATH_REJECT_DOT_GIT_NTFS else flags)"

text \<open>The loop: \<open>start\<close> is the string from the start of the component on, \<open>n\<close> the distance to \<open>c\<close>, \<open>s\<close> the string from \<open>c\<close> on.\<close>

fun isvalid_loop :: "byte list list \<Rightarrow> u32 \<Rightarrow> byte list \<Rightarrow> nat \<Rightarrow> byte list \<Rightarrow> bool option" where
  "isvalid_loop reserved flags start n [] = verify_component reserved start n flags"
| "isvalid_loop reserved flags start n (c # s) =
     (if c = 0 then verify_component reserved start n flags
      else if \<not> verify_char c flags then Some False
      else if c = 47 then
        (case verify_component reserved start n flags of
           None \<Rightarrow> None
         | Some False \<Rightarrow> Some False
         | Some True \<Rightarrow> isvalid_loop reserved flags s 0 s)
      else isvalid_loop reserved flags start (n + 1) s)"

definition git_path_isvalid :: "(bool \<times> bool) option \<Rightarrow> byte list list \<Rightarrow> byte list \<Rightarrow> u32 \<Rightarrow> bool option" where
  "git_path_isvalid repo reserved path flags =
     (let flags = (if flag flags GIT_PATH_REJECT_DOT_GIT then dotgit_flags repo flags else flags)
      in isvalid_loop reserved flags path 0 path)"

section \<open>The order of paths\<close>

text \<open>\<open>name1[len]\<close> is read at the end of the shorter name: names end with a NUL.\<close>

definition git_path_cmp ::
    "byte list \<Rightarrow> nat \<Rightarrow> bool \<Rightarrow> byte list \<Rightarrow> nat \<Rightarrow> bool \<Rightarrow> (byte list \<Rightarrow> byte list \<Rightarrow> nat \<Rightarrow> int) \<Rightarrow> int" where
  "git_path_cmp name1 len1 isdir1 name2 len2 isdir2 compare =
     (let len = (if len1 < len2 then len1 else len2);
          cmp = compare name1 name2 len
      in if cmp \<noteq> 0 then cmp
         else let c1 = peek (drop len name1); c2 = peek (drop len name2);
                  c1 = (if c1 = 0 \<and> isdir1 then 47 else c1);
                  c2 = (if c2 = 0 \<and> isdir2 then 47 else c2)
              in if c1 < c2 then -1 else if c1 > c2 then 1 else 0)"

section \<open>What the checks reject\<close>

lemma git__strncasecmp_Suc:
  "git__strncasecmp (a # as) (b # bs) (Suc n) =
     (if n \<noteq> 0 \<and> a \<noteq> 0 \<and> git_tolower a = git_tolower b then git__strncasecmp as bs n else uint (git_tolower a) - uint (git_tolower b))"
  if "Suc n < 2 ^ 64"
  using that by (simp add: git__strncasecmp_def Let_def SIZE_MAX_def)

lemma strncasecmp_prefix:
  "length r \<le> length s \<Longrightarrow> 0 \<notin> set r \<Longrightarrow> strncasecmp s r (length r) = 0 \<longleftrightarrow> map git_tolower (take (length r) s) = map git_tolower r"
proof (induction r arbitrary: s)
  case (Cons a r)
  then obtain c s' where "s = c # s'" by (cases s) auto
  with Cons show ?case by (auto simp: Let_def uint_diff)
qed simp

text \<open>The characters of a component as HFS sees them.\<close>

definition hfs_fold :: "int list \<Rightarrow> int list" where
  "hfs_fold cps = map tolower_int (filter (\<lambda>c. \<not> hfs_ignored c) cps)"

definition utf8_string :: "int list \<Rightarrow> byte list" where
  "utf8_string cps = concat (map utf8_encode cps)"

lemma length_utf8_encode_pos: "0 < length (utf8_encode u)"
  by (simp add: utf8_encode_def)

lemma next_hfs_char_encoded:
  assumes "\<forall>c\<in>set cps. utf8_ok c" "length (utf8_string cps) < 2 ^ 31"
  shows "next_hfs_char (utf8_string cps @ rest) (length (utf8_string cps)) =
    (case dropWhile hfs_ignored cps of
       [] \<Rightarrow> Some (0, rest, 0)
     | c # cs \<Rightarrow> Some (tolower_int c, utf8_string cs @ rest, length (utf8_string cs)))"
  using assms
proof (induction cps)
  case Nil
  then show ?case by (simp add: next_hfs_char.simps utf8_string_def)
next
  case (Cons c cs)
  define N where "N = length (utf8_string (c # cs))"
  have n: "N = length (utf8_encode c) + length (utf8_string cs)" "0 < N"
    using length_utf8_encode_pos [of c] by (simp_all add: utf8_string_def N_def)
  have "int32 (int N) = int N" using Cons.prems(2) by (simp add: int32_def N_def)
  then have it: "git__utf8_iterate (utf8_string (c # cs) @ rest) (int32 (int N)) = Some (int (length (utf8_encode c)), c)"
    using utf8_iterate_encode [of c "int N" "utf8_string cs @ rest"] Cons.prems(1) n by (simp add: utf8_string_def)
  have drop: "drop (length (utf8_encode c)) (utf8_string (c # cs) @ rest) = utf8_string cs @ rest" by (simp add: utf8_string_def)
  have "next_hfs_char (utf8_string (c # cs) @ rest) N =
      (if hfs_ignored c then next_hfs_char (utf8_string cs @ rest) (length (utf8_string cs))
       else Some (tolower_int c, utf8_string cs @ rest, length (utf8_string cs)))"
  proof -
    have N: "N - length (utf8_encode c) = length (utf8_string cs)" "\<not> N < length (utf8_encode c)" using n by simp_all
    have "N \<noteq> 0" using n(2) by simp
    then show ?thesis
      unfolding next_hfs_char.simps [of _ N] if_not_P [OF \<open>N \<noteq> 0\<close>] it
      using length_utf8_encode_pos [of c] N by (simp add: drop del: drop_append)
  qed
  then show ?case using Cons n by (simp flip: N_def)
qed

lemma length_suffix_utf8: "length (utf8_string (dropWhile P cps)) \<le> length (utf8_string cps)"
  by (induction cps) (auto simp: utf8_string_def)

lemma hfs_fold_drop: "hfs_fold cps = (case dropWhile hfs_ignored cps of [] \<Rightarrow> [] | c # cs \<Rightarrow> tolower_int c # hfs_fold cs)"
proof (induction cps)
  case (Cons c cs)
  then show ?case by (cases "hfs_ignored c") (auto simp: hfs_fold_def)
qed (simp add: hfs_fold_def)

lemma hfs_chars_match_encoded:
  assumes "\<forall>c\<in>set cps. utf8_ok c \<and> c \<noteq> 0" "length (utf8_string cps) < 2 ^ 31" "0 \<notin> set es"
  shows "hfs_chars_match (es @ [0]) (utf8_string cps @ rest) (length (utf8_string cps)) = Some (hfs_fold cps = es)"
  using assms
proof (induction es arbitrary: cps)
  case Nil
  have ne: "\<forall>c\<in>set (dropWhile hfs_ignored cps). tolower_int c \<noteq> 0"
    using Nil.prems(1) by (auto simp: tolower_int_def dest!: set_dropWhileD)
  have "\<forall>c\<in>set cps. utf8_ok c" using Nil.prems(1) by blast
  note nx = next_hfs_char_encoded [OF this Nil.prems(2), of rest]
  show ?case
  proof (cases "dropWhile hfs_ignored cps")
    case d: Nil
    show ?thesis using nx [unfolded d] hfs_fold_drop [of cps, unfolded d] by simp
  next
    case d: (Cons c cs)
    show ?thesis using nx [unfolded d] hfs_fold_drop [of cps, unfolded d] ne by (simp add: d)
  qed
next
  case (Cons e es)
  have "\<forall>c\<in>set cps. utf8_ok c" using Cons.prems(1) by blast
  note nx = next_hfs_char_encoded [OF this Cons.prems(2), of rest]
  show ?case
  proof (cases "dropWhile hfs_ignored cps")
    case Nil
    then show ?thesis using Cons.prems nx [unfolded Nil] hfs_fold_drop [of cps, unfolded Nil] by auto
  next
    case (Cons c cs)
    have "set cs \<subseteq> set cps" using Cons set_dropWhileD [of _ hfs_ignored cps] by (metis list.set_intros(2) subsetI)
    moreover have "length (utf8_string cs) \<le> length (utf8_string cps)"
      using Cons length_suffix_utf8 [of hfs_ignored cps] by (simp add: utf8_string_def)
    ultimately have "hfs_chars_match (es @ [0]) (utf8_string cs @ rest) (length (utf8_string cs)) = Some (hfs_fold cs = es)"
      using Cons.prems by (intro Cons.IH) auto
    then show ?thesis using nx [unfolded Cons] hfs_fold_drop [of cps, unfolded Cons] by simp
  qed
qed

section \<open>Valid paths have harmless components\<close>

lemma isvalid_loop_components:
  "isvalid_loop reserved flags (g0 @ s) (length g0) s = Some True \<Longrightarrow> 47 \<notin> set g0 \<Longrightarrow>
    (\<forall>c\<in>set (cstr s). verify_char c flags) \<and>
    (\<forall>g\<in>set (split_fields (\<lambda>c. c = 47) (g0 @ cstr s)). \<exists>t. verify_component reserved (g @ t) (length g) flags = Some True)"
proof (induction s arbitrary: g0)
  case Nil
  have "split_fields (\<lambda>c. c = 47) g0 = [g0]" using Nil.prems(2) by (intro split_fields_none) auto
  then show ?case using Nil by (auto intro: exI [of _ "[]"])
next
  case (Cons c s)
  consider "c = 0" | "c = 47" | "c \<noteq> 0" "c \<noteq> 47" by blast
  then show ?case
  proof cases
    case 1
    have "split_fields (\<lambda>c. c = 47) g0 = [g0]" using Cons.prems(2) by (intro split_fields_none) auto
    then show ?thesis using Cons.prems 1 by (auto intro: exI [of _ "0 # s"])
  next
    case 2
    then have v: "verify_component reserved (g0 @ 47 # s) (length g0) flags = Some True" "verify_char 47 flags"
      "isvalid_loop reserved flags ([] @ s) (length []) s = Some True"
      using Cons.prems(1) by (auto split: if_splits option.splits bool.splits)
    have "split_fields (\<lambda>c. c = 47) (g0 @ 47 # cstr s) = g0 # split_fields (\<lambda>c. c = 47) (cstr s)"
      using Cons.prems(2) by (intro split_fields_append) auto
    then show ?thesis using Cons.IH [OF v(3)] v(1,2) 2 by auto
  next
    case 3
    then have "isvalid_loop reserved flags ((g0 @ [c]) @ s) (length (g0 @ [c])) s = Some True" "verify_char c flags"
      using Cons.prems(1) by (auto split: if_splits)
    then show ?thesis using Cons.IH [of "g0 @ [c]"] Cons.prems(2) 3 by auto
  qed
qed

definition reserved_names_win32 :: "byte list list" where
  "reserved_names_win32 = [bytes_of ''.git'', bytes_of ''git~1'']"

definition lower :: "byte list \<Rightarrow> byte list" where
  "lower = map git_tolower"

lemma flag_or: "flag (a OR b) m \<longleftrightarrow> flag a m \<or> flag b m"
  by (simp add: flag_def bit.conj_disj_distrib2 or_eq_0_iff)

lemma dotgit_flags_flags:
  "flag (dotgit_flags repo flags) GIT_PATH_REJECT_TRAVERSAL = flag flags GIT_PATH_REJECT_TRAVERSAL"
  "flag (dotgit_flags repo flags) GIT_PATH_REJECT_DOT_GIT_LITERAL"
  "flag (dotgit_flags repo flags) GIT_PATH_REJECT_DOT_GIT_HFS \<longleftrightarrow> flag flags GIT_PATH_REJECT_DOT_GIT_HFS \<or> (\<exists>n. repo = Some (True, n))"
  "flag (dotgit_flags repo flags) GIT_PATH_REJECT_DOT_GIT_NTFS \<longleftrightarrow> flag flags GIT_PATH_REJECT_DOT_GIT_NTFS \<or> (\<exists>h. repo = Some (h, True))"
proof -
  have bits: "\<not> flag GIT_PATH_REJECT_DOT_GIT_LITERAL GIT_PATH_REJECT_TRAVERSAL" "\<not> flag GIT_PATH_REJECT_DOT_GIT_HFS GIT_PATH_REJECT_TRAVERSAL"
    "\<not> flag GIT_PATH_REJECT_DOT_GIT_NTFS GIT_PATH_REJECT_TRAVERSAL" "flag GIT_PATH_REJECT_DOT_GIT_LITERAL GIT_PATH_REJECT_DOT_GIT_LITERAL"
    "\<not> flag GIT_PATH_REJECT_DOT_GIT_LITERAL GIT_PATH_REJECT_DOT_GIT_HFS" "\<not> flag GIT_PATH_REJECT_DOT_GIT_LITERAL GIT_PATH_REJECT_DOT_GIT_NTFS"
    "\<not> flag GIT_PATH_REJECT_DOT_GIT_HFS GIT_PATH_REJECT_DOT_GIT_NTFS" "\<not> flag GIT_PATH_REJECT_DOT_GIT_NTFS GIT_PATH_REJECT_DOT_GIT_HFS"
    "flag GIT_PATH_REJECT_DOT_GIT_HFS GIT_PATH_REJECT_DOT_GIT_HFS" "flag GIT_PATH_REJECT_DOT_GIT_NTFS GIT_PATH_REJECT_DOT_GIT_NTFS"
    by (simp_all add: flag_def)
  show "flag (dotgit_flags repo flags) GIT_PATH_REJECT_TRAVERSAL = flag flags GIT_PATH_REJECT_TRAVERSAL"
    "flag (dotgit_flags repo flags) GIT_PATH_REJECT_DOT_GIT_LITERAL"
    "flag (dotgit_flags repo flags) GIT_PATH_REJECT_DOT_GIT_HFS \<longleftrightarrow> flag flags GIT_PATH_REJECT_DOT_GIT_HFS \<or> (\<exists>n. repo = Some (True, n))"
    "flag (dotgit_flags repo flags) GIT_PATH_REJECT_DOT_GIT_NTFS \<longleftrightarrow> flag flags GIT_PATH_REJECT_DOT_GIT_NTFS \<or> (\<exists>h. repo = Some (h, True))"
    by (cases repo; auto simp: dotgit_flags_def Let_def flag_or bits split: prod.splits)+
qed

lemma tolower_dotgit:
  "git_tolower a = 46 \<longleftrightarrow> a = 46" "git_tolower a = 103 \<longleftrightarrow> a = 103 \<or> a = 71"
  "git_tolower a = 105 \<longleftrightarrow> a = 105 \<or> a = 73" "git_tolower a = 116 \<longleftrightarrow> a = 116 \<or> a = 84"
  by (auto simp: git_tolower_def eq_diff_eq [symmetric])

text \<open>What the three tests for the repository's own directory say about a component.\<close>

lemma verify_component_cases:
  assumes "verify_component reserved (g @ t) (length g) flags = Some True"
  shows "g \<noteq> []" and "flag flags GIT_PATH_REJECT_TRAVERSAL \<Longrightarrow> g \<noteq> [46] \<and> g \<noteq> [46, 46]"
    and "flag flags GIT_PATH_REJECT_DOT_GIT_HFS \<Longrightarrow> verify_dotgit_hfs (g @ t) (length g) = Some True"
    and "flag flags GIT_PATH_REJECT_DOT_GIT_NTFS \<Longrightarrow> verify_dotgit_ntfs reserved (g @ t) (length g)"
    and "\<not> flag flags GIT_PATH_REJECT_DOT_GIT_HFS \<Longrightarrow> \<not> flag flags GIT_PATH_REJECT_DOT_GIT_NTFS \<Longrightarrow>
      flag flags GIT_PATH_REJECT_DOT_GIT_LITERAL \<Longrightarrow> lower g \<noteq> bytes_of ''.git''"
proof -
  define c where "c = g @ t"
  have v: "verify_component reserved c (length g) flags = Some True" using assms by (simp add: c_def)
  show "g \<noteq> []" using v by (auto simp: verify_component_def)
  show "g \<noteq> [46] \<and> g \<noteq> [46, 46]" if "flag flags GIT_PATH_REJECT_TRAVERSAL"
  proof (intro conjI notI)
    assume "g = [46]"
    then show False using assms that by (simp add: verify_component_def)
  next
    assume "g = [46, 46]"
    then show False using assms that by (simp add: verify_component_def)
  qed
  have tests: "(do {
        hfs \<leftarrow> (if flag flags GIT_PATH_REJECT_DOT_GIT_HFS then verify_dotgit_hfs c (length g) else Some True);
        if \<not> hfs then Some False
        else if flag flags GIT_PATH_REJECT_DOT_GIT_NTFS \<and> \<not> verify_dotgit_ntfs reserved c (length g) then Some False
        else if \<not> flag flags GIT_PATH_REJECT_DOT_GIT_HFS \<and> \<not> flag flags GIT_PATH_REJECT_DOT_GIT_NTFS \<and>
          flag flags GIT_PATH_REJECT_DOT_GIT_LITERAL \<and> length g = 4 \<and> c ! 0 = 46 \<and>
          (c ! 1 = 103 \<or> c ! 1 = 71) \<and> (c ! 2 = 105 \<or> c ! 2 = 73) \<and> (c ! 3 = 116 \<or> c ! 3 = 84) then Some False
        else Some True }) = Some True"
    using v unfolding verify_component_def by (simp only: split: if_split_asm) simp_all
  then show "verify_dotgit_hfs (g @ t) (length g) = Some True" if "flag flags GIT_PATH_REJECT_DOT_GIT_HFS"
    unfolding c_def [symmetric] using that by (cases "verify_dotgit_hfs c (length g)") (auto split: if_split_asm)
  have hfs: "(if flag flags GIT_PATH_REJECT_DOT_GIT_HFS then verify_dotgit_hfs c (length g) else Some True) = Some True"
    using tests by (cases "if flag flags GIT_PATH_REJECT_DOT_GIT_HFS then verify_dotgit_hfs c (length g) else Some True") (auto split: if_split_asm)
  show "verify_dotgit_ntfs reserved (g @ t) (length g)" if "flag flags GIT_PATH_REJECT_DOT_GIT_NTFS"
    unfolding c_def [symmetric] using tests that unfolding hfs by (simp split: if_split_asm)
  assume f: "\<not> flag flags GIT_PATH_REJECT_DOT_GIT_HFS" "\<not> flag flags GIT_PATH_REJECT_DOT_GIT_NTFS" "flag flags GIT_PATH_REJECT_DOT_GIT_LITERAL"
  show "lower g \<noteq> bytes_of ''.git''"
  proof
    assume "lower g = bytes_of ''.git''"
    then obtain a b d e where g: "g = [a, b, d, e]" "git_tolower a = 46" "git_tolower b = 103" "git_tolower d = 105" "git_tolower e = 116"
      by (auto simp: lower_def bytes_of_def map_eq_Cons_conv)
    have "a = 46" "b = 103 \<or> b = 71" "d = 105 \<or> d = 73" "e = 116 \<or> e = 84"
      using g(2-5) by (simp_all add: tolower_dotgit)
    then show False using tests f by (simp add: c_def g(1))
  qed
qed

lemma ntfs_prefix:
  assumes v: "verify_dotgit_ntfs reserved_names_win32 (g @ t) (length g)" and g: "g = p @ s"
    and p: "lower p = bytes_of ''.git'' \<or> lower p = bytes_of ''git~1''"
  shows "\<exists>c\<in>set s. c \<noteq> 32 \<and> c \<noteq> 46"
proof -
  have l: "length p = length (lower p)" by (simp add: lower_def)
  have b: "length (bytes_of ''.git'') = 4" "length (bytes_of ''git~1'') = 5" by (simp_all add: bytes_of_def)
  have nz: "0 \<notin> set (bytes_of ''.git'')" "0 \<notin> set (bytes_of ''git~1'')" by (simp_all add: bytes_of_def)
  have cmp: "strncasecmp (g @ t) r (length r) = 0 \<longleftrightarrow> lower (take (length r) (g @ t)) = lower r"
    if "length r \<le> length g" "0 \<notin> set r" for r
    using strncasecmp_prefix [of r "g @ t"] that by (simp add: lower_def)
  have self: "lower (bytes_of ''.git'') = bytes_of ''.git''" "lower (bytes_of ''git~1'') = bytes_of ''git~1''"
    by (simp_all add: lower_def bytes_of_def git_tolower_def)
  define r where "r = (if lower p = bytes_of ''.git'' then bytes_of ''.git'' else bytes_of ''git~1'')"
  have r: "lower p = r" "length r = length p" "0 \<notin> set r" "lower r = r" "length r \<noteq> 0"
    using p l b nz self by (auto simp: r_def)
  have hit: "length r \<le> length g \<and> strncasecmp (g @ t) r (length r) = 0"
    using cmp [of r] r g by simp
  have first: "\<not> (length (bytes_of ''.git'') \<le> length g \<and> strncasecmp (g @ t) (bytes_of ''.git'') (length (bytes_of ''.git'')) = 0)"
    if "r \<noteq> bytes_of ''.git''"
  proof
    assume h: "length (bytes_of ''.git'') \<le> length g \<and> strncasecmp (g @ t) (bytes_of ''.git'') (length (bytes_of ''.git'')) = 0"
    have r': "r = bytes_of ''git~1''" using that by (simp add: r_def split: if_splits)
    have "lower (take 4 (g @ t)) = bytes_of ''.git''" using h cmp [of "bytes_of ''.git''"] nz self b by simp
    moreover have "take 4 (g @ t) = take 4 p" using g r(2) r' b by simp
    ultimately have "lower (take 4 p) = bytes_of ''.git''" by (simp only:)
    then have "take 4 (lower p) = bytes_of ''.git''" by (simp add: lower_def take_map)
    then show False using r(1) r' by (simp add: bytes_of_def)
  qed
  have found: "find (\<lambda>r. length g \<ge> length r \<and> strncasecmp (g @ t) r (length r) = 0) reserved_names_win32 = Some r"
  proof (cases "r = bytes_of ''.git''")
    case True
    then show ?thesis using hit by (simp add: reserved_names_win32_def)
  next
    case False
    then have "r = bytes_of ''git~1''" by (simp add: r_def split: if_splits)
    then show ?thesis unfolding reserved_names_win32_def find.simps if_not_P [OF first [OF False]] using hit by simp
  qed
  have "drop (length r) (take (length g) (g @ t)) = s" using g r(2) by simp
  then show ?thesis using v r(5) unfolding verify_dotgit_ntfs_def found by (auto simp: Let_def split: if_splits)
qed

lemma ascii_utf8: "\<forall>c\<in>set g. c < 128 \<Longrightarrow> utf8_string (map uint g) = g"
  by (induction g) (auto simp: utf8_string_def utf8_encode_def byte_of_def word_less_def)

lemma hfs_fold_ascii:
  assumes "\<forall>c\<in>set g. c < 128" shows "hfs_fold (map uint g) = map uint (lower g)"
proof -
  have "filter (\<lambda>c. \<not> hfs_ignored c) (map uint g) = map uint g"
    using assms by (intro filter_True) (auto simp: hfs_ignored_def word_less_def)
  moreover have "tolower_int (uint c) = uint (git_tolower c)" if "c < 128" for c :: byte
  proof (cases "65 \<le> c \<and> c \<le> 90")
    case True
    then have "uint (c + 32) = uint c + 32" by (simp add: uint_word_ariths word_le_def)
    then show ?thesis using True by (simp add: tolower_int_def git_tolower_def word_le_def)
  next
    case False
    then show ?thesis by (auto simp: tolower_int_def git_tolower_def word_le_def)
  qed
  ultimately show ?thesis using assms by (simp add: hfs_fold_def lower_def)
qed

section \<open>Properties\<close>



end
