(* ===== verification/GitArray.thy ===== *)
theory GitArray
  imports Sort
begin

text \<open>
  The growing arrays of array.h: how their capacity grows, and the binary search in them. An array is the list of its
  items and the number \<open>asize\<close> of items there is room for; \<open>grow_ok\<close> says which capacities there is memory for.
\<close>

definition git_array_grow_size :: "nat \<Rightarrow> nat option" where
  "git_array_grow_size n = (if n < 8 then Some 8 else map_option (\<lambda>m. m div 2) (mul_sizet n 3))"

text \<open>The capacity after room for one more item was made.\<close>

definition git_array_alloc :: "(nat \<Rightarrow> bool) \<Rightarrow> nat \<Rightarrow> nat \<Rightarrow> nat \<Rightarrow> nat option" where
  "git_array_alloc grow_ok item_size n asize =
     (if n \<ge> asize then
        (case git_array_grow_size n of
           None \<Rightarrow> None
         | Some new_size \<Rightarrow>
             (case mul_sizet new_size item_size of None \<Rightarrow> None | Some _ \<Rightarrow> if grow_ok new_size then Some new_size else None))
      else Some asize)"

lemma git_array_alloc_total:
  assumes "\<And>n. grow_ok n" "n < 2 ^ 58" "item_size \<le> 32"
  shows "\<exists>a. git_array_alloc grow_ok item_size n asize = Some a"
proof -
  have "(n * 3 div 2) * item_size < 2 ^ 64"
  proof -
    have "(n * 3 div 2) * item_size \<le> (n * 3 div 2) * 32" using assms(3) by simp
    also have "\<dots> < 2 ^ 64" using assms(2) by simp
    finally show ?thesis .
  qed
  moreover have "8 * item_size < 2 ^ 64" using assms(3) by simp
  ultimately show ?thesis using assms(1,2) by (auto simp: git_array_alloc_def git_array_grow_size_def)
qed

lemma git_array_alloc_room:
  assumes "git_array_alloc grow_ok item_size n asize = Some a"
  shows "n < a"
proof (cases "n \<ge> asize")
  case True
  show ?thesis
  proof (cases "n < 8")
    case True
    then show ?thesis using assms \<open>n \<ge> asize\<close> by (auto simp: git_array_alloc_def git_array_grow_size_def split: option.splits if_splits)
  next
    case False
    then obtain m where "mul_sizet n 3 = Some m" "a = m div 2"
      using assms True by (auto simp: git_array_alloc_def git_array_grow_size_def split: option.splits if_splits)
    moreover from this have "m = n * 3" by (auto simp: mul_sizet_def split: if_splits)
    ultimately show ?thesis using False by simp
  qed
qed (use assms in \<open>simp add: git_array_alloc_def\<close>)

text \<open>The loop of \<open>git_array__search\<close> (array.h) is that of \<open>git__bsearch\<close>.\<close>

definition git_array__search :: "'a list \<Rightarrow> ('k \<Rightarrow> 'a \<Rightarrow> int) \<Rightarrow> 'k \<Rightarrow> (int \<times> nat) option" where
  "git_array__search arr compare key =
     (case bsearch_loop compare key arr 0 (length arr) (-1) of
        None \<Rightarrow> None
      | Some (cmp, base) \<Rightarrow> Some (if cmp = 0 then 0 else GIT_ENOTFOUND, base))"

end
