(* ===== verification/Tree.thy ===== *)
theory Tree
  imports Path Oid Vector GitArray BufText "HOL-Library.AList"
begin

text \<open>
  Tree objects (tree.c): their entries and modes, the search for a name, parsing, and the tree builder that writes them.
\<close>

section \<open>Modes\<close>

abbreviation GIT_FILEMODE_TREE :: u32 where "GIT_FILEMODE_TREE \<equiv> 0x4000"
abbreviation GIT_FILEMODE_BLOB :: u32 where "GIT_FILEMODE_BLOB \<equiv> 0x81A4"
abbreviation GIT_FILEMODE_BLOB_EXECUTABLE :: u32 where "GIT_FILEMODE_BLOB_EXECUTABLE \<equiv> 0x81ED"
abbreviation GIT_FILEMODE_LINK :: u32 where "GIT_FILEMODE_LINK \<equiv> 0xA000"
abbreviation GIT_FILEMODE_COMMIT :: u32 where "GIT_FILEMODE_COMMIT \<equiv> 0xE000"

definition GIT_MODE_TYPE :: "u32 \<Rightarrow> u32" where
  "GIT_MODE_TYPE mode = mode AND 0xF000"

definition GIT_PERMS_IS_EXEC :: "u32 \<Rightarrow> bool" where
  "GIT_PERMS_IS_EXEC mode \<longleftrightarrow> (mode AND 0x49) \<noteq> 0"

definition valid_filemode :: "u32 \<Rightarrow> bool" where
  "valid_filemode filemode \<longleftrightarrow>
     filemode = GIT_FILEMODE_TREE \<or> filemode = GIT_FILEMODE_BLOB \<or> filemode = GIT_FILEMODE_BLOB_EXECUTABLE \<or>
     filemode = GIT_FILEMODE_LINK \<or> filemode = GIT_FILEMODE_COMMIT"

definition normalize_filemode :: "u32 \<Rightarrow> u32" where
  "normalize_filemode filemode =
     (if GIT_MODE_TYPE filemode = GIT_FILEMODE_TREE then GIT_FILEMODE_TREE
      else if GIT_PERMS_IS_EXEC filemode then GIT_FILEMODE_BLOB_EXECUTABLE
      else if GIT_MODE_TYPE filemode = GIT_FILEMODE_COMMIT then GIT_FILEMODE_COMMIT
      else if GIT_MODE_TYPE filemode = GIT_FILEMODE_LINK then GIT_FILEMODE_LINK
      else GIT_FILEMODE_BLOB)"

section \<open>Entries\<close>

text \<open>
  \<open>te_filename\<close> and \<open>te_oid\<close> are the memory that the two pointers of an entry point to, as far as its object reaches.
\<close>

record git_tree_entry =
  te_attr :: "16 word"
  te_filename_len :: "16 word"
  te_oid :: "byte list"
  te_filename :: "byte list"

definition name_len :: "git_tree_entry \<Rightarrow> nat" where
  "name_len e = unat (te_filename_len e)"

definition entry_mode :: "git_tree_entry \<Rightarrow> u32" where
  "entry_mode e = ucast (te_attr e)"

definition git_tree_entry__is_tree :: "git_tree_entry \<Rightarrow> bool" where
  "git_tree_entry__is_tree e \<longleftrightarrow> GIT_MODE_TYPE (entry_mode e) = 0x4000 \<and> GIT_MODE_TYPE (entry_mode e) \<noteq> GIT_FILEMODE_COMMIT"

definition git_tree_entry_filemode :: "git_tree_entry \<Rightarrow> u32" where
  "git_tree_entry_filemode e = normalize_filemode (entry_mode e)"

text \<open>Reading an id of which the object does not hold 20 bytes is undefined.\<close>

definition git_tree_entry_id :: "git_tree_entry \<Rightarrow> git_oid option" where
  "git_tree_entry_id e = (if length (te_oid e) < GIT_OID_RAWSZ then None else Some (oid_of (take GIT_OID_RAWSZ (te_oid e))))"

datatype git_otype = GIT_OBJ_COMMIT | GIT_OBJ_TREE | GIT_OBJ_BLOB

definition git_tree_entry_type :: "git_tree_entry \<Rightarrow> git_otype" where
  "git_tree_entry_type e =
     (if GIT_MODE_TYPE (entry_mode e) = GIT_FILEMODE_COMMIT then GIT_OBJ_COMMIT
      else if GIT_MODE_TYPE (entry_mode e) = 0x4000 then GIT_OBJ_TREE else GIT_OBJ_BLOB)"

definition entry_sort_cmp :: "git_tree_entry \<Rightarrow> git_tree_entry \<Rightarrow> int" where
  "entry_sort_cmp e1 e2 =
     git_path_cmp (te_filename e1) (name_len e1) (git_tree_entry__is_tree e1)
       (te_filename e2) (name_len e2) (git_tree_entry__is_tree e2) git__strncmp"

definition git_tree_entry_icmp :: "git_tree_entry \<Rightarrow> git_tree_entry \<Rightarrow> int" where
  "git_tree_entry_icmp e1 e2 =
     git_path_cmp (te_filename e1) (name_len e1) (git_tree_entry__is_tree e1)
       (te_filename e2) (name_len e2) (git_tree_entry__is_tree e2) git__strncasecmp"

text \<open>
  A new entry, if there is memory for it (\<open>ok\<close>): the name, a NUL from \<open>git__calloc\<close> and the id lie one behind the
  other. The length is cut to 16 bits; \<open>TREE_ENTRY_CHECK_NAMELEN\<close> only reports that a name is too long.
\<close>

definition alloc_entry :: "bool \<Rightarrow> byte list \<Rightarrow> git_oid \<Rightarrow> git_tree_entry option" where
  "alloc_entry ok filename oid =
     (if \<not> ok then None
      else Some \<lparr>te_attr = 0, te_filename_len = of_nat (length filename), te_oid = oid_id oid,
                 te_filename = filename @ [0] @ oid_id oid\<rparr>)"

section \<open>Searching\<close>

definition homing_search_cmp :: "byte list \<times> 16 word \<Rightarrow> git_tree_entry \<Rightarrow> int" where
  "homing_search_cmp ksearch entry =
     (let len1 = unat (snd ksearch); len2 = name_len entry; n = (if len1 < len2 then len1 else len2)
      in memcmp (take n (fst ksearch)) (take n (te_filename entry)))"

definition name_matches :: "byte list \<Rightarrow> nat \<Rightarrow> git_tree_entry \<Rightarrow> bool" where
  "name_matches filename filename_len entry \<longleftrightarrow>
     name_len entry = filename_len \<and> memcmp (take filename_len filename) (take filename_len (te_filename entry)) = 0"

fun search_forward :: "byte list \<times> 16 word \<Rightarrow> byte list \<Rightarrow> nat \<Rightarrow> git_tree_entry list \<Rightarrow> nat \<Rightarrow> nat option" where
  "search_forward k filename filename_len [] i = None"
| "search_forward k filename filename_len (entry # es) i =
     (if homing_search_cmp k entry < 0 then None
      else if name_matches filename filename_len entry then Some i
      else search_forward k filename filename_len es (i + 1))"

text \<open>\<open>n\<close> entries are left in front, the next one is at \<open>n - 1\<close>.\<close>

fun search_backward :: "byte list \<times> 16 word \<Rightarrow> byte list \<Rightarrow> nat \<Rightarrow> git_tree_entry list \<Rightarrow> nat \<Rightarrow> nat option" where
  "search_backward k filename filename_len es 0 = None"
| "search_backward k filename filename_len es (Suc n) =
     (if homing_search_cmp k (es ! n) > 0 then None
      else if name_matches filename filename_len (es ! n) then Some n
      else search_backward k filename filename_len es n)"

definition tree_key_search :: "git_tree_entry list \<Rightarrow> byte list \<Rightarrow> nat \<Rightarrow> (int \<times> nat option) option" where
  "tree_key_search entries filename filename_len = do {
     let ksearch = (filename, of_nat filename_len);
     (r, homing) \<leftarrow> git_array__search entries homing_search_cmp ksearch;
     if r < 0 then Some (GIT_ENOTFOUND, None)
     else
       case search_forward ksearch filename filename_len (drop homing entries) homing of
         Some i \<Rightarrow> Some (0, Some i)
       | None \<Rightarrow>
           (case search_backward ksearch filename filename_len entries homing of
              Some i \<Rightarrow> Some (0, Some i)
            | None \<Rightarrow> Some (GIT_ENOTFOUND, None)) }"

definition entry_fromname :: "git_tree_entry list \<Rightarrow> byte list \<Rightarrow> nat \<Rightarrow> git_tree_entry option option" where
  "entry_fromname entries name n = do {
     (r, at_pos) \<leftarrow> tree_key_search entries name n;
     if r < 0 then Some None
     else (case at_pos of None \<Rightarrow> None | Some idx \<Rightarrow> Some (if idx < length entries then Some (entries ! idx) else None)) }"

definition git_tree_entry_byname :: "git_tree_entry list \<Rightarrow> byte list \<Rightarrow> git_tree_entry option option" where
  "git_tree_entry_byname entries filename = entry_fromname entries filename (cstrlen filename)"

definition git_tree_entry_byindex :: "git_tree_entry list \<Rightarrow> nat \<Rightarrow> git_tree_entry option" where
  "git_tree_entry_byindex entries idx = (if idx < length entries then Some (entries ! idx) else None)"

definition git_tree_entry_byid :: "git_tree_entry list \<Rightarrow> git_oid \<Rightarrow> git_tree_entry option" where
  "git_tree_entry_byid entries oid = find (\<lambda>e. take GIT_OID_RAWSZ (te_oid e) = oid_id oid) entries"

fun prefix_forward :: "byte list \<times> 16 word \<Rightarrow> git_tree_entry list \<Rightarrow> nat \<Rightarrow> nat" where
  "prefix_forward k [] at_pos = at_pos"
| "prefix_forward k (entry # es) at_pos = (if homing_search_cmp k entry < 0 then at_pos else prefix_forward k es (at_pos + 1))"

fun prefix_backward :: "byte list \<times> 16 word \<Rightarrow> git_tree_entry list \<Rightarrow> nat \<Rightarrow> nat" where
  "prefix_backward k es 0 = 0"
| "prefix_backward k es (Suc n) = (if homing_search_cmp k (es ! n) > 0 then Suc n else prefix_backward k es n)"

definition git_tree__prefix_position :: "git_tree_entry list \<Rightarrow> byte list option \<Rightarrow> int option" where
  "git_tree__prefix_position entries path =
     (case path of
        None \<Rightarrow> Some 0
      | Some p \<Rightarrow> do {
          let ksearch = (p, of_nat (cstrlen p));
          (_, at_pos) \<leftarrow> git_array__search entries homing_search_cmp ksearch;
          Some (int32 (int (prefix_backward ksearch entries (prefix_forward ksearch (drop at_pos entries) at_pos)))) })"

section \<open>Parsing\<close>

text \<open>The mode in octal digits up to a space; the object's data end with a NUL that \<open>peek\<close> reads.\<close>

fun parse_mode_loop :: "u32 \<Rightarrow> byte list \<Rightarrow> (u32 \<times> byte list) option" where
  "parse_mode_loop mode [] = None"
| "parse_mode_loop mode (c # buffer) =
     (if c = 32 then Some (mode, buffer)
      else if c < 48 \<or> c > 55 then None
      else parse_mode_loop (push_bit 3 mode + (ucast c - 48)) buffer)"

definition parse_mode :: "byte list \<Rightarrow> (u32 \<times> byte list) option" where
  "parse_mode buffer = (if peek buffer = 32 then None else parse_mode_loop 0 buffer)"

lemma parse_mode_loop_shorter: "parse_mode_loop m b = Some (a, b') \<Longrightarrow> length b' < length b"
  by (induction m b rule: parse_mode_loop.induct) (auto split: if_splits)

text \<open>\<open>asize\<close> is the capacity of the array of entries. The rest of the object behind a truncated id is empty.\<close>

definition DEFAULT_TREE_SIZE :: nat where "DEFAULT_TREE_SIZE = 16"

function tree_parse_loop :: "(nat \<Rightarrow> bool) \<Rightarrow> nat \<Rightarrow> git_tree_entry list \<Rightarrow> byte list \<Rightarrow> int \<times> git_tree_entry list" where
  "tree_parse_loop grow_ok asize entries buffer =
     (if buffer = [] then (0, entries)
      else
        case parse_mode buffer of
          None \<Rightarrow> (-1, entries)
        | Some (attr, buffer) \<Rightarrow>
            (case memchr 0 buffer of
               None \<Rightarrow> (-1, entries)
             | Some filename_len \<Rightarrow>
                 (case git_array_alloc grow_ok 24 (length entries) asize of
                    None \<Rightarrow> (-1, [])
                  | Some asize' \<Rightarrow>
                      let entry = \<lparr>te_attr = ucast attr, te_filename_len = of_nat filename_len,
                                   te_oid = drop (filename_len + 1) buffer, te_filename = buffer\<rparr>
                      in tree_parse_loop grow_ok asize' (entries @ [entry]) (drop (filename_len + 1 + GIT_OID_RAWSZ) buffer))))"
  by pat_completeness auto

termination
  by (relation "measure (\<lambda>(_, _, _, buffer). length buffer)")
    (auto simp: parse_mode_def dest!: parse_mode_loop_shorter split: if_splits)

declare tree_parse_loop.simps [simp del]

definition git_tree__parse :: "(nat \<Rightarrow> bool) \<Rightarrow> byte list \<Rightarrow> int \<times> git_tree_entry list" where
  "git_tree__parse grow_ok data =
     (if \<not> grow_ok DEFAULT_TREE_SIZE then (-1, []) else tree_parse_loop grow_ok DEFAULT_TREE_SIZE [] data)"

section \<open>The tree builder\<close>

text \<open>
  \<open>bld_repo\<close> holds the settings of the repository that \<open>git_path_isvalid\<close> asks for. The map is a hash table of strings; the list
  holds its entries in the order in which they are visited. \<open>ok\<close> says whether there is memory.
\<close>

record git_treebuilder =
  bld_repo :: "(bool \<times> bool) \<times> byte list list"
  bld_map :: "(byte list \<times> git_tree_entry) list"

definition valid_entry_name :: "(bool \<times> bool) \<times> byte list list \<Rightarrow> byte list \<Rightarrow> bool option" where
  "valid_entry_name repo filename =
     (if peek filename = 0 then Some False
      else git_path_isvalid (Some (fst repo)) (snd repo) (cstr filename)
        (GIT_PATH_REJECT_TRAVERSAL OR GIT_PATH_REJECT_DOT_GIT OR GIT_PATH_REJECT_SLASH))"

definition strmap_insert :: "byte list \<Rightarrow> git_tree_entry \<Rightarrow> git_treebuilder \<Rightarrow> git_treebuilder" where
  "strmap_insert key e bld = bld\<lparr>bld_map := AList.update key e (bld_map bld)\<rparr>"

definition append_entry :: "bool \<times> bool \<Rightarrow> git_treebuilder \<Rightarrow> byte list \<Rightarrow> git_oid \<Rightarrow> u32 \<Rightarrow> (int \<times> git_treebuilder) option" where
  "append_entry ok bld filename oid filemode = do {
     v \<leftarrow> valid_entry_name (bld_repo bld) filename;
     if \<not> v then Some (-1, bld)
     else
       case alloc_entry (fst ok) (cstr filename) oid of
         None \<Rightarrow> Some (-1, bld)
       | Some entry \<Rightarrow>
           if \<not> snd ok then Some (-1, bld)
           else Some (0, strmap_insert (cstr filename) (entry\<lparr>te_attr := ucast filemode\<rparr>) bld) }"

fun append_entries :: "bool \<times> bool \<Rightarrow> git_treebuilder \<Rightarrow> git_tree_entry list \<Rightarrow> (int \<times> git_treebuilder) option" where
  "append_entries ok bld [] = Some (0, bld)"
| "append_entries ok bld (e # es) = do {
     oid \<leftarrow> git_tree_entry_id e;
     (r, bld) \<leftarrow> append_entry ok bld (te_filename e) oid (entry_mode e);
     if r < 0 then Some (-1, bld) else append_entries ok bld es }"

definition git_treebuilder_new ::
    "bool \<times> bool \<Rightarrow> (bool \<times> bool) \<times> byte list list \<Rightarrow> git_tree_entry list option \<Rightarrow> (int \<times> git_treebuilder option) option" where
  "git_treebuilder_new ok repo source =
     (if \<not> fst ok \<or> \<not> snd ok then Some (-1, None)
      else do {
        (r, bld) \<leftarrow> append_entries ok \<lparr>bld_repo = repo, bld_map = []\<rparr> (case source of None \<Rightarrow> [] | Some es \<Rightarrow> es);
        if r < 0 then Some (-1, None) else Some (0, Some bld) })"

definition git_treebuilder_entrycount :: "git_treebuilder \<Rightarrow> nat" where
  "git_treebuilder_entrycount bld = length (bld_map bld)"

definition otype_from_mode :: "u32 \<Rightarrow> git_otype" where
  "otype_from_mode filemode =
     (if filemode = GIT_FILEMODE_TREE then GIT_OBJ_TREE
      else if filemode = GIT_FILEMODE_COMMIT then GIT_OBJ_COMMIT else GIT_OBJ_BLOB)"

text \<open>\<open>is_valid\<close> stands for \<open>git_object__is_valid\<close>, which asks the object database.\<close>

definition git_treebuilder_insert ::
    "bool \<times> bool \<Rightarrow> (git_oid \<Rightarrow> git_otype \<Rightarrow> bool) \<Rightarrow> git_treebuilder \<Rightarrow> byte list \<Rightarrow> git_oid \<Rightarrow> u32 \<Rightarrow>
      (int \<times> git_tree_entry option \<times> git_treebuilder) option" where
  "git_treebuilder_insert ok is_valid bld filename oid filemode =
     (if \<not> valid_filemode filemode then Some (-1, None, bld)
      else do {
        v \<leftarrow> valid_entry_name (bld_repo bld) filename;
        if \<not> v then Some (-1, None, bld)
        else if filemode \<noteq> GIT_FILEMODE_COMMIT \<and> \<not> is_valid oid (otype_from_mode filemode) then Some (-1, None, bld)
        else
          case map_of (bld_map bld) (cstr filename) of
            Some entry \<Rightarrow>
              let entry' = entry\<lparr>te_oid := oid_id oid, te_filename := take (name_len entry + 1) (te_filename entry) @ oid_id oid,
                                te_attr := ucast filemode\<rparr>
              in Some (0, Some entry', strmap_insert (cstr filename) entry' bld)
          | None \<Rightarrow>
              (case alloc_entry (fst ok) (cstr filename) oid of
                 None \<Rightarrow> Some (-1, None, bld)
               | Some entry \<Rightarrow>
                   if \<not> snd ok then Some (-1, None, bld)
                   else let entry' = entry\<lparr>te_attr := ucast filemode\<rparr>
                        in Some (0, Some entry', strmap_insert (cstr filename) entry' bld)) })"

definition git_treebuilder_get :: "git_treebuilder \<Rightarrow> byte list \<Rightarrow> git_tree_entry option" where
  "git_treebuilder_get bld filename = map_of (bld_map bld) (cstr filename)"

definition git_treebuilder_remove :: "git_treebuilder \<Rightarrow> byte list \<Rightarrow> int \<times> git_treebuilder" where
  "git_treebuilder_remove bld filename =
     (if git_treebuilder_get bld filename = None then (-1, bld)
      else (0, bld\<lparr>bld_map := AList.delete (cstr filename) (bld_map bld)\<rparr>))"

definition git_treebuilder_filter :: "(git_tree_entry \<Rightarrow> bool) \<Rightarrow> git_treebuilder \<Rightarrow> git_treebuilder" where
  "git_treebuilder_filter f bld = bld\<lparr>bld_map := filter (\<lambda>(filename, e). \<not> f e) (bld_map bld)\<rparr>"

definition git_treebuilder_clear :: "git_treebuilder \<Rightarrow> git_treebuilder" where
  "git_treebuilder_clear bld = bld\<lparr>bld_map := []\<rparr>"

section \<open>Writing a tree\<close>

text \<open>A mode as \<open>%o\<close> prints it.\<close>

fun octal :: "nat \<Rightarrow> byte list" where
  "octal n = (if n < 8 then [48 + of_nat n] else octal (n div 8) @ [48 + of_nat (n mod 8)])"

declare octal.simps [simp del]

definition write_entry :: "byte allocator \<Rightarrow> git_buf \<Rightarrow> git_tree_entry \<Rightarrow> (int \<times> git_buf) option" where
  "write_entry al tree entry =
     (if length (te_filename entry) < name_len entry + 1 \<or> length (te_oid entry) < GIT_OID_RAWSZ then None
      else do {
        (_, tree) \<leftarrow> git_buf_vprintf al tree (bytes_of ''%o '') (Some (octal (unat (te_attr entry)) @ [32]));
        (_, tree) \<leftarrow> git_buf_put al tree (take (name_len entry + 1) (te_filename entry));
        (_, tree) \<leftarrow> git_buf_put al tree (take GIT_OID_RAWSZ (te_oid entry));
        Some (if git_buf_oom tree then -1 else 0, tree) })"

fun write_entries :: "byte allocator \<Rightarrow> git_tree_entry list \<Rightarrow> int \<Rightarrow> git_buf \<Rightarrow> (int \<times> git_buf) option" where
  "write_entries al [] err tree = Some (err, tree)"
| "write_entries al (e # es) err tree =
     (if err \<noteq> 0 then Some (err, tree)
      else do {
        (err, tree) \<leftarrow> write_entry al tree e;
        write_entries al es err tree })"

text \<open>
  The vector holds pointers to the entries: their indices in the list of the map's entries. Only pointers in the vector are
  followed; the comparison of others is given some value.
\<close>

definition tree_deref :: "git_tree_entry list \<Rightarrow> nat option \<Rightarrow> git_tree_entry" where
  "tree_deref es p =
     (case p of
        Some i \<Rightarrow> if i < length es then es ! i else \<lparr>te_attr = 0, te_filename_len = 0, te_oid = [], te_filename = [0]\<rparr>
      | None \<Rightarrow> \<lparr>te_attr = 0, te_filename_len = 0, te_oid = [], te_filename = [0]\<rparr>)"

definition tree_ptr_cmp :: "git_tree_entry list \<Rightarrow> nat ptr_cmp" where
  "tree_ptr_cmp es p q = entry_sort_cmp (tree_deref es p) (tree_deref es q)"

fun insert_pointers :: "nat cells \<Rightarrow> nat list \<Rightarrow> nat git_vector \<Rightarrow> (int \<times> nat git_vector) option" where
  "insert_pointers cells [] v = Some (0, v)"
| "insert_pointers cells (p # ps) v = do {
     (r, v) \<leftarrow> git_vector_insert cells v (Some p);
     if r < 0 then Some (-1, v) else insert_pointers cells ps v }"

text \<open>\<open>odb\<close> is the result of \<open>git_repository_odb__weakptr\<close> and what \<open>git_odb_write\<close> does with the tree.\<close>

definition git_treebuilder_write ::
    "byte allocator \<Rightarrow> nat cells \<Rightarrow> int \<times> (byte list \<Rightarrow> int \<times> git_oid) \<Rightarrow> git_treebuilder \<Rightarrow> (int \<times> git_oid option) option" where
  "git_treebuilder_write al cells odb bld = do {
     let es = map snd (bld_map bld);
     let entrycount = length es;
     (r, entries) \<leftarrow> git_vector_init cells entrycount (Some (tree_ptr_cmp es));
     if r < 0 then Some (-1, None)
     else do {
       (r, entries) \<leftarrow> insert_pointers cells [0..<entrycount] entries;
       if r < 0 then Some (-1, None)
       else do {
         entries \<leftarrow> git_vector_sort cells entries;
         (err, tree) \<leftarrow> git_buf_grow al GIT_BUF_INIT (entrycount * 72 mod 2 ^ 64);
         (err, tree) \<leftarrow> write_entries al (map (\<lambda>i. tree_deref es (git_vector_get entries i)) [0..<v_length entries]) err tree;
         if err \<noteq> 0 then Some (err, None)
         else if fst odb \<noteq> 0 then Some (fst odb, None)
         else do {
           data \<leftarrow> buf_load tree 0 (buf_size tree);
           let (err, oid) = snd odb data;
           Some (err, Some oid) } } } }"

section \<open>Paths\<close>

definition subpath_len :: "byte list \<Rightarrow> nat" where
  "subpath_len path = length (takeWhile (\<lambda>c. c \<noteq> 47) (cstr path))"

definition git_tree_entry_dup :: "bool \<Rightarrow> git_tree_entry \<Rightarrow> (int \<times> git_tree_entry option) option" where
  "git_tree_entry_dup ok source = do {
     oid \<leftarrow> git_tree_entry_id source;
     case alloc_entry ok (take (name_len source) (te_filename source)) oid of
       None \<Rightarrow> Some (-1, None)
     | Some cpy \<Rightarrow> Some (0, Some (cpy\<lparr>te_attr := te_attr source\<rparr>)) }"

lemma drop_shorter: "drop k path = c # r \<Longrightarrow> length path - Suc n < length path"
  by (cases path) auto

text \<open>\<open>lookup\<close> stands for \<open>git_tree_lookup\<close>: the entries of the tree with an id, if the object database has it.\<close>

function git_tree_entry_bypath ::
    "(git_oid \<Rightarrow> git_tree_entry list option) \<Rightarrow> bool \<Rightarrow> git_tree_entry list \<Rightarrow> byte list \<Rightarrow> (int \<times> git_tree_entry option) option" where
  "git_tree_entry_bypath lookup ok root path =
     (let filename_len = subpath_len path in
      if filename_len = 0 then Some (GIT_ENOTFOUND, None)
      else
        case entry_fromname root path filename_len of
          None \<Rightarrow> None
        | Some None \<Rightarrow> Some (GIT_ENOTFOUND, None)
        | Some (Some entry) \<Rightarrow>
            let c = peek (drop filename_len path) in
            if c = 47 \<and> \<not> git_tree_entry__is_tree entry then Some (GIT_ENOTFOUND, None)
            else if c = 47 \<and> peek (drop (filename_len + 1) path) \<noteq> 0 then
              (case git_tree_entry_id entry of
                 None \<Rightarrow> None
               | Some oid \<Rightarrow>
                   (case lookup oid of
                      None \<Rightarrow> Some (-1, None)
                    | Some subtree \<Rightarrow> git_tree_entry_bypath lookup ok subtree (drop (filename_len + 1) path)))
            else git_tree_entry_dup ok entry)"
  by pat_completeness auto

termination
  by (relation "measure (\<lambda>(_, _, _, path). length path)") (auto simp: peek_def split: list.splits intro: drop_shorter)

declare git_tree_entry_bypath.simps [simp del]

end
