(* ===== verification/TreeSpec.thy ===== *)
theory TreeSpec
  imports Tree
begin

text \<open>
  What the operations of tree.c do: the modes, the order of the entries, the search for a name, and the round trip of a tree that
  the builder writes.
\<close>

section \<open>The order of the entries\<close>

text \<open>An entry as it lies in memory: its name ends where its length says, with a NUL.\<close>

definition entry_name :: "git_tree_entry \<Rightarrow> byte list" where
  "entry_name e = take (name_len e) (te_filename e)"

definition wf_entry :: "git_tree_entry \<Rightarrow> bool" where
  "wf_entry e \<longleftrightarrow> (\<exists>r. te_filename e = entry_name e @ 0 # r) \<and> length (entry_name e) = name_len e \<and> 0 \<notin> set (entry_name e)"

lemma wf_entryE:
  assumes "wf_entry e"
  obtains r where "te_filename e = entry_name e @ 0 # r" "length (entry_name e) = name_len e" "0 \<notin> set (entry_name e)"
  using assms by (auto simp: wf_entry_def)

text \<open>What an entry counts as: its name, followed by a slash for a tree and by a NUL for anything else.\<close>

definition sort_key :: "byte list \<Rightarrow> bool \<Rightarrow> byte list" where
  "sort_key name isdir = name @ [if isdir then 47 else 0]"

lemma git_path_cmp_Cons:
  assumes "x \<noteq> 0" "y \<noteq> 0"
  shows "git_path_cmp (x # a) (Suc m) da (y # b) (Suc n) db git__strncmp =
     (if x = y then git_path_cmp a m da b n db git__strncmp else uint x - uint y)"
proof -
  have len: "(if Suc m < Suc n then Suc m else Suc n) = Suc (if m < n then m else n)" by simp
  have cmp: "git__strncmp (x # a) (y # b) (Suc k) = (if x = y then git__strncmp a b k else uint x - uint y)" for k
    using assms by simp
  show ?thesis
  proof (cases "x = y")
    case True
    then show ?thesis unfolding git_path_cmp_def Let_def len cmp by (simp only: drop_Suc_Cons if_True refl)
  next
    case False
    then have "uint x - uint y \<noteq> 0" by (simp add: word_uint_eq_iff)
    then show ?thesis using False unfolding git_path_cmp_def Let_def len cmp by (simp only: if_False if_True refl simp_thms)
  qed
qed

lemma git_path_cmp_key:
  assumes "0 \<notin> set a" "47 \<notin> set a" "0 \<notin> set b" "47 \<notin> set b"
  shows "git_path_cmp (a @ 0 # r) (length a) da (b @ 0 # s) (length b) db git__strncmp < 0 \<longleftrightarrow>
           ord_class.lexordp (sort_key a da) (sort_key b db)"
    and "git_path_cmp (a @ 0 # r) (length a) da (b @ 0 # s) (length b) db git__strncmp = 0 \<longleftrightarrow> sort_key a da = sort_key b db"
proof -
  have "(git_path_cmp (a @ 0 # r) (length a) da (b @ 0 # s) (length b) db git__strncmp < 0 \<longleftrightarrow>
           ord_class.lexordp (sort_key a da) (sort_key b db)) \<and>
        (git_path_cmp (a @ 0 # r) (length a) da (b @ 0 # s) (length b) db git__strncmp = 0 \<longleftrightarrow> sort_key a da = sort_key b db)"
    using assms
  proof (induction a b rule: list_induct2')
    case 1
    show ?case by (auto simp: git_path_cmp_def sort_key_def)
  next
    case (2 x xs)
    then have "x \<noteq> 0" "x \<noteq> 47" by auto
    then show ?case by (auto simp: git_path_cmp_def sort_key_def not_less_iff_gr_or_eq word_neq_0_conv)
  next
    case (3 y ys)
    then have "y \<noteq> 0" "y \<noteq> 47" by auto
    then show ?case by (auto simp: git_path_cmp_def sort_key_def not_less_iff_gr_or_eq word_neq_0_conv)
  next
    case (4 x xs y ys)
    then have xy: "x \<noteq> 0" "y \<noteq> 0" by auto
    show ?case
    proof (cases "x = y")
      case True
      then show ?thesis using 4 xy by (simp add: git_path_cmp_Cons sort_key_def)
    next
      case False
      then have "uint x \<noteq> uint y" by (simp add: word_uint_eq_iff)
      then show ?thesis using False xy by (auto simp: git_path_cmp_Cons sort_key_def word_less_def)
    qed
  qed
  then show "git_path_cmp (a @ 0 # r) (length a) da (b @ 0 # s) (length b) db git__strncmp < 0 \<longleftrightarrow>
           ord_class.lexordp (sort_key a da) (sort_key b db)"
    and "git_path_cmp (a @ 0 # r) (length a) da (b @ 0 # s) (length b) db git__strncmp = 0 \<longleftrightarrow> sort_key a da = sort_key b db"
    by blast+
qed

lemma total_lexord:
  assumes "\<And>x y. cmp x y < 0 \<longleftrightarrow> ord_class.lexordp (key x) (key y :: byte list)" "\<And>x y. cmp x y = 0 \<longleftrightarrow> key x = key y"
  shows "total_cmp cmp"
proof -
  have flip: "cmp x y > 0 \<longleftrightarrow> cmp y x < 0" for x y
  proof -
    have "cmp x y > 0 \<longleftrightarrow> \<not> cmp x y < 0 \<and> cmp x y \<noteq> 0" by linarith
    also have "\<dots> \<longleftrightarrow> \<not> ord_class.lexordp (key x) (key y) \<and> key x \<noteq> key y" using assms by blast
    also have "\<dots> \<longleftrightarrow> ord_class.lexordp (key y) (key x)"
      using lexordp_linear [of "key x" "key y"] lexordp_antisym [of "key x" "key y"] lexordp_irreflexive' [of "key x"] by metis
    finally show ?thesis using assms(1) [of y x] by blast
  qed
  have le: "cmp x y \<le> 0 \<longleftrightarrow> \<not> ord_class.lexordp (key y) (key x)" for x y
    using flip [of x y] assms(1) [of y x] by (auto simp: not_less [symmetric])
  have "cmp x z \<le> 0" if "cmp x y \<le> 0" "cmp y z \<le> 0" for x y z
    using that unfolding le by (metis lexordp_linear lexordp_trans)
  then show ?thesis using flip unfolding total_cmp_def by blast
qed

section \<open>Searching\<close>

lemma strncmp_memcmp:
  assumes "0 \<notin> set (take n a)" "0 \<notin> set (take n b)" "n \<le> length a" "n \<le> length b"
  shows "sgn (git__strncmp a b n) = memcmp (take n a) (take n b)"
  using assms
proof (induction a b n rule: git__strncmp.induct)
  case (2 a b n)
  then obtain x a' y b' where "a = x # a'" "b = y # b'" by (metis Suc_le_length_iff)
  then show ?case using 2 by (auto simp: sgn_if word_less_def word_uint_eq_iff)
qed simp

lemma bsearch_loop_total:
  assumes "base + lim \<le> length arr" and "lim = 0 \<longrightarrow> cmp \<noteq> 0"
  shows "\<exists>c b. bsearch_loop compare key arr base lim cmp = Some (c, b) \<and> (c = 0 \<longrightarrow> b < length arr \<and> compare key (arr ! b) = 0)"
  using assms
proof (induction compare key arr base lim cmp rule: bsearch_loop.induct)
  case (1 compare key arr base lim cmp)
  show ?case
  proof (cases "lim = 0")
    case True
    then show ?thesis using 1(4) by (simp add: bsearch_loop.simps)
  next
    case False
    define part where "part = base + lim div 2"
    have p: "part < length arr" using 1(3) False by (simp add: part_def)
    consider "compare key (arr ! part) = 0" | "compare key (arr ! part) > 0" | "compare key (arr ! part) < 0" by linarith
    then show ?thesis
    proof cases
      case 1
      then show ?thesis using False p by (simp add: bsearch_loop.simps [of compare key arr base lim] part_def)
    next
      case 2
      have "part + 1 + (lim - 1) div 2 \<le> length arr" using 1(3) False unfolding part_def by presburger
      then show ?thesis using "1.IH"(1) [OF False part_def _ refl] False p 2
        by (simp add: bsearch_loop.simps [of compare key arr base lim] part_def [symmetric])
    next
      case 3
      have "base + lim div 2 \<le> length arr" using 1(3) by linarith
      then show ?thesis using "1.IH"(2) [OF False part_def _ refl] False p 3
        by (simp add: bsearch_loop.simps [of compare key arr base lim] part_def [symmetric])
    qed
  qed
qed

lemma sorted_wrt_nthD: "sorted_wrt P xs \<Longrightarrow> i < j \<Longrightarrow> j < length xs \<Longrightarrow> P (xs ! i) (xs ! j)"
  by (simp add: sorted_wrt_iff_nth_less)

lemma entry_sort_cmp_memcmp:
  assumes "wf_entry t" "wf_entry e" and n: "n = min (name_len t) (name_len e)"
    and neq: "memcmp (take n (entry_name t)) (take n (entry_name e)) \<noteq> 0"
  shows "sgn (entry_sort_cmp t e) = memcmp (take n (entry_name t)) (take n (entry_name e))"
proof -
  obtain r where t: "te_filename t = entry_name t @ 0 # r" "length (entry_name t) = name_len t" "0 \<notin> set (entry_name t)"
    using assms(1) by (rule wf_entryE)
  obtain s where e: "te_filename e = entry_name e @ 0 # s" "length (entry_name e) = name_len e" "0 \<notin> set (entry_name e)"
    using assms(2) by (rule wf_entryE)
  have take: "take n (te_filename t) = take n (entry_name t)" "take n (te_filename e) = take n (entry_name e)"
    using n t(1,2) e(1,2) by (metis append_eq_append_conv_if min.cobounded1 min.cobounded2 take_append diff_is_0_eq take_0 append_Nil2)+
  have "sgn (git__strncmp (te_filename t) (te_filename e) n) = memcmp (take n (te_filename t)) (take n (te_filename e))"
  proof (rule strncmp_memcmp)
    show "0 \<notin> set (take n (te_filename t))" "0 \<notin> set (take n (te_filename e))"
      unfolding take using t(3) e(3) by (auto dest: in_set_takeD)
    show "n \<le> length (te_filename t)" "n \<le> length (te_filename e)" using n t(1,2) e(1,2) by (metis length_append trans_le_add1 min.cobounded1 min.cobounded2)+
  qed
  then have s: "sgn (git__strncmp (te_filename t) (te_filename e) n) = memcmp (take n (entry_name t)) (take n (entry_name e))"
    unfolding take .
  then have "git__strncmp (te_filename t) (te_filename e) n \<noteq> 0" using neq by auto
  moreover have "(if name_len t < name_len e then name_len t else name_len e) = n" using n by simp
  ultimately show ?thesis using s unfolding entry_sort_cmp_def git_path_cmp_def Let_def by simp
qed

lemma homing_search_cmp_target:
  assumes wf: "wf_entry t" "wf_entry e" and name: "entry_name t = take n filename" and n: "n \<le> length filename" "n < 65536"
  shows "homing_search_cmp (filename, of_nat n) e < 0 \<Longrightarrow> entry_sort_cmp e t > 0"
    and "homing_search_cmp (filename, of_nat n) e > 0 \<Longrightarrow> entry_sort_cmp t e > 0"
    and "homing_search_cmp (filename, of_nat n) t = 0"
proof -
  have u: "unat (of_nat n :: 16 word) = n" using n(2) by (simp add: unat_of_nat)
  have lt: "length (entry_name t) = name_len t" "length (entry_name e) = name_len e" using wf by (auto elim: wf_entryE)
  have nt: "name_len t = n" using lt(1) name n(1) by simp
  let ?m = "min n (name_len e)"
  have m: "(if n < name_len e then n else name_len e) = ?m" by simp
  have hom: "homing_search_cmp (filename, of_nat n) e = memcmp (take ?m (entry_name t)) (take ?m (entry_name e))"
  proof -
    have "take ?m (entry_name t) = take ?m filename" by (simp add: name)
    moreover have "take ?m (entry_name e) = take ?m (te_filename e)" by (simp add: entry_name_def)
    ultimately show ?thesis unfolding homing_search_cmp_def Let_def fst_conv snd_conv u m by simp
  qed
  show "entry_sort_cmp e t > 0" if "homing_search_cmp (filename, of_nat n) e < 0"
  proof -
    have swap: "memcmp (take ?m (entry_name e)) (take ?m (entry_name t)) > 0"
      using that memcmp_antisym [of "take ?m (entry_name t)"] unfolding hom by simp
    have "sgn (entry_sort_cmp e t) > 0"
      using entry_sort_cmp_memcmp [OF wf(2,1), of ?m] swap nt by (simp add: min.commute)
    then show ?thesis by (simp add: sgn_if split: if_splits)
  qed
  show "entry_sort_cmp t e > 0" if "homing_search_cmp (filename, of_nat n) e > 0"
  proof -
    have "sgn (entry_sort_cmp t e) > 0"
      using entry_sort_cmp_memcmp [OF wf(1,2), of ?m] that nt unfolding hom by simp
    then show ?thesis by (simp add: sgn_if split: if_splits)
  qed
  show "homing_search_cmp (filename, of_nat n) t = 0"
    unfolding homing_search_cmp_def Let_def using name by (simp add: u nt entry_name_def memcmp_eq_0_iff)
qed

lemma bsearch_loop_finds:
  assumes "base + lim \<le> length arr" "base \<le> i" "i < base + lim" "compare key (arr ! i) = 0"
    and "\<And>j. j < length arr \<Longrightarrow> compare key (arr ! j) < 0 \<Longrightarrow> i < j"
    and "\<And>j. j < length arr \<Longrightarrow> compare key (arr ! j) > 0 \<Longrightarrow> j < i"
  shows "\<exists>h. bsearch_loop compare key arr base lim cmp = Some (0, h)"
  using assms
proof (induction compare key arr base lim cmp rule: bsearch_loop.induct)
  case (1 compare key arr base lim cmp)
  have lim: "lim \<noteq> 0" using 1(4,5) by simp
  define part where "part = base + lim div 2"
  have p: "part < length arr" using 1(3) lim by (simp add: part_def)
  consider "compare key (arr ! part) = 0" | "compare key (arr ! part) > 0" | "compare key (arr ! part) < 0" by linarith
  then show ?case
  proof cases
    case zero: 1
    then show ?thesis using lim p by (simp add: bsearch_loop.simps [of compare key arr base lim] part_def)
  next
    case 2
    then have "part < i" using 1(8) p by blast
    then have r: "part + 1 + (lim - 1) div 2 \<le> length arr" "part + 1 \<le> i" "i < part + 1 + (lim - 1) div 2"
      using 1(3-5) lim unfolding part_def by linarith+
    show ?thesis using "1.IH"(1) [OF lim part_def _ refl _ _ r 1(6-8)] lim p 2
      by (simp add: bsearch_loop.simps [of compare key arr base lim] part_def [symmetric])
  next
    case 3
    then have "i < part" using 1(7) p by blast
    then have r: "base + lim div 2 \<le> length arr" "i < base + lim div 2" using 1(3) by (simp_all add: part_def)
    show ?thesis using "1.IH"(2) [OF lim part_def _ refl _ _ r(1) 1(4) r(2) 1(6-8)] lim p 3
      by (simp add: bsearch_loop.simps [of compare key arr base lim] part_def [symmetric])
  qed
qed

lemma name_matches_iff:
  assumes "wf_entry e" "n \<le> length filename"
  shows "name_matches filename n e \<longleftrightarrow> entry_name e = take n filename"
proof -
  obtain r where e: "te_filename e = entry_name e @ 0 # r" "length (entry_name e) = name_len e" using assms(1) by (auto elim: wf_entryE)
  then have len: "name_len e \<le> length (te_filename e)" by (metis length_append le_add1)
  show ?thesis
  proof (cases "name_len e = n")
    case True
    then show ?thesis using assms(2) len by (auto simp: name_matches_def entry_name_def memcmp_eq_0_iff)
  next
    case False
    then have "entry_name e \<noteq> take n filename" using e(2) assms(2) by (metis length_take min.absorb2)
    then show ?thesis using False by (simp add: name_matches_def)
  qed
qed

lemma search_forward_Some:
  "search_forward k f n es i = Some j \<Longrightarrow> i \<le> j \<and> j < i + length es \<and> name_matches f n (es ! (j - i))"
proof (induction k f n es i rule: search_forward.induct)
  case (2 k f n e es i)
  show ?case
  proof (cases "homing_search_cmp k e < 0 \<or> name_matches f n e")
    case True
    then show ?thesis using "2.prems" by (auto split: if_splits)
  next
    case False
    then have "search_forward k f n es (i + 1) = Some j" using "2.prems" by simp
    then have "i + 1 \<le> j" "j < i + 1 + length es" "name_matches f n (es ! (j - (i + 1)))" using "2.IH" False by auto
    moreover have "j - i = Suc (j - (i + 1))" using calculation(1) by simp
    ultimately show ?thesis by simp
  qed
qed simp

lemma search_backward_Some: "search_backward k f n es m = Some j \<Longrightarrow> j < m \<and> name_matches f n (es ! j)"
proof (induction k f n es m rule: search_backward.induct)
  case (2 k f n es m)
  then show ?case by (cases "homing_search_cmp k (es ! m) > 0"; cases "name_matches f n (es ! m)") auto
qed simp

lemma search_forward_finds:
  "d < length es \<Longrightarrow> name_matches f n (es ! d) \<Longrightarrow> (\<And>j. j \<le> d \<Longrightarrow> \<not> homing_search_cmp k (es ! j) < 0) \<Longrightarrow>
   search_forward k f n es i \<noteq> None"
proof (induction es arbitrary: i d)
  case (Cons e es)
  have e: "\<not> homing_search_cmp k e < 0" using Cons.prems(3) [of 0] by simp
  show ?case
  proof (cases d)
    case 0
    then show ?thesis using e Cons.prems(2) by simp
  next
    case (Suc d')
    have "\<not> homing_search_cmp k (es ! j) < 0" if "j \<le> d'" for j using Cons.prems(3) [of "Suc j"] that Suc by simp
    then show ?thesis using e Cons.IH [of d' "i + 1"] Cons.prems(1,2) Suc by simp
  qed
qed simp

lemma search_backward_finds:
  "d < m \<Longrightarrow> name_matches f n (es ! d) \<Longrightarrow> (\<And>j. d \<le> j \<Longrightarrow> j < m \<Longrightarrow> \<not> homing_search_cmp k (es ! j) > 0) \<Longrightarrow>
   search_backward k f n es m \<noteq> None"
proof (induction m)
  case (Suc m)
  have e: "\<not> homing_search_cmp k (es ! m) > 0" using Suc.prems(1) Suc.prems(3) [of m] by simp
  show ?case
  proof (cases "d = m")
    case True
    then show ?thesis using e Suc.prems(2) by simp
  next
    case False
    then show ?thesis using e Suc.IH Suc.prems by simp
  qed
qed simp

lemma entry_fromname_spec:
  assumes wf: "\<forall>e\<in>set es. wf_entry e" and sorted: "sorted_by entry_sort_cmp es" and n: "n \<le> length name"
  shows "\<exists>r. entry_fromname es name n = Some r \<and>
    (case r of Some e \<Rightarrow> e \<in> set es \<and> entry_name e = take n name | None \<Rightarrow> \<forall>e\<in>set es. entry_name e \<noteq> take n name)"
proof -
  let ?k = "(name, of_nat n :: 16 word)"
  have match: "name_matches name n e \<longleftrightarrow> entry_name e = take n name" if "e \<in> set es" for e
    using name_matches_iff [OF bspec [OF wf that] n] .
  obtain c h where b: "bsearch_loop homing_search_cmp ?k es 0 (length es) (-1) = Some (c, h)" "c = 0 \<longrightarrow> h < length es"
    using bsearch_loop_total [of 0 "length es" es "-1" homing_search_cmp ?k] by auto
  let ?fwd = "search_forward ?k name n (drop h es) h" and ?bwd = "search_backward ?k name n es h"
  have fwd: "i < length es \<and> entry_name (es ! i) = take n name" if "?fwd = Some i" for i
    
  proof -
    have i: "h \<le> i" "i < h + (length es - h)" "name_matches name n (drop h es ! (i - h))" using search_forward_Some [OF that] by simp_all
    then have "i < length es" "drop h es ! (i - h) = es ! i" by simp_all
    then show ?thesis using i(3) match [OF nth_mem, of i] by simp
  qed
  have bwd: "i < length es \<and> entry_name (es ! i) = take n name" if "?bwd = Some i" "c = 0" for i
    using search_backward_Some [OF that(1)] match [OF nth_mem, of i] b(2) that(2) by simp
  have found: "c = 0 \<and> (?fwd \<noteq> None \<or> ?bwd \<noteq> None)" if t: "t \<in> set es" "entry_name t = take n name" for t
  proof -
    obtain i where i: "i < length es" "es ! i = t" using t(1) by (auto simp: in_set_conv_nth)
    have "length (entry_name t) = name_len t" using wf t(1) by (auto elim: wf_entryE)
    then have "n < 65536" using t(2) n unsigned_less [of "te_filename_len t", where ?'a = nat] by (simp add: name_len_def)
    note target = homing_search_cmp_target [OF bspec [OF wf t(1)] _ t(2) n this]
    have lo: "i < j" if j: "j < length es" "homing_search_cmp ?k (es ! j) < 0" for j
    proof (rule ccontr)
      assume "\<not> i < j"
      moreover have "entry_sort_cmp (es ! j) t > 0" using target(1) [of "es ! j"] wf j by simp
      moreover have "homing_search_cmp ?k t = 0" using target(3) wf t(1) by blast
      ultimately show False using sorted_wrt_nthD [OF sorted, of j i] i j by (cases "j = i") auto
    qed
    have hi: "j < i" if j: "j < length es" "homing_search_cmp ?k (es ! j) > 0" for j
    proof (rule ccontr)
      assume "\<not> j < i"
      moreover have "entry_sort_cmp t (es ! j) > 0" using target(2) [of "es ! j"] wf j by simp
      moreover have "homing_search_cmp ?k t = 0" using target(3) wf t(1) by blast
      ultimately show False using sorted_wrt_nthD [OF sorted, of i j] i j by (cases "j = i") auto
    qed
    have "homing_search_cmp ?k (es ! i) = 0" using target(3) wf t(1) i by blast
    then have c: "c = 0" using bsearch_loop_finds [of 0 "length es" es i homing_search_cmp ?k "-1"] lo hi i b(1) by auto
    have m: "name_matches name n (es ! i)" using match t i by simp
    show ?thesis
    proof (cases "h \<le> i")
      case True
      have "?fwd \<noteq> None"
      proof (rule search_forward_finds [of "i - h"])
        show "\<not> homing_search_cmp ?k (drop h es ! j) < 0" if "j \<le> i - h" for j
        proof -
          have "h + j \<le> i" using that True by simp
          then show ?thesis using lo [of "h + j"] i(1) by auto
        qed
      qed (use True i m in auto)
      then show ?thesis using c by blast
    next
      case False
      have "?bwd \<noteq> None"
      proof (rule search_backward_finds [of i])
        show "\<not> homing_search_cmp ?k (es ! j) > 0" if "i \<le> j" "j < h" for j
          using hi [of j] that b(2) c by auto
      qed (use False m in auto)
      then show ?thesis using c by blast
    qed
  qed
  show ?thesis
  proof (cases "c = 0 \<and> (?fwd \<noteq> None \<or> ?bwd \<noteq> None)")
    case True
    then obtain i where "tree_key_search es name n = Some (0, Some i)" "i < length es \<and> entry_name (es ! i) = take n name"
      using b fwd bwd by (cases ?fwd; cases ?bwd) (auto simp: tree_key_search_def git_array__search_def)
    then show ?thesis by (auto simp: entry_fromname_def)
  next
    case False
    then have "tree_key_search es name n = Some (GIT_ENOTFOUND, None)"
      using b by (cases ?fwd; cases ?bwd) (auto simp: tree_key_search_def git_array__search_def)
    then show ?thesis using found False by (auto simp: entry_fromname_def)
  qed
qed

section \<open>Writing and parsing\<close>

text \<open>What an entry says, wherever it lies.\<close>

definition tree_view :: "git_tree_entry \<Rightarrow> 16 word \<times> byte list \<times> byte list" where
  "tree_view e = (te_attr e, entry_name e, take GIT_OID_RAWSZ (te_oid e))"

definition entry_bytes :: "git_tree_entry \<Rightarrow> byte list" where
  "entry_bytes e = octal (unat (te_attr e)) @ [32] @ (entry_name e @ [0]) @ take GIT_OID_RAWSZ (te_oid e)"

definition full_entry :: "git_tree_entry \<Rightarrow> bool" where
  "full_entry e \<longleftrightarrow> wf_entry e \<and> GIT_OID_RAWSZ \<le> length (te_oid e)"

lemma octal_length: "n < 8 ^ k \<Longrightarrow> length (octal n) \<le> max 1 k"
proof (induction k arbitrary: n)
  case (Suc k)
  show ?case
  proof (cases "n < 8")
    case False
    then have "n div 8 < 8 ^ k" using Suc.prems by (simp add: less_mult_imp_div_less mult.commute)
    then have "length (octal (n div 8)) \<le> max 1 k" using Suc.IH by blast
    moreover have "k \<noteq> 0" using False Suc.prems by (cases k) auto
    ultimately show ?thesis using False by (simp add: octal.simps [of n])
  qed (simp add: octal.simps [of n])
qed (simp add: octal.simps)

lemma mode_digit:
  assumes "d < 8"
  shows "\<not> (48 + of_nat d :: byte) < 48" "\<not> (48 + of_nat d :: byte) > 55" "(48 + of_nat d :: byte) \<noteq> 32"
    "ucast (48 + of_nat d :: byte) - 48 = (of_nat d :: u32)"
proof -
  have "d \<in> {0, 1, 2, 3, 4, 5, 6, 7}" using assms by auto
  then show "\<not> (48 + of_nat d :: byte) < 48" "\<not> (48 + of_nat d :: byte) > 55" "(48 + of_nat d :: byte) \<noteq> 32"
    "ucast (48 + of_nat d :: byte) - 48 = (of_nat d :: u32)" by auto
qed

lemma octal_peek: "peek (octal n @ s) \<noteq> 32 \<and> octal n \<noteq> []"
proof (induction n arbitrary: s rule: octal.induct)
  case (1 n)
  show ?case
  proof (cases "n < 8")
    case True
    then show ?thesis using mode_digit(3) by (simp add: octal.simps [of n])
  next
    case False
    then show ?thesis using 1 [OF False, of "(48 + of_nat (n mod 8)) # s"] by (simp add: octal.simps [of n])
  qed
qed

lemma parse_mode_octal: "parse_mode_loop 0 (octal n @ s) = parse_mode_loop (of_nat n) s"
proof (induction n arbitrary: s rule: octal.induct)
  case (1 n)
  show ?case
  proof (cases "n < 8")
    case True
    then show ?thesis using mode_digit [OF True] by (simp add: octal.simps [of n])
  next
    case False
    have "(of_nat n :: u32) = push_bit 3 (of_nat (n div 8)) + of_nat (n mod 8)"
    proof -
      have "(of_nat n :: u32) = of_nat (n div 8 * 8 + n mod 8)" by simp
      also have "\<dots> = of_nat (n div 8) * 8 + of_nat (n mod 8)" by (simp only: of_nat_add of_nat_mult of_nat_numeral)
      finally show ?thesis by (simp add: push_bit_eq_mult)
    qed
    then show ?thesis using False mode_digit [of "n mod 8"] 1 [OF False, of "(48 + of_nat (n mod 8)) # s"]
      by (simp add: octal.simps [of n])
  qed
qed

lemma parse_mode_entry: "parse_mode (octal (unat a) @ [32] @ s) = Some (ucast (a :: 16 word), s)"
proof -
  have "of_nat (unat a) = (ucast a :: u32)" by simp
  then show ?thesis using octal_peek parse_mode_octal [of "unat a" "[32] @ s"] by (simp add: parse_mode_def)
qed

lemma length_entry_bytes: "full_entry e \<Longrightarrow> length (entry_bytes e) < 65600"
proof -
  assume "full_entry e"
  then have "length (entry_name e) = name_len e" by (auto simp: full_entry_def elim: wf_entryE)
  moreover have "name_len e < 65536" using unsigned_less [of "te_filename_len e", where ?'a = nat] by (simp add: name_len_def)
  moreover have "length (octal (unat (te_attr e))) \<le> 6"
    using octal_length [of "unat (te_attr e)" 6] unsigned_less [of "te_attr e", where ?'a = nat] by simp
  ultimately show ?thesis by (simp add: entry_bytes_def)
qed

lemma memchr_append: "0 \<notin> set s \<Longrightarrow> memchr 0 (s @ 0 # r) = Some (length s)"
proof -
  assume "0 \<notin> set s"
  then have "takeWhile (\<lambda>x. x \<noteq> 0) (s @ 0 # r) = s" by (subst takeWhile_append2) auto
  then show ?thesis by (simp add: memchr_def)
qed

lemma ucast_16_32: "ucast (ucast (a :: 16 word) :: u32) = a"
  by transfer simp

lemma tree_parse_entries:
  assumes "\<And>n. grow_ok n" "\<forall>e\<in>set es. full_entry e" "length acc + length es < 2 ^ 58"
  shows "\<exists>es'. tree_parse_loop grow_ok asize acc (concat (map entry_bytes es)) = (0, acc @ es') \<and>
    map tree_view es' = map tree_view es \<and> (\<forall>e\<in>set es'. full_entry e)"
  using assms(2,3)
proof (induction es arbitrary: acc asize)
  case Nil
  show ?case by (rule exI [of _ "[]"]) (simp add: tree_parse_loop.simps [of _ _ _ "[]"])
next
  case (Cons e es)
  have e: "length (entry_name e) = name_len e" "0 \<notin> set (entry_name e)" "GIT_OID_RAWSZ \<le> length (te_oid e)"
    using Cons.prems(1) by (auto simp: full_entry_def elim: wf_entryE)
  let ?rest = "concat (map entry_bytes es)"
  let ?buf = "entry_name e @ 0 # take GIT_OID_RAWSZ (te_oid e) @ ?rest"
  let ?e = "\<lparr>te_attr = ucast (ucast (te_attr e) :: u32), te_filename_len = of_nat (length (entry_name e)),
             te_oid = drop (length (entry_name e) + 1) ?buf, te_filename = ?buf\<rparr>"
  obtain a where a: "git_array_alloc grow_ok 24 (length acc) asize = Some a"
    using git_array_alloc_total [of grow_ok "length acc" 24 asize] assms(1) Cons.prems(2) by auto
  have nm: "length (entry_name e) < 65536" using e(1) unsigned_less [of "te_filename_len e", where ?'a = nat] by (simp add: name_len_def)
  then have name: "name_len ?e = length (entry_name e)" by (simp add: name_len_def unat_of_nat)
  have buf: "concat (map entry_bytes (e # es)) = octal (unat (te_attr e)) @ [32] @ ?buf" by (simp add: entry_bytes_def)
  have rest: "drop (length (entry_name e) + 1 + GIT_OID_RAWSZ) ?buf = ?rest" using e(3) by simp
  have "tree_parse_loop grow_ok asize acc (concat (map entry_bytes (e # es))) = tree_parse_loop grow_ok a (acc @ [?e]) ?rest"
    unfolding buf tree_parse_loop.simps [of grow_ok asize acc] parse_mode_entry option.case prod.case memchr_append [OF e(2)] a Let_def rest
    by simp
  moreover obtain es' where "tree_parse_loop grow_ok a (acc @ [?e]) ?rest = (0, (acc @ [?e]) @ es')" "map tree_view es' = map tree_view es"
      "\<forall>e\<in>set es'. full_entry e"
    using Cons.IH [of "acc @ [?e]" a] Cons.prems by auto
  moreover have "tree_view ?e = tree_view e" "full_entry ?e"
  proof -
    define x where "x = ?e"
    have u: "ucast (ucast (te_attr e) :: u32) = te_attr e" by (rule ucast_16_32)
    have x: "te_attr x = te_attr e" "te_oid x = take GIT_OID_RAWSZ (te_oid e) @ ?rest" "te_filename x = ?buf"
      "name_len x = length (entry_name e)" unfolding x_def using u name by simp_all
    have nx: "entry_name x = entry_name e" unfolding entry_name_def [of x] x by simp
    show "tree_view ?e = tree_view e" unfolding x_def [symmetric] tree_view_def nx x using e(3) by simp
    show "full_entry ?e" unfolding x_def [symmetric] full_entry_def wf_entry_def nx x using e by simp
  qed
  ultimately show ?case by (intro exI [of _ "?e # es'"]) simp
qed

lemma write_entry_ok:
  assumes env: "alloc_env al" and wf: "buf_wf b" and e: "full_entry e" and lim: "length (content b) + 65600 < BUF_LIMIT"
  shows "\<exists>b'. write_entry al b e = Some (0, b') \<and> buf_wf b' \<and> content b' = content b @ entry_bytes e"
proof -
  obtain r where e': "te_filename e = entry_name e @ 0 # r" "length (entry_name e) = name_len e" "GIT_OID_RAWSZ \<le> length (te_oid e)"
    using e by (auto simp: full_entry_def elim: wf_entryE)
  have len: "length (entry_bytes e) < 65600" by (rule length_entry_bytes [OF e])
  have al: "good_alloc al" using env by (simp add: alloc_env_def)
  let ?m = "octal (unat (te_attr e)) @ [32]" and ?n = "take (name_len e + 1) (te_filename e)" and ?o = "take GIT_OID_RAWSZ (te_oid e)"
  have n: "?n = entry_name e @ [0]" using e' by simp
  have size: "buf_size b = length (content b)" using length_content [OF wf] by simp
  have "cstrlen (bytes_of ''%o '') = 3" by (simp add: bytes_of_def cstrlen_def cstr_def)
  then obtain b1 where b1: "git_buf_vprintf al b (bytes_of ''%o '') (Some ?m) = Some (0, b1)" "buf_wf b1" "content b1 = content b @ ?m"
    using buf_outcome_total [OF git_buf_vprintf_outcome [OF al wf, of ?m "bytes_of ''%o ''"] env] len lim size
    by (auto simp: entry_bytes_def BUF_LIMIT_def)
  obtain b2 where b2: "git_buf_put al b1 ?n = Some (0, b2)" "buf_wf b2" "content b2 = content b1 @ ?n"
    using gb.put_ok [OF env b1(2), of ?n] b1(3) len lim unfolding n by (auto simp: entry_bytes_def)
  obtain b3 where b3: "git_buf_put al b2 ?o = Some (0, b3)" "buf_wf b3" "content b3 = content b2 @ ?o"
    using gb.put_ok [OF env b2(2), of ?o] b1(3) b2(3) len lim unfolding n by (auto simp: entry_bytes_def)
  have "\<not> git_buf_oom b3" using b3(2) by (cases rule: buf_wf_cases) (auto simp: git_buf_oom_def GIT_BUF_INIT_def)
  moreover have "\<not> length (te_filename e) < name_len e + 1" using e' by simp
  ultimately have "write_entry al b e = Some (0, b3)"
    using e'(3) b1(1) b2(1) b3(1) by (simp add: write_entry_def)
  moreover have "content b3 = content b @ entry_bytes e" using b1(3) b2(3) b3(3) n by (simp add: entry_bytes_def)
  ultimately show ?thesis using b3(2) by blast
qed

lemma write_entries_ok:
  assumes env: "alloc_env al" and "buf_wf b" and "\<forall>e\<in>set es. full_entry e" and "length (content b) + 65600 * length es < BUF_LIMIT"
  shows "\<exists>b'. write_entries al es 0 b = Some (0, b') \<and> buf_wf b' \<and> content b' = content b @ concat (map entry_bytes es)"
  using assms(2-4)
proof (induction es arbitrary: b)
  case (Cons e es)
  have e: "full_entry e" using Cons.prems(2) by simp
  obtain b1 where b1: "write_entry al b e = Some (0, b1)" "buf_wf b1" "content b1 = content b @ entry_bytes e"
    using write_entry_ok [OF env Cons.prems(1) e] Cons.prems(3) by auto
  have "length (content b1) + 65600 * length es < BUF_LIMIT" using b1(3) length_entry_bytes [OF e] Cons.prems(3) by simp
  from Cons.IH [OF b1(2) _ this] show ?case using b1 Cons.prems(2) by auto
qed simp

text \<open>An entry of the builder: complete, with a name that has no slash.\<close>

definition plain_entry :: "git_tree_entry \<Rightarrow> bool" where
  "plain_entry e \<longleftrightarrow> full_entry e \<and> 47 \<notin> set (entry_name e)"

definition entry_key :: "git_tree_entry \<Rightarrow> byte list" where
  "entry_key e = sort_key (entry_name e) (git_tree_entry__is_tree e)"

lemma entry_sort_cmp_key:
  assumes "wf_entry a" "wf_entry b" "47 \<notin> set (entry_name a)" "47 \<notin> set (entry_name b)"
  shows "entry_sort_cmp a b < 0 \<longleftrightarrow> ord_class.lexordp (entry_key a) (entry_key b)"
    and "entry_sort_cmp a b = 0 \<longleftrightarrow> entry_key a = entry_key b"
proof -
  obtain r where a: "te_filename a = entry_name a @ 0 # r" "length (entry_name a) = name_len a" "0 \<notin> set (entry_name a)"
    using assms(1) by (rule wf_entryE)
  obtain s where b: "te_filename b = entry_name b @ 0 # s" "length (entry_name b) = name_len b" "0 \<notin> set (entry_name b)"
    using assms(2) by (rule wf_entryE)
  have eq: "entry_sort_cmp a b = git_path_cmp (entry_name a @ 0 # r) (length (entry_name a)) (git_tree_entry__is_tree a)
      (entry_name b @ 0 # s) (length (entry_name b)) (git_tree_entry__is_tree b) git__strncmp"
    unfolding entry_sort_cmp_def a(1) [symmetric] a(2) b(1) [symmetric] b(2) ..
  show "entry_sort_cmp a b < 0 \<longleftrightarrow> ord_class.lexordp (entry_key a) (entry_key b)"
    and "entry_sort_cmp a b = 0 \<longleftrightarrow> entry_key a = entry_key b"
    unfolding eq entry_key_def using git_path_cmp_key [OF a(3) assms(3) b(3) assms(4)] by blast+
qed

lemma entry_key_view: "tree_view a = tree_view b \<Longrightarrow> entry_key a = entry_key b \<and> entry_name a = entry_name b"
  by (simp add: tree_view_def entry_key_def git_tree_entry__is_tree_def entry_mode_def)

lemma plain_deref: "\<forall>e\<in>set es. plain_entry e \<Longrightarrow> wf_entry (tree_deref es p) \<and> 47 \<notin> set (entry_name (tree_deref es p))"
proof -
  assume es: "\<forall>e\<in>set es. plain_entry e"
  have z: "entry_name \<lparr>te_attr = 0, te_filename_len = 0, te_oid = [], te_filename = [0]\<rparr> = []"
    by (simp add: entry_name_def name_len_def)
  show ?thesis
  proof (cases "\<exists>i<length es. p = Some i")
    case True
    then obtain i where "p = Some i" "i < length es" by blast
    then show ?thesis using es by (auto simp: tree_deref_def plain_entry_def full_entry_def)
  next
    case False
    then have "tree_deref es p = \<lparr>te_attr = 0, te_filename_len = 0, te_oid = [], te_filename = [0]\<rparr>"
      by (auto simp: tree_deref_def split: option.splits)
    then show ?thesis using z by (simp add: wf_entry_def name_len_def)
  qed
qed

lemma total_tree_ptr_cmp:
  assumes "\<forall>e\<in>set es. plain_entry e"
  shows "total_cmp (tree_ptr_cmp es)"
proof (rule total_lexord [of _ "\<lambda>p. entry_key (tree_deref es p)"])
  show "tree_ptr_cmp es x y < 0 \<longleftrightarrow> ord_class.lexordp (entry_key (tree_deref es x)) (entry_key (tree_deref es y))" for x y
    unfolding tree_ptr_cmp_def using plain_deref [OF assms] by (intro entry_sort_cmp_key) blast+
  show "tree_ptr_cmp es x y = 0 \<longleftrightarrow> entry_key (tree_deref es x) = entry_key (tree_deref es y)" for x y
    unfolding tree_ptr_cmp_def using plain_deref [OF assms] by (intro entry_sort_cmp_key) blast+
qed

lemma sorted_by_view:
  assumes "map tree_view xs = map tree_view ys" "\<forall>e\<in>set xs. wf_entry e" "\<forall>e\<in>set ys. plain_entry e"
    and "sorted_by entry_sort_cmp ys"
  shows "sorted_by entry_sort_cmp xs"
proof -
  have len: "length xs = length ys" using arg_cong [OF assms(1), of length] by simp
  have nth: "tree_view (xs ! i) = tree_view (ys ! i)" if "i < length xs" for i
    using that len arg_cong [OF assms(1), of "\<lambda>l. l ! i"] by simp
  have "entry_sort_cmp (xs ! i) (xs ! j) \<le> 0" if ij: "i < j" "j < length xs" for i j
  proof -
    note vi = entry_key_view [OF nth [of i]] and vj = entry_key_view [OF nth [of j]]
    have p: "plain_entry (ys ! i)" "plain_entry (ys ! j)" using assms(3) ij len by auto
    have w: "wf_entry (xs ! i)" "wf_entry (xs ! j)" using assms(2) ij by auto
    have y: "wf_entry (ys ! i)" "wf_entry (ys ! j)" "47 \<notin> set (entry_name (ys ! i))" "47 \<notin> set (entry_name (ys ! j))"
      using p by (auto simp: plain_entry_def full_entry_def)
    have x: "47 \<notin> set (entry_name (xs ! i))" "47 \<notin> set (entry_name (xs ! j))" using y vi vj ij by auto
    have "entry_sort_cmp (ys ! i) (ys ! j) \<le> 0" using sorted_wrt_nthD [OF assms(4)] ij len by simp
    then show ?thesis
      using entry_sort_cmp_key [OF y(1,2,3,4)] entry_sort_cmp_key [OF w x] vi vj ij
      by (metis less_trans order_le_less)
  qed
  then show ?thesis by (simp add: sorted_wrt_iff_nth_less)
qed

lemma insert_pointers_ok:
  assumes env: "cells_env cells" and "vec_wf v" "flag_ok v" "v_length v + length ps < VEC_LIMIT"
  shows "\<exists>v'. insert_pointers cells ps v = Some (0, v') \<and> vec_wf v' \<and> flag_ok v' \<and> v_cmp v' = v_cmp v \<and> items v' = items v @ map Some ps"
  using assms(2-4)
proof (induction ps arbitrary: v)
  case (Cons p ps)
  have al: "good_alloc cells" using env by (simp add: cells_env_def)
  obtain v1 where v1: "git_vector_insert cells v (Some p) = Some (0, v1)" "vec_wf v1" "flag_ok v1" "v_cmp v1 = v_cmp v" "items v1 = items v @ [Some p]"
    using vec_outcome_total [OF git_vector_insert_outcome [OF al Cons.prems(1)] env, of "Some p"] Cons.prems(3) by auto
  have "v_length v1 = v_length v + 1" using arg_cong [OF v1(5), of length] v1(2) Cons.prems(1) by simp
  then show ?case using Cons.IH [OF v1(2,3)] v1 Cons.prems(3) by auto
qed simp

text \<open>A builder whose entries are complete, under their own names, each name once and allowed.\<close>

definition builder_ok :: "git_treebuilder \<Rightarrow> bool" where
  "builder_ok bld \<longleftrightarrow> distinct (map fst (bld_map bld)) \<and>
     (\<forall>(k, e)\<in>set (bld_map bld). full_entry e \<and> entry_name e = k \<and> valid_entry_name (bld_repo bld) k = Some True)"

lemma isvalid_loop_slash:
  "isvalid_loop reserved flags start n s = Some True \<Longrightarrow> flag flags GIT_PATH_REJECT_SLASH \<Longrightarrow> 47 \<notin> set (cstr s)"
proof (induction reserved flags start n s rule: isvalid_loop.induct)
  case (2 reserved flags start n c s)
  show ?case
  proof (cases "c = 0")
    case False
    then have v: "verify_char c flags" using "2.prems"(1) by (auto split: if_splits)
    then have "c \<noteq> 47" using "2.prems"(2) by (auto simp: verify_char_def)
    then show ?thesis using False v "2.IH"(2) "2.prems" by (simp add: cstr_def)
  qed (simp add: cstr_def)
qed (simp add: cstr_def)

lemma valid_entry_name_no_slash:
  assumes "valid_entry_name repo name = Some True"
  shows "47 \<notin> set (cstr name)"
proof -
  let ?f = "GIT_PATH_REJECT_TRAVERSAL OR GIT_PATH_REJECT_DOT_GIT OR GIT_PATH_REJECT_SLASH"
  have "isvalid_loop (snd repo) (dotgit_flags (Some (fst repo)) ?f) (cstr name) 0 (cstr name) = Some True"
    using assms by (simp add: valid_entry_name_def git_path_isvalid_def flag_def split: if_splits)
  moreover have "flag (dotgit_flags (Some (fst repo)) ?f) GIT_PATH_REJECT_SLASH"
    by (auto simp: dotgit_flags_def Let_def flag_or flag_def split: prod.splits)
  ultimately have "47 \<notin> set (cstr (cstr name))" by (rule isvalid_loop_slash)
  then show ?thesis by simp
qed

lemma builder_plain:
  assumes "builder_ok bld"
  shows "\<forall>e\<in>set (map snd (bld_map bld)). plain_entry e"
proof
  fix e assume "e \<in> set (map snd (bld_map bld))"
  then obtain k where k: "(k, e) \<in> set (bld_map bld)" by auto
  then have e: "full_entry e" "entry_name e = k" "valid_entry_name (bld_repo bld) k = Some True" using assms by (auto simp: builder_ok_def)
  have "0 \<notin> set k" using e(1,2) by (auto simp: full_entry_def wf_entry_def)
  then have "cstr k = k" by (simp add: cstr_id)
  then show "plain_entry e" using e valid_entry_name_no_slash [OF e(3)] by (simp add: plain_entry_def)
qed

lemma write_data:
  assumes env: "alloc_env al" "cells_env cells" and ok: "\<forall>e\<in>set es. plain_entry e" and n: "length es \<le> TSORT_LIMIT"
    and bld: "map snd (bld_map bld) = es"
  shows "\<exists>ys. mset ys = mset es \<and> sorted_by entry_sort_cmp ys \<and>
    git_treebuilder_write al cells (0, odb) bld =
      (let (err, oid) = odb (concat (map entry_bytes ys)) in Some (err, Some oid))"
proof -
  let ?n = "length es" and ?cmp = "tree_ptr_cmp es"
  let ?v0 = "\<lparr>v_alloc_size = 0, v_cmp = Some ?cmp, v_contents = [], v_length = 0, v_flags = GIT_VECTOR_SORTED\<rparr>"
  have al: "good_alloc al" "total_alloc al" "good_alloc cells" "total_alloc cells"
    using env by (auto simp: alloc_env_def cells_env_def)
  have small: "?n \<le> 4096" using n by (simp add: TSORT_LIMIT_def)
  have cm: "total_cmp ?cmp" by (rule total_tree_ptr_cmp [OF ok])
  obtain v where v: "git_vector_init cells ?n (Some ?cmp) = Some (0, v)" "vec_wf v" "items v = []" "v_length v = 0" "v_cmp v = Some ?cmp"
    using resize_vector_spec [OF al(3), of ?v0 "max ?n MIN_ALLOCSIZE"] al(4) small
    by (auto simp: git_vector_init_def vec_wf_def items_def MIN_ALLOCSIZE_def)
  have "flag_ok v" using v(3) by (simp add: flag_ok_def)
  then obtain w where w: "insert_pointers cells [0..<?n] v = Some (0, w)" "vec_wf w" "flag_ok w" "v_cmp w = Some ?cmp"
      "items w = map Some [0..<?n]"
    using insert_pointers_ok [OF env(2) v(2), of "[0..<?n]"] v small by (auto simp: VEC_LIMIT_def)
  have lw: "v_length w = ?n" using arg_cong [OF w(5), of length] w(2) by simp
  obtain u where u: "git_vector_sort cells w = Some u" "vec_wf u" "v_length u = ?n" "sorted_by ?cmp (items u)"
      "stable_eq ?cmp (items w) (items u)"
    using git_vector_sort_spec [OF env(2) w(2,3)] w(4) cm n lw by auto
  define ys where "ys = map (tree_deref es) (items u)"
  have get: "map (\<lambda>i. tree_deref es (git_vector_get u i)) [0..<v_length u] = ys"
  proof -
    have "v_length u \<le> length (v_contents u)" using u(2) by (simp add: vec_wf_def)
    then have g: "map (git_vector_get u) [0..<v_length u] = items u"
      by (intro nth_equalityI) (simp_all add: git_vector_get_def items_def)
    show ?thesis unfolding ys_def g [symmetric] by simp
  qed
  have "mset (items u) = mset (items w)" using stable_eq_mset [OF cm u(5)] by simp
  then have "mset ys = mset (map (tree_deref es) (map Some [0..<?n]))" unfolding ys_def w(5) by (metis mset_map)
  moreover have "map (tree_deref es) (map Some [0..<?n]) = es" by (intro nth_equalityI) (simp_all add: tree_deref_def)
  ultimately have ms: "mset ys = mset es" by (simp only:)
  have sorted: "sorted_by entry_sort_cmp ys"
    using u(4) unfolding ys_def by (simp add: sorted_wrt_map tree_ptr_cmp_def)
  have set: "set ys = set es" using ms by (rule mset_eq_setD)
  have len: "length ys \<le> 4096" using ms small by (metis size_mset)
  obtain b where b: "git_buf_grow al GIT_BUF_INIT (?n * 72 mod 2 ^ 64) = Some (0, b)" "buf_wf b" "content b = []"
    using git_buf_try_grow_wf [OF al(1) buf_wf_INIT, of "?n * 72 mod 2 ^ 64" True] al(2) small
    by (auto simp: git_buf_grow_def BUF_LIMIT_def)
  obtain c where c: "write_entries al ys 0 b = Some (0, c)" "buf_wf c" "content c = concat (map entry_bytes ys)"
    using write_entries_ok [OF env(1) b(2), of ys] ok set len b(3) by (auto simp: BUF_LIMIT_def plain_entry_def)
  have load: "buf_load c 0 (buf_size c) = Some (concat (map entry_bytes ys))"
    using buf_load_content [OF c(2), of 0 "buf_size c"] c(3) length_content [OF c(2)] by simp
  have "git_treebuilder_write al cells (0, odb) bld =
      (let (err, oid) = odb (concat (map entry_bytes ys)) in Some (err, Some oid))"
    unfolding git_treebuilder_write_def bld Let_def using v(1) w(1) u(1) b(1) c(1) load get by simp
  then show ?thesis using ms sorted by blast
qed

section \<open>The map of the builder\<close>

text \<open>What a directory of named entries promises: an invariant and the laws of a map. \<open>key\<close> gives the name a string stands for.\<close>

locale directory =
  fixes inv :: "'d \<Rightarrow> bool"
    and look :: "'d \<Rightarrow> byte list \<Rightarrow> 'e option"
    and put :: "'d \<Rightarrow> byte list \<Rightarrow> 'v \<Rightarrow> 'd option"
    and del :: "'d \<Rightarrow> byte list \<Rightarrow> 'd"
    and key :: "byte list \<Rightarrow> byte list"
    and stores :: "byte list \<Rightarrow> 'v \<Rightarrow> 'e \<Rightarrow> bool"
  assumes look_key: "key j = key k \<Longrightarrow> look d j = look d k"
    and put_law: "inv d \<Longrightarrow> put d k v = Some d' \<Longrightarrow>
      inv d' \<and> (\<exists>e. look d' k = Some e \<and> stores (key k) v e) \<and> (\<forall>j. key j \<noteq> key k \<longrightarrow> look d' j = look d j)"
    and del_law: "inv d \<Longrightarrow> inv (del d k) \<and> look (del d k) k = None \<and> (\<forall>j. key j \<noteq> key k \<longrightarrow> look (del d k) j = look d j)"
begin

lemma put_look: "inv d \<Longrightarrow> put d k v = Some d' \<Longrightarrow> inv d' \<and> (\<exists>e. look d' k = Some e \<and> stores (key k) v e)"
  using put_law by blast

lemma put_other: "inv d \<Longrightarrow> put d k v = Some d' \<Longrightarrow> key j \<noteq> key k \<Longrightarrow> look d' j = look d j"
  using put_law by blast

text \<open>Putting a name and deleting it again is deleting it.\<close>

lemma put_del:
  assumes "inv d" and "put d k v = Some d'"
  shows "inv (del d' k) \<and> look (del d' k) = look (del d k)"
proof
  have d': "inv d'" using put_law [OF assms] by blast
  show "inv (del d' k)" using del_law [OF d'] by blast
  show "look (del d' k) = look (del d k)"
  proof
    fix j
    show "look (del d' k) j = look (del d k) j"
    proof (cases "key j = key k")
      case True
      then show ?thesis using del_law [OF d', of k] del_law [OF assms(1), of k] look_key [OF True] by simp
    next
      case False
      then show ?thesis using del_law [OF d', of k] del_law [OF assms(1), of k] put_other [OF assms False] by simp
    qed
  qed
qed

end

lemma alloc_entry_full:
  assumes "alloc_entry ok name oid = Some e" "0 \<notin> set name" "length name < 65536"
  shows "full_entry (e\<lparr>te_attr := a\<rparr>)" "entry_name (e\<lparr>te_attr := a\<rparr>) = name" "tree_view (e\<lparr>te_attr := a\<rparr>) = (a, name, oid_id oid)"
proof -
  define x where "x = e\<lparr>te_attr := a\<rparr>"
  have x: "te_attr x = a" "te_filename x = name @ 0 # oid_id oid" "te_oid x = oid_id oid" "name_len x = length name"
    using assms by (auto simp: x_def alloc_entry_def name_len_def unat_of_nat split: if_splits)
  have nm: "entry_name x = name" by (simp add: entry_name_def x)
  show "full_entry x" "entry_name x = name" "tree_view x = (a, name, oid_id oid)"
    using assms(2) by (auto simp: full_entry_def wf_entry_def tree_view_def nm x)
qed

lemma update_entry_full:
  assumes "full_entry e"
    and x_def: "x = e\<lparr>te_oid := oid_id oid, te_filename := take (name_len e + 1) (te_filename e) @ oid_id oid, te_attr := a\<rparr>"
  shows "full_entry x" "entry_name x = entry_name e" "tree_view x = (a, entry_name e, oid_id oid)"
proof -
  obtain r where e: "te_filename e = entry_name e @ 0 # r" "length (entry_name e) = name_len e" "0 \<notin> set (entry_name e)"
    using assms(1) by (auto simp: full_entry_def elim: wf_entryE)
  have "take (name_len e + 1) (entry_name e @ 0 # r) = entry_name e @ [0]" using e(2) by simp
  then have x: "te_attr x = a" "te_filename x = entry_name e @ 0 # oid_id oid" "te_oid x = oid_id oid" "name_len x = name_len e"
    unfolding x_def e(1) by (simp_all add: name_len_def)
  then have nm: "entry_name x = entry_name e" using e(2) by (simp add: entry_name_def [of x])
  show "full_entry x" "entry_name x = entry_name e" "tree_view x = (a, entry_name e, oid_id oid)"
    using e(2,3) by (auto simp: full_entry_def wf_entry_def tree_view_def nm x)
qed

lemma set_update_cases: "(j, x) \<in> set (AList.update k e xs) \<Longrightarrow> (j, x) = (k, e) \<or> (j, x) \<in> set xs"
  by (induction xs) (auto split: if_splits)

lemma builder_ok_insert:
  assumes "builder_ok bld" "full_entry e" "entry_name e = k" "valid_entry_name (bld_repo bld) k = Some True"
  shows "builder_ok (strmap_insert k e bld)"
proof -
  have "distinct (map fst (AList.update k e (bld_map bld)))" using assms(1) distinct_update [of "bld_map bld" k e] by (simp add: builder_ok_def)
  moreover have "(j, x) = (k, e) \<or> (j, x) \<in> set (bld_map bld)" if "(j, x) \<in> set (AList.update k e (bld_map bld))" for j x
    using that set_update_cases [of j x k e "bld_map bld"] by blast
  ultimately show ?thesis using assms by (fastforce simp: builder_ok_def strmap_insert_def)
qed

definition put_name ::
    "bool \<times> bool \<Rightarrow> (git_oid \<Rightarrow> git_otype \<Rightarrow> bool) \<Rightarrow> git_treebuilder \<Rightarrow> byte list \<Rightarrow> git_oid \<times> u32 \<Rightarrow> git_treebuilder option" where
  "put_name ok is_valid bld name v =
     (if cstrlen name \<ge> 65536 then None
      else case git_treebuilder_insert ok is_valid bld name (fst v) (snd v) of
             Some (r, e, bld') \<Rightarrow> if r = 0 then Some bld' else None
           | None \<Rightarrow> None)"

lemma git_treebuilder_insert_spec:
  assumes ok: "builder_ok bld" and len: "cstrlen name < 65536"
    and ins: "git_treebuilder_insert ok is_valid bld name oid mode = Some (r, e, bld')"
  shows "(r = 0 \<and> builder_ok bld' \<and> valid_filemode mode \<and> git_treebuilder_get bld' name = e \<and>
       (\<exists>x. e = Some x \<and> tree_view x = (ucast mode, cstr name, oid_id oid)) \<and>
       (\<forall>j. cstr j \<noteq> cstr name \<longrightarrow> git_treebuilder_get bld' j = git_treebuilder_get bld j)) \<or>
     (r = -1 \<and> bld' = bld)"
proof (cases "r = -1 \<and> bld' = bld")
  case False
  have v: "valid_filemode mode" "valid_entry_name (bld_repo bld) name = Some True"
    using ins False by (auto simp: git_treebuilder_insert_def Option.bind_eq_Some_conv split: if_splits)
  then have k: "valid_entry_name (bld_repo bld) (cstr name) = Some True"
    by (cases "cstr name") (auto simp: valid_entry_name_def cstr_def peek_def split: list.splits if_splits)
  have "\<exists>x. e = Some x \<and> r = 0 \<and> bld' = strmap_insert (cstr name) x bld \<and> full_entry x \<and> entry_name x = cstr name \<and>
      tree_view x = (ucast mode, cstr name, oid_id oid)"
  proof (cases "map_of (bld_map bld) (cstr name)")
    case None
    then obtain y where y: "alloc_entry (fst ok) (cstr name) oid = Some y" "r = 0" "e = Some (y\<lparr>te_attr := ucast mode\<rparr>)"
        "bld' = strmap_insert (cstr name) (y\<lparr>te_attr := ucast mode\<rparr>) bld"
      using ins False v by (auto simp: git_treebuilder_insert_def Let_def split: if_splits option.splits)
    then show ?thesis using alloc_entry_full [OF y(1), of "ucast mode"] len by (auto simp: cstrlen_def)
  next
    case (Some y)
    then have y: "full_entry y" "entry_name y = cstr name" using ok map_of_SomeD [OF Some] by (auto simp: builder_ok_def)
    then show ?thesis using ins False v Some update_entry_full [OF y(1) refl, where oid = oid and a = "ucast mode"]
      by (auto simp: git_treebuilder_insert_def Let_def split: if_splits)
  qed
  then obtain x where x: "e = Some x" "r = 0" "bld' = strmap_insert (cstr name) x bld" "full_entry x" "entry_name x = cstr name"
      "tree_view x = (ucast mode, cstr name, oid_id oid)" by blast
  have "builder_ok bld'" unfolding x(3) by (rule builder_ok_insert [OF ok x(4,5) k])
  moreover have "git_treebuilder_get bld' j = (if cstr j = cstr name then Some x else git_treebuilder_get bld j)" for j
    by (simp add: git_treebuilder_get_def x(3) strmap_insert_def update_conv)
  ultimately show ?thesis using x(1,2,6) v(1) by simp
qed blast

lemma git_treebuilder_remove_spec:
  assumes "builder_ok bld"
  shows "builder_ok (snd (git_treebuilder_remove bld name)) \<and>
    git_treebuilder_get (snd (git_treebuilder_remove bld name)) j = (if cstr j = cstr name then None else git_treebuilder_get bld j)"
proof -
  have "builder_ok (bld\<lparr>bld_map := AList.delete (cstr name) (bld_map bld)\<rparr>)"
    using assms by (auto simp: builder_ok_def AList.delete_eq distinct_map_filter intro: distinct_map_filter)
  then show ?thesis using assms by (auto simp: git_treebuilder_remove_def git_treebuilder_get_def delete_conv)
qed

interpretation treebuilder: directory builder_ok git_treebuilder_get "put_name ok is_valid"
  "\<lambda>bld name. snd (git_treebuilder_remove bld name)" cstr "\<lambda>k v e. tree_view e = (ucast (snd v), k, oid_id (fst v))"
proof unfold_locales
  fix d :: git_treebuilder and k j :: "byte list" and v :: "git_oid \<times> u32" and d' :: git_treebuilder
  show "git_treebuilder_get d j = git_treebuilder_get d k" if "cstr j = cstr k" using that by (simp add: git_treebuilder_get_def)
  assume d: "builder_ok d"
  show "builder_ok d' \<and> (\<exists>e. git_treebuilder_get d' k = Some e \<and> tree_view e = (ucast (snd v), cstr k, oid_id (fst v))) \<and>
      (\<forall>j. cstr j \<noteq> cstr k \<longrightarrow> git_treebuilder_get d' j = git_treebuilder_get d j)" if p: "put_name ok is_valid d k v = Some d'"
  proof -
    obtain e where e: "git_treebuilder_insert ok is_valid d k (fst v) (snd v) = Some (0, e, d')" "cstrlen k < 65536"
      using p by (auto simp: put_name_def split: if_splits option.splits)
    show ?thesis using git_treebuilder_insert_spec [OF d e(2,1)] by auto
  qed
  show "builder_ok (snd (git_treebuilder_remove d k)) \<and> git_treebuilder_get (snd (git_treebuilder_remove d k)) k = None \<and>
      (\<forall>j. cstr j \<noteq> cstr k \<longrightarrow> git_treebuilder_get (snd (git_treebuilder_remove d k)) j = git_treebuilder_get d j)"
    using git_treebuilder_remove_spec [OF d] by simp
qed

section \<open>Paths\<close>

text \<open>A tree as Git writes it: complete entries in order, each name once.\<close>

definition good_tree :: "git_tree_entry list \<Rightarrow> bool" where
  "good_tree t \<longleftrightarrow> (\<forall>e\<in>set t. full_entry e) \<and> sorted_by entry_sort_cmp t \<and> distinct (map entry_name t)"

definition named :: "git_tree_entry list \<Rightarrow> byte list \<Rightarrow> git_tree_entry option" where
  "named t = map_of (map (\<lambda>e. (entry_name e, e)) t)"

text \<open>The entry at the end of a list of names.\<close>

fun resolve_path :: "(git_oid \<Rightarrow> git_tree_entry list option) \<Rightarrow> git_tree_entry list \<Rightarrow> byte list list \<Rightarrow> git_tree_entry option" where
  "resolve_path lookup t [] = None"
| "resolve_path lookup t [c] = named t c"
| "resolve_path lookup t (c # d # cs) = do {
     e \<leftarrow> named t c;
     if git_tree_entry__is_tree e then do {
       oid \<leftarrow> git_tree_entry_id e;
       sub \<leftarrow> lookup oid;
       resolve_path lookup sub (d # cs) }
     else None }"

fun join_path :: "byte list list \<Rightarrow> byte list" where
  "join_path [] = []"
| "join_path [c] = c"
| "join_path (c # d # cs) = c @ 47 # join_path (d # cs)"

lemma entry_fromname_named:
  assumes "good_tree t" and "n \<le> length name"
  shows "entry_fromname t name n = Some (named t (take n name))"
proof -
  have wf: "\<forall>e\<in>set t. wf_entry e" using assms(1) by (auto simp: good_tree_def full_entry_def)
  have dist: "distinct (map fst (map (\<lambda>e. (entry_name e, e)) t))" using assms(1) by (simp add: good_tree_def comp_def)
  obtain r where r: "entry_fromname t name n = Some r"
      "case r of Some e \<Rightarrow> e \<in> set t \<and> entry_name e = take n name | None \<Rightarrow> \<forall>e\<in>set t. entry_name e \<noteq> take n name"
    using entry_fromname_spec [OF wf _ assms(2)] assms(1) by (auto simp: good_tree_def)
  show ?thesis
  proof (cases r)
    case None
    then have "named t (take n name) = None" using r(2) by (auto simp: named_def map_of_eq_None_iff)
    then show ?thesis using r(1) None by simp
  next
    case (Some e)
    then have "(take n name, e) \<in> set (map (\<lambda>e. (entry_name e, e)) t)" using r(2) by force
    then have "named t (take n name) = Some e" unfolding named_def using map_of_is_SomeI [OF dist] by blast
    then show ?thesis using r(1) Some by simp
  qed
qed

lemma named_full: "good_tree t \<Longrightarrow> named t c = Some e \<Longrightarrow> full_entry e"
  unfolding named_def by (drule map_of_SomeD) (auto simp: good_tree_def)

lemma git_tree_entry_dup_view:
  assumes "full_entry e"
  shows "\<exists>x. git_tree_entry_dup True e = Some (0, Some x) \<and> tree_view x = tree_view e"
proof -
  have e: "length (entry_name e) = name_len e" "0 \<notin> set (entry_name e)" "GIT_OID_RAWSZ \<le> length (te_oid e)"
    using assms by (auto simp: full_entry_def elim: wf_entryE)
  have nm: "length (entry_name e) < 65536" using e(1) unsigned_less [of "te_filename_len e", where ?'a = nat] by (simp add: name_len_def)
  obtain c where c: "alloc_entry True (entry_name e) (oid_of (take GIT_OID_RAWSZ (te_oid e))) = Some c" by (simp add: alloc_entry_def)
  show ?thesis using alloc_entry_full(3) [OF c e(2) nm, of "te_attr e"] c e(3)
    by (simp add: git_tree_entry_dup_def git_tree_entry_id_def entry_name_def [symmetric] tree_view_def)
qed

lemma subpath_component:
  assumes "0 \<notin> set c" "47 \<notin> set c"
  shows "subpath_len (c @ 47 # r) = length c" "subpath_len c = length c"
proof -
  have "cstr (c @ 47 # r) = c @ 47 # cstr r" using assms(1) by (induction c) auto
  moreover have "takeWhile (\<lambda>c. c \<noteq> 47) (c @ 47 # cstr r) = c" using assms(2) by (subst takeWhile_append2) auto
  ultimately show "subpath_len (c @ 47 # r) = length c" by (simp add: subpath_len_def)
  show "subpath_len c = length c" unfolding subpath_len_def cstr_id [OF assms(1)] using assms(2) by (induction c) auto
qed

lemma bypath_resolve:
  "\<forall>oid t. lookup oid = Some t \<longrightarrow> good_tree t \<Longrightarrow> good_tree root \<Longrightarrow> comps \<noteq> [] \<Longrightarrow> \<forall>c\<in>set comps. c \<noteq> [] \<and> 0 \<notin> set c \<and> 47 \<notin> set c \<Longrightarrow>
    \<exists>r x. git_tree_entry_bypath lookup True root (join_path comps) = Some (r, x) \<and> (r = 0 \<longleftrightarrow> x \<noteq> None) \<and>
      map_option tree_view x = map_option tree_view (resolve_path lookup root comps)"
proof (induction lookup root comps rule: resolve_path.induct)
  case prems: (2 lookup t c)
  then have c: "c \<noteq> []" "0 \<notin> set c" "47 \<notin> set c" by auto
  have n: "subpath_len c = length c" by (rule subpath_component(2) [OF c(2,3)])
  have look: "entry_fromname t c (length c) = Some (named t c)" using entry_fromname_named [OF prems(2), of "length c" c] by simp
  show ?case
  proof (cases "named t c")
    case None
    then show ?thesis using c look n by (simp add: git_tree_entry_bypath.simps [of _ _ _ c])
  next
    case (Some e)
    then have "full_entry e" using named_full [OF prems(2)] by blast
    from git_tree_entry_dup_view [OF this] show ?thesis
      using c look n Some by (auto simp: git_tree_entry_bypath.simps [of _ _ _ c])
  qed
next
  case prems: (3 lookup t c d cs)
  then have c: "c \<noteq> []" "0 \<notin> set c" "47 \<notin> set c" and d: "d \<noteq> []" "0 \<notin> set d" by auto
  let ?rest = "join_path (d # cs)"
  have n: "subpath_len (c @ 47 # ?rest) = length c" by (rule subpath_component(1) [OF c(2,3)])
  have look: "entry_fromname t (c @ 47 # ?rest) (length c) = Some (named t c)"
    using entry_fromname_named [OF prems(3), of "length c" "c @ 47 # ?rest"] by simp
  have "?rest \<noteq> [] \<and> hd ?rest \<noteq> 0" using d by (cases cs; cases d) auto
  then have peek: "peek ?rest \<noteq> 0" by (cases ?rest) auto
  have drops: "drop (length c) (c @ 47 # ?rest) = 47 # ?rest" "drop (length c + 1) (c @ 47 # ?rest) = ?rest" by simp_all
  have n0: "length c \<noteq> 0" using c by simp
  note step = git_tree_entry_bypath.simps [of lookup True t "c @ 47 # ?rest", unfolded n Let_def drops if_not_P [OF n0] look option.case]
  have join: "join_path (c # d # cs) = c @ 47 # ?rest" by simp
  show ?case
  proof (cases "\<exists>e. named t c = Some e \<and> git_tree_entry__is_tree e")
    case False
    then show ?thesis unfolding join using step by (cases "named t c") auto
  next
    case True
    then obtain e where e: "named t c = Some e" "git_tree_entry__is_tree e" by blast
    then have "full_entry e" using named_full [OF prems(3)] by blast
    then obtain oid where oid: "git_tree_entry_id e = Some oid" by (auto simp: full_entry_def git_tree_entry_id_def)
    show ?thesis
    proof (cases "lookup oid")
      case None
      then show ?thesis unfolding join using step e oid peek by simp
    next
      case (Some sub)
      have g: "good_tree sub" using prems(2) Some by blast
      have "\<forall>c\<in>set (d # cs). c \<noteq> [] \<and> 0 \<notin> set c \<and> 47 \<notin> set c" using prems(5) by simp
      from prems(1) [OF e oid Some prems(2) g _ this] show ?thesis unfolding join using step e oid peek Some by simp
    qed
  qed
qed simp

section \<open>Properties\<close>

lemma take_cstrlen: "take (cstrlen s) s = cstr s"
  by (induction s) (auto simp: cstrlen_def)

lemma cstrlen_le: "cstrlen s \<le> length s"
  by (simp add: cstrlen_def cstr_def length_takeWhile_le)

text \<open>The views of the entries by their names.\<close>

definition views :: "git_tree_entry list \<Rightarrow> (byte list \<times> 16 word \<times> byte list \<times> byte list) list" where
  "views es = map (\<lambda>e. (entry_name e, tree_view e)) es"

lemma named_views: "map_option tree_view (named es k) = map_of (views es) k"
  by (induction es) (auto simp: named_def views_def)

lemma views_eq: "map tree_view xs = map tree_view ys \<Longrightarrow> views xs = views ys"
proof -
  assume eq: "map tree_view xs = map tree_view ys"
  have v: "views zs = map (\<lambda>v. (fst (snd v), v)) (map tree_view zs)" for zs by (simp add: views_def tree_view_def)
  show ?thesis unfolding v [of xs] v [of ys] eq ..
qed

lemma builder_views:
  assumes "builder_ok bld"
  shows "map_option tree_view (git_treebuilder_get bld name) = map_of (views (map snd (bld_map bld))) (cstr name)"
proof -
  have "views (map snd m) = map (\<lambda>(k, e). (k, tree_view e)) m" if "\<forall>(k, e)\<in>set m. entry_name e = k" for m
    using that by (induction m) (auto simp: views_def)
  moreover have "\<forall>(k, e)\<in>set (bld_map bld). entry_name e = k" using assms by (auto simp: builder_ok_def)
  ultimately show ?thesis by (simp add: git_treebuilder_get_def map_of_map)
qed

text \<open>The order of Git over a whole tree: the name of a tree counts as if a slash ended it, any other name as if a NUL did.\<close>

lemma ucast_up_inj: "(ucast (x :: 16 word) :: u32) = ucast y \<longleftrightarrow> x = y"
  by (simp add: word_uint_eq_iff uint_up_ucast is_up)

lemma entry_key_bytes:
  "entry_key e = entry_name e @ [if te_attr e AND 0xF000 = 0x4000 then 47 else 0]"
proof -
  have "(ucast (te_attr e) AND 0xF000 = (0x4000 :: u32)) = (te_attr e AND 0xF000 = 0x4000)"
    using ucast_up_inj [of "te_attr e AND 0xF000" "0x4000"] by (simp add: unsigned_and_eq)
  then show ?thesis
    by (auto simp: entry_key_def sort_key_def git_tree_entry__is_tree_def entry_mode_def GIT_MODE_TYPE_def)
qed

lemma good_tree_order:
  assumes "good_tree es" and "\<forall>e\<in>set es. 47 \<notin> set (entry_name e)"
  shows "sorted_wrt (\<lambda>a b. ord_class.lexordp (entry_key a) (entry_key b)) es"
proof -
  have "ord_class.lexordp (entry_key (es ! i)) (entry_key (es ! j))" if ij: "i < j" "j < length es" for i j
  proof -
    have w: "wf_entry (es ! i)" "wf_entry (es ! j)" "47 \<notin> set (entry_name (es ! i))" "47 \<notin> set (entry_name (es ! j))"
      using assms ij by (auto simp: good_tree_def full_entry_def)
    have "entry_name (es ! i) \<noteq> entry_name (es ! j)"
      using assms(1) ij nth_eq_iff_index_eq [of "map entry_name es" i j] by (simp add: good_tree_def)
    then have "entry_sort_cmp (es ! i) (es ! j) \<noteq> 0"
      using entry_sort_cmp_key(2) [OF w] by (auto simp: entry_key_def sort_key_def)
    moreover have "entry_sort_cmp (es ! i) (es ! j) \<le> 0"
      using sorted_wrt_nthD [OF _ ij, of "\<lambda>a b. entry_sort_cmp a b \<le> 0"] assms(1) by (simp add: good_tree_def)
    ultimately show ?thesis using entry_sort_cmp_key(1) [OF w] by simp
  qed
  then show ?thesis by (simp add: sorted_wrt_iff_nth_less)
qed

text \<open>C27: The tree that \<open>git_treebuilder_write\<close> hands to the object database, for a builder of at most 4096 entries
  (\<open>TSORT_LIMIT\<close>, as far as the sort is proved), is read back by \<open>git_tree__parse\<close>: the parsed entries are strictly in the
  order of Git, by the unsigned bytes of the names with a slash behind the name of a directory and a NUL behind any other,
  each name is there once, and a name finds in them what it finds in the builder.\<close>

theorem git_treebuilder_write_parse:
  assumes env: "alloc_env al" "cells_env cells" and ok: "builder_ok bld" and n: "git_treebuilder_entrycount bld \<le> TSORT_LIMIT"
    and grow: "\<forall>n. grow_ok n"
  shows "\<exists>data es. git_treebuilder_write al cells (0, odb) bld = (let (err, oid) = odb data in Some (err, Some oid)) \<and>
    git_tree__parse grow_ok data = (0, es) \<and> good_tree es \<and> length es = git_treebuilder_entrycount bld \<and>
    sorted_wrt (\<lambda>a b. ord_class.lexordp (entry_name a @ [if te_attr a AND 0xF000 = 0x4000 then 47 else 0])
      (entry_name b @ [if te_attr b AND 0xF000 = 0x4000 then 47 else 0])) es \<and>
    (\<forall>name. \<exists>x. git_tree_entry_byname es name = Some x \<and>
       map_option tree_view x = map_option tree_view (git_treebuilder_get bld name))"
proof -
  let ?es = "map snd (bld_map bld)"
  have plain: "\<forall>e\<in>set ?es. plain_entry e" by (rule builder_plain [OF ok])
  obtain ys where ys: "mset ys = mset ?es" "sorted_by entry_sort_cmp ys"
      "git_treebuilder_write al cells (0, odb) bld = (let (err, oid) = odb (concat (map entry_bytes ys)) in Some (err, Some oid))"
    using write_data [OF env plain _ refl] n by (auto simp: git_treebuilder_entrycount_def)
  have set: "set ys = set ?es" using ys(1) by (rule mset_eq_setD)
  have len: "length ys = git_treebuilder_entrycount bld" using ys(1) by (metis size_mset length_map git_treebuilder_entrycount_def)
  have full: "\<forall>e\<in>set ys. full_entry e" using plain set by (auto simp: plain_entry_def)
  obtain es where es: "tree_parse_loop grow_ok DEFAULT_TREE_SIZE [] (concat (map entry_bytes ys)) = (0, es)"
      "map tree_view es = map tree_view ys" "\<forall>e\<in>set es. full_entry e"
    using tree_parse_entries [of grow_ok ys "[]" DEFAULT_TREE_SIZE] grow full len n by (auto simp: TSORT_LIMIT_def)
  have parse: "git_tree__parse grow_ok (concat (map entry_bytes ys)) = (0, es)" using es(1) grow by (simp add: git_tree__parse_def)
  have v: "views es = views ys" by (rule views_eq [OF es(2)])
  have "distinct (map fst (bld_map bld))" using ok by (simp add: builder_ok_def)
  moreover have "map fst (bld_map bld) = map entry_name ?es" using ok by (auto simp: builder_ok_def)
  ultimately have dist: "distinct (map entry_name ?es)" by simp
  have "mset (map entry_name ys) = mset (map entry_name ?es)" using ys(1) by (metis mset_map)
  then have dy: "distinct (map entry_name ys)" using dist by (metis mset_eq_imp_distinct_iff)
  moreover have names: "map entry_name es = map entry_name ys" using arg_cong [OF v, of "map fst"] by (simp add: views_def comp_def)
  ultimately have "distinct (map entry_name es)" by simp
  moreover have "sorted_by entry_sort_cmp es"
    using sorted_by_view [OF es(2) _ _ ys(2)] es(3) plain set by (auto simp: full_entry_def)
  ultimately have good: "good_tree es" using es(3) by (simp add: good_tree_def)
  have "\<forall>e\<in>set es. 47 \<notin> set (entry_name e)"
  proof
    fix e
    assume "e \<in> set es"
    then have "entry_name e \<in> set (map entry_name ys)" unfolding names [symmetric] by simp
    then obtain y where "y \<in> set ys" "entry_name e = entry_name y" by auto
    then show "47 \<notin> set (entry_name e)" using bspec [OF plain, of y] set by (simp add: plain_entry_def)
  qed
  note order = good_tree_order [OF good this, unfolded entry_key_bytes]
  have "map_of (views ys) = map_of (views ?es)"
    using dist dy set by (subst map_of_inject_set) (auto simp: views_def comp_def)
  then have "\<exists>x. git_tree_entry_byname es name = Some x \<and> map_option tree_view x = map_option tree_view (git_treebuilder_get bld name)" for name
    using entry_fromname_named [OF good, of "cstrlen name" name] named_views [of es "cstr name"] builder_views [OF ok, of name] v
    by (simp add: git_tree_entry_byname_def take_cstrlen cstrlen_le)
  moreover have "length es = git_treebuilder_entrycount bld" using arg_cong [OF es(2), of length] len by simp
  ultimately show ?thesis using ys(3) parse good order by blast
qed

definition example_entry :: "16 word \<Rightarrow> byte \<Rightarrow> git_tree_entry" where
  "example_entry attr c = \<lparr>te_attr = attr, te_filename_len = 1, te_oid = replicate 20 c, te_filename = c # 0 # replicate 20 c\<rparr>"

definition example_builder :: git_treebuilder where
  "example_builder = \<lparr>bld_repo = ((True, True), reserved_names_win32),
     bld_map = [([98], example_entry 0x4000 98), ([97], example_entry 0x81A4 97)]\<rparr>"

lemma example_entry_facts:
  "c \<noteq> 0 \<Longrightarrow> full_entry (example_entry attr c) \<and> entry_name (example_entry attr c) = [c] \<and>
    tree_view (example_entry attr c) = (attr, [c], replicate 20 c)"
  by (auto simp: example_entry_def full_entry_def wf_entry_def entry_name_def name_len_def tree_view_def)

lemma example_builder_ok: "builder_ok example_builder"
proof -
  have "valid_entry_name ((True, True), reserved_names_win32) [98] = Some True"
    "valid_entry_name ((True, True), reserved_names_win32) [97] = Some True" by code_simp+
  then show ?thesis using example_entry_facts [of 98 "0x4000"] example_entry_facts [of 97 "0x81A4"]
    by (simp add: builder_ok_def example_builder_def)
qed

theorem git_treebuilder_write_parse_witness:
  "\<exists>data es e. git_treebuilder_write (fill_alloc 0) (fill_alloc None) (0, \<lambda>d. (0, oid_of d)) example_builder = Some (0, Some (oid_of data)) \<and>
     git_tree__parse (\<lambda>_. True) data = (0, es) \<and> length es = 2 \<and>
     git_tree_entry_byname es [97] = Some (Some e) \<and> tree_view e = (0x81A4, [97], replicate 20 97)"
proof -
  have n: "git_treebuilder_entrycount example_builder = 2" by (simp add: git_treebuilder_entrycount_def example_builder_def)
  have g: "git_treebuilder_get example_builder [97] = Some (example_entry 0x81A4 97)"
    by (simp add: git_treebuilder_get_def example_builder_def)
  have env: "cells_env (fill_alloc None)" by (simp add: cells_env_def)
  obtain data es where w: "git_treebuilder_write (fill_alloc 0) (fill_alloc None) (0, \<lambda>d. (0, oid_of d)) example_builder =
        (let (err, oid) = (0, oid_of data) in Some (err, Some oid))"
      "git_tree__parse (\<lambda>_. True) data = (0, es)" "length es = 2"
      "\<forall>name. \<exists>x. git_tree_entry_byname es name = Some x \<and>
         map_option tree_view x = map_option tree_view (git_treebuilder_get example_builder name)"
    using git_treebuilder_write_parse [of "fill_alloc 0" "fill_alloc None" example_builder "\<lambda>_. True" "\<lambda>d. (0, oid_of d)"]
      env example_builder_ok n by (auto simp: TSORT_LIMIT_def)
  obtain x where "git_tree_entry_byname es [97] = Some x" "map_option tree_view x = Some (0x81A4, [97], replicate 20 97)"
    using w(4) [rule_format, of "[97]"] g example_entry_facts [of 97 "0x81A4"] by auto
  then show ?thesis using w(1-3) by (cases x) auto
qed

text \<open>C28: In a tree whose entries are in order, the search for a name (the binary search by common prefix and the linear
  search around the place it finds) gives an entry of that name exactly if there is one, for names of any length.\<close>

theorem entry_fromname_finds:
  assumes "\<forall>e\<in>set es. wf_entry e" and "sorted_by entry_sort_cmp es" and "n \<le> length name"
  shows "\<exists>r. entry_fromname es name n = Some r \<and>
    (case r of Some e \<Rightarrow> e \<in> set es \<and> entry_name e = take n name | None \<Rightarrow> \<forall>e\<in>set es. entry_name e \<noteq> take n name)"
  by (rule entry_fromname_spec [OF assms])

theorem entry_fromname_finds_witness:
  "\<exists>r. entry_fromname [example_entry 0x81A4 97, example_entry 0x4000 98] [98, 47] 1 = Some (Some r) \<and> entry_name r = [98]"
proof -
  have s: "sorted_by entry_sort_cmp [example_entry 0x81A4 97, example_entry 0x4000 98]"
    by (simp add: entry_sort_cmp_def example_entry_def git_path_cmp_def name_len_def)
  show ?thesis
    using entry_fromname_finds [OF _ s, of 1 "[98, 47]"] example_entry_facts [of 98 "0x4000"] example_entry_facts [of 97 "0x81A4"]
    by (auto simp: full_entry_def split: option.splits)
qed

text \<open>C29: Looking up a path from a tree gives a copy of the entry that the names of the path lead to, and fails exactly if they
  lead nowhere: a name is missing, something before the end is no tree, or a tree is not in the database.\<close>

theorem git_tree_entry_bypath_resolves:
  assumes "\<forall>oid t. lookup oid = Some t \<longrightarrow> good_tree t" and "good_tree root" and "comps \<noteq> []"
    and "\<forall>c\<in>set comps. c \<noteq> [] \<and> 0 \<notin> set c \<and> 47 \<notin> set c"
  shows "\<exists>r x. git_tree_entry_bypath lookup True root (join_path comps) = Some (r, x) \<and> (r = 0 \<longleftrightarrow> x \<noteq> None) \<and>
    map_option tree_view x = map_option tree_view (resolve_path lookup root comps)"
  by (rule bypath_resolve [OF assms])

theorem git_tree_entry_bypath_resolves_witness:
  "\<exists>x. git_tree_entry_bypath (\<lambda>oid. if oid = oid_of (replicate 20 98) then Some [example_entry 0x81A4 97] else None) True
      [example_entry 0x4000 98] [98, 47, 97] = Some (0, Some x) \<and> tree_view x = (0x81A4, [97], replicate 20 97)"
proof -
  let ?lk = "\<lambda>oid. if oid = oid_of (replicate 20 98) then Some [example_entry 0x81A4 97] else None"
  have good: "good_tree [example_entry 0x4000 98]" "good_tree [example_entry 0x81A4 97]"
    using example_entry_facts [of 98 "0x4000"] example_entry_facts [of 97 "0x81A4"] by (auto simp: good_tree_def)
  have e: "git_tree_entry__is_tree (example_entry 0x4000 98)" "git_tree_entry_id (example_entry 0x4000 98) = Some (oid_of (replicate 20 98))"
    by (simp_all add: git_tree_entry__is_tree_def GIT_MODE_TYPE_def entry_mode_def example_entry_def git_tree_entry_id_def)
  have res: "resolve_path ?lk [example_entry 0x4000 98] [[98], [97]] = Some (example_entry 0x81A4 97)"
    using example_entry_facts [of 98 "0x4000"] example_entry_facts [of 97 "0x81A4"] e by (simp add: named_def)
  have store: "\<forall>oid t. ?lk oid = Some t \<longrightarrow> good_tree t" using good(2) by simp
  have "\<forall>c\<in>set [[98], [97 :: byte]]. c \<noteq> [] \<and> 0 \<notin> set c \<and> 47 \<notin> set c" by simp
  from git_tree_entry_bypath_resolves [OF store good(1) _ this]
  obtain r x where "git_tree_entry_bypath ?lk True [example_entry 0x4000 98] (join_path [[98], [97]]) = Some (r, x)" "r = 0 \<longleftrightarrow> x \<noteq> None"
      "map_option tree_view x = map_option tree_view (resolve_path ?lk [example_entry 0x4000 98] [[98], [97]])" by auto
  then show ?thesis using res example_entry_facts [of 97 "0x81A4"] by (cases x) auto
qed

text \<open>C30: The tree builder is a directory: inserting an allowed name with a valid mode keeps its invariant, the name then leads to
  the new mode and id and no other name changes, a refused insertion changes nothing, and removing the name again gives
  what removing it from the old builder gives.\<close>

theorem git_treebuilder_insert_directory:
  assumes "builder_ok bld" and "cstrlen name < 65536"
    and "git_treebuilder_insert ok is_valid bld name oid mode = Some (r, e, bld')"
  shows "(r = 0 \<and> builder_ok bld' \<and> valid_filemode mode \<and> git_treebuilder_get bld' name = e \<and>
       (\<exists>x. e = Some x \<and> tree_view x = (ucast mode, cstr name, oid_id oid)) \<and>
       (\<forall>j. cstr j \<noteq> cstr name \<longrightarrow> git_treebuilder_get bld' j = git_treebuilder_get bld j) \<and>
       git_treebuilder_get (snd (git_treebuilder_remove bld' name)) = git_treebuilder_get (snd (git_treebuilder_remove bld name))) \<or>
     (r = -1 \<and> bld' = bld)"
proof -
  have put: "put_name ok is_valid bld name (oid, mode) = Some bld'" if "r = 0"
    using that assms(2,3) by (simp add: put_name_def)
  show ?thesis
    using git_treebuilder_insert_spec [OF assms] treebuilder.put_del [OF assms(1) put] by blast
qed

theorem git_treebuilder_insert_directory_witness:
  "\<exists>e bld'. git_treebuilder_insert (True, True) (\<lambda>_ _. True) example_builder [97] (oid_of (replicate 20 1)) GIT_FILEMODE_LINK = Some (0, Some e, bld') \<and>
     builder_ok bld' \<and> tree_view e = (0xA000, [97], replicate 20 1)"
proof -
  have v: "valid_entry_name (bld_repo example_builder) [97] = Some True"
    unfolding example_builder_def git_treebuilder.simps by code_simp
  obtain e bld' where i: "git_treebuilder_insert (True, True) (\<lambda>_ _. True) example_builder [97] (oid_of (replicate 20 1)) GIT_FILEMODE_LINK = Some (0, e, bld')"
    using v by (auto simp: git_treebuilder_insert_def valid_filemode_def Let_def example_builder_def)
  show ?thesis
    using git_treebuilder_insert_directory [OF example_builder_ok _ i] i by (auto simp: cstrlen_def)
qed

text \<open>\<open>normalize_filemode\<close> always yields one of the five modes that a tree can hold, and leaves these as they are; the type of
  an entry is a commit or a tree only for the modes that say so.\<close>

lemma normalize_filemode_type:
  "valid_filemode (normalize_filemode m) \<and> (valid_filemode m \<longrightarrow> normalize_filemode m = m) \<and>
   normalize_filemode (normalize_filemode m) = normalize_filemode m"
proof -
  have "valid_filemode (normalize_filemode m)" by (simp add: normalize_filemode_def valid_filemode_def)
  moreover have keep: "normalize_filemode m = m" if "valid_filemode m" for m
    using that by (auto simp: valid_filemode_def normalize_filemode_def GIT_MODE_TYPE_def GIT_PERMS_IS_EXEC_def)
  ultimately show ?thesis by blast
qed

text \<open>\<open>git_tree__parse\<close> does not check that the object holds the whole id of its last entry: cut off anywhere in that id, a tree
  is still accepted, and reading the entry's id leaves the object.\<close>

theorem git_tree__parse_truncated_id:
  assumes "full_entry e" and "k < GIT_OID_RAWSZ" and "\<forall>n. grow_ok n"
  shows "\<exists>x. git_tree__parse grow_ok (octal (unat (te_attr e)) @ [32] @ (entry_name e @ [0]) @ take k (te_oid e)) = (0, [x]) \<and>
    entry_name x = entry_name e \<and> git_tree_entry_id x = None"
proof -
  have e: "length (entry_name e) = name_len e" "0 \<notin> set (entry_name e)" using assms(1) by (auto simp: full_entry_def elim: wf_entryE)
  have nm: "length (entry_name e) < 65536" using e(1) unsigned_less [of "te_filename_len e", where ?'a = nat] by (simp add: name_len_def)
  let ?buf = "entry_name e @ 0 # take k (te_oid e)"
  define x where "x = \<lparr>te_attr = ucast (ucast (te_attr e) :: u32), te_filename_len = of_nat (length (entry_name e)),
      te_oid = drop (length (entry_name e) + 1) ?buf, te_filename = ?buf\<rparr>"
  have a: "git_array_alloc grow_ok 24 (length ([] :: git_tree_entry list)) DEFAULT_TREE_SIZE = Some DEFAULT_TREE_SIZE"
    by (simp add: git_array_alloc_def DEFAULT_TREE_SIZE_def)
  have rest: "drop (length (entry_name e) + 1 + GIT_OID_RAWSZ) ?buf = []" using assms(2) by simp
  have buf: "octal (unat (te_attr e)) @ [32] @ (entry_name e @ [0]) @ take k (te_oid e) = octal (unat (te_attr e)) @ [32] @ ?buf" by simp
  have "tree_parse_loop grow_ok DEFAULT_TREE_SIZE [] (octal (unat (te_attr e)) @ [32] @ ?buf) = (0, [x])"
    unfolding tree_parse_loop.simps [of grow_ok DEFAULT_TREE_SIZE "[]" "octal (unat (te_attr e)) @ [32] @ ?buf"]
      parse_mode_entry option.case prod.case memchr_append [OF e(2)] a Let_def rest x_def [symmetric]
    by (simp add: tree_parse_loop.simps [of _ _ _ "[]"])
  moreover have "entry_name x = entry_name e" 
  proof -
    have "name_len x = length (entry_name e)" "te_filename x = ?buf" using nm by (simp_all add: x_def name_len_def unat_of_nat)
    then show ?thesis unfolding entry_name_def [of x] by simp
  qed
  moreover have "git_tree_entry_id x = None" using assms(2) by (simp add: git_tree_entry_id_def x_def)
  ultimately show ?thesis using assms(3) unfolding buf by (simp add: git_tree__parse_def)
qed

theorem git_tree__parse_truncated_id_witness:
  "\<exists>x. git_tree__parse (\<lambda>_. True) (octal 33188 @ [32, 97, 0] @ replicate 5 97) = (0, [x]) \<and> git_tree_entry_id x = None"
  using git_tree__parse_truncated_id [of "example_entry 0x81A4 97" 5 "\<lambda>_. True"] example_entry_facts [of 97 "0x81A4"]
  by (auto simp: example_entry_def)

end
