(* ===== verification/Signature.thy ===== *)
theory Signature
  imports Strings Numbers BufText "HOL-Library.Signed_Division"
begin

text \<open>
  Signatures (signature.c): who did something and when, as commits and tags store it. Times are \<open>int64\<close>, the
  offset from UTC is in minutes.
\<close>

record git_signature =
  sig_name :: "byte list"
  sig_email :: "byte list"
  sig_time :: int
  sig_offset :: int

definition contains_angle_brackets :: "byte list \<Rightarrow> bool" where
  "contains_angle_brackets input \<longleftrightarrow> 60 \<in> set (cstr input) \<or> 62 \<in> set (cstr input)"

definition is_crud :: "byte \<Rightarrow> bool" where
  "is_crud c \<longleftrightarrow> c \<le> 32 \<or> c = 46 \<or> c = 44 \<or> c = 58 \<or> c = 59 \<or> c = 60 \<or> c = 62 \<or> c = 34 \<or> c = 92 \<or> c = 39"

text \<open>The bytes without the crud at both ends.\<close>

definition extract_trimmed :: "byte list \<Rightarrow> byte list" where
  "extract_trimmed s = rev (dropWhile is_crud (rev (dropWhile is_crud s)))"

text \<open>\<open>None\<close> is the error -1; \<open>ok\<close> says whether there is memory.\<close>

definition git_signature_new :: "bool \<Rightarrow> byte list \<Rightarrow> byte list \<Rightarrow> int \<Rightarrow> int \<Rightarrow> git_signature option" where
  "git_signature_new ok name email time offset =
     (if contains_angle_brackets name \<or> contains_angle_brackets email then None
      else if \<not> ok then None
      else
        let n = extract_trimmed (cstr name); e = extract_trimmed (cstr email)
        in if n = [] \<or> e = [] then None
           else Some \<lparr>sig_name = n, sig_email = e, sig_time = time, sig_offset = offset\<rparr>)"

definition git_signature_dup :: "bool \<Rightarrow> git_signature \<Rightarrow> git_signature option" where
  "git_signature_dup ok source = (if ok then Some source else None)"

definition git_signature__equal :: "git_signature \<Rightarrow> git_signature \<Rightarrow> bool" where
  "git_signature__equal one two \<longleftrightarrow>
     git__strcmp (sig_name one) (sig_name two) = 0 \<and> git__strcmp (sig_email one) (sig_email two) = 0 \<and>
     sig_time one = sig_time two \<and> sig_offset one = sig_offset two"

section \<open>Parsing\<close>

text \<open>The offset from the text behind the time; \<open>tz\<close> is not the end of the header. Division and remainder are those of C.\<close>

definition parse_offset :: "byte list \<Rightarrow> int" where
  "parse_offset tz =
     (let offset = (if peek tz \<noteq> 45 \<and> peek tz \<noteq> 43 then 0
                    else case git__strtol32 (tl tz) 10 of
                           (r, _, v) \<Rightarrow> if r < 0 then 0 else (case v of None \<Rightarrow> 0 | Some x \<Rightarrow> x));
          hours = offset sdiv 100; mins = offset smod 100
      in if hours < 14 \<and> mins < 59 then
           if peek tz = 45 then - (hours * 60 + mins) else hours * 60 + mins
         else 0)"

text \<open>
  The time and offset from \<open>time_start\<close> on; \<open>n\<close> bytes of it lie before \<open>buffer_end\<close>. \<open>None\<close> is an invalid time.
\<close>

definition parse_when :: "byte list \<Rightarrow> nat \<Rightarrow> (int \<times> int) option" where
  "parse_when time_start n =
     (case git__strtol64 time_start 10 of
        (r, time_end, time) \<Rightarrow>
          if r < 0 then None
          else case (time_end, time) of
                 (Some rest, Some t) \<Rightarrow>
                   let pos = length time_start - length rest
                   in Some (t, if pos + 1 < n then parse_offset (drop (pos + 1) time_start) else 0)
               | _ \<Rightarrow> None)"

text \<open>
  \<open>buffer\<close> is the object from the current position on, \<open>n\<close> bytes of which lie before \<open>buffer_end\<close>. The result is the signature
  and how far the position moves; \<open>None\<close> is the error -1. Memory for the strings is taken to be there: the code does not check.
\<close>

definition git_signature__parse :: "byte list \<Rightarrow> nat \<Rightarrow> byte list option \<Rightarrow> byte \<Rightarrow> (git_signature \<times> nat) option" where
  "git_signature__parse buffer0 n header ender = do {
     buffer_end \<leftarrow> (if ender \<noteq> 0 then memchr ender (take n buffer0) else Some n);
     h \<leftarrow> (case header of
             None \<Rightarrow> Some 0
           | Some s \<Rightarrow> if cstrlen s \<ge> buffer_end \<or> take (cstrlen s) buffer0 \<noteq> cstr s then None else Some (cstrlen s));
     let buffer = drop h buffer0;
     let len = buffer_end - h;
     email_start \<leftarrow> git__memrchr buffer 60 len;
     email_end \<leftarrow> git__memrchr buffer 62 len;
     if email_end \<le> email_start then None
     else do {
       let sig = \<lparr>sig_name = extract_trimmed (take email_start buffer),
                  sig_email = extract_trimmed (drop (email_start + 1) (take email_end buffer)), sig_time = 0, sig_offset = 0\<rparr>;
       if email_end + 2 < len then do {
         (t, off) \<leftarrow> parse_when (drop (email_end + 2) buffer) (len - (email_end + 2));
         Some (sig\<lparr>sig_time := t, sig_offset := off\<rparr>, buffer_end + 1) }
       else Some (sig, buffer_end + 1) } }"

definition git_signature_from_buffer :: "bool \<Rightarrow> byte list \<Rightarrow> git_signature option" where
  "git_signature_from_buffer ok buf = (if \<not> ok then None else map_option fst (git_signature__parse buf (cstrlen buf) None 0))"

section \<open>Writing\<close>

text \<open>\<open>%u\<close> and \<open>%02d\<close> for numbers that are not negative.\<close>

fun decimal :: "nat \<Rightarrow> byte list" where
  "decimal n = (if n < 10 then [48 + of_nat n] else decimal (n div 10) @ [48 + of_nat (n mod 10)])"

declare decimal.simps [simp del]

definition pad2 :: "nat \<Rightarrow> byte list" where
  "pad2 n = (if n < 10 then 48 # decimal n else decimal n)"

text \<open>What \<open>git_buf_printf\<close> is to append; the time is cast to \<open>unsigned\<close>, and negating the least \<open>int\<close> is undefined.\<close>

definition signature_line :: "byte list option \<Rightarrow> git_signature \<Rightarrow> byte list option" where
  "signature_line header sig =
     (if sig_offset sig = - (2 ^ 31) then None
      else
        let offset = nat \<bar>sig_offset sig\<bar>; hours = offset div 60; mins = offset mod 60
        in Some ((case header of None \<Rightarrow> [] | Some h \<Rightarrow> cstr h) @ cstr (sig_name sig) @ [32, 60] @ cstr (sig_email sig) @ [62, 32] @
             decimal (nat (sig_time sig mod 2 ^ 32)) @ [32, if sig_offset sig < 0 then 45 else 43] @ pad2 hours @ pad2 mins @ [10]))"

definition git_signature__writebuf :: "byte allocator \<Rightarrow> git_buf \<Rightarrow> byte list option \<Rightarrow> git_signature \<Rightarrow> git_buf option" where
  "git_signature__writebuf al buf header sig = do {
     line \<leftarrow> signature_line header sig;
     (_, buf) \<leftarrow> git_buf_vprintf al buf (bytes_of ''%s%s <%s> %u %c%02d%02d'' @ [10]) (Some line);
     Some buf }"

section \<open>Decimal numbers\<close>

lemma decimal_digit: "d < 10 \<Longrightarrow> digit_value 10 (48 + of_nat d) = int d"
proof -
  assume "d < 10"
  then have "d \<in> {0, 1, 2, 3, 4, 5, 6, 7, 8, 9}" by auto
  then show ?thesis by (auto simp: digit_value_def schar_def)
qed

lemma digits_value_append: "digits_value base n (xs @ ys) = digits_value base (digits_value base n xs) ys"
  by (simp add: digits_value_def)

lemma decimal_value: "is_digits 10 (decimal n) \<and> digits_value 10 0 (decimal n) = int n \<and> decimal n \<noteq> []"
proof (induction n rule: decimal.induct)
  case (1 n)
  show ?case
  proof (cases "n < 10")
    case True
    then show ?thesis by (simp add: decimal.simps [of n] decimal_digit)
  next
    case False
    note ih = 1 [OF False]
    have d: "digit_value 10 (48 + of_nat (n mod 10)) = int (n mod 10)" by (rule decimal_digit) simp
    have "int (n div 10) * 10 + int (n mod 10) = int n" by presburger
    then show ?thesis using ih d False by (simp add: decimal.simps [of n] digits_value_append is_digits_def ball_Un)
  qed
qed

lemma decimal_length: "n < 10 ^ k \<Longrightarrow> length (decimal n) \<le> max 1 k"
proof (induction k arbitrary: n)
  case (Suc k)
  show ?case
  proof (cases "n < 10")
    case False
    then have "n div 10 < 10 ^ k" using Suc.prems by (simp add: less_mult_imp_div_less mult.commute)
    then have "length (decimal (n div 10)) \<le> max 1 k" using Suc.IH by blast
    moreover have "k \<noteq> 0" using False Suc.prems by (cases k) auto
    ultimately show ?thesis using False by (simp add: decimal.simps [of n])
  qed (simp add: decimal.simps [of n])
qed (simp add: decimal.simps)

lemma decimal_bytes: "c \<in> set (decimal n) \<Longrightarrow> c \<notin> {0, 10, 32, 43, 45, 60, 62}"
proof -
  assume "c \<in> set (decimal n)"
  then have "digit_value 10 c < 10" using decimal_value [of n] by (simp add: is_digits_def)
  then show ?thesis by (auto simp: digit_value_def schar_def)
qed

lemma pad2_value:
  assumes "n < 100"
  shows "is_digits 10 (pad2 n)" "digits_value 10 k (pad2 n) = k * 100 + int n" "length (pad2 n) = 2" "pad2 n \<noteq> []"
proof -
  have z: "digit_value 10 48 = 0" by (simp add: digit_value_def schar_def)
  show len: "length (pad2 n) = 2" "pad2 n \<noteq> []"
    using assms by (auto simp: pad2_def decimal.simps [of n] decimal.simps [of "n div 10"])
  show "is_digits 10 (pad2 n)" using decimal_value [of n] z by (auto simp: pad2_def)
  have v: "digits_value 10 0 (pad2 n) = int n" using decimal_value [of n] z by (simp add: pad2_def)
  obtain a b where ab: "pad2 n = [a, b]" using len(1) by (metis (no_types) length_0_conv length_Suc_conv numeral_2_eq_2)
  then show "digits_value 10 k (pad2 n) = k * 100 + int n" using v by simp
qed

lemma strtol64_decimal:
  assumes "is_digits 10 ds" "ds \<noteq> []" "length ds \<le> 20" "10 \<le> digit_value 10 (peek rest)" "digits_value 10 0 ds < 2 ^ 63"
  shows "git__strtol64 (ds @ rest) 10 = (0, Some rest, Some (digits_value 10 0 ds))"
proof -
  have "0 \<le> digits_value 10 0 ds" by (rule digits_value_mono) simp_all
  moreover have "digits_end 10 SIZE_MAX ds rest" using assms(1-4) by (simp add: digits_end_def SIZE_MAX_def)
  ultimately show ?thesis
    using git__strntol64_ok [of 10 "[]" "[]" SIZE_MAX ds rest "digits_value 10 0 ds"] assms(5) by (simp add: git__strtol64_def sgn_int_def)
qed

lemma strtol32_decimal:
  assumes "is_digits 10 ds" "ds \<noteq> []" "length ds \<le> 20" "10 \<le> digit_value 10 (peek rest)" "digits_value 10 0 ds < 2 ^ 31"
  shows "git__strtol32 (ds @ rest) 10 = (0, Some rest, Some (digits_value 10 0 ds))"
proof -
  have "0 \<le> digits_value 10 0 ds" by (rule digits_value_mono) simp_all
  then have "int32 (digits_value 10 0 ds mod 2 ^ 32) = digits_value 10 0 ds" using assms(5) by (simp add: int32_def)
  moreover have "git__strntol64 (ds @ rest) SIZE_MAX 10 = (0, Some rest, Some (digits_value 10 0 ds))"
    using strtol64_decimal [OF assms(1-4)] assms(5) by (simp add: git__strtol64_def)
  ultimately show ?thesis by (simp add: git__strtol32_def git__strntol32_def Let_def)
qed

section \<open>Reading back\<close>

lemma parse_offset_pad2:
  assumes "h < 100" "m < 60"
  shows "parse_offset ((if neg then 45 else 43) # pad2 h @ pad2 m @ 10 # rest) =
    (if h < 14 \<and> m < 59 then if neg then - (int h * 60 + int m) else int h * 60 + int m else 0)"
proof -
  let ?ds = "pad2 h @ pad2 m"
  have m: "m < 100" using assms(2) by simp
  have v: "digits_value 10 0 ?ds = int h * 100 + int m"
    using pad2_value(2) [OF assms(1), of 0] pad2_value(2) [OF m] by (simp add: digits_value_append)
  have "git__strtol32 (?ds @ 10 # rest) 10 = (0, Some (10 # rest), Some (digits_value 10 0 ?ds))"
  proof (rule strtol32_decimal)
    show "is_digits 10 ?ds" using pad2_value(1) [OF assms(1)] pad2_value(1) [OF m] by (auto simp: is_digits_def)
    show "10 \<le> digit_value 10 (peek (10 # rest))" by (simp add: digit_value_def schar_def)
  qed (use assms m v in \<open>simp_all add: pad2_value\<close>)
  then have s: "git__strtol32 (pad2 h @ pad2 m @ 10 # rest) 10 = (0, Some (10 # rest), Some (int h * 100 + int m))" using v by simp
  have "(int h * 100 + int m) sdiv 100 = int h" "(int h * 100 + int m) smod 100 = int m"
    using m by (simp_all add: signed_divide_int_def signed_modulo_int_def sgn_if abs_mult add_nonneg_eq_0_iff)
  then show ?thesis unfolding parse_offset_def by (cases "h < 14 \<and> m < 59") (auto simp: s Let_def)
qed

lemma memrchr_Some:
  "i < n \<Longrightarrow> s ! i = c \<Longrightarrow> \<forall>j. i < j \<and> j < n \<longrightarrow> s ! j \<noteq> c \<Longrightarrow> git__memrchr s c n = Some i"
proof (induction n)
  case (Suc n)
  then show ?case by (cases "i = n") auto
qed simp

lemma memrchr_append:
  assumes "c \<notin> set b" "n = length a + 1 + length b"
  shows "git__memrchr (a @ c # b @ r) c n = Some (length a)"
proof (rule memrchr_Some)
  have "(a @ c # b @ r) ! j \<noteq> c" if "length a < j" "j < n" for j
  proof -
    define k where "k = j - Suc (length a)"
    have k: "j = Suc (length a + k)" "k < length b" using that assms(2) by (auto simp: k_def)
    then have "(a @ c # b @ r) ! j = b ! k" by (simp add: nth_append)
    then show ?thesis using k(2) assms(1) by (metis nth_mem)
  qed
  then show "\<forall>j. length a < j \<and> j < n \<longrightarrow> (a @ c # b @ r) ! j \<noteq> c" by blast
qed (use assms(2) in auto)

lemma trimmed_cases: "extract_trimmed s = s \<Longrightarrow> s = [] \<or> \<not> is_crud (hd s) \<and> \<not> is_crud (last s)"
proof -
  assume eq: "extract_trimmed s = s"
  let ?t = "dropWhile is_crud s"
  have "length (dropWhile is_crud (rev ?t)) = length s" using eq by (metis extract_trimmed_def length_rev)
  then have "length ?t = length s" using length_dropWhile_le [of is_crud "rev ?t"] length_dropWhile_le [of is_crud s] by simp
  then have t: "?t = s" by (metis append_Nil takeWhile_dropWhile_id length_append add_eq_self_zero length_0_conv add.commute)
  have "dropWhile is_crud (rev s) = rev s" using eq t by (metis extract_trimmed_def rev_rev_ident)
  then show ?thesis using t hd_dropWhile [of is_crud s] hd_dropWhile [of is_crud "rev s"]
    by (metis dropWhile_eq_Nil_conv hd_rev rev_is_Nil_conv)
qed

lemma extract_trimmed_space: "extract_trimmed s = s \<Longrightarrow> extract_trimmed (s @ [32]) = s"
proof -
  assume s: "extract_trimmed s = s"
  have c: "is_crud 32" by (simp add: is_crud_def)
  show ?thesis
  proof (cases "s = []")
    case True
    then show ?thesis using c by (simp add: extract_trimmed_def)
  next
    case False
    then obtain x xs where x: "s = x # xs" by (cases s) auto
    have h: "\<not> is_crud x" "\<not> is_crud (last s)" using trimmed_cases [OF s] False x by auto
    have "dropWhile is_crud (rev s) = rev s" using h(2) False by (cases "rev s") (auto simp: last_rev hd_rev [symmetric])
    then show ?thesis using h(1) c x by (simp add: extract_trimmed_def)
  qed
qed

lemma extract_trimmed_idem: "extract_trimmed (extract_trimmed s) = extract_trimmed s"
proof -
  let ?t = "dropWhile is_crud s" and ?u = "extract_trimmed s"
  have u: "rev ?u = dropWhile is_crud (rev ?t)" by (simp add: extract_trimmed_def)
  have "dropWhile is_crud ?u = ?u"
  proof (cases "?u = []")
    case False
    have "?t = ?u @ rev (takeWhile is_crud (rev ?t))" using u takeWhile_dropWhile_id [of is_crud "rev ?t"] by (metis rev_append rev_rev_ident)
    then have "hd ?u = hd ?t" "?t \<noteq> []" using False by (metis hd_append2, metis append_is_Nil_conv)
    then have "\<not> is_crud (hd ?u)" using hd_dropWhile [of is_crud s] by simp
    then show ?thesis using False by (cases ?u) auto
  qed simp
  then have "extract_trimmed ?u = rev (dropWhile is_crud (rev ?u))" unfolding extract_trimmed_def [of ?u] by simp
  also have "\<dots> = rev (dropWhile is_crud (rev ?t))" unfolding u by (simp add: dropWhile_idem)
  finally show ?thesis by (simp add: extract_trimmed_def)
qed

lemma extract_trimmed_set: "set (extract_trimmed s) \<subseteq> set s"
proof
  fix x assume "x \<in> set (extract_trimmed s)"
  then have "x \<in> set (dropWhile is_crud (rev (dropWhile is_crud s)))" by (simp add: extract_trimmed_def)
  then show "x \<in> set s" by (metis set_dropWhileD set_rev)
qed

text \<open>A signature that can be written on one line: a name and an address without crud at their ends, angle brackets and newlines.\<close>

definition signature_ok :: "git_signature \<Rightarrow> bool" where
  "signature_ok sig \<longleftrightarrow>
     extract_trimmed (sig_name sig) = sig_name sig \<and> extract_trimmed (sig_email sig) = sig_email sig \<and>
     set (sig_name sig) \<inter> {0, 10, 60, 62} = {} \<and> set (sig_email sig) \<inter> {0, 10, 60, 62} = {} \<and>
     0 \<le> sig_time sig \<and> sig_time sig < 2 ^ 32 \<and> \<bar>sig_offset sig\<bar> < 6000"

text \<open>The offsets that can be read back: less than 14 hours, and not 59 minutes past an hour.\<close>

definition offset_kept :: "int \<Rightarrow> bool" where
  "offset_kept offset \<longleftrightarrow> \<bar>offset\<bar> div 60 < 14 \<and> \<bar>offset\<bar> mod 60 \<noteq> 59"

definition reread :: "git_signature \<Rightarrow> git_signature" where
  "reread sig = sig\<lparr>sig_offset := if offset_kept (sig_offset sig) then sig_offset sig else 0\<rparr>"

lemma git_signature_new_ok:
  assumes "git_signature_new ok name email time offset = Some sig" "10 \<notin> set (cstr name)" "10 \<notin> set (cstr email)"
    and "0 \<le> time" "time < 2 ^ 32" "\<bar>offset\<bar> < 6000"
  shows "signature_ok sig \<and> sig_name sig \<noteq> [] \<and> sig_email sig \<noteq> []"
proof -
  have b: "60 \<notin> set (cstr name)" "62 \<notin> set (cstr name)" "60 \<notin> set (cstr email)" "62 \<notin> set (cstr email)"
    using assms(1) by (auto simp: git_signature_new_def contains_angle_brackets_def split: if_splits)
  have sig: "sig = \<lparr>sig_name = extract_trimmed (cstr name), sig_email = extract_trimmed (cstr email), sig_time = time, sig_offset = offset\<rparr>"
    "extract_trimmed (cstr name) \<noteq> []" "extract_trimmed (cstr email) \<noteq> []"
    using assms(1) by (auto simp: git_signature_new_def Let_def split: if_splits)
  have "set (extract_trimmed (cstr name)) \<inter> {0, 10, 60, 62} = {}" "set (extract_trimmed (cstr email)) \<inter> {0, 10, 60, 62} = {}"
    using b assms(2,3) extract_trimmed_set [of "cstr name"] extract_trimmed_set [of "cstr email"] cstr_no_nul [of name] cstr_no_nul [of email]
    by blast+
  then show ?thesis using assms(4-6) sig by (simp add: signature_ok_def extract_trimmed_idem)
qed

lemma parse_when_line:
  assumes "0 \<le> t" "t < 2 ^ 32" "h < 100" "m < 60" and n: "n = length (decimal (nat t)) + 6"
  shows "parse_when (decimal (nat t) @ [32, if neg then 45 else 43] @ pad2 h @ pad2 m @ 10 # rest) n =
    Some (t, if h < 14 \<and> m < 59 then if neg then - (int h * 60 + int m) else int h * 60 + int m else 0)"
proof -
  let ?tail = "32 # (if neg then 45 else 43) # pad2 h @ pad2 m @ 10 # rest"
  have d: "is_digits 10 (decimal (nat t))" "digits_value 10 0 (decimal (nat t)) = t" "decimal (nat t) \<noteq> []"
    using decimal_value [of "nat t"] assms(1) by auto
  have "nat t < 10 ^ 10" using assms(2) by simp
  then have "length (decimal (nat t)) \<le> 20" using decimal_length [of "nat t" 10] by simp
  then have "git__strtol64 (decimal (nat t) @ ?tail) 10 = (0, Some ?tail, Some t)"
    using strtol64_decimal [OF d(1,3), of ?tail] d(2) assms(2) by (simp add: digit_value_def schar_def)
  moreover have "length (decimal (nat t) @ ?tail) - length ?tail = length (decimal (nat t))" by simp
  ultimately show ?thesis using parse_offset_pad2 [OF assms(3,4), of neg rest] n by (simp add: parse_when_def Let_def)
qed

lemma signature_line_parse:
  assumes ok: "signature_ok sig" and header: "header \<noteq> None \<longrightarrow> 10 \<notin> set (cstr (the header))"
    and line: "signature_line header sig = Some line" and n: "length line \<le> n"
  shows "git_signature__parse (line @ rest) n header 10 = Some (reread sig, length line)"
proof -
  let ?name = "sig_name sig" and ?email = "sig_email sig" and ?t = "sig_time sig" and ?o = "sig_offset sig"
  define h where "h = nat \<bar>?o\<bar> div 60"
  define m where "m = nat \<bar>?o\<bar> mod 60"
  define H where "H = (case header of None \<Rightarrow> [] | Some h \<Rightarrow> cstr h)"
  define D where "D = decimal (nat ?t)"
  define T where "T = D @ [32, if ?o < 0 then 45 else 43] @ pad2 h @ pad2 m"
  have hm: "h < 100" "m < 60" using ok by (auto simp: h_def m_def signature_ok_def less_mult_imp_div_less)
  have zero: "0 \<notin> set ?name" "0 \<notin> set ?email" using ok by (auto simp: signature_ok_def)
  have t: "0 \<le> ?t" "?t < 2 ^ 32" using ok by (auto simp: signature_ok_def)
  have l: "line = H @ ?name @ [32, 60] @ ?email @ [62, 32] @ T @ [10]"
    using line t unfolding signature_line_def Let_def H_def T_def D_def h_def m_def by (simp add: cstr_id [OF zero(1)] cstr_id [OF zero(2)] split: if_splits)
  have digits: "set (pad2 k) \<inter> {0, 10, 32, 43, 45, 60, 62} = {}" for k using decimal_bytes [of _ k] by (auto simp: pad2_def)
  have "set D \<inter> {0, 10, 32, 43, 45, 60, 62} = {}" using decimal_bytes [of _ "nat ?t"] by (auto simp: D_def)
  then have T: "10 \<notin> set T" "60 \<notin> set T" "62 \<notin> set T" using digits [of h] digits [of m] unfolding T_def by auto
  define body where "body = H @ ?name @ [32, 60] @ ?email @ [62, 32] @ T"
  have ten: "10 \<notin> set body" using header ok T by (auto simp: body_def H_def signature_ok_def split: option.splits)
  have line': "line = body @ [10]" by (simp add: l body_def)
  have take: "take n (line @ rest) = body @ 10 # take (n - length line) rest" using n by (simp add: line' take_Cons')
  have mem: "memchr 10 (take n (line @ rest)) = Some (length body)"

  proof -
    have "takeWhile (\<lambda>x. x \<noteq> 10) (body @ 10 # take (n - length line) rest) = body" using ten by (subst takeWhile_append2) auto
    then show ?thesis unfolding take memchr_def Let_def by simp
  qed
  then have mem': "(if (10 :: byte) \<noteq> 0 then memchr 10 (take n (line @ rest)) else Some n) = Some (length body)" by simp
  have hd: "(case header of None \<Rightarrow> Some 0
      | Some s \<Rightarrow> if cstrlen s \<ge> length body \<or> take (cstrlen s) (line @ rest) \<noteq> cstr s then None else Some (cstrlen s)) = Some (length H)"
    by (cases header) (auto simp: H_def l body_def cstrlen_def)
  let ?buf = "?name @ [32, 60] @ ?email @ [62, 32] @ T @ 10 # rest"
  have buf: "drop (length H) (line @ rest) = ?buf" by (simp add: l)
  have len: "length body - length H = length ?name + length ?email + length T + 4" by (simp add: body_def)
  have es: "git__memrchr ?buf 60 (length body - length H) = Some (length ?name + 1)"
    using memrchr_append [of 60 "?email @ [62, 32] @ T" "length body - length H" "?name @ [32]" "10 # rest"] ok T len by (simp add: signature_ok_def)
  have ee: "git__memrchr ?buf 62 (length body - length H) = Some (length ?name + 2 + length ?email)"
    using memrchr_append [of 62 "32 # T" "length body - length H" "?name @ [32, 60] @ ?email" "10 # rest"] T len by (simp add: signature_ok_def)
  have nm: "extract_trimmed (take (length ?name + 1) ?buf) = ?name" using extract_trimmed_space ok by (simp add: signature_ok_def)
  have em: "extract_trimmed (drop (length ?name + 1 + 1) (take (length ?name + 2 + length ?email) ?buf)) = ?email"
    using ok by (simp add: signature_ok_def)
  have tl: "drop (length ?name + 2 + length ?email + 2) ?buf = T @ 10 # rest"
  proof -
    have b: "?buf = (?name @ [32, 60] @ ?email @ [62, 32]) @ (T @ 10 # rest)" by simp
    have l: "length ?name + 2 + length ?email + 2 = length (?name @ [32, 60] @ ?email @ [62, 32])" by simp
    show ?thesis unfolding b l by (rule append_eq_conv_conj [THEN iffD1, THEN conjunct2, OF refl, symmetric])
  qed
  have Tlen: "length T = length D + 6" using pad2_value(3) [of h] pad2_value(3) [of m] hm by (simp add: T_def)
  have pw: "parse_when (T @ 10 # rest) (length body - length H - (length ?name + 2 + length ?email + 2)) =
      Some (?t, if h < 14 \<and> m < 59 then if ?o < 0 then - (int h * 60 + int m) else int h * 60 + int m else 0)"
  proof -
    have nn: "length body - length H - (length ?name + 2 + length ?email + 2) = length D + 6" using len Tlen by simp
    have tt: "T @ 10 # rest = decimal (nat ?t) @ [32, if ?o < 0 then 45 else 43] @ pad2 h @ pad2 m @ 10 # rest" by (simp add: T_def D_def)
    show ?thesis unfolding nn tt by (rule parse_when_line [OF t hm]) (simp add: D_def)
  qed
  have hm': "int h = \<bar>?o\<bar> div 60" "int m = \<bar>?o\<bar> mod 60" by (simp_all add: h_def m_def zdiv_int zmod_int)
  then have "int h * 60 + int m = \<bar>?o\<bar>" by presburger
  moreover have "h < 14 \<and> m < 59 \<longleftrightarrow> offset_kept ?o" unfolding offset_kept_def hm' [symmetric] using hm(2) by presburger
  ultimately have off: "(if h < 14 \<and> m < 59 then if ?o < 0 then - (int h * 60 + int m) else int h * 60 + int m else 0) = sig_offset (reread sig)"
    by (auto simp: reread_def)
  have pos: "length ?name + 2 + length ?email + 2 < length body - length H" "\<not> length ?name + 2 + length ?email \<le> length ?name + 1"
    using len Tlen by simp_all
  show ?thesis
    unfolding git_signature__parse_def mem' Option.bind_lunit hd buf Let_def es ee
    using pos nm em tl pw off by (simp add: reread_def line')
qed

lemma extract_trimmed_length: "length (extract_trimmed s) \<le> length s"
  unfolding extract_trimmed_def length_rev
  by (rule order_trans [OF length_dropWhile_le]) (simp add: length_dropWhile_le)

lemma signature_line_ok:
  assumes "signature_ok sig"
  shows "\<exists>line. signature_line header sig = Some line \<and>
    length line \<le> (case header of None \<Rightarrow> 0 | Some h \<Rightarrow> cstrlen h) + length (sig_name sig) + length (sig_email sig) + 21"
proof -
  let ?o = "nat \<bar>sig_offset sig\<bar>"
  have o: "sig_offset sig \<noteq> - (2 ^ 31)" "?o div 60 < 100" "?o mod 60 < 100" using assms by (auto simp: signature_ok_def less_mult_imp_div_less)
  have t: "nat (sig_time sig mod 2 ^ 32) < 10 ^ 10" using assms by (auto simp: signature_ok_def)
  have len: "length (decimal (nat (sig_time sig mod 2 ^ 32))) \<le> 10" using decimal_length [OF t] by simp
  have c: "length (cstr s) \<le> length s" for s by (simp add: cstr_def length_takeWhile_le)
  show ?thesis using o len pad2_value(3) [OF o(2)] pad2_value(3) [OF o(3)] c [of "sig_name sig"] c [of "sig_email sig"]
    by (auto simp: signature_line_def Let_def cstrlen_def split: option.splits)
qed

lemma signature_writebuf_ok:
  assumes env: "alloc_env al" and wf: "buf_wf b" and ok: "signature_ok sig"
    and lim: "length (content b) + (case header of None \<Rightarrow> 0 | Some h \<Rightarrow> cstrlen h) + length (sig_name sig) + length (sig_email sig) + 100 < BUF_LIMIT"
  shows "\<exists>b' line. git_signature__writebuf al b header sig = Some b' \<and> buf_wf b' \<and> content b' = content b @ line \<and>
    signature_line header sig = Some line \<and>
    length line \<le> (case header of None \<Rightarrow> 0 | Some h \<Rightarrow> cstrlen h) + length (sig_name sig) + length (sig_email sig) + 21"
proof -
  obtain line where l: "signature_line header sig = Some line"
      "length line \<le> (case header of None \<Rightarrow> 0 | Some h \<Rightarrow> cstrlen h) + length (sig_name sig) + length (sig_email sig) + 21"
    using signature_line_ok [OF ok] by blast
  let ?fmt = "bytes_of ''%s%s <%s> %u %c%02d%02d'' @ [10]"
  have al: "good_alloc al" using env by (simp add: alloc_env_def)
  have fmt: "cstrlen ?fmt \<le> 24" by (simp add: bytes_of_def cstrlen_def cstr_def)
  have "buf_size b = length (content b)" using length_content [OF wf] by simp
  then have "buf_size b + length line + 1 \<le> BUF_LIMIT" "buf_size b + 2 * cstrlen ?fmt \<le> BUF_LIMIT" using lim l(2) fmt by simp_all
  from buf_outcome_total [OF git_buf_vprintf_outcome [OF al wf this] env] l show ?thesis
    by (auto simp: git_signature__writebuf_def)
qed

section \<open>Properties\<close>

text \<open>C31: What \<open>git_signature__writebuf\<close> appends for a signature that \<open>git_signature_new\<close> made, of a name and an address on one
  line and a time of 32 bits, is read back by \<open>git_signature__parse\<close> as the same signature, except that an offset of 14 hours
  or more, or of 59 minutes past an hour, becomes 0.\<close>

theorem git_signature_write_parse:
  assumes "alloc_env al" and "buf_wf b" and "git_signature_new ok name email time offset = Some sig"
    and "10 \<notin> set (cstr name)" and "10 \<notin> set (cstr email)" and "10 \<notin> set (cstr header)"
    and "0 \<le> time" and "time < 2 ^ 32" and "\<bar>offset\<bar> < 6000"
    and "length (content b) + cstrlen header + cstrlen name + cstrlen email + 100 < BUF_LIMIT"
  shows "\<exists>b' line. git_signature__writebuf al b (Some header) sig = Some b' \<and> buf_wf b' \<and> content b' = content b @ line \<and>
    (\<forall>rest n. length line \<le> n \<longrightarrow> git_signature__parse (line @ rest) n (Some header) 10 =
       Some (if offset_kept offset then sig else sig\<lparr>sig_offset := 0\<rparr>, length line))"
proof -
  have ok: "signature_ok sig" using git_signature_new_ok [OF assms(3-5,7-9)] by blast
  have sig: "sig_name sig = extract_trimmed (cstr name)" "sig_email sig = extract_trimmed (cstr email)" "sig_offset sig = offset"
    using assms(3) by (auto simp: git_signature_new_def Let_def split: if_splits)
  have "length (content b) + (case Some header of None \<Rightarrow> 0 | Some h \<Rightarrow> cstrlen h) + length (sig_name sig) + length (sig_email sig) + 100 < BUF_LIMIT"
    using extract_trimmed_length [of "cstr name"] extract_trimmed_length [of "cstr email"] assms(10) by (simp add: sig cstrlen_def)
  then obtain b' line where b': "git_signature__writebuf al b (Some header) sig = Some b'" "buf_wf b'" "content b' = content b @ line"
      "signature_line (Some header) sig = Some line"
    using signature_writebuf_ok [OF assms(1,2) ok, of "Some header"] by blast
  have "reread sig = (if offset_kept offset then sig else sig\<lparr>sig_offset := 0\<rparr>)"
    unfolding reread_def sig(3) using sig(3) by auto
  then show ?thesis using b'(1-3) signature_line_parse [OF ok _ b'(4)] assms(6) by auto
qed

theorem git_signature_write_parse_witness:
  "\<exists>sig b' line. git_signature_new True (bytes_of ''Ada. '') (bytes_of ''ada@x'') 86399 (-59) = Some sig \<and>
     git_signature__writebuf (fill_alloc 0) GIT_BUF_INIT (Some (bytes_of ''author '')) sig = Some b' \<and> content b' = line \<and>
     git_signature__parse line (length line) (Some (bytes_of ''author '')) 10 = Some (sig\<lparr>sig_offset := 0\<rparr>, length line)"
proof -
  let ?sig = "\<lparr>sig_name = bytes_of ''Ada'', sig_email = bytes_of ''ada@x'', sig_time = 86399, sig_offset = -59\<rparr>"
  have new: "git_signature_new True (bytes_of ''Ada. '') (bytes_of ''ada@x'') 86399 (-59) = Some ?sig"
    by (simp add: git_signature_new_def contains_angle_brackets_def extract_trimmed_def is_crud_def bytes_of_def)
  have "\<not> offset_kept (-59)" by (simp add: offset_kept_def)
  then show ?thesis
    using git_signature_write_parse [of "fill_alloc 0" GIT_BUF_INIT True "bytes_of ''Ada. ''" "bytes_of ''ada@x''" 86399 "-59" ?sig
      "bytes_of ''author ''"] new
    by (auto simp: bytes_of_def BUF_LIMIT_def cstrlen_def) (metis append_Nil2 order_refl)
qed

end
