(* ===== verification/Commit.thy ===== *)
theory Commit
  imports Signature Oid GitArray
begin

text \<open>Commit objects (commit.c): how they are written and parsed, and the summary and body of the message.\<close>

record git_commit =
  c_parent_ids :: "git_oid list"
  c_tree_id :: git_oid
  c_author :: git_signature
  c_committer :: git_signature
  c_message_encoding :: "byte list option"
  c_raw_message :: "byte list option"
  c_raw_header :: "byte list"

section \<open>Writing\<close>

fun write_parents :: "byte allocator \<Rightarrow> git_buf \<Rightarrow> git_oid list \<Rightarrow> git_buf option" where
  "write_parents al out [] = Some out"
| "write_parents al out (p # ps) = do {
     out \<leftarrow> git_oid__writebuf al out (bytes_of ''parent '') p;
     write_parents al out ps }"

definition git_commit__create_buffer_internal ::
    "byte allocator \<Rightarrow> git_buf \<Rightarrow> git_signature \<Rightarrow> git_signature \<Rightarrow> byte list option \<Rightarrow> byte list \<Rightarrow> git_oid \<Rightarrow> git_oid list \<Rightarrow>
      (int \<times> git_buf) option" where
  "git_commit__create_buffer_internal al out author committer message_encoding message tree parents = do {
     out \<leftarrow> git_oid__writebuf al out (bytes_of ''tree '') tree;
     out \<leftarrow> write_parents al out parents;
     out \<leftarrow> git_signature__writebuf al out (Some (bytes_of ''author '')) author;
     out \<leftarrow> git_signature__writebuf al out (Some (bytes_of ''committer '')) committer;
     out \<leftarrow> (case message_encoding of
               None \<Rightarrow> Some out
             | Some e \<Rightarrow> map_option snd
                 (git_buf_vprintf al out (bytes_of ''encoding %s'' @ [10]) (Some (bytes_of ''encoding '' @ cstr e @ [10]))));
     (_, out) \<leftarrow> git_buf_putc al out 10;
     (r, out) \<leftarrow> git_buf_puts al out message;
     Some (if r < 0 then (-1, git_buf_free out) else (0, out)) }"

section \<open>Parsing\<close>

lemma git_oid__parse_shorter: "git_oid__parse oid buffer header = (r, oid', buffer') \<Longrightarrow> \<not> r < 0 \<Longrightarrow> length buffer' < length buffer"
  by (auto simp: git_oid__parse_def Let_def split: if_splits prod.splits)

text \<open>The ids of the parents and the rest of the object; \<open>None\<close> if there is no memory for one.\<close>

function parse_parents :: "(nat \<Rightarrow> bool) \<Rightarrow> nat \<Rightarrow> git_oid list \<Rightarrow> git_oid \<Rightarrow> byte list \<Rightarrow> (git_oid list \<times> byte list) option" where
  "parse_parents grow_ok asize ids parent_id buffer =
     (case git_oid__parse parent_id buffer (bytes_of ''parent '') of
        (r, parent_id, buffer') \<Rightarrow>
          if r < 0 then Some (ids, buffer)
          else case git_array_alloc grow_ok GIT_OID_RAWSZ (length ids) asize of
                 None \<Rightarrow> None
               | Some asize \<Rightarrow> parse_parents grow_ok asize (ids @ [parent_id]) parent_id buffer')"
  by pat_completeness auto

termination
  by (relation "measure (\<lambda>(_, _, _, _, buffer). length buffer)") (auto dest!: git_oid__parse_shorter [OF sym])

declare parse_parents.simps [simp del]

lemma git_signature__parse_moves: "git_signature__parse buffer n header ender = Some (sig, k) \<Longrightarrow> 0 < k"
  by (auto simp: git_signature__parse_def Let_def Option.bind_eq_Some_conv split: if_splits)

text \<open>Author fields behind the first one are skipped.\<close>

function skip_authors :: "byte list \<Rightarrow> byte list option" where
  "skip_authors buffer =
     (if length buffer \<ge> 7 \<and> take 7 buffer = bytes_of ''author '' then
        (case git_signature__parse buffer (length buffer) (Some (bytes_of ''author '')) 10 of
           None \<Rightarrow> None
         | Some (_, k) \<Rightarrow> skip_authors (drop k buffer))
      else Some buffer)"
  by pat_completeness auto

termination by (relation "measure length") (auto dest!: git_signature__parse_moves)

declare skip_authors.simps [simp del]

text \<open>
  The other header lines. \<open>prev\<close> is the byte in front of \<open>buffer\<close>; the results are the encoding of the message and the
  text from the empty line on.
\<close>

function parse_headers :: "byte list option \<Rightarrow> byte \<Rightarrow> byte list \<Rightarrow> byte list option \<times> byte list" where
  "parse_headers enc prev buffer =
     (if buffer = [] then (enc, [])
      else if prev = 10 \<and> peek buffer = 10 then (enc, buffer)
      else
        let eoln = length (takeWhile (\<lambda>c. c \<noteq> 10) buffer);
            enc = (if git__prefixcmp buffer (bytes_of ''encoding '') = 0 then Some (cstr (drop 9 (take eoln buffer))) else enc);
            eoln = (if eoln < length buffer then eoln + 1 else eoln)
        in parse_headers enc (buffer ! (eoln - 1)) (drop eoln buffer))"
  by pat_completeness auto

termination
  by (relation "measure (\<lambda>(_, _, buffer). length buffer)") (auto simp: takeWhile_eq_Nil_iff split: if_splits)

declare parse_headers.simps [simp del]

text \<open>\<open>ok\<close> says whether there is memory for the strings and signatures; \<open>None\<close> is the error -1.\<close>

definition git_commit__parse :: "bool \<Rightarrow> (nat \<Rightarrow> bool) \<Rightarrow> git_oid \<Rightarrow> byte list \<Rightarrow> git_commit option" where
  "git_commit__parse ok grow_ok oid0 data =
     (if \<not> grow_ok 1 then None
      else
        case git_oid__parse oid0 data (bytes_of ''tree '') of
          (r, tree_id, buffer) \<Rightarrow>
            if r < 0 then None
            else do {
              (parents, buffer) \<leftarrow> parse_parents grow_ok 1 [] oid0 buffer;
              if \<not> ok then None
              else do {
                (author, k) \<leftarrow> git_signature__parse buffer (length buffer) (Some (bytes_of ''author '')) 10;
                buffer \<leftarrow> skip_authors (drop k buffer);
                (committer, k) \<leftarrow> git_signature__parse buffer (length buffer) (Some (bytes_of ''committer '')) 10;
                let (enc, rest) = parse_headers None (buffer ! (k - 1)) (drop k buffer);
                let header_len = length data - length rest;
                Some \<lparr>c_parent_ids = parents, c_tree_id = tree_id, c_author = author, c_committer = committer,
                      c_message_encoding = enc,
                      c_raw_message = (if header_len + 1 \<le> length data then Some (cstr (drop (header_len + 1) data)) else None),
                      c_raw_header = cstr (take header_len data)\<rparr> } })"

section \<open>The message\<close>

definition git_commit_message :: "git_commit \<Rightarrow> byte list option" where
  "git_commit_message commit = map_option (dropWhile (\<lambda>c. c = 10)) (c_raw_message commit)"

definition paragraph_end :: "byte list \<Rightarrow> bool" where
  "paragraph_end msg \<longleftrightarrow> peek msg = 10 \<and> (peek (tl msg) = 0 \<or> peek (tl msg) = 10)"

text \<open>
  \<open>space\<close> holds the run of white space in front of \<open>msg\<close>, if any, and whether it contains a newline; \<open>out\<close> is the summary so far.
\<close>

fun summary_loop :: "byte list \<Rightarrow> (byte list \<times> bool) option \<Rightarrow> byte list \<Rightarrow> byte list" where
  "summary_loop [] space out = out"
| "summary_loop (c # msg) space out =
     (if c = 0 \<or> paragraph_end (c # msg) then out
      else if git_isspace c then
        (case space of
           None \<Rightarrow> summary_loop msg (Some ([c], c = 10)) out
         | Some (s, nl) \<Rightarrow> summary_loop msg (Some (s @ [c], nl \<or> c = 10)) out)
      else
        summary_loop msg None (out @ (case space of None \<Rightarrow> [] | Some (s, nl) \<Rightarrow> if nl then [32] else s) @ [c]))"

definition git_commit_summary :: "git_commit \<Rightarrow> byte list option" where
  "git_commit_summary commit = map_option (\<lambda>msg. summary_loop msg None []) (git_commit_message commit)"

fun body_start :: "byte list \<Rightarrow> byte list" where
  "body_start [] = []"
| "body_start (c # msg) = (if c = 0 then [] else if paragraph_end (c # msg) then c # msg else body_start msg)"

definition git_commit_body :: "git_commit \<Rightarrow> byte list option" where
  "git_commit_body commit = do {
     msg \<leftarrow> git_commit_message commit;
     let b = dropWhile git_isspace (cstr (body_start msg));
     if b = [] then None else Some (rev (dropWhile git_isspace (rev b))) }"

section \<open>Lines of the header\<close>

definition oid_line :: "byte list \<Rightarrow> git_oid \<Rightarrow> byte list" where
  "oid_line header oid = cstr header @ git_oid_fmt oid @ [10]"

lemma length_oid_line: "length (oid_line header oid) = cstrlen header + 41"
  by (simp add: oid_line_def git_oid_fmt_hex cstrlen_def)

lemma oid_line_parse: "git_oid__parse out (oid_line header oid @ rest) header = (0, oid, rest)"
proof -
  have len: "length (git_oid_fmt oid) = 40" by (simp add: git_oid_fmt_hex)
  have "git_oid_fromstr out (git_oid_fmt oid @ x) = (0, oid)" for x
    using fromstrn_loop_hex [of "[]" "oid_id oid" 40 x] prefix_bytes_all [of "oid_id oid"]
    by (simp add: git_oid_fromstr_def git_oid_fromstrn_def git_oid_fmt_hex)
  then show ?thesis using len by (simp add: oid_line_def git_oid__parse_def cstrlen_def nth_append Let_def)
qed

lemma oid_parse_other:
  assumes "take (cstrlen header) buffer \<noteq> cstr header"
  shows "\<exists>oid'. git_oid__parse oid buffer header = (-1, oid', buffer)"
  using assms by (simp add: git_oid__parse_def Let_def)

lemma oid_writebuf_ok:
  assumes "alloc_env al" and "buf_wf b" and "length (content b) + cstrlen header + 64 < BUF_LIMIT"
  shows "\<exists>b'. git_oid__writebuf al b header oid = Some b' \<and> buf_wf b' \<and> content b' = content b @ oid_line header oid"
proof -
  have len: "length (git_oid_fmt oid) = 40" by (simp add: git_oid_fmt_hex)
  obtain b1 where b1: "git_buf_puts al b header = Some (0, b1)" "buf_wf b1" "content b1 = content b @ cstr header"
    using gb.put_ok [OF assms(1,2), of "cstr header"] assms(3) by (auto simp: git_buf_puts_def cstrlen_def)
  obtain b2 where b2: "git_buf_put al b1 (git_oid_fmt oid) = Some (0, b2)" "buf_wf b2" "content b2 = content b1 @ git_oid_fmt oid"
    using gb.put_ok [OF assms(1) b1(2), of "git_oid_fmt oid"] assms(3) b1(3) len by (auto simp: cstrlen_def)
  obtain b3 where b3: "git_buf_putc al b2 10 = Some (0, b3)" "buf_wf b3" "content b3 = content b2 @ [10]"
    using git_buf_putc_total [OF assms(1) b2(2), of 10] assms(3) b1(3) b2(3) len by (auto simp: cstrlen_def)
  show ?thesis using b1 b2 b3 by (simp add: git_oid__writebuf_def oid_line_def)
qed

lemma write_parents_ok:
  assumes "alloc_env al" and "buf_wf b" and "length (content b) + 48 * length ps + 64 < BUF_LIMIT"
  shows "\<exists>b'. write_parents al b ps = Some b' \<and> buf_wf b' \<and> content b' = content b @ concat (map (oid_line (bytes_of ''parent '')) ps)"
  using assms(2,3)
proof (induction ps arbitrary: b)
  case (Cons p ps)
  have h: "cstrlen (bytes_of ''parent '') = 7" by (simp add: bytes_of_def cstrlen_def)
  obtain b1 where b1: "git_oid__writebuf al b (bytes_of ''parent '') p = Some b1" "buf_wf b1"
      "content b1 = content b @ oid_line (bytes_of ''parent '') p"
    using oid_writebuf_ok [OF assms(1) Cons.prems(1), of "bytes_of ''parent ''" p] Cons.prems(2) h by auto
  then show ?case using Cons.IH [OF b1(2)] Cons.prems(2) length_oid_line [of "bytes_of ''parent ''" p] h by auto
qed simp

lemma parse_parents_lines:
  assumes "\<And>n. grow_ok n" "length ids + length ps < 2 ^ 58" "take 7 rest \<noteq> bytes_of ''parent ''"
  shows "parse_parents grow_ok asize ids oid (concat (map (oid_line (bytes_of ''parent '')) ps) @ rest) = Some (ids @ ps, rest)"
  using assms(2)
proof (induction ps arbitrary: ids asize oid)
  case Nil
  have h: "cstrlen (bytes_of ''parent '') = 7" "cstr (bytes_of ''parent '') = bytes_of ''parent ''" by (simp_all add: bytes_of_def cstrlen_def)
  obtain oid' where "git_oid__parse oid rest (bytes_of ''parent '') = (-1, oid', rest)"
    using oid_parse_other [of "bytes_of ''parent ''" rest oid] assms(3) h by auto
  then show ?case by (simp add: parse_parents.simps [of _ _ _ _ rest])
next
  case (Cons p ps)
  obtain a where a: "git_array_alloc grow_ok GIT_OID_RAWSZ (length ids) asize = Some a"
    using git_array_alloc_total [of grow_ok "length ids" GIT_OID_RAWSZ asize] assms(1) Cons.prems by auto
  show ?case
    using a Cons.IH [of "ids @ [p]" a p] Cons.prems
      oid_line_parse [of oid "bytes_of ''parent ''" p "concat (map (oid_line (bytes_of ''parent '')) ps) @ rest"]
    by (simp add: parse_parents.simps [of _ _ _ _ "oid_line (bytes_of ''parent '') p @ x" for x])
qed

section \<open>The text of a commit\<close>

definition encoding_line :: "byte list option \<Rightarrow> byte list" where
  "encoding_line enc = (case enc of None \<Rightarrow> [] | Some e \<Rightarrow> bytes_of ''encoding '' @ e @ [10])"

definition commit_text :: "git_oid \<Rightarrow> git_oid list \<Rightarrow> byte list \<Rightarrow> byte list \<Rightarrow> byte list" where
  "commit_text tree parents sigs rest =
     oid_line (bytes_of ''tree '') tree @ concat (map (oid_line (bytes_of ''parent '')) parents) @ sigs @ rest"

lemma parse_headers_encoding:
  assumes "case enc of None \<Rightarrow> True | Some e \<Rightarrow> 10 \<notin> set e \<and> 0 \<notin> set e"
  shows "parse_headers None 10 (encoding_line enc @ 10 # msg) = (enc, 10 # msg)"
proof (cases enc)
  case None
  then show ?thesis by (simp add: encoding_line_def parse_headers.simps)
next
  case (Some e)
  let ?l = "bytes_of ''encoding '' @ e" and ?rest = "10 # msg"
  have b: "bytes_of ''encoding '' = [101, 110, 99, 111, 100, 105, 110, 103, 32]" by (simp add: bytes_of_def)
  have nl: "10 \<notin> set ?l" using assms Some by (simp add: b)
  have tw: "takeWhile (\<lambda>c. c \<noteq> 10) (?l @ 10 # ?rest) = ?l" using nl by (subst takeWhile_append2) auto
  have pre: "git__prefixcmp (?l @ 10 # ?rest) (bytes_of ''encoding '') = 0" unfolding b by simp
  have hd: "peek (?l @ 10 # ?rest) \<noteq> 10" by (simp add: b)
  have val: "cstr (drop 9 (take (length ?l) (?l @ 10 # ?rest))) = e" using assms Some by (simp add: b cstr_id)
  have nth: "(?l @ 10 # ?rest) ! (length ?l + 1 - 1) = 10" by (simp add: nth_append)
  have drp: "drop (length ?l + 1) (?l @ 10 # ?rest) = ?rest" by simp
  have lt: "length ?l < length (?l @ 10 # ?rest)" "?l @ 10 # ?rest \<noteq> []" by simp_all
  have line: "encoding_line enc @ 10 # msg = ?l @ 10 # ?rest" using Some by (simp add: encoding_line_def)
  have "parse_headers None 10 (?l @ 10 # ?rest) = parse_headers (Some e) 10 ?rest"
    using parse_headers.simps [of None 10 "?l @ 10 # ?rest", unfolded tw Let_def pre val if_P [OF lt(1)] nth drp] hd lt(2) by simp
  also have "\<dots> = (Some e, ?rest)" by (simp add: parse_headers.simps [of _ _ "10 # msg"])
  finally show ?thesis using Some line by simp
qed

lemma skip_authors_other: "take 7 buffer \<noteq> bytes_of ''author '' \<Longrightarrow> skip_authors buffer = Some buffer"
  by (simp add: skip_authors.simps [of buffer])

lemma signature_line_prefix:
  assumes "signature_line (Some header) sig = Some line" and "n \<le> cstrlen header"
  shows "take n (line @ rest) = take n (cstr header)"
  using assms by (auto simp: signature_line_def Let_def cstrlen_def split: if_splits)

lemma signature_line_end:
  assumes "signature_line header sig = Some line" shows "line \<noteq> []" "last line = 10"
  using assms by (auto simp: signature_line_def Let_def split: if_splits)

lemma header_names:
  "cstr (bytes_of ''tree '') = bytes_of ''tree ''" "cstrlen (bytes_of ''tree '') = 5"
  "cstr (bytes_of ''author '') = bytes_of ''author ''" "cstrlen (bytes_of ''author '') = 7"
  "cstr (bytes_of ''committer '') = bytes_of ''committer ''" "cstrlen (bytes_of ''committer '') = 10"
  by (simp_all add: bytes_of_def cstrlen_def)

text \<open>A commit whose parts are parsed one by one; \<open>rest\<close> is what follows the committer line.\<close>

lemma git_commit__parse_text:
  assumes grow: "\<forall>n. grow_ok n" and n: "length parents < 2 ^ 58"
    and author: "signature_ok author" "signature_line (Some (bytes_of ''author '')) author = Some al"
    and committer: "signature_ok committer" "signature_line (Some (bytes_of ''committer '')) committer = Some cl"
    and rest: "parse_headers None 10 rest = (enc, rest2)"
    and data_def: "data = commit_text tree parents (al @ cl) rest"
  shows "git_commit__parse True grow_ok oid data =
    (let header_len = length data - length rest2
     in Some \<lparr>c_parent_ids = parents, c_tree_id = tree, c_author = reread author, c_committer = reread committer,
              c_message_encoding = enc,
              c_raw_message = (if header_len + 1 \<le> length data then Some (cstr (drop (header_len + 1) data)) else None),
              c_raw_header = cstr (take header_len data)\<rparr>)"
proof -
  let ?ps = "concat (map (oid_line (bytes_of ''parent '')) parents)"
  have t: "git_oid__parse oid data (bytes_of ''tree '') = (0, tree, ?ps @ (al @ cl @ rest))"
    unfolding data_def commit_text_def by (simp add: oid_line_parse)
  have "take 7 (al @ cl @ rest) = bytes_of ''author ''"
    using signature_line_prefix [OF author(2), of 7 "cl @ rest"] header_names by (simp add: bytes_of_def)
  then have "take 7 (al @ cl @ rest) \<noteq> bytes_of ''parent ''" by (simp add: bytes_of_def)
  from parse_parents_lines [of grow_ok, OF _ _ this] grow n
  have p: "parse_parents grow_ok 1 [] oid (?ps @ (al @ cl @ rest)) = Some (parents, al @ cl @ rest)" by simp
  have a: "git_signature__parse (al @ cl @ rest) (length (al @ cl @ rest)) (Some (bytes_of ''author '')) 10 = Some (reread author, length al)"
    by (rule signature_line_parse [OF author(1) _ author(2)]) (simp_all add: header_names bytes_of_def)
  have "take 7 (cl @ rest) = take 7 (bytes_of ''committer '')"
    using signature_line_prefix [OF committer(2), of 7 rest] header_names by (simp add: bytes_of_def)
  then have "take 7 (cl @ rest) \<noteq> bytes_of ''author ''" by (simp add: bytes_of_def)
  then have s: "skip_authors (cl @ rest) = Some (cl @ rest)" by (rule skip_authors_other)
  have c: "git_signature__parse (cl @ rest) (length (cl @ rest)) (Some (bytes_of ''committer '')) 10 = Some (reread committer, length cl)"
    by (rule signature_line_parse [OF committer(1) _ committer(2)]) (simp_all add: header_names bytes_of_def)
  have prev: "(cl @ rest) ! (length cl - 1) = 10"
    using signature_line_end [OF committer(2)] by (simp add: nth_append last_conv_nth)
  have d: "drop (length cl) (cl @ rest) = rest" by simp
  show ?thesis
    unfolding git_commit__parse_def Let_def using grow
    by (simp del: One_nat_def length_append append_assoc add: t p a s c prev d rest)
qed

lemma git_commit_written:
  assumes env: "alloc_env al" and wf: "buf_wf b"
    and ok: "signature_ok author" "signature_ok committer"
    and enc: "case enc of None \<Rightarrow> True | Some e \<Rightarrow> 10 \<notin> set e \<and> 0 \<notin> set e"
    and lim: "length (content b) + 48 * length parents + length (sig_name author) + length (sig_email author) +
      length (sig_name committer) + length (sig_email committer) + (case enc of None \<Rightarrow> 0 | Some e \<Rightarrow> length e) + length msg + 1000 < BUF_LIMIT"
  shows "\<exists>b' a c. git_commit__create_buffer_internal al b author committer enc msg tree parents = Some (0, b') \<and> buf_wf b' \<and>
    content b' = content b @ commit_text tree parents (a @ c) (encoding_line enc @ 10 # cstr msg) \<and>
    signature_line (Some (bytes_of ''author '')) author = Some a \<and> signature_line (Some (bytes_of ''committer '')) committer = Some c"
proof -
  let ?ps = "concat (map (oid_line (bytes_of ''parent '')) parents)"
  have pl: "length ?ps = 48 * length parents"
    by (induction parents) (simp_all add: length_oid_line, simp_all add: bytes_of_def cstrlen_def)
  have tl: "length (oid_line (bytes_of ''tree '') tree) = 46" by (simp add: length_oid_line header_names)
  obtain b1 where b1: "git_oid__writebuf al b (bytes_of ''tree '') tree = Some b1" "buf_wf b1" "content b1 = content b @ oid_line (bytes_of ''tree '') tree"
    using oid_writebuf_ok [OF env wf, of "bytes_of ''tree ''" tree] lim by (auto simp: header_names)
  obtain b2 where b2: "write_parents al b1 parents = Some b2" "buf_wf b2" "content b2 = content b1 @ ?ps"
    using write_parents_ok [OF env b1(2), of parents] lim b1(3) tl by auto
  have n2: "length (content b2) = length (content b) + 46 + 48 * length parents" using b1(3) b2(3) tl pl by simp
  obtain b3 a where b3: "git_signature__writebuf al b2 (Some (bytes_of ''author '')) author = Some b3" "buf_wf b3" "content b3 = content b2 @ a"
      "signature_line (Some (bytes_of ''author '')) author = Some a" "length a \<le> 7 + length (sig_name author) + length (sig_email author) + 21"
    using signature_writebuf_ok [OF env b2(2) ok(1), of "Some (bytes_of ''author '')"] lim n2 by (auto simp: header_names)
  obtain b4 c where b4: "git_signature__writebuf al b3 (Some (bytes_of ''committer '')) committer = Some b4" "buf_wf b4" "content b4 = content b3 @ c"
      "signature_line (Some (bytes_of ''committer '')) committer = Some c" "length c \<le> 10 + length (sig_name committer) + length (sig_email committer) + 21"
    using signature_writebuf_ok [OF env b3(2) ok(2), of "Some (bytes_of ''committer '')"] lim n2 b3(3,5) by (auto simp: header_names)
  have n4: "length (content b4) + (case enc of None \<Rightarrow> 0 | Some e \<Rightarrow> length e) + length msg + 500 < BUF_LIMIT"
    using lim n2 b3(3,5) b4(3,5) by simp
  have "\<exists>b5. (case enc of None \<Rightarrow> Some b4
        | Some e \<Rightarrow> map_option snd (git_buf_vprintf al b4 (bytes_of ''encoding %s'' @ [10]) (Some (bytes_of ''encoding '' @ cstr e @ [10])))) = Some b5 \<and>
      buf_wf b5 \<and> content b5 = content b4 @ encoding_line enc"
  proof (cases enc)
    case None
    then show ?thesis using b4(2) by (simp add: encoding_line_def)
  next
    case (Some e)
    let ?line = "bytes_of ''encoding '' @ cstr e @ [10]" and ?fmt = "bytes_of ''encoding %s'' @ [10]"
    have e: "cstr e = e" using enc Some by (simp add: cstr_id)
    have al: "good_alloc al" using env by (simp add: alloc_env_def)
    have lf: "length ?line = length e + 10" "cstrlen ?fmt = 12" by (simp_all add: e bytes_of_def cstrlen_def)
    have "buf_size b4 = length (content b4)" using length_content [OF b4(2)] by simp
    then have "buf_size b4 + length ?line + 1 \<le> BUF_LIMIT" "buf_size b4 + 2 * cstrlen ?fmt \<le> BUF_LIMIT" using n4 Some lf by simp_all
    from buf_outcome_total [OF git_buf_vprintf_outcome [OF al b4(2) this] env] show ?thesis
      using Some e by (auto simp: encoding_line_def)
  qed
  then obtain b5 where b5: "(case enc of None \<Rightarrow> Some b4
        | Some e \<Rightarrow> map_option snd (git_buf_vprintf al b4 (bytes_of ''encoding %s'' @ [10]) (Some (bytes_of ''encoding '' @ cstr e @ [10])))) = Some b5"
      "buf_wf b5" "content b5 = content b4 @ encoding_line enc" by blast
  have el: "length (encoding_line enc) \<le> (case enc of None \<Rightarrow> 0 | Some e \<Rightarrow> length e) + 10" by (simp add: encoding_line_def bytes_of_def split: option.splits)
  obtain b6 where b6: "git_buf_putc al b5 10 = Some (0, b6)" "buf_wf b6" "content b6 = content b5 @ [10]"
    using git_buf_putc_total [OF env b5(2), of 10] n4 b5(3) el by auto
  have "length (cstr msg) \<le> length msg" by (simp add: cstr_def length_takeWhile_le)
  then obtain b7 where b7: "git_buf_puts al b6 msg = Some (0, b7)" "buf_wf b7" "content b7 = content b6 @ cstr msg"
    using gb.put_ok [OF env b6(2), of "cstr msg"] n4 b5(3) b6(3) el by (auto simp: git_buf_puts_def)
  have "git_commit__create_buffer_internal al b author committer enc msg tree parents = Some (0, b7)"
    unfolding git_commit__create_buffer_internal_def using b1(1) b2(1) b3(1) b4(1) b5(1) b6(1) b7(1) by simp
  moreover have "content b7 = content b @ commit_text tree parents (a @ c) (encoding_line enc @ 10 # cstr msg)"
    using b1(3) b2(3) b3(3) b4(3) b5(3) b6(3) b7(3) by (simp add: commit_text_def)
  ultimately show ?thesis using b7(2) b3(4) b4(4) by blast
qed

section \<open>Summary and body\<close>

fun first_paragraph :: "byte list \<Rightarrow> byte list" where
  "first_paragraph [] = []"
| "first_paragraph (c # msg) = (if c = 0 \<or> paragraph_end (c # msg) then [] else c # first_paragraph msg)"

lemma paragraphs: "cstr msg = first_paragraph msg @ cstr (body_start msg)"
  by (induction msg) auto

lemma body_start_division: "cstr (body_start msg) = [] \<or> cstr (body_start msg) = [10] \<or> (\<exists>t. cstr (body_start msg) = 10 # 10 # t)"
proof (induction msg)
  case (Cons c msg)
  show ?case
  proof (cases "c \<noteq> 0 \<and> paragraph_end (c # msg)")
    case True
    then show ?thesis by (cases msg) (auto simp: paragraph_end_def)
  qed (use Cons in auto)
qed simp

lemma first_paragraph_undivided: "first_paragraph msg = q @ 10 # t \<Longrightarrow> t \<noteq> [] \<and> hd t \<noteq> 10"
proof (induction msg arbitrary: q)
  case (Cons c msg)
  have in_paragraph: "\<not> (c = 0 \<or> paragraph_end (c # msg))" using Cons.prems by (auto split: if_splits)
  show ?case
  proof (cases q)
    case Nil
    then have "c = 10" "t = first_paragraph msg" using Cons.prems in_paragraph by auto
    then show ?thesis using in_paragraph by (cases msg) (auto simp: paragraph_end_def)
  next
    case (Cons d q')
    then show ?thesis using Cons.IH [of q'] Cons.prems in_paragraph by auto
  qed
qed simp

text \<open>
  What a reader takes for the summary of a paragraph \<open>p\<close>: every visible character with the white space in front of it, that
  is one space if there is a line break in it. The white space at the end goes. And what is left of a text without the
  white space around it.
\<close>

definition white :: "byte list \<Rightarrow> bool" where
  "white s \<longleftrightarrow> set s \<subseteq> {9, 10, 11, 12, 13, 32}"

definition summary_of :: "byte list \<Rightarrow> byte list \<Rightarrow> bool" where
  "summary_of p s \<longleftrightarrow> (\<exists>ps trail. p = concat (map (\<lambda>(gap, c). gap @ [c]) ps) @ trail \<and> white trail \<and>
     (\<forall>(gap, c)\<in>set ps. white gap \<and> \<not> white [c]) \<and>
     s = concat (map (\<lambda>(gap, c). (if 10 \<in> set gap then [32] else gap) @ [c]) ps))"

definition trimmed_to :: "byte list \<Rightarrow> byte list option \<Rightarrow> bool" where
  "trimmed_to r b \<longleftrightarrow> (case b of None \<Rightarrow> white r
     | Some t \<Rightarrow> \<exists>u v. r = u @ t @ v \<and> white u \<and> white v \<and> t \<noteq> [] \<and> \<not> white [hd t] \<and> \<not> white [last t])"

lemma white_isspace: "white s \<longleftrightarrow> (\<forall>c\<in>set s. git_isspace c)"
  by (auto simp: white_def git_isspace_def)

lemma summary_of_line: "summary_of p s \<Longrightarrow> 10 \<notin> set s"
  by (fastforce simp: summary_of_def white_def split: if_splits)

lemma summary_loop_summary:
  "(case space of None \<Rightarrow> True | Some (s, nl) \<Rightarrow> white s \<and> nl = (10 \<in> set s)) \<Longrightarrow>
   \<exists>t. summary_loop msg space out = out @ t \<and>
     summary_of ((case space of None \<Rightarrow> [] | Some (s, nl) \<Rightarrow> s) @ first_paragraph msg) t"
proof (induction msg space out rule: summary_loop.induct)
  case (1 space out)
  define gap where "gap = (case space of None \<Rightarrow> [] | Some (s, nl) \<Rightarrow> s)"
  have "white gap" using 1 by (auto simp: gap_def white_def split: option.splits)
  then have "summary_of gap []" unfolding summary_of_def by (intro exI [of _ "[]"] exI [of _ gap]) simp
  then show ?case by (intro exI [of _ "[]"]) (simp add: gap_def)
next
  case (2 c msg space out)
  define gap where "gap = (case space of None \<Rightarrow> [] | Some (s, nl) \<Rightarrow> s)"
  have gap: "white gap" using 2(4) by (auto simp: gap_def white_def split: option.splits)
  consider "c = 0 \<or> paragraph_end (c # msg)" | "\<not> (c = 0 \<or> paragraph_end (c # msg))" "git_isspace c"
    | "\<not> (c = 0 \<or> paragraph_end (c # msg))" "\<not> git_isspace c" by blast
  then show ?case
  proof cases
    case 1
    have "summary_of gap []" unfolding summary_of_def using gap by (intro exI [of _ "[]"] exI [of _ gap]) simp
    then show ?thesis using 1 by (intro exI [of _ "[]"]) (simp add: gap_def)
  next
    case 2
    have step: "summary_loop (c # msg) space out = summary_loop msg (Some (gap @ [c], 10 \<in> set (gap @ [c]))) out"
      using 2 "2.prems" by (auto simp: gap_def disj_commute split: option.splits)
    have "\<exists>t. summary_loop msg (Some (gap @ [c], 10 \<in> set (gap @ [c]))) out = out @ t \<and> summary_of ((gap @ [c]) @ first_paragraph msg) t"
    proof (cases space)
      case None
      then show ?thesis using "2.IH"(1) 2 by (auto simp: gap_def white_isspace)
    next
      case (Some sp)
      then obtain nl where nl: "sp = (gap, nl)" "nl = (10 \<in> set gap)" using "2.prems" by (auto simp: gap_def split: prod.splits)
      have "(10 \<in> set (gap @ [c])) = (10 \<in> set gap \<or> c = 10)" by auto
      then show ?thesis using "2.IH"(2) [OF _ _ Some nl(1) [symmetric]] 2 gap unfolding nl(2) by (simp add: white_isspace)
    qed
    then show ?thesis using 2 step by (simp add: gap_def)
  next
    case 3
    let ?e = "(if 10 \<in> set gap then [32] else gap) @ [c]"
    have e: "(case space of None \<Rightarrow> [] | Some (s, nl) \<Rightarrow> if nl then [32] else s) @ [c] = ?e"
      using "2.prems" by (auto simp: gap_def split: option.splits)
    have "summary_loop (c # msg) space out = summary_loop msg None (out @ ?e)"
      using 3 by (simp add: e [symmetric])
    moreover obtain t where t: "summary_loop msg None (out @ ?e) = (out @ ?e) @ t" "summary_of (first_paragraph msg) t"
      using "2.IH"(3) [unfolded e] 3 by auto
    obtain ps trail where ps: "first_paragraph msg = concat (map (\<lambda>(gap, c). gap @ [c]) ps) @ trail" "white trail"
        "\<forall>(gap, c)\<in>set ps. white gap \<and> \<not> white [c]"
        "t = concat (map (\<lambda>(gap, c). (if 10 \<in> set gap then [32] else gap) @ [c]) ps)"
      using t(2) unfolding summary_of_def by blast
    have "summary_of (gap @ first_paragraph (c # msg)) (?e @ t)"
      unfolding summary_of_def using 3 ps gap
      by (intro exI [of _ "(gap, c) # ps"] exI [of _ trail]) (auto simp: white_isspace)
    ultimately show ?thesis using t(1) by (intro exI [of _ "?e @ t"]) (simp add: gap_def)
  qed
qed

lemma trim_spec: "trimmed_to r (let b = dropWhile git_isspace r in if b = [] then None else Some (rev (dropWhile git_isspace (rev b))))"
proof -
  define b where "b = dropWhile git_isspace r"
  have r: "r = takeWhile git_isspace r @ b" by (simp add: b_def)
  have u: "white (takeWhile git_isspace r)" by (auto simp: white_isspace dest: set_takeWhileD)
  show ?thesis
  proof (cases "b = []")
    case True
    then show ?thesis by (simp add: trimmed_to_def b_def white_isspace)
  next
    case False
    define t where "t = rev (dropWhile git_isspace (rev b))"
    define v where "v = rev (takeWhile git_isspace (rev b))"
    have tv: "b = t @ v" unfolding t_def v_def by (metis rev_append rev_rev_ident takeWhile_dropWhile_id)
    have v: "white v" by (auto simp: white_isspace v_def dest: set_takeWhileD)
    have h: "\<not> git_isspace (hd b)" using False hd_dropWhile unfolding b_def by blast
    then have "\<not> white b" using False by (auto simp: white_isspace intro: hd_in_set)
    then have t: "t \<noteq> []" using tv v by auto
    then have "hd b = hd t" by (simp add: tv)
    moreover have "\<not> git_isspace (last t)" using t hd_dropWhile [of git_isspace "rev b"] by (simp add: t_def last_rev)
    ultimately have "r = takeWhile git_isspace r @ t @ v \<and> \<not> white [hd t] \<and> \<not> white [last t]"
      using r tv h by (simp add: white_isspace)
    then show ?thesis using u v t False unfolding trimmed_to_def Let_def b_def [symmetric] t_def [symmetric] by auto
  qed
qed

lemma cstr_newlines: "cstr (dropWhile (\<lambda>c. c = 10) s) = dropWhile (\<lambda>c. c = 10) (cstr s)"
  by (induction s) auto

section \<open>Properties\<close>

text \<open>C32: The text of a commit that \<open>git_commit__create_buffer_internal\<close> writes is parsed by \<open>git_commit__parse\<close> as the same
  commit: tree, parents in their order, author, committer, encoding and message; only offsets of signatures that cannot be
  kept are lost.\<close>

theorem git_commit_write_parse:
  assumes "alloc_env al" and "buf_wf b" and "content b = []" and "\<forall>n. grow_ok n"
    and "signature_ok author" and "signature_ok committer"
    and "case enc of None \<Rightarrow> True | Some e \<Rightarrow> 10 \<notin> set e \<and> 0 \<notin> set e" and "0 \<notin> set msg"
    and "48 * length parents + length (sig_name author) + length (sig_email author) + length (sig_name committer) +
      length (sig_email committer) + (case enc of None \<Rightarrow> 0 | Some e \<Rightarrow> length e) + length msg + 1000 < BUF_LIMIT"
  shows "\<exists>b' c. git_commit__create_buffer_internal al b author committer enc msg tree parents = Some (0, b') \<and> buf_wf b' \<and>
    git_commit__parse True grow_ok oid0 (content b') = Some c \<and>
    c_parent_ids c = parents \<and> c_tree_id c = tree \<and> c_author c = reread author \<and> c_committer c = reread committer \<and>
    c_message_encoding c = enc \<and> c_raw_message c = Some msg \<and> git_commit_message c = Some (dropWhile (\<lambda>c. c = 10) msg)"
proof -
  have n: "length parents < 2 ^ 58" using assms(9) by (simp add: BUF_LIMIT_def)
  obtain b' a l where w: "git_commit__create_buffer_internal al b author committer enc msg tree parents = Some (0, b')" "buf_wf b'"
      "content b' = commit_text tree parents (a @ l) (encoding_line enc @ 10 # msg)"
      "signature_line (Some (bytes_of ''author '')) author = Some a" "signature_line (Some (bytes_of ''committer '')) committer = Some l"
    using git_commit_written [OF assms(1,2,5-7), of parents msg tree] assms(3,8,9) by (auto simp: cstr_id)
  define data where "data = commit_text tree parents (a @ l) (encoding_line enc @ 10 # msg)"
  have data: "data = (oid_line (bytes_of ''tree '') tree @ concat (map (oid_line (bytes_of ''parent '')) parents) @ a @ l @ encoding_line enc) @ 10 # msg"
    by (simp add: data_def commit_text_def)
  have cut: "length data - length (10 # msg) + 1 \<le> length data" "drop (length data - length (10 # msg) + 1) data = msg"
    unfolding data by simp_all
  note parsed = git_commit__parse_text [OF assms(4) n assms(5) w(4) assms(6) w(5) parse_headers_encoding [OF assms(7)] data_def, where oid = oid0]
  show ?thesis
    using w(1,2) cut parsed w(3) [folded data_def] by (auto simp: Let_def cstr_id [OF assms(8)] git_commit_message_def)
qed

theorem git_commit_write_parse_witness:
  "\<exists>b' c. git_commit__create_buffer_internal (fill_alloc 0) GIT_BUF_INIT
      \<lparr>sig_name = bytes_of ''A'', sig_email = bytes_of ''a'', sig_time = 1, sig_offset = 60\<rparr>
      \<lparr>sig_name = bytes_of ''C'', sig_email = bytes_of ''c'', sig_time = 2, sig_offset = -90\<rparr>
      (Some (bytes_of ''latin1'')) (bytes_of ''msg'') (oid_of [1]) [oid_of [2], oid_of [3]] = Some (0, b') \<and>
     git_commit__parse True (\<lambda>_. True) (oid_of []) (content b') = Some c \<and>
     c_parent_ids c = [oid_of [2], oid_of [3]] \<and> sig_offset (c_committer c) = -90 \<and> c_raw_message c = Some (bytes_of ''msg'')"
proof -
  let ?a = "\<lparr>sig_name = bytes_of ''A'', sig_email = bytes_of ''a'', sig_time = 1, sig_offset = 60\<rparr>"
  let ?c = "\<lparr>sig_name = bytes_of ''C'', sig_email = bytes_of ''c'', sig_time = 2, sig_offset = -90\<rparr>"
  have ok: "signature_ok ?a" "signature_ok ?c" by (simp_all add: signature_ok_def extract_trimmed_def is_crud_def bytes_of_def)
  have off: "sig_offset (reread ?c) = -90" by (simp add: reread_def offset_kept_def)
  show ?thesis
    using git_commit_write_parse [of "fill_alloc 0" GIT_BUF_INIT "\<lambda>_. True" ?a ?c "Some (bytes_of ''latin1'')" "bytes_of ''msg''"
      "[oid_of [2], oid_of [3]]" "oid_of [1]" "oid_of []"] ok off
    by (auto simp: bytes_of_def BUF_LIMIT_def)
qed

text \<open>A commit that ends with the committer line is accepted, but it has no message: \<open>raw_message\<close> stays NULL, and
  \<open>git_commit_message\<close>, \<open>git_commit_summary\<close> and \<open>git_commit_body\<close> follow that pointer.\<close>

theorem git_commit__parse_no_message:
  assumes "\<forall>n. grow_ok n" and "length parents < 2 ^ 58" and "signature_ok author" and "signature_ok committer"
    and "signature_line (Some (bytes_of ''author '')) author = Some a"
    and "signature_line (Some (bytes_of ''committer '')) committer = Some c"
  shows "\<exists>commit. git_commit__parse True grow_ok oid (commit_text tree parents (a @ c) []) = Some commit \<and>
    c_raw_message commit = None \<and> git_commit_message commit = None \<and> git_commit_summary commit = None \<and> git_commit_body commit = None"
proof -
  have "parse_headers None 10 [] = (None, [])" by (simp add: parse_headers.simps)
  from git_commit__parse_text [OF assms(1,2,3,5,4,6) this refl, of oid tree] show ?thesis
    by (auto simp: Let_def git_commit_message_def git_commit_summary_def git_commit_body_def)
qed

theorem git_commit__parse_no_message_witness:
  "\<exists>a c commit. signature_line (Some (bytes_of ''author '')) \<lparr>sig_name = bytes_of ''A'', sig_email = bytes_of ''a'', sig_time = 1, sig_offset = 60\<rparr> = Some a \<and>
     signature_line (Some (bytes_of ''committer '')) \<lparr>sig_name = bytes_of ''A'', sig_email = bytes_of ''a'', sig_time = 1, sig_offset = 60\<rparr> = Some c \<and>
     git_commit__parse True (\<lambda>_. True) (oid_of []) (commit_text (oid_of [1]) [] (a @ c) []) = Some commit \<and> git_commit_message commit = None"
proof -
  let ?s = "\<lparr>sig_name = bytes_of ''A'', sig_email = bytes_of ''a'', sig_time = 1, sig_offset = 60\<rparr>"
  have ok: "signature_ok ?s" by (simp add: signature_ok_def extract_trimmed_def is_crud_def bytes_of_def)
  obtain a c where l: "signature_line (Some (bytes_of ''author '')) ?s = Some a" "signature_line (Some (bytes_of ''committer '')) ?s = Some c"
    using signature_line_ok [OF ok] by blast
  show ?thesis using git_commit__parse_no_message [OF _ _ ok ok l, of "\<lambda>_. True" "[]" "oid_of []" "oid_of [1]"] l by auto
qed



end
