(* ===== verification/StrChr.thy ===== *)
theory StrChr
  imports Strings
begin

text \<open>
  The searches for a character in a string, as offsets: \<open>strchr\<close> and \<open>strrchr\<close> of the C library, and how they go with the
  fields of a string.
\<close>

definition strchr_pos :: "byte \<Rightarrow> byte list \<Rightarrow> nat option" where
  "strchr_pos c s = (if c \<in> set s then Some (length (takeWhile (\<lambda>x. x \<noteq> c) s)) else None)"

definition strrchr :: "byte \<Rightarrow> byte list \<Rightarrow> nat option" where
  "strrchr c s = (if c \<in> set s then Some (length s - 1 - length (takeWhile (\<lambda>x. x \<noteq> c) (rev s))) else None)"

lemma strchr_pos_first: "c \<notin> set p \<Longrightarrow> strchr_pos c (p @ c # q) = Some (length p)"
  by (induction p) (auto simp: strchr_pos_def)

lemma strchr_pos_None: "strchr_pos c s = None \<longleftrightarrow> c \<notin> set s"
  by (simp add: strchr_pos_def)

lemma strchr_pos_Some:
  assumes "strchr_pos c s = Some k"
  shows "s = take k s @ c # drop (k + 1) s \<and> c \<notin> set (take k s) \<and> k < length s"
proof -
  have c: "c \<in> set s" and k: "k = length (takeWhile (\<lambda>x. x \<noteq> c) s)" using assms by (auto simp: strchr_pos_def split: if_splits)
  have less: "k < length s" using c unfolding k by (induction s) auto
  have t: "take k s = takeWhile (\<lambda>x. x \<noteq> c) s" unfolding k by (metis takeWhile_eq_take)
  have "s ! k = c" using nth_length_takeWhile [of "\<lambda>x. x \<noteq> c" s] less unfolding k by blast
  then have "s = take k s @ c # drop (k + 1) s" using id_take_nth_drop [OF less] by simp
  moreover have "c \<notin> set (take k s)" unfolding t by (auto dest: set_takeWhileD)
  ultimately show ?thesis using less by blast
qed

text \<open>Going from separator to separator visits the fields.\<close>

lemma split_fields_strchr:
  "split_fields (\<lambda>x. x = c) s =
     (case strchr_pos c s of None \<Rightarrow> [s] | Some k \<Rightarrow> take k s # split_fields (\<lambda>x. x = c) (drop (k + 1) s))"
proof (cases "strchr_pos c s")
  case None
  then have "\<forall>x\<in>set s. x \<noteq> c" by (auto simp: strchr_pos_None)
  then show ?thesis using None split_fields_none [of s "\<lambda>x. x = c"] by simp
next
  case (Some k)
  note s = strchr_pos_Some [OF Some]
  have "split_fields (\<lambda>x. x = c) (take k s @ c # drop (k + 1) s) = take k s # split_fields (\<lambda>x. x = c) (drop (k + 1) s)"
    using s by (intro split_fields_append) auto
  then show ?thesis using s Some by simp
qed

end
