(* ===== verification/TreeCache.thy ===== *)
theory TreeCache
  imports StrChr Signature Tree "HOL-Library.Sublist"
begin

text \<open>
  The tree cache (tree-cache.c): the ids of the trees an index would write, kept per directory. An entry count of -1 marks
  a directory whose tree is out of date.
\<close>

section \<open>The cache and its directories\<close>

datatype git_tree_cache =
  Tree_Cache (tc_name: "byte list") (tc_entry_count: int) (tc_oid: git_oid) (tc_children: "git_tree_cache list")

text \<open>The first child with the name; \<open>dirlen\<close> bytes of \<open>path\<close> are compared.\<close>

fun find_child_from :: "nat \<Rightarrow> git_tree_cache list \<Rightarrow> byte list \<Rightarrow> nat \<Rightarrow> nat option" where
  "find_child_from i [] path dirlen = None"
| "find_child_from i (child # children) path dirlen =
     (if length (tc_name child) = dirlen \<and> take dirlen path = tc_name child then Some i
      else find_child_from (i + 1) children path dirlen)"

definition find_child :: "git_tree_cache \<Rightarrow> byte list \<Rightarrow> nat option \<Rightarrow> nat option" where
  "find_child tree path end_pos =
     find_child_from 0 (tc_children tree) path (case end_pos of None \<Rightarrow> length path | Some k \<Rightarrow> k)"

text \<open>The updates in place are updates of the child they reach. \<open>ptr\<close> has no NUL.\<close>

function invalidate :: "git_tree_cache \<Rightarrow> byte list \<Rightarrow> git_tree_cache" where
  "invalidate tree ptr =
     (let tree' = Tree_Cache (tc_name tree) (-1) (tc_oid tree) (tc_children tree) in
      case strchr_pos 47 ptr of
        None \<Rightarrow> tree'
      | Some k \<Rightarrow>
          (case find_child tree ptr (Some k) of
             None \<Rightarrow> tree'
           | Some i \<Rightarrow> Tree_Cache (tc_name tree) (-1) (tc_oid tree)
               ((tc_children tree)[i := invalidate (tc_children tree ! i) (drop (k + 1) ptr)])))"
  by pat_completeness auto

termination
  by (relation "measure (length \<circ> snd)") (auto dest: strchr_pos_Some)

declare invalidate.simps [simp del]

definition git_tree_cache_invalidate_path :: "git_tree_cache option \<Rightarrow> byte list \<Rightarrow> git_tree_cache option" where
  "git_tree_cache_invalidate_path tree path = map_option (\<lambda>t. invalidate t (cstr path)) tree"

text \<open>\<open>*end + 1 == '\0'\<close> adds one to the slash itself.\<close>

function cache_get :: "git_tree_cache \<Rightarrow> byte list \<Rightarrow> git_tree_cache option" where
  "cache_get tree ptr =
     (let end_pos = strchr_pos 47 ptr in
      case find_child tree ptr end_pos of
        None \<Rightarrow> None
      | Some i \<Rightarrow>
          (case end_pos of
             None \<Rightarrow> Some (tc_children tree ! i)
           | Some k \<Rightarrow>
               if schar (ptr ! k) + 1 = 0 then Some (tc_children tree ! i)
               else cache_get (tc_children tree ! i) (drop (k + 1) ptr)))"
  by pat_completeness auto

termination
  by (relation "measure (length \<circ> snd)") (auto dest: strchr_pos_Some strchr_pos_Some [OF sym])

declare cache_get.simps [simp del]

definition git_tree_cache_get :: "git_tree_cache option \<Rightarrow> byte list \<Rightarrow> git_tree_cache option" where
  "git_tree_cache_get tree path = (case tree of None \<Rightarrow> None | Some t \<Rightarrow> cache_get t (cstr path))"

section \<open>Reading the extension of the index\<close>

text \<open>The outcomes of reading: fuel that does not last, undefined behaviour, an error, a result.\<close>

datatype 'a cache_result = No_Fuel | Undefined | Failed int | Done 'a

fun and_then :: "'a cache_result \<Rightarrow> ('a \<Rightarrow> 'b cache_result) \<Rightarrow> 'b cache_result" where
  "and_then No_Fuel f = No_Fuel"
| "and_then Undefined f = Undefined"
| "and_then (Failed e) f = Failed e"
| "and_then (Done x) f = f x"

lemma and_then_cong [fundef_cong]: "r = r' \<Longrightarrow> (\<And>x. r' = Done x \<Longrightarrow> f x = g x) \<Longrightarrow> and_then r f = and_then r' g"
  by (cases r') auto

text \<open>\<open>git_pool_malloc\<close> takes the number of bytes as \<open>uint32_t\<close> and rounds it up to a multiple of 8; \<open>pool n\<close> says
  whether there are \<open>n\<close> bytes. The memory is then filled for the number that was meant.\<close>

definition alloc_size :: "nat \<Rightarrow> nat" where
  "alloc_size n = (n + 7) div 8 * 8 mod 2 ^ 32"

definition pool_fill :: "(nat \<Rightarrow> bool) \<Rightarrow> nat \<Rightarrow> unit cache_result" where
  "pool_fill pool n = (if \<not> pool (alloc_size n) then Failed (-1) else if alloc_size n < n then Undefined else Done ())"

definition git_tree_cache_new :: "(nat \<Rightarrow> bool) \<Rightarrow> byte list \<Rightarrow> git_tree_cache cache_result" where
  "git_tree_cache_new pool name =
     and_then (pool_fill pool (56 + cstrlen name + 1)) (\<lambda>_. Done (Tree_Cache (cstr name) 0 (oid_of []) []))"

text \<open>The numbers of a node: the count of entries and of children, and what follows the line; \<open>None\<close> is an error.\<close>

definition read_counts :: "nat \<Rightarrow> byte list \<Rightarrow> (int \<times> nat \<times> byte list) option" where
  "read_counts behind buffer =
     (case git__strtol32 buffer 10 of
        (_, Some b, Some entry_count) \<Rightarrow>
          if peek b \<noteq> 32 \<or> length (tl b) \<le> behind then None
          else (case git__strtol32 (tl b) 10 of
              (_, Some b, Some n) \<Rightarrow>
                if n < 0 \<or> peek b \<noteq> 10 \<or> length (tl b) < behind then None else Some (entry_count, nat n, tl b)
            | _ \<Rightarrow> None)
      | _ \<Rightarrow> None)"

text \<open>\<open>buffer\<close> goes on with \<open>behind\<close> bytes after \<open>buffer_end\<close>, which the number parser may look at. The fuel bounds the
  depth.\<close>

fun read_tree_internal :: "nat \<Rightarrow> (nat \<Rightarrow> bool) \<Rightarrow> nat \<Rightarrow> byte list \<Rightarrow> (git_tree_cache \<times> byte list) cache_result"
and read_children :: "nat \<Rightarrow> (nat \<Rightarrow> bool) \<Rightarrow> nat \<Rightarrow> nat \<Rightarrow> byte list \<Rightarrow> (git_tree_cache list \<times> byte list) cache_result" where
  "read_tree_internal 0 pool behind buffer = No_Fuel"
| "read_tree_internal (Suc fuel) pool behind buffer =
     (let b1 = drop (cstrlen buffer + 1) buffer in
      if 0 \<notin> set (take (length buffer - behind) buffer) \<or> length b1 \<le> behind then Failed (-1)
      else and_then (git_tree_cache_new pool buffer) (\<lambda>tree.
        case read_counts behind b1 of
          None \<Rightarrow> Failed (-1)
        | Some (entry_count, n, b2) \<Rightarrow>
            if entry_count \<ge> 0 \<and> length b2 < behind + 20 then Failed (-1)
            else
              let oid = (if entry_count \<ge> 0 then oid_of (take 20 b2) else tc_oid tree);
                  b3 = (if entry_count \<ge> 0 then drop 20 b2 else b2)
              in and_then (if n > 0 then pool_fill pool (n * 8) else Done ()) (\<lambda>_.
                 and_then (read_children fuel pool behind n b3) (\<lambda>(children, rest).
                   Done (Tree_Cache (tc_name tree) entry_count oid children, rest)))))"
| "read_children fuel pool behind 0 buffer = Done ([], buffer)"
| "read_children fuel pool behind (Suc n) buffer =
     and_then (read_tree_internal fuel pool behind buffer) (\<lambda>(child, rest).
       and_then (read_children fuel pool behind n rest) (\<lambda>(children, rest).
         Done (child # children, rest)))"

text \<open>\<open>after\<close> is the rest of the index behind the extension. All errors are -1.\<close>

definition git_tree_cache_read :: "(nat \<Rightarrow> bool) \<Rightarrow> byte list \<Rightarrow> byte list \<Rightarrow> git_tree_cache cache_result" where
  "git_tree_cache_read pool data after =
     and_then (read_tree_internal (length data + 1) pool (length after) (data @ after)) (\<lambda>(tree, rest).
       if length rest > length after then Failed (-1) else Done tree)"

declare read_tree_internal.simps(2) [simp del]

section \<open>Writing it\<close>

definition signed_decimal :: "int \<Rightarrow> byte list" where
  "signed_decimal n = (if n < 0 then 45 # decimal (nat (- n)) else decimal (nat n))"

fun write_tree :: "byte allocator \<Rightarrow> git_buf \<Rightarrow> git_tree_cache \<Rightarrow> git_buf option"
and write_children :: "byte allocator \<Rightarrow> git_buf \<Rightarrow> git_tree_cache list \<Rightarrow> git_buf option" where
  "write_tree al out (Tree_Cache name entry_count oid children) = do {
     (_, out) \<leftarrow> git_buf_vprintf al out (bytes_of ''%s%c%zd %zu'' @ [10])
       (Some (name @ [0] @ signed_decimal entry_count @ [32] @ decimal (length children) @ [10]));
     out \<leftarrow> (if entry_count \<noteq> -1 then map_option snd (git_buf_put al out (oid_id oid)) else Some out);
     write_children al out children }"
| "write_children al out [] = Some out"
| "write_children al out (child # children) = do {
     out \<leftarrow> write_tree al out child;
     write_children al out children }"

definition git_tree_cache_write :: "byte allocator \<Rightarrow> git_buf \<Rightarrow> git_tree_cache \<Rightarrow> (int \<times> git_buf) option" where
  "git_tree_cache_write al out tree = do {
     out \<leftarrow> write_tree al out tree;
     Some (if git_buf_oom out then -1 else 0, out) }"

section \<open>From a tree of the repository\<close>

text \<open>\<open>lookup\<close> stands for \<open>git_tree_lookup\<close>: the error, or the entries of the tree. The fuel bounds the depth: trees form
  no cycle, but a damaged database could.\<close>

fun read_tree_recursive :: "nat \<Rightarrow> (git_oid \<Rightarrow> int + git_tree_entry list) \<Rightarrow> (nat \<Rightarrow> bool) \<Rightarrow> git_tree_cache \<Rightarrow> git_oid \<Rightarrow> git_tree_entry list \<Rightarrow>
    git_tree_cache cache_result"
and read_entries :: "nat \<Rightarrow> (git_oid \<Rightarrow> int + git_tree_entry list) \<Rightarrow> (nat \<Rightarrow> bool) \<Rightarrow> git_tree_entry list \<Rightarrow> int \<Rightarrow> git_tree_cache list \<Rightarrow>
    (int \<times> git_tree_cache list) cache_result" where
  "read_tree_recursive 0 lookup pool cache oid entries = No_Fuel"
| "read_tree_recursive (Suc fuel) lookup pool cache oid entries =
     (let ntrees = length (filter (\<lambda>e. git_tree_entry_filemode e = GIT_FILEMODE_TREE) entries) in
      and_then (pool_fill pool (ntrees * 8)) (\<lambda>_.
      and_then (read_entries fuel lookup pool entries (tc_entry_count cache) []) (\<lambda>(entry_count, children).
        Done (Tree_Cache (tc_name cache) entry_count oid children))))"
| "read_entries fuel lookup pool [] entry_count children = Done (entry_count, children)"
| "read_entries fuel lookup pool (entry # entries) entry_count children =
     (if git_tree_entry_filemode entry \<noteq> GIT_FILEMODE_TREE then read_entries fuel lookup pool entries (entry_count + 1) children
      else and_then (git_tree_cache_new pool (te_filename entry)) (\<lambda>child.
        case git_tree_entry_id entry of
          None \<Rightarrow> Undefined
        | Some oid \<Rightarrow>
            (case lookup oid of
               Inl e \<Rightarrow> Failed e
             | Inr subtree \<Rightarrow>
                 and_then (read_tree_recursive fuel lookup pool child oid subtree) (\<lambda>child.
                   read_entries fuel lookup pool entries (entry_count + tc_entry_count child) (children @ [child])))))"

definition git_tree_cache_read_tree :: "nat \<Rightarrow> (git_oid \<Rightarrow> int + git_tree_entry list) \<Rightarrow> (nat \<Rightarrow> bool) \<Rightarrow> git_oid \<Rightarrow> git_tree_entry list \<Rightarrow>
    git_tree_cache cache_result" where
  "git_tree_cache_read_tree fuel lookup pool oid entries =
     and_then (git_tree_cache_new pool []) (\<lambda>cache. read_tree_recursive fuel lookup pool cache oid entries)"

section \<open>Invalidation\<close>

text \<open>Following names from directory to directory.\<close>

fun cache_at :: "git_tree_cache \<Rightarrow> byte list list \<Rightarrow> git_tree_cache option" where
  "cache_at t [] = Some t"
| "cache_at t (n # ns) = (case find (\<lambda>c. tc_name c = n) (tc_children t) of None \<Rightarrow> None | Some c \<Rightarrow> cache_at c ns)"

lemma find_child_from_find:
  assumes "k \<le> length path"
  shows "(case find_child_from i cs path k of
      None \<Rightarrow> find (\<lambda>c. tc_name c = take k path) cs = None
    | Some j \<Rightarrow> i \<le> j \<and> j - i < length cs \<and> tc_name (cs ! (j - i)) = take k path \<and> (\<forall>m<j - i. tc_name (cs ! m) \<noteq> take k path))"
proof (induction cs arbitrary: i)
  case (Cons c cs)
  have "length (tc_name c) = k \<and> take k path = tc_name c \<longleftrightarrow> tc_name c = take k path" using assms by auto
  then show ?case using Cons.IH [of "i + 1"]
    by (auto split: option.splits simp: nth_Cons' less_Suc_eq_0_disj Suc_diff_Suc)
qed simp

lemma find_first:
  assumes "j < length cs" "tc_name (cs ! j) = n" "\<forall>m<j. tc_name (cs ! m) \<noteq> n"
  shows "find (\<lambda>c. tc_name c = n) cs = Some (cs ! j)"
    and "tc_name c' = n \<Longrightarrow> find (\<lambda>c. tc_name c = n) (cs[j := c']) = Some c'"
    and "m \<noteq> n \<Longrightarrow> tc_name c' = n \<Longrightarrow> find (\<lambda>c. tc_name c = m) (cs[j := c']) = find (\<lambda>c. tc_name c = m) cs"
  using assms
proof (induction cs arbitrary: j)
  case (Cons c cs)
  { case 1
    then show ?case using Cons.IH(1) by (cases j) (auto simp: All_less_Suc2)
  next
    case 2
    then show ?case using Cons.IH(2) by (cases j) (auto simp: All_less_Suc2)
  next
    case 3
    then show ?case using Cons.IH(3) by (cases j) (auto simp: All_less_Suc2)
  }
qed simp_all

lemma find_child_cases:
  assumes "strchr_pos 47 path = Some k"
  obtains "find_child t path (Some k) = None" "find (\<lambda>c. tc_name c = take k path) (tc_children t) = None"
  | i where "find_child t path (Some k) = Some i" "i < length (tc_children t)" "tc_name (tc_children t ! i) = take k path"
      "\<forall>m<i. tc_name (tc_children t ! m) \<noteq> take k path"
  using find_child_from_find [of k path "tc_children t" 0] strchr_pos_Some [OF assms]
  by (cases "find_child t path (Some k)") (auto simp: find_child_def)

lemma cache_get_at: "cache_get t p = cache_at t (split_fields (\<lambda>c. c = 47) p)"
proof (induction t p rule: cache_get.induct)
  case (1 t p)
  show ?case
  proof (cases "strchr_pos 47 p")
    case None
    then show ?thesis
      using find_child_from_find [of "length p" p "tc_children t" 0] find_first(1) [of _ "tc_children t" p]
      by (subst cache_get.simps) (auto simp: split_fields_strchr [of 47 p] find_child_def Let_def split: option.splits)
  next
    case (Some k)
    have "p ! k = 47" using strchr_pos_Some [OF Some] by (metis nth_append_length length_take less_imp_le min.absorb2)
    then have neg: "schar (p ! k) + 1 \<noteq> 0" by (simp add: schar_def)
    show ?thesis using Some
    proof (cases rule: find_child_cases [of _ _ t])
      case 1
      then show ?thesis using Some by (subst cache_get.simps) (simp add: split_fields_strchr [of 47 p] Let_def)
    next
      case (2 i)
      then show ?thesis using Some neg "1.IH" [OF refl, of i k] find_first(1) [OF 2(2-4)]
        by (subst cache_get.simps) (simp add: split_fields_strchr [of 47 p] Let_def)
    qed
  qed
qed

lemma tc_name_invalidate [simp]: "tc_name (invalidate t p) = tc_name t"
  by (subst invalidate.simps) (simp add: Let_def split: option.splits)

lemma invalidate_at:
  "map_option tc_entry_count (cache_at (invalidate t p) ns) =
     map_option (if strict_prefix ns (split_fields (\<lambda>c. c = 47) p) then \<lambda>_. -1 else tc_entry_count) (cache_at t ns)"
proof (induction t p arbitrary: ns rule: invalidate.induct)
  case (1 t p)
  note IH = "1.IH"
  show ?case
  proof (cases ns)
    case Nil
    have "[] \<noteq> split_fields (\<lambda>c. c = 47) p" by (simp add: split_fields_strchr [of 47 p] split: option.splits)
    then show ?thesis using Nil by (subst invalidate.simps) (auto simp: Let_def strict_prefix_def split: option.splits)
  next
    case (Cons n ns')
    show ?thesis
    proof (cases "strchr_pos 47 p")
      case None
      then show ?thesis
        using Cons by (subst invalidate.simps) (auto simp: split_fields_strchr [of 47 p] Let_def strict_prefix_def)
    next
      case (Some k)
      show ?thesis using Some
      proof (cases rule: find_child_cases [of _ _ t])
        case 1
        then show ?thesis
          using Some Cons by (subst invalidate.simps) (auto simp: split_fields_strchr [of 47 p] Let_def)
      next
        case (2 i)
        let ?c = "invalidate (tc_children t ! i) (drop (k + 1) p)"
        have c: "tc_name ?c = take k p" using 2(3) by simp
        show ?thesis
        proof (cases "n = take k p")
          case True
          then show ?thesis using Some Cons 2 IH [OF refl Some 2(1), of ns'] find_first(1,2) [OF 2(2-4)] c
            by (subst invalidate.simps) (simp add: split_fields_strchr [of 47 p] Let_def)
        next
          case False
          then show ?thesis using Some Cons 2 find_first(3) [OF 2(2-4) False c]
            by (subst invalidate.simps) (simp add: split_fields_strchr [of 47 p] Let_def)
        qed
      qed
    qed
  qed
qed

lemma tc_entry_count_invalidate [simp]: "tc_entry_count (invalidate t p) = -1"
  by (subst invalidate.simps) (simp add: Let_def split: option.splits)

lemma tc_oid_invalidate [simp]: "tc_oid (invalidate t p) = tc_oid t"
  by (subst invalidate.simps) (simp add: Let_def split: option.splits)

text \<open>C36: Invalidating a path marks the root as out of date, which keeps its name and its id, and of the directories that
  \<open>git_tree_cache_get\<close> finds exactly those on the way to the path; every other directory keeps its count, and no directory
  appears or disappears.\<close>

theorem git_tree_cache_invalidate_get:
  "(\<exists>root. git_tree_cache_invalidate_path (Some tree) path = Some root \<and>
     tc_entry_count root = -1 \<and> tc_name root = tc_name tree \<and> tc_oid root = tc_oid tree) \<and>
   map_option tc_entry_count (git_tree_cache_get (git_tree_cache_invalidate_path (Some tree) path) dir) =
     map_option (if strict_prefix (split_fields (\<lambda>c. c = 47) (cstr dir)) (split_fields (\<lambda>c. c = 47) (cstr path))
       then \<lambda>_. -1 else tc_entry_count) (git_tree_cache_get (Some tree) dir)"
  by (simp add: git_tree_cache_get_def git_tree_cache_invalidate_path_def cache_get_at invalidate_at)

text \<open>A root with the directory \<open>b\<close> in which there are \<open>c\<close> and \<open>d\<close>: the path \<open>b/c/x\<close> invalidates the root, \<open>b\<close> and
  \<open>b/c\<close>, and \<open>b/d\<close> keeps its count.\<close>

theorem git_tree_cache_invalidate_get_witness:
  "let tree = Tree_Cache [] 4 (oid_of [1]) [Tree_Cache [98] 3 (oid_of [2]) [Tree_Cache [99] 1 (oid_of [3]) [], Tree_Cache [100] 2 (oid_of [4]) []]];
       after = git_tree_cache_invalidate_path (Some tree) [98, 47, 99, 47, 120]
   in map_option tc_entry_count after = Some (-1) \<and> map_option tc_entry_count (git_tree_cache_get after [98, 47, 99]) = Some (-1) \<and>
     map_option tc_entry_count (git_tree_cache_get after [98, 47, 100]) = Some 2"
proof -
  define tree where "tree = Tree_Cache [] 4 (oid_of [1]) [Tree_Cache [98] 3 (oid_of [2]) [Tree_Cache [99] 1 (oid_of [3]) [], Tree_Cache [100] 2 (oid_of [4]) []]]"
  have "map_option tc_entry_count (git_tree_cache_get (Some tree) [98, 47, 99]) = Some 1"
    "map_option tc_entry_count (git_tree_cache_get (Some tree) [98, 47, 100]) = Some 2"
    unfolding tree_def by code_simp+
  then show ?thesis
    using git_tree_cache_invalidate_get [of tree "[98, 47, 99, 47, 120]" "[98, 47, 99]"]
      git_tree_cache_invalidate_get [of tree "[98, 47, 99, 47, 120]" "[98, 47, 100]"]
    by (auto simp: Let_def tree_def [symmetric] strict_prefix_def split_fields.simps)
qed

section \<open>Writing and reading back\<close>

lemma and_then_Done [simp]: "and_then r f = Done y \<longleftrightarrow> (\<exists>x. r = Done x \<and> f x = Done y)"
  by (cases r) auto

lemma and_then_No_Fuel: "and_then r f = No_Fuel \<longleftrightarrow> r = No_Fuel \<or> (\<exists>x. r = Done x \<and> f x = No_Fuel)"
  by (cases r) auto

lemma signed_decimal_read:
  assumes "- (2 ^ 31) \<le> v" "v < 2 ^ 31" "10 \<le> digit_value 10 (peek rest)"
  shows "git__strtol32 (signed_decimal v @ rest) 10 = (0, Some rest, Some v)"
proof -
  define n where "n = nat \<bar>v\<bar>"
  have n: "n < 10 ^ 10" "int n = \<bar>v\<bar>" using assms(1,2) by (auto simp: n_def)
  note d = decimal_value [of n] decimal_length [OF n(1)]
  have s: "signed_decimal v = (if v < 0 then [45] else []) @ decimal n" by (simp add: signed_decimal_def n_def)
  have "digits_end 10 SIZE_MAX (decimal n) rest" using d assms(3) by (auto simp: digits_end_def SIZE_MAX_def)
  then have "git__strntol64 ([] @ (if v < 0 then [45] else []) @ decimal n @ rest) SIZE_MAX 10 = (0, Some rest, Some v)"
    using d n(2) assms(1,2) by (intro git__strntol64_ok) (auto simp: sgn_int_def)
  moreover have "int32 (v mod 2 ^ 32) = v" using assms(1,2) int32_id [of v] by simp
  ultimately show ?thesis by (simp add: git__strtol32_def git__strntol32_def s Let_def)
qed

text \<open>The text of a cache, and what comes back: a directory that is out of date has no id.\<close>

fun cache_text :: "git_tree_cache \<Rightarrow> byte list" where
  "cache_text (Tree_Cache name entry_count oid children) =
     name @ [0] @ signed_decimal entry_count @ [32] @ decimal (length children) @ [10] @
     (if entry_count \<noteq> -1 then oid_id oid else []) @ concat (map cache_text children)"

fun kept_cache :: "git_tree_cache \<Rightarrow> git_tree_cache" where
  "kept_cache (Tree_Cache name entry_count oid children) =
     Tree_Cache name entry_count (if entry_count \<noteq> -1 then oid else oid_of []) (map kept_cache children)"

fun cache_ok :: "git_tree_cache \<Rightarrow> bool" where
  "cache_ok (Tree_Cache name entry_count oid children) \<longleftrightarrow>
     0 \<notin> set name \<and> length name < 2 ^ 31 \<and> -1 \<le> entry_count \<and> entry_count < 2 ^ 31 \<and> length children < 2 ^ 29 \<and>
     (\<forall>c\<in>set children. cache_ok c)"

lemma space_newline_stop: "10 \<le> digit_value 10 (peek (32 # r))" "10 \<le> digit_value 10 (peek (10 # r))"
  by (simp_all add: digit_value_def schar_def)

lemma read_counts_line:
  assumes "-1 \<le> e" "e < 2 ^ 31" "n < 2 ^ 31" "behind \<le> length rest"
  shows "read_counts behind (signed_decimal e @ [32] @ decimal n @ [10] @ rest) = Some (e, n, rest)"
proof -
  have one: "git__strtol32 (signed_decimal e @ 32 # decimal n @ 10 # rest) 10 = (0, Some (32 # decimal n @ 10 # rest), Some e)"
    using assms(1,2) by (intro signed_decimal_read space_newline_stop) auto
  have two: "git__strtol32 (signed_decimal (int n) @ 10 # rest) 10 = (0, Some (10 # rest), Some (int n))"
    using assms(3) by (intro signed_decimal_read space_newline_stop) auto
  have "signed_decimal (int n) = decimal n" by (simp add: signed_decimal_def)
  then show ?thesis using one two assms(4) by (simp add: read_counts_def)
qed

lemma pool_fill_ok: "\<forall>n. pool n \<Longrightarrow> n < 2 ^ 32 - 7 \<Longrightarrow> pool_fill pool n = Done ()"
proof -
  assume "\<forall>n. pool n" "n < 2 ^ 32 - 7"
  moreover have "n \<le> (n + 7) div 8 * 8" by presburger
  moreover have "(n + 7) div 8 * 8 \<le> n + 7" by simp
  ultimately show ?thesis by (simp add: pool_fill_def alloc_size_def)
qed

lemma read_children_written:
  assumes "\<And>c rest. c \<in> set cs \<Longrightarrow> behind \<le> length rest \<Longrightarrow> read_tree_internal fuel pool behind (cache_text c @ rest) = Done (kept_cache c, rest)"
    and "behind \<le> length rest"
  shows "read_children fuel pool behind (length cs) (concat (map cache_text cs) @ rest) = Done (map kept_cache cs, rest)"
  using assms(1)
proof (induction cs)
  case (Cons c cs)
  have "behind \<le> length (concat (map cache_text cs) @ rest)" using assms(2) by simp
  with Cons.prems [of c] Cons.IH Cons.prems show ?case by simp
qed simp

lemma read_tree_written:
  assumes "\<forall>n. pool n"
  shows "cache_ok t \<Longrightarrow> length (cache_text t) \<le> fuel \<Longrightarrow> behind \<le> length rest \<Longrightarrow>
    read_tree_internal fuel pool behind (cache_text t @ rest) = Done (kept_cache t, rest)"
proof (induction t arbitrary: fuel rest)
  case (Tree_Cache name e oid cs)
  from Tree_Cache.prems(2) obtain fuel' where fuel: "fuel = Suc fuel'" by (cases fuel) auto
  define below where "below = (if e \<noteq> -1 then oid_id oid else []) @ concat (map cache_text cs) @ rest"
  define line where "line = signed_decimal e @ [32] @ decimal (length cs) @ [10] @ below"
  have whole: "cache_text (Tree_Cache name e oid cs) @ rest = name @ 0 # line" by (simp add: line_def below_def)
  have name: "cstr (name @ 0 # line) = name" using Tree_Cache.prems(1) by (simp add: cstr_append_nul)
  have counts: "read_counts behind line = Some (e, length cs, below)" unfolding line_def
    using Tree_Cache.prems(1,3) by (intro read_counts_line) (auto simp: below_def)
  have new: "git_tree_cache_new pool (name @ 0 # line) = Done (Tree_Cache name 0 (oid_of []) [])"
    using pool_fill_ok [OF assms] Tree_Cache.prems(1) by (simp add: git_tree_cache_new_def cstrlen_def name)
  have more: "behind < length line" using Tree_Cache.prems(3) by (simp add: line_def below_def)
  have "0 \<in> set (take (length (name @ 0 # line) - behind) (name @ 0 # line))"
    using more by (simp add: take_Cons' Suc_diff_le)
  moreover have "(if length cs > 0 then pool_fill pool (length cs * 8) else Done ()) = Done ()"
    using pool_fill_ok [OF assms] Tree_Cache.prems(1) by auto
  moreover have "read_children fuel' pool behind (length cs) (concat (map cache_text cs) @ rest) = Done (map kept_cache cs, rest)"
  proof (rule read_children_written [OF _ Tree_Cache.prems(3)])
    fix c and rest :: "byte list" assume c: "c \<in> set cs" "behind \<le> length rest"
    have "length (cache_text c) \<le> length (concat (map cache_text cs))" using c(1) by (induction cs) auto
    then have "length (cache_text c) \<le> fuel'" using Tree_Cache.prems(2) fuel by simp
    then show "read_tree_internal fuel' pool behind (cache_text c @ rest) = Done (kept_cache c, rest)"
      using Tree_Cache.IH c Tree_Cache.prems(1) by simp
  qed
  ultimately show ?case
    using Tree_Cache.prems(1,3) counts more name new unfolding whole fuel read_tree_internal.simps(2)
    by (auto simp: Let_def cstrlen_def below_def)
qed

lemma write_children_text:
  assumes "\<And>c out. c \<in> set cs \<Longrightarrow> buf_wf out \<Longrightarrow> length (content out) + length (cache_text c) + 64 < BUF_LIMIT \<Longrightarrow>
      \<exists>out'. write_tree al out c = Some out' \<and> buf_wf out' \<and> content out' = content out @ cache_text c"
    and "buf_wf out" and "length (content out) + length (concat (map cache_text cs)) + 64 < BUF_LIMIT"
  shows "\<exists>out'. write_children al out cs = Some out' \<and> buf_wf out' \<and> content out' = content out @ concat (map cache_text cs)"
  using assms
proof (induction cs arbitrary: out)
  case (Cons c cs)
  from Cons.prems(1) [of c out] Cons.prems(2,3) obtain b where b: "write_tree al out c = Some b" "buf_wf b" "content b = content out @ cache_text c"
    by auto
  have "length (content b) + length (concat (map cache_text cs)) + 64 < BUF_LIMIT" using b(3) Cons.prems(3) by simp
  from Cons.IH [OF Cons.prems(1) b(2) this] b show ?case by auto
qed simp

lemma write_tree_text:
  assumes "alloc_env al"
  shows "buf_wf out \<Longrightarrow> length (content out) + length (cache_text t) + 64 < BUF_LIMIT \<Longrightarrow>
    \<exists>out'. write_tree al out t = Some out' \<and> buf_wf out' \<and> content out' = content out @ cache_text t"
proof (induction t arbitrary: out)
  case (Tree_Cache name e oid cs)
  have al: "good_alloc al" using assms by (simp add: alloc_env_def)
  define line where "line = name @ [0] @ signed_decimal e @ [32] @ decimal (length cs) @ [10]"
  have room: "length (content out) + length line + (if e \<noteq> -1 then 20 else 0) + length (concat (map cache_text cs)) + 64 < BUF_LIMIT"
    using Tree_Cache.prems(2) by (auto simp: line_def)
  obtain b1 where b1: "git_buf_vprintf al out (bytes_of ''%s%c%zd %zu'' @ [10]) (Some line) = Some (0, b1)" "buf_wf b1"
      "content b1 = content out @ line"
    using buf_outcome_total [OF git_buf_vprintf_outcome [OF al Tree_Cache.prems(1), of line "bytes_of ''%s%c%zd %zu'' @ [10]"] assms]
      room Tree_Cache.prems(1) by (auto simp: cstrlen_def bytes_of_def)
  obtain b2 where b2: "(if e \<noteq> -1 then map_option snd (git_buf_put al b1 (oid_id oid)) else Some b1) = Some b2" "buf_wf b2"
      "content b2 = content b1 @ (if e \<noteq> -1 then oid_id oid else [])"
  proof (cases "e = -1")
    case False
    then show thesis
      using buf_outcome_total [OF git_buf_put_outcome [OF al b1(2), of "oid_id oid"] assms] length_content [OF b1(2)] b1(3) room that
      by auto
  qed (use b1 that in auto)
  have "length (content b2) + length (concat (map cache_text cs)) + 64 < BUF_LIMIT" using b1(3) b2(3) room by auto
  from write_children_text [OF Tree_Cache.IH b2(2) this] b1 b2 show ?case by (auto simp: line_def)
qed

text \<open>C35: The tree cache that \<open>git_tree_cache_write\<close> writes into the index is read back as the same cache, directory by
  directory, whatever follows it in the index; only the ids of directories that are out of date are not kept.\<close>

theorem git_tree_cache_write_read:
  assumes "alloc_env al" and "buf_wf b" and "content b = []" and "cache_ok t" and "length (cache_text t) + 64 < BUF_LIMIT" and "\<forall>n. pool n"
  shows "\<exists>b'. git_tree_cache_write al b t = Some (0, b') \<and> git_tree_cache_read pool (content b') after = Done (kept_cache t)"
proof -
  obtain b' where b': "write_tree al b t = Some b'" "buf_wf b'" "content b' = cache_text t"
    using write_tree_text [OF assms(1,2), of t] assms(3,5) by auto
  have "\<not> git_buf_oom b'" using buf_wf_not_oom [OF b'(2)] by (simp add: git_buf_oom_def)
  then show ?thesis
    using b' read_tree_written [OF assms(6,4), of "length (cache_text t) + 1" "length after" after]
    by (simp add: git_tree_cache_write_def git_tree_cache_read_def)
qed

theorem git_tree_cache_write_read_witness:
  "\<exists>b'. git_tree_cache_write (fill_alloc 0) GIT_BUF_INIT (Tree_Cache [] 3 (oid_of [7]) [Tree_Cache [97] (-1) (oid_of [9]) []]) = Some (0, b') \<and>
     git_tree_cache_read (\<lambda>_. True) (content b') [1, 2] = Done (Tree_Cache [] 3 (oid_of [7]) [Tree_Cache [97] (-1) (oid_of []) []])"
  using git_tree_cache_write_read [of "fill_alloc 0" GIT_BUF_INIT "Tree_Cache [] 3 (oid_of [7]) [Tree_Cache [97] (-1) (oid_of [9]) []]"
    "\<lambda>_. True" "[1, 2]"]
  by (simp add: BUF_LIMIT_def signed_decimal_def decimal.simps)

section \<open>Damaged extensions\<close>

lemma strtol_digits_shorter: "length (snd (snd (snd (strtol_digits neg base len p n ovfl ndig)))) \<le> length p"
proof (induction len arbitrary: p n ovfl ndig)
  case (Suc len)
  have "length (snd (snd (snd (strtol_digits neg base len (tl p) m o' d)))) \<le> length p" for m o' d
    using Suc.IH [of "tl p" m o' d] by simp
  then show ?case by (simp add: Let_def)
qed simp

lemma strtol32_shorter:
  assumes "git__strtol32 p 10 = (e, Some q, v)"
  shows "length q \<le> length p"
proof -
  define p1 where "p1 = dropWhile git_isspace p"
  define p2 where "p2 = (if peek p1 = 45 \<or> peek p1 = 43 then tl p1 else p1)"
  have p2: "length p2 \<le> length p" unfolding p2_def p1_def using length_dropWhile_le [of git_isspace p] by auto
  obtain n o' d r where d: "strtol_digits (peek p1 = 45) 10 SIZE_MAX p2 0 False 0 = (n, o', d, r)" by (cases "strtol_digits (peek p1 = 45) 10 SIZE_MAX p2 0 False 0")
  have base: "strtol_base p2 10 = Some (10, p2)" by (rule strtol_base_plain) simp_all
  have "git__strntol64 p SIZE_MAX 10 = (if d = 0 then (-1, None, None) else if o' then (-1, Some r, None) else (0, Some r, Some n))"
    unfolding git__strntol64_def Let_def p1_def [symmetric] p2_def [symmetric] base using d by simp
  then have "q = r" using assms by (auto simp: git__strtol32_def git__strntol32_def Let_def split: if_splits)
  then show ?thesis using strtol_digits_shorter [of "peek p1 = 45" 10 SIZE_MAX p2 0 False 0] d p2 by simp
qed

lemma read_counts_shorter: "read_counts behind b = Some (e, n, r) \<Longrightarrow> length r \<le> length b"
  unfolding read_counts_def
  by (auto split: prod.splits option.splits if_splits dest!: strtol32_shorter)

text \<open>Every node takes at least one byte, so the depth is bounded by the size of the extension.\<close>

lemma read_children_ends:
  assumes "\<And>b. (length b - behind < fuel \<longrightarrow> read_tree_internal fuel pool behind b \<noteq> No_Fuel) \<and>
    (\<forall>t r. read_tree_internal fuel pool behind b = Done (t, r) \<longrightarrow> length r < length b)"
  shows "(length b - behind < fuel \<longrightarrow> read_children fuel pool behind n b \<noteq> No_Fuel) \<and>
    (\<forall>cs r. read_children fuel pool behind n b = Done (cs, r) \<longrightarrow> length r \<le> length b)"
proof (induction n arbitrary: b)
  case (Suc n)
  show ?case
  proof (cases "read_tree_internal fuel pool behind b")
    case (Done cr)
    obtain c r where cr: "cr = (c, r)" by (cases cr)
    have "length r < length b" using assms [of b] Done cr by simp
    then show ?thesis using Suc.IH [of r] Done cr by (auto simp: and_then_No_Fuel)
  qed (use assms [of b] in auto)
qed simp

lemma node_not_fuel [simp]: "pool_fill pool n \<noteq> No_Fuel" "git_tree_cache_new pool name \<noteq> No_Fuel"
  by (simp_all add: pool_fill_def git_tree_cache_new_def and_then_No_Fuel)

lemma read_tree_ends:
  "(length b - behind < fuel \<longrightarrow> read_tree_internal fuel pool behind b \<noteq> No_Fuel) \<and>
    (\<forall>t r. read_tree_internal fuel pool behind b = Done (t, r) \<longrightarrow> length r < length b)"
proof (induction fuel arbitrary: b)
  case (Suc fuel)
  note children = read_children_ends [OF Suc.IH]
  let ?b1 = "drop (cstrlen b + 1) b"
  show ?case
  proof (cases "0 \<notin> set (take (length b - behind) b) \<or> length ?b1 \<le> behind")
    case False
    then have "b \<noteq> []" by auto
    then have b1: "length ?b1 < length b" by simp
    have inside: "behind < length b" using False b1 by simp
    show ?thesis
    proof (cases "git_tree_cache_new pool b")
      case (Done tree)
      show ?thesis
      proof (cases "read_counts behind ?b1")
        case None
        then show ?thesis using Done False by (simp add: read_tree_internal.simps(2))
      next
        case (Some enb)
        obtain e n b2 where enb: "enb = (e, n, b2)" by (cases enb)
        define b3 where "b3 = (if e \<ge> 0 then drop 20 b2 else b2)"
        have b2: "length b2 \<le> length ?b1" using Some enb read_counts_shorter by blast
        have b3: "length b3 < length b" using b1 b2 by (auto simp: b3_def)
        let ?alloc = "if n > 0 then pool_fill pool (n * 8) else Done ()"
        have step: "read_tree_internal (Suc fuel) pool behind b =
            (if e \<ge> 0 \<and> length b2 < behind + 20 then Failed (-1)
             else and_then ?alloc (\<lambda>_. and_then (read_children fuel pool behind n b3) (\<lambda>(children, rest).
               Done (Tree_Cache (tc_name tree) e (if e \<ge> 0 then oid_of (take 20 b2) else tc_oid tree) children, rest))))"
          using False Done Some enb by (simp add: read_tree_internal.simps(2) Let_def b3_def)
        have alloc: "?alloc \<noteq> No_Fuel" by simp
        show ?thesis using children [of b3 n] b3 alloc inside unfolding step
          by (auto simp: and_then_No_Fuel split: if_splits prod.splits)
      qed
    qed (use False in \<open>simp_all add: read_tree_internal.simps(2)\<close>)
  qed (simp add: read_tree_internal.simps(2))
qed simp

lemma git_tree_cache_read_ends: "git_tree_cache_read pool data after \<noteq> No_Fuel"
  using read_tree_ends [of "data @ after" "length after" "length data + 1" pool]
  by (auto simp: git_tree_cache_read_def and_then_No_Fuel)

text \<open>C37: An extension that announces 2^29 children or more makes the reader ask the pool for the number of bytes modulo
  2^32 and clear all of the bytes: the memory behind the block is overwritten.\<close>

theorem git_tree_cache_read_overflow:
  assumes "0 \<notin> set name" and "length name < 2 ^ 31" and "-1 \<le> e" and "e < 2 ^ 31" and "2 ^ 29 \<le> n" and "n < 2 ^ 31"
    and "e = -1 \<or> 20 \<le> length beyond" and "\<forall>n. pool n"
  shows "git_tree_cache_read pool (name @ [0] @ signed_decimal e @ [32] @ decimal n @ [10] @ beyond) after = Undefined"
proof -
  define line where "line = signed_decimal e @ [32] @ decimal n @ [10] @ beyond @ after"
  have counts: "read_counts (length after) line = Some (e, n, beyond @ after)" unfolding line_def
    using assms(3,4,6) by (intro read_counts_line) auto
  have name: "cstr (name @ 0 # line) = name" using assms(1) by (rule cstr_append_nul)
  have new: "git_tree_cache_new pool (name @ 0 # line) = Done (Tree_Cache name 0 (oid_of []) [])"
    using pool_fill_ok [OF assms(8)] assms(2) by (simp add: git_tree_cache_new_def cstrlen_def name)
  have longer: "length after < length line" by (simp add: line_def)
  have nul: "0 \<in> set (take (length (name @ 0 # line) - length after) (name @ 0 # line))"
    using longer by (simp add: take_Cons' Suc_diff_le)
  have "alloc_size (n * 8) < 2 ^ 32" by (simp add: alloc_size_def)
  then have "pool_fill pool (n * 8) = Undefined" using assms(5,8) by (simp add: pool_fill_def)
  then have "read_tree_internal (Suc fuel) pool (length after) (name @ 0 # line) = Undefined" for fuel
    using counts new longer nul assms(5,7)
    by (auto simp: read_tree_internal.simps(2) Let_def cstrlen_def name)
  moreover have "(name @ [0] @ signed_decimal e @ [32] @ decimal n @ [10] @ beyond) @ after = name @ 0 # line"
    by (simp add: line_def)
  ultimately show ?thesis unfolding git_tree_cache_read_def by simp
qed

theorem git_tree_cache_read_overflow_witness:
  "git_tree_cache_read (\<lambda>_. True) ([] @ [0] @ signed_decimal (-1) @ [32] @ decimal (2 ^ 29) @ [10] @ []) [] = Undefined"
  by (rule git_tree_cache_read_overflow) simp_all

end
