(* ===== verification/Refspec.thy ===== *)
theory Refspec
  imports Refs Fnmatch Vector StrChr
begin

text \<open>Refspecs (refspec.c): how they are parsed and how they rename references, in both directions.\<close>

text \<open>Memory for the strings is taken to be there: the code does not check most of its copies.\<close>

record git_refspec =
  rs_string :: "byte list option"
  rs_src :: "byte list option"
  rs_dst :: "byte list option"
  rs_force :: bool
  rs_push :: bool
  rs_pattern :: bool
  rs_matching :: bool

definition git_refspec__free :: git_refspec where
  "git_refspec__free = \<lparr>rs_string = None, rs_src = None, rs_dst = None, rs_force = False, rs_push = False,
     rs_pattern = False, rs_matching = False\<rparr>"

section \<open>Parsing\<close>

text \<open>The star and the colon decide what the two sides are: the left side, the right side, and whether they are patterns.\<close>

definition refspec_sides :: "byte list \<Rightarrow> bool \<Rightarrow> (byte list \<times> byte list option \<times> bool) option" where
  "refspec_sides lhs is_fetch =
     (let colon = strrchr 58 lhs;
          rhs = map_option (\<lambda>k. drop (k + 1) lhs) colon;
          is_glob = (case rhs of None \<Rightarrow> False | Some r \<Rightarrow> 1 \<le> length r \<and> 42 \<in> set r);
          llen = (case colon of None \<Rightarrow> length lhs | Some k \<Rightarrow> k)
      in if 1 \<le> llen \<and> 42 \<in> set (take llen lhs) then
           if rhs \<noteq> None \<and> \<not> is_glob \<or> rhs = None \<and> is_fetch then None
           else Some (take llen lhs, rhs, True)
         else if rhs \<noteq> None \<and> is_glob then None
         else Some (take llen lhs, rhs, is_glob))"

definition refspec_valid :: "byte allocator \<Rightarrow> bool \<Rightarrow> bool \<Rightarrow> byte list \<Rightarrow> byte list option \<Rightarrow> bool option" where
  "refspec_valid al is_fetch is_glob src dst =
     (let flags = GIT_REF_FORMAT_ALLOW_ONELEVEL OR GIT_REF_FORMAT_REFSPEC_SHORTHAND OR
            (if is_glob then GIT_REF_FORMAT_REFSPEC_PATTERN else 0)
      in if is_fetch then do {
           l \<leftarrow> (if src = [] then Some True else git_reference__is_valid_name al src flags);
           if \<not> l then Some False
           else case dst of
                  None \<Rightarrow> Some True
                | Some d \<Rightarrow> if d = [] then Some True else git_reference__is_valid_name al d flags }
         else do {
           l \<leftarrow> (if src = [] then Some True
                 else if is_glob then git_reference__is_valid_name al src flags else Some True);
           if \<not> l then Some False
           else case dst of
                  None \<Rightarrow> git_reference__is_valid_name al src flags
                | Some d \<Rightarrow> if d = [] then Some False else git_reference__is_valid_name al d flags })"

definition git_refspec__parse :: "byte allocator \<Rightarrow> byte list \<Rightarrow> bool \<Rightarrow> (int \<times> git_refspec) option" where
  "git_refspec__parse al input is_fetch =
     (let s = cstr input; force = (peek s = 43); lhs = (if force then tl s else s) in
      if \<not> is_fetch \<and> strrchr 58 lhs = Some 0 \<and> peek (drop 1 lhs) = 0 then
        Some (0, \<lparr>rs_string = Some s, rs_src = Some [], rs_dst = Some [], rs_force = force, rs_push = True,
                  rs_pattern = False, rs_matching = True\<rparr>)
      else
        case refspec_sides lhs is_fetch of
          None \<Rightarrow> Some (-1, git_refspec__free)
        | Some (src, dst, is_glob) \<Rightarrow>
            (case refspec_valid al is_fetch is_glob src dst of
               None \<Rightarrow> None
             | Some False \<Rightarrow> Some (-1, git_refspec__free)
             | Some True \<Rightarrow>
                 Some (0, \<lparr>rs_string = Some s, rs_src = Some src,
                           rs_dst = (if \<not> is_fetch \<and> dst = None then Some src else dst),
                           rs_force = force, rs_push = \<not> is_fetch, rs_pattern = is_glob, rs_matching = False\<rparr>)))"

section \<open>Matching and renaming\<close>

definition git_refspec_src_matches :: "git_refspec \<Rightarrow> byte list \<Rightarrow> bool" where
  "git_refspec_src_matches refspec refname =
     (case rs_src refspec of None \<Rightarrow> False | Some s \<Rightarrow> p_fnmatch s refname 0 = 0)"

definition git_refspec_dst_matches :: "git_refspec \<Rightarrow> byte list \<Rightarrow> bool" where
  "git_refspec_dst_matches refspec refname =
     (case rs_dst refspec of None \<Rightarrow> False | Some s \<Rightarrow> p_fnmatch s refname 0 = 0)"

text \<open>\<open>None\<close> where an assertion fails or the name ends before the star of \<open>from\<close>.\<close>

definition refspec_transform :: "byte allocator \<Rightarrow> git_buf \<Rightarrow> byte list \<Rightarrow> byte list \<Rightarrow> byte list \<Rightarrow> (int \<times> git_buf) option" where
  "refspec_transform al out from to name0 = do {
     let name = cstr name0;
     out \<leftarrow> git_buf_sanitize out;
     out \<leftarrow> git_buf_clear out;
     star_offset \<leftarrow> strchr_pos 42 (cstr from);
     to_star \<leftarrow> strchr_pos 42 (cstr to);
     (_, out) \<leftarrow> git_buf_put al out (take to_star (cstr to));
     if star_offset > length name then None
     else do {
       let name_slash = (case strchr_pos 47 (drop star_offset name) of None \<Rightarrow> length name | Some k \<Rightarrow> star_offset + k);
       let name_slash = (if strchr_pos 47 (drop star_offset (cstr from)) = None then length name else name_slash);
       let replacement_len = name_slash - star_offset;
       (_, out) \<leftarrow> git_buf_put al out (take replacement_len (drop star_offset name));
       git_buf_puts al out (drop (to_star + 1) (cstr to)) } }"

definition git_refspec_transform :: "byte allocator \<Rightarrow> git_buf \<Rightarrow> git_refspec \<Rightarrow> byte list \<Rightarrow> (int \<times> git_buf) option" where
  "git_refspec_transform al out spec name = do {
     out \<leftarrow> git_buf_sanitize out;
     if \<not> git_refspec_src_matches spec name then Some (-1, out)
     else do {
       dst \<leftarrow> rs_dst spec;
       if \<not> rs_pattern spec then git_buf_puts al out dst
       else do {
         src \<leftarrow> rs_src spec;
         refspec_transform al out src dst name } } }"

definition git_refspec_rtransform :: "byte allocator \<Rightarrow> git_buf \<Rightarrow> git_refspec \<Rightarrow> byte list \<Rightarrow> (int \<times> git_buf) option" where
  "git_refspec_rtransform al out spec name = do {
     out \<leftarrow> git_buf_sanitize out;
     if \<not> git_refspec_dst_matches spec name then Some (-1, out)
     else do {
       src \<leftarrow> rs_src spec;
       if \<not> rs_pattern spec then git_buf_puts al out src
       else do {
         dst \<leftarrow> rs_dst spec;
         refspec_transform al out dst src name } } }"

text \<open>The result is 1 if there was memory.\<close>

definition git_refspec__serialize :: "byte allocator \<Rightarrow> git_buf \<Rightarrow> git_refspec \<Rightarrow> (int \<times> git_buf) option" where
  "git_refspec__serialize al out refspec = do {
     out \<leftarrow> (if rs_force refspec then map_option snd (git_buf_putc al out 43) else Some out);
     (_, out) \<leftarrow> git_buf_vprintf al out (bytes_of ''%s:%s'')
       (Some ((case rs_src refspec of None \<Rightarrow> [] | Some s \<Rightarrow> cstr s) @ [58] @ (case rs_dst refspec of None \<Rightarrow> [] | Some s \<Rightarrow> cstr s)));
     Some (if git_buf_oom out then 0 else 1, out) }"

text \<open>\<open>src[strlen(src) - 1]\<close>; undefined for an empty source.\<close>

definition git_refspec_is_wildcard :: "git_refspec \<Rightarrow> bool option" where
  "git_refspec_is_wildcard spec =
     (case rs_src spec of
        None \<Rightarrow> None
      | Some s \<Rightarrow> if cstr s = [] then None else Some (last (cstr s) = 42))"

section \<open>Shorthand sides\<close>

text \<open>The name of an advertised reference is never NULL. \<open>key0\<close> is the uninitialised key on the stack: only its
  name is set. The copies of strings are taken to succeed.\<close>

record git_remote_head =
  rh_local :: int
  rh_oid :: git_oid
  rh_loid :: git_oid
  rh_name :: "byte list"
  rh_symref_target :: "byte list option"

definition refspec_formatters :: "byte list list" where
  "refspec_formatters = [GIT_REFS_DIR, GIT_REFS_TAGS_DIR, GIT_REFS_HEADS_DIR]"

text \<open>Every directory in which the name is found replaces the source found before. The error of the loop is a buffer
  without memory.\<close>

fun dwim_src_loop :: "byte allocator \<Rightarrow> git_remote_head git_vector \<Rightarrow> git_remote_head \<Rightarrow> byte list \<Rightarrow> byte list list \<Rightarrow> git_buf \<Rightarrow>
    byte list option \<Rightarrow> (int \<times> git_buf \<times> byte list option) option" where
  "dwim_src_loop al refs key0 src [] buf cur_src = Some (0, buf, cur_src)"
| "dwim_src_loop al refs key0 src (dir # dirs) buf cur_src = do {
     buf \<leftarrow> git_buf_clear buf;
     (_, buf) \<leftarrow> git_buf_vprintf al buf (dir @ bytes_of ''%s'') (Some (dir @ cstr src));
     if git_buf_oom buf then Some (-1, buf, cur_src)
     else do {
       (found, _) \<leftarrow> git_vector_search refs (Some (key0\<lparr>rh_name := cstr (mem_cells (buf_ptr buf))\<rparr>));
       if found = 0 then
         (case git_buf_detach buf of (ptr, buf) \<Rightarrow> dwim_src_loop al refs key0 src dirs buf (Some (cstr (mem_cells ptr))))
       else dwim_src_loop al refs key0 src dirs buf cur_src } }"

definition dwim_src :: "byte allocator \<Rightarrow> git_remote_head git_vector \<Rightarrow> git_remote_head \<Rightarrow> byte list \<Rightarrow> git_buf \<Rightarrow>
    (int \<times> git_buf \<times> byte list) option" where
  "dwim_src al refs key0 src buf = do {
     (error, buf, cur_src) \<leftarrow> (if git__prefixcmp src GIT_REFS_DIR \<noteq> 0
        then dwim_src_loop al refs key0 src refspec_formatters buf None else Some (0, buf, None));
     Some (error, buf, case cur_src of None \<Rightarrow> cstr src | Some s \<Rightarrow> s) }"

definition dwim_dst :: "byte allocator \<Rightarrow> byte list option \<Rightarrow> git_buf \<Rightarrow> (int \<times> byte list option) option" where
  "dwim_dst al dst buf =
     (case dst of
        None \<Rightarrow> Some (0, None)
      | Some d \<Rightarrow>
          if git__prefixcmp d GIT_REFS_DIR \<noteq> 0 then do {
            (_, buf) \<leftarrow> git_buf_puts al buf (if git__prefixcmp d (bytes_of ''remotes/'') = 0 then GIT_REFS_DIR else GIT_REFS_HEADS_DIR);
            (_, buf) \<leftarrow> git_buf_puts al buf d;
            if git_buf_oom buf then Some (-1, None) else Some (0, Some (cstr (mem_cells (fst (git_buf_detach buf))))) }
          else Some (0, Some (cstr d)))"

definition git_refspec__dwim_one :: "byte allocator \<Rightarrow> git_refspec cells \<Rightarrow> git_refspec git_vector \<Rightarrow> git_refspec \<Rightarrow>
    git_remote_head git_vector \<Rightarrow> git_remote_head \<Rightarrow> (int \<times> git_refspec git_vector) option" where
  "git_refspec__dwim_one al al_vec out spec refs key0 = do {
     string \<leftarrow> rs_string spec;
     spec_src \<leftarrow> rs_src spec;
     (error, buf, src) \<leftarrow> dwim_src al refs key0 spec_src GIT_BUF_INIT;
     if error \<noteq> 0 then Some (error, out)
     else do {
       (error, dst) \<leftarrow> dwim_dst al (rs_dst spec) buf;
       if error \<noteq> 0 then Some (error, out)
       else git_vector_insert al_vec out (Some \<lparr>rs_string = Some (cstr string), rs_src = Some src, rs_dst = dst, rs_force = rs_force spec,
              rs_push = rs_push spec, rs_pattern = rs_pattern spec, rs_matching = rs_matching spec\<rparr>) } }"

section \<open>The shape of a pattern\<close>

definition ref_char :: "byte \<Rightarrow> bool" where
  "ref_char c \<longleftrightarrow> is_valid_ref_char c \<or> c = 47"

lemma ref_char_plain: "ref_char c \<Longrightarrow> c \<notin> {0, 42, 63, 91, 92}"
  by (auto simp: ref_char_def is_valid_ref_char_def)

lemma segs_ok_plain: "segs_ok False gs \<Longrightarrow> c \<in> set (join_segs gs) \<Longrightarrow> ref_char c"
  by (induction gs rule: join_segs.induct) (auto simp: ref_char_def ref_segment_ok_def is_valid_ref_char_eq split: if_splits)

lemma segs_ok_star:
  "segs_ok True gs \<Longrightarrow> 42 \<in> set (join_segs gs) \<Longrightarrow>
   \<exists>p q. join_segs gs = p @ 42 # q \<and> (q = [] \<or> hd q = 47) \<and> (\<forall>c\<in>set p \<union> set q. ref_char c)"
proof (induction gs rule: join_segs.induct)
  case (2 g)
  have "\<not> ref_segment_ok g" using 2(2) by (auto simp: ref_segment_ok_def plain_ref_char_def)
  then have "g = [42]" using 2(1) by (auto split: if_splits)
  then show ?case by (intro exI [of _ "[]"]) auto
next
  case (3 g h gs)
  show ?case
  proof (cases "ref_segment_ok g")
    case True
    then have g: "42 \<notin> set g" "\<forall>c\<in>set g. ref_char c" by (auto simp: ref_segment_ok_def ref_char_def is_valid_ref_char_eq plain_ref_char_def)
    have "segs_ok True (h # gs)" using 3(2) True by simp
    moreover have "42 \<in> set (join_segs (h # gs))" using 3(3) g(1) by auto
    ultimately obtain p q where "join_segs (h # gs) = p @ 42 # q" "q = [] \<or> hd q = 47" "\<forall>c\<in>set p \<union> set q. ref_char c"
      using 3(1) by blast
    then show ?thesis using g(2) by (intro exI [of _ "g @ 47 # p"] exI [of _ q]) (auto simp: ref_char_def)
  next
    case False
    then have "g = [42]" "segs_ok False (h # gs)" using 3(2) by (auto split: if_splits)
    then have "join_segs (g # h # gs) = [] @ 42 # (47 # join_segs (h # gs))" "\<forall>c\<in>set (join_segs (h # gs)). ref_char c"
      using segs_ok_plain [of "h # gs"] by auto
    then show ?thesis by (intro exI [of _ "[]"] exI [of _ "47 # join_segs (h # gs)"]) (auto simp: ref_char_def)
  qed
qed simp

definition star_pattern :: "byte list \<Rightarrow> byte list \<Rightarrow> byte list \<Rightarrow> bool" where
  "star_pattern s p q \<longleftrightarrow> s = p @ 42 # q \<and> (q = [] \<or> hd q = 47) \<and> (\<forall>c\<in>set p \<union> set q. ref_char c)"

lemma ref_name_star: "ref_name_ok flags False s \<Longrightarrow> flags AND GIT_REF_FORMAT_REFSPEC_PATTERN \<noteq> 0 \<Longrightarrow> 42 \<in> set s \<Longrightarrow> \<exists>p q. star_pattern s p q"
  using segs_ok_star [of "split_fields is_slash s"] join_split [of s] by (simp add: ref_name_ok_def Let_def star_pattern_def)

lemma glob_literal: "\<forall>c\<in>set p. ref_char c \<Longrightarrow> glob 0 prev p p"
proof (induction p arbitrary: prev)
  case Nil
  show ?case by (rule glob.End)
next
  case (Cons c p)
  then have "glob 0 (Some c) p p" by simp
  then show ?case using Cons.prems ref_char_plain [of c] by (intro glob.Plain) (auto simp: char_matches_def)
qed

lemma glob_star_pattern:
  assumes "star_pattern s p q"
  shows "glob 0 None s (p @ x @ q)"
proof -
  have q: "glob 0 prev q q" for prev using assms glob_literal [of q prev] by (auto simp: star_pattern_def)
  have "peek q \<noteq> 42" using assms by (auto simp: star_pattern_def peek_def split: list.splits)
  then have star: "glob 0 prev (42 # q) (x @ q)" for prev
    using glob.Star [of q 0 prev x q] q by (simp add: has_flag_def period_stop_def)
  have "glob 0 prev (p' @ 42 # q) (p' @ x @ q)" if "\<forall>c\<in>set p'. ref_char c" for p' prev
    using that
  proof (induction p' arbitrary: prev)
    case (Cons c p')
    then show ?case using ref_char_plain [of c] glob.Plain [of c 0 c "p' @ 42 # q" "p' @ x @ q" prev] by (auto simp: char_matches_def)
  qed (simp add: star)
  then show ?thesis using assms by (simp add: star_pattern_def)
qed


lemma glob_literal_only: "\<forall>c\<in>set p. ref_char c \<Longrightarrow> glob 0 prev p s \<Longrightarrow> s = p"
proof (induction p arbitrary: prev s)
  case Nil
  then show ?case by (simp add: glob_Nil has_flag_def)
next
  case (Cons c p)
  then have c: "c \<notin> {0, 42, 63, 91, 92}" using ref_char_plain [of c] by simp
  from Cons.prems(2) c obtain x s' where "s = x # s'" "char_matches 0 c x" "glob 0 (Some x) p s'"
    by (auto simp: glob_Cons)
  then show ?case using Cons.IH [of "Some x" s'] Cons.prems(1) by (auto simp: char_matches_def has_flag_def)
qed

lemma glob_star_only:
  assumes "star_pattern s p q" and "glob 0 None s name"
  shows "\<exists>x. name = p @ x @ q"
proof -
  have q: "\<forall>c\<in>set q. ref_char c" "peek q \<noteq> 42" "q = [] \<or> hd q = 47"
    using assms(1) by (auto simp: star_pattern_def peek_def split: list.splits)
  have star: "\<exists>x. s' = x @ q" if "glob 0 prev (42 # q) s'" for prev s'
  proof -
    from that q(2,3) obtain a b prev' where "s' = a @ b" "glob 0 prev' q b"
      by (auto simp: glob_Cons [of 0 prev 42] has_flag_def peek_def)
    then show ?thesis using glob_literal_only [OF q(1)] by blast
  qed
  have "\<exists>x. s' = p' @ x @ q" if "\<forall>c\<in>set p'. ref_char c" "glob 0 prev (p' @ 42 # q) s'" for p' prev s'
    using that
  proof (induction p' arbitrary: prev s')
    case Nil
    then show ?case using star by simp
  next
    case (Cons c p')
    then have c: "c \<notin> {0, 42, 63, 91, 92}" using ref_char_plain [of c] by simp
    from Cons.prems(2) c obtain x s1 where "s' = x # s1" "char_matches 0 c x" "glob 0 (Some x) (p' @ 42 # q) s1"
      by (auto simp: glob_Cons [of 0 prev c])
    then show ?case using Cons.IH [of "Some x" s1] Cons.prems(1) by (auto simp: char_matches_def has_flag_def)
  qed
  then show ?thesis using assms by (simp add: star_pattern_def)
qed

lemma star_pattern_nonzero: "star_pattern s p q \<Longrightarrow> 0 \<notin> set s \<and> 42 \<notin> set p \<and> 42 \<notin> set q"
  using ref_char_plain [of 0] ref_char_plain [of 42] by (auto simp: star_pattern_def)

lemma p_fnmatch_star:
  assumes "star_pattern s p q" and "0 \<notin> set name"
  shows "p_fnmatch s name 0 = 0 \<longleftrightarrow> (\<exists>x. name = p @ x @ q)"
proof -
  have z: "cstr s = s" "0 \<notin> set s" using star_pattern_nonzero [OF assms(1)] cstr_id by auto
  have "filter (\<lambda>c. c = 42) p = []" "filter (\<lambda>c. c = 42) q = []"
    using star_pattern_nonzero [OF assms(1)] by (auto simp: filter_empty_conv)
  then have "stars s < 64" using assms(1) by (simp add: stars_def star_pattern_def)
  then have "p_fnmatch s name 0 = verdict (glob 0 None s name)"
    using p_fnmatchx_glob [of s 64 0] z by (simp add: p_fnmatch_def cstr_id assms(2))
  then show ?thesis using glob_star_only [OF assms(1)] glob_star_pattern [OF assms(1)] by (auto simp: FNM_NOMATCH_def)
qed

section \<open>Renaming\<close>

lemma git_buf_sanitize_wf: "buf_wf b \<Longrightarrow> \<exists>b'. git_buf_sanitize b = Some b' \<and> buf_wf b' \<and> content b' = content b"
proof (cases "buf_asize b > 0")
  case True
  assume "buf_wf b"
  then show ?thesis using True
  proof (cases rule: buf_wf_cases)
    case (block m)
    then show ?thesis
      using buf_shrink_wf [OF \<open>buf_wf b\<close> True, of "buf_size b"] by (auto simp: git_buf_sanitize_def content_def)
  qed (simp add: GIT_BUF_INIT_def)
next
  case False
  assume "buf_wf b"
  then have "b = GIT_BUF_INIT" using False buf_wf_asize_0 by simp
  then show ?thesis by (auto simp: git_buf_sanitize_def GIT_BUF_INIT_def buf_wf_def content_def)
qed

text \<open>What the star stands for: the bytes from its place up to the next slash of the name, if the pattern goes on with
  one.\<close>

lemma replacement_length:
  assumes q: "q = [] \<or> hd q = 47" and x: "47 \<notin> set x \<or> q = []"
  shows "(if strchr_pos 47 (42 # q) = None then length (p @ x @ q)
     else case strchr_pos 47 (x @ q) of None \<Rightarrow> length (p @ x @ q) | Some k \<Rightarrow> length p + k) - length p = length x"
  using q x by (cases q) (auto simp: strchr_pos_None strchr_pos_first)

lemma refspec_transform_star:
  assumes env: "alloc_env al" and wf: "buf_wf out" and pats: "star_pattern from p q" "star_pattern to p' q'"
    and x: "0 \<notin> set x" "47 \<notin> set x \<or> q = []" and room: "length to + length x < BUF_LIMIT"
  shows "\<exists>b. refspec_transform al out from to (p @ x @ q) = Some (0, b) \<and> buf_wf b \<and> content b = p' @ x @ q'"
proof -
  have al: "good_alloc al" using env by (simp add: alloc_env_def)
  have z: "cstr from = from" "cstr to = to" "cstr q' = q'" "cstr (p @ x @ q) = p @ x @ q"
    using star_pattern_nonzero [OF pats(1)] star_pattern_nonzero [OF pats(2)] x(1) pats
    by (auto intro!: cstr_id simp: star_pattern_def)
  have froms: "from = p @ 42 # q" "to = p' @ 42 # q'" "42 \<notin> set p" "42 \<notin> set p'" "q = [] \<or> hd q = 47"
    using pats star_pattern_nonzero [OF pats(1)] star_pattern_nonzero [OF pats(2)] by (auto simp: star_pattern_def)
  obtain b1 where b1: "git_buf_sanitize out = Some b1" "buf_wf b1" using git_buf_sanitize_wf [OF wf] by blast
  obtain b2 where b2: "git_buf_clear b1 = Some b2" "buf_wf b2" "content b2 = []" "buf_size b2 = 0"
    using git_buf_clear_wf [OF b1(2)] by blast
  obtain b3 where b3: "git_buf_put al b2 p' = Some (0, b3)" "buf_wf b3" "content b3 = p'"
    using buf_outcome_total [OF git_buf_put_outcome [OF al b2(2), of p'] env] b2(3,4) room froms(2) by auto
  have s3: "buf_size b3 = length p'" using length_content [OF b3(2)] b3(3) by simp
  obtain b4 where b4: "git_buf_put al b3 x = Some (0, b4)" "buf_wf b4" "content b4 = p' @ x"
    using buf_outcome_total [OF git_buf_put_outcome [OF al b3(2), of x] env] b3(3) s3 room froms(2) by auto
  have s4: "buf_size b4 = length p' + length x" using length_content [OF b4(2)] b4(3) by simp
  obtain b5 where b5: "git_buf_puts al b4 q' = Some (0, b5)" "buf_wf b5" "content b5 = p' @ x @ q'"
    using buf_outcome_total [OF git_buf_puts_outcome [OF al b4(2), of q'] env] b4(3) s4 room froms(2) z(3) by (auto simp: cstrlen_def)
  have zz: "cstr (p @ 42 # q) = p @ 42 # q" "cstr (p' @ 42 # q') = p' @ 42 # q'" using z(1,2) froms(1,2) by simp_all
  show ?thesis
    using b1(1) b2(1) b3(1) b4(1) b5 replacement_length [OF froms(5) x(2), of p]
    by (simp add: refspec_transform_def Let_def z(4) zz froms(1,2) strchr_pos_first [OF froms(3)] strchr_pos_first [OF froms(4)])
qed

section \<open>What an accepted pattern is\<close>

lemma refspec_sides_pattern:
  assumes "refspec_sides lhs is_fetch = Some (src, dst, True)"
  shows "42 \<in> set src \<and> length src \<le> length lhs \<and>
    (case dst of None \<Rightarrow> \<not> is_fetch | Some d \<Rightarrow> 42 \<in> set d \<and> length d \<le> length lhs)"
  using assms unfolding refspec_sides_def Let_def
  by (auto split: if_splits option.splits simp: min_def)

lemma valid_name_star:
  assumes "alloc_env al" and "2 * length s + 4 \<le> BUF_LIMIT" and "0 \<notin> set s" and "42 \<in> set s"
    and "git_reference__is_valid_name al s (GIT_REF_FORMAT_ALLOW_ONELEVEL OR GIT_REF_FORMAT_REFSPEC_SHORTHAND OR GIT_REF_FORMAT_REFSPEC_PATTERN) = Some True"
  shows "\<exists>p q. star_pattern s p q"
  using assms(5) normalize_name_ok(1) [OF assms(1,2)] ref_name_star [OF _ _ assms(4)] cstr_id [OF assms(3)]
  by (fastforce simp: git_reference__is_valid_name_def split: if_splits)

lemma git_refspec__parse_pattern:
  assumes env: "alloc_env al" and len: "2 * length input + 4 \<le> BUF_LIMIT"
    and parsed: "git_refspec__parse al input is_fetch = Some (0, spec)" and pat: "rs_pattern spec"
  shows "\<exists>src dst p q p' q'. rs_src spec = Some src \<and> rs_dst spec = Some dst \<and> star_pattern src p q \<and> star_pattern dst p' q' \<and>
    length src \<le> length input \<and> length dst \<le> length input"
proof -
  define lhs where "lhs = (if peek (cstr input) = 43 then tl (cstr input) else cstr input)"
  have lhs: "length lhs \<le> length input" "0 \<notin> set lhs"
  proof -
    have "length (cstr input) \<le> length input" by (simp add: cstr_def length_takeWhile_le)
    then show "length lhs \<le> length input" by (auto simp: lhs_def)
    have "0 \<notin> set (cstr input)" by (auto simp: cstr_def dest: set_takeWhileD)
    then show "0 \<notin> set lhs" unfolding lhs_def by (cases "cstr input") auto
  qed
  from parsed pat obtain src dst0 where sides: "refspec_sides lhs is_fetch = Some (src, dst0, True)"
      and valid: "refspec_valid al is_fetch True src dst0 = Some True"
      and spec: "rs_src spec = Some src" "rs_dst spec = (if \<not> is_fetch \<and> dst0 = None then Some src else dst0)"
    by (auto simp: git_refspec__parse_def lhs_def [symmetric] Let_def split: if_splits option.splits prod.splits bool.splits)
  note sp = refspec_sides_pattern [OF sides]
  have sub: "set src \<subseteq> set lhs" "\<forall>d. dst0 = Some d \<longrightarrow> set d \<subseteq> set lhs"
    using sides set_take_subset set_drop_subset unfolding refspec_sides_def Let_def by (fastforce split: if_splits option.splits)+
  have src: "\<exists>p q. star_pattern src p q"
    using valid sp lhs sub(1) len by (intro valid_name_star [OF env])
      (auto simp: refspec_valid_def Let_def split: if_splits option.splits bind_splits)
  show ?thesis
  proof (cases dst0)
    case None
    then show ?thesis using src spec sp lhs by auto
  next
    case (Some d)
    then have "\<exists>p q. star_pattern d p q"
      using valid sp lhs sub(2) len by (intro valid_name_star [OF env])
        (auto simp: refspec_valid_def Let_def split: if_splits option.splits bind_splits)
    then show ?thesis using Some src spec sp lhs by auto
  qed
qed

section \<open>Shorthand sides\<close>

lemma cstr_buffer:
  assumes "buf_wf b" and "0 \<notin> set (content b)"
  shows "cstr (mem_cells (buf_ptr b)) = content b"
  using assms(1)
proof (cases rule: buf_wf_cases)
  case init
  then show ?thesis by (simp add: GIT_BUF_INIT_def content_def cstr_def)
next
  case (block m)
  then have m: "m = take (buf_size b) m @ 0 # drop (buf_size b + 1) m"
    using id_take_nth_drop [of "buf_size b" m] by simp
  have c: "content b = take (buf_size b) m" using block by (simp add: content_def)
  have "cstr (take (buf_size b) m @ 0 # drop (buf_size b + 1) m) = take (buf_size b) m"
    using assms(2) unfolding c by (rule cstr_append_nul)
  then show ?thesis using m c block(1) by simp
qed

definition found_head :: "git_remote_head git_vector \<Rightarrow> git_remote_head \<Rightarrow> byte list \<Rightarrow> bool" where
  "found_head refs key0 n \<longleftrightarrow> map_option fst (git_vector_search refs (Some (key0\<lparr>rh_name := n\<rparr>))) = Some 0"

lemma dwim_src_loop_step:
  assumes env: "alloc_env al" and wf: "buf_wf buf" and z: "0 \<notin> set src" "0 \<notin> set dir" and room: "2 * length dir + length src + 10 \<le> BUF_LIMIT"
  shows "\<exists>b. buf_wf b \<and> content b = dir @ src \<and>
    dwim_src_loop al refs key0 src (dir # dirs) buf s =
      (if found_head refs key0 (dir @ src)
       then dwim_src_loop al refs key0 src dirs (snd (git_buf_detach b)) (Some (cstr (mem_cells (fst (git_buf_detach b)))))
       else dwim_src_loop al refs key0 src dirs b s)"
proof -
  have al: "good_alloc al" using env by (simp add: alloc_env_def)
  obtain b1 where b1: "git_buf_clear buf = Some b1" "buf_wf b1" "content b1 = []" "buf_size b1 = 0"
    using git_buf_clear_wf [OF wf] by blast
  have fmt: "cstrlen (dir @ bytes_of ''%s'') \<le> length dir + 2"
    using length_takeWhile_le [of _ "dir @ bytes_of ''%s''"] by (simp add: cstrlen_def cstr_def bytes_of_def)
  have src: "cstr src = src" using z(1) by (rule cstr_id)
  obtain b where b: "git_buf_vprintf al b1 (dir @ bytes_of ''%s'') (Some (dir @ src)) = Some (0, b)" "buf_wf b" "content b = dir @ src"
    using buf_outcome_total [OF git_buf_vprintf_outcome [OF al b1(2), of "dir @ src" "dir @ bytes_of ''%s''"] env] b1(3,4) fmt room by auto
  have "\<not> git_buf_oom b" using buf_wf_not_oom [OF b(2)] by (simp add: git_buf_oom_def)
  moreover have "cstr (mem_cells (buf_ptr b)) = dir @ src" using cstr_buffer [OF b(2)] b(3) z by simp
  ultimately show ?thesis using b1(1) b
    by (intro exI [of _ b]) (simp add: found_head_def git_vector_search_def git_vector_search2_def src split: prod.split)
qed

text \<open>When the name is not found in the last directory, the buffer still holds that candidate.\<close>

lemma dwim_src_loop_rest:
  assumes "alloc_env al" and "0 \<notin> set src" and "\<forall>dir\<in>set dirs. 0 \<notin> set dir \<and> 2 * length dir + length src + 10 \<le> BUF_LIMIT"
    and "dirs \<noteq> []" and "\<not> found_head refs key0 (last dirs @ src)" and "buf_wf buf"
  shows "\<exists>b s'. dwim_src_loop al refs key0 src dirs buf s = Some (0, b, s') \<and> buf_wf b \<and> content b = last dirs @ src"
  using assms(3-6)
proof (induction dirs arbitrary: buf s)
  case (Cons dir dirs)
  have dir: "0 \<notin> set dir" "2 * length dir + length src + 10 \<le> BUF_LIMIT" using Cons.prems(1) by auto
  from dwim_src_loop_step [OF assms(1) Cons.prems(4) assms(2) dir, of refs key0 dirs s] obtain b where b: "buf_wf b" "content b = dir @ src"
      "dwim_src_loop al refs key0 src (dir # dirs) buf s =
      (if found_head refs key0 (dir @ src)
       then dwim_src_loop al refs key0 src dirs (snd (git_buf_detach b)) (Some (cstr (mem_cells (fst (git_buf_detach b)))))
       else dwim_src_loop al refs key0 src dirs b s)"
    by blast
  show ?case
  proof (cases "dirs = []")
    case True
    then show ?thesis using b Cons.prems(3) by simp
  next
    case False
    have "buf_wf (snd (git_buf_detach b))" using b(1) by (simp add: git_buf_detach_def)
    then show ?thesis using Cons.IH [OF _ False] Cons.prems(1,3) b False by simp
  qed
qed simp

lemma dwim_dst_appends:
  assumes env: "alloc_env al" and wf: "buf_wf buf" and d: "0 \<notin> set d" "0 \<notin> set (content buf)" "d \<noteq> []"
    and short: "git__prefixcmp d GIT_REFS_DIR \<noteq> 0" "git__prefixcmp d (bytes_of ''remotes/'') \<noteq> 0"
    and room: "length (content buf) + length d + 20 < BUF_LIMIT"
  shows "dwim_dst al (Some d) buf = Some (0, Some (content buf @ GIT_REFS_HEADS_DIR @ d))"
proof -
  have al: "good_alloc al" using env by (simp add: alloc_env_def)
  have h: "cstr GIT_REFS_HEADS_DIR = GIT_REFS_HEADS_DIR" "length GIT_REFS_HEADS_DIR = 11" "0 \<notin> set GIT_REFS_HEADS_DIR"
    by (simp_all add: GIT_REFS_HEADS_DIR_def GIT_REFS_DIR_def bytes_of_def)
  have size: "length (content buf) = buf_size buf" using wf by simp
  obtain b1 where b1: "git_buf_puts al buf GIT_REFS_HEADS_DIR = Some (0, b1)" "buf_wf b1" "content b1 = content buf @ GIT_REFS_HEADS_DIR"
    using buf_outcome_total [OF git_buf_puts_outcome [OF al wf, of GIT_REFS_HEADS_DIR] env] room size by (auto simp: cstrlen_def h)
  have size1: "buf_size b1 = length (content buf) + 11" using length_content [OF b1(2)] b1(3) h(2) by simp
  obtain b2 where b2: "git_buf_puts al b1 d = Some (0, b2)" "buf_wf b2" "content b2 = content buf @ GIT_REFS_HEADS_DIR @ d"
    using buf_outcome_total [OF git_buf_puts_outcome [OF al b1(2), of d] env] b1(3) size1 room d(1) by (auto simp: cstrlen_def cstr_id)
  have c: "cstr (mem_cells (buf_ptr b2)) = content b2" using cstr_buffer [OF b2(2)] b2(3) d h(3) by simp
  have oom: "buf_ptr b2 \<noteq> OomBuf" using buf_wf_not_oom [OF b2(2)] by simp
  have "buf_size b2 \<noteq> 0" using length_content [OF b2(2)] b2(3) h(2) by simp
  then have "buf_asize b2 \<noteq> 0" using buf_wf_bounds(3) [OF b2(2)] by simp
  then have detach: "git_buf_detach b2 = (buf_ptr b2, GIT_BUF_INIT)" using oom by (simp add: git_buf_detach_def)
  show ?thesis
    unfolding dwim_dst_def option.case if_P [OF short(1)] if_not_P [OF short(2)] b1(1) bind.bind_lunit prod.case b2(1) detach fst_conv c b2(3)
    using oom by (simp add: git_buf_oom_def)
qed

text \<open>The destination is written behind what the search for the source left in the buffer: with a shorthand source that is
  not a branch of the remote, the shorthand destination comes out as \<open>refs/heads/<src>refs/heads/<dst>\<close>.\<close>

lemma git_refspec__dwim_one_dst:
  assumes "alloc_env al" and "rs_string spec \<noteq> None" and "rs_src spec = Some src" and "rs_dst spec = Some d" and "0 \<notin> set (src @ d)"
    and "git__prefixcmp src GIT_REFS_DIR \<noteq> 0" and "\<not> found_head refs key0 (GIT_REFS_HEADS_DIR @ src)"
    and "git__prefixcmp d GIT_REFS_DIR \<noteq> 0" and "git__prefixcmp d (bytes_of ''remotes/'') \<noteq> 0" and "d \<noteq> []"
    and "2 * length src + 2 * length d + 100 < BUF_LIMIT"
  shows "\<exists>cur. git_refspec__dwim_one al al_vec out spec refs key0 = git_vector_insert al_vec out (Some cur) \<and>
    rs_dst cur = Some (GIT_REFS_HEADS_DIR @ src @ GIT_REFS_HEADS_DIR @ d)"
proof -
  have dirs: "length GIT_REFS_DIR = 5" "length GIT_REFS_HEADS_DIR = 11" "length GIT_REFS_TAGS_DIR = 10"
    "0 \<notin> set GIT_REFS_DIR \<union> set GIT_REFS_HEADS_DIR \<union> set GIT_REFS_TAGS_DIR"
    by (simp_all add: GIT_REFS_HEADS_DIR_def GIT_REFS_TAGS_DIR_def GIT_REFS_DIR_def bytes_of_def)
  obtain string where st: "rs_string spec = Some string" using assms(2) by blast
  obtain b s' where b: "dwim_src_loop al refs key0 src refspec_formatters GIT_BUF_INIT None = Some (0, b, s')" "buf_wf b"
      "content b = GIT_REFS_HEADS_DIR @ src"
    using dwim_src_loop_rest [OF assms(1), of src refspec_formatters refs key0 GIT_BUF_INIT None] assms(5,7,11) dirs
    by (auto simp: refspec_formatters_def)
  have dst: "dwim_dst al (Some d) b = Some (0, Some (GIT_REFS_HEADS_DIR @ src @ GIT_REFS_HEADS_DIR @ d))"
    using dwim_dst_appends [OF assms(1) b(2), of d] b(3) assms(5,8-11) dirs by simp
  show ?thesis
    using b(1) dst assms(3,4,6) st by (simp add: git_refspec__dwim_one_def dwim_src_def) (rule exI, rule conjI, rule refl, simp)
qed

text \<open>C34: Both sides of an accepted pattern have one star, alone between slashes or the ends, so the assertion of
  \<open>refspec_transform\<close> holds; a name matches a side exactly if it has its text around the star; and a name of the source
  is renamed to the destination's with the same part for the star, which \<open>git_refspec_rtransform\<close> renames back, as long as
  that part has no slash or nothing follows the stars.\<close>

theorem git_refspec_transform_back:
  assumes "alloc_env al" and "2 * length input + 4 \<le> BUF_LIMIT"
    and "git_refspec__parse al input is_fetch = Some (0, spec)" and "rs_pattern spec" and "buf_wf out" and "buf_wf back"
  shows "\<exists>p q p' q'. rs_src spec = Some (p @ 42 # q) \<and> rs_dst spec = Some (p' @ 42 # q') \<and> 42 \<notin> set (p @ q @ p' @ q') \<and>
    (\<forall>name. 0 \<notin> set name \<longrightarrow> (git_refspec_src_matches spec name \<longleftrightarrow> (\<exists>x. name = p @ x @ q)) \<and>
       (git_refspec_dst_matches spec name \<longleftrightarrow> (\<exists>x. name = p' @ x @ q'))) \<and>
    (\<forall>x. 0 \<notin> set x \<and> (47 \<notin> set x \<or> q = [] \<and> q' = []) \<and> length input + length x < BUF_LIMIT \<longrightarrow>
       (\<exists>b c. git_refspec_transform al out spec (p @ x @ q) = Some (0, b) \<and> content b = p' @ x @ q' \<and>
          git_refspec_rtransform al back spec (content b) = Some (0, c) \<and> content c = p @ x @ q))"
proof -
  obtain src dst p q p' q' where s: "rs_src spec = Some src" "rs_dst spec = Some dst" "star_pattern src p q" "star_pattern dst p' q'"
      "length src \<le> length input" "length dst \<le> length input"
    using git_refspec__parse_pattern [OF assms(1-4)] by blast
  have shape: "src = p @ 42 # q" "dst = p' @ 42 # q'" "42 \<notin> set (p @ q @ p' @ q')" "0 \<notin> set (p @ q @ p' @ q')"
    using s(3,4) star_pattern_nonzero [OF s(3)] star_pattern_nonzero [OF s(4)] by (auto simp: star_pattern_def)
  have match: "git_refspec_src_matches spec name \<longleftrightarrow> (\<exists>x. name = p @ x @ q)"
    "git_refspec_dst_matches spec name \<longleftrightarrow> (\<exists>x. name = p' @ x @ q')" if "0 \<notin> set name" for name
    using that s by (simp_all add: git_refspec_src_matches_def git_refspec_dst_matches_def p_fnmatch_star)
  obtain o1 o2 where buf: "git_buf_sanitize out = Some o1" "buf_wf o1" "git_buf_sanitize back = Some o2" "buf_wf o2"
    using git_buf_sanitize_wf [OF assms(5)] git_buf_sanitize_wf [OF assms(6)] by blast
  have "\<exists>b c. git_refspec_transform al out spec (p @ x @ q) = Some (0, b) \<and> content b = p' @ x @ q' \<and>
          git_refspec_rtransform al back spec (content b) = Some (0, c) \<and> content c = p @ x @ q"
    if x: "0 \<notin> set x \<and> (47 \<notin> set x \<or> q = [] \<and> q' = []) \<and> length input + length x < BUF_LIMIT" for x
  proof -
    obtain b where b: "refspec_transform al o1 src dst (p @ x @ q) = Some (0, b)" "content b = p' @ x @ q'"
      using refspec_transform_star [OF assms(1) buf(2) s(3,4), of x] x s(6) by auto
    obtain c where c: "refspec_transform al o2 dst src (p' @ x @ q') = Some (0, c)" "content c = p @ x @ q"
      using refspec_transform_star [OF assms(1) buf(4) s(4,3), of x] x s(5) by auto
    have "git_refspec_src_matches spec (p @ x @ q)" "git_refspec_dst_matches spec (p' @ x @ q')"
      using match shape(4) x by auto
    then show ?thesis
      using b c buf s(1,2) assms(4) by (simp add: git_refspec_transform_def git_refspec_rtransform_def)
  qed
  then show ?thesis using s(1,2) shape match by (intro exI [of _ p] exI [of _ q] exI [of _ p'] exI [of _ q']) auto
qed

theorem git_refspec_transform_back_witness:
  "\<exists>spec b c. git_refspec__parse (fill_alloc 0) (bytes_of ''+r/h/*:r/o/*'') True = Some (0, spec) \<and>
     git_refspec_transform (fill_alloc 0) GIT_BUF_INIT spec (bytes_of ''r/h/a/b'') = Some (0, b) \<and> content b = bytes_of ''r/o/a/b'' \<and>
     git_refspec_rtransform (fill_alloc 0) GIT_BUF_INIT spec (content b) = Some (0, c) \<and> content c = bytes_of ''r/h/a/b''"
proof -
  let ?al = "fill_alloc 0 :: byte allocator"
  let ?fl = "GIT_REF_FORMAT_ALLOW_ONELEVEL OR GIT_REF_FORMAT_REFSPEC_SHORTHAND OR GIT_REF_FORMAT_REFSPEC_PATTERN"
  have valid: "git_reference__is_valid_name ?al (bytes_of ''r/h/*'') ?fl = Some True" "git_reference__is_valid_name ?al (bytes_of ''r/o/*'') ?fl = Some True"
    using normalize_name_ok(1) [of ?al "bytes_of ''r/h/*''" ?fl] normalize_name_ok(1) [of ?al "bytes_of ''r/o/*''" ?fl]
    by (simp_all add: git_reference__is_valid_name_def BUF_LIMIT_def bytes_of_def ref_name_ok_def Let_def ref_segment_ok_def
        plain_ref_char_def all_caps_def GIT_FILELOCK_EXTENSION_def suffix_def Cons_eq_append_conv sublist_Cons_right)
  obtain spec where spec: "git_refspec__parse ?al (bytes_of ''+r/h/*:r/o/*'') True = Some (0, spec)" "rs_pattern spec"
      "rs_src spec = Some (bytes_of ''r/h/*'')" "rs_dst spec = Some (bytes_of ''r/o/*'')"
    using valid by (simp add: git_refspec__parse_def refspec_sides_def refspec_valid_def strrchr_def bytes_of_def cstr_def peek_def Let_def)
  obtain p q p' q' where s: "rs_src spec = Some (p @ 42 # q)" "rs_dst spec = Some (p' @ 42 # q')" "42 \<notin> set (p @ q @ p' @ q')"
      "\<forall>x. 0 \<notin> set x \<and> (47 \<notin> set x \<or> q = [] \<and> q' = []) \<and> length (bytes_of ''+r/h/*:r/o/*'') + length x < BUF_LIMIT \<longrightarrow>
       (\<exists>b c. git_refspec_transform ?al GIT_BUF_INIT spec (p @ x @ q) = Some (0, b) \<and> content b = p' @ x @ q' \<and>
          git_refspec_rtransform ?al GIT_BUF_INIT spec (content b) = Some (0, c) \<and> content c = p @ x @ q)"
    using git_refspec_transform_back [of ?al "bytes_of ''+r/h/*:r/o/*''" True spec GIT_BUF_INIT GIT_BUF_INIT] spec(1,2)
    by (auto simp: BUF_LIMIT_def bytes_of_def)
  have p: "p = bytes_of ''r/h/'' \<and> q = []" "p' = bytes_of ''r/o/'' \<and> q' = []"
    using s(1-3) spec(3,4) append_Cons_eq_iff [of 42 p q "bytes_of ''r/h/''" "[]"] append_Cons_eq_iff [of 42 p' q' "bytes_of ''r/o/''" "[]"]
    by (simp_all add: bytes_of_def)
  show ?thesis
    using s(4) [rule_format, of "bytes_of ''a/b''"] spec(1) p by (auto simp: bytes_of_def BUF_LIMIT_def)
qed

end
