(* ===== verification/SmartPkt.thy ===== *)
theory SmartPkt
  imports Refspec Numbers
begin

text \<open>
  The packets of the smart protocol (transports/smart_pkt.c): parsing what a server sends, and writing what the client asks for.
\<close>

section \<open>The packets\<close>

datatype git_ack_status = GIT_ACK_NONE | GIT_ACK_CONTINUE | GIT_ACK_COMMON | GIT_ACK_READY

text \<open>A reference packet has the name with what the server put behind its NUL, and the capabilities that stand there.\<close>

datatype git_pkt =
  Pkt_Flush
| Pkt_Ack git_oid git_ack_status
| Pkt_Nak
| Pkt_Pack
| Pkt_Comment "byte list"
| Pkt_Err "byte list"
| Pkt_Data "byte list"
| Pkt_Progress "byte list"
| Pkt_Ok "byte list"
| Pkt_Ng "byte list" "byte list"
| Pkt_Unpack bool
| Pkt_Ref git_remote_head "byte list" "byte list option"

section \<open>Access to the memory of the buffer\<close>

text \<open>\<open>line\<close> is the memory from the packet on, to the end of the object. Reading behind it is undefined (\<open>None\<close>).\<close>

definition mem_prefixcmp :: "byte list \<Rightarrow> byte list \<Rightarrow> int option" where
  "mem_prefixcmp line s = (if length line < length s \<and> line = take (length line) s then None else Some (git__prefixcmp line s))"

definition mem_fromstr :: "byte list \<Rightarrow> (int \<times> git_oid) option" where
  "mem_fromstr line =
     (if length line < GIT_OID_HEXSZ \<and> (\<forall>c\<in>set line. 0 \<le> git__fromhex c) then None else Some (git_oid_fromstr (oid_of []) line))"

definition mem_copy :: "byte list \<Rightarrow> nat \<Rightarrow> byte list option" where
  "mem_copy line n = (if length line < n then None else Some (take n line))"

definition mem_byte :: "byte list \<Rightarrow> byte option" where
  "mem_byte line = (case line of [] \<Rightarrow> None | c # _ \<Rightarrow> Some c)"

text \<open>\<open>strchr\<close> stops at a NUL; the offset of the character, or nothing. A memory without both is read past its end.\<close>

definition mem_strchr :: "byte \<Rightarrow> byte list \<Rightarrow> nat option option" where
  "mem_strchr c line =
     (let n = length (takeWhile (\<lambda>x. x \<noteq> c \<and> x \<noteq> 0) line)
      in if n = length line then None else Some (if line ! n = c then Some n else None))"

section \<open>Parsing\<close>

text \<open>Every function gives the code and the packet. \<open>ok n\<close> says whether \<open>n\<close> bytes can be allocated. Lengths are
  \<open>size_t\<close>: subtractions wrap.\<close>

type_synonym pkt_result = "(int \<times> git_pkt option) option"

definition sub_sizet :: "nat \<Rightarrow> nat \<Rightarrow> nat" where
  "sub_sizet a b = nat ((int a - int b) mod 2 ^ 64)"

definition alloc_pkt :: "(nat \<Rightarrow> bool) \<Rightarrow> nat option \<Rightarrow> (unit \<Rightarrow> pkt_result) \<Rightarrow> pkt_result" where
  "alloc_pkt ok needed k = (case needed of None \<Rightarrow> Some (-1, None) | Some n \<Rightarrow> if ok n then k () else Some (-1, None))"

definition flush_pkt :: "(nat \<Rightarrow> bool) \<Rightarrow> pkt_result" where
  "flush_pkt ok = alloc_pkt ok (Some 4) (\<lambda>_. Some (0, Some Pkt_Flush))"

definition ack_status :: "byte list \<Rightarrow> git_ack_status option" where
  "ack_status line = do {
     a \<leftarrow> mem_prefixcmp (tl line) (bytes_of ''continue'');
     b \<leftarrow> mem_prefixcmp (tl line) (bytes_of ''common'');
     c \<leftarrow> mem_prefixcmp (tl line) (bytes_of ''ready'');
     Some (if c = 0 then GIT_ACK_READY else if b = 0 then GIT_ACK_COMMON else if a = 0 then GIT_ACK_CONTINUE else GIT_ACK_NONE) }"

definition ack_pkt :: "(nat \<Rightarrow> bool) \<Rightarrow> byte list \<Rightarrow> nat \<Rightarrow> pkt_result" where
  "ack_pkt ok line len = alloc_pkt ok (Some 28) (\<lambda>_.
     let line = drop 3 line; len = sub_sizet len 3 in do {
       (oid, line, len) \<leftarrow> (if len \<ge> GIT_OID_HEXSZ then do {
           (_, oid) \<leftarrow> mem_fromstr (tl line);
           Some (oid, drop (GIT_OID_HEXSZ + 1) line, sub_sizet len (GIT_OID_HEXSZ + 1)) }
         else Some (oid_of [], line, len));
       status \<leftarrow> (if len \<ge> 7 then ack_status line else Some GIT_ACK_NONE);
       Some (0, Some (Pkt_Ack oid status)) })"

definition nak_pkt :: "(nat \<Rightarrow> bool) \<Rightarrow> pkt_result" where
  "nak_pkt ok = alloc_pkt ok (Some 4) (\<lambda>_. Some (0, Some Pkt_Nak))"

definition pack_pkt :: "(nat \<Rightarrow> bool) \<Rightarrow> pkt_result" where
  "pack_pkt ok = alloc_pkt ok (Some 4) (\<lambda>_. Some (0, Some Pkt_Pack))"

text \<open>The size of a packet with \<open>len\<close> bytes and, where the string is terminated, a NUL.\<close>

definition pkt_size :: "nat \<Rightarrow> nat \<Rightarrow> bool \<Rightarrow> nat option" where
  "pkt_size struct_size len nul =
     (case add_sizet struct_size len of None \<Rightarrow> None | Some n \<Rightarrow> if nul then add_sizet n 1 else Some n)"

definition comment_pkt :: "(nat \<Rightarrow> bool) \<Rightarrow> byte list \<Rightarrow> nat \<Rightarrow> pkt_result" where
  "comment_pkt ok line len = alloc_pkt ok (pkt_size 4 len True) (\<lambda>_. do {
     comment \<leftarrow> mem_copy line len;
     Some (0, Some (Pkt_Comment comment)) })"

definition err_pkt :: "(nat \<Rightarrow> bool) \<Rightarrow> byte list \<Rightarrow> nat \<Rightarrow> pkt_result" where
  "err_pkt ok line len =
     (let len = sub_sizet len 4 in alloc_pkt ok (pkt_size 8 len True) (\<lambda>_. do {
        error \<leftarrow> mem_copy (drop 4 line) len;
        Some (0, Some (Pkt_Err error)) }))"

definition data_pkt :: "(nat \<Rightarrow> bool) \<Rightarrow> byte list \<Rightarrow> nat \<Rightarrow> pkt_result" where
  "data_pkt ok line len =
     (let len = sub_sizet len 1 in alloc_pkt ok (pkt_size 8 len False) (\<lambda>_. do {
        data \<leftarrow> mem_copy (tl line) len;
        Some (0, Some (Pkt_Data data)) }))"

definition sideband_progress_pkt :: "(nat \<Rightarrow> bool) \<Rightarrow> byte list \<Rightarrow> nat \<Rightarrow> pkt_result" where
  "sideband_progress_pkt ok line len =
     (let len = sub_sizet len 1 in alloc_pkt ok (pkt_size 8 len False) (\<lambda>_. do {
        data \<leftarrow> mem_copy (tl line) len;
        Some (0, Some (Pkt_Progress data)) }))"

definition sideband_error_pkt :: "(nat \<Rightarrow> bool) \<Rightarrow> byte list \<Rightarrow> nat \<Rightarrow> pkt_result" where
  "sideband_error_pkt ok line len =
     (let len = sub_sizet len 1 in alloc_pkt ok (pkt_size 8 len True) (\<lambda>_. do {
        error \<leftarrow> mem_copy (tl line) len;
        Some (0, Some (Pkt_Err error)) }))"

text \<open>\<open>line[len - 1]\<close> relative to the text behind the id; a length that has wrapped reaches back into the id.\<close>

definition last_byte :: "byte list \<Rightarrow> nat \<Rightarrow> byte option" where
  "last_byte line len =
     (let i = (int (GIT_OID_HEXSZ + 1) + int len - 1) mod 2 ^ 64
      in if 0 \<le> i \<and> i < int (length line) then Some (line ! nat i) else None)"

definition ref_pkt :: "(nat \<Rightarrow> bool) \<Rightarrow> byte list \<Rightarrow> nat \<Rightarrow> pkt_result" where
  "ref_pkt ok line len = alloc_pkt ok (Some 80) (\<lambda>_. do {
     (error, oid) \<leftarrow> mem_fromstr line;
     if error < 0 then Some (error, None)
     else do {
       space \<leftarrow> mem_byte (drop GIT_OID_HEXSZ line);
       if space \<noteq> 32 then Some (-1, None)
       else do {
         let len = sub_sizet len (GIT_OID_HEXSZ + 1);
         c \<leftarrow> last_byte line len;
         let len = (if c = 10 then sub_sizet len 1 else len);
         alloc_pkt ok (add_sizet len 1) (\<lambda>_. do {
           name \<leftarrow> mem_copy (drop (GIT_OID_HEXSZ + 1) line) len;
           Some (0, Some (Pkt_Ref \<lparr>rh_local = 0, rh_oid = oid, rh_loid = oid_of [], rh_name = cstr name, rh_symref_target = None\<rparr>
             name (if cstrlen name < len then Some (drop (cstrlen name + 1) name) else None))) }) } } })"

definition ok_pkt :: "(nat \<Rightarrow> bool) \<Rightarrow> byte list \<Rightarrow> pkt_result" where
  "ok_pkt ok line = alloc_pkt ok (Some 16) (\<lambda>_. do {
     end_pos \<leftarrow> mem_strchr 10 (drop 3 line);
     case end_pos of
       None \<Rightarrow> Some (-1, None)
     | Some len \<Rightarrow> alloc_pkt ok (add_sizet len 1) (\<lambda>_. Some (0, Some (Pkt_Ok (take len (drop 3 line))))) })"

definition ng_pkt :: "(nat \<Rightarrow> bool) \<Rightarrow> byte list \<Rightarrow> pkt_result" where
  "ng_pkt ok line = alloc_pkt ok (Some 24) (\<lambda>_. do {
     let line = drop 3 line;
     end_pos \<leftarrow> mem_strchr 32 line;
     case end_pos of
       None \<Rightarrow> Some (-1, None)
     | Some len \<Rightarrow> alloc_pkt ok (add_sizet len 1) (\<lambda>_. do {
         let ref = take len line;
         let line = drop (len + 1) line;
         end_pos \<leftarrow> mem_strchr 10 line;
         case end_pos of
           None \<Rightarrow> Some (-1, None)
         | Some len \<Rightarrow> alloc_pkt ok (add_sizet len 1) (\<lambda>_. Some (0, Some (Pkt_Ng ref (take len line)))) }) })"

definition unpack_pkt :: "(nat \<Rightarrow> bool) \<Rightarrow> byte list \<Rightarrow> pkt_result" where
  "unpack_pkt ok line = alloc_pkt ok (Some 8) (\<lambda>_. do {
     r \<leftarrow> mem_prefixcmp line (bytes_of ''unpack ok'');
     Some (0, Some (Pkt_Unpack (r = 0))) })"

definition isxdigit :: "byte \<Rightarrow> bool" where
  "isxdigit c \<longleftrightarrow> 48 \<le> c \<and> c \<le> 57 \<or> 65 \<le> c \<and> c \<le> 70 \<or> 97 \<le> c \<and> c \<le> 102"

definition PKT_LEN_SIZE :: nat where "PKT_LEN_SIZE = 4"

definition parse_len :: "byte list \<Rightarrow> int option" where
  "parse_len line = do {
     num \<leftarrow> mem_copy line PKT_LEN_SIZE;
     if \<not> (\<forall>c\<in>set num. isxdigit c) then Some (-1)
     else (case git__strtol32 num 16 of
         (error, _, len) \<Rightarrow> if error < 0 then Some error else len) }"

text \<open>The tests in their order; a test that looks at more bytes than the memory has is undefined.\<close>

definition dispatch_pkt :: "(nat \<Rightarrow> bool) \<Rightarrow> byte list \<Rightarrow> nat \<Rightarrow> pkt_result" where
  "dispatch_pkt ok line len = do {
     c \<leftarrow> mem_byte line;
     if c = 1 then data_pkt ok line len
     else if c = 2 then sideband_progress_pkt ok line len
     else if c = 3 then sideband_error_pkt ok line len
     else do {
       r \<leftarrow> mem_prefixcmp line (bytes_of ''ACK'');
       if r = 0 then ack_pkt ok line len
       else do {
         r \<leftarrow> mem_prefixcmp line (bytes_of ''NAK'');
         if r = 0 then nak_pkt ok
         else do {
           r \<leftarrow> mem_prefixcmp line (bytes_of ''ERR '');
           if r = 0 then err_pkt ok line len
           else if c = 35 then comment_pkt ok line len
           else do {
             r \<leftarrow> mem_prefixcmp line (bytes_of ''ok'');
             if r = 0 then ok_pkt ok line
             else do {
               r \<leftarrow> mem_prefixcmp line (bytes_of ''ng'');
               if r = 0 then ng_pkt ok line
               else do {
                 r \<leftarrow> mem_prefixcmp line (bytes_of ''unpack'');
                 if r = 0 then unpack_pkt ok line else ref_pkt ok line len } } } } } } }"

text \<open>The code, the packet (\<open>None\<close>: NULL or not set) and the offset of \<open>*out\<close> (if it is set).\<close>

definition git_pkt_parse_line :: "(nat \<Rightarrow> bool) \<Rightarrow> byte list \<Rightarrow> nat \<Rightarrow> (int \<times> git_pkt option \<times> int option) option" where
  "git_pkt_parse_line ok line bufflen =
     (if bufflen > 0 \<and> bufflen < PKT_LEN_SIZE then Some (GIT_EBUFS, None, None)
      else do {
        len \<leftarrow> parse_len line;
        if len < 0 then do {
          r \<leftarrow> (if bufflen \<ge> 4 then mem_prefixcmp line (bytes_of ''PACK'') else Some 1);
          if r = 0 then do {
            (ret, head) \<leftarrow> pack_pkt ok;
            Some (ret, head, Some 0) }
          else Some (len, None, None) }
        else if bufflen > 0 \<and> bufflen < nat len then Some (GIT_EBUFS, None, None)
        else
          let line = drop PKT_LEN_SIZE line in
          if len = 4 then Some (0, None, Some 4)
          else if len = 0 then do {
            (ret, head) \<leftarrow> flush_pkt ok;
            Some (ret, head, Some 4) }
          else do {
            (ret, head) \<leftarrow> dispatch_pkt ok line (nat ((len - 4) mod 2 ^ 64));
            Some (ret, head, Some (4 + (len - 4))) } })"

section \<open>Writing\<close>

record transport_smart_caps =
  cap_common :: bool
  cap_ofs_delta :: bool
  cap_multi_ack :: bool
  cap_multi_ack_detailed :: bool
  cap_side_band :: bool
  cap_side_band_64k :: bool
  cap_include_tag :: bool
  cap_delete_refs :: bool
  cap_report_status :: bool
  cap_thin_pack :: bool

definition git_pkt_buffer_flush :: "byte allocator \<Rightarrow> git_buf \<Rightarrow> (int \<times> git_buf) option" where
  "git_pkt_buffer_flush al buf = git_buf_put al buf (bytes_of ''0000'')"

definition put_cap :: "byte allocator \<Rightarrow> bool \<Rightarrow> string \<Rightarrow> git_buf \<Rightarrow> git_buf option" where
  "put_cap al wanted cap str = (if wanted then map_option snd (git_buf_puts al str (bytes_of cap @ [32])) else Some str)"

definition printf_cap :: "byte allocator \<Rightarrow> bool \<Rightarrow> string \<Rightarrow> git_buf \<Rightarrow> git_buf option" where
  "printf_cap al wanted cap str = (if wanted then map_option snd (git_buf_vprintf al str (bytes_of ''%s '') (Some (bytes_of cap @ [32]))) else Some str)"

definition want_caps :: "byte allocator \<Rightarrow> transport_smart_caps \<Rightarrow> git_buf \<Rightarrow> git_buf option" where
  "want_caps al caps str = do {
     str \<leftarrow> put_cap al (cap_multi_ack_detailed caps) ''multi_ack_detailed'' str;
     str \<leftarrow> put_cap al (\<not> cap_multi_ack_detailed caps \<and> cap_multi_ack caps) ''multi_ack'' str;
     str \<leftarrow> printf_cap al (cap_side_band_64k caps) ''side-band-64k'' str;
     str \<leftarrow> printf_cap al (\<not> cap_side_band_64k caps \<and> cap_side_band caps) ''side-band'' str;
     str \<leftarrow> put_cap al (cap_include_tag caps) ''include-tag'' str;
     str \<leftarrow> put_cap al (cap_thin_pack caps) ''thin-pack'' str;
     put_cap al (cap_ofs_delta caps) ''ofs-delta'' str }"

text \<open>\<open>%04x\<close>.\<close>

definition hex4 :: "nat \<Rightarrow> byte list" where
  "hex4 n = map (\<lambda>i. to_hex ! (n div 16 ^ i mod 16)) [3, 2, 1, 0]"

definition buffer_want_with_caps :: "byte allocator \<Rightarrow> git_remote_head \<Rightarrow> transport_smart_caps \<Rightarrow> git_buf \<Rightarrow> (int \<times> git_buf) option" where
  "buffer_want_with_caps al head caps buf = do {
     str \<leftarrow> want_caps al caps GIT_BUF_INIT;
     if git_buf_oom str then Some (-1, buf)
     else do {
       let len = 9 + GIT_OID_HEXSZ + 1 + buf_size str + 1;
       if len > 0xffff then Some (-1, buf)
       else do {
         (_, buf) \<leftarrow> git_buf_grow_by al buf len;
         (_, buf) \<leftarrow> git_buf_vprintf al buf (bytes_of ''%04xwant %s %s'' @ [10])
           (Some (hex4 len @ bytes_of ''want '' @ git_oid_fmt (rh_oid head) @ [32] @ cstr (mem_cells (buf_ptr str)) @ [10]));
         Some (if git_buf_oom buf then -1 else 0, buf) } } }"

fun skip_local :: "git_remote_head list \<Rightarrow> git_remote_head list" where
  "skip_local [] = []"
| "skip_local (head # refs) = (if rh_local head = 0 then head # refs else skip_local refs)"

fun buffer_wants_loop :: "byte allocator \<Rightarrow> git_remote_head list \<Rightarrow> git_buf \<Rightarrow> (int \<times> git_buf) option" where
  "buffer_wants_loop al [] buf = Some (0, buf)"
| "buffer_wants_loop al (head # refs) buf =
     (if rh_local head \<noteq> 0 then buffer_wants_loop al refs buf
      else do {
        (_, buf) \<leftarrow> git_buf_put al buf (bytes_of ''0032want '');
        (_, buf) \<leftarrow> git_buf_put al buf (git_oid_fmt (rh_oid head));
        (_, buf) \<leftarrow> git_buf_putc al buf 10;
        if git_buf_oom buf then Some (-1, buf) else buffer_wants_loop al refs buf })"

text \<open>\<open>refs[i]\<close> is read behind the array when all of its heads are local.\<close>

definition git_pkt_buffer_wants :: "byte allocator \<Rightarrow> git_remote_head list \<Rightarrow> transport_smart_caps \<Rightarrow> git_buf \<Rightarrow> (int \<times> git_buf) option" where
  "git_pkt_buffer_wants al refs caps buf = do {
     (error, refs, buf) \<leftarrow> (if cap_common caps then
         (case skip_local refs of
            [] \<Rightarrow> None
          | head # rest \<Rightarrow> do {
              (error, buf) \<leftarrow> buffer_want_with_caps al head caps buf;
              Some (error, rest, buf) })
       else Some (0, refs, buf));
     if error < 0 then Some (-1, buf)
     else do {
       (error, buf) \<leftarrow> buffer_wants_loop al refs buf;
       if error < 0 then Some (-1, buf) else git_pkt_buffer_flush al buf } }"

definition git_pkt_buffer_have :: "byte allocator \<Rightarrow> git_oid \<Rightarrow> git_buf \<Rightarrow> (int \<times> git_buf) option" where
  "git_pkt_buffer_have al oid buf =
     git_buf_vprintf al buf (bytes_of ''%s%s'' @ [10]) (Some (bytes_of ''0032have '' @ git_oid_fmt oid @ [10]))"

definition git_pkt_buffer_done :: "byte allocator \<Rightarrow> git_buf \<Rightarrow> (int \<times> git_buf) option" where
  "git_pkt_buffer_done al buf = git_buf_puts al buf (bytes_of ''0009done'' @ [10])"

section \<open>The length of a packet\<close>

lemma hex_digits: "\<forall>k\<in>set [0..<16]. digit_value 16 (to_hex ! k) = int k \<and> isxdigit (to_hex ! k) \<and> to_hex ! k \<noteq> 120 \<and> to_hex ! k \<noteq> 88"
  by code_simp

lemma hex_digit: "k < 16 \<Longrightarrow> digit_value 16 (to_hex ! k) = int k \<and> isxdigit (to_hex ! k) \<and> to_hex ! k \<noteq> 120 \<and> to_hex ! k \<noteq> 88"
  using hex_digits by simp

lemma length_hex4 [simp]: "length (hex4 n) = 4"
  by (simp add: hex4_def)

lemma parse_len_hex4:
  assumes "n < 65536"
  shows "parse_len (hex4 n @ rest) = Some (int n)"
proof -
  define d where "d i = n div 16 ^ i mod 16" for i
  have d: "d i < 16" for i by (simp add: d_def)
  have h: "hex4 n = [to_hex ! d 3, to_hex ! d 2, to_hex ! d 1, to_hex ! d 0]" by (simp add: hex4_def d_def)
  have q: "n div 16 ^ Suc i * 16 + d i = n div 16 ^ i" for i
    unfolding d_def power_Suc2 div_mult2_eq by (rule div_mult_mod_eq)
  have "d 3 = n div 4096" using assms by (simp add: d_def)
  moreover have "n div 4096 * 16 + d 2 = n div 256" "n div 256 * 16 + d 1 = n div 16" "n div 16 * 16 + d 0 = n"
    using q [of 2] q [of 1] q [of 0] by simp_all
  ultimately have n: "((d 3 * 16 + d 2) * 16 + d 1) * 16 + d 0 = n" by (simp only:)
  have hd: "digit_value 16 (to_hex ! d i) = int (d i)" "to_hex ! d i \<noteq> 120" "to_hex ! d i \<noteq> 88" "isxdigit (to_hex ! d i)" for i
    using hex_digit [OF d] by auto
  have "digits_value 16 0 (hex4 n) = ((int (d 3) * 16 + int (d 2)) * 16 + int (d 1)) * 16 + int (d 0)"
    unfolding h digits_value_simps hd by simp
  then have val: "digits_value 16 0 (hex4 n) = int n" using arg_cong [OF n, of int] by simp
  have less: "int (d i) < 16" for i using d [of i] by simp
  have "is_digits 16 (hex4 n)" unfolding h is_digits_simps hd using less by simp
  moreover have "peek (tl (hex4 n @ [])) \<noteq> 120" "peek (tl (hex4 n @ [])) \<noteq> 88" unfolding h using hd by (simp_all add: peek_def)
  moreover have "digit_value 16 (peek []) = 16" by (simp add: digit_value_def schar_def peek_def)
  ultimately have "digits_end 16 SIZE_MAX (hex4 n) []" by (simp add: digits_end_def SIZE_MAX_def h)
  then have "git__strntol64 ([] @ [] @ hex4 n @ []) SIZE_MAX 16 = (0, Some [], Some (int n))"
    using val assms by (intro git__strntol64_ok) (auto simp: sgn_int_def)
  moreover have "int32 (int n mod 2 ^ 32) = int n" using assms int32_id [of "int n"] by simp
  ultimately have "git__strtol32 (hex4 n) 16 = (0, Some [], Some (int n))"
    by (simp add: git__strtol32_def git__strntol32_def Let_def)
  moreover have "\<forall>c\<in>set (hex4 n). isxdigit c" unfolding h using hd by simp
  moreover have "mem_copy (hex4 n @ rest) PKT_LEN_SIZE = Some (hex4 n)"
    by (simp add: mem_copy_def PKT_LEN_SIZE_def)
  ultimately show ?thesis by (simp add: parse_len_def)
qed

section \<open>Packets as the protocol writes them\<close>

fun status_text :: "git_ack_status \<Rightarrow> byte list" where
  "status_text GIT_ACK_NONE = []"
| "status_text GIT_ACK_CONTINUE = bytes_of '' continue''"
| "status_text GIT_ACK_COMMON = bytes_of '' common''"
| "status_text GIT_ACK_READY = bytes_of '' ready''"

fun pkt_payload :: "git_pkt \<Rightarrow> byte list" where
  "pkt_payload Pkt_Flush = []"
| "pkt_payload (Pkt_Ack oid status) = bytes_of ''ACK '' @ git_oid_fmt oid @ status_text status @ [10]"
| "pkt_payload Pkt_Nak = bytes_of ''NAK'' @ [10]"
| "pkt_payload Pkt_Pack = []"
| "pkt_payload (Pkt_Comment c) = c"
| "pkt_payload (Pkt_Err e) = 3 # e"
| "pkt_payload (Pkt_Data d) = 1 # d"
| "pkt_payload (Pkt_Progress d) = 2 # d"
| "pkt_payload (Pkt_Ok ref) = bytes_of ''ok '' @ ref @ [10]"
| "pkt_payload (Pkt_Ng ref msg) = bytes_of ''ng '' @ ref @ [32] @ msg @ [10]"
| "pkt_payload (Pkt_Unpack good) = bytes_of ''unpack '' @ (if good then bytes_of ''ok'' else bytes_of ''error'') @ [10]"
| "pkt_payload (Pkt_Ref head name caps) = git_oid_fmt (rh_oid head) @ 32 # name @ [10]"

definition pkt_line :: "byte list \<Rightarrow> byte list" where
  "pkt_line payload = hex4 (length payload + 4) @ payload"

text \<open>The forms in which a server may send a packet: an error comes on the sideband or as a line of its own. The pack itself
  follows without a length.\<close>

fun pkt_wires :: "git_pkt \<Rightarrow> byte list list" where
  "pkt_wires Pkt_Flush = [bytes_of ''0000'']"
| "pkt_wires Pkt_Pack = []"
| "pkt_wires (Pkt_Err e) = [pkt_line (3 # e), pkt_line (bytes_of ''ERR '' @ e)]"
| "pkt_wires p = [pkt_line (pkt_payload p)]"

fun pkt_ok :: "git_pkt \<Rightarrow> bool" where
  "pkt_ok (Pkt_Comment c) \<longleftrightarrow> c \<noteq> [] \<and> hd c = 35"
| "pkt_ok (Pkt_Ok ref) \<longleftrightarrow> 0 \<notin> set ref \<and> 10 \<notin> set ref"
| "pkt_ok (Pkt_Ng ref msg) \<longleftrightarrow> 0 \<notin> set ref \<and> 32 \<notin> set ref \<and> 0 \<notin> set msg \<and> 10 \<notin> set msg"
| "pkt_ok (Pkt_Ref head name caps) \<longleftrightarrow>
     head = \<lparr>rh_local = 0, rh_oid = rh_oid head, rh_loid = oid_of [], rh_name = cstr name, rh_symref_target = None\<rparr> \<and>
     caps = (if 0 \<in> set name then Some (drop (cstrlen name + 1) name) else None)"
| "pkt_ok Pkt_Pack \<longleftrightarrow> False"
| "pkt_ok _ \<longleftrightarrow> True"

lemma sub_sizet_le: "b \<le> a \<Longrightarrow> a < 2 ^ 64 \<Longrightarrow> sub_sizet a b = a - b"
  by (simp add: sub_sizet_def nat_mod_distrib flip: of_nat_diff)

lemma alloc_pkt_ok: "\<forall>n. ok n \<Longrightarrow> alloc_pkt ok (Some n) k = k ()"
  by (simp add: alloc_pkt_def)

lemma mem_strchr_first: "c \<notin> set a \<Longrightarrow> 0 \<notin> set a \<Longrightarrow> mem_strchr c (a @ c # r) = Some (Some (length a))"
proof -
  assume "c \<notin> set a" "0 \<notin> set a"
  then have "takeWhile (\<lambda>x. x \<noteq> c \<and> x \<noteq> 0) (a @ c # r) = a" by (induction a) auto
  then show ?thesis by (simp add: mem_strchr_def Let_def)
qed

lemma mem_prefixcmp_first: "line \<noteq> [] \<Longrightarrow> s \<noteq> [] \<Longrightarrow> hd line \<noteq> hd s \<Longrightarrow> hd s \<noteq> 0 \<Longrightarrow> \<exists>r. mem_prefixcmp line s = Some r \<and> r \<noteq> 0"
  by (cases line; cases s) (auto simp: mem_prefixcmp_def word_uint_eq_iff)

lemma prefixcmp_same: "0 \<notin> set s \<Longrightarrow> git__prefixcmp (s @ r) s = 0"
  by (induction s) auto

lemma mem_prefixcmp_same: "0 \<notin> set s \<Longrightarrow> mem_prefixcmp (s @ r) s = Some 0"
  by (simp add: mem_prefixcmp_def prefixcmp_same)

lemma mem_prefixcmp_differ:
  assumes "0 \<notin> set u" "c \<noteq> d" "d \<noteq> 0"
  shows "mem_prefixcmp (u @ c # line) (u @ d # s) = Some (uint c - uint d)"
proof -
  have "u @ c # line \<noteq> take (length (u @ c # line)) (u @ d # s)" using assms(2) by simp
  moreover have "git__prefixcmp (u @ c # line) (u @ d # s) = uint c - uint d" using assms by (induction u) auto
  ultimately show ?thesis by (simp add: mem_prefixcmp_def)
qed

lemma mem_prefixcmp_Cons [simp]: "c \<noteq> d \<Longrightarrow> d \<noteq> 0 \<Longrightarrow> mem_prefixcmp (c # line) (d # s) = Some (uint c - uint d)"
  using mem_prefixcmp_differ [of "[]" c d line s] by simp

lemma byte_diff [simp]: "uint (c :: byte) - uint d = 0 \<longleftrightarrow> c = d"
  by (auto simp: word_uint_eq_iff)

lemma parse_pkt_line:
  assumes "p \<noteq> []" "length p + 4 < 65536" "bufflen = 0 \<or> length p + 4 \<le> bufflen"
  shows "git_pkt_parse_line ok (pkt_line p @ rest) bufflen =
    map_option (\<lambda>(ret, head). (ret, head, Some (int (length (pkt_line p))))) (dispatch_pkt ok (p @ rest) (length p))"
proof -
  have len: "parse_len (pkt_line p @ rest) = Some (int (length p + 4))"
    using parse_len_hex4 [OF assms(2), of "p @ rest"] by (simp add: pkt_line_def)
  have "drop PKT_LEN_SIZE (pkt_line p @ rest) = p @ rest" by (simp add: pkt_line_def PKT_LEN_SIZE_def)
  moreover have "nat ((int (length p + 4) - 4) mod 2 ^ 64) = length p" using assms(2) by simp
  moreover have "\<not> (bufflen > 0 \<and> bufflen < PKT_LEN_SIZE)" using assms(3) by (auto simp: PKT_LEN_SIZE_def)
  ultimately show ?thesis using assms len
    by (cases "dispatch_pkt ok (p @ rest) (length p)") (auto simp: git_pkt_parse_line_def Let_def pkt_line_def split: prod.split)
qed

lemma mem_fromstr_fmt: "mem_fromstr (git_oid_fmt oid @ r) = Some (0, oid)"
proof -
  have "fromstrn_loop (oid_of (replicate 20 0)) 0 40 (hex_bytes (oid_id oid) @ r) = (0, oid_of (prefix_bytes 40 (oid_id oid)))"
    using fromstrn_loop_hex [of "[]" "oid_id oid" 40 r] by simp
  moreover have "prefix_bytes 40 (oid_id oid) = oid_id oid" using prefix_bytes_all [of "oid_id oid"] by simp
  ultimately show ?thesis
    by (simp add: mem_fromstr_def git_oid_fromstr_def git_oid_fromstrn_def git_oid_fmt_hex)
qed

lemma oid_fmt_Cons: "\<exists>c r. git_oid_fmt oid = c # r \<and> c \<notin> {1, 2, 3, 35, 65, 69, 78, 110, 111, 117}"
proof -
  obtain v vs where v: "oid_id oid = v # vs" using length_oid_id [of oid] by (cases "oid_id oid") auto
  have "unat (drop_bit 4 v) < 16" using unsigned_less [of v, where 'a = nat] unfolding unat_drop_bit_eq by (simp add: drop_bit_eq_div)
  then have "to_hex ! unat (drop_bit 4 v) \<in> set to_hex" by (intro nth_mem) (simp add: to_hex_def bytes_of_def)
  moreover have "\<forall>c\<in>set to_hex. c \<notin> {1, 2, 3, 35, 65, 69, 78, 110, 111, 117}" by (simp add: to_hex_def bytes_of_def)
  ultimately have "to_hex ! unat (drop_bit 4 v) \<notin> {1, 2, 3, 35, 65, 69, 78, 110, 111, 117}" by blast
  then show ?thesis by (simp add: git_oid_fmt_hex v hex_bytes_def fmt_one_def)
qed

section \<open>Parsing what the protocol writes\<close>

lemma size_facts: "n < 65536 \<Longrightarrow> add_sizet k n = Some (k + n)" if "k < 65536"
  using that by (intro add_sizet_fits) simp

lemma pkt_size_ok: "k < 65536 \<Longrightarrow> n < 65536 \<Longrightarrow> pkt_size k n nul = Some (if nul then k + n + 1 else k + n)"
  by (simp add: pkt_size_def)

lemma mem_copy_prefix [simp]: "mem_copy (d @ r) (length d) = Some d"
  by (simp add: mem_copy_def)

lemma dispatch_band:
  assumes "\<forall>n. ok n" and "length d < 65535"
  shows "dispatch_pkt ok ((1 # d) @ rest) (length (1 # d)) = Some (0, Some (Pkt_Data d))"
    and "dispatch_pkt ok ((2 # d) @ rest) (length (2 # d)) = Some (0, Some (Pkt_Progress d))"
    and "dispatch_pkt ok ((3 # d) @ rest) (length (3 # d)) = Some (0, Some (Pkt_Err d))"
proof -
  have "sub_sizet (Suc (length d)) 1 = length d" using assms(2) by (subst sub_sizet_le) simp_all
  then show "dispatch_pkt ok ((1 # d) @ rest) (length (1 # d)) = Some (0, Some (Pkt_Data d))"
    "dispatch_pkt ok ((2 # d) @ rest) (length (2 # d)) = Some (0, Some (Pkt_Progress d))"
    "dispatch_pkt ok ((3 # d) @ rest) (length (3 # d)) = Some (0, Some (Pkt_Err d))"
    using assms by (simp_all add: dispatch_pkt_def mem_byte_def data_pkt_def sideband_progress_pkt_def sideband_error_pkt_def
        Let_def pkt_size_ok alloc_pkt_ok)
qed

lemma dispatch_comment:
  assumes "\<forall>n. ok n" and "length c < 65535" and "c \<noteq> []" "hd c = 35"
  shows "dispatch_pkt ok (c @ rest) (length c) = Some (0, Some (Pkt_Comment c))"
proof -
  obtain d where c: "c = 35 # d" using assms(3,4) by (cases c) auto
  have "comment_pkt ok (c @ rest) (length c) = Some (0, Some (Pkt_Comment c))"
    using assms(1,2) by (simp add: comment_pkt_def pkt_size_ok alloc_pkt_ok)
  then show ?thesis unfolding c by (simp add: dispatch_pkt_def mem_byte_def bytes_of_def)
qed

lemma dispatch_nak: "\<forall>n. ok n \<Longrightarrow> dispatch_pkt ok ((bytes_of ''NAK'' @ [10]) @ rest) n = Some (0, Some Pkt_Nak)"
  using mem_prefixcmp_same [of "bytes_of ''NAK''" "10 # rest"]
  by (simp add: dispatch_pkt_def mem_byte_def bytes_of_def nak_pkt_def alloc_pkt_ok)

lemma ack_status_text:
  assumes "st \<noteq> GIT_ACK_NONE"
  shows "ack_status (status_text st @ 10 # rest) = Some st \<and> 6 \<le> length (status_text st)"
proof -
  have co: "mem_prefixcmp (bytes_of ''continue'' @ r) (bytes_of ''common'') = Some (uint (110 :: byte) - uint (109 :: byte))"
    "mem_prefixcmp (bytes_of ''common'' @ r) (bytes_of ''continue'') = Some (uint (109 :: byte) - uint (110 :: byte))" for r
    using mem_prefixcmp_differ [of "[99, 111]" 110 109 "[116, 105, 110, 117, 101] @ r" "[109, 111, 110]"]
      mem_prefixcmp_differ [of "[99, 111]" 109 110 "[109, 111, 110] @ r" "[116, 105, 110, 117, 101]"]
    by (simp_all add: bytes_of_def)
  note same = mem_prefixcmp_same [of "bytes_of ''continue''"] mem_prefixcmp_same [of "bytes_of ''common''"] mem_prefixcmp_same [of "bytes_of ''ready''"]
  show ?thesis using assms co [of "10 # rest"] same [of "10 # rest"]
    by (cases st) (simp_all add: ack_status_def bytes_of_def)
qed

lemma dispatch_ack:
  assumes "\<forall>n. ok n"
  shows "dispatch_pkt ok (pkt_payload (Pkt_Ack oid st) @ rest) (length (pkt_payload (Pkt_Ack oid st))) = Some (0, Some (Pkt_Ack oid st))"
proof -
  have n: "length (git_oid_fmt oid) = 40" by (simp add: git_oid_fmt_hex)
  let ?line = "pkt_payload (Pkt_Ack oid st) @ rest" and ?len = "length (pkt_payload (Pkt_Ack oid st))"
  have line: "?line = bytes_of ''ACK'' @ 32 # git_oid_fmt oid @ status_text st @ 10 # rest" by (simp add: bytes_of_def)
  have len: "?len = 45 + length (status_text st)" by (simp add: bytes_of_def n)
  have short: "length (status_text st) < 10" by (cases st) (simp_all add: bytes_of_def)
  have subs: "sub_sizet ?len 3 = 42 + length (status_text st)" "sub_sizet (42 + length (status_text st)) 41 = 1 + length (status_text st)"
    unfolding len using short by (subst sub_sizet_le; simp)+
  have d3: "drop 3 ?line = 32 # git_oid_fmt oid @ status_text st @ 10 # rest" unfolding line by (simp add: bytes_of_def)
  have d41: "drop 41 (32 # git_oid_fmt oid @ status_text st @ 10 # rest) = status_text st @ 10 # rest" by (simp add: n)
  have status: "(if 7 \<le> 1 + length (status_text st) then ack_status (status_text st @ 10 # rest) else Some GIT_ACK_NONE) = Some st"
    using ack_status_text [of st rest] by (cases "st = GIT_ACK_NONE") auto
  have "ack_pkt ok ?line ?len = Some (0, Some (Pkt_Ack oid st))"
    unfolding ack_pkt_def alloc_pkt_ok [OF assms] Let_def subs d3 list.sel mem_fromstr_fmt
    using d41 status subs(2) by simp
  moreover have "mem_prefixcmp ?line (bytes_of ''ACK'') = Some 0" unfolding line by (rule mem_prefixcmp_same) (simp add: bytes_of_def)
  moreover have "mem_byte ?line = Some 65" by (simp add: mem_byte_def bytes_of_def)
  ultimately show ?thesis by (simp add: dispatch_pkt_def)
qed

lemma dispatch_ok:
  assumes "\<forall>n. ok n" and "length ref < 65535" and "0 \<notin> set ref" "10 \<notin> set ref"
  shows "dispatch_pkt ok ((bytes_of ''ok '' @ ref @ [10]) @ rest) n = Some (0, Some (Pkt_Ok ref))"
proof -
  let ?line = "(bytes_of ''ok '' @ ref @ [10]) @ rest"
  have "drop 3 ?line = ref @ 10 # rest" by (simp add: bytes_of_def)
  then have "ok_pkt ok ?line = Some (0, Some (Pkt_Ok ref))"
    using assms mem_strchr_first [OF assms(4,3), of rest] by (simp add: ok_pkt_def alloc_pkt_ok)
  moreover have "mem_prefixcmp ?line (bytes_of ''ok'') = Some 0"
    using mem_prefixcmp_same [of "bytes_of ''ok''" "32 # ref @ 10 # rest"] by (simp add: bytes_of_def)
  ultimately show ?thesis by (simp add: dispatch_pkt_def mem_byte_def bytes_of_def)
qed

lemma dispatch_ng:
  assumes "\<forall>n. ok n" and "length ref < 65535" and "length msg < 65535" and "0 \<notin> set ref" "32 \<notin> set ref" "0 \<notin> set msg" "10 \<notin> set msg"
  shows "dispatch_pkt ok ((bytes_of ''ng '' @ ref @ [32] @ msg @ [10]) @ rest) n = Some (0, Some (Pkt_Ng ref msg))"
proof -
  let ?line = "(bytes_of ''ng '' @ ref @ [32] @ msg @ [10]) @ rest"
  have "drop 3 ?line = ref @ 32 # msg @ 10 # rest" by (simp add: bytes_of_def)
  then have "ng_pkt ok ?line = Some (0, Some (Pkt_Ng ref msg))"
    using assms mem_strchr_first [OF assms(5,4), of "msg @ 10 # rest"] mem_strchr_first [OF assms(7,6), of rest]
    by (simp add: ng_pkt_def alloc_pkt_ok Let_def)
  moreover have "mem_prefixcmp ?line (bytes_of ''ng'') = Some 0"
    using mem_prefixcmp_same [of "bytes_of ''ng''" "32 # ref @ 32 # msg @ 10 # rest"] by (simp add: bytes_of_def)
  ultimately show ?thesis by (simp add: dispatch_pkt_def mem_byte_def bytes_of_def)
qed

lemma dispatch_unpack:
  assumes "\<forall>n. ok n"
  shows "dispatch_pkt ok (pkt_payload (Pkt_Unpack good) @ rest) n = Some (0, Some (Pkt_Unpack good))"
proof -
  let ?line = "pkt_payload (Pkt_Unpack good) @ rest"
  define r where "r = (if good then bytes_of ''ok'' else bytes_of ''error'') @ 10 # rest"
  have line: "?line = bytes_of ''unpack '' @ r" by (simp add: r_def)
  have "\<exists>d. mem_prefixcmp ?line (bytes_of ''unpack ok'') = Some d \<and> (d = 0) = good"
  proof (cases good)
    case True
    then show ?thesis using mem_prefixcmp_same [of "bytes_of ''unpack ok''" "10 # rest"] by (simp add: bytes_of_def)
  next
    case False
    then show ?thesis
      using mem_prefixcmp_differ [of "bytes_of ''unpack ''" 101 111 "[114, 114, 111, 114, 10] @ rest" "[107]"] by (simp add: bytes_of_def)
  qed
  then have "unpack_pkt ok ?line = Some (0, Some (Pkt_Unpack good))" using assms by (auto simp: unpack_pkt_def alloc_pkt_ok)
  moreover have "mem_prefixcmp ?line (bytes_of ''unpack'') = Some 0" unfolding line
    using mem_prefixcmp_same [of "bytes_of ''unpack''" "32 # r"] by (simp add: bytes_of_def)
  moreover have "mem_byte ?line = Some 117" by (simp add: mem_byte_def bytes_of_def)
  ultimately show ?thesis unfolding dispatch_pkt_def line by (simp add: bytes_of_def)
qed

lemma cstrlen_less: "cstrlen s < length s \<longleftrightarrow> 0 \<in> set s"
proof
  assume "cstrlen s < length s"
  then show "0 \<in> set s" using cstr_id [of s] by (metis cstrlen_def less_irrefl)
next
  assume "0 \<in> set s"
  then show "cstrlen s < length s" by (induction s) (auto simp: cstrlen_def)
qed

lemma dispatch_ref:
  assumes "\<forall>n. ok n" and "length name < 65000" and "pkt_ok (Pkt_Ref head name caps)"
  shows "dispatch_pkt ok (pkt_payload (Pkt_Ref head name caps) @ rest) (length (pkt_payload (Pkt_Ref head name caps))) =
    Some (0, Some (Pkt_Ref head name caps))"
proof -
  let ?oid = "rh_oid head"
  have n: "length (git_oid_fmt ?oid) = 40" by (simp add: git_oid_fmt_hex)
  let ?line = "git_oid_fmt ?oid @ 32 # name @ 10 # rest"
  have subs: "sub_sizet (42 + length name) 41 = Suc (length name)" "sub_sizet (Suc (length name)) 1 = length name"
    using assms(2) by (subst sub_sizet_le; simp)+
  define k where "k = 40 + Suc (length name)"
  have i: "(int (GIT_OID_HEXSZ + 1) + int (Suc (length name)) - 1) mod 2 ^ 64 = int k"
    using assms(2) by (simp add: k_def)
  have "?line ! k = 10" "k < length ?line"
    using nth_append_length_plus [of "git_oid_fmt ?oid" "32 # name @ 10 # rest" "Suc (length name)"] n by (simp_all add: k_def)
  then have "last_byte ?line (Suc (length name)) = Some 10"
    unfolding last_byte_def i Let_def by simp
  moreover have "mem_byte (drop 40 ?line) = Some 32" "drop 41 ?line = name @ 10 # rest" using n by (simp_all add: mem_byte_def)
  ultimately have ref: "ref_pkt ok ?line (42 + length name) = Some (0, Some (Pkt_Ref head name caps))"
    using assms subs by (simp add: ref_pkt_def alloc_pkt_ok mem_fromstr_fmt Let_def cstrlen_less)
  obtain c r where c: "git_oid_fmt ?oid = c # r" "c \<notin> {1, 2, 3, 35, 65, 69, 78, 110, 111, 117}" using oid_fmt_Cons by blast
  have "dispatch_pkt ok ?line (42 + length name) = ref_pkt ok ?line (42 + length name)"
    using c(2) unfolding dispatch_pkt_def c(1) by (simp add: mem_byte_def bytes_of_def word_uint_eq_iff)
  then show ?thesis using ref n by simp
qed

lemma dispatch_err:
  assumes "\<forall>n. ok n" and "length e < 65000"
  shows "dispatch_pkt ok ((bytes_of ''ERR '' @ e) @ rest) (length (bytes_of ''ERR '' @ e)) = Some (0, Some (Pkt_Err e))"
proof -
  have "sub_sizet (length (bytes_of ''ERR '' @ e)) 4 = length e" using assms(2) by (subst sub_sizet_le) (simp_all add: bytes_of_def)
  moreover have "drop 4 ((bytes_of ''ERR '' @ e) @ rest) = e @ rest" by (simp add: bytes_of_def)
  ultimately have "err_pkt ok ((bytes_of ''ERR '' @ e) @ rest) (length (bytes_of ''ERR '' @ e)) = Some (0, Some (Pkt_Err e))"
    unfolding err_pkt_def using assms by (simp add: Let_def pkt_size_ok alloc_pkt_ok)
  moreover have "mem_prefixcmp ((bytes_of ''ERR '' @ e) @ rest) (bytes_of ''ERR '') = Some 0"
    using mem_prefixcmp_same [of "bytes_of ''ERR ''" "e @ rest"] by (simp add: bytes_of_def)
  ultimately show ?thesis by (simp add: dispatch_pkt_def mem_byte_def bytes_of_def)
qed

lemma dispatch_written:
  assumes "pkt_ok p" and "p \<noteq> Pkt_Flush" and "length (pkt_payload p) < 65000" and "\<forall>n. ok n"
  shows "pkt_payload p \<noteq> [] \<and> dispatch_pkt ok (pkt_payload p @ rest) (length (pkt_payload p)) = Some (0, Some p)"
proof -
  have "pkt_payload p \<noteq> []" using assms(1,2) by (cases p) (auto simp: bytes_of_def)
  moreover have "dispatch_pkt ok (pkt_payload p @ rest) (length (pkt_payload p)) = Some (0, Some p)"
  proof (cases p)
    case (Pkt_Ref head name caps)
    then show ?thesis using dispatch_ref [OF assms(4)] assms(1,3) by simp
  next
    case (Pkt_Ack oid st)
    then show ?thesis using dispatch_ack [OF assms(4)] by simp
  next
    case (Pkt_Unpack good)
    then show ?thesis using dispatch_unpack [OF assms(4)] by simp
  next
    case (Pkt_Ng ref msg)
    then show ?thesis using dispatch_ng [OF assms(4), of ref msg] assms(1,3) by simp
  next
    case (Pkt_Ok ref)
    then show ?thesis using dispatch_ok [OF assms(4), of ref] assms(1,3) by simp
  next
    case Pkt_Nak
    then show ?thesis using dispatch_nak [OF assms(4)] by simp
  next
    case (Pkt_Comment c)
    then show ?thesis using dispatch_comment [OF assms(4), of c] assms(1,3) by simp
  next
    case (Pkt_Err e)
    then show ?thesis using dispatch_band(3) [OF assms(4), of e] assms(3) by simp
  next
    case (Pkt_Data d)
    then show ?thesis using dispatch_band(1) [OF assms(4), of d] assms(3) by simp
  next
    case (Pkt_Progress d)
    then show ?thesis using dispatch_band(2) [OF assms(4), of d] assms(3) by simp
  qed (use assms(1,2) in simp_all)
  ultimately show ?thesis by simp
qed

lemma parse_flush: "\<forall>n. ok n \<Longrightarrow> bufflen = 0 \<or> 4 \<le> bufflen \<Longrightarrow>
    git_pkt_parse_line ok (bytes_of ''0000'' @ rest) bufflen = Some (0, Some Pkt_Flush, Some 4)"
proof -
  assume a: "\<forall>n. ok n" "bufflen = 0 \<or> 4 \<le> bufflen"
  have "hex4 0 = bytes_of ''0000''" by code_simp
  then have "parse_len (bytes_of ''0000'' @ rest) = Some 0" using parse_len_hex4 [of 0 rest] by simp
  then show ?thesis using a by (auto simp: git_pkt_parse_line_def Let_def flush_pkt_def alloc_pkt_ok PKT_LEN_SIZE_def)
qed

lemma parse_pack: "\<forall>n. ok n \<Longrightarrow>
    git_pkt_parse_line ok (bytes_of ''PACK'' @ rest) (4 + bufflen) = Some (0, Some Pkt_Pack, Some 0)"
proof -
  assume ok: "\<forall>n. ok n"
  have "parse_len (bytes_of ''PACK'' @ rest) = Some (-1)"
    by (simp add: parse_len_def mem_copy_def PKT_LEN_SIZE_def bytes_of_def isxdigit_def)
  moreover have "mem_prefixcmp (bytes_of ''PACK'' @ rest) (bytes_of ''PACK'') = Some 0"
    by (rule mem_prefixcmp_same) (simp add: bytes_of_def)
  ultimately show ?thesis using ok by (simp add: git_pkt_parse_line_def pack_pkt_def alloc_pkt_ok PKT_LEN_SIZE_def)
qed



section \<open>Writing packets\<close>

definition cap_word :: "bool \<Rightarrow> string \<Rightarrow> byte list" where
  "cap_word wanted cap = (if wanted then bytes_of cap @ [32] else [])"

definition caps_text :: "transport_smart_caps \<Rightarrow> byte list" where
  "caps_text caps =
     cap_word (cap_multi_ack_detailed caps) ''multi_ack_detailed'' @ cap_word (\<not> cap_multi_ack_detailed caps \<and> cap_multi_ack caps) ''multi_ack'' @
     cap_word (cap_side_band_64k caps) ''side-band-64k'' @ cap_word (\<not> cap_side_band_64k caps \<and> cap_side_band caps) ''side-band'' @
     cap_word (cap_include_tag caps) ''include-tag'' @ cap_word (cap_thin_pack caps) ''thin-pack'' @ cap_word (cap_ofs_delta caps) ''ofs-delta''"

definition want_payload :: "byte list \<Rightarrow> git_remote_head \<Rightarrow> byte list" where
  "want_payload extra head = bytes_of ''want '' @ git_oid_fmt (rh_oid head) @ extra @ [10]"

definition want_payloads :: "transport_smart_caps \<Rightarrow> git_remote_head list \<Rightarrow> byte list list" where
  "want_payloads caps refs =
     (case filter (\<lambda>h. rh_local h = 0) refs of
        [] \<Rightarrow> []
      | h # hs \<Rightarrow> want_payload (if cap_common caps then 32 # caps_text caps else []) h # map (want_payload []) hs)"

text \<open>Steps that append a text to a buffer of at most \<open>n\<close> bytes, and their composition.\<close>

definition appends :: "nat \<Rightarrow> (git_buf \<Rightarrow> git_buf option) \<Rightarrow> byte list \<Rightarrow> bool" where
  "appends n f t \<longleftrightarrow> (\<forall>str. buf_wf str \<and> length (content str) \<le> n \<longrightarrow> (\<exists>str'. f str = Some str' \<and> buf_wf str' \<and> content str' = content str @ t))"

lemma appends_bind:
  assumes "appends n f t" "length t \<le> 20" "appends (n + 20) g u"
  shows "appends n (\<lambda>str. f str \<bind> g) (t @ u)"
  unfolding appends_def
proof (intro allI impI)
  fix str assume "buf_wf str \<and> length (content str) \<le> n"
  then obtain s where s: "f str = Some s" "buf_wf s" "content s = content str @ t" and n: "length (content str) \<le> n"
    using assms(1) unfolding appends_def by blast
  then obtain s' where "g s = Some s'" "buf_wf s'" "content s' = content s @ u"
    using assms(2,3) unfolding appends_def by fastforce
  then show "\<exists>str'. f str \<bind> g = Some str' \<and> buf_wf str' \<and> content str' = content str @ t @ u" using s by simp
qed

lemma appends_cap:
  assumes env: "alloc_env al" and cap: "0 \<notin> set (bytes_of cap)" "length cap < 20" and room: "n \<le> 1000"
  shows "appends n (put_cap al wanted cap) (cap_word wanted cap)" and "appends n (printf_cap al wanted cap) (cap_word wanted cap)"
proof -
  have al: "good_alloc al" using env by (simp add: alloc_env_def)
  have len: "length (bytes_of cap) = length cap" by (simp add: bytes_of_def)
  have c: "cstrlen (bytes_of ''%s '') = 3" "cstr (bytes_of cap @ [32]) = bytes_of cap @ [32]"
    using cap(1) by (simp add: cstrlen_def bytes_of_def, intro cstr_id) simp
  have "\<exists>str'. put_cap al wanted cap str = Some str' \<and> buf_wf str' \<and> content str' = content str @ cap_word wanted cap"
    "\<exists>str'. printf_cap al wanted cap str = Some str' \<and> buf_wf str' \<and> content str' = content str @ cap_word wanted cap"
    if "buf_wf str \<and> length (content str) \<le> n" for str
    using buf_outcome_total [OF git_buf_puts_outcome [OF al, of str "bytes_of cap @ [32]"] env]
      buf_outcome_total [OF git_buf_vprintf_outcome [OF al, of str "bytes_of cap @ [32]" "bytes_of ''%s ''"] env] that room cap(2) len
    by (auto simp: put_cap_def printf_cap_def cap_word_def cstrlen_def c(2) c(1) [unfolded cstrlen_def] BUF_LIMIT_def)
  then show "appends n (put_cap al wanted cap) (cap_word wanted cap)" "appends n (printf_cap al wanted cap) (cap_word wanted cap)"
    unfolding appends_def by blast+
qed

lemma want_caps_text:
  assumes "alloc_env al"
  shows "\<exists>str. want_caps al caps GIT_BUF_INIT = Some str \<and> buf_wf str \<and> content str = caps_text caps"
proof -
  have "appends 0 (want_caps al caps) (caps_text caps)"
    unfolding want_caps_def [abs_def] caps_text_def
    by (intro appends_bind appends_cap [OF assms]) (simp_all add: cap_word_def bytes_of_def)
  then show ?thesis unfolding appends_def by simp
qed

lemma length_fmt [simp]: "length (git_oid_fmt oid) = 40"
  by (simp add: git_oid_fmt_hex)

lemma caps_text_bounds: "length (caps_text caps) < 100" "0 \<notin> set (caps_text caps)"
  by (simp_all add: caps_text_def cap_word_def bytes_of_def)

lemma buffer_want_with_caps_text:
  assumes env: "alloc_env al" and wf: "buf_wf buf" and room: "length (content buf) + 300 < BUF_LIMIT"
  shows "\<exists>b. buffer_want_with_caps al head caps buf = Some (0, b) \<and> buf_wf b \<and>
    content b = content buf @ pkt_line (want_payload (32 # caps_text caps) head)"
proof -
  have al: "good_alloc al" "total_alloc al" using env by (simp_all add: alloc_env_def)
  obtain str where str: "want_caps al caps GIT_BUF_INIT = Some str" "buf_wf str" "content str = caps_text caps"
    using want_caps_text [OF env] by blast
  have c: "cstr (mem_cells (buf_ptr str)) = caps_text caps" using cstr_buffer [OF str(2)] str(3) caps_text_bounds by simp
  have n: "buf_size str = length (caps_text caps)" using length_content [OF str(2)] str(3) by simp
  define len where "len = 9 + 40 + 1 + buf_size str + 1"
  have len: "len < 200" using caps_text_bounds(1) [of caps] n by (simp add: len_def)
  have size: "buf_size buf + 300 < BUF_LIMIT" using room wf by simp
  have "add_sizet (buf_size buf) len = Some (buf_size buf + len)" using size len by (intro add_sizet_fits) (simp add: BUF_LIMIT_def)
  moreover obtain b1 where "git_buf_try_grow al buf (buf_size buf + len) True = Some (0, b1)" and b1: "buf_wf b1" "content b1 = content buf" "buf_size b1 = buf_size buf"
    using git_buf_try_grow_wf [OF al(1) wf, of "buf_size buf + len" True] size len al(2) by auto
  ultimately have grow: "git_buf_grow_by al buf len = Some (0, b1)" by (simp add: git_buf_grow_by_def)
  let ?text = "hex4 len @ bytes_of ''want '' @ git_oid_fmt (rh_oid head) @ [32] @ caps_text caps @ [10]"
  have written: "pkt_line (want_payload (32 # caps_text caps) head) = ?text"
    by (simp add: pkt_line_def want_payload_def len_def n bytes_of_def)
  have "length ?text < 200" using caps_text_bounds(1) [of caps] by (simp add: bytes_of_def)
  then obtain b2 where b2: "git_buf_vprintf al b1 (bytes_of ''%04xwant %s %s'' @ [10]) (Some ?text) = Some (0, b2)" "buf_wf b2" "content b2 = content buf @ ?text"
    using buf_outcome_total [OF git_buf_vprintf_outcome [OF al(1) b1(1), of ?text "bytes_of ''%04xwant %s %s'' @ [10]"] env] b1(2,3) size
    by (auto simp: cstrlen_def bytes_of_def)
  have "\<not> git_buf_oom b2" "\<not> git_buf_oom str" using buf_wf_not_oom b2(2) str(2) by (auto simp: git_buf_oom_def)
  then show ?thesis
    using str(1) grow b2 len unfolding written by (simp add: buffer_want_with_caps_def c len_def)
qed

lemma buffer_wants_loop_text:
  assumes "alloc_env al"
  shows "buf_wf buf \<Longrightarrow> length (content buf) + 50 * length refs < BUF_LIMIT \<Longrightarrow>
    \<exists>b. buffer_wants_loop al refs buf = Some (0, b) \<and> buf_wf b \<and>
      content b = content buf @ concat (map (\<lambda>h. pkt_line (want_payload [] h)) (filter (\<lambda>h. rh_local h = 0) refs))"
proof (induction refs arbitrary: buf)
  case (Cons h refs)
  have al: "good_alloc al" using assms by (simp add: alloc_env_def)
  show ?case
  proof (cases "rh_local h = 0")
    case True
    have line: "pkt_line (want_payload [] h) = bytes_of ''0032want '' @ git_oid_fmt (rh_oid h) @ [10]"
      by (simp add: pkt_line_def want_payload_def bytes_of_def hex4_def to_hex_def)
    have room: "buf_size buf + 50 < BUF_LIMIT" using Cons.prems by simp
    obtain b1 where b1: "git_buf_put al buf (bytes_of ''0032want '') = Some (0, b1)" "buf_wf b1" "content b1 = content buf @ bytes_of ''0032want ''"
      using buf_outcome_total [OF git_buf_put_outcome [OF al Cons.prems(1), of "bytes_of ''0032want ''"] assms] room by (auto simp: bytes_of_def)
    have s1: "buf_size b1 = buf_size buf + 9" using length_content [OF b1(2)] b1(3) Cons.prems(1) by (simp add: bytes_of_def)
    obtain b2 where b2: "git_buf_put al b1 (git_oid_fmt (rh_oid h)) = Some (0, b2)" "buf_wf b2" "content b2 = content b1 @ git_oid_fmt (rh_oid h)"
      using buf_outcome_total [OF git_buf_put_outcome [OF al b1(2), of "git_oid_fmt (rh_oid h)"] assms] room s1 by auto
    have s2: "buf_size b2 = buf_size buf + 49" using length_content [OF b2(2)] b2(3) length_content [OF b1(2)] s1 by simp
    obtain b3 where b3: "git_buf_putc al b2 10 = Some (0, b3)" "buf_wf b3" "content b3 = content b2 @ [10]"
      using buf_outcome_total [OF git_buf_putc_outcome [OF al b2(2), of 10] assms] room s2 by auto
    have "\<not> git_buf_oom b3" using buf_wf_not_oom [OF b3(2)] by (simp add: git_buf_oom_def)
    moreover have "length (content b3) + 50 * length refs < BUF_LIMIT" using length_content [OF b2(2)] s2 b3(3) Cons.prems by simp
    moreover have "content b3 = content buf @ pkt_line (want_payload [] h)" unfolding line using b1(3) b2(3) b3(3) by simp
    ultimately show ?thesis using Cons.IH [OF b3(2)] b1(1) b2(1) b3(1) True by auto
  next
    case False
    then show ?thesis using Cons.IH [OF Cons.prems(1)] Cons.prems(2) by simp
  qed
qed simp

lemma skip_local_filter: "filter (\<lambda>h. rh_local h = 0) (skip_local refs) = filter (\<lambda>h. rh_local h = 0) refs"
  by (induction refs) auto

lemma skip_local_hd: "skip_local refs = h # hs \<Longrightarrow> rh_local h = 0"
  by (induction refs) (auto split: if_splits)

lemma skip_local_Nil: "skip_local refs = [] \<longleftrightarrow> (\<forall>h\<in>set refs. rh_local h \<noteq> 0)"
  by (induction refs) auto

lemma length_skip_local: "length (skip_local refs) \<le> length refs"
  by (induction refs) auto

text \<open>C39: The wants that \<open>git_pkt_buffer_wants\<close> writes are well-formed packets, each with its length in front: one for every
  head that is not local, in their order, the first with the capabilities, and a flush packet at the end.\<close>

theorem git_pkt_buffer_wants_lines:
  assumes "alloc_env al" and "buf_wf buf" and "length (content buf) + 50 * length refs + 400 < BUF_LIMIT"
    and "cap_common caps \<longrightarrow> (\<exists>h\<in>set refs. rh_local h = 0)"
  shows "\<exists>b. git_pkt_buffer_wants al refs caps buf = Some (0, b) \<and> buf_wf b \<and>
    content b = content buf @ concat (map pkt_line (want_payloads caps refs)) @ bytes_of ''0000''"
proof -
  have al: "good_alloc al" using assms(1) by (simp add: alloc_env_def)
  have flush: "\<exists>c. git_pkt_buffer_flush al b = Some (0, c) \<and> buf_wf c \<and> content c = content b @ bytes_of ''0000''"
    if "buf_wf b" "length (content b) + 4 < BUF_LIMIT" for b
    using buf_outcome_total [OF git_buf_put_outcome [OF al that(1), of "bytes_of ''0000''"] assms(1)] that
    by (auto simp: git_pkt_buffer_flush_def bytes_of_def)
  have wants: "length (concat (map (\<lambda>h. pkt_line (want_payload [] h)) hs)) = 50 * length hs" for hs
    by (induction hs) (simp_all add: pkt_line_def want_payload_def bytes_of_def)
  show ?thesis
  proof (cases "cap_common caps")
    case False
    have "length (content buf) + 50 * length refs < BUF_LIMIT" using assms(3) by simp
    then obtain b where b: "buffer_wants_loop al refs buf = Some (0, b)" "buf_wf b"
        "content b = content buf @ concat (map (\<lambda>h. pkt_line (want_payload [] h)) (filter (\<lambda>h. rh_local h = 0) refs))"
      using buffer_wants_loop_text [OF assms(1,2), of refs] by auto
    have "length (content b) + 4 < BUF_LIMIT"
      using assms(3) length_filter_le [of "\<lambda>h. rh_local h = 0" refs] unfolding b(3) length_append wants by linarith
    with flush [OF b(2)] b False show ?thesis
      by (auto simp: git_pkt_buffer_wants_def want_payloads_def comp_def split: list.splits)
  next
    case True
    then obtain h hs where hs: "skip_local refs = h # hs"
      using assms(4) skip_local_Nil [of refs] by (cases "skip_local refs") auto
    have fl: "filter (\<lambda>h. rh_local h = 0) refs = h # filter (\<lambda>h. rh_local h = 0) hs"
      using skip_local_filter [of refs] skip_local_hd [OF hs] hs by simp
    have lens: "Suc (length hs) \<le> length refs" using length_skip_local [of refs] hs by simp
    obtain b1 where b1: "buffer_want_with_caps al h caps buf = Some (0, b1)" "buf_wf b1"
        "content b1 = content buf @ pkt_line (want_payload (32 # caps_text caps) h)"
      using buffer_want_with_caps_text [OF assms(1,2), of h caps] assms(3) by auto
    have first: "length (pkt_line (want_payload (32 # caps_text caps) h)) < 200"
      using caps_text_bounds(1) [of caps] by (simp add: pkt_line_def want_payload_def bytes_of_def)
    have "length (content b1) + 50 * length hs < BUF_LIMIT" using first lens assms(3) unfolding b1(3) by simp
    then obtain b where b: "buffer_wants_loop al hs b1 = Some (0, b)" "buf_wf b"
        "content b = content b1 @ concat (map (\<lambda>h. pkt_line (want_payload [] h)) (filter (\<lambda>h. rh_local h = 0) hs))"
      using buffer_wants_loop_text [OF assms(1) b1(2), of hs] by auto
    have "length (content b) + 4 < BUF_LIMIT"
      using assms(3) length_filter_le [of "\<lambda>h. rh_local h = 0" hs] lens first unfolding b(3) b1(3) length_append wants by linarith
    with flush [OF b(2)] b b1 True hs fl show ?thesis
      by (auto simp: git_pkt_buffer_wants_def want_payloads_def comp_def)
  qed
qed

theorem git_pkt_buffer_wants_lines_witness:
  "\<exists>b. git_pkt_buffer_wants (fill_alloc 0)
      [\<lparr>rh_local = 1, rh_oid = oid_of [1], rh_loid = oid_of [], rh_name = [97], rh_symref_target = None\<rparr>,
       \<lparr>rh_local = 0, rh_oid = oid_of [2], rh_loid = oid_of [], rh_name = [98], rh_symref_target = None\<rparr>]
      \<lparr>cap_common = True, cap_ofs_delta = True, cap_multi_ack = False, cap_multi_ack_detailed = False, cap_side_band = False,
       cap_side_band_64k = False, cap_include_tag = False, cap_delete_refs = False, cap_report_status = False, cap_thin_pack = False\<rparr> GIT_BUF_INIT =
      Some (0, b) \<and>
     content b = pkt_line (bytes_of ''want '' @ git_oid_fmt (oid_of [2]) @ bytes_of '' ofs-delta '' @ [10]) @ bytes_of ''0000''"
  using git_pkt_buffer_wants_lines [of "fill_alloc 0" GIT_BUF_INIT
      "[\<lparr>rh_local = 1, rh_oid = oid_of [1], rh_loid = oid_of [], rh_name = [97], rh_symref_target = None\<rparr>,
       \<lparr>rh_local = 0, rh_oid = oid_of [2], rh_loid = oid_of [], rh_name = [98], rh_symref_target = None\<rparr>]"
      "\<lparr>cap_common = True, cap_ofs_delta = True, cap_multi_ack = False, cap_multi_ack_detailed = False, cap_side_band = False,
       cap_side_band_64k = False, cap_include_tag = False, cap_delete_refs = False, cap_report_status = False, cap_thin_pack = False\<rparr>"]
  by (simp add: BUF_LIMIT_def want_payloads_def want_payload_def caps_text_def cap_word_def bytes_of_def) blast

text \<open>When the capabilities are to be sent but all heads are local, the array is read past its end.\<close>

lemma git_pkt_buffer_wants_all_local:
  "cap_common caps \<Longrightarrow> \<forall>h\<in>set refs. rh_local h \<noteq> 0 \<Longrightarrow> git_pkt_buffer_wants al refs caps buf = None"
  using skip_local_Nil [of refs] by (simp add: git_pkt_buffer_wants_def)

text \<open>The packets of the negotiation.\<close>

lemma git_pkt_buffer_have_line:
  assumes "alloc_env al" and "buf_wf buf" and "length (content buf) + 100 < BUF_LIMIT"
  shows "\<exists>b. git_pkt_buffer_have al oid buf = Some (0, b) \<and> buf_wf b \<and>
    content b = content buf @ pkt_line (bytes_of ''have '' @ git_oid_fmt oid @ [10])"
proof -
  have al: "good_alloc al" using assms(1) by (simp add: alloc_env_def)
  have "pkt_line (bytes_of ''have '' @ git_oid_fmt oid @ [10]) = bytes_of ''0032have '' @ git_oid_fmt oid @ [10]"
    by (simp add: pkt_line_def bytes_of_def hex4_def to_hex_def)
  then show ?thesis
    using buf_outcome_total [OF git_buf_vprintf_outcome [OF al assms(2), of "bytes_of ''0032have '' @ git_oid_fmt oid @ [10]" "bytes_of ''%s%s'' @ [10]"] assms(1)]
      assms(2,3) by (auto simp: git_pkt_buffer_have_def cstrlen_def bytes_of_def)
qed

lemma git_pkt_buffer_done_line:
  assumes "alloc_env al" and "buf_wf buf" and "length (content buf) + 100 < BUF_LIMIT"
  shows "\<exists>b. git_pkt_buffer_done al buf = Some (0, b) \<and> buf_wf b \<and> content b = content buf @ pkt_line (bytes_of ''done'' @ [10])"
proof -
  have al: "good_alloc al" using assms(1) by (simp add: alloc_env_def)
  have "pkt_line (bytes_of ''done'' @ [10]) = bytes_of ''0009done'' @ [10]"
    by (simp add: pkt_line_def bytes_of_def hex4_def to_hex_def)
  then show ?thesis
    using buf_outcome_total [OF git_buf_puts_outcome [OF al assms(2), of "bytes_of ''0009done'' @ [10]"] assms(1)]
      assms(2,3) by (auto simp: git_pkt_buffer_done_def cstrlen_def bytes_of_def)
qed

end
