(* ===== verification/Apply.thy ===== *)
theory Apply
  imports Vector BufText BufferSpec DeltaSpec
begin

text \<open>
  Applying a patch to the contents of a file (apply.c): hunks of lines on an image of the file, and binary deltas.
\<close>

section \<open>Lines, hunks and patches\<close>

text \<open>\<open>dl_content\<close> is the memory from the content pointer to the end of its object; the text of the line is its first
  \<open>dl_content_len\<close> bytes. The line numbers of a line are not used.\<close>

record git_diff_line =
  dl_origin :: byte
  dl_content_len :: nat
  dl_content_offset :: nat
  dl_content :: "byte list"

record git_patch_hunk =
  ph_new_start :: int
  ph_line_start :: nat
  ph_line_count :: nat

datatype git_diff_binary_t = GIT_DIFF_BINARY_NONE | GIT_DIFF_BINARY_LITERAL | GIT_DIFF_BINARY_DELTA

record git_diff_binary_file =
  bin_type :: git_diff_binary_t
  bin_data :: "byte list"
  bin_inflatedlen :: nat

record git_patch =
  p_deleted :: bool
  p_binary :: bool
  p_new_path :: "byte list"
  p_new_mode :: u32
  p_new_file :: git_diff_binary_file
  p_old_file :: git_diff_binary_file
  p_hunks :: "git_patch_hunk list"
  p_lines :: "git_diff_line list"

abbreviation GIT_DIFF_LINE_CONTEXT :: byte where "GIT_DIFF_LINE_CONTEXT \<equiv> 32"
abbreviation GIT_DIFF_LINE_ADDITION :: byte where "GIT_DIFF_LINE_ADDITION \<equiv> 43"
abbreviation GIT_DIFF_LINE_DELETION :: byte where "GIT_DIFF_LINE_DELETION \<equiv> 45"

type_synonym patch_image = "git_diff_line git_vector"
type_synonym line_cells = "git_diff_line cells"

definition PATCH_IMAGE_INIT :: patch_image where
  "PATCH_IMAGE_INIT = \<lparr>v_alloc_size = 0, v_cmp = None, v_contents = [], v_length = 0, v_flags = 0\<rparr>"

section \<open>The image of the source\<close>

text \<open>\<open>memory\<close> is the object the source lies in, from the source on; the search for a newline may go behind the source. If it
  finds none, \<open>end\<close> becomes a NULL pointer plus one. \<open>ok n\<close> says whether the pool has room for line \<open>n\<close>.\<close>

function image_lines :: "line_cells \<Rightarrow> (nat \<Rightarrow> bool) \<Rightarrow> byte list \<Rightarrow> nat \<Rightarrow> nat \<Rightarrow> patch_image \<Rightarrow> (int \<times> patch_image) option" where
  "image_lines al ok memory in_len start img =
     (if start < in_len then
        (case memchr 10 (take in_len (drop start memory)) of
           None \<Rightarrow> None
         | Some k \<Rightarrow>
             let end_pos = start + k;
                 end_pos = (if end_pos < in_len then end_pos + 1 else end_pos)
             in if \<not> ok (v_length img) then Some (-1, img)
                else (case git_vector_insert al img (Some \<lparr>dl_origin = 0, dl_content_len = end_pos - start,
                         dl_content_offset = start, dl_content = drop start memory\<rparr>) of
                    None \<Rightarrow> None
                  | Some (error, img) \<Rightarrow> if error < 0 then Some (-1, img) else image_lines al ok memory in_len end_pos img))
      else Some (0, img))"
  by pat_completeness auto

termination
  by (relation "measure (\<lambda>(al, ok, memory, in_len, start, img). in_len - start)") auto

declare image_lines.simps [simp del]

definition patch_image_init_fromstr :: "line_cells \<Rightarrow> (nat \<Rightarrow> bool) \<Rightarrow> byte list \<Rightarrow> nat \<Rightarrow> (int \<times> patch_image) option" where
  "patch_image_init_fromstr al ok memory in_len = image_lines al ok memory in_len 0 PATCH_IMAGE_INIT"

section \<open>Hunks\<close>

text \<open>The comparison of two lines: the lengths are those of the same line, and \<open>memcmp\<close> reads the length of the image's.\<close>

definition line_matches :: "git_diff_line \<Rightarrow> git_diff_line \<Rightarrow> bool option" where
  "line_matches preimage_line image_line =
     (let n = dl_content_len image_line in
      if dl_content_len preimage_line \<noteq> dl_content_len preimage_line then Some False
      else if length (dl_content preimage_line) < n \<or> length (dl_content image_line) < n then None
      else Some (take n (dl_content preimage_line) = take n (dl_content image_line)))"

fun match_lines :: "patch_image \<Rightarrow> nat \<Rightarrow> git_diff_line option list \<Rightarrow> bool option" where
  "match_lines img linenum [] = Some True"
| "match_lines img linenum (p # ps) =
     (case (p, git_vector_get img linenum) of
        (Some pl, Some il) \<Rightarrow>
          (case line_matches pl il of
             None \<Rightarrow> None
           | Some False \<Rightarrow> Some False
           | Some True \<Rightarrow> match_lines img (linenum + 1) ps)
      | _ \<Rightarrow> None)"

definition match_hunk :: "patch_image \<Rightarrow> patch_image \<Rightarrow> nat \<Rightarrow> bool option" where
  "match_hunk img preimage linenum =
     (if v_length preimage + linenum > v_length img then Some False else match_lines img linenum (items preimage))"

definition find_hunk_linenum :: "patch_image \<Rightarrow> patch_image \<Rightarrow> nat \<Rightarrow> (bool \<times> nat) option" where
  "find_hunk_linenum img preimage linenum =
     (let linenum = (if linenum > v_length img then v_length img else linenum)
      in map_option (\<lambda>m. (m, linenum)) (match_hunk img preimage linenum))"

fun put_lines :: "patch_image \<Rightarrow> nat \<Rightarrow> git_diff_line option list \<Rightarrow> patch_image option" where
  "put_lines img i [] = Some img"
| "put_lines img i (x # xs) = do {
     img \<leftarrow> vec_put img i x;
     put_lines img (i + 1) xs }"

text \<open>\<open>linenum\<close> is an \<open>unsigned int\<close>.\<close>

definition update_hunk :: "line_cells \<Rightarrow> patch_image \<Rightarrow> nat \<Rightarrow> patch_image \<Rightarrow> patch_image \<Rightarrow> (int \<times> patch_image) option" where
  "update_hunk al img line_num preimage postimage =
     (let linenum = line_num mod 2 ^ 32; postlen = v_length postimage; prelen = v_length preimage in do {
       (error, img) \<leftarrow> (if postlen > prelen then git_vector_insert_null al img linenum (postlen - prelen)
          else if prelen > postlen then git_vector_remove_range img linenum (prelen - postlen) else Some (0, img));
       if error \<noteq> 0 then Some (-1, img)
       else do {
         img \<leftarrow> put_lines img linenum (items postimage);
         Some (0, img) } })"

text \<open>The images of a hunk before and after; \<open>todo\<close> lines are left.\<close>

fun hunk_images :: "line_cells \<Rightarrow> git_diff_line list \<Rightarrow> nat \<Rightarrow> nat \<Rightarrow> patch_image \<Rightarrow> patch_image \<Rightarrow> (int \<times> patch_image \<times> patch_image) option" where
  "hunk_images al lines linenum 0 preimage postimage = Some (0, preimage, postimage)"
| "hunk_images al lines linenum (Suc todo) preimage postimage =
     (if linenum \<ge> length lines then Some (-1, preimage, postimage)
      else let line = lines ! linenum in do {
        (error, preimage) \<leftarrow> (if dl_origin line = GIT_DIFF_LINE_CONTEXT \<or> dl_origin line = GIT_DIFF_LINE_DELETION
          then git_vector_insert al preimage (Some line) else Some (0, preimage));
        if error < 0 then Some (error, preimage, postimage)
        else do {
          (error, postimage) \<leftarrow> (if dl_origin line = GIT_DIFF_LINE_CONTEXT \<or> dl_origin line = GIT_DIFF_LINE_ADDITION
            then git_vector_insert al postimage (Some line) else Some (0, postimage));
          if error < 0 then Some (error, preimage, postimage)
          else hunk_images al lines (linenum + 1) todo preimage postimage } })"

text \<open>The line number as \<open>size_t\<close>.\<close>

definition hunk_line :: "git_patch_hunk \<Rightarrow> nat" where
  "hunk_line hunk = (if ph_new_start hunk \<noteq> 0 then nat ((ph_new_start hunk - 1) mod 2 ^ 64) else 0)"

definition apply_hunk :: "line_cells \<Rightarrow> patch_image \<Rightarrow> git_diff_line list \<Rightarrow> git_patch_hunk \<Rightarrow> (int \<times> patch_image) option" where
  "apply_hunk al img lines hunk = do {
     (error, preimage, postimage) \<leftarrow> hunk_images al lines (ph_line_start hunk) (ph_line_count hunk) PATCH_IMAGE_INIT PATCH_IMAGE_INIT;
     if error < 0 then Some (error, img)
     else do {
       (found, line_num) \<leftarrow> find_hunk_linenum img preimage (hunk_line hunk);
       if \<not> found then Some (-1, img) else update_hunk al img line_num preimage postimage } }"

fun apply_each :: "line_cells \<Rightarrow> git_diff_line list \<Rightarrow> git_patch_hunk list \<Rightarrow> patch_image \<Rightarrow> (int \<times> patch_image) option" where
  "apply_each al lines [] img = Some (0, img)"
| "apply_each al lines (hunk # hunks) img = do {
     (error, img) \<leftarrow> apply_hunk al img lines hunk;
     if error < 0 then Some (error, img) else apply_each al lines hunks img }"

text \<open>The result of \<open>git_buf_put\<close> is ignored.\<close>

fun put_image :: "byte allocator \<Rightarrow> git_diff_line option list \<Rightarrow> git_buf \<Rightarrow> git_buf option" where
  "put_image al [] out = Some out"
| "put_image al (x # xs) out =
     (case x of
        None \<Rightarrow> None
      | Some line \<Rightarrow>
          if length (dl_content line) < dl_content_len line then None
          else do {
            (_, out) \<leftarrow> git_buf_put al out (take (dl_content_len line) (dl_content line));
            put_image al xs out })"

definition apply_hunks :: "byte allocator \<Rightarrow> line_cells \<Rightarrow> (nat \<Rightarrow> bool) \<Rightarrow> git_buf \<Rightarrow> byte list \<Rightarrow> nat \<Rightarrow> git_patch \<Rightarrow> (int \<times> git_buf) option" where
  "apply_hunks al al_vec ok out memory source_len patch = do {
     (error, img) \<leftarrow> patch_image_init_fromstr al_vec ok memory source_len;
     if error < 0 then Some (error, out)
     else do {
       (error, img) \<leftarrow> apply_each al_vec (p_lines patch) (p_hunks patch) img;
       if error < 0 then Some (error, out)
       else do {
         out \<leftarrow> put_image al (items img) out;
         Some (error, out) } } }"

section \<open>Binary patches\<close>

text \<open>\<open>inflate\<close> stands for \<open>git_zstream_inflatebuf\<close> on an empty buffer: its code and the buffer.\<close>

definition apply_binary_delta ::
    "byte allocator \<Rightarrow> (byte list \<Rightarrow> int \<times> git_buf) \<Rightarrow> git_buf \<Rightarrow> byte list \<Rightarrow> git_diff_binary_file \<Rightarrow> (int \<times> git_buf) option" where
  "apply_binary_delta al inflate out source file =
     (if bin_data file = [] then git_buf_put al out source
      else
        let (error, inflated) = inflate (bin_data file);
            wrong = (error = 0 \<and> buf_size inflated \<noteq> bin_inflatedlen file);
            error = (if wrong then -1 else error);
            out = (if wrong then git_buf_free out else out)
        in if error < 0 then Some (error, out)
           else (case bin_type file of
               GIT_DIFF_BINARY_DELTA \<Rightarrow> do {
                 delta \<leftarrow> buf_load inflated 0 (buf_size inflated);
                 (error, data) \<leftarrow> git_delta_apply al source delta;
                 Some (error, case data of
                    None \<Rightarrow> \<lparr>buf_ptr = NullPtr, buf_asize = 0, buf_size = 0\<rparr>
                  | Some d \<Rightarrow> \<lparr>buf_ptr = Block (d @ [0]), buf_asize = length d, buf_size = length d\<rparr>) }
             | GIT_DIFF_BINARY_LITERAL \<Rightarrow> Some (error, fst (git_buf_swap (out, inflated)))
             | GIT_DIFF_BINARY_NONE \<Rightarrow> Some (-1, out)))"

definition apply_binary ::
    "byte allocator \<Rightarrow> (byte list \<Rightarrow> int \<times> git_buf) \<Rightarrow> git_buf \<Rightarrow> byte list \<Rightarrow> git_patch \<Rightarrow> (int \<times> git_buf) option" where
  "apply_binary al inflate out source patch = do {
     (error, out) \<leftarrow> apply_binary_delta al inflate out source (p_new_file patch);
     if error < 0 then Some (error, git_buf_free out)
     else do {
       result \<leftarrow> buf_load out 0 (buf_size out);
       (error, reverse) \<leftarrow> apply_binary_delta al inflate GIT_BUF_INIT result (p_old_file patch);
       if error < 0 then Some (error, git_buf_free out)
       else do {
         same \<leftarrow> (if length source \<noteq> buf_size reverse then Some False
            else do {
              b \<leftarrow> buf_load reverse 0 (length source);
              Some (b = source) });
         if \<not> same then Some (-1, git_buf_free out) else Some (error, out) } } }"

section \<open>The whole patch\<close>

text \<open>The code, the contents, the file name and the mode.\<close>

definition git_apply__patch ::
    "byte allocator \<Rightarrow> line_cells \<Rightarrow> (nat \<Rightarrow> bool) \<Rightarrow> (byte list \<Rightarrow> int \<times> git_buf) \<Rightarrow> git_buf \<Rightarrow> byte list \<Rightarrow> nat \<Rightarrow> git_patch \<Rightarrow>
      (int \<times> git_buf \<times> byte list option \<times> u32) option" where
  "git_apply__patch al al_vec ok inflate contents_out memory source_len patch =
     (let filename = (if \<not> p_deleted patch then Some (cstr (p_new_path patch)) else None);
          mode = (if \<not> p_deleted patch then if p_new_mode patch \<noteq> 0 then p_new_mode patch else 0x81A4 else 0)
      in do {
        (error, out) \<leftarrow> (if p_binary patch then apply_binary al inflate contents_out (take source_len memory) patch
           else if p_hunks patch \<noteq> [] then apply_hunks al al_vec ok contents_out memory source_len patch
           else git_buf_put al contents_out (take source_len memory));
        if error \<noteq> 0 then Some (error, out, None, 0)
        else if p_deleted patch \<and> buf_size out > 0 then Some (-1, out, None, 0)
        else Some (error, out, filename, mode) })"

section \<open>Images and their texts\<close>

definition line_text :: "git_diff_line \<Rightarrow> byte list" where
  "line_text l = take (dl_content_len l) (dl_content l)"

definition line_ok :: "git_diff_line \<Rightarrow> bool" where
  "line_ok l \<longleftrightarrow> dl_content_len l \<le> length (dl_content l)"

definition file_line :: "byte list \<Rightarrow> bool" where
  "file_line t \<longleftrightarrow> (\<exists>u. t = u @ [10] \<and> 10 \<notin> set u)"

definition image_ok :: "patch_image \<Rightarrow> byte list list \<Rightarrow> bool" where
  "image_ok img ts \<longleftrightarrow> vec_wf img \<and> v_cmp img = None \<and>
     (\<exists>ls. items img = map Some ls \<and> (\<forall>l\<in>set ls. line_ok l) \<and> map line_text ls = ts)"

lemma image_ok_flag: "v_cmp img = None \<Longrightarrow> flag_ok img"
  by (simp add: flag_ok_def)

lemma image_ok_length: "image_ok img ts \<Longrightarrow> v_length img = length ts"
  by (auto simp: image_ok_def dest: length_items)

lemma image_ok_INIT: "image_ok PATCH_IMAGE_INIT []"
  by (simp add: image_ok_def PATCH_IMAGE_INIT_def vec_wf_def items_def)

lemma image_ok_insert:
  assumes "cells_env al" and "image_ok img ts" and "length ts < VEC_LIMIT" and "line_ok l"
  shows "\<exists>img'. git_vector_insert al img (Some l) = Some (0, img') \<and> image_ok img' (ts @ [line_text l]) \<and> items img' = items img @ [Some l]"
proof -
  obtain ls where ls: "vec_wf img" "v_cmp img = None" "items img = map Some ls" "\<forall>l\<in>set ls. line_ok l" "map line_text ls = ts"
    using assms(2) by (auto simp: image_ok_def)
  have "good_alloc al" "v_length img < VEC_LIMIT" using assms(1,3) image_ok_length [OF assms(2)] by (simp_all add: cells_env_def)
  from vec_outcome_total [OF git_vector_insert_outcome [OF this(1) ls(1) this(2), of "Some l"] assms(1)]
  obtain img' where "git_vector_insert al img (Some l) = Some (0, img')" "vec_wf img'" "v_cmp img' = None" "items img' = map Some (ls @ [l])"
    using ls(2,3) by auto
  moreover have "\<forall>m\<in>set (ls @ [l]). line_ok m" "map line_text (ls @ [l]) = ts @ [line_text l]" using ls(4,5) assms(4) by auto
  ultimately show ?thesis using ls(3) unfolding image_ok_def by fastforce
qed

lemma insert_null_items:
  assumes env: "cells_env al" and wf: "vec_wf v" and n: "0 < n" "idx \<le> v_length v" "v_length v + n < VEC_LIMIT"
  shows "\<exists>v'. git_vector_insert_null al v idx n = Some (0, v') \<and> vec_wf v' \<and> v_cmp v' = v_cmp v \<and>
    items v' = take idx (items v) @ replicate n None @ drop idx (items v)"
proof -
  have al: "good_alloc al" "total_alloc al" using env by (simp_all add: cells_env_def)
  have lim: "v_length v + n < 2 ^ 58" using n(3) by (simp add: VEC_LIMIT_def)
  obtain v1 where grow: "(if v_length v + n > v_alloc_size v then resize_vector al v (v_length v + n) else Some (0, v)) = Some (0, v1)"
      and v1: "vec_wf v1" "items v1 = items v" "v_length v1 = v_length v" "v_cmp v1 = v_cmp v" "v_length v + n \<le> v_alloc_size v1"
  proof (cases "v_length v + n > v_alloc_size v")
    case True
    obtain r w where "resize_vector al v (v_length v + n) = Some (r, w)" and
        "r = 0 \<and> vec_wf w \<and> items w = items v \<and> v_alloc_size w = v_length v + n \<and> v_length w = v_length v \<and> v_cmp w = v_cmp v \<or> r = -1 \<and> \<not> total_alloc al"
      using resize_vector_spec [OF al(1) wf, of "v_length v + n"] lim by auto
    then show thesis using True al(2) that [of w] by auto
  next
    case False
    then show thesis using wf that [of v] by simp
  qed
  define m where "m = v_contents v1"
  have len: "v_length v + n \<le> length m" "v_length v \<le> length m" using v1(1,5) by (auto simp: m_def vec_wf_def)
  define t where "t = take (v_length v - idx) (drop idx m)"
  have t: "length t = v_length v - idx" using len by (simp add: t_def)
  define m1 where "m1 = take (idx + n) m @ t @ drop (idx + n + length t) m"
  have w1: "vec_write v1 (idx + n) t = Some (v1\<lparr>v_contents := m1\<rparr>)"
    using vec_write_spec [OF v1(1), of "idx + n" t] v1(5) t n(2) by (simp add: m1_def m_def)
  have m1: "length m1 = length m" using len t n(2) by (simp add: m1_def)
  have wf1: "vec_wf (v1\<lparr>v_contents := m1\<rparr>)" using v1(1) m1 by (simp add: vec_wf_def m_def)
  define m2 where "m2 = take idx m1 @ replicate n None @ drop (idx + n) m1"
  have w2: "vec_write (v1\<lparr>v_contents := m1\<rparr>) idx (replicate n None) = Some (v1\<lparr>v_contents := m2\<rparr>)"
    using vec_write_spec [OF wf1, of idx "replicate n None"] v1(5) n(2) by (simp add: m2_def)
  have "take (v_length v + n) m2 = take idx m @ replicate n None @ t"
    using len t n(1,2) by (auto simp: m2_def m1_def min_def)
  then have "items (v1\<lparr>v_contents := m2, v_length := v_length v + n\<rparr>) = take idx (items v) @ replicate n None @ drop idx (items v)"
    unfolding items_update v1(2) [symmetric] using n(2) by (simp add: items_def t_def m_def v1(3) drop_take min_def)
  moreover have "vec_wf (v1\<lparr>v_contents := m2, v_length := v_length v + n\<rparr>)"
    using v1(1,5) m1 len n(2) by (simp add: vec_wf_def m2_def m_def)
  moreover have "git_vector_insert_null al v idx n = Some (0, v1\<lparr>v_contents := m2, v_length := v_length v + n\<rparr>)"
    using n lim grow w1 w2 v1(3) by (simp add: git_vector_insert_null_def t_def m_def)
  ultimately show ?thesis using v1(4) by auto
qed

lemma put_lines_items:
  "vec_wf v \<Longrightarrow> i + length xs \<le> v_length v \<Longrightarrow>
   \<exists>v'. put_lines v i xs = Some v' \<and> vec_wf v' \<and> v_cmp v' = v_cmp v \<and> items v' = take i (items v) @ xs @ drop (i + length xs) (items v)"
proof (induction xs arbitrary: v i)
  case (Cons x xs)
  let ?v = "v\<lparr>v_contents := (v_contents v)[i := x]\<rparr>"
  have i: "i < v_alloc_size v" "i < v_length v" using Cons.prems by (auto simp: vec_wf_def)
  have wf: "vec_wf ?v" using Cons.prems(1) by (simp add: vec_wf_def)
  have it: "items ?v = (items v)[i := x]" by (simp add: items_def take_update_swap)
  from Cons.IH [OF wf, of "i + 1"] Cons.prems(2) obtain v' where v': "put_lines ?v (i + 1) xs = Some v'" "vec_wf v'" "v_cmp v' = v_cmp v"
      "items v' = take (i + 1) (items ?v) @ xs @ drop (i + 1 + length xs) (items ?v)"
    by auto
  have "i < length (items v)" using i(2) Cons.prems(1) by simp
  then have "take (i + 1) (items ?v) = take i (items v) @ [x]" unfolding it by (simp add: take_Suc_conv_app_nth)
  moreover have "drop (i + 1 + length xs) (items ?v) = drop (i + length (x # xs)) (items v)" unfolding it by simp
  ultimately show ?case using v' vec_put_spec [OF Cons.prems(1) i(1)] by auto
qed simp

section \<open>Matching and replacing a hunk\<close>

lemma line_matches_same:
  "line_ok p \<Longrightarrow> line_ok l \<Longrightarrow> line_text p = line_text l \<Longrightarrow> line_matches p l = Some True"
proof -
  assume ok: "line_ok p" "line_ok l" "line_text p = line_text l"
  have "dl_content_len p = dl_content_len l"
    using arg_cong [OF ok(3), of length] ok(1,2) by (simp add: line_text_def line_ok_def)
  then show ?thesis using ok by (simp add: line_matches_def Let_def line_ok_def line_text_def)
qed

lemma match_lines_same:
  assumes "vec_wf img" "items img = map Some ls" "\<forall>l\<in>set ls. line_ok l"
  shows "\<forall>p\<in>set ps. line_ok p \<Longrightarrow> i + length ps \<le> length ls \<Longrightarrow> map line_text ps = map line_text (take (length ps) (drop i ls)) \<Longrightarrow>
    match_lines img i (map Some ps) = Some True"
proof (induction ps arbitrary: i)
  case (Cons p ps)
  have i: "i < length ls" using Cons.prems(2) by simp
  then have d: "drop i ls = ls ! i # drop (Suc i) ls" by (simp add: Cons_nth_drop_Suc)
  have n: "v_length img = length ls" using assms(1,2) length_items [of img] by simp
  have "items img ! i = Some (ls ! i)" using assms(2) i by simp
  then have get: "git_vector_get img i = Some (ls ! i)" using i n by (simp add: git_vector_get_def items_def)
  have "line_matches p (ls ! i) = Some True"
    using Cons.prems(1,3) assms(3) i d by (intro line_matches_same) auto
  then show ?case using Cons.IH [of "i + 1"] Cons.prems get d by simp
qed simp

lemma find_hunk_same:
  assumes "image_ok img (a @ p @ c)" and "image_ok pre p"
  shows "find_hunk_linenum img pre (length a) = Some (True, length a)"
proof -
  obtain ls where ls: "vec_wf img" "items img = map Some ls" "\<forall>l\<in>set ls. line_ok l" "map line_text ls = a @ p @ c"
    using assms(1) by (auto simp: image_ok_def)
  obtain ps where ps: "items pre = map Some ps" "\<forall>l\<in>set ps. line_ok l" "map line_text ps = p"
    using assms(2) by (auto simp: image_ok_def)
  have len: "length ps = length p" "length ls = length a + length p + length c"
    using arg_cong [OF ps(3), of length] arg_cong [OF ls(4), of length] by simp_all
  have "map line_text ps = map line_text (take (length ps) (drop (length a) ls))"
    unfolding take_map [symmetric] drop_map [symmetric] ls(4) ps(3) by (simp add: len)
  then have "match_lines img (length a) (map Some ps) = Some True"
    using match_lines_same [OF ls(1-3), of ps "length a"] ps(2) len by simp
  then show ?thesis
    using image_ok_length [OF assms(1)] image_ok_length [OF assms(2)] ps(1) by (simp add: find_hunk_linenum_def match_hunk_def)
qed

lemma update_hunk_image:
  assumes env: "cells_env al" and img: "image_ok img (a @ p @ c)" and pre: "image_ok pre p" and post: "image_ok post q"
    and room: "length a < 2 ^ 32" "length (a @ p @ c) + length q < VEC_LIMIT"
  shows "\<exists>img'. update_hunk al img (length a) pre post = Some (0, img') \<and> image_ok img' (a @ q @ c)"
proof -
  obtain ls where ls: "vec_wf img" "v_cmp img = None" "items img = map Some ls" "\<forall>l\<in>set ls. line_ok l" "map line_text ls = a @ p @ c"
    using img by (auto simp: image_ok_def)
  obtain qs where qs: "items post = map Some qs" "\<forall>l\<in>set qs. line_ok l" "map line_text qs = q"
    using post by (auto simp: image_ok_def)
  note n = image_ok_length [OF img] image_ok_length [OF pre] image_ok_length [OF post]
  have len: "length qs = length q" "length ls = length a + length p + length c"
    using arg_cong [OF qs(3), of length] arg_cong [OF ls(5), of length] by simp_all
  let ?step = "if length q > length p then git_vector_insert_null al img (length a) (length q - length p)
      else if length p > length q then git_vector_remove_range img (length a) (length p - length q) else Some (0, img)"
  obtain img1 where img1: "?step = Some (0, img1)" "vec_wf img1" "v_cmp img1 = None" "take (length a) (items img1) = take (length a) (items img)"
      "drop (length a + length q) (items img1) = drop (length a + length p) (items img)" "v_length img1 = length a + length q + length c"
  proof -
    consider (more) "length q > length p" | (less) "length p > length q" | (same) "length p = length q" by linarith
    then show thesis
    proof cases
      case more
      have "length a \<le> v_length img" "v_length img + (length q - length p) < VEC_LIMIT" using n room(2) by auto
      then obtain w where w: "git_vector_insert_null al img (length a) (length q - length p) = Some (0, w)" "vec_wf w" "v_cmp w = None"
          "items w = take (length a) (items img) @ replicate (length q - length p) None @ drop (length a) (items img)"
        using insert_null_items [OF env ls(1), of "length q - length p" "length a"] more ls(2) by auto
      have "v_length w = length (items w)" using w(2) by simp
      then show thesis using more w len by (intro that [of w]) (auto simp: w(4) ls(3) add.commute)
    next
      case less
      have "0 < length p - length q" "length a + (length p - length q) \<le> v_length img" using less n(1) by auto
      from git_vector_remove_range_spec [OF ls(1) image_ok_flag [OF ls(2)] this] obtain w where w: "git_vector_remove_range img (length a) (length p - length q) = Some (0, w)" "vec_wf w" "v_cmp w = None"
          "items w = take (length a) (items img) @ drop (length a + (length p - length q)) (items img)"
        using ls(2) by auto
      have "v_length w = length (items w)" using w(2) by simp
      then show thesis using less w len by (intro that [of w]) (auto simp: w(4) ls(3))
    next
      case same
      then show thesis using ls n(1) by (intro that [of img]) auto
    qed
  qed
  have fits: "length a + length (items post) \<le> v_length img1" using img1(6) by (simp add: qs(1) len)
  obtain img2 where img2: "put_lines img1 (length a) (items post) = Some img2" "vec_wf img2" "v_cmp img2 = None"
      "items img2 = take (length a) (items img1) @ items post @ drop (length a + length (items post)) (items img1)"
    using put_lines_items [OF img1(2) fits] img1(3) by auto
  have "items img2 = map Some (take (length a) ls @ qs @ drop (length a + length p) ls)"
    using img2(4) img1(4,5) by (simp add: qs(1) len(1) ls(3) take_map drop_map)
  moreover have "map line_text (take (length a) ls @ qs @ drop (length a + length p) ls) = a @ q @ c"
    using arg_cong [OF ls(5), of "take (length a)"] arg_cong [OF ls(5), of "drop (length a + length p)"] qs(3) by (simp add: take_map drop_map)
  moreover have "\<forall>l\<in>set (take (length a) ls @ qs @ drop (length a + length p) ls). line_ok l"
    using ls(4) qs(2) by (auto dest: in_set_takeD in_set_dropD)
  ultimately have "image_ok img2 (a @ q @ c)" unfolding image_ok_def using img2(2,3) by blast
  then show ?thesis using img1(1) img2(1) n room(1) by (simp add: update_hunk_def Let_def)
qed

section \<open>Edit scripts\<close>

text \<open>A patch as an edit script: lines that are left alone, then a hunk of lines with their origins, and so on. The side
  \<open>45\<close> (minus) of a hunk is its text in the old file, \<open>43\<close> (plus) its text in the new file.\<close>

type_synonym edit = "byte list list \<times> (byte \<times> byte list) list"

definition hunk_side :: "byte \<Rightarrow> (byte \<times> byte list) list \<Rightarrow> byte list list" where
  "hunk_side sign h = map snd (filter (\<lambda>l. fst l = GIT_DIFF_LINE_CONTEXT \<or> fst l = sign) h)"

definition script_side :: "byte \<Rightarrow> edit list \<Rightarrow> byte list list" where
  "script_side sign es = concat (map (\<lambda>e. fst e @ hunk_side sign (snd e)) es)"

definition origin_text :: "git_diff_line \<Rightarrow> byte \<times> byte list" where
  "origin_text l = (dl_origin l, line_text l)"

text \<open>The hunks of a patch describe the script: each begins at its line of the new file, counted from 1 (0 for an empty file),
  and has its lines.\<close>

fun hunks_for :: "git_diff_line list \<Rightarrow> nat \<Rightarrow> edit list \<Rightarrow> git_patch_hunk list \<Rightarrow> bool" where
  "hunks_for ls n [] [] \<longleftrightarrow> True"
| "hunks_for ls n (e # es) (k # ks) \<longleftrightarrow>
     (ph_new_start k = int (n + length (fst e)) + 1 \<or> ph_new_start k = 0 \<and> n + length (fst e) = 0) \<and> ph_line_start k + ph_line_count k \<le> length ls \<and>
     map origin_text (take (ph_line_count k) (drop (ph_line_start k) ls)) = snd e \<and>
     hunks_for ls (n + length (fst e) + length (hunk_side GIT_DIFF_LINE_ADDITION (snd e))) es ks"
| "hunks_for ls n _ _ \<longleftrightarrow> False"

lemma hunk_side_Cons: "hunk_side sign (x # h) = (if fst x = GIT_DIFF_LINE_CONTEXT \<or> fst x = sign then [snd x] else []) @ hunk_side sign h"
  by (simp add: hunk_side_def)

lemma length_hunk_side: "length (hunk_side sign h) \<le> length h"
  by (simp add: hunk_side_def)

lemma hunk_images_sides:
  assumes env: "cells_env al" and lines: "\<forall>l\<in>set ls. line_ok l"
  shows "image_ok pre p \<Longrightarrow> image_ok post q \<Longrightarrow> i + n \<le> length ls \<Longrightarrow> length p + n < VEC_LIMIT \<Longrightarrow> length q + n < VEC_LIMIT \<Longrightarrow>
    h = map origin_text (take n (drop i ls)) \<Longrightarrow>
    \<exists>pre' post'. hunk_images al ls i n pre post = Some (0, pre', post') \<and>
      image_ok pre' (p @ hunk_side GIT_DIFF_LINE_DELETION h) \<and> image_ok post' (q @ hunk_side GIT_DIFF_LINE_ADDITION h) \<and>
      set (items pre') \<subseteq> set (items pre) \<union> Some ` set ls"
proof (induction n arbitrary: i pre post p q h)
  case 0
  then show ?case by (simp add: hunk_side_def)
next
  case (Suc n)
  have i: "i < length ls" using Suc.prems(3) by simp
  let ?l = "ls ! i" and ?h = "map origin_text (take n (drop (i + 1) ls))"
  have h: "h = origin_text ?l # ?h" using Suc.prems(6) i by (simp add: Cons_nth_drop_Suc [symmetric])
  have ok: "line_ok ?l" using lines i by simp
  let ?m = "dl_origin ?l = GIT_DIFF_LINE_CONTEXT \<or> dl_origin ?l = GIT_DIFF_LINE_DELETION"
  let ?p = "dl_origin ?l = GIT_DIFF_LINE_CONTEXT \<or> dl_origin ?l = GIT_DIFF_LINE_ADDITION"
  obtain pre1 where pre1: "(if ?m then git_vector_insert al pre (Some ?l) else Some (0, pre)) = Some (0, pre1)"
      "image_ok pre1 (p @ (if ?m then [line_text ?l] else []))" "set (items pre1) \<subseteq> set (items pre) \<union> Some ` set ls"
    using image_ok_insert [OF env Suc.prems(1) _ ok] Suc.prems(1,4) i by (cases ?m) auto
  obtain post1 where post1: "(if ?p then git_vector_insert al post (Some ?l) else Some (0, post)) = Some (0, post1)"
      "image_ok post1 (q @ (if ?p then [line_text ?l] else []))"
    using image_ok_insert [OF env Suc.prems(2) _ ok] Suc.prems(2,5) by (cases ?p) auto
  have step: "hunk_images al ls i (Suc n) pre post = hunk_images al ls (i + 1) n pre1 post1"
    using i pre1(1) post1(1) by (simp add: Let_def)
  have sides: "hunk_side GIT_DIFF_LINE_DELETION h = (if ?m then [line_text ?l] else []) @ hunk_side GIT_DIFF_LINE_DELETION ?h"
    "hunk_side GIT_DIFF_LINE_ADDITION h = (if ?p then [line_text ?l] else []) @ hunk_side GIT_DIFF_LINE_ADDITION ?h"
    unfolding h hunk_side_Cons by (simp_all add: origin_text_def)
  have room: "i + 1 + n \<le> length ls" "length (p @ (if ?m then [line_text ?l] else [])) + n < VEC_LIMIT"
    "length (q @ (if ?p then [line_text ?l] else [])) + n < VEC_LIMIT" using Suc.prems(3-5) by auto
  from Suc.IH [OF pre1(2) post1(2) room refl] show ?case using pre1(3) unfolding step sides append_assoc by blast
qed

lemma apply_each_script:
  assumes env: "cells_env al" and lines: "\<forall>l\<in>set ls. line_ok l"
  shows "hunks_for ls (length d) es ks \<Longrightarrow> image_ok img (d @ script_side GIT_DIFF_LINE_DELETION es @ tail) \<Longrightarrow>
    length d + length (script_side GIT_DIFF_LINE_DELETION es) + length (script_side GIT_DIFF_LINE_ADDITION es) + 2 * length ls + length tail < 2 ^ 32 \<Longrightarrow>
    \<exists>img'. apply_each al ls ks img = Some (0, img') \<and> image_ok img' (d @ script_side GIT_DIFF_LINE_ADDITION es @ tail)"
proof (induction es arbitrary: d ks img)
  case Nil
  then show ?case by (cases ks) (simp_all add: script_side_def)
next
  case (Cons e es)
  obtain k ks' where ks: "ks = k # ks'" using Cons.prems(1) by (cases ks) auto
  let ?o = "hunk_side GIT_DIFF_LINE_DELETION (snd e)" and ?n = "hunk_side GIT_DIFF_LINE_ADDITION (snd e)"
  let ?a = "d @ fst e" and ?c = "script_side GIT_DIFF_LINE_DELETION es @ tail"
  from Cons.prems(1,3) have "hunk_line k = length ?a"
    by (auto simp: ks hunk_line_def script_side_def)
  with Cons.prems(1) have k: "hunk_line k = length ?a" "ph_line_start k + ph_line_count k \<le> length ls"
      "snd e = map origin_text (take (ph_line_count k) (drop (ph_line_start k) ls))"
      "hunks_for ls (length (?a @ ?n)) es ks'"
    by (simp_all add: ks add.assoc)
  have img: "image_ok img (?a @ ?o @ ?c)" using Cons.prems(2) by (simp add: script_side_def)
  have small: "length ?a + length ?o + length ?c + length ?n + ph_line_count k < 2 ^ 32"
    using Cons.prems(3) k(2) by (simp add: script_side_def)
  have lim: "x < 2 ^ 32 \<Longrightarrow> x < VEC_LIMIT" for x by (simp add: VEC_LIMIT_def)
  obtain pre post where sides: "hunk_images al ls (ph_line_start k) (ph_line_count k) PATCH_IMAGE_INIT PATCH_IMAGE_INIT = Some (0, pre, post)"
      "image_ok pre ?o" "image_ok post ?n"
    using hunk_images_sides [OF env lines image_ok_INIT image_ok_INIT k(2) _ _ k(3)] lim small by auto
  have room: "length ?a < 2 ^ 32" "length (?a @ ?o @ ?c) + length ?n < VEC_LIMIT" using small lim by simp_all
  obtain img1 where img1: "update_hunk al img (length ?a) pre post = Some (0, img1)" "image_ok img1 (?a @ ?n @ ?c)"
    using update_hunk_image [OF env img sides(2,3) room] by blast
  have hunk: "apply_hunk al img ls k = Some (0, img1)"
    using sides(1) find_hunk_same [OF img sides(2)] img1(1) k(1) by (simp add: apply_hunk_def)
  have img1': "image_ok img1 ((?a @ ?n) @ script_side GIT_DIFF_LINE_DELETION es @ tail)" using img1(2) by simp
  have "length (?a @ ?n) + length (script_side GIT_DIFF_LINE_DELETION es) + length (script_side GIT_DIFF_LINE_ADDITION es) + 2 * length ls +
      length tail < 2 ^ 32"
    using Cons.prems(3) by (simp add: script_side_def)
  from Cons.IH [OF k(4) img1' this] obtain img2 where "apply_each al ls ks' img1 = Some (0, img2)"
      "image_ok img2 ((?a @ ?n) @ script_side GIT_DIFF_LINE_ADDITION es @ tail)" by blast
  then show ?case using hunk by (auto simp: ks script_side_def)
qed

lemma apply_each_append:
  "apply_each al ls ks img = Some (0, img') \<Longrightarrow> apply_each al ls (ks @ ks') img = apply_each al ls ks' img'"
proof (induction ks arbitrary: img)
  case (Cons k ks)
  then show ?case by (auto simp: bind_eq_Some_conv split: if_splits prod.splits)
qed simp

lemma hunks_for_append:
  "hunks_for ls n (es1 @ es2) ks \<Longrightarrow>
   \<exists>ks1 ks2. ks = ks1 @ ks2 \<and> hunks_for ls n es1 ks1 \<and> hunks_for ls (n + length (script_side GIT_DIFF_LINE_ADDITION es1)) es2 ks2"
proof (induction es1 arbitrary: n ks)
  case Nil
  then show ?case by (intro exI [of _ "[]"] exI [of _ ks]) (simp add: script_side_def)
next
  case (Cons e es1)
  obtain k ks' where ks: "ks = k # ks'" using Cons.prems by (cases ks) auto
  let ?n = "n + length (fst e) + length (hunk_side GIT_DIFF_LINE_ADDITION (snd e))"
  have "hunks_for ls ?n (es1 @ es2) ks'" using Cons.prems by (simp add: ks)
  from Cons.IH [OF this] obtain ks1 ks2 where "ks' = ks1 @ ks2" "hunks_for ls ?n es1 ks1"
      "hunks_for ls (?n + length (script_side GIT_DIFF_LINE_ADDITION es1)) es2 ks2" by blast
  then show ?case using Cons.prems by (intro exI [of _ "k # ks1"] exI [of _ ks2]) (simp add: ks script_side_def add.assoc)
qed

section \<open>A source that is not the old file\<close>

text \<open>Between lines that end in a newline, \<open>memcmp\<close> compares the texts, as far as the memory of the patch reaches.\<close>

lemma line_matches_file:
  assumes "line_ok p" "line_ok l" "file_line (line_text p)" "file_line (line_text l)" "length (line_text l) \<le> length (dl_content p)"
  shows "line_matches p l = Some (line_text p = line_text l)"
proof -
  obtain u where u: "line_text p = u @ [10]" "10 \<notin> set u" using assms(3) by (auto simp: file_line_def)
  obtain v where v: "line_text l = v @ [10]" "10 \<notin> set v" using assms(4) by (auto simp: file_line_def)
  have first: "takeWhile (\<lambda>c. c \<noteq> 10) (w @ 10 # x) = w" if "10 \<notin> set w" for w x :: "byte list"
    using that by (induction w) auto
  define n where "n = dl_content_len l"
  have n: "length (line_text l) = n" "take n (dl_content l) = line_text l" using assms(2) by (simp_all add: n_def line_text_def line_ok_def)
  obtain r where r: "dl_content p = u @ 10 # r"
    using u(1) append_take_drop_id [of "dl_content_len p" "dl_content p"] by (metis append.assoc append_Cons append_Nil line_text_def)
  have "take n (dl_content p) = line_text l \<longleftrightarrow> line_text p = line_text l"
  proof
    assume eq: "take n (dl_content p) = line_text l"
    then have "takeWhile (\<lambda>c. c \<noteq> 10) (take n (u @ 10 # r)) = v" "10 \<in> set (take n (u @ 10 # r))"
      using v first [OF v(2), of "[]"] unfolding r by simp_all
    moreover from this(2) have "length u < n"
      using u(2) by (cases "length u < n") (auto dest: in_set_takeD)
    ultimately have "u = v" using first [OF u(2), of "take (n - length u - 1) r"] by (simp add: take_Cons')
    then show "line_text p = line_text l" using u(1) v(1) by simp
  next
    assume "line_text p = line_text l"
    then have same: "line_text l = u @ [10]" using u(1) by simp
    then have "n = length u + 1" using n(1) by simp
    then show "take n (dl_content p) = line_text l" by (simp add: r same)
  qed
  then show ?thesis using assms(2,5) n by (simp add: line_matches_def Let_def line_ok_def flip: n_def)
qed

lemma match_lines_file:
  assumes "vec_wf img" "items img = map Some ls" "\<forall>l\<in>set ls. line_ok l"
  shows "\<forall>p\<in>set ps. line_ok p \<and> file_line (line_text p) \<Longrightarrow> i + length ps \<le> length ls \<Longrightarrow>
    \<forall>l\<in>set (drop i ls). file_line (line_text l) \<and> (\<forall>p\<in>set ps. length (line_text l) \<le> length (dl_content p)) \<Longrightarrow>
    match_lines img i (map Some ps) = Some (map line_text ps = map line_text (take (length ps) (drop i ls)))"
proof (induction ps arbitrary: i)
  case (Cons p ps)
  have i: "i < length ls" using Cons.prems(2) by simp
  then have d: "drop i ls = ls ! i # drop (Suc i) ls" by (simp add: Cons_nth_drop_Suc)
  have n: "v_length img = length ls" using assms(1,2) length_items [of img] by simp
  have "items img ! i = Some (ls ! i)" using assms(2) i by simp
  then have get: "git_vector_get img i = Some (ls ! i)" using i n by (simp add: git_vector_get_def items_def)
  have "line_matches p (ls ! i) = Some (line_text p = line_text (ls ! i))"
    using Cons.prems(1,3) assms(3) i d by (intro line_matches_file) auto
  then show ?case using Cons.IH [of "i + 1"] Cons.prems get d by (cases "line_text p = line_text (ls ! i)") auto
qed simp

lemma find_hunk_differs:
  assumes img: "image_ok img (d @ ts)" and pre: "vec_wf pre" "items pre = map Some ps" "\<forall>p\<in>set ps. line_ok p \<and> file_line (line_text p)"
    and ts: "\<forall>t\<in>set ts. file_line t \<and> (\<forall>p\<in>set ps. length t \<le> length (dl_content p))"
    and differ: "take (length ps) (drop n ts) \<noteq> map line_text ps"
  shows "\<exists>m. find_hunk_linenum img pre (length d + n) = Some (False, m)"
proof -
  obtain ls where ls: "vec_wf img" "items img = map Some ls" "\<forall>l\<in>set ls. line_ok l" "map line_text ls = d @ ts"
    using img by (auto simp: image_ok_def)
  have len: "v_length pre = length ps" "v_length img = length d + length ts" "length ls = length d + length ts"
    using length_items [OF pre(1)] image_ok_length [OF img] arg_cong [OF ls(4), of length] pre(2) by simp_all
  have ps: "0 < length ps" using differ by (cases ps) auto
  have "match_hunk img pre (min (length d + n) (v_length img)) = Some False"
  proof (cases "length ps + n > length ts")
    case True
    then show ?thesis using ps len by (auto simp: match_hunk_def min_def)
  next
    case False
    then have i: "min (length d + n) (v_length img) = length d + n" using len by simp
    have texts: "map line_text (drop (length d + n) ls) = drop n ts" using arg_cong [OF ls(4), of "drop (length d + n)"] by (simp add: drop_map)
    have "\<forall>l\<in>set (drop (length d + n) ls). line_text l \<in> set ts"
    proof
      fix l
      assume "l \<in> set (drop (length d + n) ls)"
      then have "line_text l \<in> set (map line_text (drop (length d + n) ls))" by simp
      then show "line_text l \<in> set ts" unfolding texts by (rule in_set_dropD)
    qed
    then have "match_lines img (length d + n) (map Some ps) =
        Some (map line_text ps = map line_text (take (length ps) (drop (length d + n) ls)))"
      using False len ts pre(3) by (intro match_lines_file [OF ls(1-3)]) auto
    moreover have "map line_text (take (length ps) (drop (length d + n) ls)) = take (length ps) (drop n ts)"
      by (simp add: texts flip: take_map)
    ultimately have "match_lines img (length d + n) (map Some ps) = Some False" using differ by auto
    then show ?thesis unfolding i using False len pre(2) by (simp add: match_hunk_def)
  qed
  then show ?thesis
    by (intro exI [of _ "min (length d + n) (v_length img)"]) (auto simp: find_hunk_linenum_def Let_def min_def split: if_splits)
qed

text \<open>A source with which the hunks before apply, and which then does not have the lines of a hunk.\<close>

definition mismatch :: "edit list \<Rightarrow> byte list list \<Rightarrow> bool" where
  "mismatch es src \<longleftrightarrow> (\<exists>es1 u h es2 ts. es = es1 @ (u, h) # es2 \<and> src = script_side GIT_DIFF_LINE_DELETION es1 @ ts \<and>
     take (length (hunk_side GIT_DIFF_LINE_DELETION h)) (drop (length u) ts) \<noteq> hunk_side GIT_DIFF_LINE_DELETION h)"

lemma apply_each_refused:
  assumes env: "cells_env al" and lines: "\<forall>l\<in>set ls. line_ok l" and hunks: "hunks_for ls (length d) ((u, h) # es) ks"
    and img: "image_ok img (d @ ts)" and h: "\<forall>t\<in>set (hunk_side GIT_DIFF_LINE_DELETION h). file_line t"
    and ts: "\<forall>t\<in>set ts. file_line t \<and> (\<forall>l\<in>set ls. length t \<le> length (dl_content l))" and n: "length ls < VEC_LIMIT" "length d + length u < 2 ^ 32"
    and differ: "take (length (hunk_side GIT_DIFF_LINE_DELETION h)) (drop (length u) ts) \<noteq> hunk_side GIT_DIFF_LINE_DELETION h"
  shows "apply_each al ls ks img = Some (-1, img)"
proof -
  obtain k ks' where ks: "ks = k # ks'" using hunks by (cases ks) auto
  have k: "hunk_line k = length d + length u" "ph_line_start k + ph_line_count k \<le> length ls"
      "h = map origin_text (take (ph_line_count k) (drop (ph_line_start k) ls))"
    using hunks n by (auto simp: ks hunk_line_def VEC_LIMIT_def)
  obtain pre post where sides: "hunk_images al ls (ph_line_start k) (ph_line_count k) PATCH_IMAGE_INIT PATCH_IMAGE_INIT = Some (0, pre, post)"
      "image_ok pre (hunk_side GIT_DIFF_LINE_DELETION h)" "set (items pre) \<subseteq> Some ` set ls"
    using hunk_images_sides [OF env lines image_ok_INIT image_ok_INIT k(2) _ _ k(3)] k(2) n by (auto simp: PATCH_IMAGE_INIT_def items_def)
  obtain ps where ps: "vec_wf pre" "items pre = map Some ps" "\<forall>p\<in>set ps. line_ok p" "map line_text ps = hunk_side GIT_DIFF_LINE_DELETION h"
    using sides(2) by (auto simp: image_ok_def)
  have "\<forall>p\<in>set ps. file_line (line_text p)" using h unfolding ps(4) [symmetric] by simp
  moreover have "set ps \<subseteq> set ls" using sides(3) ps(2) by auto
  moreover have "length (hunk_side GIT_DIFF_LINE_DELETION h) = length ps" using arg_cong [OF ps(4), of length] by simp
  ultimately obtain m where "find_hunk_linenum img pre (hunk_line k) = Some (False, m)"
    using find_hunk_differs [OF img ps(1,2), of "length u"] ps(3,4) ts differ k(1) by (auto simp: subset_iff)
  then show ?thesis using sides(1) by (simp add: ks apply_hunk_def)
qed

section \<open>From the source to the result\<close>

lemma memchr_first: "c \<notin> set u \<Longrightarrow> memchr c (u @ c # r) = Some (length u)"
proof -
  assume "c \<notin> set u"
  then have "takeWhile (\<lambda>x. x \<noteq> c) (u @ c # r) = u" by (induction u) auto
  then show ?thesis by (simp add: memchr_def Let_def)
qed

lemma image_lines_read:
  assumes env: "cells_env al" and ok: "\<forall>n. ok n"
  shows "\<forall>t\<in>set ts. file_line t \<Longrightarrow> memory = d @ concat ts @ rest \<Longrightarrow> length d + length (concat ts) \<le> in_len \<Longrightarrow> image_ok img ds \<Longrightarrow>
    length ds + length ts < VEC_LIMIT \<Longrightarrow>
    \<exists>img'. image_lines al ok memory in_len (length d) img = image_lines al ok memory in_len (length (d @ concat ts)) img' \<and> image_ok img' (ds @ ts)"
proof (induction ts arbitrary: d img ds)
  case (Cons t ts)
  obtain u where u: "t = u @ [10]" "10 \<notin> set u" using Cons.prems(1) by (auto simp: file_line_def)
  define line where "line = \<lparr>dl_origin = 0, dl_content_len = length t, dl_content_offset = length d, dl_content = drop (length d) memory\<rparr>"
  have mem: "drop (length d) memory = u @ 10 # concat ts @ rest" using Cons.prems(2) u(1) by simp
  have room: "length d + length u < in_len" using Cons.prems(3) u(1) by simp
  have "take in_len (drop (length d) memory) = u @ 10 # take (in_len - length u - 1) (concat ts @ rest)"
    using room by (simp add: mem take_Cons')
  then have chr: "memchr 10 (take in_len (drop (length d) memory)) = Some (length u)" using memchr_first [OF u(2)] by simp
  have "line_ok line" "line_text line = t" using u(1) mem by (simp_all add: line_def line_ok_def line_text_def)
  with image_ok_insert [OF env Cons.prems(4), of line] Cons.prems(5) obtain img1 where
    img1: "git_vector_insert al img (Some line) = Some (0, img1)" "image_ok img1 (ds @ [t])" by auto
  have "image_lines al ok memory in_len (length d) img = image_lines al ok memory in_len (length (d @ t)) img1"
    using room chr ok img1(1) u(1) by (subst image_lines.simps) (simp add: Let_def line_def)
  moreover from Cons.IH [of "d @ t" img1 "ds @ [t]"] Cons.prems img1(2) obtain img2 where
    "image_lines al ok memory in_len (length (d @ t)) img1 = image_lines al ok memory in_len (length ((d @ t) @ concat ts)) img2"
    "image_ok img2 ((ds @ [t]) @ ts)" by auto
  ultimately show ?case by auto
next
  case Nil
  then show ?case by (intro exI [of _ img]) simp
qed

lemma patch_image_init_lines:
  assumes "cells_env al" and "\<forall>n. ok n" and "\<forall>t\<in>set ts. file_line t" and "length ts < VEC_LIMIT"
  shows "\<exists>img. patch_image_init_fromstr al ok (concat ts @ beyond) (length (concat ts)) = Some (0, img) \<and> image_ok img ts"
proof -
  from image_lines_read [OF assms(1-3), of "concat ts @ beyond" "[]" beyond "length (concat ts)" PATCH_IMAGE_INIT "[]"] image_ok_INIT assms(4)
  obtain img where "image_lines al ok (concat ts @ beyond) (length (concat ts)) 0 PATCH_IMAGE_INIT =
      image_lines al ok (concat ts @ beyond) (length (concat ts)) (length (concat ts)) img" "image_ok img ts" by auto
  then show ?thesis by (simp add: patch_image_init_fromstr_def image_lines.simps [of _ _ _ _ "length (concat ts)"])
qed

text \<open>A source whose last line has no newline: the search runs past the source, and unless there is a newline by chance the
  code goes on from a NULL pointer.\<close>

lemma patch_image_init_no_newline:
  assumes "cells_env al" and "\<forall>n. ok n" and "\<forall>t\<in>set ts. file_line t" and "length ts < VEC_LIMIT"
    and "t \<noteq> []" and "10 \<notin> set (take (length (concat ts @ t)) (t @ beyond))"
  shows "patch_image_init_fromstr al ok ((concat ts @ t) @ beyond) (length (concat ts @ t)) = None"
proof -
  let ?memory = "(concat ts @ t) @ beyond" and ?n = "length (concat ts @ t)"
  from image_lines_read [OF assms(1-3), of ?memory "[]" "t @ beyond" ?n PATCH_IMAGE_INIT "[]"] image_ok_INIT assms(4)
  obtain img where "image_lines al ok ?memory ?n 0 PATCH_IMAGE_INIT = image_lines al ok ?memory ?n (length (concat ts)) img" by auto
  moreover have "memchr 10 (take ?n (drop (length (concat ts)) ?memory)) = None"
  proof -
    have "takeWhile (\<lambda>x. x \<noteq> 10) s = s" if "10 \<notin> set s" for s :: "byte list" using that by (induction s) auto
    note whole = this [OF assms(6)]
    have "drop (length (concat ts)) ?memory = t @ beyond" by simp
    then show ?thesis by (simp only: memchr_def Let_def whole less_irrefl if_False)
  qed
  ultimately show ?thesis using assms(5) by (simp add: patch_image_init_fromstr_def image_lines.simps [of _ _ _ _ "length (concat ts)"])
qed

lemma put_image_text:
  assumes env: "alloc_env al"
  shows "\<forall>l\<in>set ls. line_ok l \<Longrightarrow> buf_wf out \<Longrightarrow> length (content out) + length (concat (map line_text ls)) < BUF_LIMIT \<Longrightarrow>
    \<exists>b. put_image al (map Some ls) out = Some b \<and> buf_wf b \<and> content b = content out @ concat (map line_text ls)"
proof (induction ls arbitrary: out)
  case (Cons l ls)
  have al: "good_alloc al" using env by (simp add: alloc_env_def)
  obtain b where b: "git_buf_put al out (line_text l) = Some (0, b)" "buf_wf b" "content b = content out @ line_text l"
    using buf_outcome_total [OF git_buf_put_outcome [OF al Cons.prems(2), of "line_text l"] env] Cons.prems(2,3) by auto
  from Cons.IH [OF _ b(2)] Cons.prems(1,3) b(3) obtain c where "put_image al (map Some ls) b = Some c" "buf_wf c"
      "content c = content b @ concat (map line_text ls)" by auto
  moreover have "put_image al (map Some (l # ls)) out = put_image al (map Some ls) b"
    using b(1) Cons.prems(1) by (simp add: line_ok_def line_text_def)
  ultimately show ?case using b(3) by auto
qed simp

lemma apply_each_mismatch:
  assumes env: "cells_env al" and lines: "\<forall>l\<in>set ls. line_ok l" and hunks: "hunks_for ls 0 es ks"
    and img: "image_ok img src" and old: "\<forall>t\<in>set (script_side GIT_DIFF_LINE_DELETION es). file_line t"
    and src: "mismatch es src" "\<forall>t\<in>set src. file_line t \<and> (\<forall>l\<in>set ls. length t \<le> length (dl_content l))"
    and n: "length src + length (script_side GIT_DIFF_LINE_ADDITION es) + 2 * length ls < 2 ^ 32"
  shows "\<exists>img'. apply_each al ls ks img = Some (-1, img')"
proof -
  obtain es1 u h es2 ts where es: "es = es1 @ (u, h) # es2" and ts: "src = script_side GIT_DIFF_LINE_DELETION es1 @ ts"
      "take (length (hunk_side GIT_DIFF_LINE_DELETION h)) (drop (length u) ts) \<noteq> hunk_side GIT_DIFF_LINE_DELETION h"
    using src(1) by (auto simp: mismatch_def)
  let ?d = "script_side GIT_DIFF_LINE_ADDITION es1"
  obtain ks1 ks2 where ks: "ks = ks1 @ ks2" "hunks_for ls 0 es1 ks1" "hunks_for ls (length ?d) ((u, h) # es2) ks2"
    using hunks_for_append [OF hunks [unfolded es]] by auto
  have sizes: "length (script_side GIT_DIFF_LINE_DELETION es1) + length ?d + 2 * length ls + length ts < 2 ^ 32"
      "length ?d + length u < 2 ^ 32" "length ls < VEC_LIMIT"
    using n by (simp_all add: es ts(1) script_side_def VEC_LIMIT_def)
  obtain img1 where img1: "apply_each al ls ks1 img = Some (0, img1)" "image_ok img1 (?d @ ts)"
    using apply_each_script [OF env lines, of "[]" es1 ks1 img ts] ks(2) img ts(1) sizes(1) by auto
  have "\<forall>t\<in>set (hunk_side GIT_DIFF_LINE_DELETION h). file_line t" using old by (auto simp: es script_side_def)
  from apply_each_refused [OF env lines ks(3) img1(2) this _ sizes(3,2) ts(2)] src(2)
  show ?thesis by (auto simp: ks(1) ts(1) apply_each_append [OF img1(1)])
qed

text \<open>C40: A patch of lines that end in newlines, applied to a source of lines that end in newlines. When its hunks describe an
  edit script and the source is the old side of the script, the result is the new side, whatever the memory behind the source
  holds. When the source does not have the lines of the old side at a hunk, the patch is refused, and nothing is put out. (The
  comparison of lines reads as many bytes of the patch as the line of the source has; the memory of the patch must reach as far.)\<close>

theorem git_apply__patch_script:
  assumes "alloc_env al" and "cells_env al_vec" and "\<forall>n. ok n" and "buf_wf out" and "content out = []"
    and "\<not> p_binary patch" and "p_hunks patch \<noteq> []" and "\<not> p_deleted patch" and "\<forall>l\<in>set (p_lines patch). line_ok l"
    and "hunks_for (p_lines patch) 0 es (p_hunks patch)"
    and "old = script_side GIT_DIFF_LINE_DELETION es @ tail" and "new = script_side GIT_DIFF_LINE_ADDITION es @ tail"
    and "\<forall>t\<in>set old. file_line t" and "length old + length new + 2 * length (p_lines patch) < 2 ^ 32" and "length (concat new) < BUF_LIMIT"
  shows "(\<exists>b. git_apply__patch al al_vec ok inflate out (concat old @ beyond) (length (concat old)) patch =
      Some (0, b, Some (cstr (p_new_path patch)), if p_new_mode patch \<noteq> 0 then p_new_mode patch else 0x81A4) \<and>
    buf_wf b \<and> content b = concat new) \<and>
    (\<forall>src. mismatch es src \<and> (\<forall>t\<in>set src. file_line t \<and> (\<forall>l\<in>set (p_lines patch). length t \<le> length (dl_content l))) \<and>
        length src + length new + 2 * length (p_lines patch) < 2 ^ 32 \<longrightarrow>
      git_apply__patch al al_vec ok inflate out (concat src @ beyond) (length (concat src)) patch = Some (-1, out, None, 0))"
proof (intro conjI allI impI)
  have "length old < VEC_LIMIT" using assms(14) by (simp add: VEC_LIMIT_def)
  with patch_image_init_lines [OF assms(2,3,13)] obtain img where
    img: "patch_image_init_fromstr al_vec ok (concat old @ beyond) (length (concat old)) = Some (0, img)" "image_ok img old" by blast
  have "image_ok img ([] @ script_side GIT_DIFF_LINE_DELETION es @ tail)" "hunks_for (p_lines patch) (length ([] :: byte list list)) es (p_hunks patch)"
    "length ([] :: byte list list) + length (script_side GIT_DIFF_LINE_DELETION es) + length (script_side GIT_DIFF_LINE_ADDITION es) +
      2 * length (p_lines patch) + length tail < 2 ^ 32"
    using img(2) assms(10,11,12,14) by simp_all
  from apply_each_script [OF assms(2,9) this(2,1,3)] obtain img' where
    img': "apply_each al_vec (p_lines patch) (p_hunks patch) img = Some (0, img')" "image_ok img' new" using assms(12) by auto
  obtain ls where ls: "items img' = map Some ls" "\<forall>l\<in>set ls. line_ok l" "map line_text ls = new" using img'(2) by (auto simp: image_ok_def)
  obtain b where "put_image al (map Some ls) out = Some b" "buf_wf b" "content b = concat new"
    using put_image_text [OF assms(1) ls(2) assms(4)] ls(3) assms(5,15) by auto
  then show "\<exists>b. git_apply__patch al al_vec ok inflate out (concat old @ beyond) (length (concat old)) patch =
      Some (0, b, Some (cstr (p_new_path patch)), if p_new_mode patch \<noteq> 0 then p_new_mode patch else 0x81A4) \<and> buf_wf b \<and> content b = concat new"
    using img(1) img'(1) ls(1) assms(6-8) by (simp add: git_apply__patch_def apply_hunks_def)
next
  fix src
  assume src: "mismatch es src \<and> (\<forall>t\<in>set src. file_line t \<and> (\<forall>l\<in>set (p_lines patch). length t \<le> length (dl_content l))) \<and>
    length src + length new + 2 * length (p_lines patch) < 2 ^ 32"
  then have "length src < VEC_LIMIT" "\<forall>t\<in>set src. file_line t" by (auto simp: VEC_LIMIT_def)
  with patch_image_init_lines [OF assms(2,3)] obtain img where
    img: "patch_image_init_fromstr al_vec ok (concat src @ beyond) (length (concat src)) = Some (0, img)" "image_ok img src" by blast
  have "\<forall>t\<in>set (script_side GIT_DIFF_LINE_DELETION es). file_line t"
    "length src + length (script_side GIT_DIFF_LINE_ADDITION es) + 2 * length (p_lines patch) < 2 ^ 32"
    using assms(11,12,13) src by auto
  from apply_each_mismatch [OF assms(2,9,10) img(2) this(1) _ _ this(2)] src
  obtain img' where "apply_each al_vec (p_lines patch) (p_hunks patch) img = Some (-1, img')" by blast
  then show "git_apply__patch al al_vec ok inflate out (concat src @ beyond) (length (concat src)) patch = Some (-1, out, None, 0)"
    using img(1) assms(6-8) by (simp add: git_apply__patch_def apply_hunks_def)
qed

definition sample_patch :: git_patch where
  "sample_patch = \<lparr>p_deleted = False, p_binary = False, p_new_path = [102], p_new_mode = 0,
     p_new_file = \<lparr>bin_type = GIT_DIFF_BINARY_NONE, bin_data = [], bin_inflatedlen = 0\<rparr>,
     p_old_file = \<lparr>bin_type = GIT_DIFF_BINARY_NONE, bin_data = [], bin_inflatedlen = 0\<rparr>,
     p_hunks = [\<lparr>ph_new_start = 2, ph_line_start = 0, ph_line_count = 3\<rparr>],
     p_lines = [\<lparr>dl_origin = 32, dl_content_len = 2, dl_content_offset = 0, dl_content = [98, 10, 45]\<rparr>,
       \<lparr>dl_origin = 45, dl_content_len = 2, dl_content_offset = 0, dl_content = [99, 10, 43]\<rparr>,
       \<lparr>dl_origin = 43, dl_content_len = 2, dl_content_offset = 0, dl_content = [100, 10]\<rparr>]\<rparr>"

definition sample_script :: "edit list" where
  "sample_script = [([[97, 10]], [(32, [98, 10]), (45, [99, 10]), (43, [100, 10])])]"

lemma sample_mismatch: "mismatch sample_script [[97, 10], [98, 10], [120, 10]]"
  unfolding mismatch_def sample_script_def
  by (intro exI [of _ "[]"] exI [of _ "[[97, 10]]"] exI [of _ "[(32, [98, 10]), (45, [99, 10]), (43, [100, 10])]"] exI [of _ "[]"]
      exI [of _ "[[97, 10], [98, 10], [120, 10]]"]) (simp add: script_side_def hunk_side_def)

theorem git_apply__patch_script_witness:
  "(\<exists>b. git_apply__patch (fill_alloc 0) (fill_alloc None) (\<lambda>_. True) (\<lambda>_. (0, GIT_BUF_INIT)) GIT_BUF_INIT
      (concat [[97, 10], [98, 10], [99, 10], [101, 10]] @ [7]) (length (concat [[97, 10], [98, 10], [99, 10], [101, 10 :: byte]])) sample_patch =
      Some (0, b, Some [102], 0x81A4) \<and>
    content b = [97, 10, 98, 10, 100, 10, 101, 10]) \<and>
   git_apply__patch (fill_alloc 0) (fill_alloc None) (\<lambda>_. True) (\<lambda>_. (0, GIT_BUF_INIT)) GIT_BUF_INIT
      (concat [[97, 10], [98, 10], [120, 10]] @ [7]) (length (concat [[97, 10], [98, 10], [120, 10 :: byte]])) sample_patch =
      Some (-1, GIT_BUF_INIT, None, 0)"
proof -
  let ?run = "\<lambda>src. git_apply__patch (fill_alloc 0) (fill_alloc None) (\<lambda>_. True) (\<lambda>_. (0, GIT_BUF_INIT)) GIT_BUF_INIT
      (concat src @ [7]) (length (concat src)) sample_patch"
  let ?old = "[[97, 10], [98, 10], [99, 10], [101, 10]]" and ?bad = "[[97, 10], [98, 10], [120, 10]]"
  have all: "(\<exists>b. ?run ?old = Some (0, b, Some (cstr (p_new_path sample_patch)), if p_new_mode sample_patch \<noteq> 0 then p_new_mode sample_patch else 0x81A4) \<and>
      buf_wf b \<and> content b = concat [[97, 10], [98, 10], [100, 10], [101, 10]]) \<and>
    (\<forall>src. mismatch sample_script src \<and> (\<forall>t\<in>set src. file_line t \<and> (\<forall>l\<in>set (p_lines sample_patch). length t \<le> length (dl_content l))) \<and>
        length src + length [[97, 10], [98, 10], [100, 10], [101, 10 :: byte]] + 2 * length (p_lines sample_patch) < 2 ^ 32 \<longrightarrow>
      ?run src = Some (-1, GIT_BUF_INIT, None, 0))"
    by (rule git_apply__patch_script [where tail = "[[101, 10]]"])
      (auto simp: sample_patch_def sample_script_def line_ok_def line_text_def origin_text_def hunk_line_def script_side_def hunk_side_def file_line_def
        BUF_LIMIT_def numeral_3_eq_3)
  moreover have "?run ?bad = Some (-1, GIT_BUF_INIT, None, 0)"
  proof (rule all [THEN conjunct2, rule_format], intro conjI sample_mismatch)
    show "\<forall>t\<in>set ?bad. file_line t \<and> (\<forall>l\<in>set (p_lines sample_patch). length t \<le> length (dl_content l))"
      by (auto simp: sample_patch_def file_line_def)
  qed (simp add: sample_patch_def)
  moreover have "cstr (p_new_path sample_patch) = [102]" "p_new_mode sample_patch = 0" by (simp_all add: sample_patch_def cstr_def)
  ultimately show ?thesis by auto
qed

text \<open>The comparison of lines looks at the memory of the preimage's line beyond its end: a line without a newline, at the end of
  a patch, matches a line with one.\<close>

lemma line_matches_beyond:
  "line_matches \<lparr>dl_origin = 45, dl_content_len = 1, dl_content_offset = 0, dl_content = [97, 10, 92]\<rparr>
     \<lparr>dl_origin = 0, dl_content_len = 2, dl_content_offset = 0, dl_content = [97, 10]\<rparr> = Some True"
  by (simp add: line_matches_def)

end
