(* ===== verification/Spec2Isabelle.thy ===== *)
theory Spec2Isabelle
  imports BufferSpec PQueue DeltaEnc Fnmatch Shorten Message Numbers Refs TreeSpec Commit TreeCache SmartPkt Apply
begin

text \<open>
  A verification library for the core of libgit2 (libgit2/src), the C library under the repository manager: its containers
  and text routines, the names it accepts, the objects it writes and reads, and the formats in which data reaches it.

  \<^bold>\<open>The program and its theories.\<close>
  QtZekyllManager is a Qt front end (manager/, C++) over two bundled libraries, libgit2 (C) and QScintilla (C++). The logic that
  can lose or corrupt data is that of libgit2. Its layers, from the bottom, and the theories that model them (all source
  files are those of libgit2/src; functions keep their names):

  \<^item> \<open>Prelude\<close>: integer.h, common.h, util.h. Checked arithmetic (\<open>add_sizet\<close>, \<open>mul_sizet\<close>), the allocation macros, C strings,
    character classes.
  \<^item> \<open>Buffer\<close>, \<open>BufferEdit\<close>, \<open>BufferCodec\<close>, \<open>BufferSpec\<close>: buffer.c. The state is the record \<open>git_buf\<close> (pointer, allocated size,
    size), the pointer being one of the sentinels \<open>git_buf__initbuf\<close> and \<open>git_buf__oom\<close>, NULL, or a block of bytes. Growth
    and appending; editing, joining and ownership; base64, base85 and quoting; and what all of it promises.
  \<^item> \<open>Sort\<close>, \<open>Vector\<close>, \<open>PQueue\<close>, \<open>GitArray\<close>: tsort.c with the binary searches of util.c, vector.c, pqueue.c, array.h. A
    \<open>git_vector\<close> has its cells, its length, its allocated size, its comparison callback and its flags.
  \<^item> \<open>BufText\<close>, \<open>Message\<close>, \<open>Strings\<close>, \<open>StrChr\<close>, \<open>Numbers\<close>: buf_text.c, message.c, and the string, number and UTF-8 routines of
    util.c.
  \<^item> \<open>Delta\<close>, \<open>DeltaSpec\<close>, \<open>DeltaEnc\<close>: delta.c. The index over a source buffer, the encoder and the decoder.
  \<^item> \<open>Fnmatch\<close>: fnmatch.c. The wildcard matcher and the relation \<open>glob\<close> that it decides.
  \<^item> \<open>Oid\<close>, \<open>Shorten\<close>: oid.c. Object ids as 20 bytes, and the trie that finds the shortest unambiguous prefix.
  \<^item> \<open>Refs\<close>, \<open>Refspec\<close>: refs.c, refspec.c. Reference names, symbolic references over a database that is an argument, and the
    renaming of references between repositories.
  \<^item> \<open>Path\<close>, \<open>Tree\<close>, \<open>TreeSpec\<close>, \<open>TreeCache\<close>: the checks of path.c, tree.c with strmap.h, tree-cache.c. Trees as lists of
    entries, the tree builder as a list of entries by name, and the cache of the index.
  \<^item> \<open>Signature\<close>, \<open>Commit\<close>: signature.c, commit.c. The text of a commit in both directions.
  \<^item> \<open>SmartPkt\<close>: transports/smart_pkt.c. The packets of the smart protocol.
  \<^item> \<open>Apply\<close>: apply.c. A patch applied to a file, on a vector of lines.

  The components call each other as the files do: vectors sort with \<open>git__tsort\<close> and search with \<open>git__bsearch\<close>; queues,
  the tree builder and the image of a patch are vectors; whatever is written goes through the operations of \<open>git_buf\<close>; trees
  check names with \<open>git_path_isvalid\<close>; commits use signatures and ids; refspecs use reference names and \<open>p_fnmatch\<close>;
  packets use ids, numbers and buffers; \<open>git_apply__patch\<close> uses \<open>git_delta_apply\<close>.

  \<^bold>\<open>Conventions.\<close>
  The target is LP64 with signed \<open>char\<close>. A byte is an \<open>8 word\<close>; flags, modes and node indices are words of their
  width; a \<open>size_t\<close> is a \<open>nat\<close> with the checks and the wrap-around of the code written out; signed
  numbers are \<open>int\<close>, wrapped by \<open>int32\<close> and \<open>int64\<close> where the code can overflow. An operation that updates a structure returns
  \<open>(code, structure)\<close>; \<open>None\<close> stands for an execution that leaves the defined behaviour of C (an access outside an object,
  a NULL pointer, a failed assertion) or does not end, unless the text at the definition says that it is an error; the tree
  cache has a type of outcomes of its own. So a theorem that says \<open>= Some\<close> says that the code returns and stays inside its
  memory. Allocation is an argument: an allocator gives a block or refuses, and \<open>alloc_env\<close> and \<open>cells_env\<close> say that it never
  refuses and gives the size asked for; where a theorem treats refusal, it says so. A C string is given by the bytes of
  its object from the pointer on; where the code can run past the end, the model is undefined there (\<open>Apply\<close>, \<open>SmartPkt\<close>),
  elsewhere the end counts as the NUL. The object database, the reference database, the hash function of \<open>strmap.h\<close>,
  the object checks and zlib are arguments of the definitions that use them.

  \<^bold>\<open>Bounds and fuel.\<close>
  \<open>BUF_LIMIT\<close> is \<open>2 ^ 62\<close> bytes for a buffer: below it the growth by half of \<open>buf_grow_size\<close> cannot wrap and ends.
  \<open>VEC_LIMIT\<close> is \<open>2 ^ 58\<close> elements, below which the growth of a vector by half cannot wrap.
  \<open>TSORT_LIMIT\<close> is 4096 elements, up to which the 128 slots of the run stack are shown to be enough;
  it bounds the builders of \<open>git_treebuilder_write_parse\<close>. Delta sources are below \<open>2 ^ 31\<close> and targets below \<open>2 ^ 28\<close> bytes, as the 32-bit fields of the index
  and the arithmetic of the encoder need. Components of reference names are below \<open>2 ^ 31\<close> bytes, the \<open>int\<close> in which
  their length is kept; longer ones are refused by the model's truncation as by the code's. Patterns have fewer than 64 stars, the recursion limit of \<open>p_fnmatch\<close>. Names in trees
  are below 65536 bytes, the width of \<open>filename_len\<close>; times are below \<open>2 ^ 32\<close>, the width of the format that writes them; files
  and patches have fewer than \<open>2 ^ 32\<close> lines, the width of the line number of \<open>update_hunk\<close>, and all their lines end in
  newlines, since without one \<open>patch_image_init_fromstr\<close> reads on behind the source. Packets are below 65000 bytes. Fuel is used for the depth of a tree
  cache, where \<open>git_tree_cache_read_ends\<close> shows that the size of the extension is enough, and for the depth of trees in a database
  that could be cyclic. All other loops are total functions with a measure, or a \<open>partial_function\<close> where the code can
  fail to end, and then the theorems prove that it returns.

  \<^bold>\<open>Interfaces.\<close>
  \<open>byte_sink\<close> (a buffer one appends to), \<open>sorter\<close> (a sort of an array of cells), \<open>priority_queue\<close> (a multiset whose least element is
  taken) and \<open>directory\<close> (a map from names to entries) are locales, interpreted by \<open>git_buf_put\<close>, \<open>git__tsort\<close>, \<open>git_pqueue_pop\<close>
  and the tree builder. Contracts with several outcomes are predicates that lemmas share: \<open>buf_outcome\<close>, \<open>vec_outcome\<close>,
  \<open>text_outcome\<close>.

  \<^bold>\<open>What is proved.\<close>
  \<^item> Containers: appending succeeds with exactly the data or fails and marks the buffer; growth ends; the timsort is the stable
    sort; sorted insertion is found again; the queues sort, and keep the greatest items when bounded.
  \<^item> Text: quoting, base85 (and base64 but for the padding), escaping, line endings, UTF-8, ids and numbers go there and back;
    the tokens of \<open>git__strtok\<close> are the non-empty fields; a message is tidied once and for all.
  \<^item> Deltas: the encoder stays in its arrays and the decoder gives the target back; decoding never exceeds the declared length.
  \<^item> Matching and names: the matcher decides \<open>glob\<close>; reference names that do not begin with a slash are accepted exactly if
    they are those of the specification \<open>ref_name_ok\<close>, whose forbidden characters are written out; normal forms are fixed points; neither accepted references nor accepted paths leave their directory; symbolic references are followed to their
    end; a refspec renames there and back.
  \<^item> Objects: trees, signatures, commits and the tree cache are read as they were written, with the exceptions the
    code makes; written trees are in the order of Git, stated on the bytes of the names; the message of a commit is divided
    into summary and body where \<open>summary_of\<close> and \<open>trimmed_to\<close> say; lookups by name and path are those of a map; invalidation
    marks exactly the root and the directories on the way.
  \<^item> Protocol and patches: every packet is parsed as written and nothing behind it is taken; the wants are
    packets with their lengths; a patch of an edit script turns one side of the script into the other, and refuses a source
    that does not have the lines of a hunk.

  \<^bold>\<open>What modelling showed.\<close>
  Theorems and lemmas that exhibit a defect of the code:
  \<^item> \<open>git_buf_put_after_oom\<close>: an append after a failed append stores through the one-byte sentinel.
  \<^item> \<open>git_delta_apply_overread\<close>: a copy operation whose arguments are missing is read behind the delta.
  \<^item> \<open>git_oid_shorten_add_after_error\<close>: an invalid character leaves a leaf of the trie marked as a node.
  \<^item> \<open>git__strntol64_missed_overflow\<close>: numbers of 20 digits are read as other numbers.
  \<^item> \<open>git_tree__parse_truncated_id\<close>: a tree cut off inside its last id is accepted.
  \<^item> \<open>git_commit__parse_no_message\<close>: a commit without a message is accepted and its message is a NULL pointer.
  \<^item> \<open>git_refspec__dwim_one_dst\<close>: a completed destination is written behind the rest of the search for the source.
  \<^item> \<open>git_tree_cache_read_overflow\<close>: 2^29 announced children overflow the heap.
  \<^item> \<open>git_pkt_buffer_wants_all_local\<close>: the array of heads is read past its end when all of them are local.
  \<^item> \<open>patch_image_init_no_newline\<close>, \<open>line_matches_beyond\<close>: a source without a newline at its end is read through a NULL pointer,
    and lines of different lengths match.
  \<^item> \<open>shorten_duplicate\<close>, \<open>git__strsep_all\<close>, \<open>git_reference__normalize_name_leading_slash\<close>: where the code differs from its
    documentation: an id added twice gives the length 41, \<open>git__strsep\<close> never returns the last field, and a leading slash is
    refused instead of removed.

  \<^bold>\<open>Not modelled.\<close>
  Everything whose meaning is input and output, threads, or the network: the object and reference databases and their
  backends (odb*, refdb*, pack*, indexer, mwindow), files and working trees (fileops, filebuf, checkout, iterator,
  status, stash, ignore, attributes, filters), the index on disk, configuration, remotes and transports (but for the packets),
  submodules, and the operations composed of these (merge, rebase, clone, fetch, push, blame, describe, notes). Of modelled
  files: \<open>git_delta_read_header_fromstream\<close>, \<open>git_vector_free_deep\<close> and other functions that only free, the writing of trees
  from the index, tree walks and batch updates, the creation of commits in a repository, references created or renamed through
  the backend, clock and configuration in signatures, and the precomposition of Unicode on Mac OS. The bundled
  libraries under deps/ (zlib, regex, http-parser, winhttp) and xdiff/, QScintilla, and the Qt front end are left out:
  the first are third-party code, the last is user interface.
\<close>

end
